(* ===== verification/Prelude.thy ===== *)
theory Prelude
  imports Main "HOL-Library.Word" "HOL-Library.Sublist" "HOL-Library.List_Lexorder"
begin

text \<open>
  What every component of the FastS3 development shares: the machine integer types of the
  source, its error type (\<^verbatim>\<open>crates/fs3-core/src/error.rs\<close>), the byte encodings of integers, and the
  list and word lemmas the component proofs use. (Further library functions, on strings and signed
  integers, are in theory \<open>Rust_Std\<close>.)
  The collections \<open>byte_simps\<close>, \<open>bit_lemmas\<close> and \<open>result_simps\<close> carry them into \<open>simp\<close>.
\<close>

unbundle bit_operations_syntax

named_theorems byte_simps \<open>lengths and round trips of integer byte encodings\<close>
named_theorems bit_lemmas \<open>bits of machine words after mask operations\<close>
named_theorems result_simps \<open>evaluation of fallible code\<close>

section \<open>Machine integers and errors\<close>

type_synonym u8 = "8 word"
type_synonym u16 = "16 word"
type_synonym u32 = "32 word"
type_synonym u64 = "64 word"
type_synonym bytes = "u8 list"

text \<open>
  The error enum of \<^verbatim>\<open>fs3-core\<close>. The diagnostic text each variant carries is left out: no code
  of the library branches on it.
\<close>

datatype kms_fault = KeyNotFound | KeyDisabled | Unavailable | KmsAccessDenied | InvalidCiphertext
  | Backend

datatype fs3_error = Io | InvalidLayout | Corrupt | InvalidArgument | NoSpace | AlreadyInitialized
  | NotInitialized | NotFound | Unsupported | Meta | TxnConflict | ObjectChanged | InvalidPart
  | InvalidObjectState | InvalidPartOrder | PartTooSmall | NoSuchUpload | QuotaExceeded
  | DeleteMarker | PreconditionFailed | Kms kms_fault | BadDigest | InvalidRequest | AccessDenied
  | ReplDataPending

type_synonym 'a result = "fs3_error + 'a"

text \<open>The question mark operator: an error leaves the enclosing function at once.\<close>

definition bind_res :: "'e + 'a \<Rightarrow> ('a \<Rightarrow> 'e + 'b) \<Rightarrow> 'e + 'b" where
  "bind_res r f = (case r of Inl e \<Rightarrow> Inl e | Inr x \<Rightarrow> f x)"

lemma bind_res_simps [simp, result_simps]: "bind_res (Inl e) f = Inl e" "bind_res (Inr x) f = f x"
  by (simp_all add: bind_res_def)

lemma bind_res_eq_Inr: "bind_res r f = Inr y \<longleftrightarrow> (\<exists>x. r = Inr x \<and> f x = Inr y)"
  by (cases r) auto

fun is_ok :: "'e + 'a \<Rightarrow> bool" where
  "is_ok (Inr _) = True"
| "is_ok (Inl _) = False"

section \<open>Bytes of integers\<close>

text \<open>
  \<open>nat_le k n\<close> are the \<open>k\<close> low bytes of \<open>n\<close>, least significant first, and \<open>le_nat\<close> reads them
  back; \<open>to_le_bytes\<close>, \<open>from_le_bytes\<close> and their big endian forms are the library methods of the
  unsigned types, at the width of the word.
\<close>

primrec nat_le :: "nat \<Rightarrow> nat \<Rightarrow> bytes" where
  "nat_le 0 n = []"
| "nat_le (Suc k) n = of_nat (n mod 256) # nat_le k (n div 256)"

primrec le_nat :: "bytes \<Rightarrow> nat" where
  "le_nat [] = 0"
| "le_nat (b # bs) = unat b + 256 * le_nat bs"

definition to_le_bytes :: "'a::len word \<Rightarrow> bytes" where
  "to_le_bytes w = nat_le (LENGTH('a) div 8) (unat w)"

definition from_le_bytes :: "bytes \<Rightarrow> 'a::len word" where
  "from_le_bytes bs = of_nat (le_nat bs)"

definition to_be_bytes :: "'a::len word \<Rightarrow> bytes" where
  "to_be_bytes w = rev (to_le_bytes w)"

definition from_be_bytes :: "bytes \<Rightarrow> 'a::len word" where
  "from_be_bytes bs = from_le_bytes (rev bs)"

lemma length_nat_le [simp]: "length (nat_le k n) = k"
  by (induction k arbitrary: n) auto

lemma le_nat_nat_le: "le_nat (nat_le k n) = n mod 256 ^ k"
proof (induction k arbitrary: n)
  case 0
  then show ?case by simp
next
  case (Suc k)
  have "unat (of_nat (n mod 256) :: u8) = n mod 256"
    by (simp add: unat_of_nat)
  then show ?case
    using mod_mult2_eq [of n 256 "256 ^ k"] by (simp add: Suc.IH add.commute)
qed

lemma le_nat_less: "le_nat bs < 256 ^ length bs"
proof (induction bs)
  case Nil
  then show ?case by simp
next
  case (Cons b bs)
  have "unat b < 256" using unsigned_less [of b] by simp
  with Cons.IH show ?case by simp
qed

lemma nat_le_le_nat: "length bs = k \<Longrightarrow> nat_le k (le_nat bs) = bs"
proof (induction bs arbitrary: k)
  case Nil
  then show ?case by simp
next
  case (Cons b bs)
  have b: "unat b < 256" using unsigned_less [of b] by simp
  obtain j where "k = Suc j" "length bs = j" using Cons.prems by auto
  with Cons.IH b show ?case by simp
qed

lemma length_to_le_bytes [simp, byte_simps]:
  "length (to_le_bytes (w :: 'a::len word)) = LENGTH('a) div 8"
  by (simp add: to_le_bytes_def)

lemma length_to_be_bytes [simp, byte_simps]:
  "length (to_be_bytes (w :: 'a::len word)) = LENGTH('a) div 8"
  by (simp add: to_be_bytes_def)

lemma from_to_le_bytes:
  assumes "8 * (LENGTH('a) div 8) = LENGTH('a::len)"
  shows "from_le_bytes (to_le_bytes (w :: 'a word)) = w"
proof -
  have "(256 :: nat) ^ (LENGTH('a) div 8) = 2 ^ LENGTH('a)"
    using power_mult [of "2::nat" 8 "LENGTH('a) div 8"] assms by simp
  then have "unat w mod 256 ^ (LENGTH('a) div 8) = unat w"
    using unsigned_less [of w] by simp
  then show ?thesis
    by (simp add: from_le_bytes_def to_le_bytes_def le_nat_nat_le)
qed

lemma from_to_le_bytes_widths [simp, byte_simps]:
  "from_le_bytes (to_le_bytes (a :: u16)) = a"
  "from_le_bytes (to_le_bytes (b :: u32)) = b"
  "from_le_bytes (to_le_bytes (c :: u64)) = c"
  by (rule from_to_le_bytes; simp)+

lemma from_to_be_bytes_widths [simp, byte_simps]:
  "from_be_bytes (to_be_bytes (b :: u32)) = b"
  "from_be_bytes (to_be_bytes (c :: u64)) = c"
  by (simp_all add: from_be_bytes_def to_be_bytes_def)

lemma to_from_le_bytes:
  assumes "8 * (LENGTH('a) div 8) = LENGTH('a::len)" and "length bs = LENGTH('a) div 8"
  shows "to_le_bytes (from_le_bytes bs :: 'a word) = bs"
proof -
  have "(256 :: nat) ^ (LENGTH('a) div 8) = 2 ^ LENGTH('a)"
    using power_mult [of "2::nat" 8 "LENGTH('a) div 8"] assms(1) by simp
  then have "le_nat bs < 2 ^ LENGTH('a)"
    using le_nat_less [of bs] assms(2) by simp
  then have "unat (from_le_bytes bs :: 'a word) = le_nat bs"
    by (simp add: from_le_bytes_def unat_of_nat take_bit_nat_eq_self_iff)
  then show ?thesis
    by (simp add: to_le_bytes_def nat_le_le_nat assms(2))
qed

lemma to_from_be_bytes:
  "length bs = 8 \<Longrightarrow> to_be_bytes (from_be_bytes bs :: u64) = bs"
  "length bs = 4 \<Longrightarrow> to_be_bytes (from_be_bytes bs :: u32) = bs"
  by (simp_all add: to_be_bytes_def from_be_bytes_def to_from_le_bytes)

text \<open>Big endian bytes of equal width compare as the numbers do.\<close>

lemma nat_le_snoc: "nat_le (Suc k) n = nat_le k n @ [of_nat (n div 256 ^ k mod 256)]"
  by (induction k arbitrary: n) (simp_all add: div_mult2_eq)

lemma u8_of_nat_less:
  assumes "a < 256" and "b < 256"
  shows "(of_nat a :: u8) < of_nat b \<longleftrightarrow> a < b" and "(of_nat a :: u8) = of_nat b \<longleftrightarrow> a = b"
proof -
  have "unat (of_nat a :: u8) = a" "unat (of_nat b :: u8) = b"
    using assms by (simp_all add: unat_of_nat)
  then show "(of_nat a :: u8) < of_nat b \<longleftrightarrow> a < b" "(of_nat a :: u8) = of_nat b \<longleftrightarrow> a = b"
    by (metis word_less_nat_alt) (metis \<open>unat (of_nat a) = a\<close> \<open>unat (of_nat b) = b\<close>)
qed

lemma div_mod_less_iff:
  fixes p :: nat
  assumes "0 < p"
  shows "m div p < n div p \<or> m div p = n div p \<and> m mod p < n mod p \<longleftrightarrow> m < n"
proof (cases "m div p" "n div p" rule: linorder_cases)
  case less
  then have "m < n" using div_le_mono [of n m p] by (meson not_le)
  with less show ?thesis by simp
next
  case equal
  then show ?thesis
    using div_mult_mod_eq [of m p] div_mult_mod_eq [of n p] by (metis nat_add_left_cancel_less less_irrefl)
next
  case greater
  then have "n < m" using div_le_mono [of m n p] by (meson not_le)
  with greater show ?thesis by simp
qed

lemma rev_nat_le_less:
  "m < 256 ^ k \<Longrightarrow> n < 256 ^ k \<Longrightarrow> rev (nat_le k m) < rev (nat_le k n) \<longleftrightarrow> m < n"
proof (induction k arbitrary: m n)
  case 0
  then show ?case by simp
next
  case (Suc k)
  let ?p = "(256 :: nat) ^ k"
  have bounds: "m div ?p < 256" "n div ?p < 256"
    using Suc.prems by (simp_all add: less_mult_imp_div_less mult.commute)
  have low: "nat_le k m = nat_le k (m mod ?p)" "nat_le k n = nat_le k (n mod ?p)"
    by (metis le_nat_nat_le length_nat_le nat_le_le_nat)+
  have IH: "rev (nat_le k m) < rev (nat_le k n) \<longleftrightarrow> m mod ?p < n mod ?p"
    using Suc.IH [of "m mod ?p" "n mod ?p"] low by simp
  have "rev (nat_le (Suc k) m) < rev (nat_le (Suc k) n) \<longleftrightarrow>
      m div ?p < n div ?p \<or> m div ?p = n div ?p \<and> m mod ?p < n mod ?p"
    using bounds u8_of_nat_less [of "m div ?p" "n div ?p"] IH
    by (simp only: nat_le_snoc rev_append rev.simps append.simps Cons_less_Cons mod_less)
  also have "\<dots> \<longleftrightarrow> m < n"
    by (rule div_mod_less_iff) simp
  finally show ?case .
qed

lemma to_be_bytes_less:
  assumes "8 * (LENGTH('a) div 8) = LENGTH('a::len)"
  shows "to_be_bytes (v :: 'a word) < to_be_bytes w \<longleftrightarrow> v < w"
proof -
  have p: "(256 :: nat) ^ (LENGTH('a) div 8) = 2 ^ LENGTH('a)"
    using power_mult [of "2::nat" 8 "LENGTH('a) div 8"] assms by simp
  have "unat v < 256 ^ (LENGTH('a) div 8)" "unat w < 256 ^ (LENGTH('a) div 8)"
    using unsigned_less [of v] unsigned_less [of w] p by simp_all
  then show ?thesis
    by (simp add: to_be_bytes_def to_le_bytes_def rev_nat_le_less word_less_nat_alt)
qed

lemma to_be_bytes_inject:
  assumes "8 * (LENGTH('a) div 8) = LENGTH('a::len)"
  shows "to_be_bytes (v :: 'a word) = to_be_bytes w \<longleftrightarrow> v = w"
  using from_to_le_bytes [OF assms] by (metis rev_rev_ident to_be_bytes_def)

lemma append_less_append:
  "length xs = length (ys :: 'a::linorder list) \<Longrightarrow>
     xs @ us < ys @ vs \<longleftrightarrow> xs < ys \<or> xs = ys \<and> us < vs"
  by (induction xs ys rule: list_induct2) auto

end
