(* ===== verification/Bitmap.thy ===== *)
theory Bitmap
  imports Prelude
begin

text \<open>
  The in-memory extent bitmap, \<^verbatim>\<open>crates/fs3-alloc/src/bitmap.rs\<close>: one bit per extent in a vector of
  64-bit words. Every method of \<^verbatim>\<open>Bitmap\<close> is one definition, named \<open>bm_\<close> and the method's name; a
  method that mutates returns the new bitmap. Each compare-and-swap loop is modelled here as one
  uninterrupted pass (the exchange succeeds); theory \<open>Bitmap_Race\<close> models the loops step by step
  with other threads in between. An identifier is a \<open>nat\<close>; the code indexes \<^verbatim>\<open>words\<close> with it and panics
  beyond the vector, so every law assumes \<open>bm_in\<close>, which the callers' guards establish.

  The abstraction \<open>bm_bits\<close> is the set of allocated ids. The laws of the methods over it form the locale
  \<open>extent_map\<close> (theory \<open>Extent_Map\<close>), the interface the allocator is proved against.
\<close>

section \<open>The bitmap and its methods\<close>

record bitmap =
  words :: "u64 list"
  bm_n :: nat

definition div_ceil :: "nat \<Rightarrow> nat \<Rightarrow> nat" where
  "div_ceil a b = (a + (b - 1)) div b"

definition bm_new :: "nat \<Rightarrow> bitmap" where
  "bm_new n = \<lparr>words = replicate (div_ceil n 64) 0, bm_n = n\<rparr>"

definition word_idx :: "nat \<Rightarrow> nat" where
  "word_idx eid = eid div 64"

definition bit_mask :: "nat \<Rightarrow> u64" where
  "bit_mask eid = push_bit (eid mod 64) 1"

definition bm_set_bit :: "bitmap \<Rightarrow> nat \<Rightarrow> bool \<times> bitmap" where
  "bm_set_bit b eid =
     (let w = word_idx eid; mask = bit_mask eid; cur = words b ! w in
      if cur AND mask \<noteq> 0 then (False, b)
      else (True, b\<lparr>words := (words b)[w := cur OR mask]\<rparr>))"

definition bm_clear_bit :: "bitmap \<Rightarrow> nat \<Rightarrow> bool \<times> bitmap" where
  "bm_clear_bit b eid =
     (let w = word_idx eid; mask = bit_mask eid; cur = words b ! w in
      if cur AND mask = 0 then (False, b)
      else (True, b\<lparr>words := (words b)[w := cur AND NOT mask]\<rparr>))"

definition bm_test :: "bitmap \<Rightarrow> nat \<Rightarrow> bool" where
  "bm_test b eid = (words b ! word_idx eid AND bit_mask eid \<noteq> 0)"

text \<open>\<^verbatim>\<open>u64::trailing_zeros\<close>: the index of the lowest set bit (64 for zero).\<close>

definition trailing_zeros :: "u64 \<Rightarrow> nat" where
  "trailing_zeros w = length (takeWhile (\<lambda>i. \<not> bit w i) [0..<64])"

text \<open>
  \<^verbatim>\<open>alloc_one\<close>: the scan over the words, from the hint's word once around. The result is the id, the
  new hint and the new bitmap.
\<close>

fun alloc_scan :: "bitmap \<Rightarrow> nat \<Rightarrow> nat list \<Rightarrow> nat \<Rightarrow> nat option \<times> nat \<times> bitmap" where
  "alloc_scan b start_word [] hint = (None, hint, b)"
| "alloc_scan b start_word (step # steps) hint =
     (let wi = (start_word + step) mod length (words b);
          cur = words b ! wi; free = NOT cur in
      if free = 0 then alloc_scan b start_word steps hint
      else let bt = trailing_zeros free; eid = wi * 64 + bt in
        if bm_n b \<le> eid then alloc_scan b start_word steps hint
        else (Some eid, eid + 1, b\<lparr>words := (words b)[wi := cur OR push_bit bt 1]\<rparr>))"

definition bm_alloc_one :: "bitmap \<Rightarrow> nat \<Rightarrow> nat option \<times> nat \<times> bitmap" where
  "bm_alloc_one b hint =
     (let nwords = length (words b) in
      if nwords = 0 then (None, hint, b)
      else alloc_scan b (hint div 64 mod nwords) [0..<nwords] hint)"

text \<open>
  \<^verbatim>\<open>alloc_one_in_range\<close>: the same scan over the words of the window \<open>[start, start + count)\<close>, with the
  bits of the first and last word outside the window masked away.
\<close>

definition window_free :: "nat \<Rightarrow> nat \<Rightarrow> nat \<Rightarrow> u64 \<Rightarrow> u64" where
  "window_free start endd wi cur =
     (let start_bit_mask = NOT (push_bit (start mod 64) 1 - 1);
          end_bit_mask = (if endd mod 64 = 0 then - 1 else push_bit (endd mod 64) 1 - 1);
          f0 = NOT cur;
          f1 = (if wi = word_idx start then f0 AND start_bit_mask else f0)
      in if wi = word_idx (endd - 1) then f1 AND end_bit_mask else f1)"

fun range_scan ::
  "bitmap \<Rightarrow> nat \<Rightarrow> nat \<Rightarrow> nat \<Rightarrow> nat list \<Rightarrow> nat \<Rightarrow> nat option \<times> nat \<times> bitmap" where
  "range_scan b start endd hint_word [] hint = (None, hint, b)"
| "range_scan b start endd hint_word (step # steps) hint =
     (let start_word = word_idx start;
          nwords = word_idx (endd - 1) - start_word + 1;
          wi = start_word + (hint_word - start_word + step) mod nwords;
          cur = words b ! wi; free = window_free start endd wi cur in
      if free = 0 then range_scan b start endd hint_word steps hint
      else let bt = trailing_zeros free; eid = wi * 64 + bt in
        (Some eid, eid + 1, b\<lparr>words := (words b)[wi := cur OR push_bit bt 1]\<rparr>))"

definition bm_alloc_one_in_range ::
  "bitmap \<Rightarrow> nat \<Rightarrow> nat \<Rightarrow> nat \<Rightarrow> nat option \<times> nat \<times> bitmap" where
  "bm_alloc_one_in_range b hint start count =
     (if count = 0 then (None, hint, b)
      else let endd = start + count;
               nwords = word_idx (endd - 1) - word_idx start + 1;
               hint_word = (if hint < start \<or> endd \<le> hint then word_idx start else word_idx hint)
           in range_scan b start endd hint_word [0..<nwords] hint)"

text \<open>\<^verbatim>\<open>serialize\<close>: the bytes of each word, in order, cut off at the byte length of the bitmap.\<close>

fun ser_word :: "bytes \<Rightarrow> nat \<Rightarrow> nat \<Rightarrow> bytes \<Rightarrow> bytes" where
  "ser_word out nbytes pos [] = out"
| "ser_word out nbytes pos (x # xs) =
     (if nbytes \<le> pos then out else ser_word (out[pos := x]) nbytes (pos + 1) xs)"

fun ser_words :: "bytes \<Rightarrow> nat \<Rightarrow> nat \<Rightarrow> u64 list \<Rightarrow> bytes" where
  "ser_words out nbytes i [] = out"
| "ser_words out nbytes i (w # ws) =
     ser_words (ser_word out nbytes (i * 8) (to_le_bytes w)) nbytes (i + 1) ws"

definition bm_serialize :: "bitmap \<Rightarrow> bytes" where
  "bm_serialize b =
     (let nbytes = div_ceil (bm_n b) 8 in ser_words (replicate nbytes 0) nbytes 0 (words b))"

text \<open>
  \<^verbatim>\<open>serialize_range\<close>: the loop takes what is left of the current word in each round. Setting a bit of
  the output is \<open>or_bit\<close>.
\<close>

definition or_bit :: "bytes \<Rightarrow> nat \<Rightarrow> bytes" where
  "or_bit out i = out[i div 8 := (out ! (i div 8)) OR push_bit (i mod 8) 1]"

function serialize_loop :: "bitmap \<Rightarrow> nat \<Rightarrow> nat \<Rightarrow> nat \<Rightarrow> bytes \<Rightarrow> bytes" where
  "serialize_loop b start count dn out =
     (if dn < count then
        (let eid = start + dn; w = words b ! word_idx eid; from_bit = eid mod 64;
             taken = min (64 - from_bit) (count - dn);
             mask_lo = (if taken = 64 then - 1 else push_bit taken 1 - 1);
             bits = drop_bit from_bit w AND mask_lo;
             out' = fold (\<lambda>j o'. if bits AND push_bit j 1 \<noteq> 0 then or_bit o' (dn + j) else o')
                      [0..<taken] out
         in serialize_loop b start count (dn + taken) out')
      else out)"
  by pat_completeness auto
termination
  by (relation "measure (\<lambda>(b, start, count, dn, out). count - dn)") (auto simp: Let_def)

declare serialize_loop.simps [simp del]

definition bm_serialize_range :: "bitmap \<Rightarrow> nat \<Rightarrow> nat \<Rightarrow> bytes" where
  "bm_serialize_range b start count =
     serialize_loop b start count 0 (replicate (div_ceil count 8) 0)"

definition bm_count_ones_range :: "bitmap \<Rightarrow> nat \<Rightarrow> nat \<Rightarrow> nat" where
  "bm_count_ones_range b start count = length (filter (\<lambda>i. bm_test b (start + i)) [0..<count])"

text \<open>\<^verbatim>\<open>load_range\<close> only sets bits; \<^verbatim>\<open>load\<close> replaces every word (\<open>None\<close> is its failed assertion).\<close>

definition load_byte :: "nat \<Rightarrow> u8 \<Rightarrow> bitmap \<Rightarrow> bitmap" where
  "load_byte base_bit x b =
     (if x = 0 then b
      else fold (\<lambda>j b'. if x AND push_bit j 1 \<noteq> 0 then snd (bm_set_bit b' (base_bit + j)) else b')
             [0..<8] b)"

fun bm_load_range :: "bitmap \<Rightarrow> bytes \<Rightarrow> nat \<Rightarrow> bitmap" where
  "bm_load_range b [] start = b"
| "bm_load_range b (x # xs) start = bm_load_range (load_byte start x b) xs (start + 8)"

definition load_word :: "bytes \<Rightarrow> nat \<Rightarrow> nat \<Rightarrow> u64" where
  "load_word bs expect i =
     fold (\<lambda>j v. let src = i * 8 + j in
             if src < expect \<and> src < length bs then v OR push_bit (j * 8) (ucast (bs ! src)) else v)
       [0..<8] 0"

definition bm_load :: "bitmap \<Rightarrow> bytes \<Rightarrow> bitmap option" where
  "bm_load b bs =
     (let expect = div_ceil (bm_n b) 8 in
      if length bs < expect then None
      else Some (b\<lparr>words := map (load_word bs expect) [0..<length (words b)]\<rparr>))"

definition count_ones_u64 :: "u64 \<Rightarrow> nat" where
  "count_ones_u64 w = length (filter (bit w) [0..<64])"

definition bm_count_ones :: "bitmap \<Rightarrow> nat" where
  "bm_count_ones b = sum_list (map count_ones_u64 (words b))"

text \<open>\<^verbatim>\<open>truncate\<close> asserts that it does not go below zero (\<open>None\<close>); \<^verbatim>\<open>extend\<close> appends zero words.\<close>

definition bm_truncate :: "bitmap \<Rightarrow> nat \<Rightarrow> bitmap option" where
  "bm_truncate b count =
     (if count \<le> bm_n b
      then (let n' = bm_n b - count in Some \<lparr>words = take (div_ceil n' 64) (words b), bm_n = n'\<rparr>)
      else None)"

definition bm_extend :: "bitmap \<Rightarrow> nat \<Rightarrow> bitmap" where
  "bm_extend b count =
     (let old_words = length (words b); new_n = bm_n b + count; new_words = div_ceil new_n 64 in
      \<lparr>words = words b @ replicate (new_words - old_words) 0, bm_n = new_n\<rparr>)"

section \<open>The abstraction: the set of allocated ids\<close>

definition bm_in :: "bitmap \<Rightarrow> nat \<Rightarrow> bool" where
  "bm_in b eid \<longleftrightarrow> word_idx eid < length (words b)"

definition bm_bits :: "bitmap \<Rightarrow> nat set" where
  "bm_bits b = {eid. bm_in b eid \<and> bit (words b ! (eid div 64)) (eid mod 64)}"

text \<open>The shape every constructor establishes and no set bit beyond the size.\<close>

definition bm_wf :: "bitmap \<Rightarrow> bool" where
  "bm_wf b \<longleftrightarrow> length (words b) = div_ceil (bm_n b) 64 \<and> bm_bits b \<subseteq> {..<bm_n b}"

lemma bm_in_iff: "bm_in b eid \<longleftrightarrow> eid < 64 * length (words b)"
  by (auto simp: bm_in_def word_idx_def less_mult_imp_div_less mult.commute dividend_less_times_div
      intro: div_less_iff_less_mult [THEN iffD1])

lemma bm_wf_in: "bm_wf b \<Longrightarrow> eid < bm_n b \<Longrightarrow> bm_in b eid"
  by (auto simp: bm_wf_def bm_in_iff div_ceil_def)

lemma finite_bm_bits [simp]: "finite (bm_bits b)"
  by (rule finite_subset [of _ "{..<64 * length (words b)}"]) (auto simp: bm_bits_def bm_in_iff)

lemma bm_bits_bound: "eid \<in> bm_bits b \<Longrightarrow> eid < 64 * length (words b)"
  by (simp add: bm_bits_def bm_in_iff)

lemma and_exp_eq_0_iff [bit_lemmas]: "w AND push_bit i 1 = 0 \<longleftrightarrow> \<not> bit (w :: 'a::len word) i"
  by (simp add: and_exp_eq_0_iff_not_bit)

lemma bit_bit_mask [bit_lemmas]: "bit (bit_mask eid) i \<longleftrightarrow> i = eid mod 64"
  by (auto simp: bit_mask_def bit_simps)

lemma bm_test_iff: "bm_in b eid \<Longrightarrow> bm_test b eid \<longleftrightarrow> eid \<in> bm_bits b"
  by (simp add: bm_test_def bm_bits_def bit_mask_def word_idx_def and_exp_eq_0_iff_not_bit)

lemma div_mod_64_eq: "eid div 64 = eid' div 64 \<Longrightarrow> eid mod 64 = eid' mod 64 \<Longrightarrow> eid = (eid' :: nat)"
  by (metis div_mult_mod_eq)

text \<open>Writing one word changes the bits of its 64 ids only.\<close>

lemma bm_bits_update:
  assumes "w < length (words b)"
  shows "bm_bits (b\<lparr>words := (words b)[w := v]\<rparr>) =
    {eid \<in> bm_bits b. eid div 64 \<noteq> w} \<union> {eid. eid div 64 = w \<and> bit v (eid mod 64)}"
  using assms by (auto simp: bm_bits_def bm_in_def word_idx_def nth_list_update)

lemma bm_bits_or:
  assumes "w < length (words b)" and "k < 64"
  shows "bm_bits (b\<lparr>words := (words b)[w := words b ! w OR push_bit k 1]\<rparr>) =
    insert (w * 64 + k) (bm_bits b)"
proof (rule set_eqI)
  fix x
  have k: "x div 64 = w \<and> x mod 64 = k \<longleftrightarrow> x = w * 64 + k"
    using assms(2) div_mult_mod_eq [of x 64] by auto
  have "x \<in> bm_bits (b\<lparr>words := (words b)[w := words b ! w OR push_bit k 1]\<rparr>) \<longleftrightarrow>
      x \<in> bm_bits b \<or> x div 64 = w \<and> x mod 64 = k"
    unfolding bm_bits_update [OF assms(1)] using assms
    by (auto simp: bm_bits_def bm_in_def word_idx_def bit_or_iff bit_exp_iff)
  then show "x \<in> bm_bits (b\<lparr>words := (words b)[w := words b ! w OR push_bit k 1]\<rparr>) \<longleftrightarrow>
      x \<in> insert (w * 64 + k) (bm_bits b)"
    unfolding k by blast
qed

lemma bm_set_bit_bits:
  assumes "bm_in b eid"
  shows "bm_bits (snd (bm_set_bit b eid)) = insert eid (bm_bits b)"
    and "fst (bm_set_bit b eid) \<longleftrightarrow> eid \<notin> bm_bits b"
proof -
  have w: "word_idx eid < length (words b)" using assms by (simp add: bm_in_def)
  have eid: "word_idx eid * 64 + eid mod 64 = eid" by (simp add: word_idx_def)
  have t: "words b ! word_idx eid AND bit_mask eid \<noteq> 0 \<longleftrightarrow> eid \<in> bm_bits b"
    using bm_test_iff [OF assms] by (simp add: bm_test_def)
  show "bm_bits (snd (bm_set_bit b eid)) = insert eid (bm_bits b)"
    using bm_bits_or [OF w, of "eid mod 64"] t eid
    by (auto simp: bm_set_bit_def Let_def bit_mask_def insert_absorb)
  show "fst (bm_set_bit b eid) \<longleftrightarrow> eid \<notin> bm_bits b"
    using t by (simp add: bm_set_bit_def Let_def)
qed

lemma bm_clear_bit_bits:
  assumes "bm_in b eid"
  shows "bm_bits (snd (bm_clear_bit b eid)) = bm_bits b - {eid}"
    and "fst (bm_clear_bit b eid) \<longleftrightarrow> eid \<in> bm_bits b"
proof -
  have w: "eid div 64 < length (words b)" using assms by (simp add: bm_in_def word_idx_def)
  have t: "words b ! word_idx eid AND bit_mask eid \<noteq> 0 \<longleftrightarrow> eid \<in> bm_bits b"
    using bm_test_iff [OF assms] by (simp add: bm_test_def)
  have "bm_bits (b\<lparr>words := (words b)[eid div 64 := words b ! (eid div 64) AND NOT (bit_mask eid)]\<rparr>)
      = bm_bits b - {eid}"
    unfolding bm_bits_update [OF w] using w
    by (auto simp: bm_bits_def bm_in_def word_idx_def bit_simps bit_bit_mask dest: div_mod_64_eq)
  then show "bm_bits (snd (bm_clear_bit b eid)) = bm_bits b - {eid}"
    using t by (auto simp: bm_clear_bit_def Let_def word_idx_def)
  show "fst (bm_clear_bit b eid) \<longleftrightarrow> eid \<in> bm_bits b"
    using t by (auto simp: bm_clear_bit_def Let_def)
qed

lemma bm_shape_simps [simp]:
  "length (words (snd (bm_set_bit b eid))) = length (words b)"
  "bm_n (snd (bm_set_bit b eid)) = bm_n b"
  "length (words (snd (bm_clear_bit b eid))) = length (words b)"
  "bm_n (snd (bm_clear_bit b eid)) = bm_n b"
  by (simp_all add: bm_set_bit_def bm_clear_bit_def Let_def)

lemma bm_in_simps [simp]:
  "bm_in (snd (bm_set_bit b eid)) = bm_in b" "bm_in (snd (bm_clear_bit b eid)) = bm_in b"
  by (auto simp: bm_in_def)

section \<open>Taking a free bit\<close>

lemma trailing_zeros_bit:
  assumes "w \<noteq> 0"
  shows "trailing_zeros w < 64" and "bit w (trailing_zeros w)"
    and "i < trailing_zeros w \<Longrightarrow> \<not> bit w i"
proof -
  let ?P = "\<lambda>i. \<not> bit w i"
  have "\<exists>k < 64. bit w k"
  proof (rule ccontr)
    assume "\<not> (\<exists>k < 64. bit w k)"
    then have "w = 0" by (intro bit_word_eqI) auto
    with assms show False by simp
  qed
  then have "takeWhile ?P [0..<64] \<noteq> [0..<64]"
    by (auto simp: takeWhile_eq_all_conv)
  then have lt: "length (takeWhile ?P [0..<64]) < length [0..<64]"
    by (metis length_takeWhile_le order_le_less takeWhile_eq_take take_all_iff)
  then show "trailing_zeros w < 64" by (simp add: trailing_zeros_def)
  show "bit w (trailing_zeros w)"
    using nth_length_takeWhile [OF lt] lt by (simp add: trailing_zeros_def)
  show "\<not> bit w i" if "i < trailing_zeros w"
    using that takeWhile_nth [of i ?P "[0..<64]"] lt set_takeWhileD [OF nth_mem, of i ?P "[0..<64]"]
    by (auto simp: trailing_zeros_def)
qed

lemma alloc_scan_Some:
  assumes "alloc_scan b sw steps h = (Some eid, h', b')" and "words b \<noteq> []"
  shows "bm_in b eid \<and> eid < bm_n b \<and> eid \<notin> bm_bits b \<and> bm_bits b' = insert eid (bm_bits b) \<and>
    h' = eid + 1 \<and> bm_n b' = bm_n b \<and> length (words b') = length (words b)"
  using assms
proof (induction steps)
  case Nil
  then show ?case by simp
next
  case (Cons step steps)
  define wi where "wi = (sw + step) mod length (words b)"
  define free where "free = NOT (words b ! wi)"
  note unfold = alloc_scan.simps(2) [of b sw step steps h, unfolded Let_def, folded wi_def, folded free_def]
  show ?case
  proof (cases "free = 0 \<or> bm_n b \<le> wi * 64 + trailing_zeros free")
    case True
    with Cons unfold show ?thesis by (auto split: if_splits)
  next
    case False
    have wi: "wi < length (words b)" using Cons.prems(2) by (simp add: wi_def)
    note tz = trailing_zeros_bit [of free]
    have eid: "eid = wi * 64 + trailing_zeros free" and h': "h' = eid + 1"
      and b': "b' = b\<lparr>words := (words b)[wi := words b ! wi OR push_bit (trailing_zeros free) 1]\<rparr>"
      using Cons.prems(1) False unfold by simp_all
    have dm: "eid div 64 = wi" "eid mod 64 = trailing_zeros free"
      using tz(1) False eid by simp_all
    have "\<not> bit (words b ! wi) (trailing_zeros free)"
      using tz(1,2) False by (simp add: free_def bit_not_iff)
    then have "eid \<notin> bm_bits b" by (simp add: bm_bits_def dm)
    moreover have "bm_bits b' = insert eid (bm_bits b)"
      using bm_bits_or [OF wi tz(1)] False by (simp only: b' eid) simp
    ultimately show ?thesis
      using False wi h' dm(1) eid b' by (simp add: bm_in_def word_idx_def)
  qed
qed

lemma alloc_scan_None:
  assumes "alloc_scan b sw steps h = (None, h', b')"
  shows "h' = h \<and> b' = b \<and>
    (\<forall>step \<in> set steps. \<forall>k < 64. (sw + step) mod length (words b) * 64 + k < bm_n b \<longrightarrow>
       bit (words b ! ((sw + step) mod length (words b))) k)"
  using assms
proof (induction steps)
  case Nil
  then show ?case by simp
next
  case (Cons step steps)
  define wi where "wi = (sw + step) mod length (words b)"
  define free where "free = NOT (words b ! wi)"
  note eqn = alloc_scan.simps(2) [of b sw step steps h, unfolded Let_def, folded wi_def, folded free_def]
  have full: "free = 0 \<or> bm_n b \<le> wi * 64 + trailing_zeros free"
    and rec: "alloc_scan b sw steps h = (None, h', b')"
    using Cons.prems eqn by (auto split: if_splits)
  have "bit (words b ! wi) k" if "k < 64" "wi * 64 + k < bm_n b" for k
  proof (rule ccontr)
    assume "\<not> bit (words b ! wi) k"
    then have k: "bit free k" using that(1) by (simp add: free_def bit_not_iff)
    then have "free \<noteq> 0" by auto
    then have "trailing_zeros free \<le> k"
      using trailing_zeros_bit(3) k by (meson linorder_not_less)
    with full \<open>free \<noteq> 0\<close> that(2) show False by linarith
  qed
  with Cons.IH [OF rec] show ?case by (auto simp: wi_def)
qed

lemma mod_shift_surj:
  assumes "wi < nw" and "sw < (nw :: nat)"
  shows "\<exists>step < nw. (sw + step) mod nw = wi"
proof (cases "sw \<le> wi")
  case True
  then show ?thesis using assms by (intro exI [of _ "wi - sw"]) auto
next
  case False
  then show ?thesis using assms by (intro exI [of _ "nw - sw + wi"]) auto
qed

lemma bm_alloc_one_Some:
  assumes "bm_alloc_one b h = (Some eid, h', b')"
  shows "bm_in b eid" "eid < bm_n b" "eid \<notin> bm_bits b" "bm_bits b' = insert eid (bm_bits b)"
    "h' = eid + 1" "bm_n b' = bm_n b" "length (words b') = length (words b)"
  using assms alloc_scan_Some [of b "h div 64 mod length (words b)" "[0..<length (words b)]" h eid h' b']
  by (auto simp: bm_alloc_one_def Let_def split: if_splits)

lemma bm_alloc_one_None:
  assumes "bm_alloc_one b h = (None, h', b')"
  shows "h' = h" "b' = b" "bm_in b eid \<Longrightarrow> eid < bm_n b \<Longrightarrow> eid \<in> bm_bits b"
proof -
  let ?nw = "length (words b)" and ?sw = "h div 64 mod length (words b)"
  have scan: "?nw = 0 \<or> alloc_scan b ?sw [0..<?nw] h = (None, h', b')"
    using assms by (auto simp: bm_alloc_one_def Let_def split: if_splits)
  show "h' = h" "b' = b"
    using assms alloc_scan_None [of b ?sw "[0..<?nw]" h h' b']
    by (auto simp: bm_alloc_one_def Let_def split: if_splits)
  show "eid \<in> bm_bits b" if "bm_in b eid" "eid < bm_n b"
  proof -
    have wi: "eid div 64 < ?nw" using that(1) by (simp add: bm_in_def word_idx_def)
    then have nw: "0 < ?nw" by (metis gr_implies_not0 gr0I)
    obtain step where "step < ?nw" "(?sw + step) mod ?nw = eid div 64"
      using mod_shift_surj [OF wi, of ?sw] nw by auto
    moreover have "\<forall>step \<in> set [0..<?nw]. \<forall>k < 64. (?sw + step) mod ?nw * 64 + k < bm_n b \<longrightarrow>
       bit (words b ! ((?sw + step) mod ?nw)) k"
      using scan nw alloc_scan_None by blast
    ultimately have "bit (words b ! (eid div 64)) (eid mod 64)"
      using that(2) by (metis atLeast_upt div_mult_mod_eq lessThan_iff mod_less_divisor zero_less_numeral)
    with that(1) show ?thesis by (simp add: bm_bits_def)
  qed
qed

text \<open>The window masks keep exactly the bits of ids inside the window.\<close>

lemma bit_low_mask [bit_lemmas]: "bit (push_bit k 1 - 1 :: u64) i \<longleftrightarrow> i < k \<and> i < 64"
  using bit_mask_iff [of k i, where 'a = u64] by (auto simp: mask_eq_exp_minus_1)

lemma window_free_bit:
  assumes "start < endd" and "word_idx start \<le> wi" "wi \<le> word_idx (endd - 1)" and k: "k < 64"
  shows "bit (window_free start endd wi cur) k \<longleftrightarrow>
    \<not> bit cur k \<and> start \<le> wi * 64 + k \<and> wi * 64 + k < endd"
proof -
  let ?p = "bit (if wi = word_idx start then NOT (push_bit (start mod 64) 1 - 1) else - 1 :: u64) k"
  let ?q = "bit (if wi = word_idx (endd - 1) then
      (if endd mod 64 = 0 then - 1 else push_bit (endd mod 64) 1 - 1) else - 1 :: u64) k"
  have "bit (window_free start endd wi cur) k \<longleftrightarrow> \<not> bit cur k \<and> ?p \<and> ?q"
    using k by (auto simp: window_free_def Let_def bit_and_iff bit_not_iff)
  moreover have "?p \<longleftrightarrow> start \<le> wi * 64 + k"
  proof (cases "wi = word_idx start")
    case True
    then have "?p \<longleftrightarrow> \<not> k < start mod 64"
      using k by (simp only: if_True bit_not_iff bit_low_mask possible_bit_word simp_thms) simp
    moreover have "\<not> k < start mod 64 \<longleftrightarrow> start \<le> wi * 64 + k"
      using True div_mult_mod_eq [of start 64] unfolding word_idx_def by linarith
    ultimately show ?thesis by blast
  next
    case False
    then have "start div 64 < wi" using assms(2) by (simp add: word_idx_def)
    then have "start < wi * 64" by (simp add: div_less_iff_less_mult)
    with False k show ?thesis by simp
  qed
  moreover have "?q \<longleftrightarrow> wi * 64 + k < endd"
  proof (cases "wi = word_idx (endd - 1)")
    case True
    then have wi: "wi = (endd - 1) div 64" by (simp add: word_idx_def)
    show ?thesis
    proof (cases "endd mod 64 = 0")
      case True
      then obtain m where m: "endd = 64 * m" by (metis mod_0_imp_dvd dvd_def)
      then have "wi = m - 1" using wi assms(1) by (cases m) auto
      then show ?thesis using m assms(1) k True \<open>wi = word_idx (endd - 1)\<close> by (cases m) auto
    next
      case False
      then have "(endd - 1) div 64 = endd div 64"
        by (metis diff_Suc_1 div_Suc not0_implies_Suc mod_0)
      then have "wi * 64 + endd mod 64 = endd" using wi by simp
      then show ?thesis
        using False k \<open>wi = word_idx (endd - 1)\<close>
        by (simp only: if_True if_False bit_low_mask simp_thms) linarith
    qed
  next
    case False
    then have "wi < (endd - 1) div 64" using assms(3) by (simp add: word_idx_def)
    then have "Suc wi * 64 \<le> endd - 1"
      by (metis Suc_leI le_trans mult_le_mono1 times_div_less_eq_dividend mult.commute)
    with False k show ?thesis by simp
  qed
  ultimately show ?thesis by blast
qed

lemma word_idx_mono: "a \<le> b \<Longrightarrow> word_idx a \<le> word_idx b"
  by (simp add: word_idx_def div_le_mono)

lemma range_wi_bounds:
  assumes "start < endd" and "wi = word_idx start + x mod (word_idx (endd - 1) - word_idx start + 1)"
  shows "word_idx start \<le> wi" and "wi \<le> word_idx (endd - 1)"
proof -
  have "word_idx start \<le> word_idx (endd - 1)" using assms(1) by (intro word_idx_mono) simp
  moreover have "x mod (word_idx (endd - 1) - word_idx start + 1) < word_idx (endd - 1) - word_idx start + 1"
    by (rule mod_less_divisor) simp
  ultimately show "word_idx start \<le> wi" "wi \<le> word_idx (endd - 1)"
    unfolding assms(2) by linarith+
qed

lemma range_scan_Some:
  assumes "range_scan b start endd hw steps h = (Some eid, h', b')"
    and "start < endd" and "bm_in b (endd - 1)"
  shows "start \<le> eid \<and> eid < endd \<and> bm_in b eid \<and> eid \<notin> bm_bits b \<and>
    bm_bits b' = insert eid (bm_bits b) \<and> h' = eid + 1 \<and> bm_n b' = bm_n b \<and>
    length (words b') = length (words b)"
  using assms(1)
proof (induction steps)
  case Nil
  then show ?case by simp
next
  case (Cons step steps)
  define wi where
    "wi = word_idx start + (hw - word_idx start + step) mod (word_idx (endd - 1) - word_idx start + 1)"
  define free where "free = window_free start endd wi (words b ! wi)"
  note eqn = range_scan.simps(2)
    [of b start endd hw step steps h, unfolded Let_def, folded wi_def, folded free_def]
  note wib = range_wi_bounds [OF assms(2) wi_def]
  show ?case
  proof (cases "free = 0")
    case True
    with Cons eqn show ?thesis by simp
  next
    case False
    have wi: "wi < length (words b)" using wib(2) assms(3) by (simp add: bm_in_def)
    note tz = trailing_zeros_bit [OF False]
    have eid: "eid = wi * 64 + trailing_zeros free" and h': "h' = eid + 1"
      and b': "b' = b\<lparr>words := (words b)[wi := words b ! wi OR push_bit (trailing_zeros free) 1]\<rparr>"
      using Cons.prems False eqn by simp_all
    have dm: "eid div 64 = wi" "eid mod 64 = trailing_zeros free" using tz(1) eid by simp_all
    have inw: "\<not> bit (words b ! wi) (trailing_zeros free)" "start \<le> eid" "eid < endd"
      using tz(1,2) window_free_bit [OF assms(2) wib tz(1)] by (simp_all add: free_def eid)
    have "eid \<notin> bm_bits b" using inw(1) by (simp add: bm_bits_def dm)
    moreover have "bm_bits b' = insert eid (bm_bits b)"
      using bm_bits_or [OF wi tz(1)] by (simp only: b' eid)
    ultimately show ?thesis
      using inw h' wi dm(1) b' by (simp add: bm_in_def word_idx_def)
  qed
qed

lemma range_scan_None:
  assumes "range_scan b start endd hw steps h = (None, h', b')" and "start < endd"
  shows "h' = h \<and> b' = b \<and>
    (\<forall>step \<in> set steps. \<forall>k < 64.
       (let wi = word_idx start +
          (hw - word_idx start + step) mod (word_idx (endd - 1) - word_idx start + 1)
        in start \<le> wi * 64 + k \<longrightarrow> wi * 64 + k < endd \<longrightarrow> bit (words b ! wi) k))"
  using assms(1)
proof (induction steps)
  case Nil
  then show ?case by simp
next
  case (Cons step steps)
  define wi where
    "wi = word_idx start + (hw - word_idx start + step) mod (word_idx (endd - 1) - word_idx start + 1)"
  define free where "free = window_free start endd wi (words b ! wi)"
  note eqn = range_scan.simps(2)
    [of b start endd hw step steps h, unfolded Let_def, folded wi_def, folded free_def]
  have free: "free = 0" and rec: "range_scan b start endd hw steps h = (None, h', b')"
    using Cons.prems eqn by (auto split: if_splits)
  have "bit (words b ! wi) k" if "k < 64" "start \<le> wi * 64 + k" "wi * 64 + k < endd" for k
    using window_free_bit [OF assms(2) range_wi_bounds [OF assms(2) wi_def] that(1), of "words b ! wi"]
      free that by (simp add: free_def)
  with Cons.IH [OF rec] show ?case by (simp add: Let_def wi_def)
qed

lemma bm_alloc_one_in_range_Some:
  assumes "bm_alloc_one_in_range b h start count = (Some eid, h', b')"
    and "bm_in b (start + count - 1)"
  shows "start \<le> eid" "eid < start + count" "bm_in b eid" "eid \<notin> bm_bits b"
    "bm_bits b' = insert eid (bm_bits b)" "h' = eid + 1" "bm_n b' = bm_n b"
    "length (words b') = length (words b)"
  using assms range_scan_Some [of b start "start + count" _ _ h eid h' b']
  by (force simp: bm_alloc_one_in_range_def Let_def split: if_splits)+

lemma bm_alloc_one_in_range_None:
  assumes "bm_alloc_one_in_range b h start count = (None, h', b')"
  shows "h' = h" "b' = b"
    "bm_in b eid \<Longrightarrow> start \<le> eid \<Longrightarrow> eid < start + count \<Longrightarrow> eid \<in> bm_bits b"
proof -
  define endd where "endd = start + count"
  define hw where "hw = (if h < start \<or> endd \<le> h then word_idx start else word_idx h)"
  define nw where "nw = word_idx (endd - 1) - word_idx start + 1"
  have scan: "count = 0 \<and> h' = h \<and> b' = b \<or>
      0 < count \<and> range_scan b start endd hw [0..<nw] h = (None, h', b')"
    using assms
    by (auto simp: bm_alloc_one_in_range_def Let_def endd_def hw_def nw_def split: if_splits)
  show "h' = h" "b' = b"
    using scan range_scan_None [of b start endd hw "[0..<nw]" h h' b'] by (auto simp: endd_def)
  show "eid \<in> bm_bits b" if "bm_in b eid" "start \<le> eid" "eid < start + count"
  proof -
    have lt: "start < endd" using that by (simp add: endd_def)
    have hwb: "word_idx start \<le> hw" "hw \<le> word_idx (endd - 1)"
      using lt by (auto simp: hw_def intro!: word_idx_mono)
    have wib: "word_idx start \<le> eid div 64" "eid div 64 \<le> word_idx (endd - 1)"
      using that word_idx_mono [of start eid] word_idx_mono [of eid "endd - 1"]
      by (simp_all add: word_idx_def endd_def)
    have "eid div 64 - word_idx start < nw" "hw - word_idx start < nw"
      using hwb wib unfolding nw_def by linarith+
    then obtain step where "step < nw"
      "(hw - word_idx start + step) mod nw = eid div 64 - word_idx start"
      using mod_shift_surj by meson
    then have "step \<in> set [0..<nw]" and
      wi: "word_idx start + (hw - word_idx start + step) mod nw = eid div 64"
      using wib(1) by simp_all
    have "range_scan b start endd hw [0..<nw] h = (None, h', b')"
      using scan that by simp
    note full = range_scan_None [OF this lt, THEN conjunct2, THEN conjunct2, folded nw_def,
        rule_format, OF \<open>step \<in> set [0..<nw]\<close>, of "eid mod 64", unfolded Let_def wi]
    have "bit (words b ! (eid div 64)) (eid mod 64)"
      using full that(2,3) by (simp add: endd_def)
    with that(1) show ?thesis by (simp add: bm_bits_def)
  qed
qed

end
