(* ===== verification/Bitmap_Codec.thy ===== *)
theory Bitmap_Codec
  imports Bitmap
begin

text \<open>
  The byte form of the bitmap, as checkpoints store it: \<^verbatim>\<open>serialize\<close>, \<^verbatim>\<open>serialize_range\<close>, \<^verbatim>\<open>load\<close> and
  \<^verbatim>\<open>load_range\<close> of \<^verbatim>\<open>crates/fs3-alloc/src/bitmap.rs\<close>. Bit \<open>i\<close> of the byte form is \<open>byte_bit\<close>, least
  significant bit first. Shown: the bytes carry exactly the allocated ids, loading what was serialized
  restores the words, and absorbing the bytes of a range adds exactly that range.
\<close>

definition byte_bit :: "bytes \<Rightarrow> nat \<Rightarrow> bool" where
  "byte_bit bs i \<longleftrightarrow> bit (bs ! (i div 8)) (i mod 8)"

section \<open>Bits of integer bytes\<close>

lemma nth_nat_le: "j < k \<Longrightarrow> nat_le k n ! j = of_nat (n div 256 ^ j mod 256)"
proof (induction k arbitrary: n j)
  case 0
  then show ?case by simp
next
  case (Suc k)
  then show ?case by (cases j) (simp_all add: div_mult2_eq)
qed

lemma bit_nth_to_le_bytes:
  assumes "j < 8" and "k < 8"
  shows "bit (to_le_bytes (w :: u64) ! j) k \<longleftrightarrow> bit w (8 * j + k)"
proof -
  have "unat w div 256 ^ j mod 256 = take_bit 8 (drop_bit (8 * j) (unat w))"
    by (simp add: take_bit_eq_mod drop_bit_eq_div power_mult)
  then have "bit (to_le_bytes w ! j) k \<longleftrightarrow> bit (take_bit 8 (drop_bit (8 * j) (unat w))) k"
    using assms by (simp add: to_le_bytes_def nth_nat_le bit_of_nat_iff)
  then show ?thesis
    using assms by (simp add: bit_take_bit_iff bit_drop_bit_eq bit_unsigned_iff)
qed

section \<open>Serializing the whole bitmap\<close>

lemma div_ceil_le_iff: "0 < b \<Longrightarrow> div_ceil a b \<le> c \<longleftrightarrow> a \<le> b * c"
proof -
  assume "0 < b"
  then have "div_ceil a b \<le> c \<longleftrightarrow> a + (b - 1) < Suc c * b"
    by (simp add: div_ceil_def div_less_iff_less_mult flip: less_Suc_eq_le)
  with \<open>0 < b\<close> show ?thesis by (auto simp: algebra_simps)
qed

lemma div_ceil_8_64: "8 * div_ceil n 8 \<le> 64 * div_ceil n 64"
proof -
  have "div_ceil n 8 \<le> 8 * div_ceil n 64"
    using div_ceil_le_iff [of 64 n "div_ceil n 64"] by (simp add: div_ceil_le_iff)
  then show ?thesis by simp
qed

lemma length_ser_word [simp]: "length (ser_word out nb pos xs) = length out"
  by (induction out nb pos xs rule: ser_word.induct) auto

lemma nth_ser_word:
  "length out = nb \<Longrightarrow> p < nb \<Longrightarrow>
     ser_word out nb pos xs ! p = (if pos \<le> p \<and> p < pos + length xs then xs ! (p - pos) else out ! p)"
proof (induction out nb pos xs rule: ser_word.induct)
  case (1 out nb pos)
  then show ?case by auto
next
  case (2 out nb pos x xs)
  then show ?case
    by (cases "p = pos") (auto simp: nth_Cons' Suc_diff_le not_le nth_list_update)
qed

lemma length_ser_words [simp]: "length (ser_words out nb i ws) = length out"
  by (induction out nb i ws rule: ser_words.induct) auto

lemma nth_ser_words:
  "length out = nb \<Longrightarrow> p < nb \<Longrightarrow>
     ser_words out nb i ws ! p =
       (if i \<le> p div 8 \<and> p div 8 < i + length ws then to_le_bytes (ws ! (p div 8 - i)) ! (p mod 8)
        else out ! p)"
proof (induction out nb i ws rule: ser_words.induct)
  case (1 out nb i)
  then show ?case by auto
next
  case (2 out nb i w ws)
  have "i * 8 \<le> p \<and> p < i * 8 + 8 \<longleftrightarrow> p div 8 = i" by (auto simp: div_nat_eqI)
  moreover have "p div 8 = i \<Longrightarrow> p - i * 8 = p mod 8" by (auto simp: minus_div_mult_eq_mod)
  ultimately show ?case
    using 2 by (auto simp: nth_ser_word nth_Cons' Suc_diff_le not_le Suc_le_eq)
qed

lemma length_bm_serialize [simp]: "length (bm_serialize b) = div_ceil (bm_n b) 8"
  by (simp add: bm_serialize_def Let_def)

lemma byte_bit_bm_serialize:
  assumes "bm_wf b" and "i < 8 * div_ceil (bm_n b) 8"
  shows "byte_bit (bm_serialize b) i \<longleftrightarrow> i \<in> bm_bits b"
proof -
  have p: "i div 8 < div_ceil (bm_n b) 8" using assms(2) by (simp add: less_mult_imp_div_less mult.commute)
  have in_words: "i div 64 < length (words b)"
    using assms(1) order_less_le_trans [OF assms(2) div_ceil_8_64]
    by (simp add: bm_wf_def less_mult_imp_div_less mult.commute)
  have "i div 8 div 8 = i div 64" "8 * (i div 8 mod 8) + i mod 8 = i mod 64"
    by (simp_all add: div_mult2_eq [symmetric] mod_mult2_eq [of i 8 8, simplified])
  then have "byte_bit (bm_serialize b) i \<longleftrightarrow> bit (words b ! (i div 64)) (i mod 64)"
    using p in_words bit_nth_to_le_bytes [of "i div 8 mod 8" "i mod 8" "words b ! (i div 64)"]
    by (simp add: byte_bit_def bm_serialize_def Let_def nth_ser_words)
  then show ?thesis using in_words by (simp add: bm_bits_def bm_in_def word_idx_def)
qed

section \<open>Loading\<close>

lemma bit_fold_or:
  "bit (fold (\<lambda>j v. if P j then v OR g j else v) js v0) m \<longleftrightarrow>
     bit v0 m \<or> (\<exists>j \<in> set js. P j \<and> bit (g j :: u64) m)"
  by (induction js arbitrary: v0) (auto simp: bit_or_iff)

lemma bit_load_word:
  assumes "m < 64"
  shows "bit (load_word bs expect i) m \<longleftrightarrow>
    i * 8 + m div 8 < expect \<and> i * 8 + m div 8 < length bs \<and> bit (bs ! (i * 8 + m div 8)) (m mod 8)"
proof -
  have g: "bit (push_bit (j * 8) (ucast (x :: u8)) :: u64) m \<longleftrightarrow> j = m div 8 \<and> bit x (m mod 8)"
    if "j < 8" for j x
  proof -
    have "j * 8 \<le> m \<Longrightarrow> m - j * 8 < 8 \<Longrightarrow> j = m div 8"
      by (intro div_nat_eqI [symmetric]) auto
    moreover have "m - m div 8 * 8 = m mod 8" by (rule minus_div_mult_eq_mod)
    ultimately show ?thesis
      using assms bit_imp_le_length [of x "m - j * 8"]
      by (auto simp: bit_push_bit_iff bit_unsigned_iff)
  qed
  have "m div 8 < 8" using assms by auto
  then show ?thesis
    using g unfolding load_word_def Let_def bit_fold_or by auto
qed

lemma bm_load_words:
  assumes "bm_load c bs = Some c'"
  shows "length (words c') = length (words c)" and "bm_n c' = bm_n c"
    and "i < length (words c) \<Longrightarrow> m < 64 \<Longrightarrow> bit (words c' ! i) m \<longleftrightarrow>
      i * 8 + m div 8 < div_ceil (bm_n c) 8 \<and> bit (bs ! (i * 8 + m div 8)) (m mod 8)"
  using assms by (auto simp: bm_load_def Let_def bit_load_word split: if_splits)

lemma bm_load_serialize_words:
  assumes wf: "bm_wf b" and shape: "bm_n c = bm_n b" "length (words c) = length (words b)"
  shows "bm_load c (bm_serialize b) = Some (c\<lparr>words := words b\<rparr>)"
proof -
  let ?ex = "div_ceil (bm_n b) 8"
  have "load_word (bm_serialize b) ?ex i = words b ! i" if i: "i < length (words b)" for i
  proof (rule bit_word_eqI)
    fix m assume "m < LENGTH(64)"
    then have m: "m < 64" by simp
    have pos: "(i * 64 + m) div 8 = i * 8 + m div 8" "(i * 64 + m) mod 8 = m mod 8"
      by (simp_all add: div_add1_eq mod_add_eq [symmetric] flip: mod_mult_right_eq)
    have idx: "(i * 64 + m) div 64 = i" "(i * 64 + m) mod 64 = m" using m by simp_all
    show "bit (load_word (bm_serialize b) ?ex i) m \<longleftrightarrow> bit (words b ! i) m"
    proof (cases "i * 8 + m div 8 < ?ex")
      case True
      then have "i * 64 + m < 8 * ?ex" using pos(1) by linarith
      then have "byte_bit (bm_serialize b) (i * 64 + m) \<longleftrightarrow> i * 64 + m \<in> bm_bits b"
        by (rule byte_bit_bm_serialize [OF wf])
      then show ?thesis
        using True i m unfolding byte_bit_def pos
        by (simp add: bit_load_word bm_bits_def bm_in_def word_idx_def idx)
    next
      case False
      then have "bm_n b \<le> i * 64 + m"
        using div_ceil_le_iff [of 8 "bm_n b" "i * 8 + m div 8"] times_div_less_eq_dividend [of 8 m]
        by simp
      then have "i * 64 + m \<notin> bm_bits b" using wf by (auto simp: bm_wf_def)
      then show ?thesis
        using False i m by (simp add: bit_load_word bm_bits_def bm_in_def word_idx_def idx)
    qed
  qed
  then have "map (load_word (bm_serialize b) ?ex) [0..<length (words b)] = words b"
    by (intro nth_equalityI) auto
  then show ?thesis by (simp add: bm_load_def shape)
qed

section \<open>Serializing and absorbing a range\<close>

lemma length_or_bit [simp]: "length (or_bit out i) = length out"
  by (simp add: or_bit_def)

lemma byte_bit_or_bit:
  assumes "i < 8 * length out"
  shows "byte_bit (or_bit out i) k \<longleftrightarrow> byte_bit out k \<or> k = i"
proof (cases "k div 8 = i div 8")
  case True
  moreover have "k mod 8 = i mod 8 \<longleftrightarrow> k = i"
    using True div_mult_mod_eq [of k 8] div_mult_mod_eq [of i 8] by metis
  moreover have "i div 8 < length out" using assms by (simp add: less_mult_imp_div_less mult.commute)
  ultimately show ?thesis
    by (auto simp: byte_bit_def or_bit_def bit_or_iff bit_exp_iff)
next
  case False
  then show ?thesis by (auto simp: byte_bit_def or_bit_def)
qed

lemma byte_bit_fold_or_bit:
  assumes "\<forall>j \<in> set js. f j < 8 * length out"
  shows "length (fold (\<lambda>j o'. if P j then or_bit o' (f j) else o') js out) = length out"
    and "byte_bit (fold (\<lambda>j o'. if P j then or_bit o' (f j) else o') js out) k \<longleftrightarrow>
      byte_bit out k \<or> (\<exists>j \<in> set js. P j \<and> k = f j)"
  using assms by (induction js arbitrary: out) (auto simp: byte_bit_or_bit)

lemma bex_upt_shift:
  "(\<exists>j \<in> set [0..<t]. P j \<and> k = d + j) \<longleftrightarrow> d \<le> k \<and> k < d + t \<and> P (k - d)"
  by (auto intro!: bexI [of _ "k - d"])

lemma serialize_step_bits:
  fixes w :: u64
  assumes "taken = min (64 - (start + dn) mod 64) (count - dn)" and "j < taken"
  shows "(drop_bit ((start + dn) mod 64) w AND (if taken = 64 then - 1 else push_bit taken 1 - 1))
       AND push_bit j 1 \<noteq> 0 \<longleftrightarrow> bit w ((start + dn + j) mod 64)"
    and "(start + dn + j) div 64 = (start + dn) div 64"
proof -
  have lt: "(start + dn) mod 64 + j < 64"
    using assms by (simp add: less_diff_conv add.commute)
  then show "(start + dn + j) div 64 = (start + dn) div 64"
    by (simp add: div_add1_eq [of "start + dn" j])
  have m: "(start + dn + j) mod 64 = (start + dn) mod 64 + j"
    using lt by (metis mod_add_left_eq mod_less)
  have "bit (if taken = 64 then - 1 else push_bit taken 1 - 1 :: u64) j"
    using lt assms(2) bit_low_mask [of taken j] by (simp split: if_splits)
  then show "(drop_bit ((start + dn) mod 64) w AND (if taken = 64 then - 1 else push_bit taken 1 - 1))
       AND push_bit j 1 \<noteq> 0 \<longleftrightarrow> bit w ((start + dn + j) mod 64)"
    unfolding m push_bit_of_1 and_exp_eq_0_iff_not_bit
    by (simp only: bit_and_iff bit_drop_bit_eq o_apply simp_thms)
qed

lemma serialize_loop_bits:
  assumes "bm_in b (start + count - 1)" and "count \<le> 8 * length out" and "dn \<le> count"
  shows "length (serialize_loop b start count dn out) = length out \<and>
    (\<forall>k. byte_bit (serialize_loop b start count dn out) k \<longleftrightarrow>
       byte_bit out k \<or> dn \<le> k \<and> k < count \<and> start + k \<in> bm_bits b)"
  using assms
proof (induction b start count dn out rule: serialize_loop.induct)
  case (1 b start count dn out)
  show ?case
  proof (cases "dn < count")
    case False
    then show ?thesis by (auto simp: serialize_loop.simps [of b start count dn out])
  next
    case True
    define taken where "taken = min (64 - (start + dn) mod 64) (count - dn)"
    define w where "w = words b ! word_idx (start + dn)"
    define P where "P = (\<lambda>j. (drop_bit ((start + dn) mod 64) w AND
      (if taken = 64 then - 1 else push_bit taken 1 - 1)) AND push_bit j 1 \<noteq> 0)"
    define out' where "out' = fold (\<lambda>j o'. if P j then or_bit o' (dn + j) else o') [0..<taken] out"
    have tk: "0 < taken" "dn + taken \<le> count" using True by (auto simp: taken_def)
    have eqn: "serialize_loop b start count dn out = serialize_loop b start count (dn + taken) out'"
      using True by (simp add: serialize_loop.simps [of b start count dn out] Let_def out'_def P_def
          w_def taken_def)
    have P: "P j \<longleftrightarrow> start + dn + j \<in> bm_bits b" if "j < taken" for j
    proof -
      note st = serialize_step_bits [OF taken_def that]
      have "start + dn + j \<le> start + count - 1" using that tk by simp
      then have "bm_in b (start + dn + j)"
        using "1.prems"(1) word_idx_mono by (meson bm_in_def order_le_less_trans)
      then show ?thesis using st(1) [of w] st(2) by (simp only: P_def bm_bits_def w_def word_idx_def) simp
    qed
    have rng: "\<forall>j \<in> set [0..<taken]. dn + j < 8 * length out" using tk "1.prems"(2) by auto
    note fo = byte_bit_fold_or_bit [OF rng, of P, folded out'_def]
    have len: "count \<le> 8 * length out'" using fo(1) "1.prems"(2) by simp
    have "length (serialize_loop b start count (dn + taken) out') = length out' \<and>
      (\<forall>k. byte_bit (serialize_loop b start count (dn + taken) out') k \<longleftrightarrow>
         byte_bit out' k \<or> dn + taken \<le> k \<and> k < count \<and> start + k \<in> bm_bits b)"
      using "1.IH" [OF True refl refl refl refl refl refl refl] "1.prems"(1) tk(2) len
      unfolding out'_def P_def w_def taken_def by blast
    moreover have "byte_bit out' k \<longleftrightarrow>
      byte_bit out k \<or> dn \<le> k \<and> k < dn + taken \<and> start + k \<in> bm_bits b" for k
    proof -
      note bex_upt_shift [of taken P k dn]
      moreover have "dn \<le> k \<Longrightarrow> k < dn + taken \<Longrightarrow> P (k - dn) \<longleftrightarrow> start + k \<in> bm_bits b"
        using P [of "k - dn"] by simp
      ultimately show ?thesis unfolding fo(2) by blast
    qed
    ultimately show ?thesis
      unfolding eqn fo(1) using tk by (metis (no_types, lifting) le_add1 linorder_not_le order_trans)
  qed
qed

lemma length_bm_serialize_range [simp]:
  "bm_in b (start + count - 1) \<Longrightarrow> length (bm_serialize_range b start count) = div_ceil count 8"
  using serialize_loop_bits [of b start count "replicate (div_ceil count 8) 0" 0]
    div_ceil_le_iff [of 8 count "div_ceil count 8"]
  by (simp add: bm_serialize_range_def)

lemma byte_bit_bm_serialize_range:
  assumes "bm_in b (start + count - 1)" and "k < 8 * div_ceil count 8"
  shows "byte_bit (bm_serialize_range b start count) k \<longleftrightarrow> k < count \<and> start + k \<in> bm_bits b"
proof -
  have "\<not> byte_bit (replicate (div_ceil count 8) 0) k"
    using assms(2) by (simp add: byte_bit_def less_mult_imp_div_less mult.commute)
  then show ?thesis
    using serialize_loop_bits [of b start count "replicate (div_ceil count 8) 0" 0] assms(1)
      div_ceil_le_iff [of 8 count "div_ceil count 8"]
    by (simp add: bm_serialize_range_def)
qed

lemma fold_set_bit:
  assumes "\<forall>j \<in> set js. P j \<longrightarrow> bm_in b (f j)"
  shows "bm_bits (fold (\<lambda>j b'. if P j then snd (bm_set_bit b' (f j)) else b') js b) =
      bm_bits b \<union> f ` {j \<in> set js. P j}"
    and "length (words (fold (\<lambda>j b'. if P j then snd (bm_set_bit b' (f j)) else b') js b)) =
      length (words b)"
    and "bm_n (fold (\<lambda>j b'. if P j then snd (bm_set_bit b' (f j)) else b') js b) = bm_n b"
  using assms by (induction js arbitrary: b) (auto simp: bm_set_bit_bits)

lemma load_byte_bits:
  assumes "\<forall>j < 8. bit x j \<longrightarrow> bm_in b (base + j)"
  shows "bm_bits (load_byte base x b) = bm_bits b \<union> {base + j | j. j < 8 \<and> bit x j}"
    and "length (words (load_byte base x b)) = length (words b)"
    and "bm_n (load_byte base x b) = bm_n b"
proof -
  let ?P = "\<lambda>j. x AND push_bit j 1 \<noteq> 0"
  have P: "?P j \<longleftrightarrow> bit x j" for j by (simp add: and_exp_eq_0_iff_not_bit)
  have "\<forall>j \<in> set [0..<8]. ?P j \<longrightarrow> bm_in b (base + j)" using assms P by auto
  note fs = fold_set_bit [OF this]
  show "bm_bits (load_byte base x b) = bm_bits b \<union> {base + j | j. j < 8 \<and> bit x j}"
    using fs(1) unfolding P load_byte_def by (cases "x = 0") auto
  show "length (words (load_byte base x b)) = length (words b)" "bm_n (load_byte base x b) = bm_n b"
    using fs(2,3) unfolding load_byte_def by (cases "x = 0"; simp)+
qed

lemma byte_bit_Cons:
  "byte_bit (x # xs) k \<longleftrightarrow> (if k < 8 then bit x k else byte_bit xs (k - 8))"
proof (cases "k < 8")
  case True
  then show ?thesis by (simp add: byte_bit_def)
next
  case False
  then obtain m where "k = 8 + m" by (metis le_iff_add not_le)
  then show ?thesis using div_add_self1 [of 8 m] by (simp add: byte_bit_def)
qed

lemma byte_bits_Cons:
  "{base + k | k. k < 8 * length (x # xs) \<and> byte_bit (x # xs) k} =
     {base + j | j. j < 8 \<and> bit x j} \<union> {base + 8 + k | k. k < 8 * length xs \<and> byte_bit xs k}"
proof (intro set_eqI iffI)
  fix y assume "y \<in> {base + k | k. k < 8 * length (x # xs) \<and> byte_bit (x # xs) k}"
  then obtain k where k: "y = base + k" "k < 8 * length (x # xs)" "byte_bit (x # xs) k" by blast
  then show "y \<in> {base + j | j. j < 8 \<and> bit x j} \<union>
      {base + 8 + k | k. k < 8 * length xs \<and> byte_bit xs k}"
    by (cases "k < 8") (auto simp: byte_bit_Cons intro!: exI [of _ "k - 8"])
next
  fix y assume "y \<in> {base + j | j. j < 8 \<and> bit x j} \<union>
      {base + 8 + k | k. k < 8 * length xs \<and> byte_bit xs k}"
  then consider j where "y = base + j" "j < 8" "bit x j"
    | k where "y = base + (8 + k)" "k < 8 * length xs" "byte_bit xs k" by auto
  then show "y \<in> {base + k | k. k < 8 * length (x # xs) \<and> byte_bit (x # xs) k}"
  proof cases
    case 1
    then show ?thesis by (auto simp: byte_bit_Cons intro!: exI [of _ j])
  next
    case 2
    then show ?thesis by (auto simp: byte_bit_Cons intro!: exI [of _ "8 + k"])
  qed
qed

lemma bm_load_range_bits:
  assumes "\<forall>k < 8 * length bs. byte_bit bs k \<longrightarrow> bm_in b (base + k)"
  shows "bm_bits (bm_load_range b bs base) = bm_bits b \<union> {base + k | k. k < 8 * length bs \<and> byte_bit bs k}"
    and "length (words (bm_load_range b bs base)) = length (words b)"
    and "bm_n (bm_load_range b bs base) = bm_n b"
proof -
  have "bm_bits (bm_load_range b bs base) =
      bm_bits b \<union> {base + k | k. k < 8 * length bs \<and> byte_bit bs k} \<and>
    length (words (bm_load_range b bs base)) = length (words b) \<and> bm_n (bm_load_range b bs base) = bm_n b"
    using assms
  proof (induction b bs base rule: bm_load_range.induct)
    case (1 b base)
    then show ?case by simp
  next
    case (2 b x xs base)
    have hd: "\<forall>j < 8. bit x j \<longrightarrow> bm_in b (base + j)"
      using 2(2) by (auto simp: byte_bit_Cons)
    note lb = load_byte_bits [OF hd]
    have inn: "bm_in (load_byte base x b) = bm_in b" by (auto simp: bm_in_def lb(2))
    have "\<forall>k < 8 * length xs. byte_bit xs k \<longrightarrow> bm_in (load_byte base x b) (base + 8 + k)"
      using 2(2) by (auto simp: byte_bit_Cons inn add.assoc dest: spec [of _ "8 + _"])
    from 2(1) [OF this] show ?case
      unfolding byte_bits_Cons using lb by (simp add: Un_assoc)
  qed
  then show "bm_bits (bm_load_range b bs base) =
      bm_bits b \<union> {base + k | k. k < 8 * length bs \<and> byte_bit bs k}"
    "length (words (bm_load_range b bs base)) = length (words b)"
    "bm_n (bm_load_range b bs base) = bm_n b" by simp_all
qed

section \<open>Counting\<close>

lemma bm_count_ones_range_card:
  assumes "bm_in b (start + count - 1)"
  shows "bm_count_ones_range b start count = card (bm_bits b \<inter> {start..<start + count})"
proof -
  have "bm_test b (start + i) \<longleftrightarrow> start + i \<in> bm_bits b" if "i < count" for i
  proof -
    have "start + i \<le> start + count - 1" using that by simp
    then have "bm_in b (start + i)" using assms word_idx_mono by (meson bm_in_def order_le_less_trans)
    then show ?thesis by (rule bm_test_iff)
  qed
  then have "set (filter (\<lambda>i. bm_test b (start + i)) [0..<count]) =
      {i. i < count \<and> start + i \<in> bm_bits b}" by auto
  then have "bm_count_ones_range b start count = card {i. i < count \<and> start + i \<in> bm_bits b}"
    unfolding bm_count_ones_range_def by (metis distinct_card distinct_filter distinct_upt)
  also have "\<dots> = card ((+) start ` {i. i < count \<and> start + i \<in> bm_bits b})"
    by (simp add: card_image)
  also have "(+) start ` {i. i < count \<and> start + i \<in> bm_bits b} = bm_bits b \<inter> {start..<start + count}"
    by (force simp: image_def le_iff_add)
  finally show ?thesis .
qed

end
