(* ===== verification/Extent_Map.thy ===== *)
theory Extent_Map
  imports Bitmap_Codec
begin

text \<open>
  The interface between the allocator and its bitmap. The locale \<open>extent_map\<close> states what
  \<^verbatim>\<open>Allocator\<close> relies on (\<^verbatim>\<open>crates/fs3-alloc/src/lib.rs\<close> calls \<^verbatim>\<open>test\<close>, \<^verbatim>\<open>set_bit\<close>, \<^verbatim>\<open>clear_bit\<close>,
  \<^verbatim>\<open>alloc_one\<close> and \<^verbatim>\<open>alloc_one_in_range\<close>), over the set of used ids; the interpretation at the end
  discharges its laws for the bitmap of theory \<open>Bitmap\<close>. Clients use the interpreted facts (\<open>bm.\<close>).
\<close>

locale extent_map =
  fixes test :: "'b \<Rightarrow> nat \<Rightarrow> bool"
    and mark :: "'b \<Rightarrow> nat \<Rightarrow> bool \<times> 'b"
    and clear :: "'b \<Rightarrow> nat \<Rightarrow> bool \<times> 'b"
    and take_one :: "'b \<Rightarrow> nat \<Rightarrow> nat option \<times> nat \<times> 'b"
    and take_in :: "'b \<Rightarrow> nat \<Rightarrow> nat \<Rightarrow> nat \<Rightarrow> nat option \<times> nat \<times> 'b"
    and cap :: "'b \<Rightarrow> nat"
    and used :: "'b \<Rightarrow> nat set"
    and invar :: "'b \<Rightarrow> bool"
  assumes used_bound: "invar b \<Longrightarrow> used b \<subseteq> {..<cap b}"
    and test_iff: "invar b \<Longrightarrow> i < cap b \<Longrightarrow> test b i \<longleftrightarrow> i \<in> used b"
    and mark_fst: "invar b \<Longrightarrow> i < cap b \<Longrightarrow> fst (mark b i) \<longleftrightarrow> i \<notin> used b"
    and mark_used: "invar b \<Longrightarrow> i < cap b \<Longrightarrow> used (snd (mark b i)) = insert i (used b)"
    and mark_invar: "invar b \<Longrightarrow> i < cap b \<Longrightarrow> invar (snd (mark b i))"
    and mark_cap: "cap (snd (mark b i)) = cap b"
    and clear_used: "invar b \<Longrightarrow> i < cap b \<Longrightarrow> used (snd (clear b i)) = used b - {i}"
    and clear_invar: "invar b \<Longrightarrow> i < cap b \<Longrightarrow> invar (snd (clear b i))"
    and clear_cap: "cap (snd (clear b i)) = cap b"
    and take_one_Some: "invar b \<Longrightarrow> take_one b h = (Some i, h', b') \<Longrightarrow>
      i < cap b \<and> i \<notin> used b \<and> used b' = insert i (used b) \<and> invar b' \<and> cap b' = cap b"
    and take_one_None: "invar b \<Longrightarrow> take_one b h = (None, h', b') \<Longrightarrow>
      b' = b \<and> h' = h \<and> {..<cap b} \<subseteq> used b"
    and take_in_Some: "invar b \<Longrightarrow> start + count \<le> cap b \<Longrightarrow>
      take_in b h start count = (Some i, h', b') \<Longrightarrow>
      start \<le> i \<and> i < start + count \<and> i \<notin> used b \<and> used b' = insert i (used b) \<and> invar b' \<and>
      cap b' = cap b"
    and take_in_None: "invar b \<Longrightarrow> start + count \<le> cap b \<Longrightarrow>
      take_in b h start count = (None, h', b') \<Longrightarrow>
      b' = b \<and> h' = h \<and> {start..<start + count} \<subseteq> used b"
begin

lemma used_finite: "invar b \<Longrightarrow> finite (used b)"
  using used_bound finite_subset by blast

lemma card_used_le: "invar b \<Longrightarrow> card (used b) \<le> cap b"
  using card_mono [OF finite_lessThan used_bound] by simp

text \<open>An id is handed out whenever one is free, and never twice in a row.\<close>

lemma take_one_succeeds_iff:
  assumes "invar b"
  shows "(\<exists>i. fst (take_one b h) = Some i) \<longleftrightarrow> card (used b) < cap b"
proof (cases "take_one b h")
  case (fields r h' b')
  show ?thesis
  proof (cases r)
    case None
    with fields have "used b = {..<cap b}"
      using take_one_None [OF assms, of h h' b'] used_bound [OF assms] by auto
    with None fields show ?thesis by simp
  next
    case (Some i)
    with fields have "i < cap b" "i \<notin> used b" using take_one_Some [OF assms, of h i h' b'] by auto
    then have "used b \<subset> {..<cap b}" using used_bound [OF assms] by auto
    then have "card (used b) < cap b" using psubset_card_mono [of "{..<cap b}" "used b"] by simp
    with Some fields show ?thesis by simp
  qed
qed

lemma take_one_twice:
  assumes "invar b" "take_one b h = (Some i, h1, b1)" "take_one b1 h2 = (Some j, h3, b3)"
  shows "i \<noteq> j"
proof -
  have "invar b1" "i \<in> used b1" using take_one_Some [OF assms(1,2)] by auto
  with take_one_Some [OF this(1) assms(3)] show ?thesis by auto
qed

lemma take_one_undo:
  assumes "invar b" "take_one b h = (Some i, h', b')"
  shows "used (snd (clear b' i)) = used b"
proof -
  have "invar b'" "i < cap b'" "i \<notin> used b" "used b' = insert i (used b)"
    using take_one_Some [OF assms] by auto
  then show ?thesis using clear_used by auto
qed

lemma clear_mark_undo:
  assumes "invar b" "i < cap b" "i \<in> used b"
  shows "used (snd (mark (snd (clear b i)) i)) = used b"
  using assms clear_used clear_invar clear_cap mark_used by (metis insert_Diff)

end

lemma bm_wf_shape:
  "length (words b') = length (words b) \<Longrightarrow> bm_n b' = bm_n b \<Longrightarrow> bm_wf b \<Longrightarrow>
     bm_bits b' \<subseteq> insert i (bm_bits b) \<Longrightarrow> i < bm_n b \<Longrightarrow> bm_wf b'"
  by (auto simp: bm_wf_def)

lemma bm_wf_last_in:
  assumes "bm_wf b" "start + count \<le> bm_n b" "0 < count"
  shows "bm_in b (start + count - 1)"
  by (rule bm_wf_in [OF assms(1)]) (use assms in simp)

interpretation bm: extent_map
  bm_test bm_set_bit bm_clear_bit bm_alloc_one bm_alloc_one_in_range bm_n bm_bits bm_wf
proof
  fix b h h' b' and i start count :: nat
  show "bm_wf b \<Longrightarrow> bm_bits b \<subseteq> {..<bm_n b}" by (simp add: bm_wf_def)
  show "bm_n (snd (bm_set_bit b i)) = bm_n b" "bm_n (snd (bm_clear_bit b i)) = bm_n b" by simp_all
  assume wf: "bm_wf b"
  show "bm_alloc_one b h = (Some i, h', b') \<Longrightarrow>
      i < bm_n b \<and> i \<notin> bm_bits b \<and> bm_bits b' = insert i (bm_bits b) \<and> bm_wf b' \<and> bm_n b' = bm_n b"
  proof -
    assume "bm_alloc_one b h = (Some i, h', b')"
    note s = bm_alloc_one_Some [OF this]
    moreover have "bm_wf b'" by (rule bm_wf_shape [OF _ _ wf, of _ i]) (use s in auto)
    ultimately show ?thesis by simp
  qed
  show "bm_alloc_one b h = (None, h', b') \<Longrightarrow> b' = b \<and> h' = h \<and> {..<bm_n b} \<subseteq> bm_bits b"
    using bm_alloc_one_None [of b h h' b'] bm_wf_in [OF wf] by auto
  show "i < bm_n b \<Longrightarrow> bm_test b i \<longleftrightarrow> i \<in> bm_bits b"
    "i < bm_n b \<Longrightarrow> fst (bm_set_bit b i) \<longleftrightarrow> i \<notin> bm_bits b"
    "i < bm_n b \<Longrightarrow> bm_bits (snd (bm_set_bit b i)) = insert i (bm_bits b)"
    "i < bm_n b \<Longrightarrow> bm_bits (snd (bm_clear_bit b i)) = bm_bits b - {i}"
    using bm_wf_in [OF wf] by (simp_all add: bm_test_iff bm_set_bit_bits bm_clear_bit_bits)
  then show "i < bm_n b \<Longrightarrow> bm_wf (snd (bm_set_bit b i))"
    "i < bm_n b \<Longrightarrow> bm_wf (snd (bm_clear_bit b i))"
    by (auto intro!: bm_wf_shape [OF _ _ wf, where i = i])
  assume le: "start + count \<le> bm_n b"
  show "bm_alloc_one_in_range b h start count = (Some i, h', b') \<Longrightarrow>
      start \<le> i \<and> i < start + count \<and> i \<notin> bm_bits b \<and> bm_bits b' = insert i (bm_bits b) \<and>
      bm_wf b' \<and> bm_n b' = bm_n b"
  proof -
    assume r: "bm_alloc_one_in_range b h start count = (Some i, h', b')"
    then have "0 < count" by (auto simp: bm_alloc_one_in_range_def split: if_splits)
    note s = bm_alloc_one_in_range_Some [OF r bm_wf_last_in [OF wf le this]]
    moreover have "bm_wf b'" by (rule bm_wf_shape [OF _ _ wf, of _ i]) (use s le in auto)
    ultimately show ?thesis by blast
  qed
  show "bm_alloc_one_in_range b h start count = (None, h', b') \<Longrightarrow>
      b' = b \<and> h' = h \<and> {start..<start + count} \<subseteq> bm_bits b"
    using bm_alloc_one_in_range_None [of b h start count h' b'] bm_wf_in [OF wf] le by auto
qed

end
