(* ===== verification/Bitmap_Race.thy ===== *)
theory Bitmap_Race
  imports Extent_Map
begin

text \<open>
  The compare-and-swap loop of \<^verbatim>\<open>Bitmap::alloc_one\<close> (\<^verbatim>\<open>crates/fs3-alloc/src/bitmap.rs\<close>) step by step, with
  any number of threads on one bitmap. A thread is about to load the word of scan step \<open>k\<close>
  (\<open>Scan k\<close>), holds the value \<open>cur\<close> it last saw (\<open>Loaded k cur\<close>), has returned an id (\<open>Got\<close>) or
  \<^verbatim>\<open>None\<close> (\<open>Exhausted\<close>). A weak exchange may fail although nothing changed, so \<open>cas_fail\<close> has no
  condition on the memory. An owner may give its id back with \<^verbatim>\<open>clear_bit\<close>, whose loop makes one
  atomic change. Shown: no two threads ever hold the same id, and a thread that runs alone does what
  \<open>bm_alloc_one\<close> says.
\<close>

datatype pc = Scan nat | Loaded nat u64 | Got nat | Exhausted

record race =
  mem :: bitmap
  pcs :: "nat \<Rightarrow> pc"
  start_words :: "nat \<Rightarrow> nat"

definition scan_word :: "race \<Rightarrow> nat \<Rightarrow> nat \<Rightarrow> nat" where
  "scan_word s t k = (start_words s t + k) mod length (words (mem s))"

definition candidate :: "nat \<Rightarrow> u64 \<Rightarrow> nat" where
  "candidate wi cur = wi * 64 + trailing_zeros (NOT cur)"

definition has_candidate :: "race \<Rightarrow> nat \<Rightarrow> u64 \<Rightarrow> bool" where
  "has_candidate s wi cur \<longleftrightarrow> NOT cur \<noteq> 0 \<and> candidate wi cur < bm_n (mem s)"

definition set_pc :: "race \<Rightarrow> nat \<Rightarrow> pc \<Rightarrow> race" where
  "set_pc s t p = s\<lparr>pcs := (pcs s)(t := p)\<rparr>"

inductive race_step :: "race \<Rightarrow> nat \<Rightarrow> race \<Rightarrow> bool" where
  load: "pcs s t = Scan k \<Longrightarrow> k < length (words (mem s)) \<Longrightarrow>
     race_step s t (set_pc s t (Loaded k (words (mem s) ! scan_word s t k)))"
| stop: "pcs s t = Scan k \<Longrightarrow> length (words (mem s)) \<le> k \<Longrightarrow> race_step s t (set_pc s t Exhausted)"
| skip: "pcs s t = Loaded k cur \<Longrightarrow> \<not> has_candidate s (scan_word s t k) cur \<Longrightarrow>
     race_step s t (set_pc s t (Scan (Suc k)))"
| cas_ok: "pcs s t = Loaded k cur \<Longrightarrow> has_candidate s (scan_word s t k) cur \<Longrightarrow>
     words (mem s) ! scan_word s t k = cur \<Longrightarrow> k < length (words (mem s)) \<Longrightarrow>
     race_step s t (set_pc (s\<lparr>mem := (mem s)\<lparr>words := (words (mem s))[scan_word s t k :=
         cur OR push_bit (trailing_zeros (NOT cur)) 1]\<rparr>\<rparr>) t
       (Got (candidate (scan_word s t k) cur)))"
| cas_fail: "pcs s t = Loaded k cur \<Longrightarrow> has_candidate s (scan_word s t k) cur \<Longrightarrow>
     race_step s t (set_pc s t (Loaded k (words (mem s) ! scan_word s t k)))"
| give_back: "pcs s t = Got eid \<Longrightarrow>
     race_step s t (set_pc (s\<lparr>mem := snd (bm_clear_bit (mem s) eid)\<rparr>) t (Scan 0))"

inductive_cases race_stepE: "race_step s t s'"

inductive race_reachable :: "bitmap \<Rightarrow> (nat \<Rightarrow> nat) \<Rightarrow> race \<Rightarrow> bool" for b0 sw where
  init: "race_reachable b0 sw \<lparr>mem = b0, pcs = (\<lambda>_. Scan 0), start_words = sw\<rparr>"
| step: "race_reachable b0 sw s \<Longrightarrow> race_step s t s' \<Longrightarrow> race_reachable b0 sw s'"

text \<open>
  The invariant: the bitmap stays well formed, an owned id has its bit set, a thread that holds a
  loaded value is inside the scan, and owners are unique.
\<close>

definition race_inv :: "race \<Rightarrow> bool" where
  "race_inv s \<longleftrightarrow> bm_wf (mem s) \<and>
     (\<forall>t eid. pcs s t = Got eid \<longrightarrow> eid < bm_n (mem s) \<and> eid \<in> bm_bits (mem s)) \<and>
     (\<forall>t k cur. pcs s t = Loaded k cur \<longrightarrow> k < length (words (mem s))) \<and>
     (\<forall>t u eid. pcs s t = Got eid \<longrightarrow> pcs s u = Got eid \<longrightarrow> t = u)"

lemma set_pc_simps [simp]:
  "mem (set_pc s t p) = mem s" "pcs (set_pc s t p) = (pcs s)(t := p)"
  "start_words (set_pc s t p) = start_words s"
  by (simp_all add: set_pc_def)

lemma candidate_free:
  assumes "wi < length (words b)" "NOT (words b ! wi) \<noteq> 0"
  shows "candidate wi (words b ! wi) \<notin> bm_bits b"
    and "bm_bits (b\<lparr>words := (words b)[wi := words b ! wi OR push_bit (trailing_zeros (NOT (words b ! wi))) 1]\<rparr>)
      = insert (candidate wi (words b ! wi)) (bm_bits b)"
proof -
  let ?c = "words b ! wi"
  note tz = trailing_zeros_bit [OF assms(2)]
  have "candidate wi ?c div 64 = wi" "candidate wi ?c mod 64 = trailing_zeros (NOT ?c)"
    using tz(1) by (simp_all add: candidate_def)
  moreover have "\<not> bit ?c (trailing_zeros (NOT ?c))" using tz(1,2) by (simp add: bit_not_iff)
  ultimately show "candidate wi ?c \<notin> bm_bits b" by (simp add: bm_bits_def)
  show "bm_bits (b\<lparr>words := (words b)[wi := ?c OR push_bit (trailing_zeros (NOT ?c)) 1]\<rparr>)
      = insert (candidate wi ?c) (bm_bits b)"
    using bm_bits_or [OF assms(1) tz(1)] by (simp only: candidate_def)
qed

lemma race_inv_set_pc:
  assumes "race_inv s" "\<And>eid. p \<noteq> Got eid" "\<And>k cur. p = Loaded k cur \<Longrightarrow> k < length (words (mem s))"
  shows "race_inv (set_pc s t p)"
  using assms by (auto simp: race_inv_def)

lemma race_inv_cas_ok:
  assumes inv: "race_inv s" and wi: "wi < length (words (mem s))"
    and cand: "has_candidate s wi (words (mem s) ! wi)"
  shows "race_inv (set_pc (s\<lparr>mem := (mem s)\<lparr>words := (words (mem s))[wi :=
      words (mem s) ! wi OR push_bit (trailing_zeros (NOT (words (mem s) ! wi))) 1]\<rparr>\<rparr>) t
    (Got (candidate wi (words (mem s) ! wi))))"
    (is "race_inv (set_pc (s\<lparr>mem := ?m\<rparr>) t (Got ?e))")
proof -
  note cf = candidate_free [OF wi, of]
  have "NOT (words (mem s) ! wi) \<noteq> 0" and e: "?e < bm_n (mem s)"
    using cand by (simp_all add: has_candidate_def)
  note cf = candidate_free [OF wi this(1)]
  have "bm_wf ?m"
    by (rule bm_wf_shape [of _ "mem s" ?e]) (use inv cf(2) e in \<open>auto simp: race_inv_def\<close>)
  with inv cf e show ?thesis unfolding race_inv_def by auto
qed

lemma race_inv_give_back:
  assumes inv: "race_inv s" and got: "pcs s t = Got eid"
  shows "race_inv (set_pc (s\<lparr>mem := snd (bm_clear_bit (mem s) eid)\<rparr>) t (Scan 0))"
proof -
  have wf: "bm_wf (mem s)" and e: "eid < bm_n (mem s)" using inv got by (auto simp: race_inv_def)
  show ?thesis
    using inv got bm.clear_used [OF wf e] bm.clear_invar [OF wf e] unfolding race_inv_def by auto
qed

lemma race_step_inv: "race_step s t s' \<Longrightarrow> race_inv s \<Longrightarrow> race_inv s'"
proof (induction rule: race_step.induct)
  case (cas_ok s t k cur)
  have "scan_word s t k < length (words (mem s))"
    using cas_ok(4) unfolding scan_word_def by (intro mod_less_divisor) auto
  from race_inv_cas_ok [OF cas_ok(5) this, of t] cas_ok(2,3) show ?case by simp
next
  case (cas_fail s t k cur)
  then have "k < length (words (mem s))" unfolding race_inv_def by blast
  with cas_fail show ?case by (intro race_inv_set_pc) auto
qed (auto intro: race_inv_set_pc race_inv_give_back)

lemma race_reachable_inv:
  assumes "bm_wf b0"
  shows "race_reachable b0 sw s \<Longrightarrow> race_inv s"
proof (induction rule: race_reachable.induct)
  case init
  show ?case using assms by (simp add: race_inv_def)
next
  case (step s t s')
  then show ?case by (blast intro: race_step_inv)
qed

section \<open>A thread that runs alone\<close>

definition outcome :: "nat option \<Rightarrow> pc" where
  "outcome r = (case r of None \<Rightarrow> Exhausted | Some eid \<Rightarrow> Got eid)"

definition solo :: "nat \<Rightarrow> race \<Rightarrow> race \<Rightarrow> bool" where
  "solo t = (\<lambda>s s'. race_step s t s')\<^sup>*\<^sup>*"

lemma solo_step: "race_step s t s1 \<Longrightarrow> solo t s1 s2 \<Longrightarrow> solo t s s2"
  unfolding solo_def by (rule converse_rtranclp_into_rtranclp)

lemma set_pc_again [simp]: "set_pc (set_pc s t p) t q = set_pc s t q"
  by (simp add: set_pc_def)

lemma scan_solo:
  assumes "alloc_scan (mem s) (start_words s t) [k..<length (words (mem s))] h = (r, h', b')"
    and "pcs s t = Scan k"
  shows "solo t s (set_pc (s\<lparr>mem := b'\<rparr>) t (outcome r))"
  using assms
proof (induction "length (words (mem s)) - k" arbitrary: s k)
  case 0
  then have "alloc_scan (mem s) (start_words s t) [] h = (r, h', b')"
    and le: "length (words (mem s)) \<le> k" by simp_all
  then have "r = None" "b' = mem s" by auto
  with race_step.stop [OF 0(3) le] show ?case
    by (simp add: outcome_def solo_def r_into_rtranclp)
next
  case (Suc d)
  let ?nw = "length (words (mem s))" and ?wi = "scan_word s t k"
  define cur where "cur = words (mem s) ! ?wi"
  have k: "k < ?nw" using Suc(2) by linarith
  define s1 where "s1 = set_pc s t (Loaded k cur)"
  have st1: "race_step s t s1"
    unfolding s1_def cur_def by (rule race_step.load [OF Suc(4) k])
  have s1 [simp]: "mem s1 = mem s" "start_words s1 = start_words s" "pcs s1 t = Loaded k cur"
    "scan_word s1 t k = ?wi" "set_pc s1 t p = set_pc s t p" for p
    by (simp_all add: s1_def scan_word_def)
  have upt: "[k..<?nw] = k # [Suc k..<?nw]" using k by (rule upt_conv_Cons)
  note scan = Suc(3) [unfolded upt alloc_scan.simps Let_def, folded scan_word_def, folded cur_def,
      folded candidate_def]
  show ?case
  proof (cases "has_candidate s ?wi cur")
    case False
    have "race_step s1 t (set_pc s t (Scan (Suc k)))"
      using race_step.skip [of s1 t k cur] False by (simp add: has_candidate_def)
    moreover have "solo t (set_pc s t (Scan (Suc k))) (set_pc (s\<lparr>mem := b'\<rparr>) t (outcome r))"
      using Suc(1) [of "set_pc s t (Scan (Suc k))" "Suc k"] Suc(2) scan False
      by (auto simp: has_candidate_def set_pc_def split: if_splits)
    ultimately show ?thesis using st1 solo_step by blast
  next
    case True
    then have r: "r = Some (candidate ?wi cur)"
      "b' = (mem s)\<lparr>words := (words (mem s))[?wi := cur OR push_bit (trailing_zeros (NOT cur)) 1]\<rparr>"
      using scan by (simp_all add: has_candidate_def)
    have "race_step s1 t (set_pc (s1\<lparr>mem := b'\<rparr>) t (Got (candidate ?wi cur)))"
      using race_step.cas_ok [of s1 t k cur] True k by (simp add: has_candidate_def cur_def r(2))
    moreover have "set_pc (s1\<lparr>mem := b'\<rparr>) t p = set_pc (s\<lparr>mem := b'\<rparr>) t p" for p
      by (simp add: s1_def set_pc_def)
    ultimately have "race_step s1 t (set_pc (s\<lparr>mem := b'\<rparr>) t (outcome r))"
      by (simp add: outcome_def r(1))
    then have "solo t s1 (set_pc (s\<lparr>mem := b'\<rparr>) t (outcome r))"
      unfolding solo_def by (rule r_into_rtranclp)
    with st1 show ?thesis by (rule solo_step)
  qed
qed

section \<open>Properties\<close>

text \<open>
  C4. Lock-free allocation is exclusive: however the loads, exchanges and releases of any number of
  threads interleave, two threads never hold the same extent id, and an id that is held is inside
  the device and marked used.
\<close>

theorem alloc_race_exclusive:
  assumes "bm_wf b0" and "race_reachable b0 sw s" and "pcs s t = Got eid"
  shows "eid < bm_n (mem s) \<and> eid \<in> bm_bits (mem s) \<and> (\<forall>u. pcs s u = Got eid \<longrightarrow> u = t)"
  using race_reachable_inv [OF assms(1,2)] assms(3) unfolding race_inv_def by blast

text \<open>
  Run without interference, the compare-and-swap machine of a thread does exactly what the
  sequential model \<open>bm_alloc_one\<close> computes: it reaches the state with that bitmap and returns that
  id, or \<^verbatim>\<open>None\<close> when the model finds nothing.
\<close>

theorem alloc_one_solo_refines:
  assumes "pcs s t = Scan 0" and "start_words s t = hint div 64 mod length (words (mem s))"
    and "bm_alloc_one (mem s) hint = (r, hint', b')"
  shows "solo t s (set_pc (s\<lparr>mem := b'\<rparr>) t (outcome r))"
proof (cases "words (mem s) = []")
  case True
  with assms(3) have "alloc_scan (mem s) (start_words s t) [0..<length (words (mem s))] hint = (r, hint', b')"
    by (simp add: bm_alloc_one_def)
  then show ?thesis using assms(1) by (rule scan_solo)
next
  case False
  with assms(2,3) have
    "alloc_scan (mem s) (start_words s t) [0..<length (words (mem s))] hint = (r, hint', b')"
    by (simp add: bm_alloc_one_def Let_def)
  then show ?thesis using assms(1) by (rule scan_solo)
qed

text \<open>A concrete machine: thread 5 on a bitmap of three extents, the first one taken.\<close>

definition demo_map :: bitmap where
  "demo_map = snd (bm_set_bit (bm_new 3) 0)"

definition demo_race :: race where
  "demo_race = \<lparr>mem = demo_map, pcs = (\<lambda>_. Scan 0), start_words = (\<lambda>_. 0)\<rparr>"

lemma demo_map_words: "demo_map = \<lparr>words = [1], bm_n = 3\<rparr>"
  by code_simp

lemma demo_map_wf: "bm_wf demo_map"
proof -
  have "bm_bits demo_map \<subseteq> {0}"
    by (auto simp: demo_map_words bm_bits_def bm_in_def word_idx_def bit_1_iff)
  then show ?thesis by (auto simp: bm_wf_def demo_map_words div_ceil_def)
qed

lemma demo_alloc: "bm_alloc_one demo_map 0 = (Some 1, 2, \<lparr>words = [3], bm_n = 3\<rparr>)"
  unfolding demo_map_words by code_simp

theorem alloc_one_solo_refines_witness:
  "solo 5 demo_race (set_pc (demo_race\<lparr>mem := \<lparr>words = [3], bm_n = 3\<rparr>\<rparr>) 5 (outcome (Some 1)))"
  using alloc_one_solo_refines [of demo_race 5 0 "Some 1" 2 "\<lparr>words = [3], bm_n = 3\<rparr>"] demo_alloc
  by (simp add: demo_race_def)

definition demo_won :: race where
  "demo_won = set_pc (demo_race\<lparr>mem := \<lparr>words = [3], bm_n = 3\<rparr>\<rparr>) 5 (Got 1)"

lemma demo_reachable: "race_reachable demo_map (\<lambda>_. 0) demo_won"
proof -
  have one: "race_step demo_race 5 (set_pc demo_race 5 (Loaded 0 1))"
    using race_step.load [of demo_race 5 0] by (simp add: demo_race_def demo_map_words scan_word_def)
  have tz: "trailing_zeros (- 2) = 1" by code_simp
  have cand: "has_candidate (set_pc demo_race 5 (Loaded 0 1)) 0 1"
    by (simp add: has_candidate_def candidate_def demo_race_def demo_map_words tz)
  have two: "race_step (set_pc demo_race 5 (Loaded 0 1)) 5
      (set_pc (demo_race\<lparr>mem := \<lparr>words = [3], bm_n = 3\<rparr>\<rparr>) 5 (Got 1))"
    using race_step.cas_ok [of "set_pc demo_race 5 (Loaded 0 1)" 5 0 1] cand
    by (simp add: demo_race_def demo_map_words scan_word_def set_pc_def candidate_def tz)
  have "race_reachable demo_map (\<lambda>_. 0) demo_race"
    unfolding demo_race_def by (rule race_reachable.init)
  from race_reachable.step [OF race_reachable.step [OF this one] two] show ?thesis
    unfolding demo_won_def .
qed

theorem alloc_race_exclusive_witness:
  "1 < bm_n (mem demo_won) \<and> 1 \<in> bm_bits (mem demo_won) \<and> {u. pcs demo_won u = Got 1} = {5}"
proof -
  have g: "pcs demo_won 5 = Got 1" by (simp add: demo_won_def)
  note r = alloc_race_exclusive [OF demo_map_wf demo_reachable g]
  from r g have "{u. pcs demo_won u = Got 1} = {5}" by blast
  with r show ?thesis by blast
qed

end
