(* ===== verification/Alloc.thy ===== *)
theory Alloc
  imports Extent_Map "HOL-Library.Product_Lexorder" "HOL-Library.AList"
begin

text \<open>
  The space allocator, \<^verbatim>\<open>crates/fs3-alloc/src/lib.rs\<close>: the bitmap, the derived per-extent accounts
  (\<^verbatim>\<open>refcounts\<close>, \<^verbatim>\<open>generations\<close>, \<^verbatim>\<open>live_bytes\<close>, \<^verbatim>\<open>state\<close>, the sparse table of shared segments, read
  pins and the isolated set), the drafts that stage a transaction's changes, and the record types of
  \<^verbatim>\<open>crates/fs3-core/src/types.rs\<close> they are built from. The counters keep their width (\<^verbatim>\<open>u32\<close>,
  \<^verbatim>\<open>u64\<close>), so \<^verbatim>\<open>fetch_add\<close> and \<^verbatim>\<open>fetch_sub\<close> wrap as the atomics do. Extent ids are \<open>nat\<close>: they
  index vectors of at most \<^verbatim>\<open>MAX_EXTENTS\<close> entries and their sums stay below \<^verbatim>\<open>u64\<close>.

  A method takes the allocator (and the caller's draft, and the thread's allocation hint) and returns
  the new ones. A method that indexes a vector with a caller's id panics out of range, and a release
  build aborts the process: such a method returns an \<open>option\<close> and \<open>None\<close> is the abort, decided before
  any change since nothing observes the memory afterwards.
\<close>

section \<open>Data\<close>

record segment =
  extent_id :: u32
  seg_offset :: u32
  seg_len :: u32
  crcs :: "u32 list"

type_synonym seg_key = "u32 \<times> u32 \<times> u32"

definition seg_ext :: "segment \<Rightarrow> nat" where
  "seg_ext s = unat (extent_id s)"

definition key_of :: "segment \<Rightarrow> seg_key" where
  "key_of s = (extent_id s, seg_offset s, seg_len s)"

definition crc_units :: "segment \<Rightarrow> nat" where
  "crc_units s = length (crcs s)"

record alloc_record =
  r_seq :: u64
  r_txn :: u64
  r_alloc :: "(nat \<times> nat) list"
  r_ref_inc :: "nat list"
  r_ref_dec :: "nat list"

definition record_is_empty :: "alloc_record \<Rightarrow> bool" where
  "record_is_empty r \<longleftrightarrow> r_alloc r = [] \<and> r_ref_inc r = [] \<and> r_ref_dec r = []"

record alloc_draft =
  d_alloc :: "(nat \<times> nat) list"
  d_ref_inc :: "nat list"
  d_ref_dec :: "nat list"

definition draft_is_empty :: "alloc_draft \<Rightarrow> bool" where
  "draft_is_empty d \<longleftrightarrow> d_alloc d = [] \<and> d_ref_inc d = [] \<and> d_ref_dec d = []"

definition draft_merge :: "alloc_draft \<Rightarrow> alloc_draft \<Rightarrow> alloc_draft" where
  "draft_merge d e = \<lparr>d_alloc = d_alloc d @ d_alloc e, d_ref_inc = d_ref_inc d @ d_ref_inc e,
     d_ref_dec = d_ref_dec d @ d_ref_dec e\<rparr>"

datatype extent_state = Free | Open | Sealed

fun state_u8 :: "extent_state \<Rightarrow> u8" where
  "state_u8 Free = 0"
| "state_u8 Open = 1"
| "state_u8 Sealed = 2"

definition state_from_u8 :: "u8 \<Rightarrow> extent_state" where
  "state_from_u8 v = (if v = 0 then Free else if v = 1 then Open else Sealed)"

record staged =
  s_alloc :: "(nat \<times> nat) list"
  s_ref_inc :: "nat list"
  s_ref_dec :: "nat list"
  cleared :: "nat list"
  live_inc :: "(nat \<times> u32) list"
  inflight :: "(nat \<times> u32) list"
  live_dec :: "(nat \<times> u32) list"
  shared_inc :: "seg_key list"
  shared_dec :: "seg_key list"
  refcount_inc :: "nat list"
  refcount_dec :: "nat list"

definition staged_default :: staged where
  "staged_default = \<lparr>s_alloc = [], s_ref_inc = [], s_ref_dec = [], cleared = [], live_inc = [],
     inflight = [], live_dec = [], shared_inc = [], shared_dec = [], refcount_inc = [],
     refcount_dec = []\<rparr>"

record allocator =
  bmap :: bitmap
  refcounts :: "u32 list"
  generations :: "u64 list"
  live_bytes :: "u32 list"
  ext_state :: "u8 list"
  shared :: "seg_key \<rightharpoonup> u32"
  pin_count :: "u32 list"
  isolated :: "nat set"
  total_alloc :: u64
  total_free :: u64
  a_n :: nat

section \<open>Construction, growing and shrinking\<close>

definition alloc_new :: "nat \<Rightarrow> allocator option" where
  "alloc_new n =
     (if n = 0 then None
      else Some \<lparr>bmap = bm_new n, refcounts = replicate n 0, generations = replicate n 0,
        live_bytes = replicate n 0, ext_state = replicate n (state_u8 Free), shared = Map.empty,
        pin_count = replicate n 0, isolated = {}, total_alloc = 0, total_free = 0, a_n = n\<rparr>)"

definition alloc_extend :: "allocator \<Rightarrow> nat \<Rightarrow> allocator" where
  "alloc_extend a count =
     (if count = 0 then a
      else a\<lparr>bmap := bm_extend (bmap a) count,
        refcounts := refcounts a @ replicate count 0,
        generations := generations a @ replicate count 0,
        live_bytes := live_bytes a @ replicate count 0,
        ext_state := ext_state a @ replicate count (state_u8 Free),
        pin_count := pin_count a @ replicate count 0,
        a_n := a_n a + count,
        total_free := total_free a + of_nat count\<rparr>)"

definition free_in_range :: "allocator \<Rightarrow> nat \<Rightarrow> nat \<Rightarrow> nat" where
  "free_in_range a start count = count - bm_count_ones_range (bmap a) start count"

definition shrink_tail :: "allocator \<Rightarrow> nat \<Rightarrow> allocator option" where
  "shrink_tail a count =
     (if a_n a < count \<or> free_in_range a (a_n a - count) count \<noteq> count then None
      else let m = a_n a - count in
        map_option (\<lambda>b. a\<lparr>bmap := b,
            refcounts := take m (refcounts a), generations := take m (generations a),
            live_bytes := take m (live_bytes a), ext_state := take m (ext_state a),
            a_n := m, total_free := total_free a - of_nat count\<rparr>)
          (bm_truncate (bmap a) count))"

section \<open>Reading the accounts\<close>

definition pin_count_of :: "allocator \<Rightarrow> nat \<Rightarrow> u32" where
  "pin_count_of a i = pin_count a ! i"

definition is_pinned :: "allocator \<Rightarrow> nat \<Rightarrow> bool" where
  "is_pinned a i \<longleftrightarrow> i < a_n a \<and> 0 < pin_count_of a i"

definition refcount :: "allocator \<Rightarrow> nat \<Rightarrow> u32" where
  "refcount a i = refcounts a ! i"

definition live_bytes_of :: "allocator \<Rightarrow> nat \<Rightarrow> u32" where
  "live_bytes_of a i = live_bytes a ! i"

definition live_bytes_in_range :: "allocator \<Rightarrow> nat \<Rightarrow> nat \<Rightarrow> nat" where
  "live_bytes_in_range a start count =
     sum_list (map (\<lambda>i. unat (live_bytes_of a i)) [start..<start + count])"

definition live_bytes_total :: "allocator \<Rightarrow> nat" where
  "live_bytes_total a = sum_list (map (\<lambda>i. unat (live_bytes_of a i)) [0..<a_n a])"

definition generation :: "allocator \<Rightarrow> nat \<Rightarrow> u64" where
  "generation a i = generations a ! i"

definition test_bit :: "allocator \<Rightarrow> nat \<Rightarrow> bool" where
  "test_bit a i = bm_test (bmap a) i"

definition allocated_count :: "allocator \<Rightarrow> nat" where
  "allocated_count a = bm_count_ones (bmap a)"

definition state_of :: "allocator \<Rightarrow> nat \<Rightarrow> extent_state" where
  "state_of a i = state_from_u8 (ext_state a ! i)"

definition shared_count :: "allocator \<Rightarrow> u32 \<Rightarrow> u32 \<Rightarrow> u32 \<Rightarrow> u32 option" where
  "shared_count a e off l = shared a (e, off, l)"

definition is_shared :: "allocator \<Rightarrow> segment \<Rightarrow> bool" where
  "is_shared a s \<longleftrightarrow> shared a (key_of s) \<noteq> None"

definition set_state :: "nat \<Rightarrow> extent_state \<Rightarrow> allocator \<Rightarrow> allocator" where
  "set_state i st a = a\<lparr>ext_state := (ext_state a)[i := state_u8 st]\<rparr>"

definition mark_open :: "allocator \<Rightarrow> nat \<Rightarrow> allocator option" where
  "mark_open a i = (if i < length (ext_state a) then Some (set_state i Open a) else None)"

definition mark_sealed :: "allocator \<Rightarrow> nat \<Rightarrow> allocator option" where
  "mark_sealed a i = (if i < length (ext_state a) then Some (set_state i Sealed a) else None)"

section \<open>Allocating\<close>

text \<open>\<^verbatim>\<open>compress_ranges\<close>: sorted ids without repetition, as runs \<open>(start, count)\<close>.\<close>

definition compress_step :: "(nat \<times> nat) list \<Rightarrow> nat \<Rightarrow> (nat \<times> nat) list" where
  "compress_step out i =
     (if out \<noteq> [] \<and> fst (last out) + snd (last out) = i
      then butlast out @ [(fst (last out), snd (last out) + 1)] else out @ [(i, 1)])"

definition compress_ranges :: "nat list \<Rightarrow> (nat \<times> nat) list" where
  "compress_ranges ids = foldl compress_step [] (remdups_adj (sort ids))"

definition claim_extent :: "allocator \<Rightarrow> bitmap \<Rightarrow> nat \<Rightarrow> allocator" where
  "claim_extent a b i = a\<lparr>bmap := b, refcounts := (refcounts a)[i := 0],
     generations := (generations a)[i := generations a ! i + 1],
     total_alloc := total_alloc a + 1\<rparr>"

definition isolate :: "allocator \<Rightarrow> bitmap \<Rightarrow> nat \<Rightarrow> allocator" where
  "isolate a b i = a\<lparr>bmap := b, isolated := insert i (isolated a)\<rparr>"

definition unclaim :: "nat \<Rightarrow> allocator \<Rightarrow> allocator" where
  "unclaim i a = a\<lparr>bmap := snd (bm_clear_bit (bmap a) i), refcounts := (refcounts a)[i := 0],
     live_bytes := (live_bytes a)[i := 0], ext_state := (ext_state a)[i := state_u8 Free],
     total_alloc := total_alloc a - 1\<rparr>"

text \<open>
  The loops of \<^verbatim>\<open>allocate\<close> and \<^verbatim>\<open>allocate_in_range\<close>: \<open>h\<close> is the local cursor, \<open>hint\<close> the thread's stored
  one. A pinned extent that the bitmap hands out stays marked and joins the isolated set; the loop
  looks further. Each round sets a bit, so the loop ends.
\<close>

definition bm_zeros :: "bitmap \<Rightarrow> nat" where
  "bm_zeros b = 64 * length (words b) - card (bm_bits b)"

lemma bm_zeros_insert:
  assumes "bm_in b i" "i \<notin> bm_bits b" "bm_bits b' = insert i (bm_bits b)"
    "length (words b') = length (words b)"
  shows "bm_zeros b' < bm_zeros b"
proof -
  have "insert i (bm_bits b) \<subseteq> {..<64 * length (words b)}"
    using assms(1) bm_bits_bound by (auto simp: bm_in_iff)
  then have "card (insert i (bm_bits b)) \<le> 64 * length (words b)"
    using card_mono [OF finite_lessThan] by fastforce
  with assms show ?thesis by (simp add: bm_zeros_def)
qed

function alloc_loop ::
  "allocator \<Rightarrow> nat \<Rightarrow> nat \<Rightarrow> nat list \<Rightarrow> nat \<Rightarrow> nat list result \<times> allocator \<times> nat" where
  "alloc_loop a h hint out count =
     (if length out < count then
        (case bm_alloc_one (bmap a) h of
           (None, h', b') \<Rightarrow> (Inl NoSpace, fold unclaim out a, hint)
         | (Some i, h', b') \<Rightarrow>
             if is_pinned a i then alloc_loop (isolate a b' i) h' hint out count
             else alloc_loop (claim_extent a b' i) h' h' (out @ [i]) count)
      else (Inr out, a, h))"
  by pat_completeness auto
termination
  by (relation "measure (\<lambda>(a, h, hint, out, count). bm_zeros (bmap a))")
    (auto simp: isolate_def claim_extent_def dest!: sym [of "(_, _, _)"] dest: bm_alloc_one_Some
      intro!: bm_zeros_insert)

declare alloc_loop.simps [simp del]


definition allocate :: "allocator \<Rightarrow> nat \<Rightarrow> staged \<Rightarrow> nat \<Rightarrow> nat list result \<times> allocator \<times> nat \<times> staged" where
  "allocate a hint d count =
     (case alloc_loop a hint hint [] count of
        (Inl e, a', h') \<Rightarrow> (Inl e, a', h', d)
      | (Inr out, a', h') \<Rightarrow> (Inr out, a', h', d\<lparr>s_alloc := s_alloc d @ compress_ranges out\<rparr>))"

lemma alloc_in_range_count: "bm_alloc_one_in_range b h start count = (Some i, h', b') \<Longrightarrow> 0 < count"
  by (auto simp: bm_alloc_one_in_range_def split: if_splits)

text \<open>
  The window of \<^verbatim>\<open>allocate_in_range\<close> must lie inside the device (the debug assertion and the word
  index of \<^verbatim>\<open>alloc_one_in_range\<close>); \<open>None\<close> is the abort.
\<close>

function alloc_range_loop ::
  "allocator \<Rightarrow> nat \<Rightarrow> nat \<Rightarrow> nat \<Rightarrow> nat \<Rightarrow> (nat option \<times> allocator \<times> nat) option" where
  "alloc_range_loop a h hint start count =
     (if bm_n (bmap a) < start + count \<or> 0 < count \<and> \<not> bm_in (bmap a) (start + count - 1) then None
      else case bm_alloc_one_in_range (bmap a) h start count of
          (None, h', b') \<Rightarrow> Some (None, a, hint)
        | (Some i, h', b') \<Rightarrow>
            if is_pinned a i then alloc_range_loop (isolate a b' i) h' hint start count
            else Some (Some i, claim_extent a b' i, h'))"
  by pat_completeness auto

termination
proof (relation "measure (\<lambda>(a, h, hint, start, count). bm_zeros (bmap a))", simp, goal_cases)
  case (1 a h hint start count x xa i h' b')
  then have r: "bm_alloc_one_in_range (bmap a) h start count = (Some i, h', b')" by simp
  with 1 have "bm_in (bmap a) (start + count - 1)" using alloc_in_range_count [OF r] by simp
  from bm_alloc_one_in_range_Some [OF r this] show ?case
    by (simp add: isolate_def bm_zeros_insert)
qed

declare alloc_range_loop.simps [simp del]

definition allocate_in_range ::
  "allocator \<Rightarrow> nat \<Rightarrow> staged \<Rightarrow> nat \<Rightarrow> nat \<Rightarrow> (nat option \<times> allocator \<times> nat \<times> staged) option" where
  "allocate_in_range a hint d start count =
     map_option (\<lambda>(r, a', h'). case r of
         None \<Rightarrow> (None, a', h', d)
       | Some i \<Rightarrow> (Some i, a', h', d\<lparr>s_alloc := s_alloc d @ [(i, 1)]\<rparr>))
       (alloc_range_loop a hint hint start count)"

section \<open>Accounting for objects\<close>

definition add_live :: "nat \<Rightarrow> u32 \<Rightarrow> allocator \<Rightarrow> allocator" where
  "add_live i l a = a\<lparr>live_bytes := (live_bytes a)[i := live_bytes a ! i + l]\<rparr>"

definition sub_live :: "nat \<Rightarrow> u32 \<Rightarrow> allocator \<Rightarrow> allocator" where
  "sub_live i l a = a\<lparr>live_bytes := (live_bytes a)[i := live_bytes a ! i - l]\<rparr>"

definition add_ref :: "nat \<Rightarrow> allocator \<Rightarrow> allocator" where
  "add_ref i a = a\<lparr>refcounts := (refcounts a)[i := refcounts a ! i + 1]\<rparr>"

definition sub_ref :: "nat \<Rightarrow> allocator \<Rightarrow> allocator" where
  "sub_ref i a = a\<lparr>refcounts := (refcounts a)[i := refcounts a ! i - 1]\<rparr>"

definition ids_ok :: "allocator \<Rightarrow> nat list \<Rightarrow> bool" where
  "ids_ok a ids \<longleftrightarrow> list_all (\<lambda>i. i < a_n a) ids"

definition segs_ok :: "allocator \<Rightarrow> segment list \<Rightarrow> bool" where
  "segs_ok a segs \<longleftrightarrow> ids_ok a (map seg_ext segs)"

text \<open>The vector of distinct extents a method collects, in order of first occurrence.\<close>

definition note_seen :: "nat list \<Rightarrow> nat \<Rightarrow> nat list" where
  "note_seen seen i = (if i \<in> set seen then seen else seen @ [i])"

definition pre_counted :: "(nat \<times> u32) list \<Rightarrow> (nat \<times> u32) \<rightharpoonup> nat" where
  "pre_counted ks =
     fold (\<lambda>k m. m(k \<mapsto> (case m k of None \<Rightarrow> 0 | Some n \<Rightarrow> n) + 1)) ks Map.empty"

definition charge_seg :: "segment \<Rightarrow> allocator \<times> staged \<Rightarrow> allocator \<times> staged" where
  "charge_seg s = (\<lambda>(a, d). (add_live (seg_ext s) (seg_len s) a,
     d\<lparr>live_inc := live_inc d @ [(seg_ext s, seg_len s)]\<rparr>))"

fun add_segs ::
  "((nat \<times> u32) \<rightharpoonup> nat) \<Rightarrow> segment list \<Rightarrow> allocator \<times> staged \<Rightarrow> allocator \<times> staged" where
  "add_segs pre [] st = st"
| "add_segs pre (s # ss) st =
     (case pre (seg_ext s, seg_len s) of
        Some n \<Rightarrow> if 0 < n then add_segs (pre((seg_ext s, seg_len s) \<mapsto> n - 1)) ss st
                  else add_segs pre ss (charge_seg s st)
      | None \<Rightarrow> add_segs pre ss (charge_seg s st))"

definition seen_extents :: "segment list \<Rightarrow> nat list" where
  "seen_extents segs = foldl note_seen [] (map seg_ext segs)"

definition inc_ref :: "nat \<Rightarrow> allocator \<times> staged \<Rightarrow> allocator \<times> staged" where
  "inc_ref i = (\<lambda>(a, d). (add_ref i a, d\<lparr>refcount_inc := refcount_inc d @ [i]\<rparr>))"

definition add_object :: "allocator \<Rightarrow> staged \<Rightarrow> segment list \<Rightarrow> (allocator \<times> staged) option" where
  "add_object a d segs =
     (if segs = [] then Some (a, d)
      else if \<not> segs_ok a segs then None
      else Some (fold inc_ref (seen_extents segs) (add_segs (pre_counted (inflight d)) segs (a, d))))"

definition note_inflight_segment ::
  "allocator \<Rightarrow> staged \<Rightarrow> segment \<Rightarrow> (allocator \<times> staged) option" where
  "note_inflight_segment a d s =
     (if seg_ext s < a_n a
      then let key = (seg_ext s, seg_len s) in
        Some (add_live (seg_ext s) (seg_len s) a,
          d\<lparr>live_inc := live_inc d @ [key], inflight := inflight d @ [key]\<rparr>)
      else None)"

definition share_seg :: "segment \<Rightarrow> allocator \<times> staged \<Rightarrow> allocator \<times> staged" where
  "share_seg s = (\<lambda>(a, d).
     (a\<lparr>shared := (shared a)(key_of s \<mapsto> (case shared a (key_of s) of None \<Rightarrow> 1 | Some n \<Rightarrow> n) + 1)\<rparr>,
      d\<lparr>shared_inc := shared_inc d @ [key_of s]\<rparr>))"

definition share_object :: "allocator \<Rightarrow> staged \<Rightarrow> segment list \<Rightarrow> (allocator \<times> staged) option" where
  "share_object a d segs =
     (if segs = [] then Some (a, d)
      else if \<not> segs_ok a segs then None
      else Some (fold inc_ref (seen_extents segs) (fold share_seg segs (a, d))))"

text \<open>
  \<^verbatim>\<open>dec_live\<close>: too small a balance leaves everything as it is; the last live byte records the extent
  as to be cleared at commit.
\<close>

definition dec_live :: "nat \<Rightarrow> u32 \<Rightarrow> allocator \<times> staged \<Rightarrow> allocator \<times> staged" where
  "dec_live i l = (\<lambda>(a, d).
     let prev = live_bytes a ! i in
     if prev < l then (a, d)
     else if l < prev then (sub_live i l a, d\<lparr>live_dec := live_dec d @ [(i, l)]\<rparr>)
     else (a\<lparr>live_bytes := (live_bytes a)[i := 0]\<rparr>,
           d\<lparr>cleared := cleared d @ [i], s_ref_dec := s_ref_dec d @ [i],
             live_dec := live_dec d @ [(i, l)]\<rparr>))"

definition release_seg :: "segment \<Rightarrow> allocator \<times> staged \<Rightarrow> allocator \<times> staged" where
  "release_seg s = (\<lambda>(a, d).
     case shared a (key_of s) of
       Some n \<Rightarrow>
         if 1 < n
         then (a\<lparr>shared := (shared a)(key_of s \<mapsto> n - 1)\<rparr>,
               d\<lparr>shared_dec := shared_dec d @ [key_of s]\<rparr>)
         else dec_live (seg_ext s) (seg_len s)
               (a\<lparr>shared := (shared a)(key_of s := None)\<rparr>,
                d\<lparr>shared_dec := shared_dec d @ [key_of s]\<rparr>)
     | None \<Rightarrow> dec_live (seg_ext s) (seg_len s) (a, d))"

definition dec_ref :: "nat \<Rightarrow> allocator \<times> staged \<Rightarrow> allocator \<times> staged" where
  "dec_ref i = (\<lambda>(a, d).
     if refcounts a ! i = 0 then (a\<lparr>refcounts := (refcounts a)[i := 0]\<rparr>, d)
     else (sub_ref i a, d\<lparr>refcount_dec := refcount_dec d @ [i]\<rparr>))"

definition release_object :: "allocator \<Rightarrow> staged \<Rightarrow> segment list \<Rightarrow> (allocator \<times> staged) option" where
  "release_object a d segs =
     (if segs_ok a segs then Some (fold dec_ref (seen_extents segs) (fold release_seg segs (a, d)))
      else None)"

section \<open>Commit and rollback\<close>

definition free_bit :: "nat \<Rightarrow> allocator \<Rightarrow> allocator" where
  "free_bit i a =
     (if bm_test (bmap a) i
      then a\<lparr>bmap := snd (bm_clear_bit (bmap a) i), total_free := total_free a + 1\<rparr> else a)"

definition settle :: "nat \<Rightarrow> allocator \<Rightarrow> allocator" where
  "settle i a =
     (if 0 < live_bytes a ! i then a
      else if is_pinned a i then a\<lparr>isolated := insert i (isolated a)\<rparr>
      else set_state i Free (free_bit i a))"

definition to_alloc_draft :: "allocator \<Rightarrow> staged \<Rightarrow> (alloc_draft \<times> allocator) option" where
  "to_alloc_draft a d =
     (if ids_ok a (cleared d)
      then Some (\<lparr>d_alloc = s_alloc d, d_ref_inc = s_ref_inc d, d_ref_dec = s_ref_dec d\<rparr>,
                 fold settle (cleared d) a)
      else None)"

definition expand :: "(nat \<times> nat) list \<Rightarrow> nat list" where
  "expand rs = concat (map (\<lambda>(s, c). [s..<s + c]) rs)"

definition unfree_bit :: "nat \<Rightarrow> allocator \<Rightarrow> allocator" where
  "unfree_bit i a =
     (if bm_test (bmap a) i then a
      else a\<lparr>bmap := snd (bm_set_bit (bmap a) i), total_free := total_free a - 1\<rparr>)"

definition undo_alloc :: "nat \<Rightarrow> allocator \<Rightarrow> allocator" where
  "undo_alloc i a =
     set_state i Free (a\<lparr>bmap := snd (bm_clear_bit (bmap a) i), total_alloc := total_alloc a - 1\<rparr>)"

definition undo_share :: "seg_key \<Rightarrow> allocator \<Rightarrow> allocator" where
  "undo_share k a =
     (case shared a k of
        Some n \<Rightarrow> if 2 < n then a\<lparr>shared := (shared a)(k \<mapsto> n - 1)\<rparr>
                  else a\<lparr>shared := (shared a)(k := None)\<rparr>
      | None \<Rightarrow> a)"

definition undo_release :: "seg_key \<Rightarrow> allocator \<Rightarrow> allocator" where
  "undo_release k a =
     a\<lparr>shared := (shared a)(k \<mapsto> (case shared a k of Some n \<Rightarrow> n + 1 | None \<Rightarrow> 1))\<rparr>"

definition draft_ids :: "staged \<Rightarrow> nat list" where
  "draft_ids d = cleared d @ expand (s_alloc d) @ map fst (live_dec d) @ map fst (live_inc d) @
     refcount_dec d @ refcount_inc d"

definition rollback :: "allocator \<Rightarrow> staged \<Rightarrow> allocator option" where
  "rollback a d =
     (if \<not> ids_ok a (draft_ids d) then None
      else let a1 = fold unfree_bit (cleared d) a;
               a2 = fold undo_alloc (expand (s_alloc d)) a1;
               a3 = fold (\<lambda>(i, l). add_live i l) (live_dec d) a2;
               a4 = fold (\<lambda>(i, l). sub_live i l) (live_inc d) a3;
               a5 = fold undo_share (shared_inc d) a4;
               a6 = fold undo_release (shared_dec d) a5;
               a7 = fold add_ref (refcount_dec d) a6
           in Some (fold sub_ref (refcount_inc d) a7))"

section \<open>Recovery\<close>

text \<open>
  \<^verbatim>\<open>apply_record\<close>. An allocated id past the end of the vectors aborts, and so does a reference id past
  the last bitmap word.
\<close>

definition replay_alloc :: "nat \<Rightarrow> allocator \<Rightarrow> allocator" where
  "replay_alloc i a =
     (case bm_set_bit (bmap a) i of
        (True, b') \<Rightarrow> a\<lparr>bmap := b', refcounts := (refcounts a)[i := 1],
          generations := (generations a)[i := generations a ! i + 1], total_alloc := total_alloc a + 1\<rparr>
      | (False, b') \<Rightarrow> a\<lparr>bmap := b'\<rparr>)"

definition replay_inc :: "nat \<Rightarrow> allocator \<Rightarrow> allocator" where
  "replay_inc i a = (if bm_test (bmap a) i then add_ref i a else a)"

definition wipe_extent :: "nat \<Rightarrow> allocator \<Rightarrow> allocator" where
  "wipe_extent i a = set_state i Free
     (a\<lparr>bmap := snd (bm_clear_bit (bmap a) i), refcounts := (refcounts a)[i := 0],
        live_bytes := (live_bytes a)[i := 0], total_free := total_free a + 1\<rparr>)"

definition replay_dec :: "nat list \<Rightarrow> nat \<Rightarrow> allocator \<Rightarrow> allocator" where
  "replay_dec same_txn_retained i a =
     (if i \<in> set same_txn_retained then a
      else if bm_test (bmap a) i then wipe_extent i a else a)"

definition apply_record :: "allocator \<Rightarrow> alloc_record \<Rightarrow> allocator option" where
  "apply_record a rec =
     (if \<not> ids_ok a (expand (r_alloc rec)) \<or>
         \<not> list_all (bm_in (bmap a)) (r_ref_inc rec @ r_ref_dec rec) then None
      else let a1 = fold replay_alloc (expand (r_alloc rec)) a;
               a2 = fold replay_inc (r_ref_inc rec) a1
           in Some (fold (replay_dec (expand (r_alloc rec) @ r_ref_inc rec)) (r_ref_dec rec) a2))"

definition restore_bitmap :: "allocator \<Rightarrow> bytes \<Rightarrow> allocator option" where
  "restore_bitmap a bs =
     map_option (\<lambda>b. a\<lparr>bmap := b, refcounts := map (\<lambda>_. 0) (refcounts a),
         live_bytes := map (\<lambda>_. 0) (live_bytes a),
         ext_state := map (\<lambda>_. state_u8 Free) (ext_state a), shared := Map.empty\<rparr>)
       (bm_load (bmap a) bs)"

text \<open>
  \<^verbatim>\<open>rebuild_derived\<close>: the hash table of distinct segments is an association list here; the order its
  entries are visited in does not show in the result (\<open>rebuild_derived_spec\<close> below).
\<close>

definition count_key :: "(seg_key \<times> u32) list \<Rightarrow> segment \<Rightarrow> (seg_key \<times> u32) list" where
  "count_key uniq s = AList.map_default (key_of s) 1 (\<lambda>n. n + 1) uniq"

definition rebuild_refs :: "segment list list \<Rightarrow> allocator \<Rightarrow> allocator" where
  "rebuild_refs objs a = fold (\<lambda>segs. fold add_ref (seen_extents segs)) objs a"

definition rebuild_entry :: "seg_key \<times> u32 \<Rightarrow> allocator \<Rightarrow> allocator" where
  "rebuild_entry = (\<lambda>((e, off, l), cnt) a.
     let a' = add_live (unat e) l a in
     if 1 < cnt then a'\<lparr>shared := (shared a')((e, off, l) \<mapsto> cnt)\<rparr> else a')"

definition rebuild_derived :: "allocator \<Rightarrow> segment list list \<Rightarrow> allocator option" where
  "rebuild_derived a objs =
     (if \<not> list_all (segs_ok a) objs then None
      else let a0 = a\<lparr>live_bytes := map (\<lambda>_. 0) (live_bytes a), refcounts := map (\<lambda>_. 0) (refcounts a),
                 ext_state := map (\<lambda>_. state_u8 Sealed) (ext_state a)\<rparr>;
               uniq = foldl count_key [] (concat objs);
               a1 = rebuild_refs objs a0
           in Some (fold rebuild_entry uniq (a1\<lparr>shared := Map.empty\<rparr>)))"

definition restore_occupancy :: "allocator \<Rightarrow> nat \<Rightarrow> u32 \<Rightarrow> u32 \<Rightarrow> allocator option" where
  "restore_occupancy a i live rc =
     (if i < a_n a then Some (a\<lparr>live_bytes := (live_bytes a)[i := live], refcounts := (refcounts a)[i := rc]\<rparr>)
      else None)"

definition absorb_range_bitmap :: "allocator \<Rightarrow> bytes \<Rightarrow> nat \<Rightarrow> allocator" where
  "absorb_range_bitmap a bs base = a\<lparr>bmap := bm_load_range (bmap a) bs base\<rparr>"

definition restore_stats :: "allocator \<Rightarrow> u64 \<Rightarrow> u64 \<Rightarrow> allocator" where
  "restore_stats a ta tf = a\<lparr>total_alloc := ta, total_free := tf\<rparr>"

section \<open>Read pins\<close>

definition pin_one :: "nat \<Rightarrow> allocator \<Rightarrow> allocator" where
  "pin_one i a = (if i < a_n a then a\<lparr>pin_count := (pin_count a)[i := pin_count a ! i + 1]\<rparr> else a)"

definition pin :: "allocator \<Rightarrow> nat list \<Rightarrow> allocator" where
  "pin a ids = fold pin_one ids a"

definition release_isolated_if_idle :: "nat \<Rightarrow> allocator \<Rightarrow> allocator" where
  "release_isolated_if_idle i a =
     (if i \<notin> isolated a then a
      else let a1 = a\<lparr>isolated := isolated a - {i}\<rparr> in
        if is_pinned a1 i \<or> 0 < live_bytes_of a1 i then a1\<lparr>isolated := insert i (isolated a1)\<rparr>
        else let a2 = set_state i Free (free_bit i a1) in a2\<lparr>refcounts := (refcounts a2)[i := 0]\<rparr>)"

definition unpin_one :: "nat \<Rightarrow> allocator \<Rightarrow> allocator" where
  "unpin_one i a =
     (if a_n a \<le> i then a
      else let prev = pin_count a ! i; a1 = a\<lparr>pin_count := (pin_count a)[i := prev - 1]\<rparr> in
        if prev = 1 then release_isolated_if_idle i a1 else a1)"

definition unpin :: "allocator \<Rightarrow> nat list \<Rightarrow> allocator" where
  "unpin a ids = fold unpin_one ids a"

text \<open>The guard \<^verbatim>\<open>ReadPin\<close>: its ids are sorted and distinct, and dropping it unpins them.\<close>

definition read_pin_new :: "allocator \<Rightarrow> nat list \<Rightarrow> allocator \<times> nat list" where
  "read_pin_new a ids = (let ids' = remdups_adj (sort ids) in (pin a ids', ids'))"

definition read_pin_drop :: "allocator \<times> nat list \<Rightarrow> allocator" where
  "read_pin_drop = (\<lambda>(a, ids). unpin a ids)"

section \<open>Checking, healing and compaction candidates\<close>

definition leaks :: "allocator \<Rightarrow> nat set \<Rightarrow> nat list" where
  "leaks a reach = filter (\<lambda>i. bm_test (bmap a) i \<and> i \<notin> reach) [0..<a_n a]"

definition heal_one :: "nat \<Rightarrow> allocator \<times> nat \<Rightarrow> allocator \<times> nat" where
  "heal_one i = (\<lambda>(a, healed).
     if 0 < live_bytes_of a i \<and> \<not> bm_test (bmap a) i
     then (a\<lparr>bmap := snd (bm_set_bit (bmap a) i), total_alloc := total_alloc a + 1\<rparr>, healed + 1)
     else (a, healed))"

definition heal_bitmap :: "allocator \<Rightarrow> allocator \<times> nat" where
  "heal_bitmap a = fold heal_one [0..<a_n a] (a, 0)"

definition release_leaked :: "allocator \<Rightarrow> staged \<Rightarrow> nat \<Rightarrow> (bool \<times> allocator \<times> staged) option" where
  "release_leaked a d i =
     (if \<not> bm_in (bmap a) i then None
      else if \<not> bm_test (bmap a) i \<or> is_pinned a i then Some (False, a, d)
      else Some (True, wipe_extent i a, d\<lparr>s_ref_dec := s_ref_dec d @ [i], cleared := cleared d @ [i]\<rparr>))"

text \<open>
  \<^verbatim>\<open>compaction_candidates\<close>. The parameter \<open>below_thr\<close> stands for the floating point test
  \<^verbatim>\<open>(lb as f64) < capacity as f64 * threshold\<close>.
\<close>

definition candidate_list :: "allocator \<Rightarrow> (u32 \<Rightarrow> bool) \<Rightarrow> u64 \<Rightarrow> (u64 \<times> nat) list" where
  "candidate_list a below_thr capacity =
     map (\<lambda>i. (capacity - ucast (live_bytes_of a i), i))
       (filter (\<lambda>i. state_of a i = Sealed \<and> \<not> is_pinned a i \<and> 0 < live_bytes_of a i \<and>
                    below_thr (live_bytes_of a i)) [0..<a_n a])"

definition compaction_candidates :: "allocator \<Rightarrow> (u32 \<Rightarrow> bool) \<Rightarrow> nat \<Rightarrow> u64 \<Rightarrow> nat list" where
  "compaction_candidates a below_thr top_k capacity =
     map snd (take top_k (sort_key (\<lambda>(w, i). (- int (unat w), i)) (candidate_list a below_thr capacity)))"

end
