(* ===== verification/Alloc_Inv.thy ===== *)
theory Alloc_Inv
  imports Alloc
begin

text \<open>
  The allocator's well-formedness (\<open>alloc_wf\<close>: the vectors and the bitmap agree on the number of
  extents), the safety condition \<open>live_marked\<close> (an extent with live bytes is marked used), that the
  operations keep both, and what \<^verbatim>\<open>allocate\<close> and \<^verbatim>\<open>allocate_in_range\<close> do on every path.
\<close>

section \<open>Well-formedness\<close>

abbreviation used_ids :: "allocator \<Rightarrow> nat set" where
  "used_ids a \<equiv> bm_bits (bmap a)"

definition alloc_wf :: "allocator \<Rightarrow> bool" where
  "alloc_wf a \<longleftrightarrow> bm_wf (bmap a) \<and> bm_n (bmap a) = a_n a \<and> length (refcounts a) = a_n a \<and>
     length (generations a) = a_n a \<and> length (live_bytes a) = a_n a \<and>
     length (ext_state a) = a_n a \<and> a_n a \<le> length (pin_count a)"

definition live_marked :: "allocator \<Rightarrow> bool" where
  "live_marked a \<longleftrightarrow> (\<forall>i < a_n a. live_bytes a ! i \<noteq> 0 \<longrightarrow> i \<in> used_ids a)"

named_theorems wf_rules \<open>operations keep well-formedness\<close>

lemmas acct_defs = add_live_def sub_live_def add_ref_def sub_ref_def set_state_def
  undo_share_def undo_release_def

lemma fold_keeps:
  assumes "\<And>x s. x \<in> set xs \<Longrightarrow> P s \<Longrightarrow> P (f x s)" and "P s"
  shows "P (fold f xs s)"
  using assms by (induction xs arbitrary: s) auto

lemma fold_field:
  assumes "\<And>x s. x \<in> set xs \<Longrightarrow> g (f x s) = g s"
  shows "g (fold f xs s) = g s"
  using assms by (induction xs arbitrary: s) auto

lemma alloc_wf_cong:
  assumes "alloc_wf a" "bmap a' = bmap a" "a_n a' = a_n a"
    "length (refcounts a') = length (refcounts a)" "length (generations a') = length (generations a)"
    "length (live_bytes a') = length (live_bytes a)" "length (ext_state a') = length (ext_state a)"
    "length (pin_count a') = length (pin_count a)"
  shows "alloc_wf a'"
  using assms by (simp add: alloc_wf_def)

lemma alloc_wf_accounts [wf_rules]:
  assumes "alloc_wf a"
  shows "alloc_wf (add_live i l a)" "alloc_wf (sub_live i l a)" "alloc_wf (add_ref i a)"
    "alloc_wf (sub_ref i a)" "alloc_wf (set_state i st a)" "alloc_wf (undo_share k a)"
    "alloc_wf (undo_release k a)"
  by (rule alloc_wf_cong [OF assms]; simp add: acct_defs split: option.split)+

lemma alloc_wf_shared [wf_rules]:
  assumes "alloc_wf a"
  shows "alloc_wf (a\<lparr>shared := m\<rparr>)" "alloc_wf (a\<lparr>isolated := quar\<rparr>)"
    "alloc_wf (a\<lparr>live_bytes := (live_bytes a)[i := l]\<rparr>)"
    "alloc_wf (a\<lparr>refcounts := (refcounts a)[i := l]\<rparr>)"
    "alloc_wf (a\<lparr>pin_count := (pin_count a)[i := l]\<rparr>)"
    "alloc_wf (a\<lparr>total_free := t\<rparr>)" "alloc_wf (a\<lparr>total_alloc := t\<rparr>)"
  by (rule alloc_wf_cong [OF assms]; simp)+

lemma alloc_wf_bmap [wf_rules]:
  "alloc_wf a \<Longrightarrow> bm_wf b \<Longrightarrow> bm_n b = a_n a \<Longrightarrow> alloc_wf (a\<lparr>bmap := b\<rparr>)"
  by (simp add: alloc_wf_def)

lemma alloc_wf_clear [wf_rules]:
  "alloc_wf a \<Longrightarrow> i < a_n a \<Longrightarrow> alloc_wf (a\<lparr>bmap := snd (bm_clear_bit (bmap a) i)\<rparr>)"
  by (rule alloc_wf_bmap) (simp_all add: alloc_wf_def bm.clear_invar bm.clear_cap)

lemma alloc_wf_mark [wf_rules]:
  "alloc_wf a \<Longrightarrow> i < a_n a \<Longrightarrow> alloc_wf (a\<lparr>bmap := snd (bm_set_bit (bmap a) i)\<rparr>)"
  by (rule alloc_wf_bmap) (simp_all add: alloc_wf_def bm.mark_invar bm.mark_cap)

lemma alloc_wf_test:
  "alloc_wf a \<Longrightarrow> i < a_n a \<Longrightarrow> bm_test (bmap a) i \<longleftrightarrow> i \<in> used_ids a"
  by (simp add: alloc_wf_def bm.test_iff)

lemma used_clear:
  "alloc_wf a \<Longrightarrow> i < a_n a \<Longrightarrow> bm_bits (snd (bm_clear_bit (bmap a) i)) = used_ids a - {i}"
  by (simp add: alloc_wf_def bm.clear_used)

lemma used_mark:
  "alloc_wf a \<Longrightarrow> i < a_n a \<Longrightarrow> bm_bits (snd (bm_set_bit (bmap a) i)) = insert i (used_ids a)"
  by (simp add: alloc_wf_def bm.mark_used)

lemma used_bounded: "alloc_wf a \<Longrightarrow> used_ids a \<subseteq> {..<a_n a}"
  using bm.used_bound [of "bmap a"] by (simp add: alloc_wf_def)

lemma bm_new_bits: "bm_bits (bm_new n) = {}"
  by (auto simp: bm_bits_def bm_new_def bm_in_def word_idx_def)

lemma bm_new_n: "bm_n (bm_new n) = n"
  by (simp add: bm_new_def)

lemma bm_new_wf: "bm_wf (bm_new n)"
  by (simp add: bm_wf_def bm_new_bits) (simp add: bm_new_def)

lemma alloc_new_wf: "alloc_new n = Some a \<Longrightarrow> alloc_wf a \<and> live_marked a \<and> used_ids a = {}"
  by (auto simp: alloc_new_def alloc_wf_def live_marked_def bm_new_wf bm_new_bits bm_new_n split: if_splits)

section \<open>Claiming extents\<close>

text \<open>
  \<open>claims a new quar a'\<close>: \<open>a'\<close> differs from \<open>a\<close> only in that the free and unpinned extents \<open>new\<close> are
  taken, in this order, and the free but pinned extents \<open>quar\<close> are marked and isolated.
\<close>

definition claims :: "allocator \<Rightarrow> nat list \<Rightarrow> nat set \<Rightarrow> allocator \<Rightarrow> bool" where
  "claims a new quar a' \<longleftrightarrow>
     distinct new \<and> set new \<union> quar \<subseteq> {..<a_n a} - used_ids a \<and>
     (\<forall>i \<in> set new. \<not> is_pinned a i) \<and> (\<forall>i \<in> quar. is_pinned a i) \<and>
     alloc_wf a' \<and> used_ids a' = used_ids a \<union> set new \<union> quar \<and>
     live_bytes a' = live_bytes a \<and> ext_state a' = ext_state a \<and> shared a' = shared a \<and>
     pin_count a' = pin_count a \<and> a_n a' = a_n a \<and> total_free a' = total_free a \<and>
     isolated a' = isolated a \<union> quar \<and> total_alloc a' = total_alloc a + of_nat (length new) \<and>
     (\<forall>i < a_n a. refcounts a' ! i = (if i \<in> set new then 0 else refcounts a ! i) \<and>
       generations a' ! i = (if i \<in> set new then generations a ! i + 1 else generations a ! i))"

lemma claims_refl: "alloc_wf a \<Longrightarrow> claims a [] {} a"
  by (simp add: claims_def)

lemma claims_frame:
  assumes "claims a new quar a'"
  shows "live_bytes a' = live_bytes a" "ext_state a' = ext_state a" "shared a' = shared a"
    "pin_count a' = pin_count a" "a_n a' = a_n a" "total_free a' = total_free a"
    "isolated a' = isolated a \<union> quar" "total_alloc a' = total_alloc a + of_nat (length new)"
  using assms by (simp_all add: claims_def)

lemma is_pinned_cong: "a_n a' = a_n a \<Longrightarrow> pin_count a' = pin_count a \<Longrightarrow> is_pinned a' i = is_pinned a i"
  by (simp add: is_pinned_def pin_count_of_def)

lemma claims_isolate:
  assumes "claims (isolate a b' i) new quar a'" "is_pinned a i" "i \<notin> used_ids a" "i < a_n a"
    "bm_bits b' = insert i (used_ids a)"
  shows "claims a new (insert i quar) a'"
proof -
  have p: "is_pinned (isolate a b' i) j = is_pinned a j" for j
    by (rule is_pinned_cong) (simp_all add: isolate_def)
  show ?thesis using assms unfolding claims_def p by (auto simp: isolate_def)
qed

lemma claims_claim:
  assumes "claims (claim_extent a b' i) new quar a'" "\<not> is_pinned a i" "i \<notin> used_ids a" "i < a_n a"
    "bm_bits b' = insert i (used_ids a)" "alloc_wf a"
  shows "claims a (i # new) quar a'"
proof -
  have p: "is_pinned (claim_extent a b' i) j = is_pinned a j" for j
    by (rule is_pinned_cong) (simp_all add: claim_extent_def)
  moreover have "i \<notin> set new" using assms(1,5) by (auto simp: claims_def claim_extent_def)
  ultimately show ?thesis using assms unfolding claims_def p alloc_wf_def
    by (auto simp: claim_extent_def nth_list_update)
qed

lemma alloc_wf_isolate: "alloc_wf a \<Longrightarrow> bm_wf b' \<Longrightarrow> bm_n b' = a_n a \<Longrightarrow> alloc_wf (isolate a b' i)"
  by (simp add: isolate_def alloc_wf_def)

lemma alloc_wf_claim: "alloc_wf a \<Longrightarrow> bm_wf b' \<Longrightarrow> bm_n b' = a_n a \<Longrightarrow> alloc_wf (claim_extent a b' i)"
  by (simp add: claim_extent_def alloc_wf_def)

lemma alloc_loop_claims:
  assumes "alloc_wf a" "alloc_loop a h hint out count = (r, a', hint')" "length out \<le> count"
  shows "\<exists>new quar am. claims a new quar am \<and>
     (case r of
        Inr res \<Rightarrow> res = out @ new \<and> a' = am \<and> length res = count
      | Inl e \<Rightarrow> e = NoSpace \<and> a' = fold unclaim (out @ new) am \<and> length (out @ new) < count \<and>
          {..<a_n a} \<subseteq> used_ids am)"
  using assms
proof (induction a h hint out count rule: alloc_loop.induct)
  case (1 a h hint out count)
  note wf = 1(3) and run = 1(4)
  have bwf: "bm_wf (bmap a)" "bm_n (bmap a) = a_n a" using wf by (auto simp: alloc_wf_def)
  show ?case
  proof (cases "length out < count")
    case False
    then show ?thesis
      using run claims_refl [OF wf] 1(5) by (subst (asm) alloc_loop.simps) fastforce
  next
    case lt: True
    obtain res h' b' where b: "bm_alloc_one (bmap a) h = (res, h', b')" by (metis prod_cases3)
    show ?thesis
    proof (cases res)
      case None
      with run lt b have "r = Inl NoSpace" "a' = fold unclaim out a"
        by (subst (asm) alloc_loop.simps, simp)+
      then show ?thesis
        using claims_refl [OF wf] bm.take_one_None [OF bwf(1) b [unfolded None]] lt bwf(2)
        by (intro exI [of _ "[]"] exI [of _ "{}"] exI [of _ a]) simp
    next
      case (Some i)
      note s = bm.take_one_Some [OF bwf(1) b [unfolded Some]]
      show ?thesis
      proof (cases "is_pinned a i")
        case True
        with run lt b Some have "alloc_loop (isolate a b' i) h' hint out count = (r, a', hint')"
          by (subst (asm) alloc_loop.simps) simp
        from 1(1) [OF lt b [symmetric] Some refl True _ this] obtain new quar am where
          c: "claims (isolate a b' i) new quar am" and rest: "case r of
            Inr res \<Rightarrow> res = out @ new \<and> a' = am \<and> length res = count
          | Inl e \<Rightarrow> e = NoSpace \<and> a' = fold unclaim (out @ new) am \<and> length (out @ new) < count \<and>
              {..<a_n (isolate a b' i)} \<subseteq> used_ids am"
          using alloc_wf_isolate [OF wf, of b' i] s lt bwf(2) by auto
        have "claims a new (insert i quar) am"
          by (rule claims_isolate [OF c True]) (use s bwf in auto)
        with rest show ?thesis by (auto simp: isolate_def split: sum.splits)
      next
        case False
        with run lt b Some have "alloc_loop (claim_extent a b' i) h' h' (out @ [i]) count = (r, a', hint')"
          by (subst (asm) alloc_loop.simps) simp
        from 1(2) [OF lt b [symmetric] Some refl False _ this] obtain new quar am where
          c: "claims (claim_extent a b' i) new quar am" and rest: "case r of
            Inr res \<Rightarrow> res = (out @ [i]) @ new \<and> a' = am \<and> length res = count
          | Inl e \<Rightarrow> e = NoSpace \<and> a' = fold unclaim ((out @ [i]) @ new) am \<and>
              length ((out @ [i]) @ new) < count \<and> {..<a_n (claim_extent a b' i)} \<subseteq> used_ids am"
          using alloc_wf_claim [OF wf, of b' i] s lt bwf(2) by auto
        have "claims a (i # new) quar am"
          by (rule claims_claim [OF c False _ _ _ wf]) (use s bwf in auto)
        with rest show ?thesis
          by (intro exI [of _ "i # new"] exI [of _ quar] exI [of _ am])
            (auto simp: claim_extent_def split: sum.splits)
      qed
    qed
  qed
qed


section \<open>Giving claimed extents back\<close>

lemma alloc_wf_unclaim [wf_rules]: "alloc_wf a \<Longrightarrow> i < a_n a \<Longrightarrow> alloc_wf (unclaim i a)"
  using alloc_wf_clear [of a i] by (simp add: unclaim_def alloc_wf_def)

lemma fold_unclaim:
  assumes "alloc_wf a" "set ids \<subseteq> {..<a_n a}"
  shows "alloc_wf (fold unclaim ids a) \<and> used_ids (fold unclaim ids a) = used_ids a - set ids \<and>
    total_alloc (fold unclaim ids a) = total_alloc a - of_nat (length ids) \<and>
    total_free (fold unclaim ids a) = total_free a \<and>
    generations (fold unclaim ids a) = generations a \<and> shared (fold unclaim ids a) = shared a \<and>
    isolated (fold unclaim ids a) = isolated a \<and> pin_count (fold unclaim ids a) = pin_count a \<and>
    a_n (fold unclaim ids a) = a_n a \<and>
    (\<forall>i < a_n a. live_bytes (fold unclaim ids a) ! i = (if i \<in> set ids then 0 else live_bytes a ! i) \<and>
       refcounts (fold unclaim ids a) ! i = (if i \<in> set ids then 0 else refcounts a ! i) \<and>
       ext_state (fold unclaim ids a) ! i = (if i \<in> set ids then state_u8 Free else ext_state a ! i))"
  using assms
proof (induction ids arbitrary: a)
  case Nil
  then show ?case by simp
next
  case (Cons j ids)
  let ?b = "unclaim j a"
  have j: "j < a_n a" and n: "a_n ?b = a_n a" using Cons.prems by (auto simp: unclaim_def)
  have wf: "alloc_wf ?b" by (rule alloc_wf_unclaim [OF Cons.prems(1) j])
  have len: "length (live_bytes a) = a_n a" "length (refcounts a) = a_n a" "length (ext_state a) = a_n a"
    using Cons.prems(1) by (simp_all add: alloc_wf_def)
  have used: "used_ids ?b = used_ids a - {j}"
    using used_clear [OF Cons.prems(1) j] by (simp add: unclaim_def)
  have accts: "\<forall>i < a_n a. live_bytes ?b ! i = (if i = j then 0 else live_bytes a ! i) \<and>
      refcounts ?b ! i = (if i = j then 0 else refcounts a ! i) \<and>
      ext_state ?b ! i = (if i = j then state_u8 Free else ext_state a ! i)"
    using len by (simp add: unclaim_def nth_list_update)
  have rest: "total_alloc ?b = total_alloc a - 1" "total_free ?b = total_free a"
    "generations ?b = generations a" "shared ?b = shared a" "isolated ?b = isolated a"
    "pin_count ?b = pin_count a"
    by (simp_all add: unclaim_def)
  show ?case
    using Cons.IH [OF wf] Cons.prems(2) used accts n rest
    by (auto simp: algebra_simps)
qed

section \<open>Range lists\<close>

lemma expand_Nil [simp]: "expand [] = []"
  by (simp add: expand_def)

lemma expand_append [simp]: "expand (xs @ ys) = expand xs @ expand ys"
  by (simp add: expand_def)

lemma expand_single [simp]: "expand [(s, c)] = [s..<s + c]"
  by (simp add: expand_def)

lemma expand_compress_step: "expand (compress_step out i) = expand out @ [i]"
proof (cases "out \<noteq> [] \<and> fst (last out) + snd (last out) = i")
  case True
  then obtain s c where l: "last out = (s, c)" "s + c = i" by (metis prod.collapse)
  from True have "expand out = expand (butlast out) @ expand [last out]"
    by (metis append_butlast_last_id expand_append)
  with l have "expand out = expand (butlast out) @ [s..<i]" by simp
  moreover have "compress_step out i = butlast out @ [(s, c + 1)]"
    using True l by (simp add: compress_step_def)
  moreover have "[s..<s + (c + 1)] = [s..<i] @ [i]" using l(2) upt_Suc_append [of s i] by simp
  ultimately show ?thesis by (simp del: upt_Suc)
next
  case False
  then have "compress_step out i = out @ [(i, 1)]" by (auto simp: compress_step_def)
  then show ?thesis by simp
qed

lemma expand_compress_ranges: "expand (compress_ranges ids) = remdups_adj (sort ids)"
proof -
  have "expand (foldl compress_step out xs) = expand out @ xs" for out xs
    by (induction xs arbitrary: out) (simp_all add: expand_compress_step)
  from this [of "[]"] show ?thesis by (simp add: compress_ranges_def)
qed

lemma remdups_adj_sorted_distinct: "sorted xs \<Longrightarrow> distinct xs \<Longrightarrow> remdups_adj xs = xs"
  by (simp add: remdups_adj_distinct)

lemma expand_compress_distinct: "distinct ids \<Longrightarrow> expand (compress_ranges ids) = sort ids"
  by (simp add: expand_compress_ranges remdups_adj_distinct)

section \<open>What allocate does\<close>

definition free_unpinned :: "allocator \<Rightarrow> nat set" where
  "free_unpinned a = {i. i < a_n a \<and> i \<notin> used_ids a \<and> \<not> is_pinned a i}"

lemma finite_free_unpinned [simp]: "finite (free_unpinned a)"
  by (rule finite_subset [of _ "{..<a_n a}"]) (auto simp: free_unpinned_def)

lemma allocate_Inr:
  assumes "alloc_wf a" "allocate a h d count = (Inr out, a', h', d')"
  shows "\<exists>quar. claims a out quar a'" "length out = count"
    "d' = d\<lparr>s_alloc := s_alloc d @ compress_ranges out\<rparr>"
proof -
  from assms(2) have "alloc_loop a h h [] count = (Inr out, a', h')"
    and d: "d' = d\<lparr>s_alloc := s_alloc d @ compress_ranges out\<rparr>"
    by (auto simp: allocate_def split: prod.splits sum.splits)
  from alloc_loop_claims [OF assms(1) this(1)] show "\<exists>quar. claims a out quar a'" "length out = count"
    by auto
  show "d' = d\<lparr>s_alloc := s_alloc d @ compress_ranges out\<rparr>" by (rule d)
qed

lemma allocate_Inl:
  assumes "alloc_wf a" "allocate a h d count = (Inl e, a', h', d')"
  obtains new quar am where "claims a new quar am" "e = NoSpace" "d' = d"
    "a' = fold unclaim new am" "length new < count" "{..<a_n a} \<subseteq> used_ids am"
proof -
  from assms(2) have "alloc_loop a h h [] count = (Inl e, a', h')" and d: "d' = d"
    by (auto simp: allocate_def split: prod.splits sum.splits)
  from alloc_loop_claims [OF assms(1) this(1)] that d show ?thesis by auto
qed

lemma claims_new_free: "claims a new quar am \<Longrightarrow> set new \<subseteq> free_unpinned a"
  by (auto simp: claims_def free_unpinned_def)

lemma claims_full:
  assumes "claims a new quar am" "{..<a_n a} \<subseteq> used_ids am"
  shows "set new = free_unpinned a"
  using assms by (auto simp: claims_def free_unpinned_def)

lemma claims_live_marked: "claims a new quar a' \<Longrightarrow> live_marked a \<Longrightarrow> live_marked a'"
  by (simp add: claims_def live_marked_def)

text \<open>
  \<open>grew a new quar a'\<close>: the part of \<open>claims\<close> that also holds after a failed allocation gave its
  extents back (with \<open>new = []\<close>).
\<close>

definition grew :: "allocator \<Rightarrow> nat list \<Rightarrow> nat set \<Rightarrow> allocator \<Rightarrow> bool" where
  "grew a new quar a' \<longleftrightarrow>
     distinct new \<and> set new \<union> quar \<subseteq> {..<a_n a} - used_ids a \<and> set new \<inter> quar = {} \<and>
     (\<forall>i \<in> quar. is_pinned a i) \<and> alloc_wf a' \<and> used_ids a' = used_ids a \<union> set new \<union> quar \<and>
     live_bytes a' = live_bytes a \<and> shared a' = shared a \<and> pin_count a' = pin_count a \<and>
     a_n a' = a_n a \<and> total_free a' = total_free a \<and> isolated a' = isolated a \<union> quar \<and>
     total_alloc a' = total_alloc a + of_nat (length new) \<and>
     (\<forall>i \<in> used_ids a. refcounts a' ! i = refcounts a ! i)"

lemma claims_grew:
  assumes "alloc_wf a" "claims a new quar a'"
  shows "grew a new quar a'"
proof -
  have "set new \<inter> quar = {}" using assms(2) by (auto simp: claims_def)
  moreover have "\<forall>i \<in> used_ids a. refcounts a' ! i = refcounts a ! i"
  proof
    fix i assume i: "i \<in> used_ids a"
    then have "i < a_n a" "i \<notin> set new" using used_bounded [OF assms(1)] assms(2) by (auto simp: claims_def)
    then show "refcounts a' ! i = refcounts a ! i" using assms(2) by (simp add: claims_def)
  qed
  ultimately show ?thesis using assms(2) by (simp add: claims_def grew_def)
qed

lemma grew_live_marked: "grew a new quar a' \<Longrightarrow> live_marked a \<Longrightarrow> live_marked a'"
  by (simp add: grew_def live_marked_def)

text \<open>
  C1. Allocation hands out as many distinct extents as asked for. Each was free, holds no live byte and
  is not pinned by a reader; it gets reference count 0 and the next generation. Of every other extent
  the reference count and the generation stay as they were, and so do the live bytes, states, pin counts
  and sharing of all extents; the allocation counter grows by the number of extents handed out, the free
  counter is untouched. Only free pinned extents that the search met are marked and isolated besides.
  The ranges added to the draft name exactly the extents returned.
\<close>

theorem allocate_hands_out_free:
  assumes "alloc_wf a" "live_marked a" "allocate a h d count = (Inr out, a', h', d')"
  shows "length out = count \<and> distinct out \<and>
    (\<forall>i \<in> set out. i < a_n a \<and> \<not> test_bit a i \<and> \<not> is_pinned a i \<and> live_bytes a ! i = 0 \<and>
       refcounts a' ! i = 0 \<and> generations a' ! i = generations a ! i + 1) \<and>
    (\<forall>i < a_n a. i \<notin> set out \<longrightarrow>
       refcounts a' ! i = refcounts a ! i \<and> generations a' ! i = generations a ! i) \<and>
    (\<exists>quar \<subseteq> {i. i < a_n a \<and> i \<notin> used_ids a \<and> is_pinned a i}.
       used_ids a' = used_ids a \<union> set out \<union> quar \<and> isolated a' = isolated a \<union> quar) \<and>
    live_bytes a' = live_bytes a \<and> shared a' = shared a \<and> ext_state a' = ext_state a \<and>
    pin_count a' = pin_count a \<and> a_n a' = a_n a \<and> total_free a' = total_free a \<and>
    total_alloc a' = total_alloc a + of_nat count \<and>
    (\<exists>rs. d' = d\<lparr>s_alloc := s_alloc d @ rs\<rparr> \<and> expand rs = sort out) \<and>
    alloc_wf a' \<and> live_marked a'"
proof -
  obtain quar where c: "claims a out quar a'"
    and len: "length out = count" and d: "d' = d\<lparr>s_alloc := s_alloc d @ compress_ranges out\<rparr>"
    using allocate_Inr [OF assms(1,3)] by blast
  have ids: "\<forall>i \<in> set out. i < a_n a \<and> \<not> test_bit a i \<and> \<not> is_pinned a i \<and> live_bytes a ! i = 0 \<and>
       refcounts a' ! i = 0 \<and> generations a' ! i = generations a ! i + 1"
    using c assms(2) alloc_wf_test [OF assms(1)]
    by (auto simp: claims_def live_marked_def test_bit_def)
  have "\<exists>quar \<subseteq> {i. i < a_n a \<and> i \<notin> used_ids a \<and> is_pinned a i}.
       used_ids a' = used_ids a \<union> set out \<union> quar \<and> isolated a' = isolated a \<union> quar"
    using c claims_frame [OF c] by (intro exI [of _ quar]) (auto simp: claims_def)
  moreover have "\<forall>i < a_n a. i \<notin> set out \<longrightarrow>
       refcounts a' ! i = refcounts a ! i \<and> generations a' ! i = generations a ! i"
    using c by (simp add: claims_def)
  moreover have "distinct out" "alloc_wf a'" using c by (simp_all add: claims_def)
  moreover have "\<exists>rs. d' = d\<lparr>s_alloc := s_alloc d @ rs\<rparr> \<and> expand rs = sort out"
    using d expand_compress_distinct [OF \<open>distinct out\<close>] by blast
  ultimately show ?thesis
    using ids len claims_live_marked [OF c assms(2)] claims_frame [OF c] by simp
qed

text \<open>
  C5. Allocation succeeds exactly when enough free and unpinned extents exist, wherever the hint points:
  the scan misses none.
\<close>

theorem allocate_succeeds_iff:
  assumes "alloc_wf a"
  shows "is_ok (fst (allocate a h d count)) \<longleftrightarrow> count \<le> card (free_unpinned a)"
proof (cases "allocate a h d count")
  case (fields r a' h' d')
  show ?thesis
  proof (cases r)
    case (Inr out)
    with fields obtain quar where c: "claims a out quar a'" "length out = count"
      using allocate_Inr [OF assms] by blast
    then have "count = card (set out)" by (simp add: claims_def distinct_card)
    also have "\<dots> \<le> card (free_unpinned a)"
      using claims_new_free [OF c(1)] by (intro card_mono) simp_all
    finally show ?thesis using fields Inr by simp
  next
    case (Inl e)
    obtain new quar am where c: "claims a new quar am" and "e = NoSpace" "d' = d"
      "a' = fold unclaim new am" and few: "length new < count" and full: "{..<a_n a} \<subseteq> used_ids am"
      by (rule allocate_Inl [OF assms fields [unfolded Inl]])
    have "card (free_unpinned a) = length new"
      using claims_full [OF c full] c distinct_card [of new] by (simp add: claims_def)
    with few fields Inl show ?thesis by simp
  qed
qed

lemma unclaim_grew:
  assumes wf: "alloc_wf a" and "live_marked a" and c: "claims a new quar am"
  shows "grew a [] quar (fold unclaim new am)"
proof -
  let ?a' = "fold unclaim new am"
  note fr = claims_frame [OF c]
  have wfm: "alloc_wf am" and new: "set new \<subseteq> {..<a_n am}" "set new \<inter> used_ids a = {}"
    and quar: "\<forall>i \<in> quar. is_pinned a i" "set new \<inter> quar = {}" "quar \<subseteq> {..<a_n a} - used_ids a"
    and used: "used_ids am = used_ids a \<union> set new \<union> quar"
    and refs: "\<forall>i < a_n a. i \<notin> set new \<longrightarrow> refcounts am ! i = refcounts a ! i"
    using c fr(5) by (auto simp: claims_def)
  note u = fold_unclaim [OF wfm new(1)]
  have used': "used_ids ?a' = used_ids a \<union> quar" using u used new quar by auto
  have live0: "\<forall>i \<in> set new. live_bytes a ! i = 0"
    using assms(2) new fr(5) by (auto simp: live_marked_def)
  have wf': "alloc_wf ?a'" and an: "a_n ?a' = a_n a" using u fr(5) by simp_all
  have live: "live_bytes ?a' = live_bytes a"
  proof (rule nth_equalityI)
    show "length (live_bytes ?a') = length (live_bytes a)"
      using wf' wf an by (simp add: alloc_wf_def)
    fix i assume "i < length (live_bytes ?a')"
    then have "i < a_n am" using wf' an fr(5) by (simp add: alloc_wf_def)
    then have "live_bytes ?a' ! i = (if i \<in> set new then 0 else live_bytes am ! i)" using u by simp
    with live0 fr(1) show "live_bytes ?a' ! i = live_bytes a ! i" by simp
  qed
  have "\<forall>i \<in> used_ids a. refcounts ?a' ! i = refcounts a ! i"
  proof
    fix i assume i: "i \<in> used_ids a"
    then have "i < a_n a" "i \<notin> set new" using used_bounded [OF wf] new by auto
    then show "refcounts ?a' ! i = refcounts a ! i" using u refs fr(5) by simp
  qed
  then show ?thesis using wf' an live used' u fr quar unfolding grew_def by simp
qed

lemma allocate_grew:
  assumes "alloc_wf a" "live_marked a" "allocate a h d count = (r, a', h', d')"
  shows "\<exists>new quar rs. grew a new quar a' \<and> d' = d\<lparr>s_alloc := s_alloc d @ rs\<rparr> \<and>
    expand rs = sort new"
proof (cases r)
  case (Inr out)
  obtain quar where c: "claims a out quar a'" and d: "d' = d\<lparr>s_alloc := s_alloc d @ compress_ranges out\<rparr>"
    using allocate_Inr [OF assms(1) assms(3) [unfolded Inr]] by blast
  have "expand (compress_ranges out) = sort out"
    by (rule expand_compress_distinct) (use c in \<open>simp add: claims_def\<close>)
  with d claims_grew [OF assms(1) c] show ?thesis by blast
next
  case (Inl e)
  obtain new quar am where c: "claims a new quar am" and "e = NoSpace" and d: "d' = d"
    and a': "a' = fold unclaim new am" and "length new < count" "{..<a_n a} \<subseteq> used_ids am"
    by (rule allocate_Inl [OF assms(1) assms(3) [unfolded Inl]])
  have "d' = d\<lparr>s_alloc := s_alloc d @ []\<rparr>" "expand [] = sort ([] :: nat list)" using d by simp_all
  with unclaim_grew [OF assms(1,2) c] a' show ?thesis by blast
qed

text \<open>
  When space runs out the extents taken so far are given back: the draft, the live bytes, the shared
  table and the allocation counter are as before, and the only new marks are on pinned extents, which
  are isolated.
\<close>

theorem allocate_no_space_restores:
  assumes "alloc_wf a" "live_marked a" "allocate a h d count = (Inl e, a', h', d')"
  shows "e = NoSpace \<and> d' = d \<and> live_bytes a' = live_bytes a \<and> shared a' = shared a \<and>
    total_alloc a' = total_alloc a \<and> total_free a' = total_free a \<and>
    (\<exists>quar \<subseteq> {i. is_pinned a i}. used_ids a' = used_ids a \<union> quar \<and> isolated a' = isolated a \<union> quar) \<and>
    alloc_wf a' \<and> live_marked a'"
proof -
  obtain new quar am where c: "claims a new quar am" and e: "e = NoSpace" "d' = d"
    and a': "a' = fold unclaim new am" and "length new < count" "{..<a_n a} \<subseteq> used_ids am"
    by (rule allocate_Inl [OF assms(1,3)])
  note g = unclaim_grew [OF assms(1,2) c, folded a']
  then have "quar \<subseteq> {i. is_pinned a i}" by (auto simp: grew_def)
  with g grew_live_marked [OF g assms(2)] e show ?thesis
    unfolding grew_def by (intro conjI exI [of _ quar]) simp_all
qed

section \<open>Allocation inside one device\<close>

lemma alloc_range_loop_ok:
  assumes "alloc_range_loop a h hint start count = Some x"
  shows "\<not> (bm_n (bmap a) < start + count \<or> 0 < count \<and> \<not> bm_in (bmap a) (start + count - 1))"
proof
  assume "bm_n (bmap a) < start + count \<or> 0 < count \<and> \<not> bm_in (bmap a) (start + count - 1)"
  then have "alloc_range_loop a h hint start count = None" by (subst alloc_range_loop.simps) simp
  with assms show False by simp
qed

lemma alloc_range_loop_claims:
  assumes "alloc_wf a" "alloc_range_loop a h hint start count = Some (r, a', hint')"
  shows "\<exists>quar. quar \<subseteq> {start..<start + count} \<and> claims a (case r of None \<Rightarrow> [] | Some i \<Rightarrow> [i]) quar a' \<and>
     (case r of None \<Rightarrow> {start..<start + count} \<subseteq> used_ids a' | Some i \<Rightarrow> start \<le> i \<and> i < start + count)"
  using assms
proof (induction a h hint start count rule: alloc_range_loop.induct)
  case (1 a h hint start count)
  note wf = 1(2) and run = 1(3)
  have bwf: "bm_wf (bmap a)" "bm_n (bmap a) = a_n a" using wf by (auto simp: alloc_wf_def)
  have ok: "\<not> (bm_n (bmap a) < start + count \<or> 0 < count \<and> \<not> bm_in (bmap a) (start + count - 1))"
    using run by (rule alloc_range_loop_ok)
  then have le: "start + count \<le> bm_n (bmap a)" by simp
  note step = alloc_range_loop.simps [of a h hint start count, unfolded if_not_P [OF ok]]
  obtain res h' b' where b: "bm_alloc_one_in_range (bmap a) h start count = (res, h', b')"
    by (metis prod_cases3)
  show ?case
  proof (cases res)
    case None
    with run b have "r = None" "a' = a"
      by (simp_all add: step)
    then show ?thesis
      using claims_refl [OF wf] bm.take_in_None [OF bwf(1) le b [unfolded None]]
      by (intro exI [of _ "{}"]) simp
  next
    case (Some i)
    note s = bm.take_in_Some [OF bwf(1) le b [unfolded Some]]
    show ?thesis
    proof (cases "is_pinned a i")
      case True
      with run b Some have "alloc_range_loop (isolate a b' i) h' hint start count = Some (r, a', hint')"
        by (simp add: step)
      from 1(1) [OF ok b [symmetric] Some refl True _ this] obtain quar where
        q: "quar \<subseteq> {start..<start + count}" and
        c: "claims (isolate a b' i) (case r of None \<Rightarrow> [] | Some i \<Rightarrow> [i]) quar a'" and
        rest: "case r of None \<Rightarrow> {start..<start + count} \<subseteq> used_ids a' | Some i \<Rightarrow> start \<le> i \<and> i < start + count"
        using alloc_wf_isolate [OF wf, of b' i] s bwf(2) by auto
      have "claims a (case r of None \<Rightarrow> [] | Some i \<Rightarrow> [i]) (insert i quar) a'"
        by (rule claims_isolate [OF c True]) (use s bwf le in auto)
      with rest s q show ?thesis by (intro exI [of _ "insert i quar"]) simp
    next
      case False
      with run b Some have "r = Some i" "a' = claim_extent a b' i"
        by (simp_all add: step)
      moreover have "claims (claim_extent a b' i) [] {} (claim_extent a b' i)"
        by (rule claims_refl, rule alloc_wf_claim [OF wf]) (use s bwf in auto)
      then have "claims a [i] {} (claim_extent a b' i)"
        by (rule claims_claim [OF _ False _ _ _ wf]) (use s bwf le in auto)
      ultimately show ?thesis using s by (intro exI [of _ "{}"]) simp
    qed
  qed
qed

lemma allocate_in_range_grew:
  assumes "alloc_wf a" "allocate_in_range a h d start count = Some (r, a', h', d')"
  shows "\<exists>new quar rs. grew a new quar a' \<and> d' = d\<lparr>s_alloc := s_alloc d @ rs\<rparr> \<and>
    expand rs = sort new"
proof -
  from assms(2) obtain hint' where run: "alloc_range_loop a h h start count = Some (r, a', hint')"
    and d: "d' = d\<lparr>s_alloc := s_alloc d @ (case r of None \<Rightarrow> [] | Some i \<Rightarrow> [(i, 1)])\<rparr>"
    by (auto simp: allocate_in_range_def split: option.splits)
  from alloc_range_loop_claims [OF assms(1) run] obtain quar where
    "claims a (case r of None \<Rightarrow> [] | Some i \<Rightarrow> [i]) quar a'" by blast
  from claims_grew [OF assms(1) this] d show ?thesis
    by (intro exI [of _ "case r of None \<Rightarrow> [] | Some i \<Rightarrow> [i]"] exI [of _ quar]
      exI [of _ "case r of None \<Rightarrow> [] | Some i \<Rightarrow> [(i, 1)]"]) (cases r; simp)
qed

text \<open>
  C6. Allocation on one device stays inside the device's window: the extent returned was free, unpinned
  and without live bytes, and an empty answer means that every extent of the window is in use or
  pinned.
\<close>

theorem allocate_in_range_window:
  assumes "alloc_wf a" "live_marked a" "allocate_in_range a h d start count = Some (r, a', h', d')"
  shows "(case r of
      None \<Rightarrow> d' = d \<and> (\<forall>i \<in> {start..<start + count}. test_bit a i \<or> is_pinned a i)
    | Some i \<Rightarrow> d' = d\<lparr>s_alloc := s_alloc d @ [(i, 1)]\<rparr> \<and> i \<in> {start..<start + count} \<and>
        \<not> test_bit a i \<and> \<not> is_pinned a i \<and> live_bytes a ! i = 0 \<and> test_bit a' i) \<and>
    alloc_wf a' \<and> live_marked a'"
proof -
  from assms(3) obtain hint' where run: "alloc_range_loop a h h start count = Some (r, a', hint')"
    and d: "d' = d\<lparr>s_alloc := s_alloc d @ (case r of None \<Rightarrow> [] | Some i \<Rightarrow> [(i, 1)])\<rparr>"
    by (auto simp: allocate_in_range_def split: option.splits)
  from alloc_range_loop_claims [OF assms(1) run] obtain quar where
    c: "claims a (case r of None \<Rightarrow> [] | Some i \<Rightarrow> [i]) quar a'" and
    rest: "case r of None \<Rightarrow> {start..<start + count} \<subseteq> used_ids a' | Some i \<Rightarrow> start \<le> i \<and> i < start + count"
    by blast
  have wf': "alloc_wf a'" using c by (simp add: claims_def)
  note tests = alloc_wf_test [OF assms(1)] alloc_wf_test [OF wf'] claims_frame(5) [OF c]
  have le: "start + count \<le> a_n a"
    using alloc_range_loop_ok [OF run] assms(1) by (simp add: alloc_wf_def)
  have dead: "i < a_n a \<Longrightarrow> i \<notin> used_ids a \<Longrightarrow> live_bytes a ! i = 0" for i
    using assms(2) unfolding live_marked_def by metis
  show ?thesis
  proof (cases r)
    case None
    with c rest have "{start..<start + count} \<subseteq> used_ids a \<union> {i. is_pinned a i}"
      by (auto simp: claims_def)
    then have "\<forall>i \<in> {start..<start + count}. test_bit a i \<or> is_pinned a i"
      using tests le by (auto simp: test_bit_def)
    with None d wf' claims_live_marked [OF c assms(2)] show ?thesis by simp
  next
    case (Some i)
    with rest le have i: "i < a_n a" "i \<in> {start..<start + count}" by simp_all
    from c Some have "i \<notin> used_ids a" "\<not> is_pinned a i" "i \<in> used_ids a'" by (auto simp: claims_def)
    with i Some d wf' claims_live_marked [OF c assms(2)] tests dead [of i] show ?thesis
      by (simp add: test_bit_def)
  qed
qed


section \<open>A concrete device of three extents, the first one pinned by a reader\<close>

definition demo_alloc :: allocator where
  "demo_alloc = pin (the (alloc_new 3)) [0]"

lemma demo_alloc_wf: "alloc_wf demo_alloc" "live_marked demo_alloc"
proof -
  obtain a where a: "alloc_new 3 = Some a" by (simp add: alloc_new_def)
  have n: "a_n a = 3" using a by (auto simp: alloc_new_def)
  have d: "demo_alloc = a\<lparr>pin_count := (pin_count a)[0 := pin_count a ! 0 + 1]\<rparr>"
    using a n by (simp add: demo_alloc_def pin_def pin_one_def)
  show "alloc_wf demo_alloc" "live_marked demo_alloc"
    using alloc_new_wf [OF a] unfolding d by (auto simp: wf_rules live_marked_def)
qed

lemma demo_allocate: "fst (allocate demo_alloc 0 staged_default 2) = Inr [1, 2]"
  by code_simp

lemma demo_allocate_full: "fst (allocate demo_alloc 0 staged_default 3) = Inl NoSpace"
  by code_simp

lemma demo_in_range: "map_option fst (allocate_in_range demo_alloc 0 staged_default 0 2) = Some (Some 1)"
  by code_simp

theorem allocate_hands_out_free_witness:
  "\<exists>a' h' d'. allocate demo_alloc 0 staged_default 2 = (Inr [1, 2], a', h', d') \<and>
     live_bytes demo_alloc ! 1 = 0 \<and> live_bytes a' = live_bytes demo_alloc \<and> alloc_wf a'"
proof -
  obtain a' h' d' where r: "allocate demo_alloc 0 staged_default 2 = (Inr [1, 2], a', h', d')"
    using demo_allocate by (metis prod.collapse)
  from allocate_hands_out_free [OF demo_alloc_wf r] r show ?thesis by auto
qed

theorem allocate_succeeds_iff_witness:
  "\<not> is_ok (fst (allocate demo_alloc 0 staged_default 3)) \<and> \<not> 3 \<le> card (free_unpinned demo_alloc)"
  using allocate_succeeds_iff [OF demo_alloc_wf(1), of 0 staged_default 3] demo_allocate_full by simp

theorem allocate_no_space_restores_witness:
  "\<exists>a' h'. allocate demo_alloc 0 staged_default 3 = (Inl NoSpace, a', h', staged_default) \<and>
     live_bytes a' = live_bytes demo_alloc \<and> total_alloc a' = total_alloc demo_alloc"
proof -
  obtain a' h' d' where r: "allocate demo_alloc 0 staged_default 3 = (Inl NoSpace, a', h', d')"
    using demo_allocate_full by (metis prod.collapse)
  from allocate_no_space_restores [OF demo_alloc_wf r] r show ?thesis by auto
qed

theorem allocate_in_range_window_witness:
  "\<exists>a' h'. allocate_in_range demo_alloc 0 staged_default 0 2 =
     Some (Some 1, a', h', staged_default\<lparr>s_alloc := [(1, 1)]\<rparr>) \<and> test_bit a' 1 \<and> live_marked a'"
proof -
  obtain a' h' d' where r: "allocate_in_range demo_alloc 0 staged_default 0 2 = Some (Some 1, a', h', d')"
    using demo_in_range by (metis (no_types, lifting) map_option_eq_Some prod.collapse)
  from allocate_in_range_window [OF demo_alloc_wf r] r show ?thesis
    by (auto simp: staged_default_def)
qed

end
