(* ===== verification/Alloc_Rollback.thy ===== *)
theory Alloc_Rollback
  imports Alloc_Inv
begin

text \<open>
  Drafts: what any sequence of draft operations (\<^verbatim>\<open>allocate\<close>, \<^verbatim>\<open>allocate_in_range\<close>,
  \<^verbatim>\<open>note_inflight_segment\<close>, \<^verbatim>\<open>add_object\<close>, \<^verbatim>\<open>share_object\<close>, \<^verbatim>\<open>release_object\<close>) records, that
  \<^verbatim>\<open>rollback\<close> undoes it, where it does not, and what \<^verbatim>\<open>to_alloc_draft\<close> frees at commit.
\<close>

section \<open>Sums over the entries of a draft\<close>

definition sum_for :: "nat \<Rightarrow> (nat \<times> u32) list \<Rightarrow> u32" where
  "sum_for i xs = sum_list (map snd (filter (\<lambda>x. fst x = i) xs))"

definition cnt_for :: "'k \<Rightarrow> 'k list \<Rightarrow> u32" where
  "cnt_for i xs = of_nat (count_list xs i)"

lemma sum_for_simps [simp]:
  "sum_for i [] = 0" "sum_for i (xs @ ys) = sum_for i xs + sum_for i ys"
  "sum_for i [(j, l)] = (if j = i then l else 0)"
  by (simp_all add: sum_for_def)

lemma sum_for_Cons: "sum_for i ((j, l) # xs) = (if j = i then l else 0) + sum_for i xs"
  by (simp add: sum_for_def)

lemma cnt_for_simps [simp]:
  "cnt_for i [] = 0" "cnt_for i (xs @ ys) = cnt_for i xs + cnt_for i ys"
  "cnt_for i [j] = (if j = i then 1 else 0)"
  by (simp_all add: cnt_for_def)

lemma cnt_for_Cons: "cnt_for i (j # xs) = (if j = i then 1 else 0) + cnt_for i xs"
  by (simp add: cnt_for_def)

section \<open>Draft operations\<close>

inductive draft_step :: "allocator \<times> staged \<Rightarrow> allocator \<times> staged \<Rightarrow> bool" where
  ds_allocate: "allocate a h d count = (r, a', h', d') \<Longrightarrow> draft_step (a, d) (a', d')"
| ds_in_range: "allocate_in_range a h d start count = Some (r, a', h', d') \<Longrightarrow>
    draft_step (a, d) (a', d')"
| ds_inflight: "seg_ext s \<in> used_ids a \<Longrightarrow> note_inflight_segment a d s = Some st \<Longrightarrow>
    draft_step (a, d) st"
| ds_add: "seg_ext ` set segs \<subseteq> used_ids a \<Longrightarrow> add_object a d segs = Some st \<Longrightarrow>
    draft_step (a, d) st"
| ds_share: "seg_ext ` set segs \<subseteq> used_ids a \<Longrightarrow> share_object a d segs = Some st \<Longrightarrow>
    draft_step (a, d) st"
| ds_release: "seg_ext ` set segs \<subseteq> used_ids a \<Longrightarrow> release_object a d segs = Some st \<Longrightarrow>
    draft_step (a, d) st"

inductive draft_run :: "allocator \<Rightarrow> allocator \<times> staged \<Rightarrow> bool" for a0 where
  dr_start: "draft_run a0 (a0, staged_default)"
| dr_step: "draft_run a0 st \<Longrightarrow> draft_step st st' \<Longrightarrow> draft_run a0 st'"

section \<open>The invariant of a draft\<close>

text \<open>Per key: the table records the net change while a key is only shared or only released.\<close>

definition hold :: "u32 option \<Rightarrow> u32" where
  "hold v = (case v of None \<Rightarrow> 1 | Some n \<Rightarrow> n)"

definition key_inv :: "u32 option \<Rightarrow> nat \<Rightarrow> nat \<Rightarrow> u32 option \<Rightarrow> bool" where
  "key_inv v0 ci cd v \<longleftrightarrow>
     (0 < ci \<and> 0 < cd) \<or>
     (0 < ci \<and> cd = 0 \<and> v = Some (hold v0 + of_nat ci)) \<or>
     (ci = 0 \<and> 0 < cd \<and> (\<exists>n. v0 = Some n \<and> cd \<le> unat n \<and>
        v = (if cd = unat n then None else Some (n - of_nat cd)))) \<or>
     (ci = 0 \<and> cd = 0 \<and> v = v0)"

definition shared_inv :: "allocator \<Rightarrow> allocator \<Rightarrow> staged \<Rightarrow> seg_key \<Rightarrow> bool" where
  "shared_inv a0 a d k \<longleftrightarrow>
     key_inv (shared a0 k) (count_list (shared_inc d) k) (count_list (shared_dec d) k) (shared a k)"

definition draft_inv :: "allocator \<Rightarrow> allocator \<times> staged \<Rightarrow> bool" where
  "draft_inv a0 = (\<lambda>(a, d).
     alloc_wf a \<and> live_marked a \<and> a_n a = a_n a0 \<and>
     (\<exists>quar. isolated a = isolated a0 \<union> quar \<and> quar \<inter> (used_ids a0 \<union> set (expand (s_alloc d))) = {} \<and>
        (\<forall>i \<in> quar. is_pinned a0 i) \<and> used_ids a = used_ids a0 \<union> set (expand (s_alloc d)) \<union> quar) \<and>
     distinct (expand (s_alloc d)) \<and> set (expand (s_alloc d)) \<inter> used_ids a0 = {} \<and>
     pin_count a = pin_count a0 \<and> total_free a = total_free a0 \<and>
     total_alloc a = total_alloc a0 + of_nat (length (expand (s_alloc d))) \<and>
     set (draft_ids d) \<subseteq> used_ids a \<and>
     (\<forall>i < a_n a. live_bytes a ! i + sum_for i (live_dec d) = live_bytes a0 ! i + sum_for i (live_inc d)) \<and>
     (\<forall>i \<in> used_ids a0. refcounts a ! i + cnt_for i (refcount_dec d) =
        refcounts a0 ! i + cnt_for i (refcount_inc d)) \<and>
     (\<forall>k. shared_inv a0 a d k))"

definition entries_ok :: "allocator \<Rightarrow> bool" where
  "entries_ok a \<longleftrightarrow> (\<forall>k. shared a k \<noteq> Some 0)"

lemma expand_default [simp]:
  "s_alloc staged_default = []" "live_inc staged_default = []" "live_dec staged_default = []"
  "refcount_inc staged_default = []" "refcount_dec staged_default = []" "cleared staged_default = []"
  "shared_inc staged_default = []" "shared_dec staged_default = []" "inflight staged_default = []"
  by (simp_all add: staged_default_def)

lemma draft_inv_start: "alloc_wf a0 \<Longrightarrow> live_marked a0 \<Longrightarrow> draft_inv a0 (a0, staged_default)"
  by (auto simp: draft_inv_def shared_inv_def key_inv_def draft_ids_def intro: exI [of _ "{}"])

lemma draft_inv_grew:
  assumes inv: "draft_inv a0 (a, d)" and g: "grew a new quar a'"
    and d': "d' = d\<lparr>s_alloc := s_alloc d @ rs\<rparr>" "expand rs = sort new"
  shows "draft_inv a0 (a', d')"
proof -
  obtain q where q: "isolated a = isolated a0 \<union> q" "q \<inter> (used_ids a0 \<union> set (expand (s_alloc d))) = {}"
      "\<forall>i \<in> q. is_pinned a0 i" "used_ids a = used_ids a0 \<union> set (expand (s_alloc d)) \<union> q"
    using inv by (auto simp: draft_inv_def)
  have frame: "pin_count a = pin_count a0" "a_n a = a_n a0" using inv by (simp_all add: draft_inv_def)
  have new: "distinct new" "set new \<inter> used_ids a = {}" "quar \<inter> used_ids a = {}" "set new \<inter> quar = {}"
    and used: "used_ids a' = used_ids a \<union> set new \<union> quar"
    and pinned: "\<forall>i \<in> quar. is_pinned a0 i" and iso: "isolated a' = isolated a \<union> quar"
    using g is_pinned_cong [OF frame(2,1)] by (auto simp: grew_def)
  have ex: "expand (s_alloc d') = expand (s_alloc d) @ sort new" using d' by simp
  have quars: "isolated a' = isolated a0 \<union> (q \<union> quar) \<and>
      (q \<union> quar) \<inter> (used_ids a0 \<union> set (expand (s_alloc d'))) = {} \<and>
      (\<forall>i \<in> q \<union> quar. is_pinned a0 i) \<and>
      used_ids a' = used_ids a0 \<union> set (expand (s_alloc d')) \<union> (q \<union> quar)"
    using q new used pinned iso unfolding ex by auto
  have alloc: "distinct (expand (s_alloc d'))" "set (expand (s_alloc d')) \<inter> used_ids a0 = {}"
    using inv new q(4) unfolding ex by (auto simp: draft_inv_def)
  have ids: "set (draft_ids d') \<subseteq> used_ids a'"
    using inv used ex d'(1) by (auto simp: draft_inv_def draft_ids_def)
  have refs: "\<forall>i \<in> used_ids a0. refcounts a' ! i = refcounts a ! i"
    using g q(4) by (auto simp: grew_def)
  have sh: "shared_inv a0 a' d' k = shared_inv a0 a d k" for k
    using g d'(1) by (simp add: shared_inv_def grew_def)
  show ?thesis
    using inv g alloc ids refs d'(1) ex sh grew_live_marked [OF g] quars
    unfolding draft_inv_def grew_def
    by (simp add: exI [of _ "q \<union> quar"])
qed


section \<open>The accounting primitives keep the invariant\<close>

definition same_space :: "allocator \<Rightarrow> allocator \<Rightarrow> bool" where
  "same_space a a' \<longleftrightarrow> bmap a' = bmap a \<and> isolated a' = isolated a \<and> pin_count a' = pin_count a \<and>
     a_n a' = a_n a \<and> total_free a' = total_free a \<and> total_alloc a' = total_alloc a \<and>
     generations a' = generations a \<and> length (ext_state a') = length (ext_state a) \<and>
     length (live_bytes a') = length (live_bytes a) \<and> length (refcounts a') = length (refcounts a)"

lemma draft_inv_accounts:
  assumes inv: "draft_inv a0 (a, d)" and sp: "same_space a a'" and "s_alloc d' = s_alloc d"
    and "live_marked a'" "set (draft_ids d') \<subseteq> used_ids a"
    and "\<forall>i < a_n a. live_bytes a' ! i + sum_for i (live_dec d') = live_bytes a0 ! i + sum_for i (live_inc d')"
    and "\<forall>i \<in> used_ids a0. refcounts a' ! i + cnt_for i (refcount_dec d') =
        refcounts a0 ! i + cnt_for i (refcount_inc d')"
    and "\<forall>k. shared_inv a0 a' d' k"
  shows "draft_inv a0 (a', d')"
proof -
  have "alloc_wf a'"
    using inv sp by (auto simp: draft_inv_def same_space_def intro: alloc_wf_cong [of a])
  then show ?thesis using assms unfolding draft_inv_def same_space_def by simp
qed

lemma draft_invD:
  assumes "draft_inv a0 (a, d)"
  shows "alloc_wf a" "live_marked a" "a_n a = a_n a0" "set (draft_ids d) \<subseteq> used_ids a"
    "\<forall>i < a_n a. live_bytes a ! i + sum_for i (live_dec d) = live_bytes a0 ! i + sum_for i (live_inc d)"
    "\<forall>i \<in> used_ids a0. refcounts a ! i + cnt_for i (refcount_dec d) =
        refcounts a0 ! i + cnt_for i (refcount_inc d)"
    "\<forall>k. shared_inv a0 a d k" "used_ids a0 \<subseteq> used_ids a" "used_ids a \<subseteq> {..<a_n a}"
  using assms used_bounded [of a] by (auto simp: draft_inv_def)

lemma shared_inv_frame:
  assumes "draft_inv a0 (a, d)" "shared a' = shared a" "shared_inc d' = shared_inc d"
    "shared_dec d' = shared_dec d"
  shows "\<forall>k. shared_inv a0 a' d' k"
  using draft_invD(7) [OF assms(1)] unfolding shared_inv_def assms(2-4) .

lemma live_marked_update:
  assumes "live_marked a" "i \<in> used_ids a"
  shows "live_marked (a\<lparr>live_bytes := (live_bytes a)[i := x]\<rparr>)"
  unfolding live_marked_def
proof (intro allI impI)
  fix j assume "j < a_n (a\<lparr>live_bytes := (live_bytes a)[i := x]\<rparr>)"
    "live_bytes (a\<lparr>live_bytes := (live_bytes a)[i := x]\<rparr>) ! j \<noteq> 0"
  then show "j \<in> used_ids (a\<lparr>live_bytes := (live_bytes a)[i := x]\<rparr>)"
    using assms by (cases "j = i") (simp_all add: live_marked_def)
qed

lemma live_length: "alloc_wf a \<Longrightarrow> length (live_bytes a) = a_n a"
  and refs_length: "alloc_wf a \<Longrightarrow> length (refcounts a) = a_n a"
  by (simp_all add: alloc_wf_def)

lemma draft_inv_charge:
  assumes inv: "draft_inv a0 (a, d)" and i: "i \<in> used_ids a"
  shows "draft_inv a0 (add_live i l a, d\<lparr>live_inc := live_inc d @ [(i, l)]\<rparr>)"
proof (rule draft_inv_accounts [OF inv])
  note D = draft_invD [OF inv]
  show "same_space a (add_live i l a)" by (simp add: same_space_def add_live_def)
  show "live_marked (add_live i l a)"
    unfolding add_live_def by (rule live_marked_update [OF D(2) i])
  show "set (draft_ids (d\<lparr>live_inc := live_inc d @ [(i, l)]\<rparr>)) \<subseteq> used_ids a"
    using D(4) i by (auto simp: draft_ids_def)
  have "i < length (live_bytes a)" using i D(9) live_length [OF D(1)] by auto
  then show "\<forall>j < a_n a. live_bytes (add_live i l a) ! j + sum_for j (live_dec (d\<lparr>live_inc := live_inc d @ [(i, l)]\<rparr>)) =
      live_bytes a0 ! j + sum_for j (live_inc (d\<lparr>live_inc := live_inc d @ [(i, l)]\<rparr>))"
    using D(5) by (auto simp: add_live_def nth_list_update algebra_simps)
  show "\<forall>k. shared_inv a0 (add_live i l a) (d\<lparr>live_inc := live_inc d @ [(i, l)]\<rparr>) k"
    by (rule shared_inv_frame [OF inv]) (simp_all add: add_live_def)
qed (use draft_invD(6) [OF inv] in \<open>simp_all add: add_live_def\<close>)

lemma draft_inv_inflight:
  assumes inv: "draft_inv a0 (a, d)"
  shows "draft_inv a0 (a, d\<lparr>inflight := x\<rparr>)"
  by (rule draft_inv_accounts [OF inv])
    (use draft_invD [OF inv] in \<open>simp_all add: same_space_def draft_ids_def shared_inv_frame [OF inv]\<close>)

lemma draft_inv_inc_ref:
  assumes inv: "draft_inv a0 (a, d)" and i: "i \<in> used_ids a"
  shows "draft_inv a0 (inc_ref i (a, d))"
  unfolding inc_ref_def prod.case
proof (rule draft_inv_accounts [OF inv])
  note D = draft_invD [OF inv]
  have len: "i < length (refcounts a)" using i D(9) refs_length [OF D(1)] by auto
  show "\<forall>j \<in> used_ids a0. refcounts (add_ref i a) ! j + cnt_for j (refcount_dec (d\<lparr>refcount_inc := refcount_inc d @ [i]\<rparr>)) =
      refcounts a0 ! j + cnt_for j (refcount_inc (d\<lparr>refcount_inc := refcount_inc d @ [i]\<rparr>))"
    using D(6) len by (auto simp: add_ref_def nth_list_update algebra_simps)
  show "set (draft_ids (d\<lparr>refcount_inc := refcount_inc d @ [i]\<rparr>)) \<subseteq> used_ids a"
    using D(4) i by (auto simp: draft_ids_def)
qed (use draft_invD [OF inv] in \<open>simp_all add: add_ref_def same_space_def live_marked_def shared_inv_frame [OF inv]\<close>)

lemma draft_inv_dec_ref:
  assumes inv: "draft_inv a0 (a, d)" and i: "i \<in> used_ids a"
  shows "draft_inv a0 (dec_ref i (a, d))"
proof (cases "refcounts a ! i = 0")
  case True
  then have "(refcounts a)[i := 0] = refcounts a" using list_update_id [of "refcounts a" i] by simp
  with True have "dec_ref i (a, d) = (a, d)" by (simp add: dec_ref_def)
  with inv show ?thesis by simp
next
  case False
  then have dr: "dec_ref i (a, d) = (sub_ref i a, d\<lparr>refcount_dec := refcount_dec d @ [i]\<rparr>)"
    by (simp add: dec_ref_def)
  show ?thesis unfolding dr
  proof (rule draft_inv_accounts [OF inv])
    note D = draft_invD [OF inv]
    have len: "i < length (refcounts a)" using i D(9) refs_length [OF D(1)] by auto
    show "\<forall>j \<in> used_ids a0. refcounts (sub_ref i a) ! j + cnt_for j (refcount_dec (d\<lparr>refcount_dec := refcount_dec d @ [i]\<rparr>)) =
        refcounts a0 ! j + cnt_for j (refcount_inc (d\<lparr>refcount_dec := refcount_dec d @ [i]\<rparr>))"
      using D(6) len by (auto simp: sub_ref_def nth_list_update algebra_simps)
    show "set (draft_ids (d\<lparr>refcount_dec := refcount_dec d @ [i]\<rparr>)) \<subseteq> used_ids a"
      using D(4) i by (auto simp: draft_ids_def)
  qed (use draft_invD [OF inv] in \<open>simp_all add: sub_ref_def same_space_def live_marked_def shared_inv_frame [OF inv]\<close>)
qed

lemma draft_inv_dec_live:
  assumes inv: "draft_inv a0 (a, d)" and i: "i \<in> used_ids a"
  shows "draft_inv a0 (dec_live i l (a, d))"
proof (cases "live_bytes a ! i < l")
  case True
  then show ?thesis using inv by (simp add: dec_live_def)
next
  case ge: False
  note D = draft_invD [OF inv]
  have len: "i < length (live_bytes a)" using i D(9) live_length [OF D(1)] by auto
  show ?thesis
  proof (cases "l < live_bytes a ! i")
    case True
    then have dl: "dec_live i l (a, d) = (sub_live i l a, d\<lparr>live_dec := live_dec d @ [(i, l)]\<rparr>)"
      using ge by (simp add: dec_live_def)
    show ?thesis unfolding dl
    proof (rule draft_inv_accounts [OF inv])
      show "\<forall>j < a_n a. live_bytes (sub_live i l a) ! j + sum_for j (live_dec (d\<lparr>live_dec := live_dec d @ [(i, l)]\<rparr>)) =
          live_bytes a0 ! j + sum_for j (live_inc (d\<lparr>live_dec := live_dec d @ [(i, l)]\<rparr>))"
        using D(5) len by (auto simp: sub_live_def nth_list_update algebra_simps)
      show "set (draft_ids (d\<lparr>live_dec := live_dec d @ [(i, l)]\<rparr>)) \<subseteq> used_ids a"
        using D(4) i by (auto simp: draft_ids_def)
      show "live_marked (sub_live i l a)"
        unfolding sub_live_def by (rule live_marked_update [OF D(2) i])
    qed (use D in \<open>simp_all add: sub_live_def same_space_def shared_inv_frame [OF inv]\<close>)
  next
    case False
    with ge have eq: "live_bytes a ! i = l" by simp
    let ?d = "d\<lparr>cleared := cleared d @ [i], s_ref_dec := s_ref_dec d @ [i], live_dec := live_dec d @ [(i, l)]\<rparr>"
    have dl: "dec_live i l (a, d) = (a\<lparr>live_bytes := (live_bytes a)[i := 0]\<rparr>, ?d)"
      using ge False by (simp add: dec_live_def)
    show ?thesis unfolding dl
    proof (rule draft_inv_accounts [OF inv])
      show "\<forall>j < a_n a. live_bytes (a\<lparr>live_bytes := (live_bytes a)[i := 0]\<rparr>) ! j + sum_for j (live_dec ?d) =
          live_bytes a0 ! j + sum_for j (live_inc ?d)"
        using D(5) len eq by (auto simp: nth_list_update algebra_simps)
      show "set (draft_ids ?d) \<subseteq> used_ids a" using D(4) i by (auto simp: draft_ids_def)
      show "live_marked (a\<lparr>live_bytes := (live_bytes a)[i := 0]\<rparr>)"
        by (rule live_marked_update [OF D(2) i])
    qed (use D in \<open>simp_all add: same_space_def shared_inv_frame [OF inv]\<close>)
  qed
qed


lemma draft_inv_shared:
  assumes inv: "draft_inv a0 (a, d)" and "\<forall>k. shared_inv a0 (a\<lparr>shared := m\<rparr>) d' k"
    and "d' = d\<lparr>shared_inc := si, shared_dec := sd\<rparr>"
  shows "draft_inv a0 (a\<lparr>shared := m\<rparr>, d')"
  by (rule draft_inv_accounts [OF inv])
    (use draft_invD [OF inv] assms(2,3) in \<open>simp_all add: same_space_def draft_ids_def live_marked_def\<close>)

lemma key_inv_share: "key_inv v0 ci cd v \<Longrightarrow> key_inv v0 (Suc ci) cd (Some (hold v + 1))"
  by (auto simp: key_inv_def hold_def algebra_simps)

lemma u32_sub_of_nat:
  assumes "c \<le> unat (n :: u32)"
  shows "unat (n - of_nat c) = unat n - c"
proof -
  have "c < 2 ^ 32" using assms unsigned_less [of n, where 'a = nat] by simp
  then have "unat (of_nat c :: u32) = c" by (simp add: unat_of_nat)
  then show ?thesis using assms by (simp add: unat_sub word_le_nat_alt)
qed

lemma key_inv_release:
  assumes inv: "key_inv v0 ci cd (Some n)" and nz: "v0 \<noteq> Some 0"
  shows "key_inv v0 ci (Suc cd) (if 1 < n then Some (n - 1) else None)"
proof (cases "0 < ci")
  case True
  then show ?thesis by (simp add: key_inv_def)
next
  case False
  obtain n0 where n0: "v0 = Some n0" "cd < unat n0" "n = n0 - of_nat cd"
  proof (cases "0 < cd")
    case True
    with inv False that show thesis by (auto simp: key_inv_def split: if_splits)
  next
    case zero: False
    with inv False have v0: "v0 = Some n" "cd = 0" by (auto simp: key_inv_def)
    with nz have "n \<noteq> 0" by simp
    then have "0 < unat n" by (simp add: unat_gt_0)
    with v0 show thesis by (intro that [of n]) simp_all
  qed
  have "unat n = unat n0 - cd" using n0(2,3) by (simp add: u32_sub_of_nat)
  then have "1 < n \<longleftrightarrow> Suc cd \<noteq> unat n0" using n0(2) by (auto simp: word_less_nat_alt)
  then have v: "(if 1 < n then Some (n - 1) else None) =
      (if Suc cd = unat n0 then None else Some (n0 - of_nat (Suc cd)))"
    using n0(3) by (auto simp: diff_diff_eq add.commute)
  show ?thesis unfolding v using False n0(1,2) by (simp add: key_inv_def)
qed

lemma draft_inv_key:
  "draft_inv a0 (a, d) \<Longrightarrow>
     key_inv (shared a0 k) (count_list (shared_inc d) k) (count_list (shared_dec d) k) (shared a k)"
  using draft_invD(7) [of a0 a d] unfolding shared_inv_def by blast

lemma draft_inv_share_seg:
  assumes inv: "draft_inv a0 (a, d)"
  shows "draft_inv a0 (share_seg s (a, d))"
proof -
  let ?m = "(shared a)(key_of s \<mapsto> hold (shared a (key_of s)) + 1)"
  let ?d = "d\<lparr>shared_inc := shared_inc d @ [key_of s]\<rparr>"
  have eq: "share_seg s (a, d) = (a\<lparr>shared := ?m\<rparr>, ?d)"
    by (simp add: share_seg_def hold_def)
  have "shared_inv a0 (a\<lparr>shared := ?m\<rparr>) ?d k" for k
    using draft_inv_key [OF inv, of k] key_inv_share by (cases "k = key_of s") (auto simp: shared_inv_def)
  then show ?thesis unfolding eq
    by (intro draft_inv_shared [OF inv, where si = "shared_inc d @ [key_of s]" and sd = "shared_dec d"]) simp_all
qed

lemma draft_inv_unshare:
  assumes inv: "draft_inv a0 (a, d)" and ok: "entries_ok a0" and n: "shared a k = Some n"
  shows "draft_inv a0 (a\<lparr>shared := (shared a)(k := (if 1 < n then Some (n - 1) else None))\<rparr>,
    d\<lparr>shared_dec := shared_dec d @ [k]\<rparr>)"
proof -
  let ?d = "d\<lparr>shared_dec := shared_dec d @ [k]\<rparr>"
  let ?a = "a\<lparr>shared := (shared a)(k := (if 1 < n then Some (n - 1) else None))\<rparr>"
  have old: "key_inv (shared a0 k) (count_list (shared_inc d) k) (count_list (shared_dec d) k) (Some n)"
    using draft_inv_key [OF inv, of k] n by simp
  have "shared_inv a0 ?a ?d j" for j
    using draft_inv_key [OF inv, of j] key_inv_release [OF old] ok [unfolded entries_ok_def, rule_format, of k]
    by (cases "j = k") (auto simp: shared_inv_def)
  then show ?thesis
    by (intro draft_inv_shared [OF inv, where si = "shared_inc d" and sd = "shared_dec d @ [k]"]) simp_all
qed

lemma draft_inv_release_seg:
  assumes inv: "draft_inv a0 (a, d)" and ok: "entries_ok a0" and i: "seg_ext s \<in> used_ids a"
  shows "draft_inv a0 (release_seg s (a, d))"
proof (cases "shared a (key_of s)")
  case None
  then show ?thesis using draft_inv_dec_live [OF inv i] by (simp add: release_seg_def)
next
  case (Some n)
  note u = draft_inv_unshare [OF inv ok Some]
  show ?thesis
  proof (cases "1 < n")
    case True
    with u Some show ?thesis by (simp add: release_seg_def)
  next
    case False
    with u have "draft_inv a0 (a\<lparr>shared := (shared a)(key_of s := None)\<rparr>,
        d\<lparr>shared_dec := shared_dec d @ [key_of s]\<rparr>)" by simp
    from draft_inv_dec_live [OF this, of "seg_ext s" "seg_len s"] i Some False show ?thesis
      by (simp add: release_seg_def)
  qed
qed

section \<open>Every draft operation keeps the invariant\<close>

text \<open>The accounting primitives do not touch the bitmap.\<close>

lemma bmap_prims [simp]:
  "bmap (fst (charge_seg s st)) = bmap (fst st)" "bmap (fst (inc_ref i st)) = bmap (fst st)"
  "bmap (fst (dec_ref i st)) = bmap (fst st)" "bmap (fst (share_seg s st)) = bmap (fst st)"
  "bmap (fst (dec_live i l st)) = bmap (fst st)" "bmap (fst (release_seg s st)) = bmap (fst st)"
  by (auto simp: charge_seg_def inc_ref_def dec_ref_def share_seg_def dec_live_def release_seg_def
      add_live_def sub_live_def add_ref_def sub_ref_def Let_def split: prod.splits option.splits)

lemma fold_draft_inv:
  assumes "\<And>x a d. x \<in> set xs \<Longrightarrow> draft_inv a0 (a, d) \<Longrightarrow> g x \<in> used_ids a \<Longrightarrow> draft_inv a0 (f x (a, d))"
    and "\<And>x st. bmap (fst (f x st)) = bmap (fst st)"
    and "draft_inv a0 st" "g ` set xs \<subseteq> used_ids (fst st)"
  shows "draft_inv a0 (fold f xs st) \<and> bmap (fst (fold f xs st)) = bmap (fst st)"
  using assms
proof (induction xs arbitrary: st)
  case Nil
  then show ?case by simp
next
  case (Cons x xs)
  have "draft_inv a0 (f x st)" using Cons.prems(1) [of x "fst st" "snd st"] Cons.prems(3,4) by simp
  moreover have "g ` set xs \<subseteq> used_ids (fst (f x st))" using Cons.prems(2,4) by simp
  ultimately show ?case using Cons.IH [of "f x st"] Cons.prems(1,2) by simp
qed

lemma set_seen_extents: "set (seen_extents segs) = seg_ext ` set segs"
proof -
  have "set (foldl note_seen acc ids) = set acc \<union> set ids" for acc ids
    by (induction ids arbitrary: acc) (auto simp: note_seen_def)
  then show ?thesis by (simp add: seen_extents_def)
qed

lemma add_segs_inv:
  assumes "draft_inv a0 st" "seg_ext ` set segs \<subseteq> used_ids (fst st)"
  shows "draft_inv a0 (add_segs pre segs st) \<and> bmap (fst (add_segs pre segs st)) = bmap (fst st)"
  using assms
proof (induction pre segs st rule: add_segs.induct)
  case (1 pre st)
  then show ?case by simp
next
  case (2 pre s ss st)
  have "draft_inv a0 (charge_seg s st)"
    using draft_inv_charge [of a0 "fst st" "snd st" "seg_ext s" "seg_len s"] 2(4,5)
    by (simp add: charge_seg_def split_beta)
  moreover have "seg_ext ` set ss \<subseteq> used_ids (fst (charge_seg s st))" using 2(5) by simp
  ultimately show ?case using 2(1-3) 2(4,5)
    by (auto split: option.split simp del: fun_upd_apply)
qed

lemma draft_step_inv:
  assumes "draft_step st st'" "draft_inv a0 st" "entries_ok a0"
  shows "draft_inv a0 st'"
  using assms
proof (induction rule: draft_step.induct)
  case (ds_allocate a h d count r a' h' d')
  then show ?case
    using allocate_grew [of a h d count r a' h' d'] draft_inv_grew [of a0 a d] draft_invD(1,2) [of a0 a d]
    by blast
next
  case (ds_in_range a h d start count r a' h' d')
  then show ?case
    using allocate_in_range_grew [of a h d start count r a' h' d'] draft_inv_grew [of a0 a d]
      draft_invD(1) [of a0 a d] by blast
next
  case (ds_inflight s a d st)
  from ds_inflight(2) have st: "st = (add_live (seg_ext s) (seg_len s) a,
      d\<lparr>live_inc := live_inc d @ [(seg_ext s, seg_len s)], inflight := inflight d @ [(seg_ext s, seg_len s)]\<rparr>)"
    by (auto simp: note_inflight_segment_def Let_def split: if_splits)
  show ?case unfolding st
    using draft_inv_inflight [OF draft_inv_charge [OF ds_inflight(3,1)]] by simp
next
  case (ds_add segs a d st)
  let ?st = "add_segs (pre_counted (inflight d)) segs (a, d)"
  have segs: "draft_inv a0 ?st \<and> bmap (fst ?st) = bmap a"
    using add_segs_inv [OF ds_add(3), of segs "pre_counted (inflight d)"] ds_add(1) by simp
  have "draft_inv a0 (fold inc_ref (seen_extents segs) ?st)"
    using fold_draft_inv [of "seen_extents segs" a0 "\<lambda>i. i" inc_ref ?st] draft_inv_inc_ref segs ds_add(1)
    by (simp add: set_seen_extents)
  with ds_add show ?case by (auto simp: add_object_def split: if_splits)
next
  case (ds_share segs a d st)
  let ?st = "fold share_seg segs (a, d)"
  have segs: "draft_inv a0 ?st \<and> bmap (fst ?st) = bmap a"
    using fold_draft_inv [of segs a0 seg_ext share_seg "(a, d)"] draft_inv_share_seg ds_share(1,3) by simp
  have "draft_inv a0 (fold inc_ref (seen_extents segs) ?st)"
    using fold_draft_inv [of "seen_extents segs" a0 "\<lambda>i. i" inc_ref ?st] draft_inv_inc_ref segs ds_share(1)
    by (simp add: set_seen_extents)
  with ds_share show ?case by (auto simp: share_object_def split: if_splits)
next
  case (ds_release segs a d st)
  let ?st = "fold release_seg segs (a, d)"
  have segs: "draft_inv a0 ?st \<and> bmap (fst ?st) = bmap a"
    using fold_draft_inv [of segs a0 seg_ext release_seg "(a, d)"] draft_inv_release_seg [OF _ ds_release(4)]
      ds_release(1,3) by simp
  have "draft_inv a0 (fold dec_ref (seen_extents segs) ?st)"
    using fold_draft_inv [of "seen_extents segs" a0 "\<lambda>i. i" dec_ref ?st] draft_inv_dec_ref segs ds_release(1)
    by (simp add: set_seen_extents)
  with ds_release show ?case by (auto simp: release_object_def split: if_splits)
qed

lemma draft_run_inv:
  assumes "draft_run a0 st" "alloc_wf a0" "live_marked a0" "entries_ok a0"
  shows "draft_inv a0 st"
  using assms by (induction rule: draft_run.induct) (auto intro: draft_inv_start draft_step_inv)


section \<open>Rollback\<close>

lemma fold_unfree_used:
  assumes "alloc_wf a" "set ids \<subseteq> used_ids a"
  shows "fold unfree_bit ids a = a"
  using assms(2)
proof (induction ids)
  case (Cons i ids)
  then have "bm_test (bmap a) i" using alloc_wf_test [OF assms(1)] used_bounded [OF assms(1)] by auto
  then have "unfree_bit i a = a" by (simp add: unfree_bit_def)
  with Cons show ?case by simp
qed simp

lemma fold_undo_alloc:
  assumes "alloc_wf a" "set ids \<subseteq> {..<a_n a}"
  shows "alloc_wf (fold undo_alloc ids a) \<and> used_ids (fold undo_alloc ids a) = used_ids a - set ids \<and>
    total_alloc (fold undo_alloc ids a) = total_alloc a - of_nat (length ids) \<and>
    total_free (fold undo_alloc ids a) = total_free a \<and> live_bytes (fold undo_alloc ids a) = live_bytes a \<and>
    refcounts (fold undo_alloc ids a) = refcounts a \<and> shared (fold undo_alloc ids a) = shared a \<and>
    isolated (fold undo_alloc ids a) = isolated a \<and> pin_count (fold undo_alloc ids a) = pin_count a \<and>
    a_n (fold undo_alloc ids a) = a_n a"
  using assms
proof (induction ids arbitrary: a)
  case Nil
  then show ?case by simp
next
  case (Cons j ids)
  let ?b = "undo_alloc j a"
  have j: "j < a_n a" using Cons.prems by simp
  have wf: "alloc_wf ?b"
    unfolding undo_alloc_def
    using alloc_wf_accounts(5) [OF alloc_wf_shared(7) [OF alloc_wf_clear [OF Cons.prems(1) j]]] by simp
  have "used_ids ?b = used_ids a - {j}"
    using used_clear [OF Cons.prems(1) j] by (simp add: undo_alloc_def set_state_def)
  moreover have "total_alloc ?b = total_alloc a - 1" "total_free ?b = total_free a"
    "live_bytes ?b = live_bytes a" "refcounts ?b = refcounts a" "shared ?b = shared a"
    "isolated ?b = isolated a" "pin_count ?b = pin_count a" "a_n ?b = a_n a"
    by (simp_all add: undo_alloc_def set_state_def)
  ultimately show ?case using Cons.IH [OF wf] Cons.prems(2) by (auto simp: algebra_simps)
qed

text \<open>The account folds act on one field each.\<close>

definition bump :: "(u32 \<Rightarrow> u32 \<Rightarrow> u32) \<Rightarrow> (nat \<times> u32) list \<Rightarrow> u32 list \<Rightarrow> u32 list" where
  "bump f xs v = fold (\<lambda>(i, l) v. v[i := f (v ! i) l]) xs v"

lemma bump_simps [simp]: "bump f [] v = v" "bump f ((i, l) # xs) v = bump f xs (v[i := f (v ! i) l])"
  by (simp_all add: bump_def)

lemma length_bump [simp]: "length (bump f xs v) = length v"
  by (induction xs arbitrary: v) auto

lemma nth_bump_add: "j < length v \<Longrightarrow> bump (+) xs v ! j = v ! j + sum_for j xs"
  by (induction xs arbitrary: v) (auto simp: sum_for_Cons nth_list_update)

lemma nth_bump_sub: "j < length v \<Longrightarrow> bump (-) xs v ! j = v ! j - sum_for j xs"
  by (induction xs arbitrary: v) (auto simp: sum_for_Cons nth_list_update)

lemma sum_for_ones: "sum_for i (map (\<lambda>j. (j, 1)) xs) = cnt_for i xs"
  by (induction xs) (auto simp: sum_for_Cons cnt_for_Cons)

lemma fold_accounts:
  "fold (\<lambda>(i, l). add_live i l) xs a = a\<lparr>live_bytes := bump (+) xs (live_bytes a)\<rparr>"
  "fold (\<lambda>(i, l). sub_live i l) xs a = a\<lparr>live_bytes := bump (-) xs (live_bytes a)\<rparr>"
  by (induction xs arbitrary: a) (auto simp: add_live_def sub_live_def)

lemma fold_refs:
  "fold add_ref ids a = a\<lparr>refcounts := bump (+) (map (\<lambda>j. (j, 1)) ids) (refcounts a)\<rparr>"
  "fold sub_ref ids a = a\<lparr>refcounts := bump (-) (map (\<lambda>j. (j, 1)) ids) (refcounts a)\<rparr>"
  by (induction ids arbitrary: a) (auto simp: add_ref_def sub_ref_def)

definition unshare_val :: "u32 option \<Rightarrow> u32 option" where
  "unshare_val v = (case v of Some n \<Rightarrow> if 2 < n then Some (n - 1) else None | None \<Rightarrow> None)"

definition rehold_val :: "u32 option \<Rightarrow> u32 option" where
  "rehold_val v = Some (case v of Some n \<Rightarrow> n + 1 | None \<Rightarrow> 1)"

definition on_keys :: "(u32 option \<Rightarrow> u32 option) \<Rightarrow> seg_key list \<Rightarrow> (seg_key \<rightharpoonup> u32) \<Rightarrow> seg_key \<rightharpoonup> u32" where
  "on_keys f ks m = fold (\<lambda>k m. m(k := f (m k))) ks m"

lemma on_keys_at: "on_keys f ks m k = (f ^^ count_list ks k) (m k)"
  by (induction ks arbitrary: m) (auto simp: on_keys_def funpow_swap1)

lemma fold_keys:
  "fold undo_share ks a = a\<lparr>shared := on_keys unshare_val ks (shared a)\<rparr>"
  "fold undo_release ks a = a\<lparr>shared := on_keys rehold_val ks (shared a)\<rparr>"
proof -
  have u: "undo_share k a = a\<lparr>shared := (shared a)(k := unshare_val (shared a k))\<rparr>" for k a
    by (cases "shared a k") (auto simp: undo_share_def unshare_val_def fun_upd_idem)
  have r: "undo_release k a = a\<lparr>shared := (shared a)(k := rehold_val (shared a k))\<rparr>" for k a
    by (simp add: undo_release_def rehold_val_def)
  show "fold undo_share ks a = a\<lparr>shared := on_keys unshare_val ks (shared a)\<rparr>"
    by (induction ks arbitrary: a) (simp_all add: u on_keys_def)
  show "fold undo_release ks a = a\<lparr>shared := on_keys rehold_val ks (shared a)\<rparr>"
    by (induction ks arbitrary: a) (simp_all add: r on_keys_def)
qed

text \<open>Undoing \<open>c\<close> shares, and undoing \<open>c\<close> releases.\<close>

lemma unshare_power:
  assumes "0 < unat h" "unat h + c < 2 ^ 32" "0 < c"
  shows "hold ((unshare_val ^^ c) (Some (h + of_nat c))) = h"
  using assms
proof (induction c)
  case 0
  then show ?case by simp
next
  case (Suc c)
  have un: "unat (h + of_nat (Suc c)) = unat h + Suc c"
    using Suc.prems by (simp add: unat_add_lem [THEN iffD1] unat_of_nat)
  show ?case
  proof (cases "c = 0")
    case True
    then have "unshare_val (Some (h + 1)) = (if 1 < unat h then Some h else None)"
      using un by (simp add: unshare_val_def word_less_nat_alt)
    moreover have "unat h = 1 \<Longrightarrow> h = 1" by (metis unat_1 unsigned_word_eqI)
    ultimately show ?thesis using True Suc.prems(1) by (auto simp: hold_def)
  next
    case False
    then have "unshare_val (Some (h + of_nat (Suc c))) = Some (h + of_nat c)"
      using un Suc.prems(1) by (simp add: unshare_val_def word_less_nat_alt)
    then have "(unshare_val ^^ Suc c) (Some (h + of_nat (Suc c))) = (unshare_val ^^ c) (Some (h + of_nat c))"
      by (simp only: funpow_Suc_right o_apply)
    with Suc False show ?thesis by simp
  qed
qed

lemma rehold_power_Some: "(rehold_val ^^ c) (Some m) = Some (m + of_nat c)"
  by (induction c) (simp_all add: rehold_val_def algebra_simps)

lemma rehold_power_None: "(rehold_val ^^ Suc c) None = Some (of_nat (Suc c))"
proof -
  have "rehold_val None = Some 1" by (simp add: rehold_val_def)
  then show ?thesis by (simp only: funpow_Suc_right o_apply rehold_power_Some) simp
qed

text \<open>
  After the rollback a key has as many holders as before the draft, when the draft did not both share
  and release it.
\<close>

lemma key_rollback:
  assumes inv: "key_inv v0 ci cd v" and "ci = 0 \<or> cd = 0" and "v0 \<noteq> Some 0"
    and "unat (hold v0) + ci < 2 ^ 32"
  shows "hold ((rehold_val ^^ cd) ((unshare_val ^^ ci) v)) = hold v0"
proof -
  have h: "0 < unat (hold v0)" using assms(3) by (auto simp: hold_def unat_gt_0 split: option.split)
  consider "0 < ci" "cd = 0" "v = Some (hold v0 + of_nat ci)"
    | n where "ci = 0" "0 < cd" "v0 = Some n" "cd \<le> unat n"
        "v = (if cd = unat n then None else Some (n - of_nat cd))"
    | "ci = 0" "cd = 0" "v = v0"
    using inv assms(2) unfolding key_inv_def by blast
  then show ?thesis
  proof cases
    case 1
    then show ?thesis using unshare_power [OF h assms(4)] by simp
  next
    case 2
    then obtain c where c: "cd = Suc c" by (cases cd) auto
    show ?thesis
    proof (cases "cd = unat n")
      case True
      then have "of_nat cd = n" by simp
      then show ?thesis using 2 True rehold_power_None [of c] c by (simp add: hold_def)
    next
      case False
      then show ?thesis using 2 by (simp add: rehold_power_Some hold_def)
    qed
  next
    case 3
    then show ?thesis by simp
  qed
qed


lemma draft_inv_rollback:
  assumes inv: "draft_inv a0 (a, d)" and a0: "alloc_wf a0"
  obtains a' quar where "rollback a d = Some a'" "alloc_wf a'"
    "\<forall>i \<in> quar. is_pinned a0 i" "used_ids a' = used_ids a0 \<union> quar" "isolated a' = isolated a0 \<union> quar"
    "live_bytes a' = live_bytes a0" "\<forall>i \<in> used_ids a0. refcounts a' ! i = refcounts a0 ! i"
    "total_alloc a' = total_alloc a0" "total_free a' = total_free a0"
    "pin_count a' = pin_count a0" "a_n a' = a_n a0"
    "shared a' = on_keys rehold_val (shared_dec d) (on_keys unshare_val (shared_inc d) (shared a))"
proof -
  note D = draft_invD [OF inv]
  let ?ids = "expand (s_alloc d)"
  obtain q where q: "isolated a = isolated a0 \<union> q" "q \<inter> (used_ids a0 \<union> set ?ids) = {}"
      "used_ids a = used_ids a0 \<union> set ?ids \<union> q" "\<forall>i \<in> q. is_pinned a0 i"
    and ids: "set ?ids \<inter> used_ids a0 = {}"
    using inv by (auto simp: draft_inv_def)
  have ok: "ids_ok a (draft_ids d)" using D(4,9) by (auto simp: ids_ok_def list_all_iff)
  have cl: "set (cleared d) \<subseteq> used_ids a" and idsn: "set ?ids \<subseteq> {..<a_n a}"
    using D(4,9) by (auto simp: draft_ids_def)
  define a2 where "a2 = fold undo_alloc ?ids a"
  have a2: "alloc_wf a2" "used_ids a2 = used_ids a - set ?ids"
      "total_alloc a2 = total_alloc a - of_nat (length ?ids)" "total_free a2 = total_free a"
      "live_bytes a2 = live_bytes a" "refcounts a2 = refcounts a" "shared a2 = shared a"
      "isolated a2 = isolated a" "pin_count a2 = pin_count a" "a_n a2 = a_n a"
    using fold_undo_alloc [OF D(1) idsn] unfolding a2_def by blast+
  let ?live = "bump (-) (live_inc d) (bump (+) (live_dec d) (live_bytes a))"
  let ?refs = "bump (-) (map (\<lambda>j. (j, 1)) (refcount_inc d)) (bump (+) (map (\<lambda>j. (j, 1)) (refcount_dec d)) (refcounts a))"
  let ?sh = "on_keys rehold_val (shared_dec d) (on_keys unshare_val (shared_inc d) (shared a))"
  let ?a = "a2\<lparr>live_bytes := ?live, shared := ?sh, refcounts := ?refs\<rparr>"
  have "rollback a d = Some ?a"
    using ok a2(5-7)
    by (simp add: rollback_def fold_unfree_used [OF D(1) cl] a2_def [symmetric] fold_accounts fold_refs fold_keys)
  moreover have "alloc_wf ?a" by (rule alloc_wf_cong [OF a2(1)]) (simp_all add: a2)
  moreover have "used_ids ?a = used_ids a0 \<union> q" using a2(2) q ids by auto
  moreover have "live_bytes ?a = live_bytes a0"
  proof (rule nth_equalityI)
    show "length (live_bytes ?a) = length (live_bytes a0)"
      using live_length [OF D(1)] live_length [OF a0] D(3) by simp
    fix i assume "i < length (live_bytes ?a)"
    then have i: "i < length (live_bytes a)" "i < a_n a" using live_length [OF D(1)] by simp_all
    have "live_bytes a ! i + sum_for i (live_dec d) = live_bytes a0 ! i + sum_for i (live_inc d)"
      using D(5) i(2) by simp
    with i show "live_bytes ?a ! i = live_bytes a0 ! i" by (simp add: nth_bump_add nth_bump_sub)
  qed
  moreover have "\<forall>i \<in> used_ids a0. refcounts ?a ! i = refcounts a0 ! i"
  proof
    fix i assume i0: "i \<in> used_ids a0"
    then have i: "i < length (refcounts a)" using D(8,9) refs_length [OF D(1)] by auto
    have "refcounts a ! i + cnt_for i (refcount_dec d) = refcounts a0 ! i + cnt_for i (refcount_inc d)"
      using D(6) i0 by simp
    with i show "refcounts ?a ! i = refcounts a0 ! i"
      by (simp add: nth_bump_add nth_bump_sub sum_for_ones)
  qed
  moreover have "total_alloc ?a = total_alloc a0" "total_free ?a = total_free a0"
    "pin_count ?a = pin_count a0" "isolated ?a = isolated a0 \<union> q" "a_n ?a = a_n a0"
    using a2 q(1) inv by (simp_all add: draft_inv_def)
  ultimately show thesis using q(4) by (intro that [of ?a q]) simp_all
qed

text \<open>
  C2. Rollback undoes a draft. After any sequence of draft operations on a well-formed allocator,
  \<^verbatim>\<open>rollback\<close> does not abort and restores the live bytes of every extent, the reference counts of every
  extent that was in use, both counters, the pin counts, and the used set up to pinned extents that the
  search isolated. The shared table gives every segment the holders it had before, provided the draft did not
  both share and release that segment and its count does not exceed 32 bits.
\<close>

theorem rollback_restores:
  assumes "alloc_wf a0" "live_marked a0" "entries_ok a0" "draft_run a0 (a, d)"
  shows "\<exists>a' quar. rollback a d = Some a' \<and> alloc_wf a' \<and> live_marked a' \<and>
    live_bytes a' = live_bytes a0 \<and> (\<forall>i \<in> used_ids a0. refcounts a' ! i = refcounts a0 ! i) \<and>
    total_alloc a' = total_alloc a0 \<and> total_free a' = total_free a0 \<and>
    pin_count a' = pin_count a0 \<and> a_n a' = a_n a0 \<and>
    (\<forall>i \<in> quar. is_pinned a0 i) \<and> used_ids a' = used_ids a0 \<union> quar \<and>
    isolated a' = isolated a0 \<union> quar \<and>
    (\<forall>k. (k \<notin> set (shared_inc d) \<or> k \<notin> set (shared_dec d)) \<and>
         unat (hold (shared a0 k)) + count_list (shared_inc d) k < 2 ^ 32 \<longrightarrow>
       hold (shared a' k) = hold (shared a0 k))"
proof -
  have inv: "draft_inv a0 (a, d)" by (rule draft_run_inv [OF assms(4,1,2,3)])
  obtain a' quar where r: "rollback a d = Some a'" "alloc_wf a'" "\<forall>i \<in> quar. is_pinned a0 i"
    "used_ids a' = used_ids a0 \<union> quar" "isolated a' = isolated a0 \<union> quar"
    "live_bytes a' = live_bytes a0" "\<forall>i \<in> used_ids a0. refcounts a' ! i = refcounts a0 ! i"
    "total_alloc a' = total_alloc a0" "total_free a' = total_free a0"
    "pin_count a' = pin_count a0" "a_n a' = a_n a0"
    "shared a' = on_keys rehold_val (shared_dec d) (on_keys unshare_val (shared_inc d) (shared a))"
    by (rule draft_inv_rollback [OF inv assms(1)])
  have "live_marked a'" using assms(2) r(4,6,11) by (simp add: live_marked_def)
  moreover have "hold (shared a' k) = hold (shared a0 k)"
    if "k \<notin> set (shared_inc d) \<or> k \<notin> set (shared_dec d)"
      "unat (hold (shared a0 k)) + count_list (shared_inc d) k < 2 ^ 32" for k
  proof -
    have "count_list (shared_inc d) k = 0 \<or> count_list (shared_dec d) k = 0"
      using that(1) by (simp add: count_list_0_iff)
    from key_rollback [OF draft_inv_key [OF inv] this _ that(2)] assms(3)
    show ?thesis unfolding r(12) on_keys_at by (simp only: entries_ok_def not_False_eq_True)
  qed
  ultimately show ?thesis using r by blast
qed


lemma rollback_shared:
  assumes "rollback a d = Some a'"
  shows "shared a' = on_keys rehold_val (shared_dec d) (on_keys unshare_val (shared_inc d) (shared a))"
proof -
  have "shared (fold undo_alloc (expand (s_alloc d)) (fold unfree_bit (cleared d) a)) = shared a"
    using fold_field [of _ shared undo_alloc] fold_field [of _ shared unfree_bit]
    by (simp add: undo_alloc_def unfree_bit_def set_state_def)
  then show ?thesis
    using assms by (auto simp: rollback_def Let_def fold_accounts fold_refs fold_keys split: if_splits)
qed

section \<open>Where rollback is not exact\<close>

lemma more_than_one:
  fixes h :: u32
  assumes "h \<noteq> 0" "h \<noteq> - 1"
  shows "1 < h + 1"
proof -
  have "unat (h + 1) = unat h + 1"
    using assms(2) by (simp add: add.commute [of h] unatSuc eq_neg_iff_add_eq_0)
  with assms(1) show ?thesis by (simp add: word_less_nat_alt unat_gt_0)
qed

lemma below_two:
  fixes h :: u32
  assumes "\<not> 2 < h" "h \<noteq> 2" "h \<noteq> 0"
  shows "h = 1"
proof -
  have "unat h \<le> 2" "unat h \<noteq> 2" "unat h \<noteq> 0"
    using assms by (auto simp: word_less_nat_alt word_unat_eq_iff)
  then have "unat h = 1" by simp
  then show ?thesis by (simp add: word_unat_eq_iff)
qed

text \<open>
  C8. A segment that the draft shares once and then releases once, its count of holders neither zero nor
  at the maximum of 32 bits: rollback leaves the holders it had, except when it had exactly two; then one of them is lost. (The copy of an object onto a key whose old
  value shares the same segments takes this path.) The next release of the segment then frees its bytes
  under the remaining holder.
\<close>

theorem rollback_loses_holder:
  assumes "alloc_wf a0" "seg_ext s \<in> used_ids a0"
    "hold (shared a0 (key_of s)) \<noteq> 0" "hold (shared a0 (key_of s)) \<noteq> - 1"
    "share_object a0 staged_default [s] = Some (a1, d1)" "release_object a1 d1 [s] = Some (a2, d2)"
  shows "\<exists>a'. rollback a2 d2 = Some a' \<and> hold (shared a' (key_of s)) =
    (if hold (shared a0 (key_of s)) = 2 then 1 else hold (shared a0 (key_of s)))"
proof -
  let ?i = "seg_ext s" and ?k = "key_of s" and ?h = "hold (shared a0 (key_of s))"
  have n: "?i < a_n a0" "?i < length (refcounts a0)"
    using assms(2) used_bounded [OF assms(1)] refs_length [OF assms(1)] by auto
  have seen: "seen_extents [s] = [?i]" by (simp add: seen_extents_def note_seen_def)
  have a1: "a1 = add_ref ?i (a0\<lparr>shared := (shared a0)(?k \<mapsto> ?h + 1)\<rparr>)"
    "d1 = staged_default\<lparr>shared_inc := [?k], refcount_inc := [?i]\<rparr>"
    using assms(5) n seen
    by (auto simp: share_object_def segs_ok_def ids_ok_def share_seg_def inc_ref_def staged_default_def
        hold_def)
  have up: "1 < ?h + 1" using assms(3,4) by (rule more_than_one)
  have sh: "shared a2 ?k = Some ?h" "shared_inc d2 = [?k]" "shared_dec d2 = [?k]"
    and ids: "set (draft_ids d2) \<subseteq> {?i}" and an: "a_n a2 = a_n a0"
    using assms(6) n seen up unfolding a1
    by (auto simp: release_object_def segs_ok_def ids_ok_def release_seg_def dec_ref_def add_ref_def
        sub_ref_def staged_default_def draft_ids_def split: if_splits)
  have ok: "ids_ok a2 (draft_ids d2)" using ids an n by (auto simp: ids_ok_def list_all_iff)
  then obtain a' where r: "rollback a2 d2 = Some a'" by (simp add: rollback_def Let_def)
  have "shared a' ?k = rehold_val (unshare_val (Some ?h))"
    unfolding rollback_shared [OF r] sh by (simp add: on_keys_def sh(1))
  moreover have "?h = 1" if "\<not> 2 < ?h" "?h \<noteq> 2"
    using that assms(3) by (rule below_two)
  ultimately show ?thesis using r
    by (cases "2 < ?h") (auto simp: unshare_val_def rehold_val_def hold_def)
qed


section \<open>Commit\<close>

lemma settle_cases:
  assumes "alloc_wf a" "i < a_n a"
  shows "alloc_wf (settle i a) \<and> a_n (settle i a) = a_n a \<and> live_bytes (settle i a) = live_bytes a \<and>
    pin_count (settle i a) = pin_count a \<and> shared (settle i a) = shared a \<and>
    refcounts (settle i a) = refcounts a \<and>
    used_ids (settle i a) = used_ids a - {j. j = i \<and> live_bytes a ! i = 0 \<and> \<not> is_pinned a i} \<and>
    isolated (settle i a) = isolated a \<union> {j. j = i \<and> live_bytes a ! i = 0 \<and> is_pinned a i}"
proof -
  have free: "alloc_wf (free_bit i a) \<and> used_ids (free_bit i a) = used_ids a - {i} \<and>
      isolated (free_bit i a) = isolated a \<and> a_n (free_bit i a) = a_n a \<and>
      live_bytes (free_bit i a) = live_bytes a \<and> pin_count (free_bit i a) = pin_count a \<and>
      shared (free_bit i a) = shared a \<and> refcounts (free_bit i a) = refcounts a"
    using assms alloc_wf_test [OF assms] used_clear [OF assms] alloc_wf_clear [OF assms]
    by (auto simp: free_bit_def alloc_wf_def)
  show ?thesis
  proof (cases "live_bytes a ! i = 0")
    case False
    then have "0 < live_bytes a ! i" by (simp add: word_neq_0_conv)
    then show ?thesis using assms False by (simp add: settle_def)
  next
    case True
    show ?thesis
    proof (cases "is_pinned a i")
      case pinned: True
      then show ?thesis using True assms by (auto simp: settle_def alloc_wf_def)
    next
      case False
      then have "settle i a = set_state i Free (free_bit i a)" using True by (simp add: settle_def)
      moreover have "{j. j = i \<and> live_bytes a ! i = 0 \<and> \<not> is_pinned a i} = {i}"
        "{j. j = i \<and> live_bytes a ! i = 0 \<and> is_pinned a i} = {}" using True False by auto
      ultimately show ?thesis
        using free alloc_wf_accounts(5) [of "free_bit i a" i Free] by (auto simp: set_state_def)
    qed
  qed
qed

lemma fold_settle:
  assumes "alloc_wf a" "set ids \<subseteq> {..<a_n a}"
  shows "alloc_wf (fold settle ids a) \<and> a_n (fold settle ids a) = a_n a \<and>
    live_bytes (fold settle ids a) = live_bytes a \<and> pin_count (fold settle ids a) = pin_count a \<and>
    shared (fold settle ids a) = shared a \<and> refcounts (fold settle ids a) = refcounts a \<and>
    used_ids (fold settle ids a) = used_ids a - {i \<in> set ids. live_bytes a ! i = 0 \<and> \<not> is_pinned a i} \<and>
    isolated (fold settle ids a) = isolated a \<union> {i \<in> set ids. live_bytes a ! i = 0 \<and> is_pinned a i}"
  using assms
proof (induction ids arbitrary: a)
  case Nil
  then show ?case by simp
next
  case (Cons j ids)
  have "j < a_n a" using Cons.prems(2) by simp
  note s = settle_cases [OF Cons.prems(1) this]
  have p: "is_pinned (settle j a) i = is_pinned a i" for i
    by (rule is_pinned_cong) (use s in auto)
  have ids: "set ids \<subseteq> {..<a_n (settle j a)}" using Cons.prems(2) s by simp
  have "alloc_wf (settle j a)" using s by blast
  from Cons.IH [OF this ids] s show ?case unfolding p by auto
qed

text \<open>
  At commit exactly the extents recorded as cleared that hold no live byte and are not pinned become
  free; the pinned ones among them are isolated. Live extents keep their mark and all live bytes are
  unchanged.
\<close>

theorem commit_frees_only_dead:
  assumes "alloc_wf a" "live_marked a" "to_alloc_draft a d = Some (ad, a')"
  shows "used_ids a' = used_ids a - {i \<in> set (cleared d). live_bytes a ! i = 0 \<and> \<not> is_pinned a i} \<and>
    isolated a' = isolated a \<union> {i \<in> set (cleared d). live_bytes a ! i = 0 \<and> is_pinned a i} \<and>
    live_bytes a' = live_bytes a \<and> refcounts a' = refcounts a \<and> shared a' = shared a \<and>
    d_alloc ad = s_alloc d \<and> d_ref_dec ad = s_ref_dec d \<and> alloc_wf a' \<and> live_marked a'"
proof -
  have a': "a' = fold settle (cleared d) a" and ids: "set (cleared d) \<subseteq> {..<a_n a}"
    and ad: "d_alloc ad = s_alloc d" "d_ref_dec ad = s_ref_dec d"
    using assms(3) by (auto simp: to_alloc_draft_def ids_ok_def list_all_iff split: if_splits)
  note f = fold_settle [OF assms(1) ids, folded a']
  then have "live_marked a'" using assms(2) by (auto simp: live_marked_def)
  with f ad show ?thesis by blast
qed

text \<open>
  C3. A whole transaction: whatever draft operations precede it, the commit leaves a well-formed
  allocator in which every extent with live bytes is still marked used.
\<close>

theorem transaction_keeps_live_marked:
  assumes "alloc_wf a0" "live_marked a0" "entries_ok a0" "draft_run a0 (a, d)"
  shows "\<exists>ad a'. to_alloc_draft a d = Some (ad, a') \<and> alloc_wf a' \<and> live_marked a' \<and>
    live_bytes a' = live_bytes a"
proof -
  note D = draft_invD [OF draft_run_inv [OF assms(4,1,2,3)]]
  have ids: "set (cleared d) \<subseteq> {..<a_n a}" using D(4,9) by (auto simp: draft_ids_def)
  then obtain ad where t: "to_alloc_draft a d = Some (ad, fold settle (cleared d) a)"
    by (simp add: to_alloc_draft_def ids_ok_def list_all_iff subset_iff)
  note f = fold_settle [OF D(1) ids]
  then have "live_marked (fold settle (cleared d) a)" using D(2) by (auto simp: live_marked_def)
  with f t show ?thesis by blast
qed


section \<open>A concrete draft\<close>

definition demo_seg :: segment where
  "demo_seg = \<lparr>extent_id = 1, seg_offset = 0, seg_len = 4096, crcs = []\<rparr>"

lemma demo_seg_simps [simp]: "seg_ext demo_seg = 1" "seg_len demo_seg = 4096" "key_of demo_seg = (1, 0, 4096)"
  by (simp_all add: demo_seg_def seg_ext_def key_of_def)

lemma demo_alloc_n [simp]: "a_n demo_alloc = 3"
  by code_simp

lemma demo_alloc_shared [simp]: "shared demo_alloc = Map.empty"
  by (simp add: demo_alloc_def pin_def pin_one_def alloc_new_def)

lemma demo_draft:
  obtains a d where "draft_run demo_alloc (a, d)" "live_inc d = [(1, 4096)]" "set (cleared d) = {}"
proof -
  have "fst (allocate demo_alloc 0 staged_default 1) = Inr [1]" by code_simp
  then obtain a1 h1 d1 where r: "allocate demo_alloc 0 staged_default 1 = (Inr [1], a1, h1, d1)"
    by (metis prod.collapse)
  from allocate_Inr [OF demo_alloc_wf(1) r] obtain quar where c: "claims demo_alloc [1] quar a1"
    and d1: "d1 = staged_default\<lparr>s_alloc := s_alloc staged_default @ compress_ranges [1]\<rparr>" by blast
  have n: "a_n a1 = 3" "1 \<in> used_ids a1" using c by (auto simp: claims_def)
  obtain a2 d2 where r2: "note_inflight_segment a1 d1 demo_seg = Some (a2, d2)"
    and d2: "live_inc d2 = [(1, 4096)]" "cleared d2 = []"
    using n d1 by (auto simp: note_inflight_segment_def staged_default_def Let_def)
  have "draft_run demo_alloc (a1, d1)" by (rule dr_step [OF dr_start ds_allocate [OF r]])
  then have "draft_run demo_alloc (a2, d2)"
    by (rule dr_step) (rule ds_inflight [OF _ r2], use n in simp)
  with d2 show thesis by (intro that) simp_all
qed

lemma demo_entries_ok: "entries_ok demo_alloc"
  by (simp add: entries_ok_def)

theorem rollback_restores_witness:
  "\<exists>a d a'. draft_run demo_alloc (a, d) \<and> live_inc d = [(1, 4096)] \<and> rollback a d = Some a' \<and>
     live_bytes a' = live_bytes demo_alloc \<and> live_marked a'"
proof -
  obtain a d where r: "draft_run demo_alloc (a, d)" "live_inc d = [(1, 4096)]" "set (cleared d) = {}"
    by (rule demo_draft)
  from rollback_restores [OF demo_alloc_wf demo_entries_ok r(1)] r show ?thesis by blast
qed

theorem transaction_keeps_live_marked_witness:
  "\<exists>a d ad a'. draft_run demo_alloc (a, d) \<and> live_inc d = [(1, 4096)] \<and>
     to_alloc_draft a d = Some (ad, a') \<and> live_marked a'"
proof -
  obtain a d where r: "draft_run demo_alloc (a, d)" "live_inc d = [(1, 4096)]" "set (cleared d) = {}"
    by (rule demo_draft)
  from transaction_keeps_live_marked [OF demo_alloc_wf demo_entries_ok r(1)] r show ?thesis by blast
qed

theorem commit_frees_only_dead_witness:
  "\<exists>ad a'. to_alloc_draft demo_alloc (staged_default\<lparr>cleared := [0, 1]\<rparr>) = Some (ad, a') \<and>
     live_bytes a' = live_bytes demo_alloc \<and> live_marked a'"
proof -
  let ?d = "staged_default\<lparr>cleared := [0, 1]\<rparr>"
  obtain ad a' where t: "to_alloc_draft demo_alloc ?d = Some (ad, a')"
    by (simp add: to_alloc_draft_def ids_ok_def)
  from commit_frees_only_dead [OF demo_alloc_wf t] t show ?thesis by blast
qed

definition demo_shared :: allocator where
  "demo_shared = demo_alloc\<lparr>bmap := snd (bm_set_bit (bmap demo_alloc) 1), shared := [(1, 0, 4096) \<mapsto> 2]\<rparr>"

theorem rollback_loses_holder_witness:
  "\<exists>a1 d1 a2 d2 a'. share_object demo_shared staged_default [demo_seg] = Some (a1, d1) \<and>
     release_object a1 d1 [demo_seg] = Some (a2, d2) \<and> rollback a2 d2 = Some a' \<and>
     hold (shared demo_shared (1, 0, 4096)) = 2 \<and> hold (shared a' (1, 0, 4096)) = 1"
proof -
  have n: "1 < a_n demo_alloc" by simp
  have wf: "alloc_wf demo_shared" unfolding demo_shared_def
    using alloc_wf_shared(1) [OF alloc_wf_mark [OF demo_alloc_wf(1) n]] by simp
  have used: "seg_ext demo_seg \<in> used_ids demo_shared"
    using used_mark [OF demo_alloc_wf(1) n] by (simp add: demo_shared_def)
  have k: "shared demo_shared (key_of demo_seg) = Some 2" by (simp add: demo_shared_def)
  obtain a1 d1 where s: "share_object demo_shared staged_default [demo_seg] = Some (a1, d1)"
    by (simp add: share_object_def segs_ok_def ids_ok_def demo_shared_def) (metis surj_pair)
  have "a_n a1 = 3" using s
    by (auto simp: share_object_def share_seg_def inc_ref_def add_ref_def seen_extents_def note_seen_def
        demo_shared_def segs_ok_def ids_ok_def)
  then obtain a2 d2 where r: "release_object a1 d1 [demo_seg] = Some (a2, d2)"
    by (simp add: release_object_def segs_ok_def ids_ok_def) (metis surj_pair)
  from rollback_loses_holder [OF wf used _ _ s r] s r k show ?thesis by (auto simp: hold_def)
qed

end
