(* ===== verification/Alloc_Recovery.thy ===== *)
theory Alloc_Recovery
  imports Alloc_Rollback
begin

text \<open>
  The recovery side of the allocator: replaying \<^verbatim>\<open>a:\<close> records, rebuilding the derived accounts from the
  segments found in the metadata, healing the bitmap and finding leaks; then read pins and the choice
  of compaction candidates.
\<close>

section \<open>Replaying records\<close>

lemma replay_alloc_used:
  assumes "alloc_wf a" "i < a_n a"
  shows "alloc_wf (replay_alloc i a) \<and> used_ids (replay_alloc i a) = insert i (used_ids a) \<and>
    a_n (replay_alloc i a) = a_n a \<and> live_bytes (replay_alloc i a) = live_bytes a"
proof -
  have w: "alloc_wf (a\<lparr>bmap := snd (bm_set_bit (bmap a) i)\<rparr>)" by (rule alloc_wf_mark [OF assms])
  obtain r b where s: "bm_set_bit (bmap a) i = (r, b)" by (cases "bm_set_bit (bmap a) i")
  show ?thesis using w used_mark [OF assms] unfolding s
    by (cases r) (auto simp: replay_alloc_def s alloc_wf_def)
qed

lemma replay_inc_frame:
  "bmap (replay_inc i a) = bmap a" "a_n (replay_inc i a) = a_n a" "live_bytes (replay_inc i a) = live_bytes a"
  "alloc_wf a \<Longrightarrow> alloc_wf (replay_inc i a)"
  by (simp_all add: replay_inc_def add_ref_def alloc_wf_def)

lemma wipe_extent_used:
  assumes "alloc_wf a" "i < a_n a"
  shows "alloc_wf (wipe_extent i a) \<and> used_ids (wipe_extent i a) = used_ids a - {i} \<and>
    a_n (wipe_extent i a) = a_n a \<and> live_bytes (wipe_extent i a) = (live_bytes a)[i := 0]"
  using alloc_wf_clear [OF assms] used_clear [OF assms]
  by (simp add: wipe_extent_def set_state_def alloc_wf_def)

lemma wf_test_any: "alloc_wf a \<Longrightarrow> bm_in (bmap a) i \<Longrightarrow> bm_test (bmap a) i \<longleftrightarrow> i \<in> used_ids a"
  by (simp add: bm_test_iff)

lemma replay_dec_used:
  assumes "alloc_wf a" "bm_in (bmap a) i"
  shows "alloc_wf (replay_dec keep i a) \<and> used_ids (replay_dec keep i a) = used_ids a - ({i} - set keep) \<and>
    a_n (replay_dec keep i a) = a_n a \<and> length (words (bmap (replay_dec keep i a))) = length (words (bmap a)) \<and>
    (\<forall>j < a_n a. live_bytes (replay_dec keep i a) ! j = live_bytes a ! j \<or>
       live_bytes (replay_dec keep i a) ! j = 0)"
proof (cases "i \<in> set keep \<or> i \<notin> used_ids a")
  case True
  then have "replay_dec keep i a = a" using wf_test_any [OF assms] by (auto simp: replay_dec_def)
  with assms True show ?thesis by auto
next
  case False
  then have i: "i < a_n a" using used_bounded [OF assms(1)] by auto
  have r: "replay_dec keep i a = wipe_extent i a"
    using False wf_test_any [OF assms] by (simp add: replay_dec_def)
  have "length (words (bmap (wipe_extent i a))) = length (words (bmap a))"
    by (simp add: wipe_extent_def set_state_def)
  moreover have "live_bytes (wipe_extent i a) ! j = live_bytes a ! j \<or> live_bytes (wipe_extent i a) ! j = 0" for j
    using wipe_extent_used [OF assms(1) i] i live_length [OF assms(1)] by (cases "j = i") auto
  ultimately show ?thesis using wipe_extent_used [OF assms(1) i] False unfolding r by auto
qed

lemma fold_replay_alloc:
  assumes "alloc_wf a" "set ids \<subseteq> {..<a_n a}"
  shows "alloc_wf (fold replay_alloc ids a) \<and> used_ids (fold replay_alloc ids a) = used_ids a \<union> set ids \<and>
    a_n (fold replay_alloc ids a) = a_n a \<and> live_bytes (fold replay_alloc ids a) = live_bytes a"
  using assms
proof (induction ids arbitrary: a)
  case Nil
  then show ?case by simp
next
  case (Cons i ids)
  have "i < a_n a" using Cons.prems(2) by simp
  note r = replay_alloc_used [OF Cons.prems(1) this]
  have "set ids \<subseteq> {..<a_n (replay_alloc i a)}" using Cons.prems(2) r by simp
  with Cons.IH [of "replay_alloc i a"] r show ?case by auto
qed

lemma fold_replay_inc:
  "bmap (fold replay_inc ids a) = bmap a \<and> a_n (fold replay_inc ids a) = a_n a \<and>
     live_bytes (fold replay_inc ids a) = live_bytes a \<and> (alloc_wf a \<longrightarrow> alloc_wf (fold replay_inc ids a))"
  by (induction ids arbitrary: a) (simp_all add: replay_inc_frame)

lemma fold_replay_dec:
  assumes "alloc_wf a" "\<forall>i \<in> set ids. bm_in (bmap a) i"
  shows "alloc_wf (fold (replay_dec keep) ids a) \<and>
    used_ids (fold (replay_dec keep) ids a) = used_ids a - (set ids - set keep) \<and>
    a_n (fold (replay_dec keep) ids a) = a_n a \<and>
    (\<forall>j < a_n a. live_bytes (fold (replay_dec keep) ids a) ! j = live_bytes a ! j \<or>
       live_bytes (fold (replay_dec keep) ids a) ! j = 0)"
  using assms
proof (induction ids arbitrary: a)
  case Nil
  then show ?case by simp
next
  case (Cons i ids)
  have "bm_in (bmap a) i" using Cons.prems(2) by simp
  note r = replay_dec_used [OF Cons.prems(1) this, of keep]
  have "\<forall>j \<in> set ids. bm_in (bmap (replay_dec keep i a)) j"
    using Cons.prems(2) r by (simp add: bm_in_def)
  with Cons.IH [of "replay_dec keep i a"] r
  have ih: "alloc_wf (fold (replay_dec keep) ids (replay_dec keep i a))"
    "used_ids (fold (replay_dec keep) ids (replay_dec keep i a)) =
       used_ids (replay_dec keep i a) - (set ids - set keep)"
    "a_n (fold (replay_dec keep) ids (replay_dec keep i a)) = a_n (replay_dec keep i a)"
    "\<forall>j < a_n a. live_bytes (fold (replay_dec keep) ids (replay_dec keep i a)) ! j =
         live_bytes (replay_dec keep i a) ! j \<or>
       live_bytes (fold (replay_dec keep) ids (replay_dec keep i a)) ! j = 0"
    by simp_all
  show ?case using ih r by (auto; metis)
qed

lemma apply_record_used:
  assumes "alloc_wf a" "apply_record a rc = Some a'"
  shows "used_ids a' = used_ids a \<union> set (expand (r_alloc rc)) -
      (set (r_ref_dec rc) - (set (expand (r_alloc rc)) \<union> set (r_ref_inc rc))) \<and>
    alloc_wf a' \<and> a_n a' = a_n a \<and>
    (\<forall>j < a_n a. live_bytes a' ! j = live_bytes a ! j \<or> live_bytes a' ! j = 0)"
proof -
  let ?ids = "expand (r_alloc rc)"
  define a1 where "a1 = fold replay_alloc ?ids a"
  define a2 where "a2 = fold replay_inc (r_ref_inc rc) a1"
  have ok: "set ?ids \<subseteq> {..<a_n a}" "\<forall>i \<in> set (r_ref_dec rc). bm_in (bmap a) i"
    and a': "a' = fold (replay_dec (?ids @ r_ref_inc rc)) (r_ref_dec rc) a2"
    using assms(2) by (auto simp: apply_record_def ids_ok_def list_all_iff a1_def a2_def split: if_splits)
  note r1 = fold_replay_alloc [OF assms(1) ok(1), folded a1_def]
  have r2: "bmap a2 = bmap a1" "a_n a2 = a_n a1" "live_bytes a2 = live_bytes a1" "alloc_wf a2"
    using fold_replay_inc [of "r_ref_inc rc" a1] r1 by (simp_all add: a2_def)
  have "length (words (bmap a1)) = length (words (bmap a))"
    using r1 assms(1) by (simp add: alloc_wf_def bm_wf_def)
  then have "\<forall>i \<in> set (r_ref_dec rc). bm_in (bmap a2) i" using ok(2) r2(1) by (simp add: bm_in_def)
  note r3 = fold_replay_dec [OF r2(4) this, of "?ids @ r_ref_inc rc", folded a']
  then show ?thesis using r1 r2 by auto
qed

lemma apply_record_defined:
  "apply_record a rc \<noteq> None \<longleftrightarrow> set (expand (r_alloc rc)) \<subseteq> {..<a_n a} \<and>
     (\<forall>i \<in> set (r_ref_inc rc @ r_ref_dec rc). bm_in (bmap a) i)"
  by (auto simp: apply_record_def ids_ok_def list_all_iff)

text \<open>
  A replayed record marks what it allocates and clears what it releases, except that an extent the
  same record also allocates or references stays marked. Replaying the record once more (a crash
  during recovery) succeeds and changes the used set no further.
\<close>

theorem apply_record_idempotent:
  assumes "alloc_wf a" "apply_record a rc = Some a'"
  shows "used_ids a' = used_ids a \<union> set (expand (r_alloc rc)) -
      (set (r_ref_dec rc) - (set (expand (r_alloc rc)) \<union> set (r_ref_inc rc))) \<and>
    alloc_wf a' \<and> (\<exists>a''. apply_record a' rc = Some a'' \<and> used_ids a'' = used_ids a')"
proof -
  note r = apply_record_used [OF assms]
  have "length (words (bmap a')) = length (words (bmap a))"
    using r assms(1) by (simp add: alloc_wf_def bm_wf_def)
  then have "apply_record a' rc \<noteq> None"
    using apply_record_defined [of a rc] apply_record_defined [of a' rc] assms(2) r by (simp add: bm_in_def)
  then obtain a'' where a'': "apply_record a' rc = Some a''" by blast
  have "used_ids a'' = used_ids a'"
    using apply_record_used [OF conjunct1 [OF conjunct2 [OF r]] a''] r by auto
  with r a'' show ?thesis by blast
qed

section \<open>Rebuilding the accounts from the metadata\<close>

lemma count_keys:
  defines "u \<equiv> \<lambda>ss. foldl count_key [] ss"
  shows "distinct (map fst (u ss)) \<and> fst ` set (u ss) = key_of ` set ss \<and>
    (\<forall>k \<in> key_of ` set ss. map_of (u ss) k = Some (cnt_for k (map key_of ss)))"
proof (induction ss rule: rev_induct)
  case Nil
  then show ?case by (simp add: u_def)
next
  case (snoc s ss)
  have u: "u (ss @ [s]) = AList.map_default (key_of s) 1 (\<lambda>n. n + 1) (u ss)"
    by (simp add: u_def count_key_def)
  have none: "key_of s \<notin> key_of ` set ss \<Longrightarrow> map_of (u ss) (key_of s) = None"
    using snoc by (simp add: map_of_eq_None_iff)
  have zero: "key_of s \<notin> key_of ` set ss \<Longrightarrow> cnt_for (key_of s) (map key_of ss) = 0"
    by (simp add: cnt_for_def count_list_0_iff)
  have "map_of (u (ss @ [s])) k = Some (cnt_for k (map key_of (ss @ [s])))"
    if "k \<in> key_of ` set (ss @ [s])" for k
  proof (cases "k = key_of s")
    case True
    show ?thesis
    proof (cases "key_of s \<in> key_of ` set ss")
      case in_ss: True
      then have "map_of (u ss) (key_of s) = Some (cnt_for (key_of s) (map key_of ss))" using snoc by blast
      then show ?thesis using True unfolding u map_of_map_default by simp
    next
      case False
      then show ?thesis using True none zero unfolding u map_of_map_default by simp
    qed
  next
    case False
    with that have "k \<in> key_of ` set ss" by auto
    then have "map_of (u ss) k = Some (cnt_for k (map key_of ss))" using snoc by blast
    with False show ?thesis unfolding u map_of_map_default by simp
  qed
  then show ?case using snoc distinct_map_default [of "u ss"] unfolding u by (simp add: dom_map_default)
qed

definition entry_charge :: "seg_key \<times> u32 \<Rightarrow> nat \<times> u32" where
  "entry_charge = (\<lambda>((e, off, l), cnt). (unat e, l))"

lemma fold_rebuild_entry:
  "fold rebuild_entry ents a = a\<lparr>live_bytes := bump (+) (map entry_charge ents) (live_bytes a),
     shared := fold (\<lambda>(k, c) m. if 1 < c then m(k \<mapsto> c) else m) ents (shared a)\<rparr>"
  by (induction ents arbitrary: a)
    (auto simp: rebuild_entry_def entry_charge_def add_live_def Let_def split: prod.splits)

lemma fold_shared_entries:
  "distinct (map fst ents) \<Longrightarrow> fold (\<lambda>(k, c) m. if 1 < c then m(k \<mapsto> c) else m) ents m k =
     (case map_of ents k of Some c \<Rightarrow> if 1 < c then Some c else m k | None \<Rightarrow> m k)"
proof (induction ents arbitrary: m)
  case (Cons u ents)
  obtain k' c where u: "u = (k', c)" by (cases u)
  have "map_of ents k' = None" using Cons.prems u by (simp add: map_of_eq_None_iff)
  then show ?case using Cons u by (auto split: option.split)
qed simp

lemma sum_for_entries:
  assumes "distinct (map fst ents)"
  shows "sum_for i (map entry_charge ents) = (\<Sum>(e, off, l) \<in> {k \<in> fst ` set ents. unat (fst k) = i}. l)"
  using assms
proof (induction ents)
  case Nil
  then show ?case by simp
next
  case (Cons u ents)
  obtain e off l c where u: "u = ((e, off, l), c)" by (cases u) auto
  let ?K = "{k \<in> fst ` set ents. unat (fst k) = i}"
  have new: "(e, off, l) \<notin> ?K" "finite ?K" using Cons.prems u by auto
  have "{k \<in> fst ` set (u # ents). unat (fst k) = i} = (if unat e = i then insert (e, off, l) ?K else ?K)"
    using u by auto
  then show ?case using Cons new u by (simp add: sum_for_Cons entry_charge_def)
qed

lemma distinct_seen_extents: "distinct (seen_extents segs)"
proof -
  have "distinct acc \<Longrightarrow> distinct (foldl note_seen acc ids)" for acc ids
    by (induction ids arbitrary: acc) (auto simp: note_seen_def)
  then show ?thesis by (simp add: seen_extents_def)
qed

lemma rebuild_refs_bump:
  "rebuild_refs objs a = a\<lparr>refcounts := bump (+) (map (\<lambda>j. (j, 1)) (concat (map seen_extents objs))) (refcounts a)\<rparr>"
proof -
  have "rebuild_refs objs a = fold add_ref (concat (map seen_extents objs)) a"
    by (induction objs arbitrary: a) (simp_all add: rebuild_refs_def)
  then show ?thesis by (simp add: fold_refs)
qed

lemma distinct_count_list: "distinct xs \<Longrightarrow> count_list xs x = (if x \<in> set xs then 1 else 0)"
  by (induction xs) auto

lemma cnt_seen: "cnt_for i (concat (map seen_extents objs)) =
    of_nat (length (filter (\<lambda>segs. i \<in> seg_ext ` set segs) objs))"
proof -
  have "count_list (seen_extents segs) i = (if i \<in> seg_ext ` set segs then 1 else 0)" for segs
    using distinct_seen_extents [of segs] set_seen_extents [of segs]
    by (auto simp: distinct_count_list)
  then show ?thesis by (induction objs) (auto simp: cnt_for_def)
qed

lemma rebuild_derived_fields:
  assumes "alloc_wf a" "rebuild_derived a objs = Some a'"
  shows "alloc_wf a' \<and> bmap a' = bmap a \<and> a_n a' = a_n a \<and> pin_count a' = pin_count a \<and>
    isolated a' = isolated a \<and>
    (\<forall>i < a_n a. live_bytes a' ! i =
       (\<Sum>(e, off, l) \<in> {k \<in> key_of ` set (concat objs). unat (fst k) = i}. l)) \<and>
    (\<forall>i < a_n a. refcounts a' ! i = of_nat (length (filter (\<lambda>segs. i \<in> seg_ext ` set segs) objs))) \<and>
    (\<forall>k. shared a' k = (let c = cnt_for k (map key_of (concat objs)) in if 1 < c then Some c else None))"
proof -
  define ents where "ents = foldl count_key [] (concat objs)"
  note c = count_keys [of "concat objs", folded ents_def]
  let ?live = "bump (+) (map entry_charge ents) (map (\<lambda>_. 0) (live_bytes a))"
  let ?refs = "bump (+) (map (\<lambda>j. (j, 1)) (concat (map seen_extents objs))) (map (\<lambda>_. 0) (refcounts a))"
  let ?sh = "fold (\<lambda>(k, c) m. if 1 < c then m(k \<mapsto> c) else m) ents Map.empty"
  have a': "a' = a\<lparr>live_bytes := ?live, refcounts := ?refs,
      ext_state := map (\<lambda>_. state_u8 Sealed) (ext_state a), shared := ?sh\<rparr>"
    using assms(2)
    by (auto simp: rebuild_derived_def Let_def ents_def [symmetric] rebuild_refs_bump fold_rebuild_entry
        split: if_splits)
  have len: "length (live_bytes a) = a_n a" "length (refcounts a) = a_n a"
    using assms(1) by (simp_all add: alloc_wf_def)
  have "alloc_wf a'" using assms(1) unfolding a' by (simp add: alloc_wf_def)
  moreover have "live_bytes a' ! i =
      (\<Sum>(e, off, l) \<in> {k \<in> key_of ` set (concat objs). unat (fst k) = i}. l)" if "i < a_n a" for i
    using that len c sum_for_entries [of ents i] unfolding a' by (simp add: nth_bump_add)
  moreover have "refcounts a' ! i = of_nat (length (filter (\<lambda>segs. i \<in> seg_ext ` set segs) objs))"
    if "i < a_n a" for i
    using that len unfolding a' by (simp add: nth_bump_add sum_for_ones cnt_seen)
  moreover have "shared a' k = (let c = cnt_for k (map key_of (concat objs)) in if 1 < c then Some c else None)" for k
  proof (cases "k \<in> key_of ` set (concat objs)")
    case True
    then have "map_of ents k = Some (cnt_for k (map key_of (concat objs)))" using c by blast
    with c show ?thesis unfolding a' by (simp add: fold_shared_entries Let_def)
  next
    case False
    then have "map_of ents k = None" using c by (simp add: map_of_eq_None_iff)
    moreover have "cnt_for k (map key_of (concat objs)) = 0"
      using False by (simp only: cnt_for_def count_list_0_iff set_map) simp
    ultimately show ?thesis using c unfolding a' by (simp add: fold_shared_entries)
  qed
  moreover have "bmap a' = bmap a" "a_n a' = a_n a" "pin_count a' = pin_count a" "isolated a' = isolated a"
    unfolding a' by simp_all
  ultimately show ?thesis by blast
qed


text \<open>
  The scan of the metadata at start-up sets the accounts to what the segment lists say: an extent's
  live bytes are the lengths of its distinct segments (a segment several objects share counts once),
  its reference count is the number of objects that touch it, and the shared table holds exactly the
  segments with at least two holders, with their number.
\<close>

theorem rebuild_derived_spec:
  assumes "alloc_wf a" "rebuild_derived a objs = Some a'"
  shows "(\<forall>i < a_n a. live_bytes a' ! i =
       (\<Sum>(e, off, l) \<in> {k \<in> key_of ` set (concat objs). unat (fst k) = i}. l)) \<and>
    (\<forall>i < a_n a. refcounts a' ! i = of_nat (length (filter (\<lambda>segs. i \<in> seg_ext ` set segs) objs))) \<and>
    (\<forall>k. shared a' k = (let c = of_nat (count_list (map key_of (concat objs)) k) :: u32
       in if 1 < c then Some c else None)) \<and>
    bmap a' = bmap a \<and> alloc_wf a'"
  using rebuild_derived_fields [OF assms] unfolding cnt_for_def by blast

section \<open>Healing the bitmap\<close>

lemma heal_one_cases:
  assumes "alloc_wf a" "i < a_n a"
  shows "(let (a', m) = heal_one i (a, h) in alloc_wf a' \<and> a_n a' = a_n a \<and> live_bytes a' = live_bytes a \<and>
     used_ids a' = used_ids a \<union> {j. j = i \<and> live_bytes a ! i \<noteq> 0} \<and>
     m = h + card ({j. j = i \<and> live_bytes a ! i \<noteq> 0} - used_ids a) \<and>
     refcounts a' = refcounts a \<and> shared a' = shared a)"
proof (cases "live_bytes a ! i \<noteq> 0 \<and> i \<notin> used_ids a")
  case True
  then have h: "heal_one i (a, h) =
      (a\<lparr>bmap := snd (bm_set_bit (bmap a) i), total_alloc := total_alloc a + 1\<rparr>, h + 1)"
    using alloc_wf_test [OF assms] by (simp add: heal_one_def live_bytes_of_def word_neq_0_conv)
  have "{j. j = i \<and> live_bytes a ! i \<noteq> 0} = {i}" "{i} - used_ids a = {i}" using True by auto
  then show ?thesis unfolding h
    using alloc_wf_shared(7) [OF alloc_wf_mark [OF assms]] used_mark [OF assms] True by simp
next
  case False
  then have h: "heal_one i (a, h) = (a, h)"
    using alloc_wf_test [OF assms] by (auto simp: heal_one_def live_bytes_of_def word_neq_0_conv)
  have "{j. j = i \<and> live_bytes a ! i \<noteq> 0} - used_ids a = {}" using False by auto
  moreover have "used_ids a \<union> {j. j = i \<and> live_bytes a ! i \<noteq> 0} = used_ids a" using False by auto
  ultimately show ?thesis unfolding h using assms by simp
qed

lemma fold_heal:
  assumes "alloc_wf a" "set ids \<subseteq> {..<a_n a}" "distinct ids"
  shows "let (a', m) = fold heal_one ids (a, h) in alloc_wf a' \<and> a_n a' = a_n a \<and>
     live_bytes a' = live_bytes a \<and> used_ids a' = used_ids a \<union> {j \<in> set ids. live_bytes a ! j \<noteq> 0} \<and>
     m = h + card ({j \<in> set ids. live_bytes a ! j \<noteq> 0} - used_ids a) \<and>
     refcounts a' = refcounts a \<and> shared a' = shared a"
  using assms
proof (induction ids arbitrary: a h)
  case Nil
  then show ?case by simp
next
  case (Cons i ids)
  obtain a1 h1 where h1: "heal_one i (a, h) = (a1, h1)" by (cases "heal_one i (a, h)")
  have "i < a_n a" using Cons.prems(2) by simp
  note s = heal_one_cases [OF Cons.prems(1) this, of h, unfolded h1, simplified]
  obtain a' m where f: "fold heal_one ids (a1, h1) = (a', m)" by (cases "fold heal_one ids (a1, h1)")
  have "set ids \<subseteq> {..<a_n a1}" "distinct ids" using Cons.prems(2,3) s by simp_all
  note ih = Cons.IH [OF conjunct1 [OF s] this, of h1, unfolded f, simplified]
  let ?I = "{j. j = i \<and> live_bytes a ! i \<noteq> 0}" and ?R = "{j \<in> set ids. live_bytes a ! j \<noteq> 0}"
  have both: "{j \<in> set (i # ids). live_bytes a ! j \<noteq> 0} = ?I \<union> ?R" by auto
  have disj: "(?I - used_ids a) \<inter> (?R - used_ids a1) = {}" using s Cons.prems(3) by auto
  have un: "(?I - used_ids a) \<union> (?R - used_ids a1) = (?I \<union> ?R) - used_ids a"
    using s Cons.prems(3) by auto
  have "card ((?I \<union> ?R) - used_ids a) = card (?I - used_ids a) + card (?R - used_ids a1)"
    using card_Un_disjoint [OF _ _ disj] un by simp
  then show ?case using s ih f h1 both by auto
qed

lemma heal_bitmap_fields:
  assumes "alloc_wf a" "heal_bitmap a = (a', m)"
  shows "alloc_wf a' \<and> a_n a' = a_n a \<and> live_bytes a' = live_bytes a \<and>
     used_ids a' = used_ids a \<union> {j. j < a_n a \<and> live_bytes a ! j \<noteq> 0} \<and>
     m = card ({j. j < a_n a \<and> live_bytes a ! j \<noteq> 0} - used_ids a) \<and>
     refcounts a' = refcounts a \<and> shared a' = shared a"
  using fold_heal [of a "[0..<a_n a]" 0] assms by (simp add: heal_bitmap_def atLeast0LessThan)

text \<open>
  C7. Healing marks exactly the live extents that were unmarked, counts them, and establishes
  \<open>live_marked\<close>; a second run finds nothing to heal.
\<close>

theorem heal_bitmap_establishes_live_marked:
  assumes "alloc_wf a" "heal_bitmap a = (a', m)"
  shows "live_marked a' \<and> used_ids a' = used_ids a \<union> {j. j < a_n a \<and> live_bytes a ! j \<noteq> 0} \<and>
    m = card ({j. j < a_n a \<and> live_bytes a ! j \<noteq> 0} - used_ids a) \<and> live_bytes a' = live_bytes a \<and>
    alloc_wf a' \<and> snd (heal_bitmap a') = 0"
proof -
  note h = heal_bitmap_fields [OF assms]
  obtain a'' m' where h': "heal_bitmap a' = (a'', m')" by (cases "heal_bitmap a'")
  have "m' = 0" using heal_bitmap_fields [OF conjunct1 [OF h] h'] h by auto
  then show ?thesis using h h' by (auto simp: live_marked_def)
qed

lemma set_leaks:
  assumes "alloc_wf a"
  shows "set (leaks a reach) = used_ids a - reach" "distinct (leaks a reach)" "sorted (leaks a reach)"
  using alloc_wf_test [OF assms] used_bounded [OF assms] by (auto simp: leaks_def sorted_wrt_filter)


section \<open>Read pins\<close>

lemma distinct_remdups_adj_sorted: "sorted xs \<Longrightarrow> distinct (remdups_adj xs)"
  by (induction xs rule: remdups_adj.induct) auto

lemma pin_one_frame:
  "a_n (pin_one i a) = a_n a" "bmap (pin_one i a) = bmap a" "live_bytes (pin_one i a) = live_bytes a"
  "isolated (pin_one i a) = isolated a" "length (pin_count (pin_one i a)) = length (pin_count a)"
  "alloc_wf a \<Longrightarrow> alloc_wf (pin_one i a)"
  by (simp_all add: pin_one_def alloc_wf_def)

lemma pin_spec:
  assumes "alloc_wf a" "distinct ids"
  shows "alloc_wf (pin a ids) \<and> a_n (pin a ids) = a_n a \<and> bmap (pin a ids) = bmap a \<and>
    live_bytes (pin a ids) = live_bytes a \<and> isolated (pin a ids) = isolated a \<and>
    length (pin_count (pin a ids)) = length (pin_count a) \<and>
    (\<forall>j. pin_count (pin a ids) ! j =
       (if j \<in> set ids \<and> j < a_n a then pin_count a ! j + 1 else pin_count a ! j))"
  using assms
proof (induction ids arbitrary: a)
  case Nil
  then show ?case by (simp add: pin_def)
next
  case (Cons i ids)
  have "i < a_n a \<Longrightarrow> i < length (pin_count a)" using Cons.prems(1) by (simp add: alloc_wf_def)
  then have one: "pin_count (pin_one i a) ! j = (if j = i \<and> j < a_n a then pin_count a ! j + 1 else pin_count a ! j)" for j
    by (simp add: pin_one_def nth_list_update)
  have step: "pin a (i # ids) = pin (pin_one i a) ids" by (simp add: pin_def)
  show ?case unfolding step
    using Cons.IH [OF pin_one_frame(6) [OF Cons.prems(1)]] Cons.prems(2) one pin_one_frame
    by auto
qed

definition idle_isolated :: "allocator \<Rightarrow> nat \<Rightarrow> bool" where
  "idle_isolated a i \<longleftrightarrow> i \<in> isolated a \<and> live_bytes a ! i = 0"

lemma free_bit_fields:
  assumes "alloc_wf a" "i < a_n a"
  shows "alloc_wf (free_bit i a)" "used_ids (free_bit i a) = used_ids a - {i}"
    "a_n (free_bit i a) = a_n a" "live_bytes (free_bit i a) = live_bytes a"
    "pin_count (free_bit i a) = pin_count a" "isolated (free_bit i a) = isolated a"
  using assms alloc_wf_test [OF assms] used_clear [OF assms] alloc_wf_clear [OF assms]
  by (auto simp: free_bit_def alloc_wf_def)

lemma unpin_one_fields:
  assumes wf: "alloc_wf a" and i: "i < a_n a" and p: "0 < pin_count a ! i"
  shows "alloc_wf (unpin_one i a) \<and> a_n (unpin_one i a) = a_n a \<and> live_bytes (unpin_one i a) = live_bytes a \<and>
    pin_count (unpin_one i a) = (pin_count a)[i := pin_count a ! i - 1] \<and>
    used_ids (unpin_one i a) = used_ids a - {j. j = i \<and> pin_count a ! i = 1 \<and> idle_isolated a i} \<and>
    isolated (unpin_one i a) = isolated a - {j. j = i \<and> pin_count a ! i = 1 \<and> idle_isolated a i}"
proof -
  let ?a1 = "a\<lparr>pin_count := (pin_count a)[i := pin_count a ! i - 1]\<rparr>"
  have wf1: "alloc_wf ?a1" by (rule alloc_wf_shared(5) [OF wf])
  have len: "i < length (pin_count a)" using wf i by (simp add: alloc_wf_def)
  show ?thesis
  proof (cases "pin_count a ! i = 1 \<and> i \<in> isolated a")
    case False
    then have "unpin_one i a = ?a1" using i
      by (auto simp: unpin_one_def release_isolated_if_idle_def Let_def)
    with wf1 False show ?thesis by (auto simp: idle_isolated_def)
  next
    case True
    let ?a2 = "?a1\<lparr>isolated := isolated a - {i}\<rparr>"
    have np: "\<not> is_pinned ?a2 i" using True len by (simp add: is_pinned_def pin_count_of_def)
    have u: "unpin_one i a = release_isolated_if_idle i ?a1" using i True by (simp add: unpin_one_def)
    show ?thesis
    proof (cases "live_bytes a ! i = 0")
      case live: False
      then have "unpin_one i a = ?a1" unfolding u
        using True by (simp add: release_isolated_if_idle_def live_bytes_of_def word_neq_0_conv insert_absorb)
      with wf1 live show ?thesis by (auto simp: idle_isolated_def)
    next
      case dead: True
      have wf2: "alloc_wf ?a2" by (rule alloc_wf_shared(2) [OF wf1])
      let ?a3 = "set_state i Free (free_bit i ?a2)"
      have eq: "unpin_one i a = ?a3\<lparr>refcounts := (refcounts ?a3)[i := 0]\<rparr>" unfolding u
        using True dead np by (simp add: release_isolated_if_idle_def live_bytes_of_def Let_def)
      have "alloc_wf (unpin_one i a)" unfolding eq
        by (intro alloc_wf_shared(4) alloc_wf_accounts(5) free_bit_fields(1) wf2) (use i in simp)
      moreover have "{j. j = i \<and> pin_count a ! i = 1 \<and> idle_isolated a i} = {i}"
        using True dead by (auto simp: idle_isolated_def)
      ultimately show ?thesis
        using free_bit_fields [OF wf2, of i] i True unfolding eq by (simp add: set_state_def)
    qed
  qed
qed

lemma unpin_spec:
  assumes "alloc_wf a" "distinct ids" "\<forall>i \<in> set ids. i < a_n a \<longrightarrow> 0 < pin_count a ! i"
  shows "alloc_wf (unpin a ids) \<and> a_n (unpin a ids) = a_n a \<and> live_bytes (unpin a ids) = live_bytes a \<and>
    length (pin_count (unpin a ids)) = length (pin_count a) \<and>
    (\<forall>j. pin_count (unpin a ids) ! j =
       (if j \<in> set ids \<and> j < a_n a then pin_count a ! j - 1 else pin_count a ! j)) \<and>
    used_ids (unpin a ids) =
      used_ids a - {i \<in> set ids. i < a_n a \<and> pin_count a ! i = 1 \<and> idle_isolated a i}"
  using assms
proof (induction ids arbitrary: a)
  case Nil
  then show ?case by (simp add: unpin_def)
next
  case (Cons i ids)
  have step: "unpin a (i # ids) = unpin (unpin_one i a) ids" by (simp add: unpin_def)
  show ?case
  proof (cases "i < a_n a")
    case False
    then have "unpin_one i a = a" by (simp add: unpin_one_def)
    then show ?thesis using Cons.IH [OF Cons.prems(1)] Cons.prems(2,3) False unfolding step by auto
  next
    case True
    let ?b = "unpin_one i a"
    have f: "alloc_wf ?b \<and> a_n ?b = a_n a \<and> live_bytes ?b = live_bytes a \<and>
      pin_count ?b = (pin_count a)[i := pin_count a ! i - 1] \<and>
      used_ids ?b = used_ids a - {j. j = i \<and> pin_count a ! i = 1 \<and> idle_isolated a i} \<and>
      isolated ?b = isolated a - {j. j = i \<and> pin_count a ! i = 1 \<and> idle_isolated a i}"
      using unpin_one_fields [OF Cons.prems(1) True] Cons.prems(3) True by simp
    have len: "i < length (pin_count a)" using Cons.prems(1) True by (simp add: alloc_wf_def)
    have same: "pin_count ?b ! j = pin_count a ! j" "idle_isolated ?b j = idle_isolated a j"
      if "j \<in> set ids" for j
    proof -
      have "i \<noteq> j" using that Cons.prems(2) by auto
      then show "pin_count ?b ! j = pin_count a ! j" "idle_isolated ?b j = idle_isolated a j"
        using f by (auto simp: idle_isolated_def)
    qed
    have pos: "\<forall>j \<in> set ids. j < a_n ?b \<longrightarrow> 0 < pin_count ?b ! j"
      using Cons.prems(3) same f by simp
    have dist: "distinct ids" "i \<notin> set ids" using Cons.prems(2) by auto
    note ih = Cons.IH [OF conjunct1 [OF f] dist(1) pos]
    have used: "{j \<in> set ids. j < a_n ?b \<and> pin_count ?b ! j = 1 \<and> idle_isolated ?b j} =
        {j \<in> set ids. j < a_n a \<and> pin_count a ! j = 1 \<and> idle_isolated a j}"
      using same f by auto
    show ?thesis unfolding step using ih f len dist True unfolding used
      by (auto simp: nth_list_update)
  qed
qed

text \<open>
  The guard \<^verbatim>\<open>ReadPin\<close>: while it lives, every extent it names is pinned, so allocation skips it; dropping
  it restores the pin counts and frees exactly the extents that were isolated meanwhile, hold no live
  byte and have no other reader.
\<close>

theorem read_pin_guard:
  assumes "alloc_wf a" "live_marked a" "\<forall>i \<in> set ids. i < a_n a \<longrightarrow> pin_count a ! i \<noteq> - 1"
    and "read_pin_new a ids = (a1, held)"
  shows "(\<forall>i \<in> set ids. i < a_n a \<longrightarrow> is_pinned a1 i) \<and> used_ids a1 = used_ids a \<and>
    pin_count (read_pin_drop (a1, held)) = pin_count a \<and>
    used_ids (read_pin_drop (a1, held)) =
      used_ids a - {i \<in> set ids. i < a_n a \<and> \<not> is_pinned a i \<and> i \<in> isolated a \<and> live_bytes a ! i = 0} \<and>
    alloc_wf (read_pin_drop (a1, held)) \<and> live_marked (read_pin_drop (a1, held))"
proof -
  have held: "distinct held" "set held = set ids" and a1: "a1 = pin a held"
    using assms(4) by (auto simp: read_pin_new_def Let_def distinct_remdups_adj_sorted)
  note p = pin_spec [OF assms(1) held(1), folded a1]
  have nz: "x \<noteq> - 1 \<Longrightarrow> 0 < x + 1" for x :: u32
    by (metis add.commute add_diff_cancel_left' diff_0 word_neq_0_conv)
  have pos: "\<forall>i \<in> set held. i < a_n a1 \<longrightarrow> 0 < pin_count a1 ! i"
    using p assms(3) held(2) nz by simp
  have "alloc_wf a1" using p by blast
  note u = unpin_spec [OF this held(1) pos]
  let ?a2 = "read_pin_drop (a1, held)"
  have a2: "?a2 = unpin a1 held" by (simp add: read_pin_drop_def)
  have pins: "pin_count ?a2 = pin_count a" unfolding a2
    by (rule nth_equalityI) (use u p in auto)
  have idle: "{i \<in> set held. i < a_n a1 \<and> pin_count a1 ! i = 1 \<and> idle_isolated a1 i} =
      {i \<in> set ids. i < a_n a \<and> \<not> is_pinned a i \<and> i \<in> isolated a \<and> live_bytes a ! i = 0}"
    using p held(2) by (auto simp: idle_isolated_def is_pinned_def pin_count_of_def word_neq_0_conv [symmetric])
  have used: "used_ids ?a2 =
      used_ids a - {i \<in> set ids. i < a_n a \<and> \<not> is_pinned a i \<and> i \<in> isolated a \<and> live_bytes a ! i = 0}"
    using u p idle unfolding a2 by simp
  have fr: "a_n ?a2 = a_n a" "live_bytes ?a2 = live_bytes a" "alloc_wf ?a2" "used_ids a1 = used_ids a"
    "a_n a1 = a_n a" using u p unfolding a2 by simp_all
  have "live_marked ?a2" using assms(2) fr(1,2) used by (simp add: live_marked_def)
  moreover have "\<forall>i \<in> set ids. i < a_n a \<longrightarrow> is_pinned a1 i"
    using pos held(2) fr(5) by (simp add: is_pinned_def pin_count_of_def)
  ultimately show ?thesis using fr(3,4) pins used by blast
qed


section \<open>Compaction candidates\<close>

lemma sort_key_map: "sort_key f (map g xs) = map g (sort_key (f \<circ> g) xs)"
proof -
  have "insort_key f (g x) (map g xs) = map g (insort_key (f \<circ> g) x xs)" for x xs
    by (induction xs) simp_all
  then show ?thesis by (induction xs) simp_all
qed

definition eligible :: "allocator \<Rightarrow> (u32 \<Rightarrow> bool) \<Rightarrow> nat \<Rightarrow> bool" where
  "eligible a below_thr i \<longleftrightarrow> i < a_n a \<and> state_of a i = Sealed \<and> \<not> is_pinned a i \<and>
     live_bytes a ! i \<noteq> 0 \<and> below_thr (live_bytes a ! i)"

definition waste :: "allocator \<Rightarrow> u64 \<Rightarrow> nat \<Rightarrow> nat" where
  "waste a capacity i = unat (capacity - ucast (live_bytes a ! i))"

text \<open>
  The compactor's choice: distinct sealed extents that no reader pins, with some but few live bytes,
  by waste from the largest down (ties by id), at most \<open>top_k\<close>; a candidate left out has no more waste
  than any chosen one.
\<close>

theorem compaction_candidates_best:
  shows "distinct (compaction_candidates a below_thr top_k capacity) \<and>
    length (compaction_candidates a below_thr top_k capacity) =
      min top_k (card {i. eligible a below_thr i}) \<and>
    (\<forall>i \<in> set (compaction_candidates a below_thr top_k capacity). eligible a below_thr i) \<and>
    sorted_wrt (\<lambda>i j. waste a capacity j < waste a capacity i \<or> waste a capacity i = waste a capacity j \<and> i < j)
      (compaction_candidates a below_thr top_k capacity) \<and>
    (\<forall>i j. i \<in> set (compaction_candidates a below_thr top_k capacity) \<and> eligible a below_thr j \<and>
       j \<notin> set (compaction_candidates a below_thr top_k capacity) \<longrightarrow> waste a capacity j \<le> waste a capacity i)"
proof -
  let ?elig = "eligible a below_thr" and ?R = "compaction_candidates a below_thr top_k capacity"
  define kf where "kf = (\<lambda>i. (- int (waste a capacity i), i))"
  define ids where "ids = sort_key kf (filter ?elig [0..<a_n a])"
  have "filter (\<lambda>i. state_of a i = Sealed \<and> \<not> is_pinned a i \<and> 0 < live_bytes_of a i \<and>
      below_thr (live_bytes_of a i)) [0..<a_n a] = filter ?elig [0..<a_n a]"
    by (rule filter_cong) (simp_all add: eligible_def live_bytes_of_def word_neq_0_conv)
  then have "map snd (sort_key (\<lambda>(w, i). (- int (unat w), i)) (candidate_list a below_thr capacity)) = ids"
    by (simp add: candidate_list_def sort_key_map ids_def kf_def waste_def live_bytes_of_def comp_def)
  then have R: "?R = take top_k ids" by (simp add: compaction_candidates_def take_map [symmetric])
  have set_ids: "set ids = {i. ?elig i}" by (auto simp: ids_def eligible_def)
  have dist: "distinct ids" by (simp add: ids_def)
  have len: "length ids = card {i. ?elig i}" using distinct_card [OF dist] set_ids by simp
  have "sorted (map kf ids)" by (simp add: ids_def)
  moreover have "distinct (map kf ids)" using dist by (simp add: distinct_map kf_def inj_on_def)
  ultimately have "sorted_wrt (<) (map kf ids)" by (simp add: strict_sorted_iff)
  then have "sorted_wrt (\<lambda>i j. kf i < kf j) ids" by (simp only: sorted_wrt_map)
  moreover have "kf i < kf j \<Longrightarrow> waste a capacity j < waste a capacity i \<or>
      waste a capacity i = waste a capacity j \<and> i < j" for i j
    by (auto simp: kf_def less_prod_def)
  ultimately have srt: "sorted_wrt (\<lambda>i j. waste a capacity j < waste a capacity i \<or>
      waste a capacity i = waste a capacity j \<and> i < j) ids"
    by (blast intro: sorted_wrt_mono_rel [rotated])
  then have "sorted_wrt (\<lambda>i j. waste a capacity j < waste a capacity i \<or>
      waste a capacity i = waste a capacity j \<and> i < j) (take top_k ids @ drop top_k ids)" by simp
  note srt2 = this [unfolded sorted_wrt_append]
  have "waste a capacity j \<le> waste a capacity i"
    if "i \<in> set ?R" "?elig j" "j \<notin> set ?R" for i j
  proof -
    have "j \<in> set (drop top_k ids)" using that set_ids R by (metis UnE append_take_drop_id mem_Collect_eq set_append)
    moreover have "i \<in> set (take top_k ids)" using that R by simp
    ultimately have "waste a capacity j < waste a capacity i \<or>
        waste a capacity i = waste a capacity j \<and> i < j"
      using srt2 by blast
    then show ?thesis by auto
  qed
  moreover have "sorted_wrt (\<lambda>i j. waste a capacity j < waste a capacity i \<or>
      waste a capacity i = waste a capacity j \<and> i < j) ?R" unfolding R by (rule sorted_wrt_take [OF srt])
  moreover have "\<forall>i \<in> set ?R. ?elig i" using set_ids R by (auto dest: in_set_takeD)
  moreover have "distinct ?R" "length ?R = min top_k (card {i. ?elig i})"
    using dist len by (simp_all add: R min.commute)
  ultimately show ?thesis by blast
qed


section \<open>Commit against replay\<close>

definition record_of :: "u64 \<Rightarrow> u64 \<Rightarrow> alloc_draft \<Rightarrow> alloc_record" where
  "record_of seq txn ad = \<lparr>r_seq = seq, r_txn = txn, r_alloc = d_alloc ad, r_ref_inc = d_ref_inc ad,
     r_ref_dec = d_ref_dec ad\<rparr>"

text \<open>
  The commit and the replay of its own record disagree when an extent's last old segment is released
  before the new one is charged in the same draft: the commit sees live bytes and keeps the mark, but
  the record still lists the extent as released and nothing in it retains it, so a replay clears the
  mark. (Start-up repairs it through \<^verbatim>\<open>heal_bitmap\<close>.)
\<close>

theorem commit_replay_disagree:
  assumes "alloc_wf a" "to_alloc_draft a d = Some (ad, a')" "i \<in> used_ids a"
    "i \<in> set (s_ref_dec d)" "live_bytes a ! i \<noteq> 0" "i \<notin> set (expand (s_alloc d)) \<union> set (s_ref_inc d)"
    "apply_record a' (record_of seq txn ad) = Some a''"
  shows "i \<in> used_ids a' \<and> live_bytes a' ! i \<noteq> 0 \<and> i \<notin> used_ids a''"
proof -
  have a': "a' = fold settle (cleared d) a" and ids: "set (cleared d) \<subseteq> {..<a_n a}"
    and ad: "ad = \<lparr>d_alloc = s_alloc d, d_ref_inc = s_ref_inc d, d_ref_dec = s_ref_dec d\<rparr>"
    using assms(2) by (auto simp: to_alloc_draft_def ids_ok_def list_all_iff split: if_splits)
  note f = fold_settle [OF assms(1) ids, folded a']
  note r = apply_record_used [OF conjunct1 [OF f] assms(7)]
  show ?thesis using f r assms(3-6) by (simp add: record_of_def ad)
qed

section \<open>Witnesses\<close>

definition demo_rec :: alloc_record where
  "demo_rec = \<lparr>r_seq = 1, r_txn = 1, r_alloc = [(0, 2)], r_ref_inc = [], r_ref_dec = [1, 2]\<rparr>"

theorem apply_record_idempotent_witness:
  "\<exists>a' a''. apply_record demo_alloc demo_rec = Some a' \<and> apply_record a' demo_rec = Some a'' \<and>
     used_ids a'' = used_ids a' \<and> {0, 1} \<subseteq> used_ids a'"
proof -
  have "apply_record demo_alloc demo_rec \<noteq> None" by code_simp
  then obtain a' where a': "apply_record demo_alloc demo_rec = Some a'" by blast
  have e: "expand (r_alloc demo_rec) = [0, 1]" by code_simp
  from apply_record_idempotent [OF demo_alloc_wf(1) a'] a' e show ?thesis by auto
qed

definition demo_seg2 :: segment where
  "demo_seg2 = \<lparr>extent_id = 1, seg_offset = 4096, seg_len = 8192, crcs = []\<rparr>"

lemma demo_keys:
  "key_of ` set (concat [[demo_seg], [demo_seg, demo_seg2]]) = {(1, 0, 4096), (1, 4096, 8192)}"
  by (auto simp: demo_seg_def demo_seg2_def key_of_def)

theorem rebuild_derived_spec_witness:
  "\<exists>a'. rebuild_derived demo_alloc [[demo_seg], [demo_seg, demo_seg2]] = Some a' \<and>
     live_bytes a' ! 1 = 12288 \<and> refcounts a' ! 1 = 2 \<and> shared a' (1, 0, 4096) = Some 2 \<and>
     shared a' (1, 4096, 8192) = None"
proof -
  let ?objs = "[[demo_seg], [demo_seg, demo_seg2]]"
  have "rebuild_derived demo_alloc ?objs \<noteq> None"
    by (simp add: rebuild_derived_def Let_def segs_ok_def ids_ok_def demo_seg_def demo_seg2_def seg_ext_def)
  then obtain a' where a': "rebuild_derived demo_alloc ?objs = Some a'" by blast
  note r = rebuild_derived_spec [OF demo_alloc_wf(1) a']
  have "{k \<in> {(1, 0, 4096), (1, 4096, 8192)}. unat (fst (k :: seg_key)) = 1} = {(1, 0, 4096), (1, 4096, 8192)}"
    by auto
  then have "live_bytes a' ! 1 = 12288" using r unfolding demo_keys by simp
  moreover have "refcounts a' ! 1 = 2" using r by (simp add: demo_seg_def demo_seg2_def seg_ext_def)
  moreover have "shared a' (1, 0, 4096) = Some 2" "shared a' (1, 4096, 8192) = None"
    using r by (simp_all add: Let_def demo_seg_def demo_seg2_def key_of_def)
  ultimately show ?thesis using a' by blast
qed

definition demo_live :: allocator where
  "demo_live = demo_alloc\<lparr>live_bytes := [0, 4096, 0]\<rparr>"

lemma demo_live_wf: "alloc_wf demo_live"
proof -
  have "length (live_bytes demo_alloc) = 3" by code_simp
  then show ?thesis using alloc_wf_cong [OF demo_alloc_wf(1), of demo_live] by (simp add: demo_live_def)
qed

theorem heal_bitmap_establishes_live_marked_witness:
  "live_marked (fst (heal_bitmap demo_live)) \<and> snd (heal_bitmap demo_live) = 1 \<and>
     snd (heal_bitmap (fst (heal_bitmap demo_live))) = 0"
proof -
  have "snd (heal_bitmap demo_live) = 1" by code_simp
  then show ?thesis
    using heal_bitmap_establishes_live_marked [OF demo_live_wf, of "fst (heal_bitmap demo_live)" 1]
    by (simp add: prod_eq_iff)
qed

theorem read_pin_guard_witness:
  "is_pinned (fst (read_pin_new demo_alloc [2, 0])) 2 \<and>
     pin_count (read_pin_drop (read_pin_new demo_alloc [2, 0])) = pin_count demo_alloc"
proof -
  have "pin_count demo_alloc = [1, 0, 0]" by code_simp
  then have ok: "\<forall>i \<in> set [2, 0]. i < a_n demo_alloc \<longrightarrow> pin_count demo_alloc ! i \<noteq> - 1" by simp
  obtain a1 held where r: "read_pin_new demo_alloc [2, 0] = (a1, held)" by (cases "read_pin_new demo_alloc [2, 0]")
  from read_pin_guard [OF demo_alloc_wf ok r] show ?thesis by (simp add: r)
qed

definition demo_sealed :: allocator where
  "demo_sealed = demo_live\<lparr>live_bytes := [10, 20, 5], ext_state := [2, 2, 2]\<rparr>"

theorem compaction_candidates_best_witness:
  "compaction_candidates demo_sealed (\<lambda>l. l < 50) 1 100 = [2] \<and>
     waste demo_sealed 100 1 \<le> waste demo_sealed 100 2"
proof -
  have c: "compaction_candidates demo_sealed (\<lambda>l. l < 50) 1 100 = [2]" by code_simp
  have "eligible demo_sealed (\<lambda>l. l < 50) 1" by code_simp
  then show ?thesis
    using compaction_candidates_best [of demo_sealed "\<lambda>l. l < 50" 1 100] c by simp
qed

definition demo_rewrite :: "allocator \<times> staged" where
  "demo_rewrite =
     (let a = demo_live\<lparr>bmap := snd (bm_set_bit (bmap demo_live) 1)\<rparr>;
          st = the (release_object a staged_default [demo_seg])
      in the (add_object (fst st) (snd st) [demo_seg2]))"

theorem commit_replay_disagree_witness:
  "\<exists>ad a' a''. to_alloc_draft (fst demo_rewrite) (snd demo_rewrite) = Some (ad, a') \<and>
     apply_record a' (record_of 1 1 ad) = Some a'' \<and> 1 \<in> used_ids a' \<and> 1 \<notin> used_ids a''"
proof -
  let ?a = "fst demo_rewrite" and ?d = "snd demo_rewrite"
  have n: "1 < a_n demo_live" by (simp add: demo_live_def)
  have same: "bmap ?a = snd (bm_set_bit (bmap demo_live) 1)" "a_n ?a = 3" "length (refcounts ?a) = 3"
    "length (generations ?a) = 3" "length (live_bytes ?a) = 3" "length (ext_state ?a) = 3"
    "length (pin_count ?a) = 3"
    by code_simp+
  have wf: "alloc_wf ?a"
    using alloc_wf_mark [OF demo_live_wf n] same by (simp add: alloc_wf_def demo_live_def)
  have used: "1 \<in> used_ids ?a" unfolding same(1) used_mark [OF demo_live_wf n] by simp
  have d: "s_ref_dec ?d = [1]" "s_alloc ?d = []" "s_ref_inc ?d = []" "live_bytes ?a ! 1 = 8192"
    by code_simp+
  have "map_option (\<lambda>(ad, a'). apply_record a' (record_of 1 1 ad) \<noteq> None) (to_alloc_draft ?a ?d) = Some True"
    by code_simp
  then obtain ad a' a'' where t: "to_alloc_draft ?a ?d = Some (ad, a')"
    and r: "apply_record a' (record_of 1 1 ad) = Some a''" by auto
  from commit_replay_disagree [OF wf t used _ _ _ r] d t r show ?thesis by auto
qed

end
