(* ===== verification/Rust_Std.thy ===== *)
theory Rust_Std
  imports Prelude
begin

text \<open>
  The parts of the Rust standard library the modelled code calls beyond the integer encodings of
  theory \<open>Prelude\<close>: strings as their UTF-8 bytes with the validation \<^verbatim>\<open>String::from_utf8\<close> does,
  \<^verbatim>\<open>strip_prefix\<close> and \<^verbatim>\<open>position\<close> on slices, ASCII case, and saturating \<^verbatim>\<open>i64\<close> arithmetic (an \<^verbatim>\<open>i64\<close> is an
  \<open>int\<close> in its range).
\<close>

section \<open>Slices\<close>

text \<open>The bytes of an ASCII literal.\<close>

definition lit :: "string \<Rightarrow> bytes" where
  "lit s = map (\<lambda>c. of_nat (of_char c)) s"

definition strip_pre :: "'a list \<Rightarrow> 'a list \<Rightarrow> 'a list option" where
  "strip_pre p xs = (if prefix p xs then Some (drop (length p) xs) else None)"

lemma strip_pre_append [simp]: "strip_pre p (p @ xs) = Some xs"
  by (simp add: strip_pre_def)

lemma strip_pre_Some: "strip_pre p xs = Some ys \<longleftrightarrow> xs = p @ ys"
  by (auto simp: strip_pre_def prefix_def)

definition position :: "('a \<Rightarrow> bool) \<Rightarrow> 'a list \<Rightarrow> nat option" where
  "position P xs = (let n = length (takeWhile (\<lambda>x. \<not> P x) xs) in if n < length xs then Some n else None)"

lemma position_append:
  assumes "\<forall>x \<in> set xs. \<not> P x" "P y"
  shows "position P (xs @ y # ys) = Some (length xs)"
proof -
  have "takeWhile (\<lambda>x. \<not> P x) (xs @ y # ys) = xs" using assms by (simp add: takeWhile_tail)
  then show ?thesis by (simp add: position_def)
qed

lemma position_Some:
  assumes "position P xs = Some n"
  shows "n < length xs" "P (xs ! n)" "\<forall>x \<in> set (take n xs). \<not> P x"
proof -
  have n: "n = length (takeWhile (\<lambda>x. \<not> P x) xs)" "n < length xs"
    using assms by (auto simp: position_def Let_def split: if_splits)
  then show "n < length xs" "P (xs ! n)" using nth_length_takeWhile [of "\<lambda>x. \<not> P x" xs] by auto
  show "\<forall>x \<in> set (take n xs). \<not> P x"
    unfolding n(1) takeWhile_eq_take [symmetric] by (auto dest: set_takeWhileD)
qed

section \<open>UTF-8\<close>

definition cont_byte :: "u8 \<Rightarrow> bool" where
  "cont_byte b \<longleftrightarrow> 0x80 \<le> b \<and> b \<le> 0xBF"

text \<open>\<^verbatim>\<open>core::str::from_utf8\<close>: no overlong forms, no surrogates, nothing above U+10FFFF.\<close>

fun utf8_valid :: "bytes \<Rightarrow> bool" where
  "utf8_valid [] = True"
| "utf8_valid (b # r) =
     (if b < 0x80 then utf8_valid r
      else if 0xC2 \<le> b \<and> b \<le> 0xDF then
        (case r of c # r' \<Rightarrow> cont_byte c \<and> utf8_valid r' | _ \<Rightarrow> False)
      else if 0xE0 \<le> b \<and> b \<le> 0xEF then
        (case r of c # d # r' \<Rightarrow>
           cont_byte c \<and> (b = 0xE0 \<longrightarrow> 0xA0 \<le> c) \<and> (b = 0xED \<longrightarrow> c \<le> 0x9F) \<and>
           cont_byte d \<and> utf8_valid r'
         | _ \<Rightarrow> False)
      else if 0xF0 \<le> b \<and> b \<le> 0xF4 then
        (case r of c # d # e # r' \<Rightarrow>
           cont_byte c \<and> (b = 0xF0 \<longrightarrow> 0x90 \<le> c) \<and> (b = 0xF4 \<longrightarrow> c \<le> 0x8F) \<and>
           cont_byte d \<and> cont_byte e \<and> utf8_valid r'
         | _ \<Rightarrow> False)
      else False)"

text \<open>\<^verbatim>\<open>String::from_utf8(..).map_err(|_| e)\<close>\<close>

definition from_utf8 :: "'e \<Rightarrow> bytes \<Rightarrow> 'e + bytes" where
  "from_utf8 e bs = (if utf8_valid bs then Inr bs else Inl e)"

lemma from_utf8_Inr [simp]: "from_utf8 e bs = Inr s \<longleftrightarrow> utf8_valid bs \<and> s = bs"
  by (auto simp: from_utf8_def)

lemma utf8_ascii: "\<forall>b \<in> set bs. b < 0x80 \<Longrightarrow> utf8_valid bs"
  by (induction bs) auto

text \<open>No valid string contains the byte FF.\<close>

lemma utf8_no_ff: "utf8_valid bs \<Longrightarrow> 0xFF \<notin> set bs"
proof (induction bs rule: utf8_valid.induct)
  case 1
  then show ?case by simp
next
  case (2 b r)
  have c: "cont_byte x \<Longrightarrow> x \<noteq> 0xFF" for x by (auto simp: cont_byte_def)
  from 2 show ?case
    by (auto split: if_splits list.splits dest: c)
qed

section \<open>ASCII\<close>

definition is_ascii_upper :: "u8 \<Rightarrow> bool" where
  "is_ascii_upper b \<longleftrightarrow> 65 \<le> b \<and> b \<le> 90"

definition is_ascii_lower :: "u8 \<Rightarrow> bool" where
  "is_ascii_lower b \<longleftrightarrow> 97 \<le> b \<and> b \<le> 122"

definition is_ascii_digit :: "u8 \<Rightarrow> bool" where
  "is_ascii_digit b \<longleftrightarrow> 48 \<le> b \<and> b \<le> 57"

definition is_ascii_alnum :: "u8 \<Rightarrow> bool" where
  "is_ascii_alnum b \<longleftrightarrow> is_ascii_upper b \<or> is_ascii_lower b \<or> is_ascii_digit b"

definition to_lower :: "u8 \<Rightarrow> u8" where
  "to_lower b = (if is_ascii_upper b then b + 32 else b)"

definition ascii_lowercase :: "bytes \<Rightarrow> bytes" where
  "ascii_lowercase = map to_lower"

definition eq_ignore_case :: "bytes \<Rightarrow> bytes \<Rightarrow> bool" where
  "eq_ignore_case a b \<longleftrightarrow> ascii_lowercase a = ascii_lowercase b"

section \<open>Signed 64-bit arithmetic\<close>

definition i64_max :: int where
  "i64_max = 2 ^ 63 - 1"

definition i64_min :: int where
  "i64_min = - (2 ^ 63)"

definition i64_clamp :: "int \<Rightarrow> int" where
  "i64_clamp x = max i64_min (min i64_max x)"

definition i64_wrap :: "int \<Rightarrow> int" where
  "i64_wrap x = (x + 2 ^ 63) mod 2 ^ 64 - 2 ^ 63"

definition in_i64 :: "int \<Rightarrow> bool" where
  "in_i64 x \<longleftrightarrow> i64_min \<le> x \<and> x \<le> i64_max"

definition sat_add_i64 :: "int \<Rightarrow> int \<Rightarrow> int" where
  "sat_add_i64 a b = i64_clamp (a + b)"

definition sat_sub_i64 :: "int \<Rightarrow> int \<Rightarrow> int" where
  "sat_sub_i64 a b = i64_clamp (a - b)"

text \<open>The division of signed integers truncates towards zero.\<close>

definition quot_i64 :: "int \<Rightarrow> int \<Rightarrow> int" where
  "quot_i64 a b = (if (0 \<le> a) = (0 < b) then \<bar>a\<bar> div \<bar>b\<bar> else - (\<bar>a\<bar> div \<bar>b\<bar>))"

lemma quot_i64_nonneg: "0 \<le> a \<Longrightarrow> 0 < b \<Longrightarrow> quot_i64 a b = a div b"
  by (simp add: quot_i64_def)

lemma quot_i64_sign: "0 < b \<Longrightarrow> a \<le> 0 \<Longrightarrow> quot_i64 a b \<le> 0"
  by (cases "a = 0") (simp_all add: quot_i64_def pos_imp_zdiv_nonneg_iff)

end
