(* ===== verification/Gtid.thy ===== *)
theory Gtid
  imports Prelude "HOL-Library.Product_Lexorder"
begin

text \<open>
  Transaction identifiers and sets of them, \<^verbatim>\<open>crates/fs3-core/src/gtid.rs\<close>. A set maps an epoch to a
  list of closed intervals; the B-tree map is an association list in key order, because
  \<^verbatim>\<open>is_subset\<close> walks it in that order. Epochs and sequence numbers are natural numbers below
  \<^verbatim>\<open>2^64\<close>, with the saturation of \<^verbatim>\<open>saturating_add\<close> written out. \<^verbatim>\<open>partition_point\<close> is the length of the
  longest prefix that satisfies the predicate, which is what the library computes on the ordered
  interval lists of a well-formed set. \<^verbatim>\<open>encode\<close> and \<^verbatim>\<open>decode\<close> go through the serialiser \<^verbatim>\<open>postcard\<close>,
  a parameter here.
\<close>

section \<open>Model\<close>

record gtid =
  g_epoch :: nat
  g_seq :: nat

definition u64_max :: nat where
  "u64_max = 2 ^ 64 - 1"

definition sat_add1 :: "nat \<Rightarrow> nat" where
  "sat_add1 e = (if u64_max \<le> e then u64_max else e + 1)"

definition gtid_less :: "gtid \<Rightarrow> gtid \<Rightarrow> bool" where
  "gtid_less g h \<longleftrightarrow> g_epoch g < g_epoch h \<or> g_epoch g = g_epoch h \<and> g_seq g < g_seq h"

type_synonym ivs = "(nat \<times> nat) list"

record gtid_set =
  ranges :: "(nat \<times> ivs) list"

definition gs_new :: gtid_set where
  "gs_new = \<lparr>ranges = []\<rparr>"

definition gs_is_empty :: "gtid_set \<Rightarrow> bool" where
  "gs_is_empty s \<longleftrightarrow> list_all (\<lambda>(ep, v). v = []) (ranges s)"

fun bt_entry :: "nat \<Rightarrow> 'v \<Rightarrow> ('v \<Rightarrow> 'v) \<Rightarrow> (nat \<times> 'v) list \<Rightarrow> (nat \<times> 'v) list" where
  "bt_entry k d f [] = [(k, f d)]"
| "bt_entry k d f ((k', v) # r) =
     (if k < k' then (k, f d) # (k', v) # r
      else if k = k' then (k, f v) # r else (k', v) # bt_entry k d f r)"

fun absorb :: "nat \<Rightarrow> nat \<Rightarrow> ivs \<Rightarrow> nat \<times> nat \<times> ivs" where
  "absorb s e [] = (s, e, [])"
| "absorb s e ((a, b) # r) =
     (if a \<le> sat_add1 e then absorb (min s a) (max e b) r else (s, e, (a, b) # r))"

definition splice_range :: "nat \<Rightarrow> nat \<Rightarrow> ivs \<Rightarrow> ivs" where
  "splice_range start endd v =
     (let before = takeWhile (\<lambda>(_, e). sat_add1 e < start) v;
          (s, e, rest) = absorb start endd (dropWhile (\<lambda>(_, e). sat_add1 e < start) v)
      in before @ (s, e) # rest)"

text \<open>\<^verbatim>\<open>insert_range\<close> asserts its arguments; \<open>None\<close> is the failed assertion.\<close>

definition insert_range :: "gtid_set \<Rightarrow> nat \<Rightarrow> nat \<Rightarrow> nat \<Rightarrow> gtid_set option" where
  "insert_range g ep start endd =
     (if 1 \<le> start \<and> start \<le> endd
      then Some (g\<lparr>ranges := bt_entry ep [] (splice_range start endd) (ranges g)\<rparr>) else None)"

definition gs_insert :: "gtid_set \<Rightarrow> gtid \<Rightarrow> gtid_set option" where
  "gs_insert s g = insert_range s (g_epoch g) (g_seq g) (g_seq g)"

definition partition_point :: "('a \<Rightarrow> bool) \<Rightarrow> 'a list \<Rightarrow> nat" where
  "partition_point P xs = length (takeWhile P xs)"

definition gs_contains :: "gtid_set \<Rightarrow> gtid \<Rightarrow> bool" where
  "gs_contains s g =
     (case map_of (ranges s) (g_epoch g) of
        None \<Rightarrow> False
      | Some v \<Rightarrow> let idx = partition_point (\<lambda>(_, e). e < g_seq g) v in
          idx < length v \<and> fst (v ! idx) \<le> g_seq g)"

definition covered :: "ivs \<Rightarrow> nat \<times> nat \<Rightarrow> bool" where
  "covered oivs = (\<lambda>(s, e).
     let idx = partition_point (\<lambda>(_, oe). oe < s) oivs in
     \<not> (length oivs \<le> idx \<or> s < fst (oivs ! idx) \<or> snd (oivs ! idx) < e))"

fun subset_loop :: "(nat \<times> ivs) list \<Rightarrow> (nat \<times> ivs) list \<Rightarrow> bool" where
  "subset_loop [] other = True"
| "subset_loop ((ep, v) # r) other =
     (case map_of other ep of
        None \<Rightarrow> v = []
      | Some oivs \<Rightarrow> list_all (covered oivs) v \<and> subset_loop r other)"

definition gs_is_subset :: "gtid_set \<Rightarrow> gtid_set \<Rightarrow> bool" where
  "gs_is_subset s t = subset_loop (ranges s) (ranges t)"

definition gs_ranges :: "gtid_set \<Rightarrow> (nat \<times> nat \<times> nat) list" where
  "gs_ranges s = concat (map (\<lambda>(ep, v). map (\<lambda>(a, b). (ep, a, b)) v) (ranges s))"

definition gs_encode :: "(gtid_set \<Rightarrow> bytes option) \<Rightarrow> gtid_set \<Rightarrow> bytes result" where
  "gs_encode to_allocvec s = (case to_allocvec s of Some b \<Rightarrow> Inr b | None \<Rightarrow> Inl Meta)"

fun check_ivs :: "(nat \<times> nat) option \<Rightarrow> ivs \<Rightarrow> unit result" where
  "check_ivs prev [] = Inr ()"
| "check_ivs prev ((s, e) # r) =
     (if s = 0 \<or> e < s then Inl Corrupt
      else case prev of
          Some (ps, pe) \<Rightarrow> if s \<le> sat_add1 pe then Inl Corrupt else check_ivs (Some (s, e)) r
        | None \<Rightarrow> check_ivs (Some (s, e)) r)"

fun check_ranges :: "(nat \<times> ivs) list \<Rightarrow> unit result" where
  "check_ranges [] = Inr ()"
| "check_ranges ((ep, v) # r) = bind_res (check_ivs None v) (\<lambda>_. check_ranges r)"

definition gs_decode :: "(bytes \<Rightarrow> gtid_set option) \<Rightarrow> bytes \<Rightarrow> gtid_set result" where
  "gs_decode from_bytes buf =
     (case from_bytes buf of
        None \<Rightarrow> Inl Corrupt
      | Some s \<Rightarrow> bind_res (check_ranges (ranges s)) (\<lambda>_. Inr s))"

section \<open>Meaning and well-formedness\<close>

definition ivs_set :: "ivs \<Rightarrow> nat set" where
  "ivs_set v = (\<Union>(s, e) \<in> set v. {s..e})"

definition gset :: "gtid_set \<Rightarrow> (nat \<times> nat) set" where
  "gset g = {(ep, n). \<exists>v. map_of (ranges g) ep = Some v \<and> n \<in> ivs_set v}"

fun ivs_wf :: "ivs \<Rightarrow> bool" where
  "ivs_wf [] \<longleftrightarrow> True"
| "ivs_wf ((s, e) # r) \<longleftrightarrow> 1 \<le> s \<and> s \<le> e \<and> e \<le> u64_max \<and>
     (case r of [] \<Rightarrow> True | (s', e') # _ \<Rightarrow> e + 1 < s') \<and> ivs_wf r"

text \<open>Epochs ascend, intervals are ordered and never touch, and no epoch has an empty list.\<close>

definition gs_wf :: "gtid_set \<Rightarrow> bool" where
  "gs_wf g \<longleftrightarrow> sorted_wrt (<) (map fst (ranges g)) \<and>
     list_all (\<lambda>(ep, v). v \<noteq> [] \<and> ivs_wf v) (ranges g)"

lemma ivs_set_simps [simp]: "ivs_set [] = {}" "ivs_set ((s, e) # r) = {s..e} \<union> ivs_set r"
  "ivs_set (v @ w) = ivs_set v \<union> ivs_set w"
  by (auto simp: ivs_set_def)

text \<open>In a well-formed list every later interval starts beyond the end of an earlier one, with a gap.\<close>

lemma ivs_wf_gap:
  "ivs_wf ((s, e) # r) \<Longrightarrow> (s', e') \<in> set r \<Longrightarrow> e + 1 < s' \<and> s' \<le> e'"
proof (induction r arbitrary: s e)
  case Nil
  then show ?case by simp
next
  case (Cons x r)
  obtain a b where x: "x = (a, b)" by (cases x)
  with Cons.prems have ab: "e + 1 < a" "a \<le> b" "ivs_wf ((a, b) # r)" by auto
  show ?case
  proof (cases "(s', e') = (a, b)")
    case True
    with ab show ?thesis by simp
  next
    case False
    with Cons.prems(2) x have "(s', e') \<in> set r" by auto
    from Cons.IH [OF ab(3) this] ab show ?thesis by simp
  qed
qed

lemma ivs_wf_iff:
  "ivs_wf v \<longleftrightarrow> (\<forall>(s, e) \<in> set v. 1 \<le> s \<and> s \<le> e \<and> e \<le> u64_max) \<and>
     sorted_wrt (\<lambda>x y. snd x + 1 < fst y) v"
proof (induction v)
  case Nil
  then show ?case by simp
next
  case (Cons x r)
  obtain s e where x: "x = (s, e)" by (cases x)
  show ?case
  proof
    assume wf: "ivs_wf (x # r)"
    have "e + 1 < fst y" if "y \<in> set r" for y
      using ivs_wf_gap [of s e r "fst y" "snd y"] wf x that by simp
    with wf x Cons show "(\<forall>(s, e) \<in> set (x # r). 1 \<le> s \<and> s \<le> e \<and> e \<le> u64_max) \<and>
        sorted_wrt (\<lambda>x y. snd x + 1 < fst y) (x # r)" by auto
  next
    assume "(\<forall>(s, e) \<in> set (x # r). 1 \<le> s \<and> s \<le> e \<and> e \<le> u64_max) \<and>
        sorted_wrt (\<lambda>x y. snd x + 1 < fst y) (x # r)"
    with x Cons show "ivs_wf (x # r)" by (cases r) auto
  qed
qed

lemma gs_wf_distinct: "gs_wf g \<Longrightarrow> distinct (map fst (ranges g))"
  by (simp add: gs_wf_def strict_sorted_iff)

lemma gs_wf_lookup: "gs_wf g \<Longrightarrow> map_of (ranges g) ep = Some v \<Longrightarrow> v \<noteq> [] \<and> ivs_wf v"
  by (auto simp: gs_wf_def list_all_iff dest!: map_of_SomeD)

section \<open>Membership\<close>

text \<open>The first interval that does not end before \<open>n\<close> decides whether \<open>n\<close> is covered.\<close>

lemma first_not_before:
  assumes "ivs_wf v"
  shows "n \<in> ivs_set v \<longleftrightarrow>
    (let idx = partition_point (\<lambda>(_, e). e < n) v in idx < length v \<and> fst (v ! idx) \<le> n)"
  using assms
proof (induction v)
  case Nil
  then show ?case by (simp add: partition_point_def)
next
  case (Cons x r)
  obtain s e where x: "x = (s, e)" by (cases x)
  show ?case
  proof (cases "e < n")
    case True
    with Cons x show ?thesis by (simp add: partition_point_def Let_def)
  next
    case False
    have "n < a" if "(a, b) \<in> set r" for a b
      using ivs_wf_gap [OF Cons.prems [unfolded x] that] False by simp
    then have "n \<notin> ivs_set r" unfolding ivs_set_def by (fastforce simp: not_le [symmetric])
    with False x show ?thesis by (auto simp: partition_point_def)
  qed
qed

text \<open>
  Membership: on a well-formed set the two-step search of \<^verbatim>\<open>contains\<close> decides exactly whether the
  transaction is in the set.
\<close>

theorem gs_contains_iff:
  assumes "gs_wf s"
  shows "gs_contains s g \<longleftrightarrow> (g_epoch g, g_seq g) \<in> gset s"
proof (cases "map_of (ranges s) (g_epoch g)")
  case None
  then show ?thesis by (simp add: gs_contains_def gset_def)
next
  case (Some v)
  with gs_wf_lookup [OF assms] first_not_before [of v "g_seq g"] show ?thesis
    by (simp add: gs_contains_def gset_def)
qed

section \<open>Insertion\<close>

lemma absorb_spec:
  assumes "absorb s e v = (s', e', r)" "ivs_wf v" "1 \<le> s" "s \<le> e" "e \<le> u64_max"
    "\<forall>(a, b) \<in> set v. s \<le> b + 1"
  shows "ivs_set v \<union> {s..e} = {s'..e'} \<union> ivs_set r \<and> ivs_wf ((s', e') # r) \<and> s' \<le> s \<and>
    (s' = s \<or> (\<exists>x \<in> set v. fst x = s'))"
  using assms
proof (induction s e v rule: absorb.induct)
  case (1 s e)
  then show ?case by simp
next
  case (2 s e a b r0)
  have ab: "1 \<le> a" "a \<le> b" "b \<le> u64_max" "ivs_wf r0" and near: "s \<le> b + 1" using 2(3,7) by simp_all
  show ?case
  proof (cases "a \<le> sat_add1 e")
    case True
    then have le: "a \<le> e + 1" by (auto simp: sat_add1_def split: if_splits)
    have run: "absorb (min s a) (max e b) r0 = (s', e', r)" using 2(2) True by simp
    have "\<forall>(a', b') \<in> set r0. min s a \<le> b' + 1" using 2(7) by auto
    then have ih: "ivs_set r0 \<union> {min s a..max e b} = {s'..e'} \<union> ivs_set r" "ivs_wf ((s', e') # r)"
        "s' \<le> min s a" "s' = min s a \<or> (\<exists>x \<in> set r0. fst x = s')"
      using 2(1) [OF True run ab(4)] 2(4,5,6) ab by simp_all
    have "{min s a..max e b} = {s..e} \<union> {a..b}" using le near 2(5) ab(2) by auto
    moreover have "s' = s \<or> (\<exists>x \<in> set ((a, b) # r0). fst x = s')" using ih(4) by (auto simp: min_def)
    ultimately show ?thesis using ih(1-3) by auto
  next
    case False
    then have gap: "e + 1 < a" using ab 2(6) by (auto simp: sat_add1_def split: if_splits)
    have "s' = s" "e' = e" "r = (a, b) # r0" using 2(2) False by simp_all
    with 2 gap show ?thesis by auto
  qed
qed

lemma dropWhile_late:
  assumes "ivs_wf v" "(a, b) \<in> set (dropWhile (\<lambda>(_, e). sat_add1 e < start) v)"
  shows "start \<le> b + 1"
  using assms
proof (induction v)
  case Nil
  then show ?case by simp
next
  case (Cons x r)
  obtain s e where x: "x = (s, e)" by (cases x)
  have bm: "b \<le> u64_max \<Longrightarrow> \<not> sat_add1 b < start \<Longrightarrow> start \<le> b + 1"
    by (auto simp: sat_add1_def split: if_splits)
  show ?case
  proof (cases "sat_add1 e < start")
    case True
    with Cons x show ?thesis by simp
  next
    case False
    then have e: "start \<le> e + 1" by (auto simp: sat_add1_def split: if_splits)
    from False Cons.prems(2) x have "(a, b) = (s, e) \<or> (a, b) \<in> set r" by simp
    then show ?thesis
    proof
      assume "(a, b) \<in> set r"
      from ivs_wf_gap [OF Cons.prems(1) [unfolded x] this] e show ?thesis by simp
    qed (use e in simp)
  qed
qed

lemma ivs_wf_append:
  "ivs_wf (v @ w) \<longleftrightarrow> ivs_wf v \<and> ivs_wf w \<and> (\<forall>x \<in> set v. \<forall>y \<in> set w. snd x + 1 < fst y)"
  by (auto simp: ivs_wf_iff sorted_wrt_append)

lemma splice_range_spec:
  assumes "ivs_wf v" "1 \<le> start" "start \<le> endd" "endd \<le> u64_max"
  shows "ivs_wf (splice_range start endd v) \<and>
    ivs_set (splice_range start endd v) = ivs_set v \<union> {start..endd} \<and> splice_range start endd v \<noteq> []"
proof -
  let ?P = "\<lambda>(_, e). sat_add1 e < start"
  let ?pre = "takeWhile ?P v" and ?post = "dropWhile ?P v"
  obtain s e r where a: "absorb start endd ?post = (s, e, r)" by (metis prod_cases3)
  have wf: "ivs_wf ?pre" "ivs_wf ?post" "\<forall>x \<in> set ?pre. \<forall>y \<in> set ?post. snd x + 1 < fst y"
    using assms(1) ivs_wf_append [of ?pre ?post] by simp_all
  have sp: "ivs_set ?post \<union> {start..endd} = {s..e} \<union> ivs_set r" "ivs_wf ((s, e) # r)"
      "s = start \<or> (\<exists>x \<in> set ?post. fst x = s)"
    using absorb_spec [OF a wf(2) assms(2-4)] dropWhile_late [OF assms(1)] by blast+
  have "snd x + 1 < fst y" if x: "x \<in> set ?pre" and y: "y \<in> set ((s, e) # r)" for x y
  proof -
    have "sat_add1 (snd x) < start" using set_takeWhileD [OF x] by (simp add: split_beta)
    then have "snd x + 1 < start" using assms(3,4) by (auto simp: sat_add1_def split: if_splits)
    with sp(3) wf(3) x have "snd x + 1 < s" by auto
    moreover have "s \<le> fst y" using y ivs_wf_gap [OF sp(2), of "fst y" "snd y"] sp(2) by auto
    ultimately show ?thesis by simp
  qed
  then have "ivs_wf (?pre @ (s, e) # r)" using wf(1) sp(2) by (simp add: ivs_wf_append del: ivs_wf.simps)
  moreover have "ivs_set v = ivs_set ?pre \<union> ivs_set ?post"
    using ivs_set_simps(3) [of ?pre ?post] by simp
  ultimately show ?thesis using a sp(1) by (auto simp: splice_range_def)
qed

lemma bt_entry_lookup:
  "sorted_wrt (<) (map fst m) \<Longrightarrow> map_of (bt_entry k d f m) =
     (map_of m)(k := Some (f (case map_of m k of None \<Rightarrow> d | Some v \<Rightarrow> v)))"
proof (induction m)
  case Nil
  then show ?case by simp
next
  case (Cons x m)
  obtain k' v where x: "x = (k', v)" by (cases x)
  have "k < k' \<Longrightarrow> map_of m k = None"
    using Cons.prems x by (force simp: map_of_eq_None_iff)
  with Cons x show ?case by (auto simp: fun_eq_iff)
qed

lemma bt_entry_keys: "set (map fst (bt_entry k d f m)) = insert k (set (map fst m))"
  by (induction k d f m rule: bt_entry.induct) auto

lemma bt_entry_sorted: "sorted_wrt (<) (map fst m) \<Longrightarrow> sorted_wrt (<) (map fst (bt_entry k d f m))"
proof (induction k d f m rule: bt_entry.induct)
  case (1 k d f)
  then show ?case by simp
next
  case (2 k d f k' v r)
  have "\<forall>x \<in> set (map fst (bt_entry k d f r)). x = k \<or> k' < x"
    using 2(2) by (auto simp: bt_entry_keys simp del: set_map)
  with 2 show ?case by (auto simp del: set_map)
qed

lemma gs_wf_alt:
  "gs_wf g \<longleftrightarrow> sorted_wrt (<) (map fst (ranges g)) \<and>
     (\<forall>ep v. map_of (ranges g) ep = Some v \<longrightarrow> v \<noteq> [] \<and> ivs_wf v)"
proof
  assume g: "gs_wf g"
  then have "sorted_wrt (<) (map fst (ranges g))" by (simp add: gs_wf_def)
  with gs_wf_lookup [OF g] show "sorted_wrt (<) (map fst (ranges g)) \<and>
     (\<forall>ep v. map_of (ranges g) ep = Some v \<longrightarrow> v \<noteq> [] \<and> ivs_wf v)" by blast
next
  assume r: "sorted_wrt (<) (map fst (ranges g)) \<and>
     (\<forall>ep v. map_of (ranges g) ep = Some v \<longrightarrow> v \<noteq> [] \<and> ivs_wf v)"
  then have "distinct (map fst (ranges g))" by (simp add: strict_sorted_iff)
  with r show "gs_wf g" by (auto simp: gs_wf_def list_all_iff)
qed

text \<open>
  Insertion: an interval (in particular a single transaction) is added to the set and nothing else
  changes; overlapping and adjacent intervals are merged so that the representation stays well
  formed.
\<close>

theorem insert_range_spec:
  assumes "gs_wf g" "1 \<le> start" "start \<le> endd" "endd \<le> u64_max"
  shows "\<exists>g'. insert_range g ep start endd = Some g' \<and> gs_wf g' \<and>
    gset g' = gset g \<union> {ep} \<times> {start..endd}"
proof -
  define g' where "g' = g\<lparr>ranges := bt_entry ep [] (splice_range start endd) (ranges g)\<rparr>"
  have srt: "sorted_wrt (<) (map fst (ranges g))" using assms(1) by (simp add: gs_wf_def)
  let ?v = "case map_of (ranges g) ep of None \<Rightarrow> [] | Some v \<Rightarrow> v"
  have "ivs_wf ?v" using gs_wf_lookup [OF assms(1)] by (auto split: option.split)
  note sp = splice_range_spec [OF this assms(2-4)]
  have look: "map_of (ranges g') = (map_of (ranges g))(ep \<mapsto> splice_range start endd ?v)"
    using bt_entry_lookup [OF srt] by (simp add: g'_def)
  have "sorted_wrt (<) (map fst (ranges g'))" using bt_entry_sorted [OF srt] by (simp add: g'_def)
  then have "gs_wf g'" using sp gs_wf_lookup [OF assms(1)] look unfolding gs_wf_alt by auto
  moreover have "gset g' = gset g \<union> {ep} \<times> {start..endd}"
    using sp unfolding gset_def look by (auto split: option.splits if_splits)
  moreover have "insert_range g ep start endd = Some g'" using assms(2,3) by (simp add: insert_range_def g'_def)
  ultimately show ?thesis by blast
qed


section \<open>Inclusion\<close>

lemma ivs_set_above:
  assumes "ivs_wf ((a, b) # r)" "n \<in> ivs_set r"
  shows "b + 1 < n"
proof -
  from assms(2) obtain s e where se: "(s, e) \<in> set r" "s \<le> n" by (auto simp: ivs_set_def)
  from ivs_wf_gap [OF assms(1) se(1)] se(2) show ?thesis by simp
qed

lemma covered_iff:
  assumes "ivs_wf oivs" "s \<le> e"
  shows "covered oivs (s, e) \<longleftrightarrow> {s..e} \<subseteq> ivs_set oivs"
  using assms(1)
proof (induction oivs)
  case Nil
  then show ?case using assms(2) by (auto simp: covered_def partition_point_def)
next
  case (Cons x r)
  obtain a b where x: "x = (a, b)" by (cases x)
  note above = ivs_set_above [OF Cons.prems [unfolded x]]
  show ?case
  proof (cases "b < s")
    case True
    then have "covered (x # r) (s, e) = covered r (s, e)"
      using x by (simp add: covered_def partition_point_def Let_def)
    moreover have "({s..e} \<subseteq> ivs_set (x # r)) = ({s..e} \<subseteq> ivs_set r)" using True x by auto
    ultimately show ?thesis using Cons x by simp
  next
    case False
    have "covered (x # r) (s, e) \<longleftrightarrow> a \<le> s \<and> e \<le> b"
      using False x by (auto simp: covered_def partition_point_def)
    moreover have "{s..e} \<subseteq> ivs_set (x # r) \<longleftrightarrow> a \<le> s \<and> e \<le> b"
    proof
      assume sub: "{s..e} \<subseteq> ivs_set (x # r)"
      then have "s \<in> {a..b} \<union> ivs_set r" using assms(2) x by auto
      then have "a \<le> s" using above [of s] False by auto
      moreover have "e \<le> b"
      proof (rule ccontr)
        assume "\<not> e \<le> b"
        then have "b + 1 \<in> {s..e}" using False by simp
        then have "b + 1 \<in> {a..b} \<union> ivs_set r" using sub x by (metis ivs_set_simps(2) subsetD)
        then show False using above [of "b + 1"] by auto
      qed
      ultimately show "a \<le> s \<and> e \<le> b" ..
    qed (use x in auto)
    ultimately show ?thesis by simp
  qed
qed

lemma subset_loop_iff:
  assumes "\<forall>(ep, v) \<in> set rs. v \<noteq> []"
  shows "subset_loop rs other \<longleftrightarrow>
    (\<forall>(ep, v) \<in> set rs. \<exists>oivs. map_of other ep = Some oivs \<and> list_all (covered oivs) v)"
  using assms by (induction rs other rule: subset_loop.induct) (auto split: option.splits)

lemma list_covered_iff:
  assumes "ivs_wf oivs" "ivs_wf v"
  shows "list_all (covered oivs) v \<longleftrightarrow> ivs_set v \<subseteq> ivs_set oivs"
proof -
  have le: "s \<le> e" if "(s, e) \<in> set v" for s e using assms(2) that by (auto simp: ivs_wf_iff)
  have "list_all (covered oivs) v \<longleftrightarrow> (\<forall>(s, e) \<in> set v. {s..e} \<subseteq> ivs_set oivs)"
    unfolding list_all_iff using covered_iff [OF assms(1) le]
    by (intro ball_cong refl) (auto simp only: split_paired_all prod.case)
  also have "\<dots> \<longleftrightarrow> ivs_set v \<subseteq> ivs_set oivs" unfolding ivs_set_def [of v] by blast
  finally show ?thesis .
qed

text \<open>
  Inclusion: on well-formed sets the interval-wise comparison of \<^verbatim>\<open>is_subset\<close>, on which the replication
  handshake decides divergence, is set inclusion.
\<close>

theorem gs_is_subset_iff:
  assumes "gs_wf s" "gs_wf t"
  shows "gs_is_subset s t \<longleftrightarrow> gset s \<subseteq> gset t"
proof -
  have ne: "\<forall>(ep, v) \<in> set (ranges s). v \<noteq> []" using assms(1) by (auto simp: gs_wf_def list_all_iff)
  have dist: "distinct (map fst (ranges s))" by (rule gs_wf_distinct [OF assms(1)])
  have "gs_is_subset s t \<longleftrightarrow> (\<forall>ep v. map_of (ranges s) ep = Some v \<longrightarrow>
      (\<exists>oivs. map_of (ranges t) ep = Some oivs \<and> list_all (covered oivs) v))"
    unfolding gs_is_subset_def subset_loop_iff [OF ne] using dist by (auto dest: map_of_SomeD)
  also have "\<dots> \<longleftrightarrow> (\<forall>ep v. map_of (ranges s) ep = Some v \<longrightarrow>
      (\<exists>oivs. map_of (ranges t) ep = Some oivs \<and> ivs_set v \<subseteq> ivs_set oivs))"
    using list_covered_iff gs_wf_lookup [OF assms(1)] gs_wf_lookup [OF assms(2)] by metis
  also have "\<dots> \<longleftrightarrow> gset s \<subseteq> gset t"
  proof
    assume l: "\<forall>ep v. map_of (ranges s) ep = Some v \<longrightarrow>
      (\<exists>oivs. map_of (ranges t) ep = Some oivs \<and> ivs_set v \<subseteq> ivs_set oivs)"
    show "gset s \<subseteq> gset t"
    proof
      fix x assume "x \<in> gset s"
      then obtain v where "map_of (ranges s) (fst x) = Some v" "snd x \<in> ivs_set v"
        by (auto simp: gset_def)
      with l show "x \<in> gset t" unfolding gset_def by (cases x) fastforce
    qed
  next
    assume sub: "gset s \<subseteq> gset t"
    show "\<forall>ep v. map_of (ranges s) ep = Some v \<longrightarrow>
      (\<exists>oivs. map_of (ranges t) ep = Some oivs \<and> ivs_set v \<subseteq> ivs_set oivs)"
    proof (intro allI impI)
      fix ep v assume v: "map_of (ranges s) ep = Some v"
      obtain a b r where "v = (a, b) # r" "a \<le> b"
        using gs_wf_lookup [OF assms(1) v] by (cases v) auto
      then have "a \<in> ivs_set v" by simp
      moreover have in_t: "\<exists>oivs. map_of (ranges t) ep = Some oivs \<and> n \<in> ivs_set oivs"
        if "n \<in> ivs_set v" for n
        using sub v that by (auto simp: gset_def)
      ultimately obtain oivs where o: "map_of (ranges t) ep = Some oivs" by blast
      with in_t have "ivs_set v \<subseteq> ivs_set oivs" by auto
      with o show "\<exists>oivs. map_of (ranges t) ep = Some oivs \<and> ivs_set v \<subseteq> ivs_set oivs" by blast
    qed
  qed
  finally show ?thesis .
qed

section \<open>Decoding\<close>

lemma check_ivs_wf:
  "check_ivs prev v = Inr () \<Longrightarrow> (\<forall>(s, e) \<in> set v. e \<le> u64_max) \<Longrightarrow>
     ivs_wf v \<and> (case (prev, v) of (Some (ps, pe), (s, e) # _) \<Rightarrow> sat_add1 pe < s | _ \<Rightarrow> True)"
proof (induction prev v rule: check_ivs.induct)
  case (1 prev)
  then show ?case by (simp split: option.split)
next
  case (2 prev s e r)
  have se: "1 \<le> s" "s \<le> e" "e \<le> u64_max" using 2(3,4) by (auto split: if_splits)
  have run: "check_ivs (Some (s, e)) r = Inr ()"
    and pv: "case prev of Some (ps, pe) \<Rightarrow> sat_add1 pe < s | None \<Rightarrow> True"
    using 2(3) by (auto split: if_splits option.splits prod.splits)
  have ih: "ivs_wf r \<and> (case r of (s', e') # _ \<Rightarrow> sat_add1 e < s' | [] \<Rightarrow> True)"
    using 2(1,2) run 2(3,4) by (cases prev; cases r) (auto split: if_splits prod.splits)
  have "case r of [] \<Rightarrow> True | (s', e') # _ \<Rightarrow> e + 1 < s'"
  proof (cases r)
    case (Cons y r')
    obtain s' e' where y: "y = (s', e')" by (cases y)
    have "sat_add1 e < s'" "s' \<le> e'" "e' \<le> u64_max" using ih 2(4) Cons y by auto
    then show ?thesis using Cons y by (auto simp: sat_add1_def split: if_splits)
  qed simp
  with se ih pv show ?case by (auto split: option.splits)
qed

lemma check_ranges_wf:
  "check_ranges rs = Inr () \<longleftrightarrow> (\<forall>(ep, v) \<in> set rs. check_ivs None v = Inr ())"
  by (induction rs) (auto simp: bind_res_eq_Inr)

text \<open>
  What \<^verbatim>\<open>decode\<close> accepts is well formed, apart from two things it does not check: that no epoch comes
  with an empty list, and (left to the B-tree) that the epochs ascend.
\<close>

theorem gs_decode_wf:
  assumes "gs_decode from_bytes buf = Inr s" "\<forall>(ep, v) \<in> set (ranges s). \<forall>(a, b) \<in> set v. b \<le> u64_max"
    and "sorted_wrt (<) (map fst (ranges s))" "\<forall>(ep, v) \<in> set (ranges s). v \<noteq> []"
  shows "gs_wf s \<and> from_bytes buf = Some s"
proof -
  have c: "check_ranges (ranges s) = Inr ()" and f: "from_bytes buf = Some s"
    using assms(1) by (auto simp: gs_decode_def bind_res_eq_Inr split: option.splits)
  have "ivs_wf v" if "(ep, v) \<in> set (ranges s)" for ep v
    using c [unfolded check_ranges_wf] that assms(2) check_ivs_wf [of None v] by fastforce
  with assms(3,4) f show ?thesis by (auto simp: gs_wf_def list_all_iff)
qed

text \<open>
  The early return: a set that \<^verbatim>\<open>decode\<close> accepts, whose first epoch has an empty list that the other
  set lacks, counts as a subset whatever its later epochs contain. A diverged node would pass the
  handshake.
\<close>

theorem is_subset_skips_epochs:
  assumes "map_of (ranges t) ep = None" "check_ranges rest = Inr ()"
  shows "gs_is_subset \<lparr>ranges = (ep, []) # rest\<rparr> t \<and> check_ranges ((ep, []) # rest) = Inr ()"
  using assms by (simp add: gs_is_subset_def)

section \<open>Witnesses\<close>

definition demo_gs :: gtid_set where
  "demo_gs = \<lparr>ranges = [(1, [(1, 5), (9, 9)]), (2, [(1, 3)])]\<rparr>"

lemma demo_gs_wf: "gs_wf demo_gs"
  by (simp add: gs_wf_def demo_gs_def u64_max_def)

theorem gs_contains_iff_witness: "(1, 4) \<in> gset demo_gs \<and> (1, 7) \<notin> gset demo_gs"
proof -
  have "gs_contains demo_gs \<lparr>g_epoch = 1, g_seq = 4\<rparr>" "\<not> gs_contains demo_gs \<lparr>g_epoch = 1, g_seq = 7\<rparr>"
    by code_simp+
  then show ?thesis
    using gs_contains_iff [OF demo_gs_wf, of "\<lparr>g_epoch = 1, g_seq = 4\<rparr>"]
      gs_contains_iff [OF demo_gs_wf, of "\<lparr>g_epoch = 1, g_seq = 7\<rparr>"] by simp
qed

theorem insert_range_spec_witness:
  "\<exists>g'. insert_range demo_gs 1 6 8 = Some g' \<and> gs_wf g' \<and> gset g' = gset demo_gs \<union> {1} \<times> {6..8}"
  by (rule insert_range_spec [OF demo_gs_wf]) (simp_all add: u64_max_def)

theorem gs_is_subset_iff_witness: "\<not> gset demo_gs \<subseteq> gset gs_new \<and> gset gs_new \<subseteq> gset demo_gs"
proof -
  have "\<not> gs_is_subset demo_gs gs_new" "gs_is_subset gs_new demo_gs" by code_simp+
  moreover have "gs_wf gs_new" by (simp add: gs_wf_def gs_new_def)
  ultimately show ?thesis
    using gs_is_subset_iff [OF demo_gs_wf] gs_is_subset_iff [OF _ demo_gs_wf] by blast
qed

theorem gs_decode_wf_witness: "gs_wf demo_gs \<and> (\<lambda>_. Some demo_gs) [0 :: u8] = Some demo_gs"
  by (rule gs_decode_wf [of "\<lambda>_. Some demo_gs" "[0]"])
    (simp_all add: gs_decode_def demo_gs_def u64_max_def sat_add1_def)

theorem is_subset_skips_epochs_witness:
  "gs_is_subset \<lparr>ranges = [(1, []), (2, [(1, 9)])]\<rparr> gs_new \<and>
     check_ranges [(1, []), (2, [(1, 9)])] = Inr ()"
  by (rule is_subset_skips_epochs) (simp_all add: gs_new_def)

end
