(* ===== verification/Keys.thy ===== *)
theory Keys
  imports Rust_Std Gtid
begin

text \<open>
  The key space of the metadata store, \<^verbatim>\<open>crates/fs3-meta/src/keys.rs\<close>: the prefixes, the escaping of
  object keys, and every key builder and parser. Rust strings are their bytes; a parser validates
  UTF-8 as \<^verbatim>\<open>String::from_utf8\<close> does. Builders that validate their arguments return a \<open>result\<close>. Round
  trips and scan order are in theory \<open>Key_Codec\<close>.
\<close>

section \<open>Prefixes and system keys\<close>

definition PREFIX_BUCKET :: bytes where
  "PREFIX_BUCKET = lit ''b:''"

definition PREFIX_BUCKET_LOC :: bytes where
  "PREFIX_BUCKET_LOC = lit ''l:''"

definition PREFIX_BUCKET_CORS :: bytes where
  "PREFIX_BUCKET_CORS = lit ''bc:''"

definition PREFIX_BUCKET_TAGGING :: bytes where
  "PREFIX_BUCKET_TAGGING = lit ''bt:''"

definition PREFIX_BUCKET_OWNERSHIP :: bytes where
  "PREFIX_BUCKET_OWNERSHIP = lit ''bo:''"

definition PREFIX_BUCKET_BPA :: bytes where
  "PREFIX_BUCKET_BPA = lit ''ba:''"

definition PREFIX_BUCKET_POLICY :: bytes where
  "PREFIX_BUCKET_POLICY = lit ''bp:''"

definition PREFIX_OBJECT :: bytes where
  "PREFIX_OBJECT = lit ''o:''"

definition PREFIX_UPLOAD :: bytes where
  "PREFIX_UPLOAD = lit ''u:''"

definition PREFIX_UPLOAD_INDEX :: bytes where
  "PREFIX_UPLOAD_INDEX = lit ''m:''"

definition PREFIX_PART :: bytes where
  "PREFIX_PART = lit ''p:''"

definition PREFIX_ALLOC :: bytes where
  "PREFIX_ALLOC = lit ''a:''"

definition PREFIX_TXN :: bytes where
  "PREFIX_TXN = lit ''t:''"

definition PREFIX_SYS :: bytes where
  "PREFIX_SYS = lit ''s:''"

definition PREFIX_KEY :: bytes where
  "PREFIX_KEY = lit ''k:''"

definition PREFIX_LIFECYCLE_RULE :: bytes where
  "PREFIX_LIFECYCLE_RULE = lit ''r:''"

definition PREFIX_NOTIFICATION :: bytes where
  "PREFIX_NOTIFICATION = lit ''n:''"

definition PREFIX_EVENT :: bytes where
  "PREFIX_EVENT = lit ''e:''"

definition PREFIX_INVENTORY :: bytes where
  "PREFIX_INVENTORY = lit ''iv:''"

definition PREFIX_RESTORE_JOB :: bytes where
  "PREFIX_RESTORE_JOB = lit ''x:''"

definition PREFIX_TENANT :: bytes where
  "PREFIX_TENANT = lit ''tn:''"

definition PREFIX_IAM_USER :: bytes where
  "PREFIX_IAM_USER = lit ''iu:''"

definition PREFIX_IAM_GROUP :: bytes where
  "PREFIX_IAM_GROUP = lit ''ig:''"

definition PREFIX_IAM_POLICY :: bytes where
  "PREFIX_IAM_POLICY = lit ''ip:''"

definition PREFIX_IAM_ROLE :: bytes where
  "PREFIX_IAM_ROLE = lit ''ir:''"

definition PREFIX_INGEST_JOB :: bytes where
  "PREFIX_INGEST_JOB = lit ''ij:''"

definition PREFIX_BATCH_JOB :: bytes where
  "PREFIX_BATCH_JOB = lit ''jb:''"

definition PREFIX_BINLOG :: bytes where
  "PREFIX_BINLOG = lit ''bl:''"

definition SYS_SEQ :: bytes where
  "SYS_SEQ = lit ''s:seq''"

definition SYS_KEY_SEED_SALT :: bytes where
  "SYS_KEY_SEED_SALT = lit ''s:key_seed_salt''"

definition SYS_KEY_VALUE_REWRITE_V3_DONE :: bytes where
  "SYS_KEY_VALUE_REWRITE_V3_DONE = lit ''s:value_rewrite_v3_done''"

definition SYS_KEY_VALUE_REWRITE_V7_DONE :: bytes where
  "SYS_KEY_VALUE_REWRITE_V7_DONE = lit ''s:value_rewrite_v7_done''"

definition SYS_SSE_KEK_SEED :: bytes where
  "SYS_SSE_KEK_SEED = lit ''s:sse_kek_seed''"

definition SYS_SSE_KEK_GEN :: bytes where
  "SYS_SSE_KEK_GEN = lit ''s:sse_kek_gen''"

definition SYS_TRUSTED_CLOCK :: bytes where
  "SYS_TRUSTED_CLOCK = lit ''s:trusted_clock''"

definition SYS_REPL_EPOCH :: bytes where
  "SYS_REPL_EPOCH = lit ''s:repl_epoch''"

definition SYS_REPL_EBASE :: bytes where
  "SYS_REPL_EBASE = lit ''s:repl_ebase''"

definition SYS_REPL_ROLE :: bytes where
  "SYS_REPL_ROLE = lit ''s:repl_role''"

definition SYS_REPL_EXECUTED :: bytes where
  "SYS_REPL_EXECUTED = lit ''s:repl_executed''"

definition SYS_REPL_CURSOR :: bytes where
  "SYS_REPL_CURSOR = lit ''s:repl_cursor''"

definition SYS_REPL_BUCKET_SCOPED :: bytes where
  "SYS_REPL_BUCKET_SCOPED = lit ''s:repl_bscoped''"

definition SYS_REPL_UPCHAIN :: bytes where
  "SYS_REPL_UPCHAIN = lit ''s:repl_upchain''"

definition SYS_REPL_EVER_PRIMARY :: bytes where
  "SYS_REPL_EVER_PRIMARY = lit ''s:repl_ever_primary''"

definition PREFIX_REPL_PENDING :: bytes where
  "PREFIX_REPL_PENDING = lit ''s:repl_pending'' @ [0]"

definition PREFIX_REPL_RMAP :: bytes where
  "PREFIX_REPL_RMAP = lit ''s:repl_rmap'' @ [0]"

definition PREFIX_REPL_PENDING_OBJ :: bytes where
  "PREFIX_REPL_PENDING_OBJ = lit ''s:repl_pdobj'' @ [0]"

definition SYS_POOL :: bytes where
  "SYS_POOL = lit ''s:pool''"

definition PREFIX_AUDIT :: bytes where
  "PREFIX_AUDIT = lit ''s:audit'' @ [0]"

definition PREFIX_SESSION :: bytes where
  "PREFIX_SESSION = lit ''s:session'' @ [0]"

definition PREFIX_REPL_SLOT :: bytes where
  "PREFIX_REPL_SLOT = lit ''s:repl_slot'' @ [0]"

definition PREFIX_REPL_DCRED_OUT :: bytes where
  "PREFIX_REPL_DCRED_OUT = lit ''s:repl_dcred_out'' @ [0]"

definition PREFIX_REPL_DCRED_IN :: bytes where
  "PREFIX_REPL_DCRED_IN = lit ''s:repl_dcred_in'' @ [0]"

definition SYS_REPL_CRED_SEED :: bytes where
  "SYS_REPL_CRED_SEED = lit ''s:repl_credseed''"

definition SYS_REBUILD_PENDING :: bytes where
  "SYS_REBUILD_PENDING = lit ''s:rebuild_pending''"

definition REPL_INITIAL_EPOCH :: u64 where
  "REPL_INITIAL_EPOCH = 1"

definition VK_NULL :: bytes where
  "VK_NULL = replicate 16 0xFF"

section \<open>Escaping\<close>

fun escape :: "bytes \<Rightarrow> bytes" where
  "escape [] = []"
| "escape (b # r) =
     (if b = 0 then [0xFF, 0] else if b = 0xFF then [0xFF, 0xFF] else [b]) @ escape r"

fun unescape :: "bytes \<Rightarrow> bytes result" where
  "unescape [] = Inr []"
| "unescape (b # r) =
     (if b = 0xFF then
        (case r of
           [] \<Rightarrow> Inl Corrupt
         | c # r' \<Rightarrow>
             if c = 0 then bind_res (unescape r') (\<lambda>u. Inr (0 # u))
             else if c = 0xFF then bind_res (unescape r') (\<lambda>u. Inr (0xFF # u))
             else Inl Corrupt)
      else bind_res (unescape r) (\<lambda>u. Inr (b # u)))"

section \<open>Shared shapes\<close>

text \<open>
  \<^verbatim>\<open>strip_prefix(..).ok_or(Corrupt)\<close>, the separator search \<^verbatim>\<open>position(|b| b == 0)\<close>, and the fixed-width
  suffix check, as the parsers repeat them.
\<close>

definition key_body :: "bytes \<Rightarrow> bytes \<Rightarrow> bytes result" where
  "key_body p raw = (case strip_pre p raw of None \<Rightarrow> Inl Corrupt | Some body \<Rightarrow> Inr body)"

definition key_sep :: "bytes \<Rightarrow> nat result" where
  "key_sep body = (case position (\<lambda>b. b = 0) body of None \<Rightarrow> Inl Corrupt | Some i \<Rightarrow> Inr i)"

definition parse_text :: "bytes \<Rightarrow> bytes \<Rightarrow> bytes result" where
  "parse_text p raw = bind_res (key_body p raw) (from_utf8 Corrupt)"

definition parse_pair :: "bytes \<Rightarrow> bytes \<Rightarrow> (bytes \<times> bytes) result" where
  "parse_pair p raw =
     bind_res (key_body p raw) (\<lambda>body. bind_res (key_sep body) (\<lambda>sep.
       bind_res (from_utf8 Corrupt (take sep body)) (\<lambda>a.
       bind_res (from_utf8 Corrupt (drop (sep + 1) body)) (\<lambda>b. Inr (a, b)))))"

definition parse_be64 :: "bytes \<Rightarrow> bytes \<Rightarrow> u64 result" where
  "parse_be64 p raw =
     bind_res (key_body p raw) (\<lambda>body.
       if length body \<noteq> 8 then Inl Corrupt else Inr (from_be_bytes body))"

definition gtid_bytes :: "gtid \<Rightarrow> bytes" where
  "gtid_bytes g = to_be_bytes (of_nat (g_epoch g) :: u64) @ to_be_bytes (of_nat (g_seq g) :: u64)"

definition gtid_of_bytes :: "bytes \<Rightarrow> gtid result" where
  "gtid_of_bytes body =
     (if length body \<noteq> 16 then Inl Corrupt
      else Inr \<lparr>g_epoch = unat (from_be_bytes (take 8 body) :: u64),
                g_seq = unat (from_be_bytes (drop 8 body) :: u64)\<rparr>)"

section \<open>Buckets and objects\<close>

definition bucket_key :: "bytes \<Rightarrow> bytes" where
  "bucket_key name = PREFIX_BUCKET @ name"

definition bucket_location_key :: "bytes \<Rightarrow> bytes" where
  "bucket_location_key name = PREFIX_BUCKET_LOC @ name"

definition bucket_conf_key :: "bytes \<Rightarrow> bytes \<Rightarrow> bytes" where
  "bucket_conf_key p name = p @ name"

definition object_key :: "bytes \<Rightarrow> bytes \<Rightarrow> bytes" where
  "object_key bucket key = PREFIX_OBJECT @ bucket @ [0] @ escape key"

definition object_prefix :: "bytes \<Rightarrow> bytes" where
  "object_prefix bucket = PREFIX_OBJECT @ bucket @ [0]"

definition object_version_key :: "bytes \<Rightarrow> bytes \<Rightarrow> bytes \<Rightarrow> bytes" where
  "object_version_key bucket key vk = object_key bucket key @ [0] @ vk"

definition object_key_prefix :: "bytes \<Rightarrow> bytes \<Rightarrow> bytes" where
  "object_key_prefix bucket key = object_key bucket key @ [0]"

text \<open>The scan for the version separator, which skips escape pairs.\<close>

fun version_sep :: "bytes \<Rightarrow> nat option" where
  "version_sep [] = None"
| "version_sep (b # r) =
     (if b = 0xFF then (case r of [] \<Rightarrow> None | c # r' \<Rightarrow> map_option (\<lambda>i. i + 2) (version_sep r'))
      else if b = 0 then Some 0 else map_option Suc (version_sep r))"

definition parse_object_version_key :: "bytes \<Rightarrow> (bytes \<times> bytes \<times> bytes option) result" where
  "parse_object_version_key raw =
     bind_res (key_body PREFIX_OBJECT raw) (\<lambda>body. bind_res (key_sep body) (\<lambda>sep.
       bind_res (from_utf8 Corrupt (take sep body)) (\<lambda>bucket.
         let rest = drop (sep + 1) body in
         case version_sep rest of
           None \<Rightarrow> bind_res (unescape rest) (\<lambda>u. bind_res (from_utf8 Corrupt u) (\<lambda>key.
             Inr (bucket, key, None)))
         | Some i \<Rightarrow> bind_res (unescape (take i rest)) (\<lambda>u. bind_res (from_utf8 Corrupt u) (\<lambda>key.
             let vk = drop (i + 1) rest in
             if length vk \<noteq> 16 then Inl Corrupt else Inr (bucket, key, Some vk))))))"

definition parse_object_key :: "bytes \<Rightarrow> (bytes \<times> bytes) result" where
  "parse_object_key raw =
     bind_res (parse_object_version_key raw) (\<lambda>(bucket, key, vk).
       if vk \<noteq> None then Inl Corrupt else Inr (bucket, key))"

section \<open>Sequence-numbered families\<close>

definition alloc_key :: "u64 \<Rightarrow> bytes" where
  "alloc_key seq = PREFIX_ALLOC @ to_be_bytes seq"

definition txn_key :: "u64 \<Rightarrow> bytes" where
  "txn_key seq = PREFIX_TXN @ to_be_bytes seq"

definition audit_entry_key :: "u64 \<Rightarrow> bytes" where
  "audit_entry_key seq = PREFIX_AUDIT @ to_be_bytes seq"

definition parse_audit_seq :: "bytes \<Rightarrow> u64 result" where
  "parse_audit_seq = parse_be64 PREFIX_AUDIT"

definition restore_job_key :: "u64 \<Rightarrow> bytes" where
  "restore_job_key seq = PREFIX_RESTORE_JOB @ to_be_bytes seq"

definition event_key :: "u64 \<Rightarrow> bytes" where
  "event_key seq = PREFIX_EVENT @ to_be_bytes seq"

definition parse_restore_job_seq :: "bytes \<Rightarrow> u64 result" where
  "parse_restore_job_seq = parse_be64 PREFIX_RESTORE_JOB"

definition parse_event_seq :: "bytes \<Rightarrow> u64 result" where
  "parse_event_seq = parse_be64 PREFIX_EVENT"

definition parse_alloc_seq :: "bytes \<Rightarrow> u64 result" where
  "parse_alloc_seq = parse_be64 PREFIX_ALLOC"

section \<open>Sessions, parts and two-part bucket configuration\<close>

definition sts_session_key :: "bytes \<Rightarrow> bytes" where
  "sts_session_key session_id = PREFIX_SESSION @ session_id"

definition parse_sts_session_id :: "bytes \<Rightarrow> bytes result" where
  "parse_sts_session_id = parse_text PREFIX_SESSION"

definition session_key :: "bytes \<Rightarrow> bytes" where
  "session_key upload_id = PREFIX_UPLOAD @ upload_id"

definition session_index_key :: "bytes \<Rightarrow> bytes \<Rightarrow> bytes" where
  "session_index_key bucket upload_id = PREFIX_UPLOAD_INDEX @ bucket @ [0] @ upload_id"

definition session_index_prefix :: "bytes \<Rightarrow> bytes" where
  "session_index_prefix bucket = PREFIX_UPLOAD_INDEX @ bucket @ [0]"

definition parse_session_index_key :: "bytes \<Rightarrow> bytes result" where
  "parse_session_index_key raw =
     bind_res (key_body PREFIX_UPLOAD_INDEX raw) (\<lambda>body. bind_res (key_sep body) (\<lambda>sep.
       from_utf8 Corrupt (drop (sep + 1) body)))"

definition lifecycle_rule_key :: "bytes \<Rightarrow> bytes \<Rightarrow> bytes" where
  "lifecycle_rule_key bucket rule_id = PREFIX_LIFECYCLE_RULE @ bucket @ [0] @ rule_id"

definition lifecycle_rules_prefix :: "bytes \<Rightarrow> bytes" where
  "lifecycle_rules_prefix bucket = PREFIX_LIFECYCLE_RULE @ bucket @ [0]"

definition notification_rule_key :: "bytes \<Rightarrow> bytes \<Rightarrow> bytes" where
  "notification_rule_key bucket rule_id = PREFIX_NOTIFICATION @ bucket @ [0] @ rule_id"

definition notification_rules_prefix :: "bytes \<Rightarrow> bytes" where
  "notification_rules_prefix bucket = PREFIX_NOTIFICATION @ bucket @ [0]"

definition parse_notification_rule_key :: "bytes \<Rightarrow> (bytes \<times> bytes) result" where
  "parse_notification_rule_key = parse_pair PREFIX_NOTIFICATION"

definition inventory_config_key :: "bytes \<Rightarrow> bytes \<Rightarrow> bytes" where
  "inventory_config_key bucket cid = PREFIX_INVENTORY @ bucket @ [0] @ cid"

definition inventory_configs_prefix :: "bytes \<Rightarrow> bytes" where
  "inventory_configs_prefix bucket = PREFIX_INVENTORY @ bucket @ [0]"

definition parse_inventory_config_key :: "bytes \<Rightarrow> (bytes \<times> bytes) result" where
  "parse_inventory_config_key = parse_pair PREFIX_INVENTORY"

definition part_key :: "bytes \<Rightarrow> u32 \<Rightarrow> bytes" where
  "part_key upload_id part_no = PREFIX_PART @ upload_id @ [0] @ to_be_bytes part_no"

definition part_prefix :: "bytes \<Rightarrow> bytes" where
  "part_prefix upload_id = PREFIX_PART @ upload_id @ [0]"

definition parse_part_key :: "bytes \<Rightarrow> u32 result" where
  "parse_part_key raw =
     bind_res (key_body PREFIX_PART raw) (\<lambda>body. bind_res (key_sep body) (\<lambda>sep.
       let no = drop (sep + 1) body in
       if length no \<noteq> 4 then Inl Corrupt else Inr (from_be_bytes no)))"

definition key_key :: "bytes \<Rightarrow> bytes" where
  "key_key access_key = PREFIX_KEY @ access_key"

definition parse_key_key :: "bytes \<Rightarrow> bytes result" where
  "parse_key_key = parse_text PREFIX_KEY"

section \<open>Replication\<close>

definition repl_slot_key :: "bytes \<Rightarrow> bytes result" where
  "repl_slot_key name =
     (if name = [] \<or> 0 \<in> set name then Inl InvalidArgument else Inr (PREFIX_REPL_SLOT @ name))"

definition parse_repl_slot_name :: "bytes \<Rightarrow> bytes result" where
  "parse_repl_slot_name raw =
     bind_res (key_body PREFIX_REPL_SLOT raw) (\<lambda>body. bind_res (from_utf8 Corrupt body) (\<lambda>s.
       if s = [] then Inl Corrupt else Inr s))"

definition repl_dcred_key :: "bytes \<Rightarrow> bytes \<Rightarrow> bytes result" where
  "repl_dcred_key p slot =
     (if slot = [] \<or> 0 \<in> set slot then Inl InvalidArgument else Inr (p @ slot))"

definition repl_dcred_out_key :: "bytes \<Rightarrow> bytes result" where
  "repl_dcred_out_key slot = repl_dcred_key PREFIX_REPL_DCRED_OUT slot"

definition repl_dcred_in_key :: "bytes \<Rightarrow> bytes result" where
  "repl_dcred_in_key slot = repl_dcred_key PREFIX_REPL_DCRED_IN slot"

definition binlog_key :: "u64 \<Rightarrow> u64 \<Rightarrow> bytes" where
  "binlog_key epoch seq = PREFIX_BINLOG @ to_be_bytes epoch @ to_be_bytes seq"

definition parse_binlog_gtid :: "bytes \<Rightarrow> gtid result" where
  "parse_binlog_gtid raw = bind_res (key_body PREFIX_BINLOG raw) gtid_of_bytes"

definition repl_cursor_value :: "gtid \<Rightarrow> bytes" where
  "repl_cursor_value g = gtid_bytes g"

definition parse_repl_cursor_value :: "bytes \<Rightarrow> gtid result" where
  "parse_repl_cursor_value raw = gtid_of_bytes raw"

definition repl_pending_key :: "gtid \<Rightarrow> bytes" where
  "repl_pending_key g = PREFIX_REPL_PENDING @ gtid_bytes g"

definition parse_repl_pending_key :: "bytes \<Rightarrow> gtid result" where
  "parse_repl_pending_key raw = bind_res (key_body PREFIX_REPL_PENDING raw) gtid_of_bytes"

definition repl_rmap_key :: "u64 \<Rightarrow> u32 \<Rightarrow> u32 \<Rightarrow> u32 \<Rightarrow> bytes" where
  "repl_rmap_key epoch extent_id off len =
     PREFIX_REPL_RMAP @ to_be_bytes epoch @ to_be_bytes extent_id @ to_be_bytes off @ to_be_bytes len"

definition repl_rmap_extent_prefix :: "u64 \<Rightarrow> u32 \<Rightarrow> bytes" where
  "repl_rmap_extent_prefix epoch extent_id = PREFIX_REPL_RMAP @ to_be_bytes epoch @ to_be_bytes extent_id"

definition parse_repl_rmap_key :: "bytes \<Rightarrow> (u64 \<times> u32 \<times> u32 \<times> u32) result" where
  "parse_repl_rmap_key raw =
     bind_res (key_body PREFIX_REPL_RMAP raw) (\<lambda>body.
       if length body \<noteq> 20 then Inl Corrupt
       else Inr (from_be_bytes (take 8 body), from_be_bytes (take 4 (drop 8 body)),
                 from_be_bytes (take 4 (drop 12 body)), from_be_bytes (take 4 (drop 16 body))))"

definition repl_pending_obj_key :: "bytes \<Rightarrow> bytes \<Rightarrow> bytes" where
  "repl_pending_obj_key bucket key = PREFIX_REPL_PENDING_OBJ @ bucket @ [0] @ escape key"

definition parse_repl_pending_obj_key :: "bytes \<Rightarrow> (bytes \<times> bytes) result" where
  "parse_repl_pending_obj_key raw =
     bind_res (key_body PREFIX_REPL_PENDING_OBJ raw) (\<lambda>body. bind_res (key_sep body) (\<lambda>endd.
       bind_res (from_utf8 Corrupt (take endd body)) (\<lambda>bucket.
       bind_res (unescape (drop (endd + 1) body)) (\<lambda>u.
       bind_res (from_utf8 Corrupt u) (\<lambda>key. Inr (bucket, key))))))"

section \<open>Identity management and jobs\<close>

definition IAM_NAME_MAX :: nat where
  "IAM_NAME_MAX = 128"

definition iam_char :: "u8 \<Rightarrow> bool" where
  "iam_char b \<longleftrightarrow> is_ascii_alnum b \<or> b \<in> set (lit ''_+=,.@-'')"

definition validate_iam_name :: "bytes \<Rightarrow> unit result" where
  "validate_iam_name name =
     (if name = [] \<or> IAM_NAME_MAX < length name then Inl InvalidArgument
      else if \<not> list_all iam_char name then Inl InvalidArgument else Inr ())"

definition tenant_key :: "bytes \<Rightarrow> bytes result" where
  "tenant_key tenant_id = bind_res (validate_iam_name tenant_id) (\<lambda>_. Inr (PREFIX_TENANT @ tenant_id))"

definition parse_tenant_key :: "bytes \<Rightarrow> bytes result" where
  "parse_tenant_key raw =
     bind_res (key_body PREFIX_TENANT raw) (\<lambda>body. bind_res (from_utf8 Corrupt body) (\<lambda>tid.
       bind_res (validate_iam_name tid) (\<lambda>_. Inr tid)))"

definition iam_entity_key :: "bytes \<Rightarrow> bytes \<Rightarrow> bytes \<Rightarrow> bytes result" where
  "iam_entity_key p tenant name =
     bind_res (validate_iam_name tenant) (\<lambda>_. bind_res (validate_iam_name name) (\<lambda>_.
       Inr (p @ tenant @ [0] @ name)))"

definition iam_entity_prefix :: "bytes \<Rightarrow> bytes \<Rightarrow> bytes result" where
  "iam_entity_prefix p tenant = bind_res (validate_iam_name tenant) (\<lambda>_. Inr (p @ tenant @ [0]))"

definition parse_iam_entity_key :: "bytes \<Rightarrow> bytes \<Rightarrow> (bytes \<times> bytes) result" where
  "parse_iam_entity_key p raw =
     bind_res (parse_pair p raw) (\<lambda>(tenant, name).
       bind_res (validate_iam_name tenant) (\<lambda>_. bind_res (validate_iam_name name) (\<lambda>_.
         Inr (tenant, name))))"

definition iam_user_key :: "bytes \<Rightarrow> bytes \<Rightarrow> bytes result" where
  "iam_user_key = iam_entity_key PREFIX_IAM_USER"

definition iam_user_prefix :: "bytes \<Rightarrow> bytes result" where
  "iam_user_prefix = iam_entity_prefix PREFIX_IAM_USER"

definition parse_iam_user_key :: "bytes \<Rightarrow> (bytes \<times> bytes) result" where
  "parse_iam_user_key = parse_iam_entity_key PREFIX_IAM_USER"

definition iam_group_key :: "bytes \<Rightarrow> bytes \<Rightarrow> bytes result" where
  "iam_group_key = iam_entity_key PREFIX_IAM_GROUP"

definition iam_group_prefix :: "bytes \<Rightarrow> bytes result" where
  "iam_group_prefix = iam_entity_prefix PREFIX_IAM_GROUP"

definition parse_iam_group_key :: "bytes \<Rightarrow> (bytes \<times> bytes) result" where
  "parse_iam_group_key = parse_iam_entity_key PREFIX_IAM_GROUP"

definition iam_policy_key :: "bytes \<Rightarrow> bytes \<Rightarrow> bytes result" where
  "iam_policy_key = iam_entity_key PREFIX_IAM_POLICY"

definition iam_policy_prefix :: "bytes \<Rightarrow> bytes result" where
  "iam_policy_prefix = iam_entity_prefix PREFIX_IAM_POLICY"

definition parse_iam_policy_key :: "bytes \<Rightarrow> (bytes \<times> bytes) result" where
  "parse_iam_policy_key = parse_iam_entity_key PREFIX_IAM_POLICY"

definition iam_role_key :: "bytes \<Rightarrow> bytes \<Rightarrow> bytes result" where
  "iam_role_key = iam_entity_key PREFIX_IAM_ROLE"

definition iam_role_prefix :: "bytes \<Rightarrow> bytes result" where
  "iam_role_prefix = iam_entity_prefix PREFIX_IAM_ROLE"

definition parse_iam_role_key :: "bytes \<Rightarrow> (bytes \<times> bytes) result" where
  "parse_iam_role_key = parse_iam_entity_key PREFIX_IAM_ROLE"

definition job_id_ok :: "bytes \<Rightarrow> bool" where
  "job_id_ok job_id \<longleftrightarrow> \<not> (job_id = [] \<or> 128 < length job_id \<or> 0 \<in> set job_id)"

definition ingest_job_key :: "bytes \<Rightarrow> bytes result" where
  "ingest_job_key job_id = (if job_id_ok job_id then Inr (PREFIX_INGEST_JOB @ job_id) else Inl InvalidArgument)"

definition parse_ingest_job_key :: "bytes \<Rightarrow> bytes result" where
  "parse_ingest_job_key = parse_text PREFIX_INGEST_JOB"

definition batch_job_key :: "bytes \<Rightarrow> bytes result" where
  "batch_job_key job_id = (if job_id_ok job_id then Inr (PREFIX_BATCH_JOB @ job_id) else Inl InvalidArgument)"

definition parse_batch_job_key :: "bytes \<Rightarrow> bytes result" where
  "parse_batch_job_key = parse_text PREFIX_BATCH_JOB"

text \<open>Every prefix and system key of the file but the general \<^verbatim>\<open>s:\<close>.\<close>

definition all_prefixes :: "bytes list" where
  "all_prefixes = [PREFIX_BUCKET, PREFIX_BUCKET_LOC, PREFIX_BUCKET_CORS, PREFIX_BUCKET_TAGGING,
     PREFIX_BUCKET_OWNERSHIP, PREFIX_BUCKET_BPA, PREFIX_BUCKET_POLICY, PREFIX_OBJECT,
     PREFIX_UPLOAD, PREFIX_UPLOAD_INDEX, PREFIX_PART, PREFIX_ALLOC,
     PREFIX_TXN, PREFIX_KEY, PREFIX_LIFECYCLE_RULE, PREFIX_NOTIFICATION,
     PREFIX_EVENT, PREFIX_INVENTORY, PREFIX_RESTORE_JOB, PREFIX_TENANT,
     PREFIX_IAM_USER, PREFIX_IAM_GROUP, PREFIX_IAM_POLICY, PREFIX_IAM_ROLE,
     PREFIX_INGEST_JOB, PREFIX_BATCH_JOB, PREFIX_BINLOG, SYS_SEQ,
     SYS_KEY_SEED_SALT, SYS_KEY_VALUE_REWRITE_V3_DONE, SYS_KEY_VALUE_REWRITE_V7_DONE, SYS_SSE_KEK_SEED,
     SYS_SSE_KEK_GEN, SYS_TRUSTED_CLOCK, SYS_REPL_EPOCH, SYS_REPL_EBASE,
     SYS_REPL_ROLE, SYS_REPL_EXECUTED, SYS_REPL_CURSOR, SYS_REPL_BUCKET_SCOPED,
     SYS_REPL_UPCHAIN, SYS_REPL_EVER_PRIMARY, PREFIX_REPL_PENDING, PREFIX_REPL_RMAP,
     PREFIX_REPL_PENDING_OBJ, SYS_POOL, PREFIX_AUDIT, PREFIX_SESSION,
     PREFIX_REPL_SLOT, PREFIX_REPL_DCRED_OUT, PREFIX_REPL_DCRED_IN, SYS_REPL_CRED_SEED,
     SYS_REBUILD_PENDING]"

lemmas prefix_defs = PREFIX_BUCKET_def PREFIX_BUCKET_LOC_def PREFIX_BUCKET_CORS_def PREFIX_BUCKET_TAGGING_def
  PREFIX_BUCKET_OWNERSHIP_def PREFIX_BUCKET_BPA_def PREFIX_BUCKET_POLICY_def PREFIX_OBJECT_def
  PREFIX_UPLOAD_def PREFIX_UPLOAD_INDEX_def PREFIX_PART_def PREFIX_ALLOC_def
  PREFIX_TXN_def PREFIX_KEY_def PREFIX_LIFECYCLE_RULE_def PREFIX_NOTIFICATION_def
  PREFIX_EVENT_def PREFIX_INVENTORY_def PREFIX_RESTORE_JOB_def PREFIX_TENANT_def
  PREFIX_IAM_USER_def PREFIX_IAM_GROUP_def PREFIX_IAM_POLICY_def PREFIX_IAM_ROLE_def
  PREFIX_INGEST_JOB_def PREFIX_BATCH_JOB_def PREFIX_BINLOG_def SYS_SEQ_def
  SYS_KEY_SEED_SALT_def SYS_KEY_VALUE_REWRITE_V3_DONE_def SYS_KEY_VALUE_REWRITE_V7_DONE_def SYS_SSE_KEK_SEED_def
  SYS_SSE_KEK_GEN_def SYS_TRUSTED_CLOCK_def SYS_REPL_EPOCH_def SYS_REPL_EBASE_def
  SYS_REPL_ROLE_def SYS_REPL_EXECUTED_def SYS_REPL_CURSOR_def SYS_REPL_BUCKET_SCOPED_def
  SYS_REPL_UPCHAIN_def SYS_REPL_EVER_PRIMARY_def PREFIX_REPL_PENDING_def PREFIX_REPL_RMAP_def
  PREFIX_REPL_PENDING_OBJ_def SYS_POOL_def PREFIX_AUDIT_def PREFIX_SESSION_def
  PREFIX_REPL_SLOT_def PREFIX_REPL_DCRED_OUT_def PREFIX_REPL_DCRED_IN_def SYS_REPL_CRED_SEED_def
  SYS_REBUILD_PENDING_def

end
