(* ===== verification/Clock.thy ===== *)
theory Clock
  imports Keys
begin

text \<open>
  The trusted clock (\<^verbatim>\<open>crates/fs3-core/src/clock.rs\<close>, its runtime in \<^verbatim>\<open>crates/fs3-engine/src/lib.rs\<close>) and
  the version ids derived from time (\<^verbatim>\<open>crates/fs3-core/src/util.rs\<close>). Signed 64-bit values are integers
  with the saturating and truncating operations written out; the samples of the wall clock and of
  the monotonic clock, and the random bytes, are arguments.
\<close>

section \<open>State and formulas\<close>

record trusted_clock_state =
  last_wall :: int
  last_mono_ns :: int

definition tc_new :: "int \<Rightarrow> int \<Rightarrow> trusted_clock_state" where
  "tc_new wall_now mono_now_ns = \<lparr>last_wall = wall_now, last_mono_ns = mono_now_ns\<rparr>"

definition trusted_now :: "trusted_clock_state \<Rightarrow> int \<Rightarrow> int \<Rightarrow> int" where
  "trusted_now s wall_now mono_now_ns =
     (let delta_s = quot_i64 (sat_sub_i64 mono_now_ns (last_mono_ns s)) 1000000000
      in sat_add_i64 (last_wall s) delta_s)"

definition lock_now :: "trusted_clock_state \<Rightarrow> int \<Rightarrow> int \<Rightarrow> int" where
  "lock_now s wall_now mono_now_ns = max wall_now (trusted_now s wall_now mono_now_ns)"

definition tc_refresh :: "trusted_clock_state \<Rightarrow> int \<Rightarrow> int \<Rightarrow> trusted_clock_state" where
  "tc_refresh s wall_now mono_now_ns =
     \<lparr>last_wall = max wall_now (trusted_now s wall_now mono_now_ns), last_mono_ns = mono_now_ns\<rparr>"

definition rebaseline_on_boot :: "trusted_clock_state option \<Rightarrow> int \<Rightarrow> int \<Rightarrow> trusted_clock_state" where
  "rebaseline_on_boot persisted wall_now mono_now_ns =
     (case persisted of
        None \<Rightarrow> tc_new wall_now mono_now_ns
      | Some old \<Rightarrow> \<lparr>last_wall = max wall_now (last_wall old), last_mono_ns = mono_now_ns\<rparr>)"

definition retention_expired :: "int \<Rightarrow> int \<Rightarrow> int \<Rightarrow> bool" where
  "retention_expired until wall_now tnow \<longleftrightarrow> until \<le> max wall_now tnow"

section \<open>The clock of the engine\<close>

text \<open>
  \<^verbatim>\<open>TrustedClockRt\<close> and, beside it, the fields of \<^verbatim>\<open>Engine\<close> and the store entry \<^verbatim>\<open>s:trusted_clock\<close> that the
  clock code changes. \<open>tc_inject\<close> is the sample a test injects.
\<close>

record trusted_clock_rt =
  tc_state :: trusted_clock_state
  tc_inject :: "(int \<times> int) option"
  offset_secs :: int

record engine_clock =
  trusted_clock :: trusted_clock_rt
  stored_clock :: "trusted_clock_state option"
  clock_divergence :: int
  divergence_events :: nat

definition clock_sample :: "trusted_clock_rt \<Rightarrow> int \<Rightarrow> int \<Rightarrow> int \<times> int" where
  "clock_sample rt now_ts monotonic_ns =
     (case tc_inject rt of
        Some p \<Rightarrow> p
      | None \<Rightarrow> (i64_wrap (now_ts + offset_secs rt), monotonic_ns))"

definition open_clock :: "bool \<Rightarrow> int \<Rightarrow> int \<Rightarrow> int \<Rightarrow> trusted_clock_state option \<Rightarrow> engine_clock" where
  "open_clock read_only offset now_ts mono_ns stored =
     (let wall = i64_wrap (now_ts + offset);
          st = rebaseline_on_boot stored wall mono_ns
      in \<lparr>trusted_clock = \<lparr>tc_state = st, tc_inject = None, offset_secs = offset\<rparr>,
          stored_clock = (if read_only then stored else Some st),
          clock_divergence = 0, divergence_events = 0\<rparr>)"

definition note_clock_divergence :: "int \<Rightarrow> int \<Rightarrow> engine_clock \<Rightarrow> engine_clock" where
  "note_clock_divergence wall trusted_or_high_water c =
     (let d = max (sat_sub_i64 trusted_or_high_water wall) 0
      in c\<lparr>clock_divergence := d,
           divergence_events := (if 0 < d \<and> clock_divergence c = 0
              then divergence_events c + 1 else divergence_events c)\<rparr>)"

definition refresh_trusted_clock :: "bool \<Rightarrow> int \<Rightarrow> int \<Rightarrow> engine_clock \<Rightarrow> engine_clock" where
  "refresh_trusted_clock read_only now_ts mono_ns c =
     (if read_only then c
      else (let (wall, m) = clock_sample (trusted_clock c) now_ts mono_ns;
                st = tc_refresh (tc_state (trusted_clock c)) wall m;
                c1 = c\<lparr>trusted_clock := (trusted_clock c)\<lparr>tc_state := st\<rparr>\<rparr>
            in (note_clock_divergence wall (last_wall st) c1)\<lparr>stored_clock := Some st\<rparr>))"

definition engine_lock_now :: "engine_clock \<Rightarrow> int \<Rightarrow> int \<Rightarrow> int" where
  "engine_lock_now c now_ts mono_ns =
     (let (wall, m) = clock_sample (trusted_clock c) now_ts mono_ns
      in lock_now (tc_state (trusted_clock c)) wall m)"

section \<open>Version ids\<close>

definition u64_sat_add1 :: "u64 \<Rightarrow> u64" where
  "u64_sat_add1 p = (if p = - 1 then - 1 else p + 1)"

text \<open>The second argument is what \<^verbatim>\<open>random_bytes\<close> delivers: eight bytes, or its error.\<close>

definition new_version_vk :: "u64 \<Rightarrow> bytes result \<Rightarrow> u64 option \<Rightarrow> bytes result" where
  "new_version_vk now_us rnd prev_ts =
     (let ts = (case prev_ts of Some p \<Rightarrow> max now_us (u64_sat_add1 p) | None \<Rightarrow> now_us)
      in bind_res rnd (\<lambda>r.
        let r' = (if ts = - 1 then r[0 := r ! 0 AND 0x7F] else r)
        in Inr (to_be_bytes ts @ r')))"

definition vk_time_us :: "bytes \<Rightarrow> u64" where
  "vk_time_us vk = from_be_bytes (take 8 vk)"

section \<open>Histories\<close>

text \<open>
  What happens to the clock of a writable node: a refresh at a checkpoint, or a crash followed by a
  start. Samples of the monotonic clock do not decrease while the node is up; across a crash they
  are unrelated.
\<close>

datatype clock_event = Refresh int int | Reboot int int

fun clock_step :: "clock_event \<Rightarrow> engine_clock \<Rightarrow> engine_clock" where
  "clock_step (Refresh w m) c = refresh_trusted_clock False w m c"
| "clock_step (Reboot w m) c = open_clock False 0 w m (stored_clock c)"

fun mono_ok :: "int \<Rightarrow> clock_event list \<Rightarrow> bool" where
  "mono_ok m [] \<longleftrightarrow> True"
| "mono_ok m (Refresh w m' # es) \<longleftrightarrow> m \<le> m' \<and> in_i64 w \<and> mono_ok m' es"
| "mono_ok m (Reboot w m' # es) \<longleftrightarrow> in_i64 w \<and> mono_ok m' es"

definition clock_wf :: "engine_clock \<Rightarrow> bool" where
  "clock_wf c \<longleftrightarrow> tc_inject (trusted_clock c) = None \<and> offset_secs (trusted_clock c) = 0 \<and>
     stored_clock c = Some (tc_state (trusted_clock c)) \<and> in_i64 (last_wall (tc_state (trusted_clock c)))"

abbreviation high_water :: "engine_clock \<Rightarrow> int" where
  "high_water c \<equiv> last_wall (tc_state (trusted_clock c))"

abbreviation mono_mark :: "engine_clock \<Rightarrow> int" where
  "mono_mark c \<equiv> last_mono_ns (tc_state (trusted_clock c))"

lemma i64_wrap_id: "in_i64 w \<Longrightarrow> i64_wrap w = w"
  by (simp add: i64_wrap_def in_i64_def i64_min_def i64_max_def)

lemma trusted_now_ge: "in_i64 (last_wall s) \<Longrightarrow> last_mono_ns s \<le> m \<Longrightarrow> last_wall s \<le> trusted_now s w m"
  by (auto simp: trusted_now_def Let_def sat_add_i64_def sat_sub_i64_def i64_clamp_def in_i64_def
      i64_min_def i64_max_def quot_i64_nonneg)

lemma trusted_now_le:
  assumes "last_mono_ns s \<le> m" "in_i64 (last_wall s)"
  shows "trusted_now s w m \<le> last_wall s + (m - last_mono_ns s) div 1000000000"
proof -
  define d where "d = sat_sub_i64 m (last_mono_ns s)"
  have d: "0 \<le> d" "d \<le> m - last_mono_ns s"
    using assms(1) by (auto simp: d_def sat_sub_i64_def i64_clamp_def i64_min_def i64_max_def)
  have "quot_i64 d 1000000000 = d div 1000000000" using d(1) by (simp add: quot_i64_nonneg)
  moreover have "d div 1000000000 \<le> (m - last_mono_ns s) div 1000000000"
    using d(2) by (rule zdiv_mono1) simp
  moreover have "0 \<le> d div 1000000000" using d(1) by simp
  ultimately show ?thesis
    using assms(2) by (simp add: trusted_now_def Let_def d_def [symmetric] sat_add_i64_def i64_clamp_def
        in_i64_def i64_min_def i64_max_def min_def max_def)
qed

lemma in_i64_trusted: "in_i64 (trusted_now s w m)"
  by (auto simp: trusted_now_def Let_def sat_add_i64_def i64_clamp_def in_i64_def i64_min_def i64_max_def)

lemma in_i64_max: "in_i64 a \<Longrightarrow> in_i64 b \<Longrightarrow> in_i64 (max a b)"
  by (simp add: max_def)

lemma refresh_state:
  assumes "clock_wf c" "in_i64 w"
  shows "tc_state (trusted_clock (refresh_trusted_clock False w m c)) = tc_refresh (tc_state (trusted_clock c)) w m"
    "clock_wf (refresh_trusted_clock False w m c)"
  using assms in_i64_trusted in_i64_max
  by (auto simp: refresh_trusted_clock_def clock_sample_def clock_wf_def note_clock_divergence_def
      Let_def i64_wrap_id tc_refresh_def)

lemma reboot_state:
  assumes "clock_wf c" "in_i64 w"
  shows "tc_state (trusted_clock (open_clock False 0 w m (stored_clock c))) =
      \<lparr>last_wall = max w (high_water c), last_mono_ns = m\<rparr>"
    "clock_wf (open_clock False 0 w m (stored_clock c))"
  using assms in_i64_max
  by (auto simp: open_clock_def clock_wf_def rebaseline_on_boot_def Let_def i64_wrap_id)

lemma clock_history_mono:
  assumes "clock_wf c" "mono_ok (mono_mark c) es"
  shows "clock_wf (fold clock_step es c) \<and> high_water c \<le> high_water (fold clock_step es c)"
  using assms
proof (induction es arbitrary: c)
  case Nil
  then show ?case by simp
next
  case (Cons e es)
  have w: "in_i64 (high_water c)" using Cons.prems(1) by (simp add: clock_wf_def)
  have "clock_wf (clock_step e c) \<and> high_water c \<le> high_water (clock_step e c) \<and>
    mono_ok (mono_mark (clock_step e c)) es"
  proof (cases e)
    case (Refresh v m)
    then show ?thesis
      using Cons.prems trusted_now_ge [OF w, of m v] by (simp add: refresh_state tc_refresh_def)
  next
    case (Reboot v m)
    then show ?thesis using Cons.prems by (simp add: reboot_state)
  qed
  then show ?case using Cons.IH [of "clock_step e c"] by simp
qed

text \<open>
  C25. Once expired, always expired: if a retention date has passed at a refresh or start of the node, it
  counts as passed at every later moment, whatever the wall clock shows then and however often the
  node crashed and started in between.
\<close>

theorem trusted_clock_never_back:
  assumes "clock_wf c" "until \<le> high_water c" "mono_ok (mono_mark c) es"
    "mono_mark (fold clock_step es c) \<le> m" "in_i64 w"
  shows "until \<le> engine_lock_now (fold clock_step es c) w m \<and>
    retention_expired until w (trusted_now (tc_state (trusted_clock (fold clock_step es c))) w m)"
proof -
  let ?c = "fold clock_step es c"
  have c: "clock_wf ?c" "high_water c \<le> high_water ?c" using clock_history_mono assms(1,3) by blast+
  then have "high_water ?c \<le> trusted_now (tc_state (trusted_clock ?c)) w m"
    using assms(4) by (intro trusted_now_ge) (simp_all add: clock_wf_def)
  with c assms(2,5) show ?thesis
    by (auto simp: engine_lock_now_def clock_sample_def clock_wf_def i64_wrap_id lock_now_def retention_expired_def)
qed

text \<open>
  Histories in which the machine's clocks are honest: with \<open>t\<close> the true time in nanoseconds, the wall
  clock never shows a second that has not begun, and the monotonic clock never runs faster than time.
\<close>

fun clocks_honest :: "int \<Rightarrow> int \<Rightarrow> (clock_event \<times> int) list \<Rightarrow> bool" where
  "clocks_honest m t [] \<longleftrightarrow> True"
| "clocks_honest m t ((Refresh w m', t') # es) \<longleftrightarrow>
     m \<le> m' \<and> m' - m \<le> t' - t \<and> w * 1000000000 \<le> t' \<and> in_i64 w \<and> clocks_honest m' t' es"
| "clocks_honest m t ((Reboot w m', t') # es) \<longleftrightarrow>
     t \<le> t' \<and> w * 1000000000 \<le> t' \<and> in_i64 w \<and> clocks_honest m' t' es"

definition end_time :: "int \<Rightarrow> (clock_event \<times> int) list \<Rightarrow> int" where
  "end_time t es = (if es = [] then t else snd (last es))"

lemma trusted_now_honest:
  assumes "last_mono_ns s \<le> m" "m - last_mono_ns s \<le> t' - t" "last_wall s * 1000000000 \<le> t" "in_i64 (last_wall s)"
  shows "trusted_now s w m * 1000000000 \<le> t'"
proof -
  have "trusted_now s w m * 1000000000 \<le> (last_wall s + (m - last_mono_ns s) div 1000000000) * 1000000000"
    using trusted_now_le [OF assms(1,4), of w] by (intro mult_right_mono) simp_all
  also have "\<dots> \<le> last_wall s * 1000000000 + (m - last_mono_ns s)"
    using mult_div_mod_eq [of 1000000000 "m - last_mono_ns s"]
      pos_mod_sign [of 1000000000 "m - last_mono_ns s"] by (simp add: algebra_simps)
  also have "\<dots> \<le> t'" using assms(2,3) by simp
  finally show ?thesis .
qed

lemma clock_history_honest:
  assumes "clock_wf c" "high_water c * 1000000000 \<le> t" "clocks_honest (mono_mark c) t es"
  shows "clock_wf (fold clock_step (map fst es) c) \<and>
    high_water (fold clock_step (map fst es) c) * 1000000000 \<le> end_time t es"
  using assms
proof (induction es arbitrary: c t)
  case Nil
  then show ?case by (simp add: end_time_def)
next
  case (Cons et es)
  obtain e t' where et: "et = (e, t')" by (cases et)
  have w: "in_i64 (high_water c)" using Cons.prems(1) by (simp add: clock_wf_def)
  have *: "clock_wf (clock_step e c) \<and> high_water (clock_step e c) * 1000000000 \<le> t' \<and>
    clocks_honest (mono_mark (clock_step e c)) t' es"
  proof (cases e)
    case (Refresh v m)
    then show ?thesis
      using Cons.prems trusted_now_honest [OF _ _ _ w, of m t' t v] by (simp add: et refresh_state tc_refresh_def max_def)
  next
    case (Reboot v m)
    then show ?thesis using Cons.prems by (simp add: et reboot_state max_def)
  qed
  have "end_time t' es = end_time t (et # es)" by (simp add: end_time_def et)
  moreover have "clock_wf (fold clock_step (map fst es) (clock_step e c)) \<and>
      high_water (fold clock_step (map fst es) (clock_step e c)) * 1000000000 \<le> end_time t' es"
    using * by (intro Cons.IH) simp_all
  ultimately show ?case by (simp add: et)
qed

text \<open>
  C26. Never early: on a machine whose clocks are honest the time that decides retention never exceeds
  true time, so no retention date passes before its moment.
\<close>

theorem trusted_clock_never_early:
  assumes "clock_wf c" "high_water c * 1000000000 \<le> t" "clocks_honest (mono_mark c) t es"
    "c' = fold clock_step (map fst es) c"
    "mono_mark c' \<le> m" "m - mono_mark c' \<le> now - end_time t es" "in_i64 w" "w * 1000000000 \<le> now"
    "now < until * 1000000000"
  shows "engine_lock_now c' w m < until \<and> \<not> retention_expired until w (trusted_now (tc_state (trusted_clock c')) w m)"
proof -
  have c: "clock_wf c'" "high_water c' * 1000000000 \<le> end_time t es"
    using clock_history_honest [OF assms(1-3)] assms(4) by blast+
  have "trusted_now (tc_state (trusted_clock c')) w m * 1000000000 \<le> now"
    using c assms(5,6) by (intro trusted_now_honest [of _ _ _ "end_time t es"]) (simp_all add: clock_wf_def)
  with assms(8,9) have "trusted_now (tc_state (trusted_clock c')) w m < until" "w < until" by linarith+
  with c(1) assms(7) show ?thesis
    by (simp add: engine_lock_now_def clock_sample_def clock_wf_def i64_wrap_id lock_now_def retention_expired_def)
qed

section \<open>Properties of version ids\<close>

lemma vk_time_new: "new_version_vk now_us (Inr r) prev = Inr vk \<Longrightarrow>
    vk_time_us vk = (case prev of Some p \<Rightarrow> max now_us (u64_sat_add1 p) | None \<Rightarrow> now_us)"
  by (auto simp: new_version_vk_def vk_time_us_def Let_def)

lemma length_new_version_vk: "length r = 8 \<Longrightarrow> new_version_vk now_us (Inr r) prev = Inr vk \<Longrightarrow> length vk = 16"
  by (auto simp: new_version_vk_def Let_def)

lemma vk_less_of_time: "length a = 16 \<Longrightarrow> length b = 16 \<Longrightarrow> vk_time_us a < vk_time_us b \<Longrightarrow> a < b"
proof -
  assume l: "length a = 16" "length b = 16" and t: "vk_time_us a < vk_time_us b"
  have "take 8 a < take 8 b"
    using to_be_bytes_less [where 'a = 64, of "vk_time_us a" "vk_time_us b"] t l
    by (simp add: vk_time_us_def to_from_be_bytes)
  then have "take 8 a @ drop 8 a < take 8 b @ drop 8 b"
    using append_less_append [of "take 8 a" "take 8 b" "drop 8 a" "drop 8 b"] l by (simp only: length_take) simp
  then show ?thesis by (simp only: append_take_drop_id)
qed

lemma u64_sat_add1_gt: "p \<noteq> - 1 \<Longrightarrow> p < u64_sat_add1 p"
proof -
  assume "p \<noteq> - 1"
  then have "1 + p \<noteq> 0" by (metis add.commute eq_neg_iff_add_eq_0)
  then show ?thesis using unatSuc [of p] \<open>p \<noteq> - 1\<close>
    by (simp add: u64_sat_add1_def word_less_nat_alt add.commute)
qed

lemma nat_le_max: "nat_le k (256 ^ k - 1) = replicate k 0xFF"
proof (induction k)
  case (Suc k)
  have "256 ^ Suc k - 1 = (255 :: nat) + 256 * (256 ^ k - 1)"
    using one_le_power [of "256 :: nat" k] by (simp add: diff_mult_distrib2)
  then have "(256 ^ Suc k - 1) mod 256 = (255 :: nat)" "(256 ^ Suc k - 1) div 256 = (256 ^ k - 1 :: nat)"
    by simp_all
  with Suc show ?case by simp
qed simp

lemma to_be_bytes_max: "to_be_bytes (- 1 :: u64) = replicate 8 0xFF"
proof -
  have "unat (- 1 :: u64) = 256 ^ 8 - 1" by (simp add: unsigned_minus_1_eq_mask mask_eq_exp_minus_1)
  then show ?thesis using nat_le_max [of 8] by (simp add: to_be_bytes_def to_le_bytes_def)
qed

lemma new_version_vk_facts:
  assumes "length r = 8" "new_version_vk now_us (Inr r) prev = Inr vk"
  shows "length vk = 16 \<and> vk \<noteq> VK_NULL \<and> now_us \<le> vk_time_us vk \<and>
    (\<forall>p old. prev = Some p \<and> p \<noteq> - 1 \<and> length old = 16 \<and> vk_time_us old \<le> p \<longrightarrow> old < vk)"
proof (intro conjI allI impI)
  show len: "length vk = 16" using length_new_version_vk assms by blast
  define ts where "ts = (case prev of Some p \<Rightarrow> max now_us (u64_sat_add1 p) | None \<Rightarrow> now_us)"
  have t: "vk_time_us vk = ts" using vk_time_new [OF assms(2)] by (simp add: ts_def)
  then show "now_us \<le> vk_time_us vk" by (simp add: ts_def split: option.split)
  have vk: "vk = to_be_bytes ts @ (if ts = - 1 then r[0 := r ! 0 AND 0x7F] else r)"
    using assms(2) by (simp add: new_version_vk_def Let_def ts_def)
  show "vk \<noteq> VK_NULL"
  proof
    assume "vk = VK_NULL"
    then have e: "take 8 vk = replicate 8 0xFF" "vk ! 8 = 0xFF" by (simp_all add: VK_NULL_def)
    from e(1) have "to_be_bytes ts = to_be_bytes (- 1 :: u64)" by (simp add: vk to_be_bytes_max)
    then have "ts = - 1" using to_be_bytes_inject [where 'a = 64] by simp
    with e(2) assms(1) have "r ! 0 AND 0x7F = (0xFF :: u8)" by (simp add: vk nth_append)
    then have "bit (r ! 0 AND 0x7F) 7" by simp
    then show False by (simp add: bit_simps)
  qed
  fix p old assume a: "prev = Some p \<and> p \<noteq> - 1 \<and> length old = 16 \<and> vk_time_us old \<le> p"
  then have "vk_time_us old \<le> p" "p < u64_sat_add1 p" using u64_sat_add1_gt [of p] by simp_all
  then have "vk_time_us old < u64_sat_add1 p" by simp
  then have "vk_time_us old < vk_time_us vk" using a by (simp add: t ts_def less_max_iff_disj)
  with a len show "old < vk" using vk_less_of_time by blast
qed

text \<open>
  Version ids are 16 bytes, carry the time they were made for, never collide with the id of the null
  slot, and sort after every id whose time is at most the given previous one, even when the clock
  went back (unless the time field is already at its largest value).
\<close>

theorem new_version_vk_spec:
  assumes "length r = 8" "new_version_vk now_us (Inr r) prev = Inr vk"
  shows "length vk = 16 \<and> vk \<noteq> VK_NULL \<and> now_us \<le> vk_time_us vk \<and>
    (\<forall>p old. prev = Some p \<and> p \<noteq> - 1 \<and> length old = 16 \<and> vk_time_us old \<le> p \<longrightarrow> old < vk)"
  by (rule new_version_vk_facts [OF assms])

section \<open>Witnesses\<close>

definition demo_clock :: engine_clock where
  "demo_clock = open_clock False 0 1000 5000000000 None"

lemma demo_clock_wf: "clock_wf demo_clock"
  by code_simp

theorem trusted_clock_never_back_witness:
  "990 \<le> engine_lock_now (fold clock_step [Refresh 2000 6000000000, Reboot 500 0] demo_clock) 500 1"
  using trusted_clock_never_back [OF demo_clock_wf, of 990 "[Refresh 2000 6000000000, Reboot 500 0]" 1 500]
  by code_simp

theorem trusted_clock_never_early_witness:
  "engine_lock_now (fold clock_step [Refresh 1001 6000000000] demo_clock) 1002 7000000000 < 1003"
  using trusted_clock_never_early [OF demo_clock_wf, of 1000000000000 "[(Refresh 1001 6000000000, 1001000000000)]"
    "fold clock_step [Refresh 1001 6000000000] demo_clock" 7000000000 1002000000000 1002 1003]
  by code_simp

theorem new_version_vk_spec_witness:
  "length (to_be_bytes (8 :: u64) @ replicate 8 1) = 16 \<and> to_be_bytes (7 :: u64) @ replicate 8 255 < to_be_bytes (8 :: u64) @ replicate 8 1"
proof -
  have "new_version_vk 3 (Inr (replicate 8 1)) (Some 7) = Inr (to_be_bytes (8 :: u64) @ replicate 8 1)"
    by code_simp
  from new_version_vk_spec [OF _ this] have "length (to_be_bytes (8 :: u64) @ replicate 8 (1 :: u8)) = 16"
    "length old = 16 \<Longrightarrow> vk_time_us old \<le> 7 \<Longrightarrow> old < to_be_bytes (8 :: u64) @ replicate 8 1" for old
    by simp_all
  moreover have "length (to_be_bytes (7 :: u64) @ replicate 8 (255 :: u8)) = 16"
    "vk_time_us (to_be_bytes (7 :: u64) @ replicate 8 255) \<le> 7" by code_simp+
  ultimately show ?thesis by blast
qed

end
