(* ===== verification/Object_Meta.thy ===== *)
theory Object_Meta
  imports Alloc Clock
begin

text \<open>
  Metadata of objects and buckets (\<^verbatim>\<open>crates/fs3-core/src/types.rs\<close>). The stored formats of an object's
  metadata only ever append fields, so they are record extensions of each other here, and
  \<^verbatim>\<open>decode_value\<close> fills the missing tail. The serialisation library (postcard) is a parameter.
\<close>

section \<open>Parts\<close>

datatype sse_kind = SseC | SseS3 | SseKms

record sse_info =
  sse_kind :: sse_kind
  kek_id :: u32
  wrapped_dek :: bytes
  nonce_base :: bytes
  chunk_tags :: "bytes list"
  key_md5 :: bytes

datatype checksum_algorithm = Crc32c | Crc32 | Sha1 | Sha256 | Crc64Nvme

datatype checksum_type = Composite | FullObject

fun default_checksum_type :: "checksum_algorithm \<Rightarrow> checksum_type" where
  "default_checksum_type Crc32 = FullObject"
| "default_checksum_type Crc32c = FullObject"
| "default_checksum_type Crc64Nvme = FullObject"
| "default_checksum_type Sha1 = Composite"
| "default_checksum_type Sha256 = Composite"

record checksum_info =
  ck_algorithm :: checksum_algorithm
  ck_value :: bytes

datatype retention_mode = Governance | Compliance

record retention =
  ret_mode :: retention_mode
  retain_until :: int

datatype compression_algorithm = Zstd

record compression_info =
  z_algorithm :: compression_algorithm
  z_level :: u32
  z_original_size :: u64
  z_compressed_size :: u64

record restore_state =
  restored_until :: int
  restored_at :: int
  restored_size :: u64
  rst_tier :: bytes
  restored_extents :: "segment list"
  restored_inline :: "bytes option"

section \<open>Object metadata and its stored formats\<close>

record object_meta_legacy =
  om_size :: u64
  om_etag :: bytes
  om_mtime :: int
  om_extents :: "segment list"
  om_content_type :: bytes
  om_user_meta :: "(bytes \<times> bytes) list"
  om_inline :: "bytes option"
  om_parts :: "u64 list"

record object_meta_v2 = object_meta_legacy +
  om_resp_headers :: "(bytes \<times> bytes) list"

record object_meta_v3 = object_meta_v2 +
  om_version_id :: "bytes option"
  om_is_delete_marker :: bool
  om_tags :: "(bytes \<times> bytes) list"
  om_sse :: "sse_info option"
  om_checksum :: "checksum_info option"
  om_retention :: "retention option"
  om_legal_hold :: bool

record object_meta_v4 = object_meta_v3 +
  om_part_checksums :: "checksum_info option list"

record object_meta_v5 = object_meta_v4 +
  om_compressed :: "compression_info option"

record object_meta_v6 = object_meta_v5 +
  om_requested_storage_class :: "bytes option"

record object_meta = object_meta_v6 +
  om_storage_class :: "bytes option"
  om_restore_state :: "restore_state option"

definition of_v6 :: "object_meta_v6 \<Rightarrow> object_meta" where
  "of_v6 l = object_meta_v6.extend l (object_meta.fields None None)"

definition of_v5 :: "object_meta_v5 \<Rightarrow> object_meta" where
  "of_v5 l = of_v6 (object_meta_v5.extend l (object_meta_v6.fields None))"

definition of_v4 :: "object_meta_v4 \<Rightarrow> object_meta" where
  "of_v4 l = of_v5 (object_meta_v4.extend l (object_meta_v5.fields None))"

definition of_v3 :: "object_meta_v3 \<Rightarrow> object_meta" where
  "of_v3 l = of_v4 (object_meta_v3.extend l (object_meta_v4.fields []))"

definition of_v2 :: "object_meta_v2 \<Rightarrow> object_meta" where
  "of_v2 l = of_v3 (object_meta_v2.extend l (object_meta_v3.fields None False [] None None None False))"

definition of_legacy :: "object_meta_legacy \<Rightarrow> object_meta" where
  "of_legacy l = of_v2 (object_meta_legacy.extend l (object_meta_v2.fields []))"

definition OBJECT_META_VERSION :: u8 where
  "OBJECT_META_VERSION = 7"

text \<open>What the code uses of postcard: an encoder, and a decoder per stored structure.\<close>

record postcard =
  pc_encode :: "object_meta \<Rightarrow> bytes option"
  pc_v7 :: "bytes \<Rightarrow> object_meta option"
  pc_v6 :: "bytes \<Rightarrow> object_meta_v6 option"
  pc_v5 :: "bytes \<Rightarrow> object_meta_v5 option"
  pc_v4 :: "bytes \<Rightarrow> object_meta_v4 option"
  pc_v3 :: "bytes \<Rightarrow> object_meta_v3 option"
  pc_v2 :: "bytes \<Rightarrow> object_meta_v2 option"
  pc_legacy :: "bytes \<Rightarrow> object_meta_legacy option"

definition ok_or :: "'e \<Rightarrow> 'a option \<Rightarrow> 'e + 'a" where
  "ok_or e r = (case r of Some x \<Rightarrow> Inr x | None \<Rightarrow> Inl e)"

lemma ok_or_simps [simp, result_simps]: "ok_or e (Some x) = Inr x" "ok_or e None = Inl e"
  by (simp_all add: ok_or_def)

lemma ok_or_Inr: "ok_or e r = Inr x \<longleftrightarrow> r = Some x"
  by (cases r) auto

definition encode_value :: "postcard \<Rightarrow> object_meta \<Rightarrow> bytes result" where
  "encode_value pc m = bind_res (ok_or Meta (pc_encode pc m)) (\<lambda>p. Inr (OBJECT_META_VERSION # p))"

definition decode_value :: "postcard \<Rightarrow> bytes \<Rightarrow> object_meta result" where
  "decode_value pc buf =
     (case buf of
        [] \<Rightarrow> Inl Corrupt
      | ver # b \<Rightarrow>
          if ver = OBJECT_META_VERSION then ok_or Corrupt (pc_v7 pc b)
          else if ver = 6 then ok_or Corrupt (map_option of_v6 (pc_v6 pc b))
          else if ver = 5 then ok_or Corrupt (map_option of_v5 (pc_v5 pc b))
          else if ver = 4 then ok_or Corrupt (map_option of_v4 (pc_v4 pc b))
          else if ver = 3 then ok_or Corrupt (map_option of_v3 (pc_v3 pc b))
          else if ver = 2 then
            (case pc_v2 pc b of
               Some m \<Rightarrow> Inr (of_v2 m)
             | None \<Rightarrow> ok_or Corrupt (map_option of_legacy (pc_legacy pc b)))
          else Inl Corrupt)"

section \<open>Methods\<close>

definition is_archive_class :: "bytes \<Rightarrow> bool" where
  "is_archive_class c \<longleftrightarrow> eq_ignore_case c (lit ''GLACIER_IR'') \<or> eq_ignore_case c (lit ''GLACIER'') \<or>
     eq_ignore_case c (lit ''DEEP_ARCHIVE'')"

definition checksum_type :: "object_meta \<Rightarrow> checksum_type option" where
  "checksum_type m = (case om_checksum m of
       None \<Rightarrow> None
     | Some info \<Rightarrow> if om_parts m = [] then Some FullObject else Some (default_checksum_type (ck_algorithm info)))"

definition storage_class_name :: "object_meta \<Rightarrow> bytes" where
  "storage_class_name m = (case om_storage_class m of Some c \<Rightarrow> c | None \<Rightarrow> lit ''STANDARD'')"

definition is_archive :: "object_meta \<Rightarrow> bool" where
  "is_archive m \<longleftrightarrow> (case om_storage_class m of Some c \<Rightarrow> is_archive_class c | None \<Rightarrow> False)"

definition archive_needs_restore :: "object_meta \<Rightarrow> bool" where
  "archive_needs_restore m \<longleftrightarrow> (case om_storage_class m of
       Some c \<Rightarrow> eq_ignore_case c (lit ''GLACIER'') \<or> eq_ignore_case c (lit ''DEEP_ARCHIVE'')
     | None \<Rightarrow> False)"

definition restore_ongoing :: "object_meta \<Rightarrow> bool" where
  "restore_ongoing m \<longleftrightarrow> (case om_restore_state m of Some st \<Rightarrow> restored_until st = 0 | None \<Rightarrow> False)"

definition restore_valid :: "object_meta \<Rightarrow> int \<Rightarrow> bool" where
  "restore_valid m now \<longleftrightarrow> (case om_restore_state m of
       Some st \<Rightarrow> 0 < restored_until st \<and> now < restored_until st | None \<Rightarrow> False)"

definition restore_expired :: "object_meta \<Rightarrow> int \<Rightarrow> bool" where
  "restore_expired m now \<longleftrightarrow> (case om_restore_state m of
       Some st \<Rightarrow> 0 < restored_until st \<and> restored_until st \<le> now | None \<Rightarrow> False)"

text \<open>The entry that marks a deletion (\<^verbatim>\<open>delete_marker_meta\<close> of \<^verbatim>\<open>crates/fs3-engine/src/lib.rs\<close>).\<close>

definition delete_marker_meta :: "int \<Rightarrow> bytes option \<Rightarrow> object_meta" where
  "delete_marker_meta now_ts vid =
     \<lparr>om_size = 0, om_etag = replicate 16 0, om_mtime = now_ts, om_extents = [], om_content_type = [],
      om_user_meta = [], om_inline = None, om_parts = [], om_resp_headers = [], om_version_id = vid,
      om_is_delete_marker = True, om_tags = [], om_sse = None, om_checksum = None, om_retention = None,
      om_legal_hold = False, om_part_checksums = [], om_compressed = None, om_requested_storage_class = None,
      om_storage_class = None, om_restore_state = None\<rparr>"

section \<open>Buckets\<close>

datatype versioning_state = Off | Enabled | Suspended

datatype sse_algorithm = Aes256 | AlgKms

datatype retention_period_unit = Days | Years

record default_retention =
  dr_mode :: retention_mode
  dr_unit :: retention_period_unit
  dr_n :: int

record class_tally =
  ct_objects :: u64
  ct_bytes :: u64

record bucket_stats =
  bs_objects :: u64
  bs_bytes :: u64
  bs_by_class :: "(bytes \<times> class_tally) list"

record bucket_meta =
  bk_created :: int
  bk_owner :: bytes
  bk_stats :: bucket_stats
  bk_quota :: "u64 option"
  bk_created_with_acl :: bool
  bk_versioning :: versioning_state
  bk_default_encryption :: "sse_algorithm option"
  bk_object_lock :: bool
  bk_default_retention :: "default_retention option"
  bk_default_kms_key :: "bytes option"

definition class_tally_of :: "bucket_stats \<Rightarrow> bytes \<Rightarrow> class_tally" where
  "class_tally_of st class = (case map_of (bs_by_class st) class of Some t \<Rightarrow> t | None \<Rightarrow> \<lparr>ct_objects = 0, ct_bytes = 0\<rparr>)"

text \<open>\<^verbatim>\<open>t as i64 + d\<close>, clamped at zero and read back as an unsigned value.\<close>

definition tally_add :: "u64 \<Rightarrow> int \<Rightarrow> u64" where
  "tally_add t d = of_int (max 0 (i64_wrap (sint t + d)))"

fun bump_class :: "bytes \<Rightarrow> int \<Rightarrow> int \<Rightarrow> (bytes \<times> class_tally) list \<Rightarrow> (bytes \<times> class_tally) list" where
  "bump_class class dobj dbytes [] = [(class, \<lparr>ct_objects = of_int (max 0 dobj), ct_bytes = of_int (max 0 dbytes)\<rparr>)]"
| "bump_class class dobj dbytes ((c, t) # ts) =
     (if c = class
      then (c, \<lparr>ct_objects = tally_add (ct_objects t) dobj, ct_bytes = tally_add (ct_bytes t) dbytes\<rparr>) # ts
      else (c, t) # bump_class class dobj dbytes ts)"

definition apply_class_delta :: "bytes \<times> int \<times> int \<Rightarrow> bucket_stats \<Rightarrow> bucket_stats" where
  "apply_class_delta = (\<lambda>(class, dobj, dbytes) st.
     (if dobj = 0 \<and> dbytes = 0 then st
      else st\<lparr>bs_by_class := filter (\<lambda>(_, t). ct_objects t \<noteq> 0 \<or> ct_bytes t \<noteq> 0)
                (bump_class class dobj dbytes (bs_by_class st))\<rparr>))"

definition class_sum :: "bucket_stats \<Rightarrow> u64 \<times> u64" where
  "class_sum st = fold (\<lambda>(_, t) (ob, by). (ob + ct_objects t, by + ct_bytes t)) (bs_by_class st) (0, 0)"

section \<open>Lifecycle rules, events and restore jobs\<close>

datatype lifecycle_status = LcEnabled | LcDisabled

record lifecycle_filter =
  lf_prefix :: bytes
  lf_tags :: "(bytes \<times> bytes) list"

record lifecycle_expiration =
  le_days :: "u32 option"
  le_date :: "int option"
  le_expired_object_delete_marker :: bool

record noncurrent_expiration =
  ne_noncurrent_days :: "u32 option"
  ne_newer_noncurrent_versions :: "u32 option"

record lifecycle_transition =
  lt_days :: "u32 option"
  lt_date :: "int option"
  lt_storage_class :: bytes

record lifecycle_rule =
  lr_id :: bytes
  lr_status :: lifecycle_status
  lr_filter :: lifecycle_filter
  lr_expiration :: "lifecycle_expiration option"
  lr_noncurrent_expiration :: "noncurrent_expiration option"
  lr_transition :: "lifecycle_transition option"
  lr_abort_incomplete_multipart :: "u32 option"
  lr_legacy_prefix :: bool

record event_record =
  ev_seq :: u64
  ev_ts :: u64
  ev_bucket :: bytes
  ev_key :: bytes
  ev_event :: bytes
  ev_etag :: "bytes option"
  ev_size :: "u64 option"
  ev_version_id :: "bytes option"
  ev_delete_marker :: bool
  ev_dead :: bool
  ev_sse :: "bytes option"

record restore_job =
  rj_bucket :: bytes
  rj_key :: bytes
  rj_vk :: "bytes option"
  rj_enqueued_at :: int
  rj_days :: u32
  rj_tier :: bytes

section \<open>Properties\<close>

lemmas meta_upgrade_defs = of_v6_def of_v5_def of_v4_def of_v3_def of_v2_def of_legacy_def
  object_meta_v6.extend_def object_meta_v5.extend_def object_meta_v4.extend_def object_meta_v3.extend_def
  object_meta_v2.extend_def object_meta_legacy.extend_def object_meta.fields_def object_meta_v6.fields_def
  object_meta_v5.fields_def object_meta_v4.fields_def object_meta_v3.fields_def object_meta_v2.fields_def

text \<open>
  The restore flags of an object are exclusive: at any moment at most one of "in progress", "valid"
  and "expired" holds, and once a restored copy has expired it stays so.
\<close>

theorem restore_flags_exclusive:
  "\<not> (restore_ongoing m \<and> restore_valid m now) \<and> \<not> (restore_ongoing m \<and> restore_expired m now) \<and>
   \<not> (restore_valid m now \<and> restore_expired m now) \<and>
   (restore_expired m now \<and> now \<le> later \<longrightarrow> restore_expired m later \<and> \<not> restore_valid m later)"
  by (auto simp: restore_ongoing_def restore_valid_def restore_expired_def split: option.splits)

text \<open>
  Metadata values round trip, and every older format stays readable: its fields come back unchanged,
  without retention, hold, storage class or restore state, except that format 3 and later keep their
  lock fields. The library is assumed to decode what it encoded.
\<close>

theorem object_meta_roundtrip:
  assumes "\<And>m p. pc_encode pc m = Some p \<Longrightarrow> pc_v7 pc p = Some m"
  shows "(encode_value pc m = Inr v \<longrightarrow> decode_value pc v = Inr m) \<and>
    (\<forall>l. pc_v3 pc p = Some l \<longrightarrow> (\<exists>n. decode_value pc (3 # p) = Inr n \<and> om_extents n = om_extents l \<and>
        om_retention n = om_retention l \<and> om_legal_hold n = om_legal_hold l \<and> om_storage_class n = None)) \<and>
    (\<forall>l. pc_v2 pc p = None \<and> pc_legacy pc p = Some l \<longrightarrow> (\<exists>n. decode_value pc (2 # p) = Inr n \<and>
        om_extents n = om_extents l \<and> om_size n = om_size l \<and> \<not> om_is_delete_marker n \<and> om_retention n = None))"
  using assms
  by (auto simp: encode_value_def decode_value_def OBJECT_META_VERSION_def bind_res_eq_Inr ok_or_Inr meta_upgrade_defs)

end
