(* ===== verification/Key_Codec.thy ===== *)
theory Key_Codec
  imports Keys
begin

text \<open>
  What the key space promises its clients. The locale \<open>key_codec\<close> is the contract of a key family
  (parsing what was built gives the parts back, so distinct parts have distinct keys), \<open>seq_codec\<close> adds
  that byte order is the order of the parts, on which the scans of the store rely; both are interpreted
  for the families of \<^verbatim>\<open>keys.rs\<close>. Then the escaping, the prefix scans and the separation of families.
\<close>

section \<open>Contracts\<close>

locale key_codec =
  fixes build :: "'a \<Rightarrow> bytes" and parse :: "bytes \<Rightarrow> 'a result" and valid :: "'a \<Rightarrow> bool"
  assumes parse_build: "valid x \<Longrightarrow> parse (build x) = Inr x"
begin

lemma build_inject: "valid x \<Longrightarrow> valid y \<Longrightarrow> build x = build y \<longleftrightarrow> x = y"
  using parse_build by (metis Inr_inject)

lemma lookup_distinct: "valid x \<Longrightarrow> valid y \<Longrightarrow> x \<noteq> y \<Longrightarrow> (m(build x \<mapsto> v)) (build y) = m (build y)"
  using build_inject by auto

end

locale seq_codec = key_codec +
  fixes less :: "'a \<Rightarrow> 'a \<Rightarrow> bool"
  assumes build_less: "valid x \<Longrightarrow> valid y \<Longrightarrow> build x < build y \<longleftrightarrow> less x y"
begin

text \<open>A scan in key order visits the entries in the order of their parts.\<close>

lemma scan_order:
  assumes "\<forall>x \<in> set xs. valid x"
  shows "sorted_wrt (<) (map build xs) \<longleftrightarrow> sorted_wrt less xs"
  using assms by (induction xs) (auto simp: build_less)

text \<open>The entries at or after a cursor are those whose keys are.\<close>

lemma cursor_split:
  assumes "\<forall>x \<in> set xs. valid x" "valid c"
  shows "map build (filter (\<lambda>x. \<not> less x c) xs) = filter (\<lambda>k. \<not> k < build c) (map build xs)"
  using assms by (induction xs) (auto simp: build_less)

end

section \<open>Evaluation of the shared shapes\<close>

lemma key_body_append [simp]: "key_body p (p @ body) = Inr body"
  by (simp add: key_body_def)

lemma key_sep_append [simp]:
  assumes "0 \<notin> set a"
  shows "key_sep (a @ 0 # r) = Inr (length a)"
proof -
  have "\<forall>x \<in> set a. \<not> x = 0" using assms by blast
  then show ?thesis using position_append [of a "\<lambda>b. b = 0" 0 r] by (simp add: key_sep_def)
qed

lemma parse_text_build: "utf8_valid s \<Longrightarrow> parse_text p (p @ s) = Inr s"
  by (simp add: parse_text_def from_utf8_def)

lemma parse_pair_build:
  "utf8_valid a \<Longrightarrow> utf8_valid b \<Longrightarrow> 0 \<notin> set a \<Longrightarrow> parse_pair p (p @ a @ [0] @ b) = Inr (a, b)"
  by (simp add: parse_pair_def from_utf8_def)

lemma parse_be64_build: "parse_be64 p (p @ to_be_bytes seq) = Inr seq"
  by (simp add: parse_be64_def)

lemma be64_less: "p @ to_be_bytes (m :: u64) < p @ to_be_bytes n \<longleftrightarrow> m < n"
  using append_less_append [of p p] to_be_bytes_less [where 'a = 64] by simp

lemma gtid_of_bytes_build:
  assumes "g_epoch g < 2 ^ 64" "g_seq g < 2 ^ 64"
  shows "gtid_of_bytes (gtid_bytes g) = Inr g"
proof -
  have "unat (of_nat (g_epoch g) :: u64) = g_epoch g" "unat (of_nat (g_seq g) :: u64) = g_seq g"
    using assms by (simp_all add: unat_of_nat)
  then show ?thesis by (simp add: gtid_of_bytes_def gtid_bytes_def)
qed

definition gtid_ok :: "gtid \<Rightarrow> bool" where
  "gtid_ok g \<longleftrightarrow> g_epoch g < 2 ^ 64 \<and> g_seq g < 2 ^ 64"

lemma of_nat_u64_less: "m < 2 ^ 64 \<Longrightarrow> n < 2 ^ 64 \<Longrightarrow> (of_nat m :: u64) < of_nat n \<longleftrightarrow> m < n"
  by (simp add: word_less_nat_alt unat_of_nat)

lemma of_nat_u64_eq: "m < 2 ^ 64 \<Longrightarrow> n < 2 ^ 64 \<Longrightarrow> (of_nat m :: u64) = of_nat n \<longleftrightarrow> m = n"
proof -
  assume "m < 2 ^ 64" "n < 2 ^ 64"
  then have "unat (of_nat m :: u64) = m" "unat (of_nat n :: u64) = n" by (simp_all add: unat_of_nat)
  then show ?thesis by metis
qed

lemma gtid_bytes_less:
  assumes "gtid_ok g" "gtid_ok h"
  shows "gtid_bytes g < gtid_bytes h \<longleftrightarrow> gtid_less g h"
  using assms to_be_bytes_less [where 'a = 64] to_be_bytes_inject [where 'a = 64]
  by (simp add: gtid_bytes_def gtid_less_def gtid_ok_def append_less_append of_nat_u64_less of_nat_u64_eq)

lemma prefix_gtid_less: "gtid_ok g \<Longrightarrow> gtid_ok h \<Longrightarrow> p @ gtid_bytes g < p @ gtid_bytes h \<longleftrightarrow> gtid_less g h"
  using append_less_append [of p p] gtid_bytes_less by simp

lemma binlog_key_gtid: "binlog_key (of_nat (g_epoch g)) (of_nat (g_seq g)) = PREFIX_BINLOG @ gtid_bytes g"
  by (simp add: binlog_key_def gtid_bytes_def)

section \<open>Sequence-numbered families\<close>

interpretation alloc_keys: seq_codec alloc_key parse_alloc_seq "\<lambda>_. True" "(<)"
  by unfold_locales (simp_all add: alloc_key_def parse_alloc_seq_def parse_be64_build be64_less)

interpretation audit_keys: seq_codec audit_entry_key parse_audit_seq "\<lambda>_. True" "(<)"
  by unfold_locales (simp_all add: audit_entry_key_def parse_audit_seq_def parse_be64_build be64_less)

interpretation event_keys: seq_codec event_key parse_event_seq "\<lambda>_. True" "(<)"
  by unfold_locales (simp_all add: event_key_def parse_event_seq_def parse_be64_build be64_less)

interpretation restore_keys: seq_codec restore_job_key parse_restore_job_seq "\<lambda>_. True" "(<)"
  by unfold_locales (simp_all add: restore_job_key_def parse_restore_job_seq_def parse_be64_build be64_less)

interpretation binlog_keys: seq_codec
  "\<lambda>g. binlog_key (of_nat (g_epoch g)) (of_nat (g_seq g))" parse_binlog_gtid gtid_ok gtid_less
proof
  fix g h assume "gtid_ok g"
  then show "parse_binlog_gtid (binlog_key (of_nat (g_epoch g)) (of_nat (g_seq g))) = Inr g"
    unfolding binlog_key_gtid by (simp add: parse_binlog_gtid_def gtid_ok_def gtid_of_bytes_build)
  assume "gtid_ok h"
  with \<open>gtid_ok g\<close> show "binlog_key (of_nat (g_epoch g)) (of_nat (g_seq g)) <
      binlog_key (of_nat (g_epoch h)) (of_nat (g_seq h)) \<longleftrightarrow> gtid_less g h"
    unfolding binlog_key_gtid by (rule prefix_gtid_less)
qed

interpretation pending_keys: seq_codec repl_pending_key parse_repl_pending_key gtid_ok gtid_less
  by unfold_locales
    (simp_all add: repl_pending_key_def parse_repl_pending_key_def gtid_ok_def gtid_of_bytes_build
      prefix_gtid_less)

interpretation cursor_values: key_codec repl_cursor_value parse_repl_cursor_value gtid_ok
  by unfold_locales (simp add: repl_cursor_value_def parse_repl_cursor_value_def gtid_ok_def gtid_of_bytes_build)

interpretation rmap_keys: key_codec "\<lambda>(ep, e, off, l). repl_rmap_key ep e off l" parse_repl_rmap_key "\<lambda>_. True"
  by unfold_locales (auto simp: repl_rmap_key_def parse_repl_rmap_key_def)

section \<open>Text families\<close>

definition name_ok :: "bytes \<Rightarrow> bool" where
  "name_ok s \<longleftrightarrow> utf8_valid s \<and> 0 \<notin> set s"

interpretation sts_keys: key_codec sts_session_key parse_sts_session_id utf8_valid
  by unfold_locales (simp add: sts_session_key_def parse_sts_session_id_def parse_text_build)

interpretation access_keys: key_codec key_key parse_key_key utf8_valid
  by unfold_locales (simp add: key_key_def parse_key_key_def parse_text_build)

interpretation notification_keys: key_codec "\<lambda>(b, r). notification_rule_key b r"
  parse_notification_rule_key "\<lambda>(b, r). name_ok b \<and> utf8_valid r"
  by unfold_locales
    (auto simp: notification_rule_key_def parse_notification_rule_key_def name_ok_def
      parse_pair_build [simplified])

interpretation inventory_keys: key_codec "\<lambda>(b, i). inventory_config_key b i"
  parse_inventory_config_key "\<lambda>(b, i). name_ok b \<and> utf8_valid i"
  by unfold_locales
    (auto simp: inventory_config_key_def parse_inventory_config_key_def name_ok_def
      parse_pair_build [simplified])

lemma validate_iam_name_Inr:
  "validate_iam_name s = Inr () \<longleftrightarrow> s \<noteq> [] \<and> length s \<le> 128 \<and> list_all iam_char s"
  by (auto simp: validate_iam_name_def IAM_NAME_MAX_def)

lemma iam_char_ascii: "iam_char b \<Longrightarrow> b < 0x80 \<and> b \<noteq> 0 \<and> b \<noteq> 0x3A"
proof -
  assume "iam_char b"
  then consider "is_ascii_alnum b" | "b \<in> set [95, 43, 61, 44, 46, 64, 45]"
    by (auto simp: iam_char_def lit_def)
  then show ?thesis
  proof cases
    case 1
    then show ?thesis unfolding is_ascii_alnum_def is_ascii_upper_def is_ascii_lower_def is_ascii_digit_def
      by (auto simp: word_le_nat_alt word_less_nat_alt)
  qed auto
qed

lemma iam_name_ok: "validate_iam_name s = Inr () \<Longrightarrow> name_ok s"
  using iam_char_ascii utf8_ascii [of s] by (auto simp: validate_iam_name_Inr name_ok_def list_all_iff)

lemma iam_entity_roundtrip:
  "iam_entity_key p t n = Inr k \<Longrightarrow> parse_iam_entity_key p k = Inr (t, n)"
  using iam_name_ok parse_pair_build [of t n p]
  by (auto simp: iam_entity_key_def parse_iam_entity_key_def bind_res_eq_Inr name_ok_def)


section \<open>Object keys\<close>

lemma unescape_escape: "unescape (escape raw) = Inr raw"
  by (induction raw rule: escape.induct) auto

lemma escape_append: "escape (a @ b) = escape a @ escape b"
  by (induction a) auto

text \<open>An escaped key holds no separator at a fresh position.\<close>

lemma version_sep_escape: "version_sep (escape raw) = None"
  by (induction raw rule: escape.induct) auto

lemma version_sep_escape_sep: "version_sep (escape raw @ 0 # vk) = Some (length (escape raw))"
  by (induction raw rule: escape.induct) auto

lemma escape_hd: "escape (b # r) = c # s \<Longrightarrow> c \<noteq> 0"
  by (auto split: if_splits)

lemma escape_eq_append:
  "escape k = escape j @ r \<Longrightarrow> \<exists>i. k = j @ i \<and> r = escape i"
proof (induction j arbitrary: k)
  case Nil
  then show ?case by simp
next
  case (Cons b j)
  then obtain c k' where k: "k = c # k'" by (cases k) (auto split: if_splits)
  with Cons.prems have "c = b" "escape k' = escape j @ r" by (auto split: if_splits)
  with Cons.IH [of k'] k show ?case by auto
qed

text \<open>
  An escaped key followed by a separator is never a prefix of another key of the bucket: what follows
  an escaped prefix of an escaped key is the start of an escape.
\<close>

lemma escape_sep_inj:
  "escape j @ 0 # r = escape k @ 0 # s \<Longrightarrow> j = k \<and> r = s"
proof -
  assume eq: "escape j @ 0 # r = escape k @ 0 # s"
  then have "version_sep (escape j @ 0 # r) = version_sep (escape k @ 0 # s)" by simp
  then have "length (escape j) = length (escape k)" by (simp add: version_sep_escape_sep)
  with eq have "escape j = escape k" "r = s" by simp_all
  then show ?thesis using unescape_escape by (metis Inr_inject)
qed

lemma escape_sep_not_escape: "escape j @ 0 # r \<noteq> escape k"
  using version_sep_escape_sep [of j r] version_sep_escape [of k] by auto

lemma bucket_sep_inj:
  fixes a b :: bytes
  assumes "0 \<notin> set a" "0 \<notin> set b" "a @ 0 # r = b @ 0 # s"
  shows "a = b \<and> r = s"
proof -
  have "key_sep (a @ 0 # r) = key_sep (b @ 0 # s)" using assms(3) by simp
  then have "length a = length b" using assms(1,2) by simp
  with assms(3) show ?thesis by simp
qed

lemma object_key_body: "object_key b k = PREFIX_OBJECT @ b @ 0 # escape k"
  by (simp add: object_key_def)

lemma parse_object_version_key_plain:
  assumes "name_ok b" "utf8_valid k"
  shows "parse_object_version_key (object_key b k) = Inr (b, k, None)"
  using assms
  by (simp add: object_key_body parse_object_version_key_def name_ok_def version_sep_escape
      unescape_escape from_utf8_def)

lemma parse_object_version_key_vk:
  assumes "name_ok b" "utf8_valid k" "length vk = 16"
  shows "parse_object_version_key (object_version_key b k vk) = Inr (b, k, Some vk)"
proof -
  have "object_version_key b k vk = PREFIX_OBJECT @ b @ 0 # (escape k @ 0 # vk)"
    by (simp add: object_version_key_def object_key_body)
  then show ?thesis
    using assms by (simp add: parse_object_version_key_def name_ok_def version_sep_escape_sep
      unescape_escape from_utf8_def Let_def)
qed

definition object_ref_key :: "bytes \<times> bytes \<times> bytes option \<Rightarrow> bytes" where
  "object_ref_key = (\<lambda>(b, k, v). case v of None \<Rightarrow> object_key b k | Some vk \<Rightarrow> object_version_key b k vk)"

definition object_ref_ok :: "bytes \<times> bytes \<times> bytes option \<Rightarrow> bool" where
  "object_ref_ok = (\<lambda>(b, k, v). name_ok b \<and> utf8_valid k \<and> (case v of None \<Rightarrow> True | Some vk \<Rightarrow> length vk = 16))"

interpretation object_keys: key_codec object_ref_key parse_object_version_key object_ref_ok
  by unfold_locales
    (auto simp: object_ref_key_def object_ref_ok_def parse_object_version_key_plain
      parse_object_version_key_vk split: option.splits)

interpretation pending_obj_keys: key_codec "\<lambda>(b, k). repl_pending_obj_key b k"
  parse_repl_pending_obj_key "\<lambda>(b, k). name_ok b \<and> utf8_valid k"
  by unfold_locales
    (auto simp: repl_pending_obj_key_def parse_repl_pending_obj_key_def name_ok_def unescape_escape
      from_utf8_def)

text \<open>
  C9. Object keys round trip: whatever the object key contains (separators and escape bytes included),
  both forms of an object's store key parse back to its bucket, key and version, and two different
  objects or versions never share a store key.
\<close>

theorem object_key_roundtrip:
  assumes "object_ref_ok x" "object_ref_ok y"
  shows "parse_object_version_key (object_ref_key x) = Inr x \<and>
    (object_ref_key x = object_ref_key y \<longleftrightarrow> x = y)"
  using object_keys.parse_build [OF assms(1)] object_keys.build_inject [OF assms] by simp

text \<open>
  The plain parser accepts exactly the plain form and reports a versioned key as corrupt instead of
  swallowing its suffix.
\<close>

theorem parse_object_key_rejects_versions:
  assumes "object_ref_ok (b, k, v)"
  shows "parse_object_key (object_ref_key (b, k, v)) =
    (case v of None \<Rightarrow> Inr (b, k) | Some vk \<Rightarrow> Inl Corrupt)"
  using object_keys.parse_build [OF assms] by (simp add: parse_object_key_def split: option.split)

section \<open>Prefix scans\<close>

lemma prefix_cancel: "prefix (p @ a) (p @ b) \<longleftrightarrow> prefix a b"
  by simp

lemma prefix_bucket_iff:
  fixes a b :: bytes
  assumes "0 \<notin> set a" "0 \<notin> set b"
  shows "prefix (a @ [0]) (b @ 0 # r) \<longleftrightarrow> a = b"
proof
  assume "prefix (a @ [0]) (b @ 0 # r)"
  then obtain s where "b @ 0 # r = a @ 0 # s" by (auto simp: prefix_def)
  from bucket_sep_inj [OF assms(2,1) this] show "a = b" by simp
qed (simp add: prefix_def)

lemma prefix_sep_iff:
  "prefix (escape j @ [0]) (escape k @ 0 # s) \<longleftrightarrow> j = k" "\<not> prefix (escape j @ [0]) (escape k)"
proof -
  show "prefix (escape j @ [0]) (escape k @ 0 # s) \<longleftrightarrow> j = k"
  proof
    assume "prefix (escape j @ [0]) (escape k @ 0 # s)"
    then obtain r where "escape k @ 0 # s = escape j @ 0 # r" by (auto simp: prefix_def)
    from escape_sep_inj [OF this] show "j = k" by simp
  qed (simp add: prefix_def)
  show "\<not> prefix (escape j @ [0]) (escape k)"
  proof
    assume "prefix (escape j @ [0]) (escape k)"
    then obtain r where "escape k = escape j @ 0 # r" by (auto simp: prefix_def)
    with escape_sep_not_escape [of j r k] show False by simp
  qed
qed

lemma scan_exact:
  assumes "0 \<notin> set b" "object_ref_ok (b', k', v)"
  shows "(prefix (object_prefix b) (object_ref_key (b', k', v)) \<longleftrightarrow> b = b') \<and>
    (prefix (object_key_prefix b k) (object_ref_key (b', k', v)) \<longleftrightarrow> b = b' \<and> k = k' \<and> v \<noteq> None)"
proof -
  have nb: "0 \<notin> set b'" using assms(2) by (simp add: object_ref_ok_def name_ok_def)
  obtain s where s: "object_ref_key (b', k', v) = PREFIX_OBJECT @ b' @ 0 # s"
    "s = (case v of None \<Rightarrow> escape k' | Some vk \<Rightarrow> escape k' @ 0 # vk)"
    by (cases v) (auto simp: object_ref_key_def object_version_key_def object_key_body)
  have one: "prefix (object_prefix b) (object_ref_key (b', k', v)) \<longleftrightarrow> b = b'"
    using prefix_bucket_iff [OF assms(1) nb] by (simp add: object_prefix_def s(1))
  have "prefix (object_key_prefix b k) (object_ref_key (b', k', v)) \<longleftrightarrow>
      b = b' \<and> prefix (escape k @ [0]) s"
  proof
    assume p: "prefix (object_key_prefix b k) (object_ref_key (b', k', v))"
    then have "prefix ((b @ [0]) @ escape k @ [0]) (b' @ 0 # s)"
      by (simp add: object_key_prefix_def object_key_body s(1))
    then have "b = b'" using prefix_bucket_iff [OF assms(1) nb] by (metis append_prefixD)
    with p show "b = b' \<and> prefix (escape k @ [0]) s"
      by (simp add: object_key_prefix_def object_key_body s(1))
  qed (simp add: object_key_prefix_def object_key_body s(1))
  also have "\<dots> \<longleftrightarrow> b = b' \<and> k = k' \<and> v \<noteq> None"
    by (cases v) (auto simp: s(2) prefix_sep_iff)
  finally show ?thesis using one by blast
qed

text \<open>
  Scans are exact: the bucket prefix covers every object and version of that bucket and of no other,
  and the prefix of one object key covers exactly the versions of that key (not the plain entry, and
  no key that merely starts with it).
\<close>

theorem object_scans_exact:
  assumes "0 \<notin> set b" "object_ref_ok (b', k', v)"
  shows "(prefix (object_prefix b) (object_ref_key (b', k', v)) \<longleftrightarrow> b = b') \<and>
    (prefix (object_key_prefix b k) (object_ref_key (b', k', v)) \<longleftrightarrow> b = b' \<and> k = k' \<and> v \<noteq> None)"
  by (rule scan_exact [OF assms])

section \<open>Scan order\<close>

lemma list_less_cases:
  fixes x y :: "'a::linorder list"
  assumes "x < y"
  shows "(\<exists>p a b r s. x = p @ a # r \<and> y = p @ b # s \<and> a < b) \<or> (\<exists>b s. y = x @ b # s)"
  using assms
proof (induction x arbitrary: y)
  case Nil
  then show ?case by (cases y) auto
next
  case (Cons a x)
  then obtain b s where y: "y = b # s" by (cases y) auto
  show ?case
  proof (cases "a < b")
    case True
    then show ?thesis using y by (intro disjI1 exI [of _ "[]"]) auto
  next
    case False
    with Cons.prems y have "a = b" "x < s" by auto
    with Cons.IH [of s] y show ?thesis by (metis append_Cons)
  qed
qed

lemma append_less_same: "(p :: 'a::linorder list) @ x < p @ y \<longleftrightarrow> x < y"
  using append_less_append [of p p x y] by simp

lemma escape_sep_order:
  assumes "escape j < escape k"
  shows "escape j @ 0 # r < escape k @ 0 # s"
  using list_less_cases [OF assms]
proof
  assume "\<exists>p a b u v. escape j = p @ a # u \<and> escape k = p @ b # v \<and> a < b"
  then show ?thesis by (auto simp: append_less_same)
next
  assume "\<exists>b v. escape k = escape j @ b # v"
  then obtain b v where k: "escape k = escape j @ b # v" by blast
  then obtain i where i: "b # v = escape i" using escape_eq_append [OF k] by blast
  then have "b \<noteq> 0" by (cases i) (auto split: if_splits)
  then have "0 < b" by (simp add: word_neq_0_conv)
  then show ?thesis by (simp add: k append_less_same)
qed

lemma escape_plain: "0 \<notin> set k \<Longrightarrow> 0xFF \<notin> set k \<Longrightarrow> escape k = k"
  by (induction k) auto

text \<open>
  Version listings come out right: in key order, all versions of one object key are contiguous and in
  the order of their version ids, and they precede every version of a key whose escaped form is
  larger. For keys without a NUL character the escaped form is the key itself, so listings follow the
  byte order of the keys.
\<close>

theorem version_listing_order:
  assumes "object_ref_ok (b, k1, Some v1)" "object_ref_ok (b, k2, Some v2)"
  shows "(object_version_key b k1 v1 < object_version_key b k2 v2 \<longleftrightarrow>
      escape k1 < escape k2 \<or> k1 = k2 \<and> v1 < v2) \<and>
    (0 \<notin> set k1 \<union> set k2 \<longrightarrow> (escape k1 < escape k2 \<longleftrightarrow> k1 < k2))"
proof (rule conjI)
  have body: "object_version_key b k v = (PREFIX_OBJECT @ b @ [0]) @ escape k @ 0 # v" for k v
    by (simp add: object_version_key_def object_key_body)
  have eq: "escape k1 = escape k2 \<longleftrightarrow> k1 = k2" using unescape_escape by (metis Inr_inject)
  show "object_version_key b k1 v1 < object_version_key b k2 v2 \<longleftrightarrow>
      escape k1 < escape k2 \<or> k1 = k2 \<and> v1 < v2"
  proof (cases "escape k1" "escape k2" rule: linorder_cases)
    case less
    then show ?thesis unfolding body append_less_same using escape_sep_order by auto
  next
    case equal
    then show ?thesis unfolding body append_less_same using eq by (simp add: append_less_same)
  next
    case greater
    then have "escape k2 @ 0 # v2 < escape k1 @ 0 # v1" by (rule escape_sep_order)
    with greater eq show ?thesis unfolding body append_less_same by (auto dest: less_asym)
  qed
  show "0 \<notin> set k1 \<union> set k2 \<longrightarrow> (escape k1 < escape k2 \<longleftrightarrow> k1 < k2)"
    using assms utf8_no_ff [of k1] utf8_no_ff [of k2] by (simp add: escape_plain object_ref_ok_def)
qed


text \<open>
  The escaping does not preserve the order of keys with a NUL character: such a key is listed after
  every key whose byte at that place is anything else, although NUL is the smallest byte.
\<close>

theorem escape_reverses_nul:
  assumes "c \<noteq> 0" "c \<noteq> 0xFF"
  shows "p @ 0 # r < p @ c # s \<and> object_key b (p @ c # s) < object_key b (p @ 0 # r)"
proof -
  have "0 < c" using assms(1) by (simp add: word_neq_0_conv)
  moreover have "c < 0xFF"
  proof -
    have "unat c < 256" using unsigned_less [of c, where 'a = nat] by simp
    then have "c \<le> 0xFF" by (simp add: word_le_nat_alt)
    then show ?thesis using assms(2) by simp
  qed
  ultimately show ?thesis
    using assms by (simp add: append_less_same object_key_body escape_append)
qed

text \<open>
  The sequence-numbered families (allocation records, events, restore jobs, audit entries) and the
  replication log scan in numeric order: byte order of the keys is the order of the sequence numbers,
  for the log of the pairs (epoch, sequence), and the keys parse back.
\<close>

theorem sequence_scan_order:
  "(alloc_key m < alloc_key n \<longleftrightarrow> m < n) \<and> (event_key m < event_key n \<longleftrightarrow> m < n) \<and>
   (restore_job_key m < restore_job_key n \<longleftrightarrow> m < n) \<and> (audit_entry_key m < audit_entry_key n \<longleftrightarrow> m < n) \<and>
   (binlog_key e1 m < binlog_key e2 n \<longleftrightarrow> e1 < e2 \<or> e1 = e2 \<and> m < n) \<and>
   parse_alloc_seq (alloc_key m) = Inr m \<and>
   parse_binlog_gtid (binlog_key e1 m) = Inr \<lparr>g_epoch = unat e1, g_seq = unat m\<rparr>"
proof -
  have "binlog_key e1 m < binlog_key e2 n \<longleftrightarrow> e1 < e2 \<or> e1 = e2 \<and> m < n"
    using to_be_bytes_less [where 'a = 64] to_be_bytes_inject [where 'a = 64]
    by (simp add: binlog_key_def append_less_same append_less_append)
  moreover have "parse_binlog_gtid (binlog_key e1 m) = Inr \<lparr>g_epoch = unat e1, g_seq = unat m\<rparr>"
    using unsigned_less [of e1, where 'a = nat] unsigned_less [of m, where 'a = nat]
      binlog_keys.parse_build [of "\<lparr>g_epoch = unat e1, g_seq = unat m\<rparr>"] by (simp add: gtid_ok_def)
  ultimately show ?thesis
    by (simp add: alloc_keys.build_less event_keys.build_less restore_keys.build_less
        audit_keys.build_less alloc_keys.parse_build)
qed

section \<open>Separation of the families\<close>

text \<open>The prefixes as texts, on which the comparison is cheap to evaluate.\<close>

definition prefix_names :: "string list" where
  "prefix_names = [''b:'', ''l:'', ''bc:'', ''bt:'', ''bo:'', ''ba:'', ''bp:'', ''o:'', ''u:'', ''m:'',
     ''p:'', ''a:'', ''t:'', ''k:'', ''r:'', ''n:'', ''e:'', ''iv:'', ''x:'', ''tn:'', ''iu:'',
     ''ig:'', ''ip:'', ''ir:'', ''ij:'', ''jb:'', ''bl:'', ''s:seq'', ''s:key_seed_salt'',
     ''s:value_rewrite_v3_done'', ''s:value_rewrite_v7_done'', ''s:sse_kek_seed'',
     ''s:sse_kek_gen'', ''s:trusted_clock'', ''s:repl_epoch'', ''s:repl_ebase'',
     ''s:repl_role'', ''s:repl_executed'', ''s:repl_cursor'', ''s:repl_bscoped'',
     ''s:repl_upchain'', ''s:repl_ever_primary'', ''s:repl_pending'' @ [CHR 0x00],
     ''s:repl_rmap'' @ [CHR 0x00], ''s:repl_pdobj'' @ [CHR 0x00], ''s:pool'',
     ''s:audit'' @ [CHR 0x00], ''s:session'' @ [CHR 0x00], ''s:repl_slot'' @ [CHR 0x00],
     ''s:repl_dcred_out'' @ [CHR 0x00], ''s:repl_dcred_in'' @ [CHR 0x00], ''s:repl_credseed'',
     ''s:rebuild_pending'']"

lemma lit_append: "lit (a @ b) = lit a @ lit b"
  by (simp add: lit_def)

lemma all_prefixes_names: "all_prefixes = map lit prefix_names"
proof -
  have "lit [CHR 0x00] = [0]" by code_simp
  then show ?thesis
    by (simp only: all_prefixes_def prefix_names_def prefix_defs list.map lit_append)
qed

lemma unat_lit_char: "unat (of_nat (of_char c) :: u8) = of_char c"
proof -
  have "(of_char c :: nat) < 256" by (cases c) (simp only: of_char_Char, rule less_le_trans [OF horner_sum_of_bool_2_less], simp)
  then show ?thesis by (simp add: unat_of_nat)
qed

lemma inj_lit_char: "inj (\<lambda>c. of_nat (of_char c) :: u8)"
proof (rule injI)
  fix c d :: char assume "(of_nat (of_char c) :: u8) = of_nat (of_char d)"
  then have "(of_char c :: nat) = of_char d" using unat_lit_char by metis
  then show "c = d" by simp
qed

lemma prefix_lit: "prefix (lit a) (lit b) \<longleftrightarrow> prefix a b"
proof
  assume "prefix (lit a) (lit b)"
  then obtain r where "lit b = lit a @ r" by (auto simp: prefix_def)
  moreover have "lit (take (length a) b) = take (length a) (lit b)" "length (lit a) = length a"
    by (simp_all add: lit_def take_map)
  ultimately have "lit (take (length a) b) = lit a" by simp
  then have "take (length a) b = a" unfolding lit_def by (simp add: inj_map_eq_map [OF inj_lit_char])
  then show "prefix a b" by (metis take_is_prefix)
qed (auto simp: prefix_def lit_append)

lemma prefix_names_apart:
  "list_all (\<lambda>p. list_all (\<lambda>q. p = q \<or> \<not> prefix p q) prefix_names) prefix_names"
  by code_simp

lemma prefixes_apart: "p \<in> set all_prefixes \<Longrightarrow> q \<in> set all_prefixes \<Longrightarrow> p \<noteq> q \<Longrightarrow> \<not> prefix p q"
  using prefix_names_apart unfolding all_prefixes_names list_all_iff set_map by (metis imageE prefix_lit)

text \<open>
  No key belongs to two families: whatever follows two different prefixes of the table, the keys
  differ, and scanning one prefix never meets a key of another.
\<close>

theorem families_apart:
  assumes "p \<in> set all_prefixes" "q \<in> set all_prefixes" "p \<noteq> q"
  shows "p @ x \<noteq> q @ y \<and> \<not> prefix p (q @ y)"
proof -
  have np: "\<not> prefix p q" "\<not> prefix q p" using prefixes_apart assms by auto
  have "\<not> prefix p (q @ y)"
  proof
    assume "prefix p (q @ y)"
    then have "prefix p q \<or> prefix q p" by (metis prefix_same_cases prefixI)
    with np show False by simp
  qed
  moreover from this have "p @ x \<noteq> q @ y" by (metis prefixI)
  ultimately show ?thesis by blast
qed

text \<open>
  Identity keys: a user, group, policy or role key is built exactly for valid names, and parses back
  to the tenant and the name, so that no tenant can name an entity of another.
\<close>

theorem iam_keys_roundtrip:
  "case iam_entity_key p t n of
     Inr k \<Rightarrow> validate_iam_name t = Inr () \<and> validate_iam_name n = Inr () \<and> parse_iam_entity_key p k = Inr (t, n)
   | Inl e \<Rightarrow> \<not> (validate_iam_name t = Inr () \<and> validate_iam_name n = Inr ())"
  using iam_entity_roundtrip [of p t n]
  by (auto simp: iam_entity_key_def bind_res_eq_Inr split: sum.split)

section \<open>Witnesses\<close>

definition demo_ref :: "bytes \<times> bytes \<times> bytes option" where
  "demo_ref = (lit ''photos'', lit ''a'' @ [0] @ lit ''b'', Some VK_NULL)"

lemma demo_ref_ok: "object_ref_ok demo_ref" "object_ref_ok (lit ''photos'', lit ''a'', None)"
  by code_simp+

theorem object_key_roundtrip_witness:
  "parse_object_version_key (object_ref_key demo_ref) = Inr demo_ref \<and>
     object_ref_key demo_ref \<noteq> object_ref_key (lit ''photos'', lit ''a'', None)"
  using object_key_roundtrip [OF demo_ref_ok] by (simp add: demo_ref_def)

theorem parse_object_key_rejects_versions_witness:
  "parse_object_key (object_ref_key demo_ref) = Inl Corrupt"
  using parse_object_key_rejects_versions [OF demo_ref_ok(1) [unfolded demo_ref_def]]
  by (simp add: demo_ref_def)

theorem object_scans_exact_witness:
  "prefix (object_prefix (lit ''photos'')) (object_ref_key demo_ref) \<and>
     \<not> prefix (object_key_prefix (lit ''photos'') (lit ''a'')) (object_ref_key demo_ref)"
proof -
  have "0 \<notin> set (lit ''photos'')" by code_simp
  from object_scans_exact [OF this demo_ref_ok(1) [unfolded demo_ref_def], of "lit ''a''"]
  show ?thesis by (simp add: demo_ref_def lit_def)
qed

theorem version_listing_order_witness:
  "object_version_key (lit ''b'') (lit ''x'') (replicate 16 1) < object_version_key (lit ''b'') (lit ''x'') VK_NULL"
proof -
  have ok: "object_ref_ok (lit ''b'', lit ''x'', Some (replicate 16 1))"
    "object_ref_ok (lit ''b'', lit ''x'', Some VK_NULL)" by code_simp+
  have "replicate 16 1 < VK_NULL" by code_simp
  with version_listing_order [OF ok] show ?thesis by simp
qed

theorem escape_reverses_nul_witness:
  "object_key (lit ''b'') (lit ''ax'') < object_key (lit ''b'') (lit ''a'' @ [0])"
  using escape_reverses_nul [of 120 "lit ''a''" "[]" "[]" "lit ''b''"] by (simp add: lit_def)

theorem families_apart_witness:
  "PREFIX_BUCKET @ [1] \<noteq> PREFIX_BUCKET_CORS @ [2] \<and> \<not> prefix PREFIX_BUCKET (PREFIX_BUCKET_CORS @ [2])"
proof -
  have "PREFIX_BUCKET \<noteq> PREFIX_BUCKET_CORS" by code_simp
  then show ?thesis by (intro families_apart) (simp_all add: all_prefixes_def)
qed

end
