(* ===== verification/Kv.thy ===== *)
theory Kv
  imports Key_Codec
begin

text \<open>
  The ordered key-value store under the metadata (rocksdb) as the code sees it: a finite map from
  byte strings, iterated in byte order. Its contents are an association list with strictly
  increasing keys. The locale \<open>ordered_store\<close> states what the metadata code relies on; it is
  interpreted for these operations.
\<close>

type_synonym 'v kv = "(bytes \<times> 'v) list"

definition kv_wf :: "'v kv \<Rightarrow> bool" where
  "kv_wf db \<longleftrightarrow> sorted_wrt (<) (map fst db)"

definition kv_get :: "'v kv \<Rightarrow> bytes \<Rightarrow> 'v option" where
  "kv_get db k = map_of db k"

fun kv_put :: "bytes \<Rightarrow> 'v \<Rightarrow> 'v kv \<Rightarrow> 'v kv" where
  "kv_put k v [] = [(k, v)]"
| "kv_put k v ((k', v') # db) =
     (if k < k' then (k, v) # (k', v') # db
      else if k = k' then (k, v) # db
      else (k', v') # kv_put k v db)"

definition kv_del :: "bytes \<Rightarrow> 'v kv \<Rightarrow> 'v kv" where
  "kv_del k db = filter (\<lambda>(k', _). k' \<noteq> k) db"

text \<open>Iteration from a key, forwards and backwards, and \<^verbatim>\<open>scan_prefix\<close>.\<close>

definition iter_from :: "bytes \<Rightarrow> 'v kv \<Rightarrow> 'v kv" where
  "iter_from k db = dropWhile (\<lambda>(k', _). k' < k) db"

definition iter_rev_from :: "bytes \<Rightarrow> 'v kv \<Rightarrow> 'v kv" where
  "iter_rev_from k db = rev (takeWhile (\<lambda>(k', _). k' \<le> k) db)"

definition scan_prefix :: "'v kv \<Rightarrow> bytes \<Rightarrow> 'v kv" where
  "scan_prefix db p = takeWhile (\<lambda>(k, _). prefix p k) (iter_from p db)"

section \<open>Contract\<close>

locale ordered_store =
  fixes wf :: "'s \<Rightarrow> bool"
    and get :: "'s \<Rightarrow> bytes \<Rightarrow> 'v option"
    and put :: "bytes \<Rightarrow> 'v \<Rightarrow> 's \<Rightarrow> 's"
    and del :: "bytes \<Rightarrow> 's \<Rightarrow> 's"
    and scan :: "'s \<Rightarrow> bytes \<Rightarrow> (bytes \<times> 'v) list"
  assumes wf_put: "wf s \<Longrightarrow> wf (put k v s)"
    and wf_del: "wf s \<Longrightarrow> wf (del k s)"
    and get_put: "wf s \<Longrightarrow> get (put k v s) k' = (if k' = k then Some v else get s k')"
    and get_del: "wf s \<Longrightarrow> get (del k s) k' = (if k' = k then None else get s k')"
    and set_scan: "wf s \<Longrightarrow> set (scan s p) = {(k, v). get s k = Some v \<and> prefix p k}"
    and sorted_scan: "wf s \<Longrightarrow> sorted_wrt (<) (map fst (scan s p))"
begin

lemma get_put_same: "wf s \<Longrightarrow> get (put k v s) k = Some v"
  by (simp add: get_put)

lemma get_put_other: "wf s \<Longrightarrow> k' \<noteq> k \<Longrightarrow> get (put k v s) k' = get s k'"
  by (simp add: get_put)

lemma wf_dels: "wf s \<Longrightarrow> wf (fold del ks s)"
  by (induction ks arbitrary: s) (simp_all add: wf_del)

lemma get_dels: "wf s \<Longrightarrow> get (fold del ks s) k = (if k \<in> set ks then None else get s k)"
  by (induction ks arbitrary: s) (auto simp: wf_del get_del)

text \<open>Removing what a prefix scan finds leaves exactly the keys outside the prefix.\<close>

lemma scan_clears:
  assumes "wf s"
  shows "get (fold del (map fst (scan s p)) s) k = (if prefix p k then None else get s k)"
proof -
  have "k \<in> set (map fst (scan s p)) \<longleftrightarrow> prefix p k \<and> get s k \<noteq> None"
    using set_scan [OF assms, of p] by force
  then show ?thesis using get_dels [OF assms] by auto
qed

end

section \<open>The contract holds\<close>

lemma kv_put_keys: "set (map fst (kv_put k v db)) = insert k (set (map fst db))"
  by (induction k v db rule: kv_put.induct) auto

lemma kv_wf_put: "kv_wf db \<Longrightarrow> kv_wf (kv_put k v db)"
proof (induction k v db rule: kv_put.induct)
  case (2 k v k' v' db)
  have "set (map fst (kv_put k v db)) = insert k (set (map fst db))" by (rule kv_put_keys)
  with 2 show ?case by (auto simp: kv_wf_def)
qed (simp add: kv_wf_def)

lemma kv_wf_del: "kv_wf db \<Longrightarrow> kv_wf (kv_del k db)"
  by (simp add: kv_wf_def kv_del_def sorted_wrt_map sorted_wrt_filter)

lemma kv_get_put: "kv_wf db \<Longrightarrow> kv_get (kv_put k v db) k' = (if k' = k then Some v else kv_get db k')"
  by (induction k v db rule: kv_put.induct) (auto simp: kv_get_def kv_wf_def)

lemma kv_get_del: "kv_get (kv_del k db) k' = (if k' = k then None else kv_get db k')"
  by (induction db) (auto simp: kv_get_def kv_del_def)

lemma kv_distinct: "kv_wf db \<Longrightarrow> distinct (map fst db)"
  by (simp add: kv_wf_def strict_sorted_iff)

lemma kv_get_iff: "kv_wf db \<Longrightarrow> kv_get db k = Some v \<longleftrightarrow> (k, v) \<in> set db"
  using kv_distinct [of db] by (simp add: kv_get_def)

lemma iter_from_filter: "kv_wf db \<Longrightarrow> iter_from k db = filter (\<lambda>(k', _). \<not> k' < k) db"
proof (induction db)
  case (Cons x db)
  then have wf: "kv_wf db" "\<forall>y \<in> set db. fst x < fst y" by (auto simp: kv_wf_def)
  show ?case
  proof (cases "fst x < k")
    case True
    with Cons.IH [OF wf(1)] show ?thesis by (simp add: iter_from_def case_prod_beta)
  next
    case False
    with wf(2) have "\<forall>y \<in> set db. \<not> fst y < k" by auto
    with False show ?thesis by (simp add: iter_from_def case_prod_beta filter_id_conv)
  qed
qed (simp add: iter_from_def)

lemma iter_rev_from_filter: "kv_wf db \<Longrightarrow> iter_rev_from k db = rev (filter (\<lambda>(k', _). k' \<le> k) db)"
proof (induction db)
  case (Cons x db)
  then have wf: "kv_wf db" "\<forall>y \<in> set db. fst x < fst y" by (auto simp: kv_wf_def)
  show ?case
  proof (cases "fst x \<le> k")
    case True
    with Cons.IH [OF wf(1)] show ?thesis by (simp add: iter_rev_from_def case_prod_beta)
  next
    case False
    with wf(2) have "\<forall>y \<in> set db. \<not> fst y \<le> k" by force
    with False show ?thesis by (simp add: iter_rev_from_def case_prod_beta filter_empty_conv)
  qed
qed (simp add: iter_rev_from_def)

text \<open>Keys with a prefix are contiguous in byte order, starting at the prefix itself.\<close>

lemma prefix_le: "prefix p k \<Longrightarrow> p \<le> (k :: bytes)"
  unfolding prefix_def using append_less_same [of p "[]"] by (metis append_Nil2 less_le order_refl not_less_iff_gr_or_eq Nil_less_Cons neq_Nil_conv)

lemma prefix_convex:
  assumes "p \<le> a" "a \<le> b" "prefix p b"
  shows "prefix p (a :: bytes)"
  using assms
proof (induction p arbitrary: a b)
  case (Cons x p)
  then obtain y b' where b: "b = x # b'" "prefix p b'" by (cases b) auto
  with Cons.prems obtain a' where a: "a = x # a'" by (cases a) auto
  with Cons.prems b Cons.IH [of a' b'] show ?case by auto
qed simp

lemma takeWhile_prefix_filter:
  assumes "sorted_wrt (\<lambda>x y. fst x < fst y) db" "\<forall>x \<in> set db. p \<le> (fst x :: bytes)"
  shows "takeWhile (\<lambda>(k, _). prefix p k) db = filter (\<lambda>(k, _). prefix p k) db"
  using assms
proof (induction db)
  case (Cons x db)
  show ?case
  proof (cases "prefix p (fst x)")
    case True
    with Cons show ?thesis by (simp add: case_prod_beta)
  next
    case False
    have "\<not> prefix p (fst y)" if "y \<in> set db" for y
    proof -
      have "p \<le> fst x" "fst x \<le> fst y" using Cons.prems that by (auto intro: less_imp_le)
      then show ?thesis using prefix_convex False by blast
    qed
    with False show ?thesis by (simp add: case_prod_beta filter_empty_conv)
  qed
qed simp

lemma scan_prefix_filter:
  assumes "kv_wf db"
  shows "scan_prefix db p = filter (\<lambda>(k, _). prefix p k) db"
proof -
  let ?d = "filter (\<lambda>(k, _). \<not> k < p) db"
  have "sorted_wrt (\<lambda>x y. fst x < fst y) ?d" "\<forall>x \<in> set ?d. p \<le> fst x"
    using assms by (auto simp: kv_wf_def sorted_wrt_map sorted_wrt_filter)
  then have "takeWhile (\<lambda>(k, _). prefix p k) ?d = filter (\<lambda>(k, _). prefix p k) ?d"
    by (rule takeWhile_prefix_filter)
  also have "\<dots> = filter (\<lambda>(k, _). prefix p k) db"
    using prefix_le by (auto intro!: filter_cong simp: linorder_not_less)
  finally show ?thesis by (simp add: scan_prefix_def iter_from_filter [OF assms])
qed

interpretation store: ordered_store kv_wf kv_get kv_put kv_del scan_prefix
proof
  fix db :: "'a kv" and k p v k'
  assume wf: "kv_wf db"
  show "kv_wf (kv_put k v db)" "kv_wf (kv_del k db)" using wf by (rule kv_wf_put kv_wf_del)+
  show "kv_get (kv_put k v db) k' = (if k' = k then Some v else kv_get db k')"
    using wf by (rule kv_get_put)
  show "kv_get (kv_del k db) k' = (if k' = k then None else kv_get db k')" by (rule kv_get_del)
  show "set (scan_prefix db p) = {(k, v). kv_get db k = Some v \<and> prefix p k}"
    using kv_get_iff [OF wf] by (auto simp: scan_prefix_filter [OF wf])
  show "sorted_wrt (<) (map fst (scan_prefix db p))"
    using wf by (simp add: scan_prefix_filter kv_wf_def sorted_wrt_map sorted_wrt_filter)
qed

end
