(* ===== verification/Meta_Records.thy ===== *)
theory Meta_Records
  imports Object_Meta Kv
begin

text \<open>
  The remaining structures the metadata store keeps: multipart sessions and parts with their older stored
  formats, access keys, temporary sessions, tenants and identities, notification and inventory rules, background
  jobs (\<^verbatim>\<open>crates/fs3-core/src/types.rs\<close>, \<^verbatim>\<open>crates/fs3-meta/src/lib.rs\<close>) and the replication slot and data
  reference (\<^verbatim>\<open>crates/fs3-meta/src/repl.rs\<close>).
\<close>

section \<open>Multipart uploads\<close>

record session_sse_s3 =
  ss_kek_id :: u32
  ss_wrapped_dek :: bytes

record session_sse_kms =
  sk_key_name :: bytes
  sk_wrapped_dek :: bytes
  sk_context_suffix :: bytes
  sk_bucket_key_enabled :: "bool option"

record session_legacy =
  sl_bucket :: bytes
  sl_key :: bytes
  sl_content_type :: bytes
  sl_user_meta :: "(bytes \<times> bytes) list"
  sl_created :: int
  sl_completed :: bool
  sl_final_etag :: bytes
  sl_final_size :: u64
  sl_final_mtime :: int

record session_v11 =
  ms_bucket :: bytes
  ms_key :: bytes
  ms_content_type :: bytes
  ms_user_meta :: "(bytes \<times> bytes) list"
  ms_resp_headers :: "(bytes \<times> bytes) list"
  ms_created :: int
  ms_completed :: bool
  ms_final_etag :: bytes
  ms_final_size :: u64
  ms_final_mtime :: int

record session_v12 = session_v11 +
  ms_tags :: "(bytes \<times> bytes) list"

record session_v12b = session_v12 +
  ms_checksum_alg :: "checksum_algorithm option"

record session_v12c = session_v12b +
  ms_sse_key_md5 :: "bytes option"

record session_v12d = session_v12c +
  ms_sse_s3 :: "session_sse_s3 option"

record session_v19 = session_v12d +
  ms_retention :: "retention option"
  ms_legal_hold :: "bool option"
  ms_requested_storage_class :: "bytes option"

record multipart_session = session_v19 +
  ms_sse_kms :: "session_sse_kms option"

text \<open>The structure a stored session was written with.\<close>

datatype session_format = SLegacy session_legacy | SV11 session_v11 | SV12 session_v12 | SV12b session_v12b
  | SV12c session_v12c | SV12d session_v12d | SV19 session_v19 | SCurrent multipart_session

definition session_of_v19 :: "session_v19 \<Rightarrow> multipart_session" where
  "session_of_v19 s = session_v19.extend s (multipart_session.fields None)"

definition session_of_v12d :: "session_v12d \<Rightarrow> multipart_session" where
  "session_of_v12d s = session_of_v19 (session_v12d.extend s (session_v19.fields None None None))"

definition session_of_v12c :: "session_v12c \<Rightarrow> multipart_session" where
  "session_of_v12c s = session_of_v12d (session_v12c.extend s (session_v12d.fields None))"

definition session_of_v12b :: "session_v12b \<Rightarrow> multipart_session" where
  "session_of_v12b s = session_of_v12c (session_v12b.extend s (session_v12c.fields None))"

definition session_of_v12 :: "session_v12 \<Rightarrow> multipart_session" where
  "session_of_v12 s = session_of_v12b (session_v12.extend s (session_v12b.fields None))"

definition session_of_v11 :: "session_v11 \<Rightarrow> multipart_session" where
  "session_of_v11 s = session_of_v12 (session_v11.extend s (session_v12.fields []))"

definition session_of_legacy :: "session_legacy \<Rightarrow> multipart_session" where
  "session_of_legacy l = session_of_v11
     \<lparr>ms_bucket = sl_bucket l, ms_key = sl_key l, ms_content_type = sl_content_type l,
      ms_user_meta = sl_user_meta l, ms_resp_headers = [], ms_created = sl_created l,
      ms_completed = sl_completed l, ms_final_etag = sl_final_etag l, ms_final_size = sl_final_size l,
      ms_final_mtime = sl_final_mtime l\<rparr>"

record part_meta_legacy =
  pm_size :: u64
  pm_etag :: bytes
  pm_mtime :: int
  pm_extents :: "segment list"
  pm_inline :: "bytes option"

record part_meta_v12 = part_meta_legacy +
  pm_checksum :: "checksum_info option"

record part_meta_v15 = part_meta_v12 +
  pm_sse :: "sse_info option"

record part_meta = part_meta_v15 +
  pm_compressed_size :: "u64 option"

datatype part_format = PLegacy part_meta_legacy | PV12 part_meta_v12 | PV15 part_meta_v15 | PCurrent part_meta

fun part_of_format :: "part_format \<Rightarrow> part_meta" where
  "part_of_format (PCurrent p) = p"
| "part_of_format (PV15 p) = part_meta_v15.extend p (part_meta.fields None)"
| "part_of_format (PV12 p) = part_meta_v15.extend (part_meta_v12.extend p (part_meta_v15.fields None)) (part_meta.fields None)"
| "part_of_format (PLegacy p) = part_meta_v15.extend
     (part_meta_v12.extend (part_meta_legacy.extend p (part_meta_v12.fields None)) (part_meta_v15.fields None))
     (part_meta.fields None)"

section \<open>Access keys and identities\<close>

definition DEFAULT_TENANT :: bytes where
  "DEFAULT_TENANT = lit ''default''"

definition BOOTSTRAP_USER :: bytes where
  "BOOTSTRAP_USER = lit ''bootstrap''"

record key_record_v1 =
  kr_access_key :: bytes
  kr_secret_hash :: bytes
  kr_salt :: bytes
  kr_secret_cipher :: bytes
  kr_enabled :: bool
  kr_created :: int
  kr_policy :: "bytes option"
  kr_note :: "bytes option"

record key_record = key_record_v1 +
  kr_tenant_id :: bytes
  kr_owner_user :: bytes
  kr_embedded_policy :: "bytes option"
  kr_sa_name :: "bytes option"

definition key_upgrade :: "key_record_v1 \<Rightarrow> key_record" where
  "key_upgrade k = key_record_v1.extend k (key_record.fields DEFAULT_TENANT BOOTSTRAP_USER None None)"

record session_record =
  sr_session_id :: bytes
  sr_temporary_access_key :: bytes
  sr_base_access_key :: bytes
  sr_session_policy :: "bytes option"
  sr_expires_at :: int
  sr_secret_hash :: bytes
  sr_issued_at :: int
  sr_issued_by :: bytes
  sr_role :: "bytes option"
  sr_user :: "bytes option"
  sr_tenant_id :: "bytes option"
  sr_inline_policy :: "bytes option"

record tenant =
  tn_tenant_id :: bytes
  tn_display_name :: bytes
  tn_canonical_id :: bytes
  tn_enabled :: bool
  tn_created_at :: int

record iam_user =
  iu_tenant_id :: bytes
  iu_name :: bytes
  iu_enabled :: bool
  iu_password_hash :: "bytes option"
  iu_password_salt :: "bytes option"
  iu_policies :: "bytes list"
  iu_groups :: "bytes list"
  iu_display_name :: "bytes option"
  iu_created_at :: int

record iam_group =
  ig_tenant_id :: bytes
  ig_name :: bytes
  ig_members :: "bytes list"
  ig_policies :: "bytes list"
  ig_created_at :: int

record iam_policy =
  ip_tenant_id :: "bytes option"
  ip_name :: bytes
  ip_document :: bytes
  ip_created_at :: int

record iam_role =
  ir_tenant_id :: bytes
  ir_name :: bytes
  ir_policy :: bytes
  ir_assumable_by :: "bytes list"
  ir_created_at :: int

section \<open>Rules and jobs\<close>

datatype notification_target_kind = Topic | Queue | CloudFunction

record notification_rule =
  nr_id :: bytes
  nr_events :: "bytes list"
  nr_kind :: notification_target_kind
  nr_url :: bytes
  nr_hmac_key :: "bytes option"
  nr_enabled :: bool
  nr_prefix :: "bytes option"
  nr_suffix :: "bytes option"

datatype inventory_versions = AllVersions | CurrentVersion

datatype inventory_frequency = Daily | Weekly

datatype inventory_format = Csv

record inventory_rule =
  iv_id :: bytes
  iv_is_enabled :: bool
  iv_filter_prefix :: "bytes option"
  iv_included_versions :: inventory_versions
  iv_schedule :: inventory_frequency
  iv_destination_bucket :: bytes
  iv_format :: inventory_format
  iv_destination_prefix :: "bytes option"

record job_failure =
  jf_kind :: bytes
  jf_key :: bytes
  jf_error :: bytes
  jf_at :: int

datatype ingest_job_state = ISubmitted | IRunning | IPaused | ICompleted | IFailed | ICancelled

record ingest_source =
  is_endpoint :: bytes
  is_region :: bytes
  is_bucket :: bytes
  is_prefix :: bytes
  is_access_key :: bytes
  is_secret_key :: bytes

record ingest_job =
  ij_id :: bytes
  ij_source :: ingest_source
  ij_dest_bucket :: bytes
  ij_preserve_mtime :: bool
  ij_copy_bucket_config :: bool
  ij_state :: ingest_job_state
  ij_created_at :: int
  ij_updated_at :: int
  ij_listed :: u64
  ij_copied :: u64
  ij_skipped :: u64
  ij_failed :: u64
  ij_bytes :: u64
  ij_last_key :: bytes
  ij_failures :: "job_failure list"
  ij_consecutive_errors :: u32
  ij_error :: "bytes option"

datatype batch_operation = BatchCopy bytes bytes | BatchDelete | BatchRestore u32 bytes
  | BatchReplaceTags "(bytes \<times> bytes) list"

datatype batch_manifest = InlineCsv bytes | S3Ref bytes bytes

datatype batch_job_state = BSubmitted | BRunning | BCompleted | BFailed | BCancelled

record batch_job =
  bj_id :: bytes
  bj_operation :: batch_operation
  bj_manifest :: batch_manifest
  bj_report_bucket :: bytes
  bj_report_prefix :: bytes
  bj_state :: batch_job_state
  bj_created_at :: int
  bj_updated_at :: int
  bj_total :: u64
  bj_processed :: u64
  bj_succeeded :: u64
  bj_failed :: u64
  bj_cursor :: u64
  bj_failures :: "job_failure list"
  bj_report_key :: "bytes option"
  bj_error :: "bytes option"

section \<open>Replication\<close>

text \<open>A segment as the stream names it; the checksum field is reserved and always empty.\<close>

record data_ref =
  df_extent_id :: u32
  df_offset :: u32
  df_len :: u32

datatype bucket_filter = AllBuckets | Include "bytes list" | Exclude "bytes list"

fun allows_bucket :: "bucket_filter \<Rightarrow> bytes \<Rightarrow> bool" where
  "allows_bucket AllBuckets b = True"
| "allows_bucket (Include l) b = (b \<in> set l)"
| "allows_bucket (Exclude l) b = (b \<notin> set l)"

record slot =
  slot_name :: bytes
  slot_consumer :: bytes
  slot_confirmed :: gtid
  slot_filters :: bucket_filter
  slot_created_at :: int
  slot_last_ack_at :: int
  slot_stale :: bool

section \<open>Operations and values\<close>

datatype bucket_conf = Cors | Tagging | Ownership | PublicAccessBlock | PolicyDoc

record stats_delta =
  sd_objects :: int
  sd_bytes :: int
  sd_by_class :: "(bytes \<times> int \<times> int) list"

record kek_gen_state =
  kg_gen :: u32
  kg_last_rotated_at :: int
  kg_rewrap_done_gen :: u32

text \<open>
  The operations are one enumeration in the code; those on rules and jobs, on multipart uploads and on identities
  are grouped here.
\<close>

datatype config_op =
    NotificationRulesReplace bytes "notification_rule list"
  | NotificationRulesDelete bytes
  | InventoryRulePut bytes inventory_rule
  | InventoryRuleDelete bytes bytes
  | IngestJobPut ingest_job
  | IngestJobDelete bytes
  | BatchJobPut batch_job
  | BatchJobDelete bytes

datatype multipart_op =
    MultipartCreate bytes multipart_session
  | MultipartUpdate bytes bool bytes u64 int
  | MultipartDelete bytes
  | PartPut bytes u32 part_meta
  | PartMigrate bytes u32 "segment list" "segment list"
  | PartDelete bytes

datatype iam_op =
    SessionPut session_record
  | SessionDelete bytes
  | KeyPut bytes key_record
  | KeyDelete bytes
  | TenantPut tenant
  | TenantDelete bytes
  | IamUserPut iam_user
  | IamUserDelete bytes bytes
  | IamGroupPut iam_group
  | IamGroupDelete bytes bytes
  | IamPolicyPut iam_policy
  | IamPolicyDelete bytes bytes
  | IamRolePut iam_role
  | IamRoleDelete bytes bytes

datatype meta_op =
    BucketPut bytes bucket_meta "bytes option"
  | BucketDelete bytes
  | BucketSetVersioning bytes versioning_state
  | BucketSetEncryption bytes "sse_algorithm option"
  | BucketSetEncryptionKms bytes "sse_algorithm option" "bytes option"
  | BucketSetObjectLock bytes "default_retention option"
  | BucketConfPut bytes bucket_conf bytes
  | BucketConfDelete bytes bucket_conf
  | LifecycleRulesReplace bytes "lifecycle_rule list"
  | LifecycleRulesDelete bytes
  | EventEnqueue event_record
  | EventMarkDead u64
  | EventDelete u64
  | RestoreJobPut restore_job
  | RestoreJobDelete u64
  | ObjectSetTags bytes bytes "bytes option" "(bytes \<times> bytes) list"
  | ObjectSetRetention bytes bytes "bytes option" "retention option"
  | ObjectSetLegalHold bytes bytes "bytes option" bool
  | ObjectPut bytes bytes object_meta
  | ObjectMigrate bytes bytes "bytes option" "segment list" "segment list"
  | ObjectDelete bytes bytes
  | ObjectDeleteCurrent bytes bytes "bytes option" object_meta
  | ObjectDeleteVersion bytes bytes bytes
  | ObjectPutVersion bytes bytes bytes object_meta
  | ObjectMetaRewrite bytes object_meta
  | Alloc alloc_draft
  | Stats bytes stats_delta
  | SseKekSeedPut bytes
  | SseKekGenPut kek_gen_state
  | ConfigOp config_op
  | MultipartOp multipart_op
  | IamOp iam_op

text \<open>
  A replication record; its data references and bucket scope are functions of the operations and are
  left out.
\<close>

record repl_record =
  rr_epoch :: u64
  rr_ops :: "meta_op list"
  rr_ts :: "int option"
  rr_epoch_barrier :: "u64 option"
  rr_raw_seq :: "u64 option"

datatype stored = VBucket bucket_meta | VObject object_meta | VAlloc alloc_record | VRaw bytes
  | VLifecycle lifecycle_rule | VEvent event_record | VRestoreJob restore_job | VKekGen kek_gen_state
  | VRepl repl_record | VNotification notification_rule | VInventory inventory_rule | VSts session_record
  | VIngest ingest_job | VBatch batch_job | VSession session_format | VPart part_format | VKey key_record
  | VKeyV1 key_record_v1 | VTenant tenant | VUser iam_user | VGroup iam_group | VPolicy iam_policy
  | VRole iam_role | VGtids gtid_set | VRefs "data_ref list" | VSlot slot | VSegs "segment list"

type_synonym db = "stored kv"

datatype apply_mode = Commit bool int | Replay gtid repl_record

fun is_replay :: "apply_mode \<Rightarrow> bool" where
  "is_replay (Replay _ _) = True"
| "is_replay (Commit _ _) = False"

fun decode_object :: "stored \<Rightarrow> object_meta result" where
  "decode_object (VObject m) = Inr m"
| "decode_object _ = Inl Corrupt"

fun decode_bucket :: "stored \<Rightarrow> bucket_meta result" where
  "decode_bucket (VBucket m) = Inr m"
| "decode_bucket _ = Inl Corrupt"

fun decode_event :: "stored \<Rightarrow> event_record result" where
  "decode_event (VEvent m) = Inr m"
| "decode_event _ = Inl Corrupt"

text \<open>
  The reading side of a session accepts every older format; \<^verbatim>\<open>decode\<close>, which the transaction arms use, only the
  current one.
\<close>

fun decode_session :: "stored \<Rightarrow> multipart_session result" where
  "decode_session (VSession (SCurrent s)) = Inr s"
| "decode_session (VSession (SV19 s)) = Inr (session_of_v19 s)"
| "decode_session (VSession (SV12d s)) = Inr (session_of_v12d s)"
| "decode_session (VSession (SV12c s)) = Inr (session_of_v12c s)"
| "decode_session (VSession (SV12b s)) = Inr (session_of_v12b s)"
| "decode_session (VSession (SV12 s)) = Inr (session_of_v12 s)"
| "decode_session (VSession (SV11 s)) = Inr (session_of_v11 s)"
| "decode_session (VSession (SLegacy s)) = Inr (session_of_legacy s)"
| "decode_session _ = Inl Corrupt"

fun decode_session_strict :: "stored \<Rightarrow> multipart_session result" where
  "decode_session_strict (VSession (SCurrent s)) = Inr s"
| "decode_session_strict _ = Inl Corrupt"

fun decode_part :: "stored \<Rightarrow> part_meta result" where
  "decode_part (VPart p) = Inr (part_of_format p)"
| "decode_part _ = Inl Corrupt"

fun decode_key_record :: "stored \<Rightarrow> key_record result" where
  "decode_key_record (VKey k) = Inr k"
| "decode_key_record (VKeyV1 k) = Inr (key_upgrade k)"
| "decode_key_record _ = Inl Corrupt"

fun decode_user :: "stored \<Rightarrow> iam_user result" where
  "decode_user (VUser u) = Inr u"
| "decode_user _ = Inl Corrupt"

fun decode_group :: "stored \<Rightarrow> iam_group result" where
  "decode_group (VGroup g) = Inr g"
| "decode_group _ = Inl Corrupt"

text \<open>A counter key: absent is the default; a value of another shape stops the code.\<close>

definition read_u64 :: "db \<Rightarrow> bytes \<Rightarrow> u64 \<Rightarrow> u64 result" where
  "read_u64 db k dflt =
     (case kv_get db k of
        None \<Rightarrow> Inr dflt
      | Some (VRaw b) \<Rightarrow> if length b = 8 then Inr (from_be_bytes b) else Inl Corrupt
      | Some _ \<Rightarrow> Inl Corrupt)"

definition put_u64 :: "bytes \<Rightarrow> u64 \<Rightarrow> db \<Rightarrow> db" where
  "put_u64 k n db = kv_put k (VRaw (to_be_bytes n)) db"

end
