(* ===== verification/Meta_Entities.thy ===== *)
theory Meta_Entities
  imports Meta_Records
begin

text \<open>
  The arms of \<^verbatim>\<open>apply_ops\<close> (\<^verbatim>\<open>crates/fs3-meta/src/lib.rs\<close>) for notification and inventory rules and background
  jobs, multipart uploads, access keys, temporary sessions, tenants, users, groups, policies and roles. The last
  section bounds the keys each of them writes.
\<close>

definition require_bucket :: "db \<Rightarrow> bytes \<Rightarrow> stored result" where
  "require_bucket db b = ok_or NotFound (kv_get db (bucket_key b))"

definition clear_prefix :: "bytes \<Rightarrow> db \<Rightarrow> db" where
  "clear_prefix p db = fold kv_del (map fst (scan_prefix db p)) db"

section \<open>Rules and jobs\<close>

definition op_notification_replace :: "bytes \<Rightarrow> notification_rule list \<Rightarrow> db \<Rightarrow> db result" where
  "op_notification_replace b rules db =
     bind_res (require_bucket db b) (\<lambda>_.
       Inr (fold (\<lambda>r. kv_put (notification_rule_key b (nr_id r)) (VNotification r)) rules
              (clear_prefix (notification_rules_prefix b) db)))"

definition op_notification_delete :: "bytes \<Rightarrow> db \<Rightarrow> db result" where
  "op_notification_delete b db =
     bind_res (require_bucket db b) (\<lambda>_. Inr (clear_prefix (notification_rules_prefix b) db))"

definition op_inventory_put :: "bytes \<Rightarrow> inventory_rule \<Rightarrow> db \<Rightarrow> db result" where
  "op_inventory_put b r db =
     bind_res (require_bucket db b) (\<lambda>_. Inr (kv_put (inventory_config_key b (iv_id r)) (VInventory r) db))"

definition op_inventory_delete :: "bytes \<Rightarrow> bytes \<Rightarrow> db \<Rightarrow> db result" where
  "op_inventory_delete b i db = bind_res (require_bucket db b) (\<lambda>_. Inr (kv_del (inventory_config_key b i) db))"

definition op_ingest_put :: "ingest_job \<Rightarrow> db \<Rightarrow> db result" where
  "op_ingest_put j db = bind_res (ingest_job_key (ij_id j)) (\<lambda>k. Inr (kv_put k (VIngest j) db))"

definition op_ingest_delete :: "bytes \<Rightarrow> db \<Rightarrow> db result" where
  "op_ingest_delete i db = bind_res (ingest_job_key i) (\<lambda>k. Inr (kv_del k db))"

definition op_batch_put :: "batch_job \<Rightarrow> db \<Rightarrow> db result" where
  "op_batch_put j db = bind_res (batch_job_key (bj_id j)) (\<lambda>k. Inr (kv_put k (VBatch j) db))"

definition op_batch_delete :: "bytes \<Rightarrow> db \<Rightarrow> db result" where
  "op_batch_delete i db = bind_res (batch_job_key i) (\<lambda>k. Inr (kv_del k db))"

fun apply_config :: "config_op \<Rightarrow> db \<Rightarrow> db result" where
  "apply_config (NotificationRulesReplace b rs) db = op_notification_replace b rs db"
| "apply_config (NotificationRulesDelete b) db = op_notification_delete b db"
| "apply_config (InventoryRulePut b r) db = op_inventory_put b r db"
| "apply_config (InventoryRuleDelete b i) db = op_inventory_delete b i db"
| "apply_config (IngestJobPut j) db = op_ingest_put j db"
| "apply_config (IngestJobDelete i) db = op_ingest_delete i db"
| "apply_config (BatchJobPut j) db = op_batch_put j db"
| "apply_config (BatchJobDelete i) db = op_batch_delete i db"

section \<open>Multipart uploads\<close>

definition op_multipart_create :: "bytes \<Rightarrow> multipart_session \<Rightarrow> db \<Rightarrow> db result" where
  "op_multipart_create uid s db =
     bind_res (require_bucket db (ms_bucket s)) (\<lambda>_.
       Inr (kv_put (session_index_key (ms_bucket s) uid) (VRaw [])
              (kv_put (session_key uid) (VSession (SCurrent s)) db)))"

definition op_multipart_update :: "bytes \<Rightarrow> bool \<Rightarrow> bytes \<Rightarrow> u64 \<Rightarrow> int \<Rightarrow> db \<Rightarrow> db result" where
  "op_multipart_update uid completed etag sz mtime db =
     bind_res (ok_or NotFound (kv_get db (session_key uid))) (\<lambda>v.
     bind_res (decode_session_strict v) (\<lambda>s.
       Inr (kv_put (session_key uid) (VSession (SCurrent
         (s\<lparr>ms_completed := completed, ms_final_etag := etag, ms_final_size := sz, ms_final_mtime := mtime\<rparr>))) db)))"

definition op_multipart_delete :: "bytes \<Rightarrow> db \<Rightarrow> db result" where
  "op_multipart_delete uid db =
     bind_res (ok_or NotFound (kv_get db (session_key uid))) (\<lambda>v.
     bind_res (decode_session_strict v) (\<lambda>s.
       Inr (kv_del (session_index_key (ms_bucket s) uid) (kv_del (session_key uid) db))))"

definition op_part_put :: "bytes \<Rightarrow> u32 \<Rightarrow> part_meta \<Rightarrow> db \<Rightarrow> db result" where
  "op_part_put uid n m db =
     bind_res (ok_or NotFound (kv_get db (session_key uid))) (\<lambda>_. Inr (kv_put (part_key uid n) (VPart (PCurrent m)) db))"

text \<open>Segments are replaced in order: the scan waits for the next segment of the old list.\<close>

fun remap_in_order :: "(segment \<times> segment) list \<Rightarrow> segment list \<Rightarrow> segment list \<times> nat" where
  "remap_in_order prs [] = ([], 0)"
| "remap_in_order [] (s # ss) = (s # ss, 0)"
| "remap_in_order ((old, new) # prs) (s # ss) =
     (if s = old then (let (out, n) = remap_in_order prs ss in (new # out, n + 1))
      else (let (out, n) = remap_in_order ((old, new) # prs) ss in (s # out, n)))"

definition op_part_migrate :: "bool \<Rightarrow> bytes \<Rightarrow> u32 \<Rightarrow> segment list \<Rightarrow> segment list \<Rightarrow> db \<Rightarrow> db result" where
  "op_part_migrate replay uid n old new db =
     bind_res (ok_or ObjectChanged (kv_get db (part_key uid n))) (\<lambda>v.
     bind_res (decode_part v) (\<lambda>m.
       if length old \<noteq> length new then Inl ObjectChanged
       else
         (let (out, cnt) = remap_in_order (zip old new) (pm_extents m)
          in if cnt \<noteq> length old \<and> \<not> replay then Inl ObjectChanged
             else Inr (kv_put (part_key uid n) (VPart (PCurrent (m\<lparr>pm_extents := out\<rparr>))) db))))"

definition op_part_delete :: "bytes \<Rightarrow> db \<Rightarrow> db result" where
  "op_part_delete raw db = Inr (if kv_get db raw = None then db else kv_del raw db)"

fun apply_multipart :: "bool \<Rightarrow> multipart_op \<Rightarrow> db \<Rightarrow> db result" where
  "apply_multipart replay (MultipartCreate uid s) db = op_multipart_create uid s db"
| "apply_multipart replay (MultipartUpdate uid c e z t) db = op_multipart_update uid c e z t db"
| "apply_multipart replay (MultipartDelete uid) db = op_multipart_delete uid db"
| "apply_multipart replay (PartPut uid n m) db = op_part_put uid n m db"
| "apply_multipart replay (PartMigrate uid n old new) db = op_part_migrate replay uid n old new db"
| "apply_multipart replay (PartDelete raw) db = op_part_delete raw db"

section \<open>Keys, sessions and identities\<close>

definition op_session_put :: "session_record \<Rightarrow> db \<Rightarrow> db result" where
  "op_session_put r db = Inr (kv_put (sts_session_key (sr_session_id r)) (VSts r) db)"

definition op_session_delete :: "bytes \<Rightarrow> db \<Rightarrow> db result" where
  "op_session_delete i db = Inr (kv_del (sts_session_key i) db)"

definition op_key_put :: "bytes \<Rightarrow> key_record \<Rightarrow> db \<Rightarrow> db result" where
  "op_key_put a r db = Inr (kv_put (key_key a) (VKey r) db)"

text \<open>Removal of an entry that must exist.\<close>

definition delete_existing :: "bytes \<Rightarrow> db \<Rightarrow> db result" where
  "delete_existing k db = bind_res (ok_or NotFound (kv_get db k)) (\<lambda>_. Inr (kv_del k db))"

definition op_key_delete :: "bytes \<Rightarrow> db \<Rightarrow> db result" where
  "op_key_delete a db = delete_existing (key_key a) db"

definition tprefix_nonempty :: "db \<Rightarrow> bytes \<Rightarrow> bool" where
  "tprefix_nonempty db p = (case iter_from p db of [] \<Rightarrow> False | (k, _) # _ \<Rightarrow> prefix p k)"

text \<open>Whether some access key satisfies a condition; the scan stops at a record it cannot read.\<close>

fun any_key :: "(key_record \<Rightarrow> bool) \<Rightarrow> db \<Rightarrow> bool result" where
  "any_key P [] = Inr False"
| "any_key P ((k, v) # items) =
     bind_res (decode_key_record v) (\<lambda>r. if P r then Inr True else any_key P items)"

definition op_tenant_put :: "tenant \<Rightarrow> db \<Rightarrow> db result" where
  "op_tenant_put t db = bind_res (tenant_key (tn_tenant_id t)) (\<lambda>k. Inr (kv_put k (VTenant t) db))"

definition op_tenant_delete :: "bytes \<Rightarrow> db \<Rightarrow> db result" where
  "op_tenant_delete t db =
     bind_res (tenant_key t) (\<lambda>k.
     bind_res (ok_or NotFound (kv_get db k)) (\<lambda>_.
     bind_res (iam_user_prefix t) (\<lambda>pu.
     bind_res (iam_group_prefix t) (\<lambda>pg.
     bind_res (iam_policy_prefix t) (\<lambda>pp.
     bind_res (iam_role_prefix t) (\<lambda>pr.
       if list_ex (tprefix_nonempty db) [pu, pg, pp, pr] then Inl InvalidArgument
       else bind_res (any_key (\<lambda>r. kr_tenant_id r = t) (scan_prefix db PREFIX_KEY)) (\<lambda>found.
         if found then Inl InvalidArgument else Inr (kv_del k db))))))))"

definition op_user_put :: "iam_user \<Rightarrow> db \<Rightarrow> db result" where
  "op_user_put u db = bind_res (iam_user_key (iu_tenant_id u) (iu_name u)) (\<lambda>k. Inr (kv_put k (VUser u) db))"

definition op_user_delete :: "bytes \<Rightarrow> bytes \<Rightarrow> db \<Rightarrow> db result" where
  "op_user_delete t n db =
     bind_res (iam_user_key t n) (\<lambda>k.
     bind_res (ok_or NotFound (kv_get db k)) (\<lambda>_.
       if t = DEFAULT_TENANT \<and> n = BOOTSTRAP_USER then Inl InvalidArgument
       else bind_res (any_key (\<lambda>r. kr_tenant_id r = t \<and> kr_owner_user r = n) (scan_prefix db PREFIX_KEY)) (\<lambda>found.
         if found then Inl InvalidArgument else Inr (kv_del k db))))"

text \<open>The group a user belongs to is kept on both sides; a group write updates the users' side.\<close>

fun add_members :: "bytes \<Rightarrow> bytes \<Rightarrow> bytes list \<Rightarrow> db \<Rightarrow> db result" where
  "add_members t g [] db = Inr db"
| "add_members t g (m # ms) db =
     bind_res (iam_user_key t m) (\<lambda>uk.
     bind_res (ok_or InvalidArgument (kv_get db uk)) (\<lambda>v.
     bind_res (decode_user v) (\<lambda>u.
       add_members t g ms
         (if g \<in> set (iu_groups u) then db else kv_put uk (VUser (u\<lparr>iu_groups := iu_groups u @ [g]\<rparr>)) db))))"

fun drop_members :: "bytes \<Rightarrow> bytes \<Rightarrow> bytes list \<Rightarrow> db \<Rightarrow> db result" where
  "drop_members t g [] db = Inr db"
| "drop_members t g (m # ms) db =
     bind_res (iam_user_key t m) (\<lambda>uk.
       case kv_get db uk of
         None \<Rightarrow> drop_members t g ms db
       | Some v \<Rightarrow> bind_res (decode_user v) (\<lambda>u.
           drop_members t g ms (kv_put uk (VUser (u\<lparr>iu_groups := filter (\<lambda>x. x \<noteq> g) (iu_groups u)\<rparr>)) db)))"

definition read_group :: "db \<Rightarrow> bytes \<Rightarrow> iam_group option result" where
  "read_group db k = (case kv_get db k of None \<Rightarrow> Inr None | Some v \<Rightarrow> bind_res (decode_group v) (\<lambda>g. Inr (Some g)))"

definition op_group_put :: "iam_group \<Rightarrow> db \<Rightarrow> db result" where
  "op_group_put g db =
     bind_res (iam_group_key (ig_tenant_id g) (ig_name g)) (\<lambda>k.
     bind_res (read_group db k) (\<lambda>old.
     bind_res (add_members (ig_tenant_id g) (ig_name g) (ig_members g) db) (\<lambda>db1.
     bind_res (case old of
         None \<Rightarrow> Inr db1
       | Some o' \<Rightarrow> drop_members (ig_tenant_id g) (ig_name g)
           (filter (\<lambda>m. m \<notin> set (ig_members g)) (ig_members o')) db1) (\<lambda>db2.
       Inr (kv_put k (VGroup g) db2)))))"

definition op_group_delete :: "bytes \<Rightarrow> bytes \<Rightarrow> db \<Rightarrow> db result" where
  "op_group_delete t n db =
     bind_res (iam_group_key t n) (\<lambda>k.
     bind_res (ok_or NotFound (kv_get db k)) (\<lambda>v.
     bind_res (decode_group v) (\<lambda>g.
     bind_res (drop_members t n (ig_members g) db) (\<lambda>db1. Inr (kv_del k db1)))))"

definition op_policy_put :: "iam_policy \<Rightarrow> db \<Rightarrow> db result" where
  "op_policy_put p db =
     bind_res (ok_or InvalidArgument (ip_tenant_id p)) (\<lambda>t.
     bind_res (iam_policy_key t (ip_name p)) (\<lambda>k. Inr (kv_put k (VPolicy p) db)))"

fun any_attached :: "(stored \<Rightarrow> bytes list result) \<Rightarrow> bytes \<Rightarrow> db \<Rightarrow> bool result" where
  "any_attached dec n [] = Inr False"
| "any_attached dec n ((k, v) # items) =
     bind_res (dec v) (\<lambda>ps. if n \<in> set ps then Inr True else any_attached dec n items)"

definition user_policies :: "stored \<Rightarrow> bytes list result" where
  "user_policies v = bind_res (decode_user v) (\<lambda>u. Inr (iu_policies u))"

definition group_policies :: "stored \<Rightarrow> bytes list result" where
  "group_policies v = bind_res (decode_group v) (\<lambda>g. Inr (ig_policies g))"

definition op_policy_delete :: "bytes \<Rightarrow> bytes \<Rightarrow> db \<Rightarrow> db result" where
  "op_policy_delete t n db =
     bind_res (iam_policy_key t n) (\<lambda>k.
     bind_res (ok_or NotFound (kv_get db k)) (\<lambda>_.
     bind_res (iam_user_prefix t) (\<lambda>pu.
     bind_res (iam_group_prefix t) (\<lambda>pg.
     bind_res (any_attached user_policies n (scan_prefix db pu)) (\<lambda>by_user.
       if by_user then Inl InvalidArgument
       else bind_res (any_attached group_policies n (scan_prefix db pg)) (\<lambda>by_group.
         if by_group then Inl InvalidArgument else Inr (kv_del k db)))))))"

definition op_role_put :: "iam_role \<Rightarrow> db \<Rightarrow> db result" where
  "op_role_put r db = bind_res (iam_role_key (ir_tenant_id r) (ir_name r)) (\<lambda>k. Inr (kv_put k (VRole r) db))"

definition op_role_delete :: "bytes \<Rightarrow> bytes \<Rightarrow> db \<Rightarrow> db result" where
  "op_role_delete t n db = bind_res (iam_role_key t n) (\<lambda>k. delete_existing k db)"

fun apply_iam :: "iam_op \<Rightarrow> db \<Rightarrow> db result" where
  "apply_iam (SessionPut r) db = op_session_put r db"
| "apply_iam (SessionDelete i) db = op_session_delete i db"
| "apply_iam (KeyPut a r) db = op_key_put a r db"
| "apply_iam (KeyDelete a) db = op_key_delete a db"
| "apply_iam (TenantPut t) db = op_tenant_put t db"
| "apply_iam (TenantDelete t) db = op_tenant_delete t db"
| "apply_iam (IamUserPut u) db = op_user_put u db"
| "apply_iam (IamUserDelete t n) db = op_user_delete t n db"
| "apply_iam (IamGroupPut g) db = op_group_put g db"
| "apply_iam (IamGroupDelete t n) db = op_group_delete t n db"
| "apply_iam (IamPolicyPut p) db = op_policy_put p db"
| "apply_iam (IamPolicyDelete t n) db = op_policy_delete t n db"
| "apply_iam (IamRolePut r) db = op_role_put r db"
| "apply_iam (IamRoleDelete t n) db = op_role_delete t n db"

section \<open>Frame\<close>

text \<open>The key prefixes an operation may write under.\<close>

fun config_families :: "config_op \<Rightarrow> bytes list" where
  "config_families (NotificationRulesReplace _ _) = [PREFIX_NOTIFICATION]"
| "config_families (NotificationRulesDelete _) = [PREFIX_NOTIFICATION]"
| "config_families (InventoryRulePut _ _) = [PREFIX_INVENTORY]"
| "config_families (InventoryRuleDelete _ _) = [PREFIX_INVENTORY]"
| "config_families (IngestJobPut _) = [PREFIX_INGEST_JOB]"
| "config_families (IngestJobDelete _) = [PREFIX_INGEST_JOB]"
| "config_families (BatchJobPut _) = [PREFIX_BATCH_JOB]"
| "config_families (BatchJobDelete _) = [PREFIX_BATCH_JOB]"

fun multipart_families :: "multipart_op \<Rightarrow> bytes list" where
  "multipart_families (MultipartUpdate _ _ _ _ _) = [PREFIX_UPLOAD]"
| "multipart_families (PartPut _ _ _) = [PREFIX_PART]"
| "multipart_families (PartMigrate _ _ _ _) = [PREFIX_PART]"
| "multipart_families (PartDelete raw) = [raw]"
| "multipart_families _ = [PREFIX_UPLOAD, PREFIX_UPLOAD_INDEX]"

fun iam_families :: "iam_op \<Rightarrow> bytes list" where
  "iam_families (SessionPut _) = [PREFIX_SESSION]"
| "iam_families (SessionDelete _) = [PREFIX_SESSION]"
| "iam_families (KeyPut _ _) = [PREFIX_KEY]"
| "iam_families (KeyDelete _) = [PREFIX_KEY]"
| "iam_families (TenantPut _) = [PREFIX_TENANT]"
| "iam_families (TenantDelete _) = [PREFIX_TENANT]"
| "iam_families (IamUserPut _) = [PREFIX_IAM_USER]"
| "iam_families (IamUserDelete _ _) = [PREFIX_IAM_USER]"
| "iam_families (IamGroupPut _) = [PREFIX_IAM_USER, PREFIX_IAM_GROUP]"
| "iam_families (IamGroupDelete _ _) = [PREFIX_IAM_USER, PREFIX_IAM_GROUP]"
| "iam_families (IamPolicyPut _) = [PREFIX_IAM_POLICY]"
| "iam_families (IamPolicyDelete _ _) = [PREFIX_IAM_POLICY]"
| "iam_families (IamRolePut _) = [PREFIX_IAM_ROLE]"
| "iam_families (IamRoleDelete _ _) = [PREFIX_IAM_ROLE]"

definition outside :: "bytes list \<Rightarrow> bytes \<Rightarrow> bool" where
  "outside ps k \<longleftrightarrow> list_all (\<lambda>p. \<not> prefix p k) ps"

lemma prefix_neq: "prefix p (k' :: bytes) \<Longrightarrow> \<not> prefix p k \<Longrightarrow> k \<noteq> k'"
  by blast

lemma kv_put_frame: "kv_wf db \<Longrightarrow> k \<noteq> k' \<Longrightarrow> kv_get (kv_put k' v db) k = kv_get db k"
  by (simp add: store.get_put)

lemma kv_del_frame: "k \<noteq> k' \<Longrightarrow> kv_get (kv_del k' db) k = kv_get db k"
  by (simp add: kv_get_del)

lemma clear_prefix_wf: "kv_wf db \<Longrightarrow> kv_wf (clear_prefix p db)"
  unfolding clear_prefix_def by (rule store.wf_dels)

lemma clear_prefix_get: "kv_wf db \<Longrightarrow> kv_get (clear_prefix p db) k = (if prefix p k then None else kv_get db k)"
  unfolding clear_prefix_def by (rule store.scan_clears)

lemma fold_del_wf: "kv_wf db \<Longrightarrow> kv_wf (fold (\<lambda>c. kv_del (f c)) cs db)"
  by (induction cs arbitrary: db) (simp_all add: store.wf_del)

lemma fold_del_get: "kv_get (fold (\<lambda>c. kv_del (f c)) cs db) k = (if k \<in> f ` set cs then None else kv_get db k)"
  by (induction cs arbitrary: db) (auto simp: kv_get_del)

lemma fold_put_wf: "kv_wf db \<Longrightarrow> kv_wf (fold (\<lambda>r. kv_put (f r) (g r)) rs db)"
  by (induction rs arbitrary: db) (simp_all add: store.wf_put)

lemma fold_put_frame: "kv_wf db \<Longrightarrow> k \<notin> f ` set rs \<Longrightarrow> kv_get (fold (\<lambda>r. kv_put (f r) (g r)) rs db) k = kv_get db k"
  by (induction rs arbitrary: db) (auto simp: store.wf_put store.get_put)

lemmas kv_wf_intros = store.wf_put store.wf_del clear_prefix_wf fold_del_wf fold_put_wf

lemma outside_Nil [simp]: "outside [] k" and outside_Cons: "outside (p # ps) k \<longleftrightarrow> \<not> prefix p k \<and> outside ps k"
  by (simp_all add: outside_def)

lemma prefix_of_prefix: "prefix p q \<Longrightarrow> \<not> prefix p k \<Longrightarrow> \<not> prefix q k"
  using prefix_order.trans by blast

lemma entity_key_prefixes [simp]:
  "prefix PREFIX_NOTIFICATION (notification_rule_key b i)" "prefix PREFIX_NOTIFICATION (notification_rules_prefix b)"
  "prefix PREFIX_INVENTORY (inventory_config_key b i)" "prefix PREFIX_UPLOAD (session_key u)"
  "prefix PREFIX_UPLOAD_INDEX (session_index_key b u)" "prefix PREFIX_PART (part_key u n)"
  "prefix PREFIX_SESSION (sts_session_key i)" "prefix PREFIX_KEY (key_key a)"
  by (simp_all add: notification_rule_key_def notification_rules_prefix_def inventory_config_key_def session_key_def
      session_index_key_def part_key_def sts_session_key_def key_key_def)

lemma entity_key_Inr:
  "ingest_job_key i = Inr k \<Longrightarrow> prefix PREFIX_INGEST_JOB k" "batch_job_key i = Inr k \<Longrightarrow> prefix PREFIX_BATCH_JOB k"
  "tenant_key t = Inr k \<Longrightarrow> prefix PREFIX_TENANT k" "iam_user_key t n = Inr k \<Longrightarrow> prefix PREFIX_IAM_USER k"
  "iam_group_key t n = Inr k \<Longrightarrow> prefix PREFIX_IAM_GROUP k" "iam_policy_key t n = Inr k \<Longrightarrow> prefix PREFIX_IAM_POLICY k"
  "iam_role_key t n = Inr k \<Longrightarrow> prefix PREFIX_IAM_ROLE k"
  by (auto simp: ingest_job_key_def batch_job_key_def tenant_key_def iam_user_key_def iam_group_key_def
      iam_policy_key_def iam_role_key_def iam_entity_key_def bind_res_eq_Inr split: if_splits)

text \<open>What an operation that stays within some key families keeps.\<close>

definition keeps :: "bytes list \<Rightarrow> db \<Rightarrow> db \<Rightarrow> bool" where
  "keeps ps db db' \<longleftrightarrow> kv_wf db' \<and> (\<forall>k. outside ps k \<longrightarrow> kv_get db' k = kv_get db k)"

lemma keepsD: "keeps ps db db' \<Longrightarrow> kv_wf db'" "keeps ps db db' \<Longrightarrow> outside ps k \<Longrightarrow> kv_get db' k = kv_get db k"
  by (simp_all add: keeps_def)

lemma keeps_refl [intro]: "kv_wf db \<Longrightarrow> keeps ps db db"
  by (simp add: keeps_def)

lemma keeps_trans: "keeps ps a b \<Longrightarrow> keeps ps b c \<Longrightarrow> keeps ps a c"
  by (simp add: keeps_def)

lemma outside_member: "outside ps k \<Longrightarrow> p \<in> set ps \<Longrightarrow> \<not> prefix p k"
  by (simp add: outside_def list_all_iff)

lemma keeps_put: "kv_wf db \<Longrightarrow> p \<in> set ps \<Longrightarrow> prefix p k \<Longrightarrow> keeps ps db (kv_put k v db)"
  using outside_member by (fastforce simp: keeps_def store.wf_put store.get_put)

lemma keeps_del: "kv_wf db \<Longrightarrow> p \<in> set ps \<Longrightarrow> prefix p k \<Longrightarrow> keeps ps db (kv_del k db)"
  using outside_member by (fastforce simp: keeps_def store.wf_del kv_get_del)

lemma keeps_clear: "kv_wf db \<Longrightarrow> p \<in> set ps \<Longrightarrow> prefix p q \<Longrightarrow> keeps ps db (clear_prefix q db)"
  using outside_member prefix_of_prefix by (fastforce simp: keeps_def clear_prefix_wf clear_prefix_get)

lemma keeps_fold_put:
  "kv_wf db \<Longrightarrow> p \<in> set ps \<Longrightarrow> (\<And>r. prefix p (f r)) \<Longrightarrow> keeps ps db (fold (\<lambda>r. kv_put (f r) (g r)) rs db)"
proof (induction rs arbitrary: db)
  case (Cons r rs)
  have "keeps ps db (kv_put (f r) (g r) db)" by (rule keeps_put) (use Cons.prems in auto)
  then show ?case using Cons keeps_trans keepsD(1) by fastforce
qed auto

lemma config_keeps:
  assumes "apply_config p db = Inr db'" "kv_wf db"
  shows "keeps (config_families p) db db'"
proof (cases p)
  case (NotificationRulesReplace b rs)
  let ?c = "clear_prefix (notification_rules_prefix b) db"
  have "keeps (config_families p) db ?c" by (rule keeps_clear) (use assms NotificationRulesReplace in auto)
  moreover have "keeps (config_families p) ?c (fold (\<lambda>r. kv_put (notification_rule_key b (nr_id r)) (VNotification r)) rs ?c)"
    by (rule keeps_fold_put [where p = PREFIX_NOTIFICATION]) (use assms NotificationRulesReplace in \<open>auto intro: clear_prefix_wf\<close>)
  ultimately show ?thesis
    using assms NotificationRulesReplace keeps_trans by (auto simp: op_notification_replace_def bind_res_eq_Inr)
qed (use assms in \<open>auto simp: op_notification_delete_def op_inventory_put_def op_inventory_delete_def op_ingest_put_def
  op_ingest_delete_def op_batch_put_def op_batch_delete_def bind_res_eq_Inr
  intro!: keeps_put keeps_del keeps_clear dest: entity_key_Inr\<close>)

lemma multipart_keeps:
  assumes "apply_multipart replay p db = Inr db'" "kv_wf db"
  shows "keeps (multipart_families p) db db'"
proof (cases p)
  case (MultipartCreate u s)
  then have "keeps (multipart_families p) db (kv_put (session_key u) (VSession (SCurrent s)) db)"
    by (intro keeps_put [where p = PREFIX_UPLOAD]) (use assms in auto)
  then show ?thesis
    using assms MultipartCreate keeps_trans keepsD(1) keeps_put [where p = PREFIX_UPLOAD_INDEX]
    by (fastforce simp: op_multipart_create_def bind_res_eq_Inr)
next
  case (MultipartDelete u)
  then have "keeps (multipart_families p) db (kv_del (session_key u) db)"
    by (intro keeps_del [where p = PREFIX_UPLOAD]) (use assms in auto)
  then show ?thesis
    using assms MultipartDelete keeps_trans keepsD(1) keeps_del [where p = PREFIX_UPLOAD_INDEX]
    by (fastforce simp: op_multipart_delete_def bind_res_eq_Inr)
qed (use assms in \<open>auto simp: op_multipart_update_def op_part_put_def op_part_migrate_def op_part_delete_def bind_res_eq_Inr
  Let_def case_prod_beta intro!: keeps_put keeps_del split: if_splits\<close>)

lemma add_members_keeps:
  "add_members t g ms db = Inr db' \<Longrightarrow> kv_wf db \<Longrightarrow> PREFIX_IAM_USER \<in> set ps \<Longrightarrow> keeps ps db db'"
proof (induction ms arbitrary: db)
  case (Cons m ms)
  then obtain uk v u where *: "iam_user_key t m = Inr uk" "kv_get db uk = Some v" "decode_user v = Inr u" and
    r: "add_members t g ms (if g \<in> set (iu_groups u) then db else kv_put uk (VUser (u\<lparr>iu_groups := iu_groups u @ [g]\<rparr>)) db) = Inr db'"
    by (auto simp: bind_res_eq_Inr ok_or_Inr)
  let ?d = "if g \<in> set (iu_groups u) then db else kv_put uk (VUser (u\<lparr>iu_groups := iu_groups u @ [g]\<rparr>)) db"
  have "keeps ps db ?d" using Cons.prems entity_key_Inr(4) [OF *(1)] by (auto intro: keeps_put)
  with Cons.IH [OF r] Cons.prems(3) show ?case using keeps_trans keepsD(1) by blast
qed auto

lemma drop_members_keeps:
  "drop_members t g ms db = Inr db' \<Longrightarrow> kv_wf db \<Longrightarrow> PREFIX_IAM_USER \<in> set ps \<Longrightarrow> keeps ps db db'"
proof (induction ms arbitrary: db)
  case (Cons m ms)
  then obtain uk where uk: "iam_user_key t m = Inr uk" by (auto simp: bind_res_eq_Inr)
  show ?case
  proof (cases "kv_get db uk")
    case None
    with Cons uk show ?thesis by simp
  next
    case (Some v)
    with Cons.prems uk obtain u where u: "decode_user v = Inr u" and
      r: "drop_members t g ms (kv_put uk (VUser (u\<lparr>iu_groups := filter (\<lambda>x. x \<noteq> g) (iu_groups u)\<rparr>)) db) = Inr db'"
      by (auto simp: bind_res_eq_Inr)
    let ?d = "kv_put uk (VUser (u\<lparr>iu_groups := filter (\<lambda>x. x \<noteq> g) (iu_groups u)\<rparr>)) db"
    have "keeps ps db ?d" using Cons.prems entity_key_Inr(4) [OF uk] by (auto intro: keeps_put)
    with Cons.IH [OF r] Cons.prems(3) show ?thesis using keeps_trans keepsD(1) by blast
  qed
qed auto

lemma group_put_keeps:
  assumes "op_group_put g db = Inr db'" "kv_wf db"
  shows "keeps [PREFIX_IAM_USER, PREFIX_IAM_GROUP] db db'"
proof -
  from assms(1) obtain k and old :: "iam_group option" and d1 d2 where k: "iam_group_key (ig_tenant_id g) (ig_name g) = Inr k" and
    d1: "add_members (ig_tenant_id g) (ig_name g) (ig_members g) db = Inr d1" and
    d2: "(case old of None \<Rightarrow> Inr d1 | Some o' \<Rightarrow> drop_members (ig_tenant_id g) (ig_name g)
           (filter (\<lambda>m. m \<notin> set (ig_members g)) (ig_members o')) d1) = Inr d2" and
    db': "db' = kv_put k (VGroup g) d2"
    by (auto simp: op_group_put_def bind_res_eq_Inr)
  let ?ps = "[PREFIX_IAM_USER, PREFIX_IAM_GROUP]"
  have k1: "keeps ?ps db d1" using add_members_keeps [OF d1 assms(2)] by simp
  have k2: "keeps ?ps d1 d2"
    using d2 drop_members_keeps [OF _ keepsD(1) [OF k1], where ps = ?ps] keepsD(1) [OF k1]
    by (cases old) auto
  have "keeps ?ps d2 db'" unfolding db' using entity_key_Inr(5) [OF k] keepsD(1) [OF k2]
    by (intro keeps_put [where p = PREFIX_IAM_GROUP]) auto
  with k1 k2 show ?thesis using keeps_trans by blast
qed

lemma group_delete_keeps:
  assumes "op_group_delete t n db = Inr db'" "kv_wf db"
  shows "keeps [PREFIX_IAM_USER, PREFIX_IAM_GROUP] db db'"
proof -
  from assms(1) obtain k and g :: iam_group and d1 where k: "iam_group_key t n = Inr k" and
    d1: "drop_members t n (ig_members g) db = Inr d1" and db': "db' = kv_del k d1"
    by (auto simp: op_group_delete_def bind_res_eq_Inr)
  let ?ps = "[PREFIX_IAM_USER, PREFIX_IAM_GROUP]"
  have k1: "keeps ?ps db d1" using drop_members_keeps [OF d1 assms(2)] by simp
  have "keeps ?ps d1 db'" unfolding db' using entity_key_Inr(5) [OF k] keepsD(1) [OF k1]
    by (intro keeps_del [where p = PREFIX_IAM_GROUP]) auto
  with k1 show ?thesis using keeps_trans by blast
qed

lemma iam_keeps:
  assumes "apply_iam p db = Inr db'" "kv_wf db"
  shows "keeps (iam_families p) db db'"
proof (cases p)
  case (IamGroupPut g)
  with assms group_put_keeps show ?thesis by simp
next
  case (IamGroupDelete t n)
  with assms group_delete_keeps show ?thesis by simp
qed (use assms in \<open>auto simp: op_session_put_def op_session_delete_def op_key_put_def op_key_delete_def delete_existing_def
  op_tenant_put_def op_tenant_delete_def op_user_put_def op_user_delete_def op_policy_put_def op_policy_delete_def
  op_role_put_def op_role_delete_def bind_res_eq_Inr Let_def
  intro!: keeps_put keeps_del dest: entity_key_Inr split: if_splits\<close>)

end
