(* ===== verification/Meta_Store.thy ===== *)
theory Meta_Store
  imports Meta_Entities
begin

text \<open>
  The metadata store (\<^verbatim>\<open>crates/fs3-meta/src/lib.rs\<close>): the operations a transaction is made of, their effect
  on the ordered store (one definition per arm of \<^verbatim>\<open>apply_ops\<close>), and \<^verbatim>\<open>commit\<close>. Values are kept decoded:
  \<open>stored\<close> has one constructor per stored structure, and reading a value of another structure is the
  error \<open>Corrupt\<close>. The arms for rules, jobs, multipart uploads and identities are in \<open>Meta_Entities\<close>.
\<close>

section \<open>Buckets\<close>

fun conf_key :: "bucket_conf \<Rightarrow> bytes \<Rightarrow> bytes" where
  "conf_key Cors b = bucket_conf_key PREFIX_BUCKET_CORS b"
| "conf_key Tagging b = bucket_conf_key PREFIX_BUCKET_TAGGING b"
| "conf_key Ownership b = bucket_conf_key PREFIX_BUCKET_OWNERSHIP b"
| "conf_key PublicAccessBlock b = bucket_conf_key PREFIX_BUCKET_BPA b"
| "conf_key PolicyDoc b = bucket_conf_key PREFIX_BUCKET_POLICY b"

definition all_confs :: "bucket_conf list" where
  "all_confs = [Cors, Tagging, Ownership, PublicAccessBlock, PolicyDoc]"

definition op_bucket_put :: "bytes \<Rightarrow> bucket_meta \<Rightarrow> bytes option \<Rightarrow> db \<Rightarrow> db result" where
  "op_bucket_put name m location db =
     (let db1 = kv_put (bucket_key name) (VBucket m) db;
          lk = bucket_location_key name
      in Inr (case location of Some loc \<Rightarrow> kv_put lk (VRaw loc) db1 | None \<Rightarrow> kv_del lk db1))"

definition op_bucket_delete :: "bytes \<Rightarrow> db \<Rightarrow> db result" where
  "op_bucket_delete name db =
     bind_res (require_bucket db name) (\<lambda>_.
       let db1 = kv_del (bucket_location_key name) (kv_del (bucket_key name) db);
           db2 = fold (\<lambda>c. kv_del (conf_key c name)) all_confs db1;
           db3 = clear_prefix (lifecycle_rules_prefix name) db2;
           db4 = clear_prefix (notification_rules_prefix name) db3
       in Inr (clear_prefix (inventory_configs_prefix name) db4))"

definition update_bucket :: "bytes \<Rightarrow> (bucket_meta \<Rightarrow> bucket_meta) \<Rightarrow> db \<Rightarrow> db result" where
  "update_bucket name f db =
     bind_res (require_bucket db name) (\<lambda>v.
     bind_res (decode_bucket v) (\<lambda>m. Inr (kv_put (bucket_key name) (VBucket (f m)) db)))"

definition op_bucket_set_versioning :: "bytes \<Rightarrow> versioning_state \<Rightarrow> db \<Rightarrow> db result" where
  "op_bucket_set_versioning name state = update_bucket name (\<lambda>m. m\<lparr>bk_versioning := state\<rparr>)"

definition op_bucket_set_encryption :: "bytes \<Rightarrow> sse_algorithm option \<Rightarrow> db \<Rightarrow> db result" where
  "op_bucket_set_encryption name dflt = update_bucket name (\<lambda>m. m\<lparr>bk_default_encryption := dflt\<rparr>)"

definition op_bucket_set_encryption_kms :: "bytes \<Rightarrow> sse_algorithm option \<Rightarrow> bytes option \<Rightarrow> db \<Rightarrow> db result" where
  "op_bucket_set_encryption_kms name dflt kms_key =
     update_bucket name (\<lambda>m. m\<lparr>bk_default_encryption := dflt, bk_default_kms_key := kms_key\<rparr>)"

definition op_bucket_set_object_lock :: "bytes \<Rightarrow> default_retention option \<Rightarrow> db \<Rightarrow> db result" where
  "op_bucket_set_object_lock name dr =
     update_bucket name (\<lambda>m. m\<lparr>bk_object_lock := True, bk_versioning := Enabled, bk_default_retention := dr\<rparr>)"

definition op_conf_put :: "bytes \<Rightarrow> bucket_conf \<Rightarrow> bytes \<Rightarrow> db \<Rightarrow> db result" where
  "op_conf_put b c v db = bind_res (require_bucket db b) (\<lambda>_. Inr (kv_put (conf_key c b) (VRaw v) db))"

definition op_conf_delete :: "bytes \<Rightarrow> bucket_conf \<Rightarrow> db \<Rightarrow> db result" where
  "op_conf_delete b c db = bind_res (require_bucket db b) (\<lambda>_. Inr (kv_del (conf_key c b) db))"

definition op_lifecycle_replace :: "bytes \<Rightarrow> lifecycle_rule list \<Rightarrow> db \<Rightarrow> db result" where
  "op_lifecycle_replace b rules db =
     bind_res (require_bucket db b) (\<lambda>_.
       Inr (fold (\<lambda>r. kv_put (lifecycle_rule_key b (lr_id r)) (VLifecycle r)) rules
              (clear_prefix (lifecycle_rules_prefix b) db)))"

definition op_lifecycle_delete :: "bytes \<Rightarrow> db \<Rightarrow> db result" where
  "op_lifecycle_delete b db =
     bind_res (require_bucket db b) (\<lambda>_. Inr (clear_prefix (lifecycle_rules_prefix b) db))"

section \<open>Events and restore jobs\<close>

definition op_event_enqueue :: "u64 \<Rightarrow> event_record \<Rightarrow> db \<Rightarrow> db result" where
  "op_event_enqueue seq r db = Inr (kv_put (event_key seq) (VEvent (r\<lparr>ev_seq := seq\<rparr>)) db)"

definition op_event_mark_dead :: "u64 \<Rightarrow> db \<Rightarrow> db result" where
  "op_event_mark_dead n db =
     bind_res (ok_or NotFound (kv_get db (event_key n))) (\<lambda>v.
     bind_res (decode_event v) (\<lambda>r. Inr (kv_put (event_key n) (VEvent (r\<lparr>ev_dead := True\<rparr>)) db)))"

definition op_event_delete :: "u64 \<Rightarrow> db \<Rightarrow> db result" where
  "op_event_delete n db = Inr (kv_del (event_key n) db)"

definition op_restore_job_put :: "u64 \<Rightarrow> restore_job \<Rightarrow> db \<Rightarrow> db result" where
  "op_restore_job_put seq j db = Inr (kv_put (restore_job_key seq) (VRestoreJob j) db)"

definition op_restore_job_delete :: "u64 \<Rightarrow> db \<Rightarrow> db result" where
  "op_restore_job_delete n db = Inr (kv_del (restore_job_key n) db)"

section \<open>Objects\<close>

text \<open>The key an object operation addresses: the plain one, or that of a version.\<close>

definition entry_key :: "bytes \<Rightarrow> bytes \<Rightarrow> bytes option \<Rightarrow> bytes" where
  "entry_key b k vk = (case vk of Some v \<Rightarrow> object_version_key b k v | None \<Rightarrow> object_key b k)"

definition update_object :: "bytes \<Rightarrow> bytes \<Rightarrow> bytes option \<Rightarrow> (object_meta \<Rightarrow> object_meta) \<Rightarrow> db \<Rightarrow> db result" where
  "update_object b k vk f db =
     bind_res (ok_or NotFound (kv_get db (entry_key b k vk))) (\<lambda>v.
     bind_res (decode_object v) (\<lambda>m. Inr (kv_put (entry_key b k vk) (VObject (f m)) db)))"

definition op_set_tags :: "bytes \<Rightarrow> bytes \<Rightarrow> bytes option \<Rightarrow> (bytes \<times> bytes) list \<Rightarrow> db \<Rightarrow> db result" where
  "op_set_tags b k vk tags = update_object b k vk (\<lambda>m. m\<lparr>om_tags := tags\<rparr>)"

definition op_set_retention :: "bytes \<Rightarrow> bytes \<Rightarrow> bytes option \<Rightarrow> retention option \<Rightarrow> db \<Rightarrow> db result" where
  "op_set_retention b k vk r = update_object b k vk (\<lambda>m. m\<lparr>om_retention := r\<rparr>)"

definition op_set_legal_hold :: "bytes \<Rightarrow> bytes \<Rightarrow> bytes option \<Rightarrow> bool \<Rightarrow> db \<Rightarrow> db result" where
  "op_set_legal_hold b k vk h = update_object b k vk (\<lambda>m. m\<lparr>om_legal_hold := h\<rparr>)"

definition op_object_put :: "bytes \<Rightarrow> bytes \<Rightarrow> object_meta \<Rightarrow> db \<Rightarrow> db result" where
  "op_object_put b k m db =
     bind_res (require_bucket db b) (\<lambda>_. Inr (kv_put (object_key b k) (VObject m) db))"

text \<open>Replacing segments: the new list and how many were replaced.\<close>

definition remap_seg :: "segment list \<Rightarrow> segment list \<Rightarrow> segment \<Rightarrow> segment" where
  "remap_seg old new s = (case position (\<lambda>q. q = s) old of Some i \<Rightarrow> new ! i | None \<Rightarrow> s)"

definition remap :: "segment list \<Rightarrow> segment list \<Rightarrow> segment list \<Rightarrow> segment list \<times> nat" where
  "remap old new segs = (map (remap_seg old new) segs, length (filter (\<lambda>s. s \<in> set old) segs))"

definition op_object_migrate ::
  "apply_mode \<Rightarrow> bytes \<Rightarrow> bytes \<Rightarrow> bytes option \<Rightarrow> segment list \<Rightarrow> segment list \<Rightarrow> db \<Rightarrow> db result" where
  "op_object_migrate mode b k vk old new db =
     bind_res (ok_or ObjectChanged (kv_get db (entry_key b k vk))) (\<lambda>v.
     bind_res (decode_object v) (\<lambda>m.
       if length old \<noteq> length new then Inl ObjectChanged
       else
         (let (ext, n_ext) = remap old new (om_extents m);
              (rest, n_rest) = (case om_restore_state m of
                  Some st \<Rightarrow> remap old new (restored_extents st) | None \<Rightarrow> ([], 0))
          in if n_ext + n_rest \<noteq> length old \<and> \<not> is_replay mode then Inl ObjectChanged
             else Inr (kv_put (entry_key b k vk)
               (VObject (m\<lparr>om_extents := ext,
                  om_restore_state := map_option (\<lambda>st. st\<lparr>restored_extents := rest\<rparr>) (om_restore_state m)\<rparr>)) db))))"

definition op_object_delete :: "bytes \<Rightarrow> bytes \<Rightarrow> db \<Rightarrow> db result" where
  "op_object_delete b k db =
     bind_res (ok_or NotFound (kv_get db (object_key b k))) (\<lambda>_. Inr (kv_del (object_key b k) db))"

definition op_object_delete_current :: "bytes \<Rightarrow> bytes \<Rightarrow> bytes option \<Rightarrow> object_meta \<Rightarrow> db \<Rightarrow> db result" where
  "op_object_delete_current b k vk marker db =
     bind_res (require_bucket db b) (\<lambda>_.
       if \<not> om_is_delete_marker marker \<or> om_size marker \<noteq> 0 \<or> om_extents marker \<noteq> [] \<or> om_inline marker \<noteq> None
       then Inl InvalidArgument
       else Inr (kv_put (entry_key b k vk) (VObject marker) db))"

definition op_object_delete_version :: "bytes \<Rightarrow> bytes \<Rightarrow> bytes \<Rightarrow> db \<Rightarrow> db result" where
  "op_object_delete_version b k vk db =
     bind_res (ok_or NotFound (kv_get db (object_version_key b k vk))) (\<lambda>_.
       Inr (kv_del (object_version_key b k vk) db))"

definition op_object_put_version :: "bytes \<Rightarrow> bytes \<Rightarrow> bytes \<Rightarrow> object_meta \<Rightarrow> db \<Rightarrow> db result" where
  "op_object_put_version b k vk m db =
     bind_res (require_bucket db b) (\<lambda>_.
       if om_is_delete_marker m then Inl InvalidArgument
       else Inr (kv_put (object_version_key b k vk) (VObject m) db))"

definition op_meta_rewrite :: "bytes \<Rightarrow> object_meta \<Rightarrow> db \<Rightarrow> db result" where
  "op_meta_rewrite raw m db =
     bind_res (ok_or NotFound (kv_get db raw)) (\<lambda>_. Inr (kv_put raw (VObject m) db))"

section \<open>Allocation records, statistics, key material\<close>

definition op_alloc :: "apply_mode \<Rightarrow> u64 \<Rightarrow> alloc_draft \<Rightarrow> db \<Rightarrow> db result" where
  "op_alloc mode seq draft db =
     (if is_replay mode \<or> draft_is_empty draft then Inr db
      else
        (let r = \<lparr>r_seq = seq, r_txn = seq, r_alloc = d_alloc draft, r_ref_inc = d_ref_inc draft,
                  r_ref_dec = d_ref_dec draft\<rparr>
         in Inr (put_u64 (txn_key seq) seq (kv_put (alloc_key seq) (VAlloc r) db))))"

definition stat_add :: "u64 \<Rightarrow> int \<Rightarrow> u64" where
  "stat_add n d = of_int (max 0 (uint n + d))"

definition apply_stats :: "stats_delta \<Rightarrow> bucket_stats \<Rightarrow> bucket_stats" where
  "apply_stats d st =
     fold apply_class_delta (sd_by_class d)
       (st\<lparr>bs_objects := stat_add (bs_objects st) (sd_objects d), bs_bytes := stat_add (bs_bytes st) (sd_bytes d)\<rparr>)"

definition op_stats :: "bytes \<Rightarrow> stats_delta \<Rightarrow> db \<Rightarrow> db result" where
  "op_stats b d = update_bucket b (\<lambda>m. m\<lparr>bk_stats := apply_stats d (bk_stats m)\<rparr>)"

definition op_kek_seed_put :: "bytes \<Rightarrow> db \<Rightarrow> db result" where
  "op_kek_seed_put seed db =
     (if length seed \<noteq> 64 then Inl Corrupt else Inr (kv_put SYS_SSE_KEK_SEED (VRaw seed) db))"

definition op_kek_gen_put :: "kek_gen_state \<Rightarrow> db \<Rightarrow> db result" where
  "op_kek_gen_put st db = Inr (kv_put SYS_SSE_KEK_GEN (VKekGen st) db)"

section \<open>Transactions\<close>

fun apply_op :: "apply_mode \<Rightarrow> u64 \<Rightarrow> meta_op \<Rightarrow> db \<Rightarrow> db result" where
  "apply_op mode seq (BucketPut n m loc) db = op_bucket_put n m loc db"
| "apply_op mode seq (BucketDelete n) db = op_bucket_delete n db"
| "apply_op mode seq (BucketSetVersioning n s) db = op_bucket_set_versioning n s db"
| "apply_op mode seq (BucketSetEncryption n d) db = op_bucket_set_encryption n d db"
| "apply_op mode seq (BucketSetEncryptionKms n d k) db = op_bucket_set_encryption_kms n d k db"
| "apply_op mode seq (BucketSetObjectLock n d) db = op_bucket_set_object_lock n d db"
| "apply_op mode seq (BucketConfPut b c v) db = op_conf_put b c v db"
| "apply_op mode seq (BucketConfDelete b c) db = op_conf_delete b c db"
| "apply_op mode seq (LifecycleRulesReplace b rs) db = op_lifecycle_replace b rs db"
| "apply_op mode seq (LifecycleRulesDelete b) db = op_lifecycle_delete b db"
| "apply_op mode seq (EventEnqueue r) db = op_event_enqueue seq r db"
| "apply_op mode seq (EventMarkDead n) db = op_event_mark_dead n db"
| "apply_op mode seq (EventDelete n) db = op_event_delete n db"
| "apply_op mode seq (RestoreJobPut j) db = op_restore_job_put seq j db"
| "apply_op mode seq (RestoreJobDelete n) db = op_restore_job_delete n db"
| "apply_op mode seq (ObjectSetTags b k vk t) db = op_set_tags b k vk t db"
| "apply_op mode seq (ObjectSetRetention b k vk r) db = op_set_retention b k vk r db"
| "apply_op mode seq (ObjectSetLegalHold b k vk h) db = op_set_legal_hold b k vk h db"
| "apply_op mode seq (ObjectPut b k m) db = op_object_put b k m db"
| "apply_op mode seq (ObjectMigrate b k vk old new) db = op_object_migrate mode b k vk old new db"
| "apply_op mode seq (ObjectDelete b k) db = op_object_delete b k db"
| "apply_op mode seq (ObjectDeleteCurrent b k vk m) db = op_object_delete_current b k vk m db"
| "apply_op mode seq (ObjectDeleteVersion b k vk) db = op_object_delete_version b k vk db"
| "apply_op mode seq (ObjectPutVersion b k vk m) db = op_object_put_version b k vk m db"
| "apply_op mode seq (ObjectMetaRewrite raw m) db = op_meta_rewrite raw m db"
| "apply_op mode seq (Alloc d) db = op_alloc mode seq d db"
| "apply_op mode seq (Stats b d) db = op_stats b d db"
| "apply_op mode seq (SseKekSeedPut s) db = op_kek_seed_put s db"
| "apply_op mode seq (SseKekGenPut s) db = op_kek_gen_put s db"
| "apply_op mode seq (ConfigOp p) db = apply_config p db"
| "apply_op mode seq (MultipartOp p) db = apply_multipart (is_replay mode) p db"
| "apply_op mode seq (IamOp p) db = apply_iam p db"

primrec apply_each :: "apply_mode \<Rightarrow> u64 \<Rightarrow> meta_op list \<Rightarrow> db \<Rightarrow> db result" where
  "apply_each mode seq [] db = Inr db"
| "apply_each mode seq (p # ps) db = bind_res (apply_op mode seq p db) (apply_each mode seq ps)"

fun op_seqs :: "apply_mode \<Rightarrow> u64 \<Rightarrow> u64 \<times> u64" where
  "op_seqs (Commit _ _) cur = (cur + 1, cur + 1)"
| "op_seqs (Replay g r) cur =
     (let raw = (case rr_raw_seq r of Some s \<Rightarrow> s | None \<Rightarrow> of_nat (g_seq g)) in (raw, max cur raw))"

fun write_binlog :: "apply_mode \<Rightarrow> u64 \<Rightarrow> meta_op list \<Rightarrow> db \<Rightarrow> db result" where
  "write_binlog (Commit False now) seq ops db = Inr db"
| "write_binlog (Commit True now) seq ops db =
     bind_res (read_u64 db SYS_REPL_EPOCH REPL_INITIAL_EPOCH) (\<lambda>epoch.
     bind_res (read_u64 db SYS_REPL_EBASE 0) (\<lambda>ebase.
       if seq < ebase then Inl Corrupt
       else Inr (kv_put (binlog_key epoch (seq - ebase))
              (VRepl \<lparr>rr_epoch = epoch, rr_ops = ops, rr_ts = Some now, rr_epoch_barrier = None,
                      rr_raw_seq = Some seq\<rparr>) db)))"
| "write_binlog (Replay g r) seq ops db =
     Inr (kv_put (binlog_key (of_nat (g_epoch g)) (of_nat (g_seq g))) (VRepl r) db)"

definition apply_ops :: "db \<Rightarrow> meta_op list \<Rightarrow> apply_mode \<Rightarrow> (db \<times> u64) result" where
  "apply_ops db ops mode =
     bind_res (read_u64 db SYS_SEQ 0) (\<lambda>cur.
       let (op_seq, new_seq) = op_seqs mode cur
       in bind_res (apply_each mode op_seq ops db) (\<lambda>db1.
          bind_res (write_binlog mode op_seq ops db1) (\<lambda>db2.
            Inr (put_u64 SYS_SEQ new_seq db2, new_seq))))"

definition last_seq :: "db \<Rightarrow> u64 result" where
  "last_seq db = read_u64 db SYS_SEQ 0"

text \<open>The bounded event queue: the oldest entries go when the slack above the limit is used up.\<close>

definition event_count :: "db \<Rightarrow> nat" where
  "event_count db = length (scan_prefix db PREFIX_EVENT)"

definition truncate_events :: "nat \<Rightarrow> db \<Rightarrow> db \<times> nat" where
  "truncate_events mx0 db =
     (let mx = max mx0 1; slack = max 1 (min (mx div 10) 4096); count = event_count db
      in if count \<le> mx + slack then (db, 0)
         else (let ks = take (count - mx) (map fst (scan_prefix db PREFIX_EVENT))
               in (fold kv_del ks db, length ks)))"

fun is_event_enqueue :: "meta_op \<Rightarrow> bool" where
  "is_event_enqueue (EventEnqueue _) = True"
| "is_event_enqueue _ = False"

text \<open>
  A commit outside contention: the optimistic transaction succeeds at its first attempt. The first
  component of the result is the store afterwards, unchanged on an error.
\<close>

definition commit :: "bool \<Rightarrow> int \<Rightarrow> nat \<Rightarrow> meta_op list \<Rightarrow> db \<Rightarrow> db \<times> u64 result" where
  "commit binlog now event_queue_max ops db =
     (case apply_ops db ops (Commit binlog now) of
        Inl e \<Rightarrow> (db, Inl e)
      | Inr (db', seq) \<Rightarrow>
          (if list_ex is_event_enqueue ops then fst (truncate_events event_queue_max db') else db', Inr seq))"

fun list_alloc_loop :: "u64 \<Rightarrow> db \<Rightarrow> alloc_record list result" where
  "list_alloc_loop after [] = Inr []"
| "list_alloc_loop after ((k, v) # items) =
     bind_res (parse_alloc_seq k) (\<lambda>seq.
       if after < seq
       then (case v of VAlloc r \<Rightarrow> bind_res (list_alloc_loop after items) (\<lambda>out. Inr (r # out)) | _ \<Rightarrow> Inl Corrupt)
       else list_alloc_loop after items)"

definition list_alloc_records :: "db \<Rightarrow> u64 \<Rightarrow> alloc_record list result" where
  "list_alloc_records db after = list_alloc_loop after (scan_prefix db PREFIX_ALLOC)"

fun truncate_alloc_loop :: "u64 \<Rightarrow> db \<Rightarrow> db \<Rightarrow> nat \<Rightarrow> (db \<times> nat) result" where
  "truncate_alloc_loop through [] db n = Inr (db, n)"
| "truncate_alloc_loop through ((k, v) # items) db n =
     bind_res (parse_alloc_seq k) (\<lambda>seq.
       if seq \<le> through
       then truncate_alloc_loop through items (kv_del (txn_key seq) (kv_del (alloc_key seq) db)) (n + 1)
       else truncate_alloc_loop through items db n)"

definition truncate_alloc_records :: "u64 \<Rightarrow> db \<Rightarrow> (db \<times> nat) result" where
  "truncate_alloc_records through db = truncate_alloc_loop through (scan_prefix db PREFIX_ALLOC) db 0"

section \<open>Frame\<close>

text \<open>The key prefixes an operation may write under.\<close>

fun op_families :: "meta_op \<Rightarrow> bytes list" where
  "op_families (BucketPut _ _ _) = [PREFIX_BUCKET, PREFIX_BUCKET_LOC]"
| "op_families (BucketDelete _) = [PREFIX_BUCKET, PREFIX_BUCKET_LOC, PREFIX_BUCKET_CORS, PREFIX_BUCKET_TAGGING,
     PREFIX_BUCKET_OWNERSHIP, PREFIX_BUCKET_BPA, PREFIX_BUCKET_POLICY, PREFIX_LIFECYCLE_RULE,
     PREFIX_NOTIFICATION, PREFIX_INVENTORY]"
| "op_families (BucketSetVersioning _ _) = [PREFIX_BUCKET]"
| "op_families (BucketSetEncryption _ _) = [PREFIX_BUCKET]"
| "op_families (BucketSetEncryptionKms _ _ _) = [PREFIX_BUCKET]"
| "op_families (BucketSetObjectLock _ _) = [PREFIX_BUCKET]"
| "op_families (BucketConfPut _ _ _) = [PREFIX_BUCKET_CORS, PREFIX_BUCKET_TAGGING, PREFIX_BUCKET_OWNERSHIP,
     PREFIX_BUCKET_BPA, PREFIX_BUCKET_POLICY]"
| "op_families (BucketConfDelete _ _) = [PREFIX_BUCKET_CORS, PREFIX_BUCKET_TAGGING, PREFIX_BUCKET_OWNERSHIP,
     PREFIX_BUCKET_BPA, PREFIX_BUCKET_POLICY]"
| "op_families (LifecycleRulesReplace _ _) = [PREFIX_LIFECYCLE_RULE]"
| "op_families (LifecycleRulesDelete _) = [PREFIX_LIFECYCLE_RULE]"
| "op_families (EventEnqueue _) = [PREFIX_EVENT]"
| "op_families (EventMarkDead _) = [PREFIX_EVENT]"
| "op_families (EventDelete _) = [PREFIX_EVENT]"
| "op_families (RestoreJobPut _) = [PREFIX_RESTORE_JOB]"
| "op_families (RestoreJobDelete _) = [PREFIX_RESTORE_JOB]"
| "op_families (ObjectMetaRewrite raw _) = [raw]"
| "op_families (Alloc _) = [PREFIX_ALLOC, PREFIX_TXN]"
| "op_families (Stats _ _) = [PREFIX_BUCKET]"
| "op_families (SseKekSeedPut _) = [SYS_SSE_KEK_SEED]"
| "op_families (SseKekGenPut _) = [SYS_SSE_KEK_GEN]"
| "op_families (ConfigOp p) = config_families p"
| "op_families (MultipartOp p) = multipart_families p"
| "op_families (IamOp p) = iam_families p"
| "op_families _ = [PREFIX_OBJECT]"

lemma conf_key_prefix: "\<exists>p \<in> set [PREFIX_BUCKET_CORS, PREFIX_BUCKET_TAGGING, PREFIX_BUCKET_OWNERSHIP,
     PREFIX_BUCKET_BPA, PREFIX_BUCKET_POLICY]. prefix p (conf_key c b)"
  by (cases c) (auto simp: bucket_conf_key_def)

lemma outside_conf: "outside [PREFIX_BUCKET_CORS, PREFIX_BUCKET_TAGGING, PREFIX_BUCKET_OWNERSHIP,
     PREFIX_BUCKET_BPA, PREFIX_BUCKET_POLICY] k \<Longrightarrow> k \<noteq> conf_key c b"
  using conf_key_prefix [of c b] by (auto simp: outside_def)

lemmas key_prefix_defs = bucket_key_def bucket_location_key_def object_key_def object_version_key_def
  entry_key_def alloc_key_def txn_key_def event_key_def restore_job_key_def lifecycle_rule_key_def
  lifecycle_rules_prefix_def notification_rules_prefix_def inventory_configs_prefix_def binlog_key_def

lemma key_prefixes [simp]:
  "prefix PREFIX_BUCKET (bucket_key b)" "prefix PREFIX_BUCKET_LOC (bucket_location_key b)"
  "prefix PREFIX_OBJECT (object_key b k)" "prefix PREFIX_OBJECT (object_version_key b k vk)"
  "prefix PREFIX_OBJECT (entry_key b k v)" "prefix PREFIX_ALLOC (alloc_key n)" "prefix PREFIX_TXN (txn_key n)"
  "prefix PREFIX_EVENT (event_key n)" "prefix PREFIX_RESTORE_JOB (restore_job_key n)"
  "prefix PREFIX_LIFECYCLE_RULE (lifecycle_rule_key b i)"
  "prefix PREFIX_LIFECYCLE_RULE (lifecycle_rules_prefix b)"
  "prefix PREFIX_NOTIFICATION (notification_rules_prefix b)"
  "prefix PREFIX_INVENTORY (inventory_configs_prefix b)" "prefix PREFIX_BINLOG (binlog_key e n)"
  by (simp_all add: key_prefix_defs split: option.split)

lemma update_bucket_frame:
  assumes "update_bucket b f db = Inr db'" "kv_wf db"
  shows "kv_wf db' \<and> (\<forall>k. \<not> prefix PREFIX_BUCKET k \<longrightarrow> kv_get db' k = kv_get db k)"
  using assms by (auto simp: update_bucket_def bind_res_eq_Inr intro!: kv_wf_intros kv_put_frame dest: prefix_neq)

lemma update_object_frame:
  assumes "update_object b k' vk f db = Inr db'" "kv_wf db"
  shows "kv_wf db' \<and> (\<forall>k. k \<noteq> entry_key b k' vk \<longrightarrow> kv_get db' k = kv_get db k)"
  using assms by (auto simp: update_object_def bind_res_eq_Inr intro!: kv_wf_intros kv_put_frame)

lemma update_outside:
  "update_object b k' vk f db = Inr db' \<Longrightarrow> kv_wf db \<Longrightarrow> \<not> prefix PREFIX_OBJECT k \<Longrightarrow> kv_get db' k = kv_get db k"
  "update_bucket b g db = Inr db' \<Longrightarrow> kv_wf db \<Longrightarrow> \<not> prefix PREFIX_BUCKET k \<Longrightarrow> kv_get db' k = kv_get db k"
proof -
  assume "update_object b k' vk f db = Inr db'" "kv_wf db" and p: "\<not> prefix PREFIX_OBJECT k"
  moreover from p have "k \<noteq> entry_key b k' vk" by auto
  ultimately show "kv_get db' k = kv_get db k" using update_object_frame by blast
next
  assume "update_bucket b g db = Inr db'" "kv_wf db" "\<not> prefix PREFIX_BUCKET k"
  then show "kv_get db' k = kv_get db k" using update_bucket_frame by blast
qed

lemmas op_defs = op_bucket_put_def op_bucket_delete_def op_bucket_set_versioning_def op_bucket_set_encryption_def
  op_bucket_set_encryption_kms_def op_bucket_set_object_lock_def op_conf_put_def op_conf_delete_def
  op_lifecycle_replace_def op_lifecycle_delete_def op_event_enqueue_def op_event_mark_dead_def op_event_delete_def
  op_restore_job_put_def op_restore_job_delete_def op_set_tags_def op_set_retention_def op_set_legal_hold_def
  op_object_put_def op_object_migrate_def op_object_delete_def op_object_delete_current_def
  op_object_delete_version_def op_object_put_version_def op_meta_rewrite_def op_alloc_def op_stats_def
  op_kek_seed_put_def op_kek_gen_put_def put_u64_def

lemma op_wf:
  assumes "apply_op mode seq p db = Inr db'" "kv_wf db"
  shows "kv_wf db'"
proof (cases p)
  case (BucketDelete b)
  with assms show ?thesis by (auto simp: op_bucket_delete_def bind_res_eq_Inr Let_def intro!: kv_wf_intros)
next
  case (ObjectMigrate b k vk old new)
  with assms show ?thesis
    by (auto simp: op_object_migrate_def bind_res_eq_Inr Let_def case_prod_beta intro!: kv_wf_intros split: if_splits)
next
  case (ConfigOp q)
  with assms(1) have "apply_config q db = Inr db'" by simp
  from keepsD(1) [OF config_keeps [OF this assms(2)]] show ?thesis .
next
  case (MultipartOp q)
  with assms(1) have "apply_multipart (is_replay mode) q db = Inr db'" by simp
  from keepsD(1) [OF multipart_keeps [OF this assms(2)]] show ?thesis .
next
  case (IamOp q)
  with assms(1) have "apply_iam q db = Inr db'" by simp
  from keepsD(1) [OF iam_keeps [OF this assms(2)]] show ?thesis .
qed (use assms update_bucket_frame update_object_frame in
  \<open>auto simp: op_defs bind_res_eq_Inr Let_def intro!: kv_wf_intros split: if_splits option.splits\<close>)


lemma bucket_delete_frame:
  assumes "op_bucket_delete b db = Inr db'" "kv_wf db" "outside (op_families (BucketDelete b)) k"
  shows "kv_get db' k = kv_get db k"
proof -
  have c: "k \<notin> (\<lambda>c. conf_key c b) ` set all_confs"
    using assms(3) outside_conf [of k _ b] by (auto simp: outside_Cons)
  have p: "\<not> prefix (lifecycle_rules_prefix b) k" "\<not> prefix (notification_rules_prefix b) k"
    "\<not> prefix (inventory_configs_prefix b) k" "k \<noteq> bucket_key b" "k \<noteq> bucket_location_key b"
    using assms(3) prefix_of_prefix [of PREFIX_LIFECYCLE_RULE "lifecycle_rules_prefix b" k]
      prefix_of_prefix [of PREFIX_NOTIFICATION "notification_rules_prefix b" k]
      prefix_of_prefix [of PREFIX_INVENTORY "inventory_configs_prefix b" k]
    by (auto simp: outside_Cons)
  show ?thesis
    using assms(1,2) c p
    by (auto simp: op_bucket_delete_def bind_res_eq_Inr Let_def clear_prefix_get kv_wf_intros fold_del_get kv_get_del)
qed

lemma op_frame:
  assumes "apply_op mode seq p db = Inr db'" "kv_wf db" "outside (op_families p) k"
  shows "kv_get db' k = kv_get db k"
proof (cases p)
  case (BucketDelete b)
  with assms bucket_delete_frame show ?thesis by auto
next
  case (ConfigOp q)
  with assms(1) have "apply_config q db = Inr db'" by simp
  from keepsD(2) [OF config_keeps [OF this assms(2)]] show ?thesis using ConfigOp assms(3) by simp
next
  case (MultipartOp q)
  with assms(1) have "apply_multipart (is_replay mode) q db = Inr db'" by simp
  from keepsD(2) [OF multipart_keeps [OF this assms(2)]] show ?thesis using MultipartOp assms(3) by simp
next
  case (IamOp q)
  with assms(1) have "apply_iam q db = Inr db'" by simp
  from keepsD(2) [OF iam_keeps [OF this assms(2)]] show ?thesis using IamOp assms(3) by simp
next
  case (ObjectMigrate b k' vk old new)
  with assms have "k \<noteq> entry_key b k' vk" by (auto simp: outside_Cons)
  with ObjectMigrate assms show ?thesis
    by (auto simp: op_object_migrate_def bind_res_eq_Inr Let_def case_prod_beta intro!: kv_put_frame split: if_splits)
next
  case (LifecycleRulesReplace b rs)
  with assms have "k \<notin> (\<lambda>r. lifecycle_rule_key b (lr_id r)) ` set rs" "\<not> prefix (lifecycle_rules_prefix b) k"
    using prefix_of_prefix [of PREFIX_LIFECYCLE_RULE "lifecycle_rules_prefix b" k] by (auto simp: outside_Cons)
  with LifecycleRulesReplace assms show ?thesis
    by (auto simp: op_lifecycle_replace_def bind_res_eq_Inr fold_put_frame kv_wf_intros clear_prefix_get)
next
  case (LifecycleRulesDelete b)
  with assms have "\<not> prefix (lifecycle_rules_prefix b) k"
    using prefix_of_prefix [of PREFIX_LIFECYCLE_RULE "lifecycle_rules_prefix b" k] by (auto simp: outside_Cons)
  with LifecycleRulesDelete assms show ?thesis
    by (auto simp: op_lifecycle_delete_def bind_res_eq_Inr clear_prefix_get)
next
  case (Alloc d)
  with assms have "k \<noteq> alloc_key seq" "k \<noteq> txn_key seq" by (auto simp: outside_Cons)
  with Alloc assms show ?thesis
    by (auto simp: op_alloc_def put_u64_def Let_def store.get_put store.wf_put split: if_splits)
next
  case (BucketConfPut b c v)
  with assms show ?thesis
    using outside_conf [of k c b] by (auto simp: op_conf_put_def bind_res_eq_Inr outside_Cons intro!: kv_put_frame)
next
  case (BucketConfDelete b c)
  with assms show ?thesis
    using outside_conf [of k c b] by (auto simp: op_conf_delete_def bind_res_eq_Inr outside_Cons intro!: kv_del_frame)
qed (use assms in
  \<open>auto simp: op_defs bind_res_eq_Inr Let_def outside_Cons kv_wf_intros store.get_put kv_get_del
     dest: update_outside split: if_splits option.splits\<close>)

lemma each_wf_frame:
  assumes "apply_each mode seq ps db = Inr db'" "kv_wf db"
  shows "kv_wf db' \<and> (\<forall>k. (\<forall>p \<in> set ps. outside (op_families p) k) \<longrightarrow> kv_get db' k = kv_get db k)"
  using assms
proof (induction ps arbitrary: db)
  case (Cons p ps)
  then obtain d where d: "apply_op mode seq p db = Inr d" "apply_each mode seq ps d = Inr db'"
    by (auto simp: bind_res_eq_Inr)
  have "kv_wf d" using op_wf d(1) Cons.prems(2) by blast
  with Cons.IH [OF d(2)] op_frame [OF d(1) Cons.prems(2)] show ?case by simp
qed simp

lemma binlog_wf_frame:
  assumes "write_binlog mode seq ops db = Inr db'" "kv_wf db"
  shows "kv_wf db' \<and> (\<forall>k. \<not> prefix PREFIX_BINLOG k \<longrightarrow> kv_get db' k = kv_get db k)"
  using assms
  by (cases "(mode, seq, ops, db)" rule: write_binlog.cases)
    (auto simp: bind_res_eq_Inr intro!: kv_wf_intros kv_put_frame dest: prefix_neq split: if_splits)

end
