(* ===== verification/Object_Lock.thy ===== *)
theory Object_Lock
  imports Object_Meta
begin

text \<open>
  Object Lock: the request headers and the retention decisions of the protocol layer
  (\<^verbatim>\<open>crates/fs3-s3/src/object_lock.rs\<close>), default retention (\<^verbatim>\<open>crates/fs3-core/src/types.rs\<close>) and the test that
  stops deletions (\<^verbatim>\<open>crates/fs3-engine/src/lifecycle.rs\<close>). The XML bodies are not modelled; parsing a
  date is a parameter.
\<close>

section \<open>Errors of the protocol layer\<close>

datatype s3_error_code = ScInvalidArgument | ScInvalidRequest | ScMalformedXML | ScAccessDenied

type_synonym headers = "(bytes \<times> bytes) list"

section \<open>Headers\<close>

definition HDR_MODE :: bytes where
  "HDR_MODE = lit ''x-amz-object-lock-mode''"

definition HDR_UNTIL :: bytes where
  "HDR_UNTIL = lit ''x-amz-object-lock-retain-until-date''"

definition HDR_HOLD :: bytes where
  "HDR_HOLD = lit ''x-amz-object-lock-legal-hold''"

definition HDR_BYPASS :: bytes where
  "HDR_BYPASS = lit ''x-amz-bypass-governance-retention''"

definition hdr :: "headers \<Rightarrow> bytes \<Rightarrow> bytes option" where
  "hdr hs name = map_option snd (find (\<lambda>(k, _). eq_ignore_case k name) hs)"

definition has_object_lock_headers :: "headers \<Rightarrow> bool" where
  "has_object_lock_headers hs \<longleftrightarrow> list_ex (\<lambda>n. hdr hs n \<noteq> None) [HDR_MODE, HDR_UNTIL, HDR_HOLD, HDR_BYPASS]"

definition has_disallowed_object_lock_headers :: "headers \<Rightarrow> bool \<Rightarrow> bool \<Rightarrow> bool" where
  "has_disallowed_object_lock_headers hs allow_write allow_bypass \<longleftrightarrow>
     (if allow_write then False
      else if list_ex (\<lambda>n. hdr hs n \<noteq> None) [HDR_MODE, HDR_UNTIL, HDR_HOLD] then True
      else \<not> allow_bypass \<and> hdr hs HDR_BYPASS \<noteq> None)"

definition parse_retention_mode :: "bytes \<Rightarrow> s3_error_code + retention_mode" where
  "parse_retention_mode v =
     (if v = lit ''GOVERNANCE'' then Inr Governance
      else if v = lit ''COMPLIANCE'' then Inr Compliance
      else Inl ScInvalidArgument)"

definition parse_retention_mode_xml :: "bytes \<Rightarrow> s3_error_code + retention_mode" where
  "parse_retention_mode_xml v =
     (if v = lit ''GOVERNANCE'' then Inr Governance
      else if v = lit ''COMPLIANCE'' then Inr Compliance
      else Inl ScMalformedXML)"

fun mode_name :: "retention_mode \<Rightarrow> bytes" where
  "mode_name Governance = lit ''GOVERNANCE''"
| "mode_name Compliance = lit ''COMPLIANCE''"

definition parse_legal_hold :: "bytes \<Rightarrow> s3_error_code + bool" where
  "parse_legal_hold v =
     (if eq_ignore_case v (lit ''ON'') then Inr True
      else if eq_ignore_case v (lit ''OFF'') then Inr False
      else Inl ScInvalidArgument)"

definition require_bucket_lock :: "bool \<Rightarrow> s3_error_code + unit" where
  "require_bucket_lock enabled = (if enabled then Inr () else Inl ScInvalidRequest)"

definition parse_write_headers ::
  "(bytes \<Rightarrow> int option) \<Rightarrow> headers \<Rightarrow> s3_error_code + (retention option \<times> bool option)" where
  "parse_write_headers parse_iso8601 hs =
     bind_res
       (case (hdr hs HDR_MODE, hdr hs HDR_UNTIL) of
          (None, None) \<Rightarrow> Inr None
        | (Some m, Some u) \<Rightarrow>
            bind_res (ok_or ScInvalidArgument (parse_iso8601 u)) (\<lambda>ts.
            bind_res (parse_retention_mode m) (\<lambda>md. Inr (Some \<lparr>ret_mode = md, retain_until = ts\<rparr>)))
        | _ \<Rightarrow> Inl ScInvalidArgument)
       (\<lambda>ret.
         case hdr hs HDR_HOLD of
           None \<Rightarrow> Inr (ret, None)
         | Some h \<Rightarrow> bind_res (parse_legal_hold h) (\<lambda>b. Inr (ret, Some b)))"

section \<open>Retention of a write\<close>

definition default_until :: "default_retention \<Rightarrow> int \<Rightarrow> int" where
  "default_until d from_unix =
     (let days = (case dr_unit d of Days \<Rightarrow> dr_n d | Years \<Rightarrow> dr_n d * 365)
      in sat_add_i64 from_unix (i64_clamp (days * 86400)))"

record object_lock_write =
  olw_retention :: "retention option"
  olw_legal_hold :: bool

definition from_explicit_or_default ::
  "retention option \<Rightarrow> bool \<Rightarrow> default_retention option \<Rightarrow> int \<Rightarrow> object_lock_write" where
  "from_explicit_or_default explicit hold dflt now =
     \<lparr>olw_retention = (case explicit of
          Some r \<Rightarrow> Some r
        | None \<Rightarrow> map_option (\<lambda>d. \<lparr>ret_mode = dr_mode d, retain_until = default_until d now\<rparr>) dflt),
      olw_legal_hold = hold\<rparr>"

definition resolve_write ::
  "(bytes \<Rightarrow> int option) \<Rightarrow> headers \<Rightarrow> bool \<Rightarrow> default_retention option \<Rightarrow> int \<Rightarrow> s3_error_code + object_lock_write" where
  "resolve_write parse_iso8601 hs bucket_lock dflt now =
     bind_res (parse_write_headers parse_iso8601 hs) (\<lambda>(explicit, hold).
     bind_res (if explicit \<noteq> None \<or> hold \<noteq> None then require_bucket_lock bucket_lock else Inr ()) (\<lambda>_.
       if \<not> bucket_lock then Inr \<lparr>olw_retention = None, olw_legal_hold = False\<rparr>
       else Inr (from_explicit_or_default explicit (case hold of Some h \<Rightarrow> h | None \<Rightarrow> False) dflt now)))"

definition bypass_governance :: "headers \<Rightarrow> bool" where
  "bypass_governance hs \<longleftrightarrow> (case hdr hs HDR_BYPASS of Some v \<Rightarrow> eq_ignore_case v (lit ''true'') | None \<Rightarrow> False)"

definition remaining_retention_days :: "int \<Rightarrow> int \<Rightarrow> int" where
  "remaining_retention_days until now = (if until \<le> now then 0 else (until - now + 86399) div 86400)"

definition response_headers :: "(int \<Rightarrow> bytes) \<Rightarrow> object_meta \<Rightarrow> headers" where
  "response_headers ts_to_rfc3339 m =
     (case om_retention m of
        Some r \<Rightarrow> [(HDR_MODE, mode_name (ret_mode r)), (HDR_UNTIL, ts_to_rfc3339 (retain_until r))]
      | None \<Rightarrow> []) @
     (if om_legal_hold m then [(HDR_HOLD, lit ''ON'')] else [])"

section \<open>Changing and enforcing retention\<close>

definition check_retention_change ::
  "retention option \<Rightarrow> retention \<Rightarrow> int \<Rightarrow> bool \<Rightarrow> s3_error_code + unit" where
  "check_retention_change existing new now bypass =
     (case existing of
        None \<Rightarrow> Inr ()
      | Some cur \<Rightarrow>
          if retention_expired (retain_until cur) now now then Inr ()
          else (case ret_mode cur of
              Compliance \<Rightarrow>
                if ret_mode new \<noteq> Compliance \<or> retain_until new < retain_until cur then Inl ScAccessDenied else Inr ()
            | Governance \<Rightarrow>
                if (retain_until new < retain_until cur \<or> ret_mode new \<noteq> Governance) \<and> \<not> bypass
                then Inl ScAccessDenied else Inr ()))"

text \<open>The answer is why the deletion is refused, or nothing.\<close>

datatype lock_reason = LegalHold | ComplianceLock | GovernanceLock

definition lock_blocks_delete :: "object_meta \<Rightarrow> int \<Rightarrow> bool \<Rightarrow> lock_reason option" where
  "lock_blocks_delete m now bypass =
     (if om_is_delete_marker m then None
      else if om_legal_hold m then Some LegalHold
      else (case om_retention m of
          None \<Rightarrow> None
        | Some r \<Rightarrow>
            if retain_until r \<le> now then None
            else (case ret_mode r of
                Compliance \<Rightarrow> Some ComplianceLock
              | Governance \<Rightarrow> if bypass then None else Some GovernanceLock)))"

definition is_locked :: "object_meta \<Rightarrow> int \<Rightarrow> bool" where
  "is_locked m now \<longleftrightarrow> lock_blocks_delete m now False \<noteq> None"

definition deny_if_locked :: "object_meta \<Rightarrow> int \<Rightarrow> bool \<Rightarrow> bool \<Rightarrow> unit result" where
  "deny_if_locked m now bypass skip_lock =
     (if skip_lock then Inr ()
      else (case lock_blocks_delete m now bypass of Some _ \<Rightarrow> Inl AccessDenied | None \<Rightarrow> Inr ()))"

text \<open>\<^verbatim>\<open>locked_referenced_extents\<close> and \<^verbatim>\<open>restore_referenced_extents\<close> over the snapshot of all objects.\<close>

definition restored_ids :: "object_meta \<Rightarrow> nat list" where
  "restored_ids m = (case om_restore_state m of Some st \<Rightarrow> map seg_ext (restored_extents st) | None \<Rightarrow> [])"

definition locked_referenced_extents :: "object_meta list \<Rightarrow> int \<Rightarrow> nat set" where
  "locked_referenced_extents metas now =
     set (concat (map (\<lambda>m. if is_locked m now then map seg_ext (om_extents m) @ restored_ids m else []) metas))"

definition restore_referenced_extents :: "object_meta list \<Rightarrow> nat set" where
  "restore_referenced_extents metas = set (concat (map restored_ids metas))"

section \<open>Properties\<close>

lemma lock_blocks_delete_iff:
  "lock_blocks_delete m now bypass \<noteq> None \<longleftrightarrow> \<not> om_is_delete_marker m \<and>
     (om_legal_hold m \<or> (\<exists>r. om_retention m = Some r \<and> now < retain_until r \<and> (ret_mode r = Compliance \<or> \<not> bypass)))"
  by (auto simp: lock_blocks_delete_def split: option.splits retention_mode.splits)

text \<open>
  What protects a version from deletion: a legal hold always, an unexpired COMPLIANCE retention
  always, an unexpired GOVERNANCE retention unless the request bypasses it; a delete marker never is
  protected. Bypassing never gains more than the plain request loses, and time only unlocks.
\<close>

theorem lock_blocks_delete_exact:
  "(deny_if_locked m now bypass False = Inl AccessDenied \<longleftrightarrow> \<not> om_is_delete_marker m \<and>
      (om_legal_hold m \<or> (\<exists>r. om_retention m = Some r \<and> now < retain_until r \<and> (ret_mode r = Compliance \<or> \<not> bypass)))) \<and>
   (lock_blocks_delete m now True \<noteq> None \<longrightarrow> lock_blocks_delete m now False \<noteq> None) \<and>
   (now \<le> later \<and> lock_blocks_delete m later bypass \<noteq> None \<longrightarrow> lock_blocks_delete m now bypass \<noteq> None)"
proof -
  have "deny_if_locked m now bypass False = Inl AccessDenied \<longleftrightarrow> lock_blocks_delete m now bypass \<noteq> None"
    by (simp add: deny_if_locked_def split: option.split)
  then show ?thesis unfolding lock_blocks_delete_iff by auto
qed

text \<open>A sequence of retention requests: refused ones change nothing.\<close>

fun retention_requests :: "retention option \<Rightarrow> (retention \<times> int \<times> bool) list \<Rightarrow> retention option" where
  "retention_requests cur [] = cur"
| "retention_requests cur ((new, now, bypass) # rest) =
     (if check_retention_change cur new now bypass = Inr () then retention_requests (Some new) rest
      else retention_requests cur rest)"

lemma compliance_change:
  assumes "check_retention_change (Some cur) new now bypass = Inr ()" "ret_mode cur = Compliance" "now < retain_until cur"
  shows "ret_mode new = Compliance \<and> retain_until cur \<le> retain_until new"
  using assms by (auto simp: check_retention_change_def retention_expired_def split: if_splits)

text \<open>
  C24. The retention dates of a version under COMPLIANCE only grow: whatever requests with whatever bypass
  flags are made before the date, every accepted change keeps the mode and does not shorten the date.
\<close>

theorem compliance_only_extends:
  assumes "ret_mode cur = Compliance" "\<forall>(new, now, bypass) \<in> set reqs. now < retain_until cur"
  shows "\<exists>r. retention_requests (Some cur) reqs = Some r \<and> ret_mode r = Compliance \<and> retain_until cur \<le> retain_until r"
  using assms
proof (induction reqs arbitrary: cur)
  case (Cons q reqs)
  obtain new now bypass where q: "q = (new, now, bypass)" by (cases q)
  show ?case
  proof (cases "check_retention_change (Some cur) new now bypass = Inr ()")
    case True
    from compliance_change [OF this Cons.prems(1)] Cons.prems(2)
    have n: "ret_mode new = Compliance" "retain_until cur \<le> retain_until new" by (simp_all add: q)
    then have "\<forall>(w, now, b) \<in> set reqs. now < retain_until new" using Cons.prems(2) by fastforce
    from Cons.IH [OF n(1) this] n(2) True show ?thesis by (auto simp: q)
  next
    case False
    with Cons show ?thesis by (simp add: q)
  qed
qed simp

text \<open>
  Resolution of a write: an explicit retention wins over the bucket default; a bucket without Object
  Lock refuses lock headers and stores none; a locked bucket with a default gives every object a
  retention, counted from now.
\<close>

theorem resolve_write_spec:
  assumes "parse_write_headers isod hs = Inr (explicit, hold)"
  shows "resolve_write isod hs lock dflt now =
    (if \<not> lock then (if explicit = None \<and> hold = None then Inr \<lparr>olw_retention = None, olw_legal_hold = False\<rparr>
                     else Inl ScInvalidRequest)
     else Inr \<lparr>olw_retention = (case explicit of Some r \<Rightarrow> Some r | None \<Rightarrow>
                  (case dflt of Some d \<Rightarrow> Some \<lparr>ret_mode = dr_mode d, retain_until = default_until d now\<rparr> | None \<Rightarrow> None)),
               olw_legal_hold = (hold = Some True)\<rparr>)"
  using assms
  by (cases hold) (auto simp: resolve_write_def require_bucket_lock_def from_explicit_or_default_def split: option.splits)

text \<open>
  Remaining days round up: with \<open>d\<close> days left the date lies within \<open>d\<close> days and beyond \<open>d - 1\<close>.
\<close>

lemma remaining_days_bounds:
  "now < until \<Longrightarrow> remaining_retention_days until now * 86400 \<ge> until - now \<and>
     (remaining_retention_days until now - 1) * 86400 < until - now"
  by (simp add: remaining_retention_days_def) linarith

section \<open>Witnesses\<close>

theorem lock_blocks_delete_exact_witness:
  "deny_if_locked ((delete_marker_meta 0 None)\<lparr>om_is_delete_marker := False, om_legal_hold := True\<rparr>) 5 True False
     = Inl AccessDenied"
  using lock_blocks_delete_exact [of "(delete_marker_meta 0 None)\<lparr>om_is_delete_marker := False, om_legal_hold := True\<rparr>" 5 True]
  by (simp add: delete_marker_meta_def)

theorem compliance_only_extends_witness:
  "\<exists>r. retention_requests (Some \<lparr>ret_mode = Compliance, retain_until = 100\<rparr>)
      [(\<lparr>ret_mode = Governance, retain_until = 500\<rparr>, 10, True), (\<lparr>ret_mode = Compliance, retain_until = 200\<rparr>, 20, False)]
     = Some r \<and> ret_mode r = Compliance \<and> 100 \<le> retain_until r"
  using compliance_only_extends [of "\<lparr>ret_mode = Compliance, retain_until = 100\<rparr>"
    "[(\<lparr>ret_mode = Governance, retain_until = 500\<rparr>, 10, True), (\<lparr>ret_mode = Compliance, retain_until = 200\<rparr>, 20, False)]"]
  by simp

theorem resolve_write_spec_witness:
  "resolve_write (\<lambda>_. Some 5) [] True (Some \<lparr>dr_mode = Governance, dr_unit = Days, dr_n = 1\<rparr>) 10 =
     Inr \<lparr>olw_retention = Some \<lparr>ret_mode = Governance, retain_until = 86410\<rparr>, olw_legal_hold = False\<rparr>"
proof -
  have "parse_write_headers (\<lambda>_. Some 5) [] = Inr (None, None)" by (simp add: parse_write_headers_def hdr_def)
  from resolve_write_spec [OF this, of True "Some \<lparr>dr_mode = Governance, dr_unit = Days, dr_n = 1\<rparr>" 10]
  show ?thesis by (simp add: default_until_def sat_add_i64_def i64_clamp_def i64_min_def i64_max_def)
qed

end
