(* ===== verification/Versions.thy ===== *)
theory Versions
  imports Meta_Store Object_Lock
begin

text \<open>
  Object versions: reading the entries of a key and choosing its current version
  (\<^verbatim>\<open>crates/fs3-meta/src/lib.rs\<close>), and the metadata side of PUT and DELETE in the three versioning states
  (\<^verbatim>\<open>crates/fs3-engine/src/lib.rs\<close>): the write plan, the version id and modification time, the statistics,
  the event, and the transaction. What the allocator contributes (the allocation draft) is an
  argument, as are the clocks and the random bytes.
\<close>

section \<open>Reading\<close>

definition get_object :: "db \<Rightarrow> bytes \<Rightarrow> bytes \<Rightarrow> object_meta option result" where
  "get_object db b k =
     (case kv_get db (object_key b k) of
        Some v \<Rightarrow> bind_res (decode_object v) (\<lambda>m. Inr (Some m)) | None \<Rightarrow> Inr None)"

definition get_object_version :: "db \<Rightarrow> bytes \<Rightarrow> bytes \<Rightarrow> bytes \<Rightarrow> object_meta option result" where
  "get_object_version db b k vk =
     (case kv_get db (object_version_key b k vk) of
        Some v \<Rightarrow> bind_res (decode_object v) (\<lambda>m. Inr (Some m)) | None \<Rightarrow> Inr None)"

definition get_bucket :: "db \<Rightarrow> bytes \<Rightarrow> bucket_meta option result" where
  "get_bucket db b =
     (case kv_get db (bucket_key b) of
        Some v \<Rightarrow> bind_res (decode_bucket v) (\<lambda>m. Inr (Some m)) | None \<Rightarrow> Inr None)"

type_synonym version_tip = "object_meta option \<times> (bytes \<times> object_meta) option"

fun tip_loop :: "bytes \<Rightarrow> db \<Rightarrow> object_meta option \<Rightarrow> version_tip result" where
  "tip_loop p [] null_slot = Inr (null_slot, None)"
| "tip_loop p ((k, v) # it) null_slot =
     (if \<not> prefix p k then (if k < p then Inr (null_slot, None) else tip_loop p it null_slot)
      else bind_res (parse_object_version_key k) (\<lambda>(_, _, vk).
        case vk of
          None \<Rightarrow> Inl Corrupt
        | Some w \<Rightarrow>
            bind_res (decode_object v) (\<lambda>m.
              if w = VK_NULL then tip_loop p it (Some m) else Inr (null_slot, Some (w, m)))))"

definition version_scan_tip :: "db \<Rightarrow> bytes \<Rightarrow> bytes \<Rightarrow> version_tip result" where
  "version_scan_tip db b k =
     (let p = object_key_prefix b k; upper = butlast p @ [last p + 1]
      in tip_loop p (iter_rev_from upper db) None)"

fun list_versions_loop :: "db \<Rightarrow> (bytes \<times> object_meta) list result" where
  "list_versions_loop [] = Inr []"
| "list_versions_loop ((k, v) # it) =
     bind_res (parse_object_version_key k) (\<lambda>(_, _, vk).
     bind_res (ok_or Corrupt vk) (\<lambda>w.
     bind_res (decode_object v) (\<lambda>m.
     bind_res (list_versions_loop it) (\<lambda>out. Inr ((w, m) # out)))))"

definition list_key_versions :: "db \<Rightarrow> bytes \<Rightarrow> bytes \<Rightarrow> (bytes \<times> object_meta) list result" where
  "list_key_versions db b k = list_versions_loop (scan_prefix db (object_key_prefix b k))"

text \<open>The seconds of a version id.\<close>

definition vk_secs :: "bytes \<Rightarrow> int" where
  "vk_secs vk = uint (vk_time_us vk div 1000000)"

definition null_family :: "object_meta option \<Rightarrow> object_meta option \<Rightarrow> object_meta option" where
  "null_family legacy null_slot =
     (case (legacy, null_slot) of
        (Some l, Some n) \<Rightarrow> Some (if om_mtime n \<le> om_mtime l then l else n)
      | (Some l, None) \<Rightarrow> Some l
      | (None, n) \<Rightarrow> n)"

definition d1a_pick_current ::
  "object_meta option \<Rightarrow> object_meta option \<Rightarrow> (bytes \<times> object_meta) option \<Rightarrow> (bytes \<times> object_meta) option" where
  "d1a_pick_current legacy null_slot max_real =
     (case (null_family legacy null_slot, max_real) of
        (Some n, Some (rvk, r)) \<Rightarrow> if vk_secs rvk < om_mtime n then Some (VK_NULL, n) else Some (rvk, r)
      | (Some n, None) \<Rightarrow> Some (VK_NULL, n)
      | (None, r) \<Rightarrow> r)"

definition get_current_version :: "db \<Rightarrow> bytes \<Rightarrow> bytes \<Rightarrow> (bytes \<times> object_meta) option result" where
  "get_current_version db b k =
     bind_res (get_object db b k) (\<lambda>legacy.
     bind_res (version_scan_tip db b k) (\<lambda>(null_slot, max_real).
       Inr (d1a_pick_current legacy null_slot max_real)))"

definition get_current_version_for ::
  "db \<Rightarrow> bytes \<Rightarrow> bytes \<Rightarrow> versioning_state \<Rightarrow> (bytes \<times> object_meta) option result" where
  "get_current_version_for db b k v =
     (if v = Off then bind_res (get_object db b k) (\<lambda>m. Inr (map_option (Pair VK_NULL) m))
      else get_current_version db b k)"

definition resolve_object_entry ::
  "db \<Rightarrow> bytes \<Rightarrow> bytes \<Rightarrow> bytes option \<Rightarrow> versioning_state option \<Rightarrow> object_meta result" where
  "resolve_object_entry db b k version versioning =
     (case version of
        Some vk \<Rightarrow>
          if vk = VK_NULL
          then bind_res (get_object db b k) (\<lambda>l.
                 case l of Some m \<Rightarrow> Inr m
                 | None \<Rightarrow> bind_res (get_object_version db b k VK_NULL) (ok_or NotFound))
          else bind_res (get_object_version db b k vk) (ok_or NotFound)
      | None \<Rightarrow>
          bind_res (case versioning of Some v \<Rightarrow> get_current_version_for db b k v | None \<Rightarrow> get_current_version db b k)
            (\<lambda>cur. case cur of Some (_, m) \<Rightarrow> Inr m | None \<Rightarrow> Inl NotFound))"

definition resolve_object ::
  "db \<Rightarrow> bytes \<Rightarrow> bytes \<Rightarrow> bytes option \<Rightarrow> versioning_state option \<Rightarrow> object_meta result" where
  "resolve_object db b k version versioning =
     bind_res (resolve_object_entry db b k version versioning) (\<lambda>m.
       if om_is_delete_marker m then Inl DeleteMarker else Inr m)"

section \<open>The write plan\<close>

text \<open>What a request sees of the machine, and the settings of the store.\<close>

record write_env =
  e_now_ts :: int
  e_now_us :: u64
  e_rnd :: "bytes result"
  e_lock_now :: int
  e_binlog :: bool
  e_event_max :: nat

definition next_vk :: "write_env \<Rightarrow> db \<Rightarrow> bytes \<Rightarrow> bytes \<Rightarrow> bytes result" where
  "next_vk e db b k =
     bind_res (version_scan_tip db b k) (\<lambda>(null_slot, max_real).
     bind_res (get_object db b k) (\<lambda>legacy.
       let prev_ts = map_option (\<lambda>(vk, _). vk_time_us vk) max_real;
           null_family_mtime = (case (null_slot, legacy) of
               (Some n, Some l) \<Rightarrow> Some (max (om_mtime n) (om_mtime l))
             | (Some n, None) \<Rightarrow> Some (om_mtime n)
             | (None, l) \<Rightarrow> map_option om_mtime l);
           prev = (case null_family_mtime of
               Some s \<Rightarrow>
                 (let us = (of_int (min (2 ^ 64 - 1) (max s 0 * 1000000)) :: u64)
                  in Some (case prev_ts of None \<Rightarrow> us | Some p \<Rightarrow> max p us))
             | None \<Rightarrow> prev_ts)
       in new_version_vk (e_now_us e) (e_rnd e) prev))"

definition null_family_mtime :: "write_env \<Rightarrow> db \<Rightarrow> bytes \<Rightarrow> bytes \<Rightarrow> int result" where
  "null_family_mtime e db b k =
     bind_res (version_scan_tip db b k) (\<lambda>(_, max_real).
       case max_real of
         Some (vk, _) \<Rightarrow> Inr (max (e_now_ts e) (vk_secs vk + 1))
       | None \<Rightarrow> Inr (e_now_ts e))"

datatype write_target = Unversioned | NewVersion bytes | NullSlot | LegacySlot

fun target_version_key :: "write_target \<Rightarrow> bytes option" where
  "target_version_key Unversioned = None"
| "target_version_key LegacySlot = None"
| "target_version_key (NewVersion vk) = Some vk"
| "target_version_key NullSlot = Some VK_NULL"

fun meta_version_id :: "write_target \<Rightarrow> bytes option" where
  "meta_version_id (NewVersion vk) = Some vk"
| "meta_version_id _ = None"

record old_version =
  ov_existed :: bool
  ov_counted :: bool
  ov_segments :: "segment list"
  ov_size :: int
  ov_class :: "bytes option"
  ov_restored_segments :: "segment list"

definition old_default :: old_version where
  "old_default = \<lparr>ov_existed = False, ov_counted = False, ov_segments = [], ov_size = 0, ov_class = None,
     ov_restored_segments = []\<rparr>"

definition old_view :: "object_meta option \<Rightarrow> old_version" where
  "old_view old =
     (case old of
        None \<Rightarrow> old_default
      | Some m \<Rightarrow>
          \<lparr>ov_existed = True, ov_counted = (\<not> om_is_delete_marker m), ov_segments = om_extents m,
           ov_size = sint (om_size m),
           ov_class = (if om_is_delete_marker m then None else om_storage_class m),
           ov_restored_segments = (case om_restore_state m of Some st \<Rightarrow> restored_extents st | None \<Rightarrow> [])\<rparr>)"

definition plan_object_write ::
  "write_env \<Rightarrow> db \<Rightarrow> bytes \<Rightarrow> bytes \<Rightarrow> versioning_state \<Rightarrow> (write_target \<times> old_version) result" where
  "plan_object_write e db b k v =
     (case v of
        Off \<Rightarrow> bind_res (get_object db b k) (\<lambda>old. Inr (Unversioned, old_view old))
      | Enabled \<Rightarrow> bind_res (next_vk e db b k) (\<lambda>vk. Inr (NewVersion vk, old_default))
      | Suspended \<Rightarrow>
          bind_res (get_object db b k) (\<lambda>l.
            case l of
              Some legacy \<Rightarrow> Inr (LegacySlot, old_view (Some legacy))
            | None \<Rightarrow> bind_res (get_object_version db b k VK_NULL) (\<lambda>old. Inr (NullSlot, old_view old))))"

definition write_mtime :: "write_env \<Rightarrow> write_target \<Rightarrow> db \<Rightarrow> bytes \<Rightarrow> bytes \<Rightarrow> int result" where
  "write_mtime e t db b k =
     (if t = NullSlot \<or> t = LegacySlot then null_family_mtime e db b k else Inr (e_now_ts e))"

definition class_stats_delta :: "old_version \<Rightarrow> bytes \<Rightarrow> u64 \<Rightarrow> (bytes \<times> int \<times> int) list" where
  "class_stats_delta old new_class sz =
     (if ov_counted old
      then [((case ov_class old of Some c \<Rightarrow> c | None \<Rightarrow> lit ''STANDARD''), - 1, - ov_size old),
            (new_class, 1, sint sz)]
      else [(new_class, 1, sint sz)])"

definition check_quota :: "db \<Rightarrow> bytes \<Rightarrow> int \<Rightarrow> unit result" where
  "check_quota db b delta =
     bind_res (get_bucket db b) (\<lambda>bm.
       case bm of
         None \<Rightarrow> Inl NotFound
       | Some m \<Rightarrow>
           (case bk_quota m of
              None \<Rightarrow> Inr ()
            | Some quota \<Rightarrow> if uint quota < uint (bs_bytes (bk_stats m)) + delta then Inl QuotaExceeded else Inr ()))"

section \<open>Events\<close>

datatype event_kind = ObjectCreated bytes | ObjectRemoved | LifecycleExpired | RestoreEvent bytes

record event_draft =
  ed_bucket :: bytes
  ed_key :: bytes
  ed_kind :: event_kind

definition hex_digit :: "nat \<Rightarrow> u8" where
  "hex_digit n = of_nat (if n < 10 then 48 + n else 87 + n)"

definition hex_encode :: "bytes \<Rightarrow> bytes" where
  "hex_encode bs = concat (map (\<lambda>c. [hex_digit (unat c div 16), hex_digit (unat c mod 16)]) bs)"

definition version_id_display :: "bytes option \<Rightarrow> bytes" where
  "version_id_display vk = (case vk of Some v \<Rightarrow> if v \<noteq> VK_NULL then hex_encode v else lit ''null'' | None \<Rightarrow> lit ''null'')"

definition sse_label :: "sse_info option \<Rightarrow> bytes option" where
  "sse_label s = (case s of None \<Rightarrow> None | Some i \<Rightarrow>
     (case sse_kind i of SseKms \<Rightarrow> Some (lit ''aws:kms'') | SseS3 \<Rightarrow> Some (lit ''AES256'') | SseC \<Rightarrow> Some (lit ''AES256'')))"

text \<open>The record of a PUT; the other kinds never reach this path.\<close>

definition put_event_record :: "write_env \<Rightarrow> event_draft option \<Rightarrow> object_meta \<Rightarrow> event_record option" where
  "put_event_record e ev m =
     map_option (\<lambda>d.
       \<lparr>ev_seq = 0, ev_ts = of_int (e_now_ts e), ev_bucket = ed_bucket d, ev_key = ed_key d,
        ev_event = (case ed_kind d of ObjectCreated name \<Rightarrow> name | _ \<Rightarrow> []),
        ev_etag = Some (hex_encode (om_etag m)), ev_size = Some (om_size m),
        ev_version_id = map_option (\<lambda>v. version_id_display (Some v)) (om_version_id m),
        ev_delete_marker = False, ev_dead = False, ev_sse = sse_label (om_sse m)\<rparr>) ev"

definition delete_event_name :: "event_kind \<Rightarrow> bool \<Rightarrow> bytes" where
  "delete_event_name kind marker_created =
     (case kind of
        ObjectRemoved \<Rightarrow> if marker_created then lit ''s3:ObjectRemoved:DeleteMarkerCreated'' else lit ''s3:ObjectRemoved:Delete''
      | LifecycleExpired \<Rightarrow> if marker_created then lit ''s3:LifecycleExpiration:DeleteMarkerCreated''
                            else lit ''s3:LifecycleExpiration:Delete''
      | RestoreEvent name \<Rightarrow> name
      | ObjectCreated _ \<Rightarrow> [])"

definition delete_event_record :: "write_env \<Rightarrow> event_draft option \<Rightarrow> object_meta \<Rightarrow> bool \<Rightarrow> event_record option" where
  "delete_event_record e ev m marker_created =
     map_option (\<lambda>d.
       \<lparr>ev_seq = 0, ev_ts = of_int (e_now_ts e), ev_bucket = ed_bucket d, ev_key = ed_key d,
        ev_event = delete_event_name (ed_kind d) marker_created,
        ev_etag = (if marker_created then None else Some (hex_encode (om_etag m))),
        ev_size = (if marker_created then None else Some (om_size m)),
        ev_version_id = map_option (\<lambda>v. version_id_display (Some v)) (om_version_id m),
        ev_delete_marker = (marker_created \<or> om_is_delete_marker m), ev_dead = False, ev_sse = sse_label (om_sse m)\<rparr>) ev"

section \<open>Transactions of the engine\<close>

definition MAX_OBJECT_SIZE :: u64 where
  "MAX_OBJECT_SIZE = 5 * 1024 * 1024 * 1024 * 1024"

definition with_event :: "meta_op list \<Rightarrow> event_record option \<Rightarrow> meta_op list" where
  "with_event ops ev = ops @ (case ev of Some r \<Rightarrow> [EventEnqueue r] | None \<Rightarrow> [])"

definition env_commit :: "write_env \<Rightarrow> meta_op list \<Rightarrow> db \<Rightarrow> db \<times> u64 result" where
  "env_commit e = commit (e_binlog e) (e_now_ts e) (e_event_max e)"

definition commit_object_put :: "write_env \<Rightarrow> bytes \<Rightarrow> bytes \<Rightarrow> object_meta \<Rightarrow> alloc_draft \<Rightarrow> stats_delta \<Rightarrow>
    event_record option \<Rightarrow> db \<Rightarrow> db \<times> u64 result" where
  "commit_object_put e b k m draft delta ev db =
     (if MAX_OBJECT_SIZE < om_size m then (db, Inl InvalidArgument)
      else env_commit e (with_event [ObjectPut b k m, Alloc draft, Stats b delta] ev) db)"

definition commit_object_put_version :: "write_env \<Rightarrow> bytes \<Rightarrow> bytes \<Rightarrow> bytes \<Rightarrow> object_meta \<Rightarrow> alloc_draft \<Rightarrow>
    stats_delta \<Rightarrow> event_record option \<Rightarrow> db \<Rightarrow> db \<times> u64 result" where
  "commit_object_put_version e b k vk m draft delta ev db =
     (if MAX_OBJECT_SIZE < om_size m then (db, Inl InvalidArgument)
      else env_commit e (with_event [ObjectPutVersion b k vk m, Alloc draft, Stats b delta] ev) db)"

definition commit_object_delete :: "write_env \<Rightarrow> bytes \<Rightarrow> bytes \<Rightarrow> alloc_draft \<Rightarrow> stats_delta \<Rightarrow>
    event_record option \<Rightarrow> db \<Rightarrow> db \<times> u64 result" where
  "commit_object_delete e b k draft delta ev = env_commit e (with_event [ObjectDelete b k, Alloc draft, Stats b delta] ev)"

definition commit_object_delete_current :: "write_env \<Rightarrow> bytes \<Rightarrow> bytes \<Rightarrow> bytes option \<Rightarrow> object_meta \<Rightarrow>
    alloc_draft \<Rightarrow> stats_delta \<Rightarrow> event_record option \<Rightarrow> db \<Rightarrow> db \<times> u64 result" where
  "commit_object_delete_current e b k vk marker draft delta ev =
     env_commit e (with_event [ObjectDeleteCurrent b k vk marker, Alloc draft, Stats b delta] ev)"

definition commit_object_delete_version :: "write_env \<Rightarrow> bytes \<Rightarrow> bytes \<Rightarrow> bytes \<Rightarrow> alloc_draft \<Rightarrow>
    stats_delta \<Rightarrow> event_record option \<Rightarrow> db \<Rightarrow> db \<times> u64 result" where
  "commit_object_delete_version e b k vk draft delta ev =
     env_commit e (with_event [ObjectDeleteVersion b k vk, Alloc draft, Stats b delta] ev)"

definition commit_put_plan :: "write_env \<Rightarrow> bytes \<Rightarrow> bytes \<Rightarrow> write_target \<Rightarrow> object_meta \<Rightarrow> alloc_draft \<Rightarrow>
    stats_delta \<Rightarrow> event_draft option \<Rightarrow> db \<Rightarrow> db \<times> u64 result" where
  "commit_put_plan e b k target m draft delta ev db =
     (let r = put_event_record e ev m
      in case target_version_key target of
           None \<Rightarrow> commit_object_put e b k m draft delta r db
         | Some vk \<Rightarrow> commit_object_put_version e b k vk m draft delta r db)"

text \<open>
  The metadata of a PUT, from the write plan on. \<open>proto\<close> carries what the request determines: size,
  ETag, data, headers, tags, encryption, checksums, retention and storage class; \<open>explicit_mtime\<close> is the
  time an import gives, absent for requests.
\<close>

definition put_delta :: "old_version \<Rightarrow> object_meta \<Rightarrow> stats_delta" where
  "put_delta old m =
     \<lparr>sd_objects = (if ov_counted old then 0 else 1), sd_bytes = sint (om_size m) - ov_size old,
      sd_by_class = class_stats_delta old (storage_class_name m) (om_size m)\<rparr>"

definition put_object_meta :: "write_env \<Rightarrow> versioning_state \<Rightarrow> bytes \<Rightarrow> bytes \<Rightarrow> object_meta \<Rightarrow> int option \<Rightarrow>
    alloc_draft \<Rightarrow> event_draft option \<Rightarrow> db \<Rightarrow> db \<times> object_meta result" where
  "put_object_meta e v b k proto explicit_mtime draft ev db =
     (case bind_res (plan_object_write e db b k v) (\<lambda>(target, old).
           bind_res (case explicit_mtime of Some t \<Rightarrow> Inr t | None \<Rightarrow> write_mtime e target db b k) (\<lambda>mtime.
             let m = proto\<lparr>om_mtime := mtime, om_version_id := meta_version_id target,
                           om_is_delete_marker := False, om_restore_state := None\<rparr>;
                 delta = put_delta old m
             in bind_res (check_quota db b (sd_bytes delta)) (\<lambda>_. Inr (target, m, delta)))) of
        Inl err \<Rightarrow> (db, Inl err)
      | Inr (target, m, delta) \<Rightarrow>
          (let (db', r) = commit_put_plan e b k target m draft delta ev db
           in (db', bind_res r (\<lambda>_. Inr m))))"

section \<open>Deleting\<close>

definition no_delta :: stats_delta where
  "no_delta = \<lparr>sd_objects = 0, sd_bytes = 0, sd_by_class = []\<rparr>"

definition remove_delta :: "object_meta \<Rightarrow> stats_delta" where
  "remove_delta m =
     (if om_is_delete_marker m then no_delta
      else \<lparr>sd_objects = - 1, sd_bytes = - sint (om_size m),
            sd_by_class = [(storage_class_name m, - 1, - sint (om_size m))]\<rparr>)"

definition delete_plain :: "write_env \<Rightarrow> bytes \<Rightarrow> bytes \<Rightarrow> bool \<Rightarrow> bool \<Rightarrow> alloc_draft \<Rightarrow> event_draft option \<Rightarrow>
    db \<Rightarrow> db \<times> object_meta option result" where
  "delete_plain e b k bypass skip_lock draft ev db =
     (case get_object db b k of
        Inl err \<Rightarrow> (db, Inl err)
      | Inr None \<Rightarrow> (db, Inr None)
      | Inr (Some m) \<Rightarrow>
          (case deny_if_locked m (e_lock_now e) bypass skip_lock of
             Inl err \<Rightarrow> (db, Inl err)
           | Inr _ \<Rightarrow>
               (let (db', r) = commit_object_delete e b k draft (remove_delta m) (delete_event_record e ev m False) db
                in (db', bind_res r (\<lambda>_. Inr (Some m))))))"

definition delete_current_marker :: "write_env \<Rightarrow> bytes \<Rightarrow> bytes \<Rightarrow> versioning_state \<Rightarrow> alloc_draft \<Rightarrow>
    event_draft option \<Rightarrow> db \<Rightarrow> db \<times> object_meta option result" where
  "delete_current_marker e b k v draft ev db =
     (case (if v = Enabled then bind_res (next_vk e db b k) (\<lambda>vk. Inr (Some vk, None))
            else bind_res (get_object db b k) (\<lambda>l.
              case l of
                Some legacy \<Rightarrow> Inr (None, Some legacy)
              | None \<Rightarrow> bind_res (get_object_version db b k VK_NULL) (\<lambda>old. Inr (Some VK_NULL, old)))) of
        Inl err \<Rightarrow> (db, Inl err)
      | Inr (target_vk, old_null) \<Rightarrow>
          (let delta = (case old_null of Some old \<Rightarrow> remove_delta old | None \<Rightarrow> no_delta);
               vid = (case target_vk of Some w \<Rightarrow> if w \<noteq> VK_NULL then Some w else None | None \<Rightarrow> None);
               marker0 = delete_marker_meta (e_now_ts e) vid
           in case (if v = Suspended then bind_res (null_family_mtime e db b k) (\<lambda>t. Inr (marker0\<lparr>om_mtime := t\<rparr>))
                    else Inr marker0) of
                Inl err \<Rightarrow> (db, Inl err)
              | Inr marker \<Rightarrow>
                  (let (db', r) = commit_object_delete_current e b k target_vk marker draft delta
                                    (delete_event_record e ev marker True) db
                   in (db', bind_res r (\<lambda>_. Inr (Some marker))))))"

definition delete_version_entry :: "write_env \<Rightarrow> bytes \<Rightarrow> bytes \<Rightarrow> bytes \<Rightarrow> bool \<Rightarrow> bool \<Rightarrow> alloc_draft \<Rightarrow>
    event_draft option \<Rightarrow> db \<Rightarrow> db \<times> object_meta option result" where
  "delete_version_entry e b k vk bypass skip_lock draft ev db =
     (case get_object_version db b k vk of
        Inl err \<Rightarrow> (db, Inl err)
      | Inr None \<Rightarrow> (db, Inr None)
      | Inr (Some m) \<Rightarrow>
          (case deny_if_locked m (e_lock_now e) bypass skip_lock of
             Inl err \<Rightarrow> (db, Inl err)
           | Inr _ \<Rightarrow>
               (let (db', r) = commit_object_delete_version e b k vk draft (remove_delta m)
                                 (delete_event_record e ev m (om_is_delete_marker m)) db
                in (db', bind_res r (\<lambda>_. Inr (Some m))))))"

definition delete_object_version :: "write_env \<Rightarrow> bytes \<Rightarrow> bytes \<Rightarrow> bytes \<Rightarrow> bool \<Rightarrow> bool \<Rightarrow> alloc_draft \<Rightarrow>
    event_draft option \<Rightarrow> db \<Rightarrow> db \<times> object_meta option result" where
  "delete_object_version e b k vk bypass skip_lock draft ev db =
     (if vk = VK_NULL
      then (case get_object db b k of
              Inl err \<Rightarrow> (db, Inl err)
            | Inr (Some _) \<Rightarrow> delete_plain e b k bypass skip_lock draft ev db
            | Inr None \<Rightarrow> delete_version_entry e b k vk bypass skip_lock draft ev db)
      else delete_version_entry e b k vk bypass skip_lock draft ev db)"

definition delete_version_inner :: "write_env \<Rightarrow> bytes \<Rightarrow> bytes \<Rightarrow> bytes option \<Rightarrow> versioning_state \<Rightarrow> bool \<Rightarrow> bool \<Rightarrow>
    alloc_draft \<Rightarrow> event_draft option \<Rightarrow> db \<Rightarrow> db \<times> object_meta option result" where
  "delete_version_inner e b k version v bypass skip_lock draft ev db =
     (case (v, version) of
        (Off, None) \<Rightarrow> delete_plain e b k bypass skip_lock draft ev db
      | (Off, Some vk) \<Rightarrow> if vk = VK_NULL then delete_plain e b k bypass skip_lock draft ev db else (db, Inl InvalidArgument)
      | (_, None) \<Rightarrow> delete_current_marker e b k v draft ev db
      | (_, Some vk) \<Rightarrow> delete_object_version e b k vk bypass skip_lock draft ev db)"

section \<open>Retention and legal hold\<close>

definition lock_write_vk :: "db \<Rightarrow> bytes \<Rightarrow> bytes \<Rightarrow> bytes option \<Rightarrow> bytes option result" where
  "lock_write_vk db b k version =
     (let null_slot = bind_res (get_object db b k) (\<lambda>l. Inr (if l \<noteq> None then None else Some VK_NULL))
      in case version of
           Some vk \<Rightarrow> if vk \<noteq> VK_NULL then Inr (Some vk) else null_slot
         | None \<Rightarrow>
             bind_res (get_current_version db b k) (\<lambda>cur.
               case cur of
                 Some (vk, _) \<Rightarrow> if vk \<noteq> VK_NULL then Inr (Some vk) else null_slot
               | None \<Rightarrow> Inl NotFound))"

definition lock_write_meta :: "db \<Rightarrow> bytes \<Rightarrow> bytes \<Rightarrow> bytes option \<Rightarrow> object_meta result" where
  "lock_write_meta db b k vk =
     bind_res (bind_res (case vk of Some w \<Rightarrow> get_object_version db b k w | None \<Rightarrow> get_object db b k) (ok_or NotFound))
       (\<lambda>m. if om_is_delete_marker m then Inl DeleteMarker else Inr m)"

definition set_object_retention :: "write_env \<Rightarrow> bytes \<Rightarrow> bytes \<Rightarrow> bytes option \<Rightarrow> retention option \<Rightarrow> db \<Rightarrow>
    db \<times> object_meta result" where
  "set_object_retention e b k version r db =
     (case bind_res (lock_write_vk db b k version) (\<lambda>vk. bind_res (lock_write_meta db b k vk) (\<lambda>m. Inr (vk, m))) of
        Inl err \<Rightarrow> (db, Inl err)
      | Inr (vk, m) \<Rightarrow>
          (let (db', q) = env_commit e [ObjectSetRetention b k vk r] db
           in (db', bind_res q (\<lambda>_. Inr (m\<lparr>om_retention := r\<rparr>)))))"

definition set_object_legal_hold :: "write_env \<Rightarrow> bytes \<Rightarrow> bytes \<Rightarrow> bytes option \<Rightarrow> bool \<Rightarrow> db \<Rightarrow>
    db \<times> object_meta result" where
  "set_object_legal_hold e b k version h db =
     (case bind_res (lock_write_vk db b k version) (\<lambda>vk. bind_res (lock_write_meta db b k vk) (\<lambda>m. Inr (vk, m))) of
        Inl err \<Rightarrow> (db, Inl err)
      | Inr (vk, m) \<Rightarrow>
          (let (db', q) = env_commit e [ObjectSetLegalHold b k vk h] db
           in (db', bind_res q (\<lambda>_. Inr (m\<lparr>om_legal_hold := h\<rparr>)))))"

end
