(* ===== verification/Meta_Log.thy ===== *)
theory Meta_Log
  imports Meta_Store
begin

text \<open>
  The allocation log in the metadata store (keys \<^verbatim>\<open>a:\<close>): committing a transaction appends its record,
  truncation after a checkpoint keeps everything recovery needs.
\<close>

definition log_ok :: "db \<Rightarrow> u64 \<Rightarrow> bool" where
  "log_ok db n \<longleftrightarrow> kv_wf db \<and> last_seq db = Inr n \<and>
     (\<forall>k v. kv_get db k = Some v \<longrightarrow> prefix PREFIX_ALLOC k \<longrightarrow>
        (\<exists>r. v = VAlloc r \<and> k = alloc_key (r_seq r) \<and> r_seq r \<le> n))"

lemma sorted_key_unique:
  assumes "sorted_wrt (\<lambda>x y. f x < (f y :: 'b::linorder)) xs" "sorted_wrt (\<lambda>x y. f x < f y) ys" "set xs = set ys"
  shows "xs = ys"
proof -
  have "map f xs = map f ys"
    using assms by (intro strict_sorted_equal) (simp_all add: sorted_wrt_map flip: image_set)
  moreover have "inj_on f (set xs)"
    using assms(1) by (metis distinct_map sorted_wrt_map strict_sorted_iff)
  ultimately show ?thesis using assms(3) by (metis Un_absorb inj_on_map_eq_map)
qed

lemma list_alloc_aux:
  assumes "\<forall>(k, v) \<in> set xs. \<exists>r. v = VAlloc r \<and> k = alloc_key (r_seq r)" "sorted_wrt (<) (map fst xs)"
  shows "\<exists>rs. list_alloc_loop after xs = Inr rs \<and>
      set rs = {r. (alloc_key (r_seq r), VAlloc r) \<in> set xs \<and> after < r_seq r} \<and>
      sorted_wrt (\<lambda>x y. r_seq x < r_seq y) rs"
  using assms
proof (induction xs)
  case (Cons x xs)
  then obtain r where x: "x = (alloc_key (r_seq r), VAlloc r)" by (cases x) auto
  from Cons obtain rs where rs: "list_alloc_loop after xs = Inr rs"
      "set rs = {r. (alloc_key (r_seq r), VAlloc r) \<in> set xs \<and> after < r_seq r}"
      "sorted_wrt (\<lambda>x y. r_seq x < r_seq y) rs" by auto
  have less: "r_seq r < r_seq q" if "(alloc_key (r_seq q), VAlloc q) \<in> set xs" for q
    using Cons.prems(2) that alloc_keys.build_less [of "r_seq r" "r_seq q"] by (force simp: x)
  then show ?case
    using rs by (auto simp: x alloc_keys.parse_build alloc_keys.build_inject)
qed simp

lemma log_okD: "log_ok db n \<Longrightarrow> kv_get db k = Some v \<Longrightarrow> prefix PREFIX_ALLOC k \<Longrightarrow>
    \<exists>r. v = VAlloc r \<and> k = alloc_key (r_seq r) \<and> r_seq r \<le> n"
  by (simp add: log_ok_def)

lemma list_alloc_char:
  assumes "log_ok db n"
  shows "\<exists>rs. list_alloc_records db after = Inr rs \<and>
    set rs = {r. kv_get db (alloc_key (r_seq r)) = Some (VAlloc r) \<and> after < r_seq r} \<and>
    sorted_wrt (\<lambda>x y. r_seq x < r_seq y) rs"
proof -
  have wf: "kv_wf db" using assms by (simp add: log_ok_def)
  have *: "\<forall>(k, v) \<in> set (scan_prefix db PREFIX_ALLOC). \<exists>r. v = VAlloc r \<and> k = alloc_key (r_seq r)"
    using log_okD [OF assms] unfolding store.set_scan [OF wf, of PREFIX_ALLOC] by blast
  have "\<exists>rs. list_alloc_records db after = Inr rs \<and>
      set rs = {r. (alloc_key (r_seq r), VAlloc r) \<in> set (scan_prefix db PREFIX_ALLOC) \<and> after < r_seq r} \<and>
      sorted_wrt (\<lambda>x y. r_seq x < r_seq y) rs"
    unfolding list_alloc_records_def by (rule list_alloc_aux [OF * store.sorted_scan [OF wf]])
  then show ?thesis by (simp add: store.set_scan [OF wf])
qed

lemma list_alloc_eqI:
  assumes "log_ok db n" "sorted_wrt (\<lambda>x y. r_seq x < r_seq y) rs"
    "set rs = {r. kv_get db (alloc_key (r_seq r)) = Some (VAlloc r) \<and> after < r_seq r}"
  shows "list_alloc_records db after = Inr rs"
  using list_alloc_char [OF assms(1), of after] sorted_key_unique [OF _ assms(2)] assms(3) by auto

lemma seq_key_neq: "\<not> prefix PREFIX_ALLOC SYS_SEQ" "\<not> prefix PREFIX_TXN SYS_SEQ" "\<not> prefix PREFIX_BINLOG SYS_SEQ"
  "\<not> prefix PREFIX_BINLOG (alloc_key n)" "SYS_SEQ \<noteq> alloc_key n" "\<not> prefix PREFIX_TXN (alloc_key n)"
  "\<not> prefix PREFIX_ALLOC (txn_key n)" "\<not> prefix PREFIX_EVENT (alloc_key n)" "\<not> prefix PREFIX_EVENT SYS_SEQ"
  by (simp_all add: prefix_defs lit_def alloc_key_def txn_key_def)

lemma last_seq_put: "kv_wf db \<Longrightarrow> last_seq (put_u64 SYS_SEQ n db) = Inr n"
  by (simp add: last_seq_def read_u64_def put_u64_def store.get_put)


text \<open>Operations that leave the allocation log alone.\<close>

fun alloc_free :: "meta_op \<Rightarrow> bool" where
  "alloc_free (Alloc _) = False"
| "alloc_free (ObjectMetaRewrite _ _) = False"
| "alloc_free (MultipartOp (PartDelete _)) = False"
| "alloc_free _ = True"

lemma family_excl:
  "p \<in> set all_prefixes \<Longrightarrow> q \<in> set all_prefixes \<Longrightarrow> p \<noteq> q \<Longrightarrow> prefix p k \<Longrightarrow> \<not> prefix q k"
  using prefixes_apart prefix_same_cases by metis

text \<open>The families of metadata: everything transactions write but the allocation log and the binlog.\<close>

definition metadata_families :: "bytes list" where
  "metadata_families = [PREFIX_BUCKET, PREFIX_BUCKET_LOC, PREFIX_BUCKET_CORS, PREFIX_BUCKET_TAGGING,
     PREFIX_BUCKET_OWNERSHIP, PREFIX_BUCKET_BPA, PREFIX_BUCKET_POLICY, PREFIX_LIFECYCLE_RULE,
     PREFIX_NOTIFICATION, PREFIX_INVENTORY, PREFIX_EVENT, PREFIX_RESTORE_JOB, PREFIX_OBJECT,
     SYS_SSE_KEK_SEED, SYS_SSE_KEK_GEN, PREFIX_INGEST_JOB, PREFIX_BATCH_JOB, PREFIX_UPLOAD, PREFIX_UPLOAD_INDEX,
     PREFIX_PART, PREFIX_SESSION, PREFIX_KEY, PREFIX_TENANT, PREFIX_IAM_USER, PREFIX_IAM_GROUP, PREFIX_IAM_POLICY,
     PREFIX_IAM_ROLE]"

lemma metadata_in_all: "q \<in> set metadata_families \<Longrightarrow> q \<in> set all_prefixes"
  by (auto simp: metadata_families_def all_prefixes_def)

lemma families_metadata:
  "set (config_families c) \<subseteq> set metadata_families" "set (iam_families i) \<subseteq> set metadata_families"
  "(\<And>raw. m \<noteq> PartDelete raw) \<Longrightarrow> set (multipart_families m) \<subseteq> set metadata_families"
  subgoal by (cases c) (simp_all add: metadata_families_def)
  subgoal by (cases i) (simp_all add: metadata_families_def)
  subgoal by (cases m) (auto simp: metadata_families_def)
  done

lemma alloc_family:
  assumes "prefix PREFIX_ALLOC k"
  shows "outside metadata_families k"
proof -
  have "\<not> prefix q k" if q: "q \<in> set metadata_families" for q
  proof -
    have "PREFIX_ALLOC \<in> set all_prefixes" by (simp add: all_prefixes_def)
    moreover have "PREFIX_ALLOC \<noteq> q" using q by (auto simp: metadata_families_def prefix_defs lit_def)
    ultimately show ?thesis using family_excl metadata_in_all [OF q] assms by blast
  qed
  then show ?thesis by (simp add: outside_def list_all_iff)
qed

lemma outside_subset: "outside ps k \<Longrightarrow> set qs \<subseteq> set ps \<Longrightarrow> outside qs k"
  by (auto simp: outside_def list_all_iff)

lemma alloc_free_families: "alloc_free p \<Longrightarrow> set (op_families p) \<subseteq> set metadata_families"
proof (cases p)
  case (MultipartOp q)
  assume "alloc_free p"
  with MultipartOp families_metadata(3) [of q] show ?thesis by (cases q) auto
qed (use families_metadata in \<open>auto simp: metadata_families_def\<close>)

lemma alloc_free_outside: "alloc_free p \<Longrightarrow> prefix PREFIX_ALLOC k \<Longrightarrow> outside (op_families p) k"
  using alloc_family outside_subset alloc_free_families by blast

lemma each_append:
  "apply_each mode seq (ps @ qs) db = bind_res (apply_each mode seq ps db) (apply_each mode seq qs)"
proof (induction ps arbitrary: db)
  case (Cons p ps)
  then show ?case by (cases "apply_op mode seq p db") simp_all
qed simp

definition draft_record :: "u64 \<Rightarrow> alloc_draft \<Rightarrow> alloc_record" where
  "draft_record s d = \<lparr>r_seq = s, r_txn = s, r_alloc = d_alloc d, r_ref_inc = d_ref_inc d, r_ref_dec = d_ref_dec d\<rparr>"

lemma apply_ops_alloc_get:
  assumes "apply_ops db (pre @ Alloc d # post) (Commit bl now) = Inr (db', s)" "log_ok db n"
    "list_all alloc_free (pre @ post)"
  shows "s = n + 1 \<and> kv_wf db' \<and> last_seq db' = Inr s \<and>
    (\<forall>k. prefix PREFIX_ALLOC k \<longrightarrow> kv_get db' k =
       (if k = alloc_key s \<and> \<not> draft_is_empty d then Some (VAlloc (draft_record s d)) else kv_get db k))"
proof -
  have wf: "kv_wf db" "read_u64 db SYS_SEQ 0 = Inr n" using assms(2) by (simp_all add: log_ok_def last_seq_def)
  from assms(1) wf(2) obtain d1 d2 d3 d4 where
    s: "s = n + 1" and e: "apply_each (Commit bl now) s pre db = Inr d1" "op_alloc (Commit bl now) s d d1 = Inr d2"
      "apply_each (Commit bl now) s post d2 = Inr d3" "write_binlog (Commit bl now) s (pre @ Alloc d # post) d3 = Inr d4"
      "db' = put_u64 SYS_SEQ s d4"
    by (auto simp: apply_ops_def bind_res_eq_Inr each_append Let_def)
  have f1: "kv_get d1 k = kv_get db k" if "prefix PREFIX_ALLOC k" for k
    using each_wf_frame [OF e(1) wf(1)] assms(3) alloc_free_outside that by (auto simp: list_all_iff)
  have w1: "kv_wf d1" using each_wf_frame [OF e(1) wf(1)] by blast
  have w2: "kv_wf d2" using op_wf [of "Commit bl now" s "Alloc d" d1 d2] e(2) w1 by simp
  have ne: "alloc_key s \<noteq> txn_key s" using seq_key_neq(7) [of s] key_prefixes(6) [of s] by metis
  have f2: "kv_get d2 k = (if k = alloc_key s \<and> \<not> draft_is_empty d then Some (VAlloc (draft_record s d)) else kv_get d1 k)"
    if "prefix PREFIX_ALLOC k" for k
    using e(2) w1 that seq_key_neq(7) [of s] ne
    by (auto simp: op_alloc_def draft_record_def put_u64_def Let_def store.get_put store.wf_put split: if_splits)
  have w3: "kv_wf d3" using each_wf_frame [OF e(3) w2] by blast
  have f3: "kv_get d3 k = kv_get d2 k" if "prefix PREFIX_ALLOC k" for k
    using each_wf_frame [OF e(3) w2] assms(3) alloc_free_outside that by (auto simp: list_all_iff)
  have b: "\<not> prefix PREFIX_BINLOG k" "k \<noteq> SYS_SEQ" if "prefix PREFIX_ALLOC k" for k
    using family_excl [of PREFIX_ALLOC PREFIX_BINLOG k] that seq_key_neq(1)
    by (auto simp: all_prefixes_def prefix_defs lit_def)
  have w4: "kv_wf d4" and f4: "\<And>k. prefix PREFIX_ALLOC k \<Longrightarrow> kv_get d4 k = kv_get d3 k"
    using binlog_wf_frame [OF e(4) w3] b by blast+
  show ?thesis
    using s w4 last_seq_put [OF w4] f1 f2 f3 f4 b
    by (simp add: e(5) put_u64_def store.wf_put store.get_put)
qed

text \<open>
  Committing a transaction with an allocation draft appends exactly that record to the allocation
  log, under the sequence number the transaction got, and keeps the log in order: what recovery
  replays after any point is what it replayed before, followed by the new record.
\<close>

theorem commit_appends_record:
  assumes "log_ok db n" "n \<noteq> - 1" "list_all alloc_free (pre @ post)"
    "apply_ops db (pre @ Alloc d # post) (Commit bl now) = Inr (db', s)" "after \<le> n"
    "list_alloc_records db after = Inr rs"
  shows "log_ok db' s \<and> n < s \<and>
    list_alloc_records db' after = Inr (rs @ (if draft_is_empty d then [] else [draft_record s d]))"
proof -
  note g = apply_ops_alloc_get [OF assms(4,1,3)]
  have s: "s = n + 1" and wf': "kv_wf db'" and ls: "last_seq db' = Inr s" using g by blast+
  have get: "kv_get db' k = (if k = alloc_key s \<and> \<not> draft_is_empty d then Some (VAlloc (draft_record s d)) else kv_get db k)"
    if "prefix PREFIX_ALLOC k" for k using g that by blast
  have lt: "n < s" using s assms(2) u64_sat_add1_gt [of n] by (simp add: u64_sat_add1_def)
  have ok: "log_ok db' s"
    unfolding log_ok_def
  proof (intro conjI allI impI)
    fix k v assume kv: "kv_get db' k = Some v" "prefix PREFIX_ALLOC k"
    show "\<exists>r. v = VAlloc r \<and> k = alloc_key (r_seq r) \<and> r_seq r \<le> s"
    proof (cases "k = alloc_key s \<and> \<not> draft_is_empty d")
      case True
      with kv get show ?thesis by (auto simp: draft_record_def)
    next
      case False
      with kv get have "kv_get db k = Some v" by (auto split: if_splits)
      with log_okD [OF assms(1) _ kv(2)] lt show ?thesis by fastforce
    qed
  qed (use wf' ls in auto)
  have old: "set rs = {r. kv_get db (alloc_key (r_seq r)) = Some (VAlloc r) \<and> after < r_seq r}"
    "sorted_wrt (\<lambda>x y. r_seq x < r_seq y) rs"
    using list_alloc_char [OF assms(1), of after] assms(6) by auto
  have le: "r_seq r \<le> n" if "kv_get db (alloc_key (r_seq r)) = Some (VAlloc r)" for r
    using log_okD [OF assms(1) that] by auto
  have none: "kv_get db (alloc_key s) = None"
  proof (rule ccontr)
    assume "kv_get db (alloc_key s) \<noteq> None"
    then obtain v where "kv_get db (alloc_key s) = Some v" by blast
    from log_okD [OF assms(1) this] lt show False by (auto simp: alloc_keys.build_inject)
  qed
  let ?rs = "rs @ (if draft_is_empty d then [] else [draft_record s d])"
  have "list_alloc_records db' after = Inr ?rs"
  proof (rule list_alloc_eqI [OF ok])
    have "\<forall>x \<in> set rs. r_seq x < s" using le lt old(1) by fastforce
    then show "sorted_wrt (\<lambda>x y. r_seq x < r_seq y) ?rs"
      using old(2) by (simp add: sorted_wrt_append draft_record_def)
    have "after < s" using assms(5) lt by simp
    then show "set ?rs = {r. kv_get db' (alloc_key (r_seq r)) = Some (VAlloc r) \<and> after < r_seq r}"
      using old(1) none get by (auto simp: draft_record_def alloc_keys.build_inject split: if_splits)
  qed
  with ok lt show ?thesis by blast
qed


lemma truncate_alloc_aux:
  assumes "\<forall>(k, v) \<in> set xs. \<exists>n. k = alloc_key n" "kv_wf db"
  shows "\<exists>db' c. truncate_alloc_loop through xs db n0 = Inr (db', c) \<and> kv_wf db' \<and>
      (\<forall>k. \<not> prefix PREFIX_TXN k \<longrightarrow> kv_get db' k =
         (if k \<in> alloc_key ` {..through} \<and> k \<in> fst ` set xs then None else kv_get db k))"
  using assms
proof (induction xs arbitrary: db n0)
  case (Cons x xs)
  then obtain m v where x: "x = (alloc_key m, v)" by (cases x) auto
  have xs: "\<forall>(k, v) \<in> set xs. \<exists>n. k = alloc_key n" using Cons.prems by simp
  show ?case
  proof (cases "m \<le> through")
    case True
    let ?db = "kv_del (txn_key m) (kv_del (alloc_key m) db)"
    have "kv_wf ?db" using Cons.prems(2) by (simp add: store.wf_del)
    from Cons.IH [OF xs this, of "n0 + 1"] True show ?thesis
      by (auto simp: x alloc_keys.parse_build kv_get_del image_iff)
  next
    case False
    then have "alloc_key m \<notin> alloc_key ` {..through}" by (auto simp: alloc_keys.build_inject)
    with Cons.IH [OF xs Cons.prems(2), of n0] False show ?thesis
      by (auto simp: x alloc_keys.parse_build alloc_keys.build_inject)
  qed
qed simp

text \<open>
  Truncating the allocation log after a checkpoint at sequence \<open>c\<close> succeeds, removes every record up
  to \<open>c\<close> and nothing else, so what recovery replays after \<open>c\<close> is unchanged.
\<close>

theorem truncate_keeps_tail:
  assumes "log_ok db n" "c \<le> after" "after \<le> n"
  shows "\<exists>db' m. truncate_alloc_records c db = Inr (db', m) \<and> log_ok db' n \<and>
    list_alloc_records db' after = list_alloc_records db after \<and>
    {k. prefix PREFIX_ALLOC k \<and> kv_get db' k \<noteq> None} =
      {k. prefix PREFIX_ALLOC k \<and> kv_get db k \<noteq> None} - alloc_key ` {..c}"
proof -
  have wf: "kv_wf db" using assms(1) by (simp add: log_ok_def)
  have "\<forall>(k, v) \<in> set (scan_prefix db PREFIX_ALLOC). \<exists>m. k = alloc_key m"
    using log_okD [OF assms(1)] unfolding store.set_scan [OF wf] by blast
  from truncate_alloc_aux [OF this wf, of c 0] obtain db' m where
    t: "truncate_alloc_records c db = Inr (db', m)" and wf': "kv_wf db'" and
    get: "\<And>k. \<not> prefix PREFIX_TXN k \<Longrightarrow> kv_get db' k =
       (if k \<in> alloc_key ` {..c} \<and> k \<in> fst ` set (scan_prefix db PREFIX_ALLOC) then None else kv_get db k)"
    unfolding truncate_alloc_records_def by blast
  have ga: "kv_get db' k = (if k \<in> alloc_key ` {..c} then None else kv_get db k)" if p: "prefix PREFIX_ALLOC k" for k
  proof -
    have "\<not> prefix PREFIX_TXN k" using family_excl [of PREFIX_ALLOC PREFIX_TXN k] p
      by (auto simp: all_prefixes_def prefix_defs lit_def)
    moreover have "k \<in> fst ` set (scan_prefix db PREFIX_ALLOC) \<longleftrightarrow> kv_get db k \<noteq> None"
      using p by (force simp: store.set_scan [OF wf])
    ultimately show ?thesis using get [of k] by auto
  qed
  have "last_seq db' = Inr n"
  proof -
    have "SYS_SEQ \<notin> alloc_key ` {..c}" using seq_key_neq(5) by blast
    then have "kv_get db' SYS_SEQ = kv_get db SYS_SEQ" using get [OF seq_key_neq(2)] by simp
    then show ?thesis using assms(1) by (simp add: last_seq_def read_u64_def log_ok_def)
  qed
  then have ok: "log_ok db' n"
    using wf' log_okD [OF assms(1)] ga by (auto simp: log_ok_def split: if_splits)
  obtain rs where rs: "list_alloc_records db after = Inr rs"
    "set rs = {r. kv_get db (alloc_key (r_seq r)) = Some (VAlloc r) \<and> after < r_seq r}"
    "sorted_wrt (\<lambda>x y. r_seq x < r_seq y) rs" using list_alloc_char [OF assms(1)] by blast
  have "list_alloc_records db' after = Inr rs"
    using rs(2,3) assms(2) by (intro list_alloc_eqI [OF ok]) (auto simp: ga alloc_keys.build_inject image_iff)
  with t ok rs(1) show ?thesis
    by (intro exI [of _ db'] exI [of _ m]) (auto simp: ga split: if_splits)
qed

section \<open>Witnesses\<close>

definition demo_db :: db where
  "demo_db = put_u64 SYS_SEQ 4 []"

lemma demo_log_ok: "log_ok demo_db 4"
proof -
  have "kv_wf demo_db" "last_seq demo_db = Inr 4"
    by (simp_all add: demo_db_def put_u64_def kv_wf_def last_seq_def read_u64_def kv_get_def)
  moreover have "kv_get demo_db k = Some v \<Longrightarrow> \<not> prefix PREFIX_ALLOC k" for k v
    using seq_key_neq(1) by (auto simp: demo_db_def put_u64_def kv_get_def split: if_splits)
  ultimately show ?thesis unfolding log_ok_def by blast
qed

lemma demo_commit: "\<exists>d'. apply_ops demo_db [EventDelete 9, Alloc \<lparr>d_alloc = [(0, 2)], d_ref_inc = [], d_ref_dec = []\<rparr>]
    (Commit False 0) = Inr (d', 5)"
  by (simp add: apply_ops_def demo_db_def put_u64_def read_u64_def kv_get_def op_event_delete_def op_alloc_def
      draft_is_empty_def Let_def)

theorem commit_appends_record_witness:
  "\<exists>d'. list_alloc_records d' 4 = Inr [draft_record 5 \<lparr>d_alloc = [(0, 2)], d_ref_inc = [], d_ref_dec = []\<rparr>]"
proof -
  let ?d = "\<lparr>d_alloc = [(0, 2)], d_ref_inc = [], d_ref_dec = []\<rparr> :: alloc_draft"
  obtain d' where c: "apply_ops demo_db ([EventDelete 9] @ Alloc ?d # []) (Commit False 0) = Inr (d', 5)"
    using demo_commit by auto
  have "list_alloc_records demo_db 4 = Inr []"
    using seq_key_neq(5) by (intro list_alloc_eqI [OF demo_log_ok]) (auto simp: demo_db_def put_u64_def kv_get_def)
  from commit_appends_record [OF demo_log_ok _ _ c _ this] show ?thesis
    by (simp add: draft_is_empty_def) blast
qed

theorem truncate_keeps_tail_witness:
  "\<exists>db' m. truncate_alloc_records 2 demo_db = Inr (db', m) \<and> log_ok db' 4"
  using truncate_keeps_tail [OF demo_log_ok, of 2 3] by auto

end
