(* ===== verification/Version_Reads.thy ===== *)
theory Version_Reads
  imports Versions Meta_Log
begin

text \<open>
  Reading versions: what a listing of a key returns, and that the reverse scan for the tip agrees
  with it.
\<close>

text \<open>The object family of a store: every entry has a parsable key and holds object metadata.\<close>

definition objects_ok :: "db \<Rightarrow> bool" where
  "objects_ok db \<longleftrightarrow> kv_wf db \<and>
     (\<forall>k v. kv_get db k = Some v \<longrightarrow> prefix PREFIX_OBJECT k \<longrightarrow>
        (\<exists>x m. object_ref_ok x \<and> k = object_ref_key x \<and> v = VObject m))"

lemma objects_okD: "objects_ok db \<Longrightarrow> kv_get db k = Some v \<Longrightarrow> prefix PREFIX_OBJECT k \<Longrightarrow>
    \<exists>x m. object_ref_ok x \<and> k = object_ref_key x \<and> v = VObject m"
  by (simp add: objects_ok_def)

definition addr_ok :: "bytes \<Rightarrow> bytes \<Rightarrow> bool" where
  "addr_ok b k \<longleftrightarrow> name_ok b \<and> utf8_valid k"

lemma key_prefix_object: "prefix PREFIX_OBJECT (object_key_prefix b k)"
  by (simp add: object_key_prefix_def object_key_def)

lemma version_key_prefix: "prefix (object_key_prefix b k) (object_version_key b k vk)"
  by (simp add: object_key_prefix_def object_version_key_def)

lemma version_entries:
  assumes "objects_ok db" "addr_ok b k" "kv_get db q = Some v" "prefix (object_key_prefix b k) q"
  shows "\<exists>vk m. length vk = 16 \<and> q = object_version_key b k vk \<and> v = VObject m"
proof -
  have "prefix PREFIX_OBJECT q" using assms(4) key_prefix_object prefix_order.trans by blast
  then obtain x m where x: "object_ref_ok x" "q = object_ref_key x" "v = VObject m"
    using objects_okD [OF assms(1,3)] by blast
  obtain b' k' w where xe: "x = (b', k', w)" by (cases x)
  have "0 \<notin> set b" using assms(2) by (simp add: addr_ok_def name_ok_def)
  from scan_exact [OF this x(1) [unfolded xe], of k] assms(4) x(2) have e: "b = b'" "k = k'" "w \<noteq> None" by (simp_all add: xe)
  then show ?thesis using x by (auto simp: xe object_ref_ok_def object_ref_key_def)
qed

lemma parse_version_key:
  "addr_ok b k \<Longrightarrow> length vk = 16 \<Longrightarrow> parse_object_version_key (object_version_key b k vk) = Inr (b, k, Some vk)"
  by (simp add: addr_ok_def parse_object_version_key_vk)

text \<open>Entries of one key as pairs of version id and metadata.\<close>

definition ventry :: "bytes \<Rightarrow> bytes \<Rightarrow> bytes \<times> object_meta \<Rightarrow> bytes \<times> stored" where
  "ventry b k = (\<lambda>(vk, m). (object_version_key b k vk, VObject m))"

lemma version_key_less: "object_version_key b k v < object_version_key b k w \<longleftrightarrow> v < w"
  by (simp add: object_version_key_def append_less_same)

lemma version_key_inj: "object_version_key b k v = object_version_key b k w \<longleftrightarrow> v = w"
  by (simp add: object_version_key_def)

lemma entries_of_scan:
  assumes "objects_ok db" "addr_ok b k"
  shows "\<exists>vs. scan_prefix db (object_key_prefix b k) = map (ventry b k) vs \<and> (\<forall>x \<in> set vs. length (fst x) = 16) \<and>
     sorted_wrt (\<lambda>x y. fst x < fst y) vs \<and>
     (\<forall>vk m. (vk, m) \<in> set vs \<longleftrightarrow> length vk = 16 \<and> kv_get db (object_version_key b k vk) = Some (VObject m))"
proof -
  let ?s = "scan_prefix db (object_key_prefix b k)"
  have wf: "kv_wf db" using assms(1) by (simp add: objects_ok_def)
  have set: "set ?s = {(q, v). kv_get db q = Some v \<and> prefix (object_key_prefix b k) q}"
    using wf by (rule store.set_scan)
  have "\<forall>x \<in> set ?s. \<exists>y. x = ventry b k y \<and> length (fst y) = 16"
    using version_entries [OF assms] unfolding set by (force simp: ventry_def)
  then obtain f where f: "\<And>x. x \<in> set ?s \<Longrightarrow> x = ventry b k (f x) \<and> length (fst (f x)) = 16" by metis
  define vs where "vs = map f ?s"
  have m: "?s = map (ventry b k) vs" using f by (simp add: vs_def map_idI [symmetric] cong: map_cong) 
  have l: "\<forall>x \<in> set vs. length (fst x) = 16" using f by (auto simp: vs_def)
  have "sorted_wrt (<) (map fst (map (ventry b k) vs))" using store.sorted_scan [OF wf] m by metis
  then have "sorted_wrt (\<lambda>x y. fst (ventry b k x) < fst (ventry b k y)) vs" by (simp add: sorted_wrt_map)
  then have s: "sorted_wrt (\<lambda>x y. fst x < fst y) vs"
    by (rule sorted_wrt_mono_rel [rotated]) (auto simp: ventry_def version_key_less)
  have "(vk, mm) \<in> set vs \<longleftrightarrow> length vk = 16 \<and> kv_get db (object_version_key b k vk) = Some (VObject mm)" for vk mm
  proof -
    have "(object_version_key b k vk, VObject mm) \<in> set ?s \<longleftrightarrow> kv_get db (object_version_key b k vk) = Some (VObject mm)"
      by (simp add: set version_key_prefix)
    moreover have "(object_version_key b k vk, VObject mm) \<in> set ?s \<longleftrightarrow> (vk, mm) \<in> set vs"
      unfolding m by (force simp: ventry_def version_key_inj)
    ultimately show ?thesis using l by auto
  qed
  with m l s show ?thesis by blast
qed

lemma list_versions_map:
  assumes "addr_ok b k" "\<forall>x \<in> set vs. length (fst x) = 16"
  shows "list_versions_loop (map (ventry b k) vs) = Inr vs"
  using assms by (induction vs) (auto simp: ventry_def parse_version_key)

section \<open>The tip\<close>

lemma tip_loop_filter:
  assumes "sorted_wrt (\<lambda>x y. fst y < fst x) xs"
  shows "tip_loop p xs n = tip_loop p (filter (\<lambda>(k, _). prefix p k) xs) n"
  using assms
proof (induction xs arbitrary: n)
  case (Cons x xs)
  obtain k v where x: "x = (k, v)" by (cases x)
  show ?case
  proof (cases "prefix p k")
    case True
    with Cons show ?thesis by (auto simp: x bind_res_def split: sum.split option.split)
  next
    case False
    show ?thesis
    proof (cases "k < p")
      case True
      have "\<not> prefix p (fst y)" if "y \<in> set xs" for y
        using prefix_le [of p "fst y"] Cons.prems that True by (auto simp: x)
      then have "filter (\<lambda>(k, _). prefix p k) (x # xs) = []" using False by (auto simp: x filter_empty_conv)
      then show ?thesis using True False by (simp add: x)
    next
      case notless: False
      with False Cons show ?thesis by (simp add: x)
    qed
  qed
qed simp

lemma le_replicate_max: "(vk :: bytes) \<le> replicate (length vk) 0xFF"
proof (induction vk)
  case (Cons c vk)
  have "unat c < 256" using unsigned_less [of c, where 'a = nat] by simp
  then have "c \<le> 0xFF" by (simp add: word_le_nat_alt)
  with Cons show ?case by auto
qed simp

lemma vk_le_null: "length vk = 16 \<Longrightarrow> vk \<le> VK_NULL"
  using le_replicate_max [of vk] by (simp add: VK_NULL_def)

definition real :: "bytes \<times> object_meta \<Rightarrow> bool" where
  "real = (\<lambda>(vk, _). vk \<noteq> VK_NULL)"

lemma below_null: "\<forall>x \<in> set ws. fst x < VK_NULL \<Longrightarrow> map_of ws VK_NULL = None"
  by (induction ws) auto

lemma tip_loop_map:
  assumes "addr_ok b k" "\<forall>x \<in> set ws. length (fst x) = 16" "sorted_wrt (\<lambda>x y. fst y < fst x) ws"
  shows "tip_loop (object_key_prefix b k) (map (ventry b k) ws) n =
    Inr (case map_of ws VK_NULL of Some m \<Rightarrow> Some m | None \<Rightarrow> n, find real ws)"
  using assms(2,3)
proof (induction ws arbitrary: n)
  case (Cons x ws)
  obtain vk m where x: "x = (vk, m)" by (cases x)
  have "vk \<le> VK_NULL" using Cons.prems by (intro vk_le_null) (simp add: x)
  then have "\<forall>y \<in> set ws. fst y < VK_NULL" using Cons.prems by (auto simp: x)
  then have none: "map_of ws VK_NULL = None" by (rule below_null)
  show ?case
  proof (cases "vk = VK_NULL")
    case True
    with Cons none show ?thesis by (simp add: x ventry_def real_def version_key_prefix parse_version_key [OF assms(1)])
  next
    case False
    with Cons.prems none show ?thesis
      by (simp add: x ventry_def real_def version_key_prefix parse_version_key [OF assms(1)])
  qed
qed simp

lemma below_upper:
  assumes "prefix (object_key_prefix b k) q"
  shows "q \<le> butlast (object_key_prefix b k) @ [last (object_key_prefix b k) + 1]"
proof -
  have "object_key_prefix b k = object_key b k @ [0]" by (simp add: object_key_prefix_def)
  with assms obtain r where "q = object_key b k @ 0 # r" by (auto simp: prefix_def)
  then have "q < object_key b k @ [1]" by (simp add: append_less_same)
  then show ?thesis by (simp add: object_key_prefix_def)
qed

lemma tip_of_entries:
  assumes "objects_ok db" "addr_ok b k" "scan_prefix db (object_key_prefix b k) = map (ventry b k) vs"
    "\<forall>x \<in> set vs. length (fst x) = 16" "sorted_wrt (\<lambda>x y. fst x < fst y) vs"
  shows "version_scan_tip db b k = Inr (map_of vs VK_NULL, find real (rev vs))"
proof -
  let ?p = "object_key_prefix b k"
  let ?u = "butlast ?p @ [last ?p + 1]"
  have wf: "kv_wf db" using assms(1) by (simp add: objects_ok_def)
  have "sorted_wrt (\<lambda>x y. fst y < fst x) (iter_rev_from ?u db)"
    using wf by (simp add: iter_rev_from_filter sorted_wrt_rev kv_wf_def sorted_wrt_map sorted_wrt_filter)
  from tip_loop_filter [OF this, of ?p None]
  have "version_scan_tip db b k = tip_loop ?p (filter (\<lambda>(q, _). prefix ?p q) (iter_rev_from ?u db)) None"
    by (simp add: version_scan_tip_def Let_def)
  also have "filter (\<lambda>(q, _). prefix ?p q) (iter_rev_from ?u db) = rev (scan_prefix db ?p)"
    unfolding iter_rev_from_filter [OF wf] scan_prefix_filter [OF wf] rev_filter [symmetric] filter_filter
    using below_upper by (intro arg_cong [of _ _ rev] filter_cong) auto
  also have "\<dots> = map (ventry b k) (rev vs)" by (simp add: assms(3) rev_map)
  also have "tip_loop ?p \<dots> None = Inr (case map_of (rev vs) VK_NULL of Some m \<Rightarrow> Some m | None \<Rightarrow> None, find real (rev vs))"
    using assms(4,5) by (intro tip_loop_map [OF assms(2)]) (simp_all add: sorted_wrt_rev)
  also have "map_of (rev vs) VK_NULL = map_of vs VK_NULL"
  proof -
    have "distinct (map fst vs)" using assms(5) by (simp add: strict_sorted_iff flip: sorted_wrt_map)
    then have "map_of (rev vs) = map_of vs" by (intro map_of_inject_set [THEN iffD2]) (simp_all add: rev_map [symmetric])
    then show ?thesis by simp
  qed
  finally show ?thesis by (simp split: option.split)
qed

text \<open>
  The reverse scan for the tip of a key agrees with the full listing: the null slot is the entry
  with the reserved id, and the other component is the entry with the largest id that is not
  reserved. Both succeed on every store whose object entries are well formed.
\<close>

theorem version_scan_tip_exact:
  assumes "objects_ok db" "addr_ok b k"
  shows "\<exists>vs. list_key_versions db b k = Inr vs \<and> sorted_wrt (\<lambda>x y. fst x < fst y) vs \<and>
    version_scan_tip db b k = Inr (map_of vs VK_NULL, find (\<lambda>(vk, _). vk \<noteq> VK_NULL) (rev vs))"
proof -
  obtain vs where vs: "scan_prefix db (object_key_prefix b k) = map (ventry b k) vs" "\<forall>x \<in> set vs. length (fst x) = 16"
     "sorted_wrt (\<lambda>x y. fst x < fst y) vs" using entries_of_scan [OF assms] by blast
  then show ?thesis
    using list_versions_map [OF assms(2) vs(2)] tip_of_entries [OF assms vs]
    by (auto simp: list_key_versions_def real_def)
qed

end
