(* ===== verification/Version_Writes.thy ===== *)
theory Version_Writes
  imports Version_Reads
begin

text \<open>
  Writing versions: what a committed transaction of the engine leaves in the store, and that a
  successful PUT or DELETE is what the next read sees.
\<close>

section \<open>Engine transactions\<close>

lemma truncate_events_frame:
  assumes "kv_wf db"
  shows "kv_wf (fst (truncate_events n db)) \<and>
    (\<forall>q. \<not> prefix PREFIX_EVENT q \<longrightarrow> kv_get (fst (truncate_events n db)) q = kv_get db q)"
proof -
  have "\<forall>q \<in> set (take c (map fst (scan_prefix db PREFIX_EVENT))). prefix PREFIX_EVENT q" for c
    using set_take_subset [of c "map fst (scan_prefix db PREFIX_EVENT)"] store.set_scan [OF assms, of PREFIX_EVENT] by auto
  then have "kv_get (fold kv_del (take c (map fst (scan_prefix db PREFIX_EVENT))) db) q = kv_get db q"
    if "\<not> prefix PREFIX_EVENT q" for q c
    using that store.get_dels [OF assms] by auto
  then show ?thesis
    using assms store.wf_dels [OF assms] by (simp add: truncate_events_def Let_def)
qed

lemma family_neq: "prefix p k \<Longrightarrow> p \<in> set all_prefixes \<Longrightarrow> q \<in> set all_prefixes \<Longrightarrow> p \<noteq> q \<Longrightarrow> \<not> prefix q k"
  using family_excl by blast

lemma object_family:
  assumes "prefix PREFIX_OBJECT q"
  shows "\<not> prefix PREFIX_ALLOC q" "\<not> prefix PREFIX_TXN q" "\<not> prefix PREFIX_BUCKET q" "\<not> prefix PREFIX_EVENT q"
    "\<not> prefix PREFIX_BINLOG q" "q \<noteq> SYS_SEQ"
  using assms family_excl [of PREFIX_OBJECT _ q]
  by (auto simp: all_prefixes_def prefix_defs lit_def)

lemma bucket_family:
  assumes "prefix PREFIX_BUCKET q"
  shows "\<not> prefix PREFIX_ALLOC q" "\<not> prefix PREFIX_TXN q" "\<not> prefix PREFIX_OBJECT q" "\<not> prefix PREFIX_EVENT q"
    "\<not> prefix PREFIX_BINLOG q" "q \<noteq> SYS_SEQ"
  using assms family_excl [of PREFIX_BUCKET _ q]
  by (auto simp: all_prefixes_def prefix_defs lit_def)

text \<open>
  A committed transaction of one object operation, an allocation draft, a statistics change and
  perhaps an event: object entries are as the operation left them, the bucket has the new
  statistics.
\<close>

lemma engine_commit:
  assumes "env_commit e (with_event [p, Alloc draft, Stats b delta] ev) db = (db', Inr s)" "kv_wf db"
  shows "\<exists>d1 mode bm. mode = Commit (e_binlog e) (e_now_ts e) \<and> apply_op mode s p db = Inr d1 \<and> kv_wf d1 \<and> kv_wf db' \<and>
    (\<forall>q. prefix PREFIX_OBJECT q \<longrightarrow> kv_get db' q = kv_get d1 q) \<and>
    kv_get d1 (bucket_key b) = Some (VBucket bm) \<and>
    kv_get db' (bucket_key b) = Some (VBucket (bm\<lparr>bk_stats := apply_stats delta (bk_stats bm)\<rparr>))"
proof -
  let ?mode = "Commit (e_binlog e) (e_now_ts e)"
  let ?evs = "case ev of Some r \<Rightarrow> [EventEnqueue r] | None \<Rightarrow> []"
  obtain d6 where d6: "apply_ops db (with_event [p, Alloc draft, Stats b delta] ev) ?mode = Inr (d6, s)"
    "db' = (if list_ex is_event_enqueue (with_event [p, Alloc draft, Stats b delta] ev)
            then fst (truncate_events (e_event_max e) d6) else d6)"
    using assms(1) by (auto simp: env_commit_def commit_def split: sum.splits)
  from d6(1) obtain d1 d2 d3 d4 d5 where
    e1: "apply_op ?mode s p db = Inr d1" and e2: "op_alloc ?mode s draft d1 = Inr d2" and
    e3: "op_stats b delta d2 = Inr d3" and e4: "apply_each ?mode s ?evs d3 = Inr d4" and
    e5: "write_binlog ?mode s (with_event [p, Alloc draft, Stats b delta] ev) d4 = Inr d5" and
    e6: "d6 = put_u64 SYS_SEQ s d5"
    by (auto simp: apply_ops_def with_event_def bind_res_eq_Inr Let_def)
  have w1: "kv_wf d1" using op_wf [OF e1 assms(2)] .
  have w2: "kv_wf d2" using op_wf [of ?mode s "Alloc draft" d1 d2] e2 w1 by simp
  have w3: "kv_wf d3" using op_wf [of ?mode s "Stats b delta" d2 d3] e3 w2 by simp
  have w4: "kv_wf d4" using each_wf_frame [OF e4 w3] by blast
  have w5: "kv_wf d5" using binlog_wf_frame [OF e5 w4] by blast
  have w6: "kv_wf d6" using w5 by (simp add: e6 put_u64_def store.wf_put)
  have w': "kv_wf db'" using truncate_events_frame [OF w6] w6 by (simp add: d6(2))
  have f12: "kv_get d2 q = kv_get d1 q" if "\<not> prefix PREFIX_ALLOC q" "\<not> prefix PREFIX_TXN q" for q
    using op_frame [of ?mode s "Alloc draft" d1 d2 q] e2 w1 that by (simp add: outside_Cons)
  have f3': "kv_get db' q = kv_get d3 q" if "\<not> prefix PREFIX_EVENT q" "\<not> prefix PREFIX_BINLOG q" "q \<noteq> SYS_SEQ" for q
  proof -
    have "kv_get d4 q = kv_get d3 q"
      using each_wf_frame [OF e4 w3] that by (auto simp: outside_Cons split: option.splits)
    moreover have "kv_get d5 q = kv_get d4 q" using binlog_wf_frame [OF e5 w4] that by blast
    moreover have "kv_get d6 q = kv_get d5 q" using w5 that by (simp add: e6 put_u64_def store.get_put)
    ultimately show ?thesis using truncate_events_frame [OF w6] that by (simp add: d6(2))
  qed
  have "kv_get db' q = kv_get d1 q" if "prefix PREFIX_OBJECT q" for q
  proof -
    have "kv_get d3 q = kv_get d2 q"
      using op_frame [of ?mode s "Stats b delta" d2 d3 q] e3 w2 object_family [OF that] by (simp add: outside_Cons)
    then show ?thesis using f12 f3' object_family [OF that] by simp
  qed
  moreover obtain bm where "kv_get d2 (bucket_key b) = Some (VBucket bm)"
    "kv_get d3 (bucket_key b) = Some (VBucket (bm\<lparr>bk_stats := apply_stats delta (bk_stats bm)\<rparr>))"
  proof -
    from e3 obtain v bm where v: "kv_get d2 (bucket_key b) = Some v" "decode_bucket v = Inr bm"
      "d3 = kv_put (bucket_key b) (VBucket (bm\<lparr>bk_stats := apply_stats delta (bk_stats bm)\<rparr>)) d2"
      by (auto simp: op_stats_def update_bucket_def require_bucket_def bind_res_eq_Inr ok_or_Inr)
    then show ?thesis using that w2 by (cases v) (auto simp: store.get_put)
  qed
  moreover have "kv_get d2 (bucket_key b) = kv_get d1 (bucket_key b)" "kv_get db' (bucket_key b) = kv_get d3 (bucket_key b)"
    using f12 f3' bucket_family [OF key_prefixes(1)] by simp_all
  ultimately show ?thesis using e1 w1 w' by auto
qed


section \<open>The tip from the entries\<close>

definition tip_is :: "db \<Rightarrow> bytes \<Rightarrow> bytes \<Rightarrow> object_meta option \<Rightarrow> (bytes \<times> object_meta) option \<Rightarrow> bool" where
  "tip_is db b k ns mr \<longleftrightarrow> kv_get db (object_version_key b k VK_NULL) = map_option VObject ns \<and>
     (case mr of
        None \<Rightarrow> \<forall>vk. length vk = 16 \<longrightarrow> vk \<noteq> VK_NULL \<longrightarrow> kv_get db (object_version_key b k vk) = None
      | Some (w, m) \<Rightarrow> length w = 16 \<and> w \<noteq> VK_NULL \<and> kv_get db (object_version_key b k w) = Some (VObject m) \<and>
          (\<forall>vk. length vk = 16 \<longrightarrow> vk \<noteq> VK_NULL \<longrightarrow> kv_get db (object_version_key b k vk) \<noteq> None \<longrightarrow> vk \<le> w))"

lemma find_last_max:
  fixes vs :: "(bytes \<times> object_meta) list"
  assumes "sorted_wrt (\<lambda>x y. fst x < fst y) vs" "find P (rev vs) = Some y"
  shows "y \<in> set vs \<and> P y \<and> (\<forall>x \<in> set vs. P x \<longrightarrow> fst x \<le> fst y)"
  using assms
proof (induction vs rule: rev_induct)
  case (snoc v vs)
  then show ?case by (cases "P v") (auto simp: sorted_wrt_append less_imp_le)
qed simp

lemma length_VK_NULL [simp]: "length VK_NULL = 16"
  by (simp add: VK_NULL_def)

lemma tip_char:
  assumes "objects_ok db" "addr_ok b k"
  shows "\<exists>ns mr. version_scan_tip db b k = Inr (ns, mr) \<and> tip_is db b k ns mr"
proof -
  obtain vs where vs: "scan_prefix db (object_key_prefix b k) = map (ventry b k) vs" "\<forall>x \<in> set vs. length (fst x) = 16"
     "sorted_wrt (\<lambda>x y. fst x < fst y) vs"
     "\<And>vk m. (vk, m) \<in> set vs \<longleftrightarrow> length vk = 16 \<and> kv_get db (object_version_key b k vk) = Some (VObject m)"
    using entries_of_scan [OF assms] by blast
  have obj: "\<exists>m. v = VObject m" if "kv_get db (object_version_key b k vk) = Some v" for vk v
    using version_entries [OF assms that version_key_prefix] by blast
  have dist: "distinct (map fst vs)" using vs(3) by (simp add: strict_sorted_iff flip: sorted_wrt_map)
  have null: "kv_get db (object_version_key b k VK_NULL) = map_option VObject (map_of vs VK_NULL)"
  proof (cases "map_of vs VK_NULL")
    case None
    then have "(VK_NULL, m) \<notin> set vs" for m by (auto simp: map_of_eq_None_iff intro: rev_image_eqI)
    then show ?thesis using vs(4) [of VK_NULL] obj [of VK_NULL] None
      by (cases "kv_get db (object_version_key b k VK_NULL)") auto
  next
    case (Some m)
    then show ?thesis using vs(4) [of VK_NULL m] map_of_SomeD by fastforce
  qed
  have "tip_is db b k (map_of vs VK_NULL) (find real (rev vs))"
  proof (cases "find real (rev vs)")
    case None
    then have "\<forall>x \<in> set vs. \<not> real x" by (auto simp: find_None_iff)
    then have "kv_get db (object_version_key b k vk) = None" if "length vk = 16" "vk \<noteq> VK_NULL" for vk
      using vs(4) [of vk] obj [of vk] that by (cases "kv_get db (object_version_key b k vk)") (auto simp: real_def)
    with None null show ?thesis by (simp add: tip_is_def)
  next
    case (Some y)
    from find_last_max [OF vs(3) Some] have y: "y \<in> set vs" "real y" "\<forall>x \<in> set vs. real x \<longrightarrow> fst x \<le> fst y" by auto
    obtain w m where w: "y = (w, m)" by (cases y)
    have "vk \<le> w" if "length vk = 16" "vk \<noteq> VK_NULL" "kv_get db (object_version_key b k vk) \<noteq> None" for vk
    proof -
      note h = that
      obtain mm where "kv_get db (object_version_key b k vk) = Some (VObject mm)" using h(3) obj by blast
      then have "(vk, mm) \<in> set vs" using vs(4) h(1) by blast
      then show ?thesis using y(3) h(2) by (force simp: w real_def)
    qed
    with Some y null vs(4) [of w m] show ?thesis by (simp add: tip_is_def w real_def)
  qed
  with tip_of_entries [OF assms vs(1-3)] show ?thesis by blast
qed

lemma tip_unique: "tip_is db b k ns mr \<Longrightarrow> tip_is db b k ns' mr' \<Longrightarrow> ns = ns' \<and> mr = mr'"
proof -
  assume a: "tip_is db b k ns mr" "tip_is db b k ns' mr'"
  then have "map_option VObject ns = map_option VObject ns'" by (simp add: tip_is_def)
  then have "ns = ns'" by (cases ns; cases ns') auto
  moreover have "mr = mr'"
  proof (cases "mr = None \<or> mr' = None")
    case True
    with a show ?thesis by (cases mr; cases mr') (auto simp: tip_is_def)
  next
    case False
    then obtain w m w' m' where e: "mr = Some (w, m)" "mr' = Some (w', m')" by auto
    with a have "w \<le> w'" "w' \<le> w" by (auto simp: tip_is_def)
    then have "w = w'" by simp
    with a show ?thesis by (simp add: e tip_is_def)
  qed
  ultimately show ?thesis by simp
qed

lemma tip_eqI: "objects_ok db \<Longrightarrow> addr_ok b k \<Longrightarrow> tip_is db b k ns mr \<Longrightarrow> version_scan_tip db b k = Inr (ns, mr)"
  using tip_char [of db b k] tip_unique by blast

lemma get_object_char:
  assumes "objects_ok db" "addr_ok b k"
  shows "\<exists>l. get_object db b k = Inr l \<and> kv_get db (object_key b k) = map_option VObject l"
proof (cases "kv_get db (object_key b k)")
  case (Some v)
  then obtain m where "v = VObject m" using objects_okD [OF assms(1) Some] by auto
  with Some show ?thesis by (simp add: get_object_def)
qed (simp add: get_object_def)

lemma get_object_eqI: "kv_get db (object_key b k) = map_option VObject l \<Longrightarrow> get_object db b k = Inr l"
  by (cases l) (simp_all add: get_object_def)

lemma get_version_char:
  assumes "objects_ok db" "addr_ok b k"
  shows "\<exists>l. get_object_version db b k vk = Inr l \<and> kv_get db (object_version_key b k vk) = map_option VObject l"
proof (cases "kv_get db (object_version_key b k vk)")
  case (Some v)
  then obtain m where "v = VObject m" using version_entries [OF assms Some version_key_prefix] by blast
  with Some show ?thesis by (simp add: get_object_version_def)
qed (simp add: get_object_version_def)

section \<open>What a request changes\<close>

text \<open>
  One entry of the object family is replaced, the rest of the family is untouched; the statistics of
  the bucket move by a delta.
\<close>

definition object_update :: "db \<Rightarrow> db \<Rightarrow> bytes \<Rightarrow> stored option \<Rightarrow> bool" where
  "object_update db db' key r \<longleftrightarrow> kv_wf db' \<and>
     (\<forall>q. prefix PREFIX_OBJECT q \<longrightarrow> kv_get db' q = (if q = key then r else kv_get db q))"

definition stats_update :: "db \<Rightarrow> db \<Rightarrow> bytes \<Rightarrow> stats_delta \<Rightarrow> bool" where
  "stats_update db db' b delta \<longleftrightarrow>
     (\<exists>bm. kv_get db (bucket_key b) = Some (VBucket bm) \<and>
       kv_get db' (bucket_key b) = Some (VBucket (bm\<lparr>bk_stats := apply_stats delta (bk_stats bm)\<rparr>)))"

lemma entry_key_ref: "entry_key b k v = object_ref_key (b, k, v)"
  by (simp add: entry_key_def object_ref_key_def)

lemma entry_key_object [simp]: "prefix PREFIX_OBJECT (entry_key b k v)"
  by (simp add: entry_key_def object_key_def object_version_key_def split: option.split)

lemma entry_key_inject:
  "object_ref_ok (b, k, v) \<Longrightarrow> object_ref_ok (b', k', v') \<Longrightarrow> entry_key b k v = entry_key b' k' v' \<longleftrightarrow> (b, k, v) = (b', k', v')"
  unfolding entry_key_ref by (rule object_keys.build_inject)

lemma object_not_bucket: "prefix PREFIX_OBJECT key \<Longrightarrow> key \<noteq> bucket_key b"
  using object_family(3) key_prefixes(1) by metis

lemma commit_step:
  assumes "env_commit e (with_event [p, Alloc draft, Stats b delta] ev) db = (db', Inr s)" "kv_wf db"
    "\<And>mode d. apply_op mode s p db = Inr d \<Longrightarrow> d = (case r of Some v \<Rightarrow> kv_put key v db | None \<Rightarrow> kv_del key db)"
    "prefix PREFIX_OBJECT key"
  shows "object_update db db' key r \<and> stats_update db db' b delta"
proof -
  obtain d1 mode bm where c: "apply_op mode s p db = Inr d1" "kv_wf db'"
    "\<forall>q. prefix PREFIX_OBJECT q \<longrightarrow> kv_get db' q = kv_get d1 q"
    "kv_get d1 (bucket_key b) = Some (VBucket bm)"
    "kv_get db' (bucket_key b) = Some (VBucket (bm\<lparr>bk_stats := apply_stats delta (bk_stats bm)\<rparr>))"
    using engine_commit [OF assms(1,2)] by auto
  have g: "kv_get d1 q = (if q = key then r else kv_get db q)" for q
    using assms(3) [OF c(1)] assms(2) by (auto simp: store.get_put store.get_del split: option.split)
  have "kv_get db (bucket_key b) = Some (VBucket bm)" using g c(4) object_not_bucket [OF assms(4)] by metis
  moreover have "object_update db db' key r" using c(2,3) g by (simp add: object_update_def)
  ultimately show ?thesis using c(5) by (auto simp: stats_update_def)
qed

lemma op_effects:
  "op_object_put b k m db = Inr d \<Longrightarrow> d = kv_put (entry_key b k None) (VObject m) db"
  "op_object_put_version b k vk m db = Inr d \<Longrightarrow> d = kv_put (entry_key b k (Some vk)) (VObject m) db"
  "op_object_delete_current b k w m db = Inr d \<Longrightarrow> d = kv_put (entry_key b k w) (VObject m) db"
  "op_object_delete b k db = Inr d \<Longrightarrow> d = kv_del (entry_key b k None) db"
  "op_object_delete_version b k vk db = Inr d \<Longrightarrow> d = kv_del (entry_key b k (Some vk)) db"
  by (auto simp: op_object_put_def op_object_put_version_def op_object_delete_current_def op_object_delete_def
      op_object_delete_version_def entry_key_def bind_res_eq_Inr split: if_splits)

lemma put_effect:
  assumes "put_object_meta e v b k proto xm draft ev db = (db', Inr m)" "kv_wf db"
  shows "\<exists>target old t. plan_object_write e db b k v = Inr (target, old) \<and>
    (case xm of Some u \<Rightarrow> t = u | None \<Rightarrow> write_mtime e target db b k = Inr t) \<and>
    m = proto\<lparr>om_mtime := t, om_version_id := meta_version_id target, om_is_delete_marker := False, om_restore_state := None\<rparr> \<and>
    om_size m \<le> MAX_OBJECT_SIZE \<and>
    object_update db db' (entry_key b k (target_version_key target)) (Some (VObject m)) \<and>
    stats_update db db' b (put_delta old m)"
proof -
  obtain target old t where p: "plan_object_write e db b k v = Inr (target, old)"
    "(case xm of Some u \<Rightarrow> Inr u | None \<Rightarrow> write_mtime e target db b k) = Inr t"
    and c: "\<exists>s. commit_put_plan e b k target m draft (put_delta old m) ev db = (db', Inr s)"
    and m: "m = proto\<lparr>om_mtime := t, om_version_id := meta_version_id target, om_is_delete_marker := False,
       om_restore_state := None\<rparr>"
    using assms(1) unfolding put_object_meta_def
    by (auto simp: Let_def bind_res_eq_Inr split: sum.splits prod.splits)
  obtain s where s: "commit_put_plan e b k target m draft (put_delta old m) ev db = (db', Inr s)" using c by blast
  have "om_size m \<le> MAX_OBJECT_SIZE \<and>
    object_update db db' (entry_key b k (target_version_key target)) (Some (VObject m)) \<and>
    stats_update db db' b (put_delta old m)"
  proof (cases "target_version_key target")
    case None
    with s have a: "om_size m \<le> MAX_OBJECT_SIZE"
      "env_commit e (with_event [ObjectPut b k m, Alloc draft, Stats b (put_delta old m)] (put_event_record e ev m)) db = (db', Inr s)"
      by (auto simp: commit_put_plan_def commit_object_put_def Let_def split: if_splits)
    show ?thesis using a(1) op_effects(1)
        commit_step [OF a(2) assms(2), where r = "Some (VObject m)" and key = "entry_key b k None"] None by simp
  next
    case (Some vk)
    with s have a: "om_size m \<le> MAX_OBJECT_SIZE"
      "env_commit e (with_event [ObjectPutVersion b k vk m, Alloc draft, Stats b (put_delta old m)] (put_event_record e ev m)) db = (db', Inr s)"
      by (auto simp: commit_put_plan_def commit_object_put_version_def Let_def split: if_splits)
    show ?thesis using a(1) op_effects(2)
        commit_step [OF a(2) assms(2), where r = "Some (VObject m)" and key = "entry_key b k (Some vk)"] Some by simp
  qed
  with p m show ?thesis by (auto split: option.splits)
qed

text \<open>The entry a deletion by version id addresses.\<close>

lemma remove_effect:
  assumes "delete_plain e b k bypass skip draft ev db = (db', Inr (Some m)) \<and> vk = None \<or>
    (\<exists>w. delete_version_entry e b k w bypass skip draft ev db = (db', Inr (Some m)) \<and> vk = Some w)" "kv_wf db"
  shows "kv_get db (entry_key b k vk) = Some (VObject m) \<and> deny_if_locked m (e_lock_now e) bypass skip = Inr () \<and>
    object_update db db' (entry_key b k vk) None \<and> stats_update db db' b (remove_delta m)"
  using assms(1)
proof
  assume a: "delete_plain e b k bypass skip draft ev db = (db', Inr (Some m)) \<and> vk = None"
  then obtain s where s: "get_object db b k = Inr (Some m)" "deny_if_locked m (e_lock_now e) bypass skip = Inr ()"
    "env_commit e (with_event [ObjectDelete b k, Alloc draft, Stats b (remove_delta m)] (delete_event_record e ev m False)) db = (db', Inr s)"
    by (auto simp: delete_plain_def commit_object_delete_def bind_res_eq_Inr split: sum.splits option.splits prod.splits)
  have "kv_get db (object_key b k) = Some (VObject m)"
    using s(1) by (auto simp: get_object_def bind_res_eq_Inr split: option.splits elim: decode_object.elims)
  then show ?thesis using a s(2) op_effects(4)
      commit_step [OF s(3) assms(2), where r = None and key = "entry_key b k None"] by (simp add: entry_key_def)
next
  assume "\<exists>w. delete_version_entry e b k w bypass skip draft ev db = (db', Inr (Some m)) \<and> vk = Some w"
  then obtain w where a: "delete_version_entry e b k w bypass skip draft ev db = (db', Inr (Some m))" "vk = Some w" by blast
  then obtain s where s: "get_object_version db b k w = Inr (Some m)" "deny_if_locked m (e_lock_now e) bypass skip = Inr ()"
    "env_commit e (with_event [ObjectDeleteVersion b k w, Alloc draft, Stats b (remove_delta m)]
       (delete_event_record e ev m (om_is_delete_marker m))) db = (db', Inr s)"
    by (auto simp: delete_version_entry_def commit_object_delete_version_def bind_res_eq_Inr
        split: sum.splits option.splits prod.splits)
  have "kv_get db (object_version_key b k w) = Some (VObject m)"
    using s(1) by (auto simp: get_object_version_def bind_res_eq_Inr split: option.splits elim: decode_object.elims)
  then show ?thesis using a s(2) op_effects(5)
      commit_step [OF s(3) assms(2), where r = None and key = "entry_key b k (Some w)"] by (simp add: entry_key_def)
qed

lemma marker_effect:
  assumes "delete_current_marker e b k v draft ev db = (db', Inr r)" "kv_wf db"
  shows "\<exists>w old mk. r = Some mk \<and> om_is_delete_marker mk \<and> om_size mk = 0 \<and>
    (if v = Enabled then (\<exists>x. next_vk e db b k = Inr x \<and> w = Some x) \<and> old = None
     else (case get_object db b k of Inr (Some l) \<Rightarrow> w = None \<and> old = Some l
           | Inr None \<Rightarrow> w = Some VK_NULL \<and> get_object_version db b k VK_NULL = Inr old | Inl _ \<Rightarrow> False)) \<and>
    (v = Suspended \<longrightarrow> null_family_mtime e db b k = Inr (om_mtime mk)) \<and>
    object_update db db' (entry_key b k w) (Some (VObject mk)) \<and>
    stats_update db db' b (case old of Some o1 \<Rightarrow> remove_delta o1 | None \<Rightarrow> no_delta)"
proof -
  define plan where "plan = (if v = Enabled then bind_res (next_vk e db b k) (\<lambda>vk. Inr (Some vk, None))
            else bind_res (get_object db b k) (\<lambda>l.
              case l of
                Some legacy \<Rightarrow> Inr (None, Some legacy)
              | None \<Rightarrow> bind_res (get_object_version db b k VK_NULL) (\<lambda>old. Inr (Some VK_NULL, old))))"
  obtain w old where w: "plan = Inr (w, old)"
    using assms(1) unfolding delete_current_marker_def plan_def [symmetric] by (auto split: sum.splits)
  let ?vid = "case w of Some x \<Rightarrow> if x \<noteq> VK_NULL then Some x else None | None \<Rightarrow> None"
  obtain mk s where mk: "(if v = Suspended
      then bind_res (null_family_mtime e db b k) (\<lambda>t. Inr ((delete_marker_meta (e_now_ts e) ?vid)\<lparr>om_mtime := t\<rparr>))
      else Inr (delete_marker_meta (e_now_ts e) ?vid)) = Inr mk" "r = Some mk"
    "commit_object_delete_current e b k w mk draft (case old of Some o1 \<Rightarrow> remove_delta o1 | None \<Rightarrow> no_delta)
       (delete_event_record e ev mk True) db = (db', Inr s)"
    using assms(1) unfolding delete_current_marker_def plan_def [symmetric] w
    by (auto simp: Let_def bind_res_eq_Inr split: sum.splits prod.splits)
  have s: "om_is_delete_marker mk" "om_size mk = 0"
    "if v = Enabled then (\<exists>x. next_vk e db b k = Inr x \<and> w = Some x) \<and> old = None
     else (case get_object db b k of Inr (Some l) \<Rightarrow> w = None \<and> old = Some l
           | Inr None \<Rightarrow> w = Some VK_NULL \<and> get_object_version db b k VK_NULL = Inr old | Inl _ \<Rightarrow> False)"
    "v = Suspended \<longrightarrow> null_family_mtime e db b k = Inr (om_mtime mk)"
    using mk(1) w by (auto simp: plan_def bind_res_eq_Inr delete_marker_meta_def split: if_splits sum.splits option.splits)
  have "object_update db db' (entry_key b k w) (Some (VObject mk)) \<and>
    stats_update db db' b (case old of Some o1 \<Rightarrow> remove_delta o1 | None \<Rightarrow> no_delta)"
    using commit_step [OF mk(3) [unfolded commit_object_delete_current_def] assms(2),
        where r = "Some (VObject mk)" and key = "entry_key b k w"] op_effects(3) by simp
  then show ?thesis
    by (rule_tac exI [of _ w], rule_tac exI [of _ old], rule_tac exI [of _ mk]) (use mk(2) s in blast)
qed

section \<open>The next version id\<close>

text \<open>
  The state of one key that the engine relies on: the legacy entry and the null slot are not both
  there, version times have not reached the end of the 64-bit range and neither have the times of the
  null family.
\<close>

definition null_time_ok :: "stored option \<Rightarrow> bool" where
  "null_time_ok r \<longleftrightarrow> (case r of Some (VObject m) \<Rightarrow> om_mtime m \<le> 18446744073708 | _ \<Rightarrow> True)"

definition key_ok :: "db \<Rightarrow> bytes \<Rightarrow> bytes \<Rightarrow> bool" where
  "key_ok db b k \<longleftrightarrow>
     \<not> (kv_get db (object_key b k) \<noteq> None \<and> kv_get db (object_version_key b k VK_NULL) \<noteq> None) \<and>
     null_time_ok (kv_get db (object_key b k)) \<and> null_time_ok (kv_get db (object_version_key b k VK_NULL)) \<and>
     (\<forall>(q, v) \<in> set (scan_prefix db (object_key_prefix b k)).
        vk_time_us (drop (length (object_key_prefix b k)) q) \<noteq> - 1 \<or> q = object_version_key b k VK_NULL)"

lemma key_ok_time:
  assumes "key_ok db b k" "kv_wf db" "kv_get db (object_version_key b k w) \<noteq> None" "w \<noteq> VK_NULL"
  shows "vk_time_us w \<noteq> - 1"
proof -
  obtain v where "(object_version_key b k w, v) \<in> set (scan_prefix db (object_key_prefix b k))"
    using assms(2,3) version_key_prefix by (auto simp: store.set_scan)
  with assms(1) have "vk_time_us (drop (length (object_key_prefix b k)) (object_version_key b k w)) \<noteq> - 1 \<or>
      object_version_key b k w = object_version_key b k VK_NULL"
    unfolding key_ok_def by blast
  then show ?thesis using assms(4) by (simp add: version_key_inj) (simp add: object_key_prefix_def object_version_key_def)
qed

lemma secs_word:
  assumes "s \<le> 18446744073708"
  shows "uint (of_int (min (2 ^ 64 - 1) (max s 0 * 1000000)) :: u64) = max s 0 * 1000000"
    "(of_int (min (2 ^ 64 - 1) (max s 0 * 1000000)) :: u64) \<noteq> - 1"
proof -
  have "0 \<le> max s 0 * 1000000" "max s 0 * 1000000 \<le> 18446744073708000000" using assms by auto
  then show u: "uint (of_int (min (2 ^ 64 - 1) (max s 0 * 1000000)) :: u64) = max s 0 * 1000000"
    by (simp add: unsigned_of_int take_bit_int_eq_self min_def)
  have "uint (- 1 :: u64) = 18446744073709551615" by (simp add: unsigned_minus_1_eq_mask mask_eq_exp_minus_1)
  moreover have "uint (of_int (min (2 ^ 64 - 1) (max s 0 * 1000000)) :: u64) \<noteq> 18446744073709551615"
    unfolding u using \<open>max s 0 * 1000000 \<le> 18446744073708000000\<close> by simp
  ultimately show "(of_int (min (2 ^ 64 - 1) (max s 0 * 1000000)) :: u64) \<noteq> - 1" by auto
qed

lemma vk_secs_ge:
  assumes "s \<le> 18446744073708" "of_int (min (2 ^ 64 - 1) (max s 0 * 1000000)) < vk_time_us vk"
  shows "s \<le> vk_secs vk"
proof -
  have "max s 0 * 1000000 < uint (vk_time_us vk)" using assms(2) secs_word(1) [OF assms(1)] by (simp add: word_less_def)
  then have "max s 0 \<le> uint (vk_time_us vk) div 1000000" by linarith
  then show ?thesis by (simp add: vk_secs_def uint_div)
qed

lemma new_vk_time_gt:
  assumes "new_version_vk now_us (Inr r) (Some p) = Inr vk" "p \<noteq> - 1"
  shows "p < vk_time_us vk"
  using vk_time_new [OF assms(1)] u64_sat_add1_gt [of p] assms(2) by (auto simp: less_max_iff_disj)

text \<open>The reference time of the null family as the engine computes it.\<close>

definition family_time :: "object_meta option \<Rightarrow> object_meta option \<Rightarrow> int option" where
  "family_time ns l = (case (ns, l) of
       (Some n, Some x) \<Rightarrow> Some (max (om_mtime n) (om_mtime x))
     | (Some n, None) \<Rightarrow> Some (om_mtime n)
     | (None, l') \<Rightarrow> map_option om_mtime l')"

lemma next_vk_spec:
  assumes "objects_ok db" "addr_ok b k" "key_ok db b k" "e_rnd e = Inr r" "length r = 8"
  shows "\<exists>vk. next_vk e db b k = Inr vk \<and> length vk = 16 \<and> vk \<noteq> VK_NULL \<and>
    (\<forall>w. length w = 16 \<longrightarrow> w \<noteq> VK_NULL \<longrightarrow> kv_get db (object_version_key b k w) \<noteq> None \<longrightarrow> w < vk) \<and>
    (\<forall>m. VObject m \<in> set_option (kv_get db (object_key b k)) \<union> set_option (kv_get db (object_version_key b k VK_NULL))
       \<longrightarrow> om_mtime m \<le> vk_secs vk)"
proof -
  have wf: "kv_wf db" using assms(1) by (simp add: objects_ok_def)
  obtain ns mr where tip: "version_scan_tip db b k = Inr (ns, mr)" "tip_is db b k ns mr" using tip_char [OF assms(1,2)] by blast
  obtain l where l: "get_object db b k = Inr l" "kv_get db (object_key b k) = map_option VObject l"
    using get_object_char [OF assms(1,2)] by blast
  define us where "us = (\<lambda>s. of_int (min (2 ^ 64 - 1) (max s 0 * 1000000)) :: u64)"
  define pt where "pt = map_option (\<lambda>(vk, _). vk_time_us vk) mr"
  define prev where "prev = (case family_time ns l of
      Some s \<Rightarrow> Some (case pt of None \<Rightarrow> us s | Some p \<Rightarrow> max p (us s)) | None \<Rightarrow> pt)"
  obtain vk where vk: "new_version_vk (e_now_us e) (Inr r) prev = Inr vk"
    by (simp add: new_version_vk_def Let_def)
  have nv: "next_vk e db b k = Inr vk"
    using vk unfolding next_vk_def Let_def prev_def pt_def us_def family_time_def
    by (simp add: tip(1) l(1) assms(4))
  have small: "s \<le> 18446744073708" if "family_time ns l = Some s" for s
    using assms(3) that tip(2) l(2)
    by (auto simp: family_time_def key_ok_def null_time_ok_def tip_is_def split: option.splits)
  have ptm: "p \<noteq> - 1" if h: "pt = Some p" for p
  proof -
    obtain w m where w: "mr = Some (w, m)" "p = vk_time_us w" using h by (auto simp: pt_def)
    then show ?thesis using tip(2) key_ok_time [OF assms(3) wf, of w] by (simp add: tip_is_def)
  qed
  have usm: "us s \<noteq> - 1" if "family_time ns l = Some s" for s
    unfolding us_def by (rule secs_word(2) [OF small [OF that]])
  have mx: "x \<noteq> - 1 \<Longrightarrow> y \<noteq> - 1 \<Longrightarrow> max x y \<noteq> - 1" for x y :: u64 by (simp add: max_def)
  have prevm: "p \<noteq> - 1" if "prev = Some p" for p
    using that ptm usm mx unfolding prev_def by (auto split: option.splits)
  note facts = new_version_vk_facts [OF assms(5) vk]
  have above: "w < vk" if h: "length w = 16" "w \<noteq> VK_NULL" "kv_get db (object_version_key b k w) \<noteq> None" for w
  proof -
    obtain x m where x: "mr = Some (x, m)" "w \<le> x" "length x = 16" using tip(2) h by (auto simp: tip_is_def split: option.splits)
    then have "pt = Some (vk_time_us x)" by (simp add: pt_def)
    then obtain p where "prev = Some p" "vk_time_us x \<le> p" by (cases "family_time ns l") (simp_all add: prev_def)
    then have "x < vk" using facts prevm x(3) by blast
    with x(2) show ?thesis by simp
  qed
  have fam: "om_mtime m \<le> vk_secs vk"
    if h: "VObject m \<in> set_option (kv_get db (object_key b k)) \<union> set_option (kv_get db (object_version_key b k VK_NULL))" for m
  proof -
    have "l = Some m \<or> ns = Some m" using h l(2) tip(2) by (auto simp: tip_is_def)
    then obtain s where s: "family_time ns l = Some s" "om_mtime m \<le> s"
      by (cases ns; cases l) (auto simp: family_time_def)
    then obtain p where p: "prev = Some p" "us s \<le> p" by (cases pt) (simp_all add: prev_def)
    then have "us s < vk_time_us vk" using new_vk_time_gt [of "e_now_us e" r p vk] vk prevm by force
    then have "s \<le> vk_secs vk" using vk_secs_ge [OF small [OF s(1)]] by (simp add: us_def)
    with s(2) show ?thesis by simp
  qed
  show ?thesis using nv facts above fam by blast
qed

section \<open>Reading what was written\<close>

lemma objects_ok_update:
  assumes "objects_ok db" "object_update db db' (entry_key b k w) r" "object_ref_ok (b, k, w)"
    "r = None \<or> (\<exists>m. r = Some (VObject m))"
  shows "objects_ok db'"
  unfolding objects_ok_def
proof (intro conjI allI impI)
  show "kv_wf db'" using assms(2) by (simp add: object_update_def)
  fix q v assume a: "kv_get db' q = Some v" "prefix PREFIX_OBJECT q"
  then have "(if q = entry_key b k w then r else kv_get db q) = Some v" using assms(2) by (simp add: object_update_def)
  then show "\<exists>x m. object_ref_ok x \<and> q = object_ref_key x \<and> v = VObject m"
    using assms(3,4) objects_okD [OF assms(1) _ a(2)] by (auto simp: entry_key_ref split: if_splits)
qed

lemma update_get:
  assumes "object_update db db' (entry_key b k w) r" "object_ref_ok (b, k, w)" "object_ref_ok (b', k', w')"
  shows "kv_get db' (entry_key b' k' w') = (if (b', k', w') = (b, k, w) then r else kv_get db (entry_key b' k' w'))"
  using assms(1) entry_key_inject [OF assms(3,2)] by (simp add: object_update_def)

lemma addr_ref: "addr_ok b k \<Longrightarrow> object_ref_ok (b, k, None)" "addr_ok b k \<Longrightarrow> length w = 16 \<Longrightarrow> object_ref_ok (b, k, Some w)"
  by (simp_all add: addr_ok_def object_ref_ok_def)

lemma current_of:
  assumes "objects_ok db" "addr_ok b k" "tip_is db b k ns mr" "kv_get db (object_key b k) = map_option VObject l"
  shows "get_current_version db b k = Inr (d1a_pick_current l ns mr)"
  using get_object_eqI [OF assms(4)] tip_eqI [OF assms(1-3)] by (simp add: get_current_version_def)

text \<open>
  After an entry is written where the plan of the bucket's state puts it, it is the current one. The
  common part of PUT and of the delete marker.
\<close>

lemma write_is_current:
  assumes "objects_ok db" "addr_ok b k" "key_ok db b k" "object_update db db' (entry_key b k w) (Some (VObject m))"
    "v = Enabled \<longrightarrow> (\<exists>x. w = Some x \<and> next_vk e db b k = Inr x)" "e_rnd e = Inr r" "length r = 8"
    "v = Suspended \<longrightarrow> w = (if get_object db b k = Inr None then Some VK_NULL else None) \<and>
       null_family_mtime e db b k = Inr (om_mtime m)"
    "v = Off \<longrightarrow> w = None"
  shows "objects_ok db' \<and> (\<exists>x. get_current_version_for db' b k v = Inr (Some (x, m))) \<and> object_ref_ok (b, k, w) \<and>
    (v = Enabled \<longrightarrow> kv_get db (entry_key b k w) = None)"
proof -
  obtain ns mr where tip: "version_scan_tip db b k = Inr (ns, mr)" "tip_is db b k ns mr" using tip_char [OF assms(1,2)] by blast
  obtain l where l: "get_object db b k = Inr l" "kv_get db (object_key b k) = map_option VObject l"
    using get_object_char [OF assms(1,2)] by blast
  obtain vk where vk: "next_vk e db b k = Inr vk" "length vk = 16" "vk \<noteq> VK_NULL"
    "\<And>x. length x = 16 \<Longrightarrow> x \<noteq> VK_NULL \<Longrightarrow> kv_get db (object_version_key b k x) \<noteq> None \<Longrightarrow> x < vk"
    "\<And>n. VObject n \<in> set_option (kv_get db (object_key b k)) \<union> set_option (kv_get db (object_version_key b k VK_NULL))
       \<Longrightarrow> om_mtime n \<le> vk_secs vk"
    using next_vk_spec [OF assms(1-3,6,7)] by blast
  have w: "object_ref_ok (b, k, w)"
    using assms(5,8,9) vk addr_ref [OF assms(2)] by (cases v) auto
  have ok: "objects_ok db'" using objects_ok_update [OF assms(1,4) w] by simp
  have g: "kv_get db' (object_key b k) = (if w = None then Some (VObject m) else kv_get db (object_key b k))"
    using update_get [OF assms(4) w addr_ref(1) [OF assms(2)]] by (auto simp: entry_key_def)
  have gv: "kv_get db' (object_version_key b k x) = (if w = Some x then Some (VObject m) else kv_get db (object_version_key b k x))"
    if "length x = 16" for x
    using update_get [OF assms(4) w addr_ref(2) [OF assms(2) that]] by (auto simp: entry_key_def)
  show ?thesis
  proof (cases v)
    case Off
    with g assms(9) have "get_object db' b k = Inr (Some m)" by (intro get_object_eqI) simp
    with Off ok w show ?thesis by (simp add: get_current_version_for_def)
  next
    case Enabled
    with assms(5) vk(1) have we: "w = Some vk" by auto
    have none: "kv_get db (object_version_key b k vk) = None" using vk(4) [OF vk(2,3)] by blast
    have "tip_is db' b k ns (Some (vk, m))"
      using tip(2) vk(2,3,4) gv by (auto simp: tip_is_def we less_imp_le)
    moreover have "kv_get db' (object_key b k) = map_option VObject l" using g l(2) by (simp add: we)
    ultimately have "get_current_version db' b k = Inr (d1a_pick_current l ns (Some (vk, m)))"
      by (intro current_of [OF ok assms(2)])
    moreover have "d1a_pick_current l ns (Some (vk, m)) = Some (vk, m)"
      using vk(5) l(2) tip(2) by (auto simp: d1a_pick_current_def null_family_def tip_is_def split: option.splits) fastforce+
    ultimately show ?thesis using Enabled ok w none by (simp add: get_current_version_for_def we entry_key_def)
  next
    case Suspended
    have later: "\<forall>x n. mr = Some (x, n) \<longrightarrow> vk_secs x < om_mtime m"
      using Suspended assms(8) tip(1) by (auto simp: null_family_mtime_def)
    have one: "\<not> (l \<noteq> None \<and> ns \<noteq> None)" using assms(3) l(2) tip(2) by (auto simp: key_ok_def tip_is_def)
    show ?thesis
    proof (cases l)
      case None
      then have we: "w = Some VK_NULL" using Suspended assms(8) l(1) by simp
      have "tip_is db' b k (Some m) mr" using tip(2) gv by (auto simp: tip_is_def we split: option.splits)
      then have "get_current_version db' b k = Inr (d1a_pick_current None (Some m) mr)"
        using g l(2) None by (intro current_of [OF ok assms(2)]) (simp_all add: we)
      then show ?thesis using Suspended ok w later
        by (auto simp: get_current_version_for_def d1a_pick_current_def null_family_def split: option.splits)
    next
      case (Some x)
      then have we: "w = None" using Suspended assms(8) l(1) by simp
      have "tip_is db' b k ns mr" using tip(2) gv by (auto simp: tip_is_def we split: option.splits)
      then have "get_current_version db' b k = Inr (d1a_pick_current (Some m) None mr)"
        using g one Some by (intro current_of [OF ok assms(2)]) (simp_all add: we)
      then show ?thesis using Suspended ok w later
        by (auto simp: get_current_version_for_def d1a_pick_current_def null_family_def split: option.splits)
    qed
  qed
qed

lemma plan_target:
  assumes "plan_object_write e db b k v = Inr (target, old)"
  shows "v = Enabled \<longrightarrow> (\<exists>x. target_version_key target = Some x \<and> next_vk e db b k = Inr x)"
    "v = Suspended \<longrightarrow> target_version_key target = (if get_object db b k = Inr None then Some VK_NULL else None) \<and>
       target \<in> {NullSlot, LegacySlot}"
    "v = Off \<longrightarrow> target_version_key target = None"
  using assms by (auto simp: plan_object_write_def bind_res_eq_Inr split: versioning_state.splits option.splits)

lemma put_current:
  assumes "objects_ok db" "addr_ok b k" "key_ok db b k" "e_rnd e = Inr r" "length r = 8"
    "put_object_meta e v b k proto None draft ev db = (db', Inr m)"
  shows "\<exists>w t. objects_ok db' \<and> resolve_object db' b k None (Some v) = Inr m \<and>
    m = proto\<lparr>om_mtime := t, om_version_id := om_version_id m, om_is_delete_marker := False, om_restore_state := None\<rparr> \<and>
    object_ref_ok (b, k, w) \<and> object_update db db' (entry_key b k w) (Some (VObject m)) \<and>
    (v = Enabled \<longrightarrow> kv_get db (entry_key b k w) = None)"
proof -
  have wf: "kv_wf db" using assms(1) by (simp add: objects_ok_def)
  obtain target old t where p: "plan_object_write e db b k v = Inr (target, old)" "write_mtime e target db b k = Inr t"
    "m = proto\<lparr>om_mtime := t, om_version_id := meta_version_id target, om_is_delete_marker := False, om_restore_state := None\<rparr>"
    "object_update db db' (entry_key b k (target_version_key target)) (Some (VObject m))"
    using put_effect [OF assms(6) wf] by auto
  have "v = Suspended \<longrightarrow> null_family_mtime e db b k = Inr (om_mtime m)"
    using plan_target(2) [OF p(1)] p(2,3) by (auto simp: write_mtime_def)
  then have c: "objects_ok db' \<and> (\<exists>x. get_current_version_for db' b k v = Inr (Some (x, m))) \<and>
      object_ref_ok (b, k, target_version_key target) \<and>
      (v = Enabled \<longrightarrow> kv_get db (entry_key b k (target_version_key target)) = None)"
    using plan_target [OF p(1)] by (intro write_is_current [OF assms(1-3) p(4) _ assms(4,5)]) auto
  then have "resolve_object db' b k None (Some v) = Inr m"
    using p(3) by (auto simp: resolve_object_def resolve_object_entry_def)
  with c p(3,4) show ?thesis by (intro exI [of _ "target_version_key target"] exI [of _ t]) simp
qed

text \<open>
  C19. A GET after a successful PUT returns the entry the PUT reports, in every state of the bucket: data,
  headers, tags, encryption and retention are those of the request. In a bucket with versioning
  enabled every entry that was readable before is still there; in every bucket all other objects are
  untouched.
\<close>

theorem put_then_get:
  assumes "objects_ok db" "addr_ok b k" "key_ok db b k" "e_rnd e = Inr r" "length r = 8"
    "put_object_meta e v b k proto None draft ev db = (db', Inr m)"
  shows "resolve_object db' b k None (Some v) = Inr m \<and> objects_ok db' \<and>
    (\<exists>t i. m = proto\<lparr>om_mtime := t, om_version_id := i, om_is_delete_marker := False, om_restore_state := None\<rparr>) \<and>
    (\<forall>x. object_ref_ok x \<longrightarrow> v = Enabled \<or> (fst x, fst (snd x)) \<noteq> (b, k) \<longrightarrow>
       kv_get db (object_ref_key x) \<noteq> None \<longrightarrow> kv_get db' (object_ref_key x) = kv_get db (object_ref_key x))"
proof -
  obtain w t where a: "objects_ok db'" "resolve_object db' b k None (Some v) = Inr m"
    "m = proto\<lparr>om_mtime := t, om_version_id := om_version_id m, om_is_delete_marker := False, om_restore_state := None\<rparr>"
    "object_ref_ok (b, k, w)" "object_update db db' (entry_key b k w) (Some (VObject m))"
    "v = Enabled \<longrightarrow> kv_get db (entry_key b k w) = None"
    using put_current [OF assms] by blast
  have "kv_get db' (object_ref_key x) = kv_get db (object_ref_key x)"
    if h: "object_ref_ok x" "v = Enabled \<or> (fst x, fst (snd x)) \<noteq> (b, k)" "kv_get db (object_ref_key x) \<noteq> None" for x
  proof -
    obtain b' k' w' where x: "x = (b', k', w')" by (cases x)
    have "(b', k', w') \<noteq> (b, k, w)" using h(2,3) a(6) by (auto simp: x entry_key_ref)
    then show ?thesis using update_get [OF a(5,4) h(1) [unfolded x]] by (auto simp: x entry_key_ref)
  qed
  with a show ?thesis by blast
qed

text \<open>
  C23. A DELETE without version id in a bucket with versioning: the key reads as deleted afterwards, and in
  the enabled state every entry that was there still is.
\<close>

theorem delete_marker_hides:
  assumes "objects_ok db" "addr_ok b k" "key_ok db b k" "e_rnd e = Inr r" "length r = 8" "v \<noteq> Off"
    "delete_version_inner e b k None v bypass skip_lock draft ev db = (db', Inr res)"
  shows "resolve_object db' b k None (Some v) = Inl DeleteMarker \<and> objects_ok db' \<and>
    (\<forall>x. object_ref_ok x \<longrightarrow> v = Enabled \<or> (fst x, fst (snd x)) \<noteq> (b, k) \<longrightarrow>
       kv_get db (object_ref_key x) \<noteq> None \<longrightarrow> kv_get db' (object_ref_key x) = kv_get db (object_ref_key x))"
proof -
  have wf: "kv_wf db" using assms(1) by (simp add: objects_ok_def)
  have "delete_current_marker e b k v draft ev db = (db', Inr res)"
    using assms(6,7) by (auto simp: delete_version_inner_def split: versioning_state.splits)
  from marker_effect [OF this wf] obtain w old mk where p: "om_is_delete_marker mk"
    "if v = Enabled then (\<exists>x. next_vk e db b k = Inr x \<and> w = Some x) \<and> old = None
     else (case get_object db b k of Inr (Some l) \<Rightarrow> w = None \<and> old = Some l
           | Inr None \<Rightarrow> w = Some VK_NULL \<and> get_object_version db b k VK_NULL = Inr old | Inl _ \<Rightarrow> False)"
    "v = Suspended \<longrightarrow> null_family_mtime e db b k = Inr (om_mtime mk)"
    "object_update db db' (entry_key b k w) (Some (VObject mk))" by blast
  have c: "objects_ok db' \<and> (\<exists>x. get_current_version_for db' b k v = Inr (Some (x, mk))) \<and> object_ref_ok (b, k, w) \<and>
      (v = Enabled \<longrightarrow> kv_get db (entry_key b k w) = None)"
    using p(2,3) assms(6)
    by (intro write_is_current [OF assms(1-3) p(4) _ assms(4,5)]) (auto split: sum.splits option.splits)
  then have "resolve_object db' b k None (Some v) = Inl DeleteMarker"
    using p(1) by (auto simp: resolve_object_def resolve_object_entry_def)
  moreover have "kv_get db' (object_ref_key x) = kv_get db (object_ref_key x)"
    if h: "object_ref_ok x" "v = Enabled \<or> (fst x, fst (snd x)) \<noteq> (b, k)" "kv_get db (object_ref_key x) \<noteq> None" for x
  proof -
    obtain b' k' w' where x: "x = (b', k', w')" by (cases x)
    have "(b', k', w') \<noteq> (b, k, w)" using h(2,3) c by (auto simp: x entry_key_ref)
    then show ?thesis using update_get [OF p(4) _ h(1) [unfolded x]] c by (auto simp: x entry_key_ref)
  qed
  ultimately show ?thesis using c by blast
qed

section \<open>A PUT succeeds\<close>

text \<open>The system counters are readable and the base of the epoch is not ahead of the sequence.\<close>

definition sys_ok :: "write_env \<Rightarrow> db \<Rightarrow> bool" where
  "sys_ok e db \<longleftrightarrow>
     (case read_u64 db SYS_SEQ 0 of
        Inl _ \<Rightarrow> False
      | Inr c \<Rightarrow> e_binlog e \<longrightarrow>
          (case (read_u64 db SYS_REPL_EPOCH REPL_INITIAL_EPOCH, read_u64 db SYS_REPL_EBASE 0) of
             (Inr _, Inr base) \<Rightarrow> base \<le> c + 1 | _ \<Rightarrow> False))"

lemma repl_key_neq: "\<forall>p \<in> set [PREFIX_OBJECT, PREFIX_ALLOC, PREFIX_TXN, PREFIX_BUCKET, PREFIX_EVENT].
    \<not> prefix p SYS_REPL_EPOCH \<and> \<not> prefix p SYS_REPL_EBASE"
  by (simp add: prefix_defs lit_def)

lemma commit_ok:
  assumes "sys_ok e db" "kv_wf db" "\<And>mode s. apply_op mode s p db = Inr d1" "op_families p = [PREFIX_OBJECT]"
    "kv_get d1 (bucket_key b) = Some (VBucket bm)"
  shows "\<exists>db' s. env_commit e (with_event [p, Alloc draft, Stats b delta] ev) db = (db', Inr s)"
proof -
  let ?mode = "Commit (e_binlog e) (e_now_ts e)"
  let ?evs = "case ev of Some r \<Rightarrow> [EventEnqueue r] | None \<Rightarrow> []"
  let ?ops = "with_event [p, Alloc draft, Stats b delta] ev"
  obtain c where c: "read_u64 db SYS_SEQ 0 = Inr c" using assms(1) by (auto simp: sys_ok_def split: sum.splits)
  have w1: "kv_wf d1" using op_wf [OF assms(3,2)] .
  obtain d2 where e2: "op_alloc ?mode (c + 1) draft d1 = Inr d2"
    by (cases "draft_is_empty draft") (simp_all add: op_alloc_def Let_def)
  have w2: "kv_wf d2" using op_wf [of ?mode "c + 1" "Alloc draft" d1 d2] e2 w1 by simp
  have "kv_get d2 (bucket_key b) = Some (VBucket bm)"
    using op_frame [of ?mode "c + 1" "Alloc draft" d1 d2 "bucket_key b"] e2 w1 assms(5) bucket_family [OF key_prefixes(1)]
    by (simp add: outside_Cons)
  then obtain d3 where e3: "op_stats b delta d2 = Inr d3"
    by (simp add: op_stats_def update_bucket_def require_bucket_def ok_or_def)
  obtain d4 where e4: "apply_each ?mode (c + 1) ?evs d3 = Inr d4"
    by (cases ev) (simp_all add: op_event_enqueue_def)
  have each: "apply_each ?mode (c + 1) ?ops db = Inr d4" using assms(3) e2 e3 e4 by (simp add: with_event_def)
  have out: "\<forall>q \<in> set ?ops. outside (op_families q) SYS_REPL_EPOCH \<and> outside (op_families q) SYS_REPL_EBASE"
    using repl_key_neq assms(4) by (cases ev) (simp_all add: with_event_def outside_Cons)
  then have fr: "kv_get d4 SYS_REPL_EPOCH = kv_get db SYS_REPL_EPOCH" "kv_get d4 SYS_REPL_EBASE = kv_get db SYS_REPL_EBASE"
    using each_wf_frame [OF each assms(2)] by blast+
  then have "read_u64 d4 SYS_REPL_EPOCH x = read_u64 db SYS_REPL_EPOCH x" "read_u64 d4 SYS_REPL_EBASE x = read_u64 db SYS_REPL_EBASE x" for x
    by (simp_all add: read_u64_def)
  then obtain d5 where "write_binlog ?mode (c + 1) ?ops d4 = Inr d5"
    using assms(1) c by (cases "e_binlog e") (auto simp: sys_ok_def not_less split: sum.splits)
  then have "apply_ops db ?ops ?mode = Inr (put_u64 SYS_SEQ (c + 1) d5, c + 1)"
    using c each by (simp add: apply_ops_def)
  then show ?thesis by (simp add: env_commit_def commit_def)
qed

definition sizes_ok :: "db \<Rightarrow> bool" where
  "sizes_ok db \<longleftrightarrow> (\<forall>(k, v) \<in> set db. case v of VObject m \<Rightarrow> om_size m \<le> MAX_OBJECT_SIZE | _ \<Rightarrow> True)"

lemma sint_small:
  assumes "uint (w :: u64) < 2 ^ 63"
  shows "sint w = uint w"
proof -
  have "- (2 ^ 63) \<le> uint w" by (rule order_trans [of _ 0]) simp_all
  with assms show ?thesis by (simp add: sint_uint signed_take_bit_int_eq_self)
qed

lemma size_small: "n \<le> MAX_OBJECT_SIZE \<Longrightarrow> sint n = uint n \<and> uint n \<le> 5497558138880"
  using sint_small [of n] by (simp add: MAX_OBJECT_SIZE_def word_le_def)

lemma sizes_okD: "sizes_ok db \<Longrightarrow> kv_wf db \<Longrightarrow> kv_get db k = Some (VObject m) \<Longrightarrow> om_size m \<le> MAX_OBJECT_SIZE"
  unfolding sizes_ok_def by (auto simp: kv_get_iff)

lemma quota_mono: "check_quota db b d = Inr () \<Longrightarrow> d' \<le> d \<Longrightarrow> check_quota db b d' = Inr ()"
  by (cases "get_bucket db b") (auto simp: check_quota_def split: option.splits if_splits)

lemma old_view_size:
  assumes "sizes_ok db" "kv_wf db" "kv_get db q = map_option VObject old"
  shows "0 \<le> ov_size (old_view old)"
  using sizes_okD [OF assms(1,2)] size_small assms(3)
  by (cases old) (auto simp: old_view_def old_default_def)

lemma plan_ok:
  assumes "objects_ok db" "addr_ok b k" "key_ok db b k" "sizes_ok db" "e_rnd e = Inr r" "length r = 8"
  shows "\<exists>target old t. plan_object_write e db b k v = Inr (target, old) \<and> 0 \<le> ov_size old \<and>
    write_mtime e target db b k = Inr t"
proof -
  have wf: "kv_wf db" using assms(1) by (simp add: objects_ok_def)
  obtain l where l: "get_object db b k = Inr l" "kv_get db (object_key b k) = map_option VObject l"
    using get_object_char [OF assms(1,2)] by blast
  obtain n where n: "get_object_version db b k VK_NULL = Inr n" "kv_get db (object_version_key b k VK_NULL) = map_option VObject n"
    using get_version_char [OF assms(1,2)] by blast
  obtain vk where vk: "next_vk e db b k = Inr vk" using next_vk_spec [OF assms(1-3,5,6)] by blast
  obtain ns mr where "version_scan_tip db b k = Inr (ns, mr)" using tip_char [OF assms(1,2)] by blast
  then have "\<exists>t. write_mtime e target db b k = Inr t" for target
    by (auto simp: write_mtime_def null_family_mtime_def split: option.splits)
  moreover have "\<exists>target old. plan_object_write e db b k v = Inr (target, old) \<and> 0 \<le> ov_size old"
    using l n vk old_view_size [OF assms(4) wf l(2)] old_view_size [OF assms(4) wf n(2)]
    by (cases v; cases l) (auto simp: plan_object_write_def old_default_def)
  ultimately show ?thesis by blast
qed

lemma put_accepted:
  assumes "objects_ok db" "addr_ok b k" "key_ok db b k" "sizes_ok db" "e_rnd e = Inr r" "length r = 8" "sys_ok e db"
    "get_bucket db b = Inr (Some bm)" "check_quota db b (sint (om_size proto)) = Inr ()" "om_size proto \<le> MAX_OBJECT_SIZE"
  shows "\<exists>db' m. put_object_meta e v b k proto None draft ev db = (db', Inr m)"
proof -
  have wf: "kv_wf db" using assms(1) by (simp add: objects_ok_def)
  have bm: "kv_get db (bucket_key b) = Some (VBucket bm)"
    using assms(8) by (auto simp: get_bucket_def bind_res_eq_Inr split: option.splits elim: decode_bucket.elims)
  obtain target old t where p: "plan_object_write e db b k v = Inr (target, old)" "0 \<le> ov_size old"
    "write_mtime e target db b k = Inr t" using plan_ok [OF assms(1-6)] by blast
  define m where "m = proto\<lparr>om_mtime := t, om_version_id := meta_version_id target, om_is_delete_marker := False,
     om_restore_state := None\<rparr>"
  have q: "check_quota db b (sd_bytes (put_delta old m)) = Inr ()"
    using quota_mono [OF assms(9)] p(2) by (simp add: put_delta_def m_def)
  have put: "kv_get (kv_put (entry_key b k w) x db) (bucket_key b) = Some (VBucket bm)" for w x
    using wf bm object_not_bucket [OF entry_key_object, of b k w b] by (simp add: store.get_put)
  have "\<exists>db' s. commit_put_plan e b k target m draft (put_delta old m) ev db = (db', Inr s)"
  proof (cases "target_version_key target")
    case None
    have "apply_op mode s (ObjectPut b k m) db = Inr (kv_put (entry_key b k None) (VObject m) db)" for mode s
      using bm by (simp add: op_object_put_def require_bucket_def ok_or_def entry_key_def)
    from commit_ok [OF assms(7) wf this _ put] show ?thesis
      using None assms(10) by (simp add: commit_put_plan_def commit_object_put_def Let_def m_def)
  next
    case (Some vk)
    have "apply_op mode s (ObjectPutVersion b k vk m) db = Inr (kv_put (entry_key b k (Some vk)) (VObject m) db)" for mode s
      using bm by (simp add: op_object_put_version_def require_bucket_def ok_or_def entry_key_def m_def)
    from commit_ok [OF assms(7) wf this _ put] show ?thesis
      using Some assms(10) by (simp add: commit_put_plan_def commit_object_put_version_def Let_def m_def)
  qed
  then show ?thesis using p q unfolding m_def by (auto simp: put_object_meta_def Let_def)
qed

text \<open>
  C22. A PUT is accepted whenever the bucket exists, the object is within the size limit, the quota leaves
  room for it and the store's counters are intact.
\<close>

theorem put_succeeds:
  assumes "objects_ok db" "addr_ok b k" "key_ok db b k" "sizes_ok db" "e_rnd e = Inr r" "length r = 8" "sys_ok e db"
    "get_bucket db b = Inr (Some bm)" "check_quota db b (sint (om_size proto)) = Inr ()" "om_size proto \<le> MAX_OBJECT_SIZE"
  shows "\<exists>db' m. put_object_meta e v b k proto None draft ev db = (db', Inr m)"
  by (rule put_accepted [OF assms])

lemma marker_accepted:
  assumes "objects_ok db" "addr_ok b k" "key_ok db b k" "e_rnd e = Inr r" "length r = 8" "sys_ok e db"
    "get_bucket db b = Inr (Some bm)" "v \<noteq> Off"
  shows "\<exists>db' res. delete_version_inner e b k None v bypass skip_lock draft ev db = (db', Inr res)"
proof -
  have wf: "kv_wf db" using assms(1) by (simp add: objects_ok_def)
  have bm: "kv_get db (bucket_key b) = Some (VBucket bm)"
    using assms(7) by (auto simp: get_bucket_def bind_res_eq_Inr split: option.splits elim: decode_bucket.elims)
  obtain l where l: "get_object db b k = Inr l" using get_object_char [OF assms(1,2)] by blast
  obtain n where n: "get_object_version db b k VK_NULL = Inr n" using get_version_char [OF assms(1,2)] by blast
  obtain vk where vk: "next_vk e db b k = Inr vk" using next_vk_spec [OF assms(1-5)] by blast
  obtain ns mr where "version_scan_tip db b k = Inr (ns, mr)" using tip_char [OF assms(1,2)] by blast
  then obtain t where t: "null_family_mtime e db b k = Inr t"
    by (cases mr) (auto simp: null_family_mtime_def)
  have put: "kv_get (kv_put (entry_key b k w) x db) (bucket_key b) = Some (VBucket bm)" for w x
    using wf bm object_not_bucket [OF entry_key_object, of b k w b] by (simp add: store.get_put)
  have c: "\<exists>db' s. commit_object_delete_current e b k w (delete_marker_meta now vid) draft delta er db = (db', Inr s)"
    "\<exists>db' s. commit_object_delete_current e b k w ((delete_marker_meta now vid)\<lparr>om_mtime := u\<rparr>) draft delta er db = (db', Inr s)"
    for w now vid delta er u
  proof -
    have "apply_op mode s (ObjectDeleteCurrent b k w mk) db = Inr (kv_put (entry_key b k w) (VObject mk) db)"
      if "mk = delete_marker_meta now vid \<or> mk = (delete_marker_meta now vid)\<lparr>om_mtime := u\<rparr>" for mode s mk
      using bm that by (auto simp: op_object_delete_current_def require_bucket_def ok_or_def delete_marker_meta_def)
    from commit_ok [OF assms(6) wf this _ put]
    show "\<exists>db' s. commit_object_delete_current e b k w (delete_marker_meta now vid) draft delta er db = (db', Inr s)"
      "\<exists>db' s. commit_object_delete_current e b k w ((delete_marker_meta now vid)\<lparr>om_mtime := u\<rparr>) draft delta er db = (db', Inr s)"
      by (simp_all add: commit_object_delete_current_def)
  qed
  have pack: "\<exists>d s. x = (d, Inr s) \<Longrightarrow> \<exists>db' res. (case x of (db', q) \<Rightarrow> (db', bind_res q (\<lambda>_. Inr y))) = (db', Inr res)"
    for x :: "db \<times> u64 result" and y :: "object_meta option" by auto
  have "\<exists>db' res. delete_current_marker e b k v draft ev db = (db', Inr res)"
    using assms(8) by (cases v; cases l) (simp_all add: delete_current_marker_def l n vk t Let_def pack c)
  then show ?thesis using assms(8) by (cases v) (auto simp: delete_version_inner_def)
qed

section \<open>Witnesses\<close>

definition demo_env :: write_env where
  "demo_env = \<lparr>e_now_ts = 1700000000, e_now_us = 1700000000000000, e_rnd = Inr [1, 2, 3, 4, 5, 6, 7, 8],
     e_lock_now = 1700000000, e_binlog = True, e_event_max = 10\<rparr>"

definition demo_bucket :: bucket_meta where
  "demo_bucket = \<lparr>bk_created = 0, bk_owner = [], bk_stats = \<lparr>bs_objects = 0, bs_bytes = 0, bs_by_class = []\<rparr>,
     bk_quota = Some 100, bk_created_with_acl = False, bk_versioning = Enabled, bk_default_encryption = None,
     bk_object_lock = False, bk_default_retention = None, bk_default_kms_key = None\<rparr>"

definition demo_object :: object_meta where
  "demo_object = (delete_marker_meta 0 None)\<lparr>om_size := 3, om_inline := Some [1, 2, 3]\<rparr>"

definition demo_store :: db where
  "demo_store = [(bucket_key (lit ''b''), VBucket demo_bucket)]"

definition demo_draft :: alloc_draft where
  "demo_draft = \<lparr>d_alloc = [], d_ref_inc = [], d_ref_dec = []\<rparr>"

lemma demo_get: "kv_get demo_store q = (if q = bucket_key (lit ''b'') then Some (VBucket demo_bucket) else None)"
  by (simp add: demo_store_def kv_get_def)

lemma demo_get_object: "prefix PREFIX_OBJECT q \<Longrightarrow> kv_get demo_store q = None"
  using object_not_bucket by (auto simp: demo_get)

lemma demo_store_ok: "objects_ok demo_store" "addr_ok (lit ''b'') (lit ''k'')" "key_ok demo_store (lit ''b'') (lit ''k'')"
  "sizes_ok demo_store" "e_rnd demo_env = Inr [1, 2, 3, 4, 5, 6, 7, 8]" "length [1, 2, 3, 4, 5, 6, 7, 8 :: u8] = 8"
  "sys_ok demo_env demo_store" "get_bucket demo_store (lit ''b'') = Inr (Some demo_bucket)"
proof -
  have wf: "kv_wf demo_store" by (simp add: demo_store_def kv_wf_def)
  then show "objects_ok demo_store" using demo_get_object by (auto simp: objects_ok_def)
  show "addr_ok (lit ''b'') (lit ''k'')" by code_simp
  have "kv_get demo_store q = None" if "prefix (object_key_prefix (lit ''b'') (lit ''k'')) q" for q
    using demo_get_object prefix_order.trans [OF key_prefix_object that] by blast
  then have "scan_prefix demo_store (object_key_prefix (lit ''b'') (lit ''k'')) = []"
    by (auto simp: store.set_scan [OF wf] simp flip: set_empty)
  then show "key_ok demo_store (lit ''b'') (lit ''k'')"
    by (simp add: key_ok_def demo_get_object null_time_ok_def)
  show "sizes_ok demo_store" by (simp add: sizes_ok_def demo_store_def)
  show "sys_ok demo_env demo_store"
    by (simp add: sys_ok_def demo_store_def read_u64_def kv_get_def prefix_defs lit_def bucket_key_def)
  show "get_bucket demo_store (lit ''b'') = Inr (Some demo_bucket)" by (simp add: get_bucket_def demo_get)
qed (simp_all add: demo_env_def)

lemma demo_quota: "check_quota demo_store (lit ''b'') (sint (om_size demo_object)) = Inr ()"
  "om_size demo_object \<le> MAX_OBJECT_SIZE"
  using demo_store_ok(8) by (simp_all add: check_quota_def demo_bucket_def demo_object_def MAX_OBJECT_SIZE_def)

theorem put_succeeds_witness:
  "\<exists>db' m. put_object_meta demo_env Suspended (lit ''b'') (lit ''k'') demo_object None demo_draft None demo_store = (db', Inr m)"
  using put_succeeds [OF demo_store_ok demo_quota] by blast

theorem put_then_get_witness:
  "\<exists>db' m. put_object_meta demo_env Enabled (lit ''b'') (lit ''k'') demo_object None demo_draft None demo_store = (db', Inr m) \<and>
     resolve_object db' (lit ''b'') (lit ''k'') None (Some Enabled) = Inr m \<and> om_inline m = Some [1, 2, 3]"
proof -
  obtain db' m where p: "put_object_meta demo_env Enabled (lit ''b'') (lit ''k'') demo_object None demo_draft None demo_store = (db', Inr m)"
    using put_accepted [OF demo_store_ok demo_quota] by blast
  from put_then_get [OF demo_store_ok(1-3,5,6) p] p show ?thesis by (auto simp: demo_object_def)
qed

theorem delete_marker_hides_witness:
  "\<exists>db' res. delete_version_inner demo_env (lit ''b'') (lit ''k'') None Suspended False False demo_draft None demo_store = (db', Inr res) \<and>
     resolve_object db' (lit ''b'') (lit ''k'') None (Some Suspended) = Inl DeleteMarker"
proof -
  obtain db' res where p: "delete_version_inner demo_env (lit ''b'') (lit ''k'') None Suspended False False demo_draft None demo_store = (db', Inr res)"
    using marker_accepted [OF demo_store_ok(1-3,5-8)] by blast
  from delete_marker_hides [OF demo_store_ok(1-3,5,6) _ p] p show ?thesis by auto
qed

theorem version_scan_tip_exact_witness:
  "\<exists>vs. list_key_versions demo_store (lit ''b'') (lit ''k'') = Inr vs"
  using version_scan_tip_exact [OF demo_store_ok(1,2)] by auto

end
