(* ===== verification/Bucket_Stats.thy ===== *)
theory Bucket_Stats
  imports Version_Writes
begin

text \<open>
  The statistics of a bucket follow its objects: requests, the weight of a bucket's entries, and the
  invariant that the stored counters and class tallies are exactly the weights.
\<close>

section \<open>Weights\<close>

definition weight :: "(stored \<Rightarrow> int) \<Rightarrow> db \<Rightarrow> bytes \<Rightarrow> int" where
  "weight w db b = sum_list (map (\<lambda>(_, v). w v) (scan_prefix db (object_prefix b)))"

definition opt_weight :: "(stored \<Rightarrow> int) \<Rightarrow> stored option \<Rightarrow> int" where
  "opt_weight w r = (case r of Some v \<Rightarrow> w v | None \<Rightarrow> 0)"

lemma opt_weight_simps [simp]: "opt_weight w None = 0" "opt_weight w (Some v) = w v"
  by (simp_all add: opt_weight_def)

lemma scan_keys:
  assumes "kv_wf db"
  shows "fst ` set (scan_prefix db p) = {q. prefix p q \<and> kv_get db q \<noteq> None}"
proof (intro equalityI subsetI)
  fix q assume "q \<in> {q. prefix p q \<and> kv_get db q \<noteq> None}"
  then obtain v where "(q, v) \<in> set (scan_prefix db p)" by (auto simp: store.set_scan [OF assms])
  then show "q \<in> fst ` set (scan_prefix db p)" by (rule image_eqI [rotated]) simp
qed (auto simp: store.set_scan [OF assms])

lemma weight_sum: "kv_wf db \<Longrightarrow> weight w db b = (\<Sum>q | prefix (object_prefix b) q \<and> kv_get db q \<noteq> None. opt_weight w (kv_get db q))"
proof -
  assume wf: "kv_wf db"
  let ?s = "scan_prefix db (object_prefix b)"
  have d: "distinct ?s" using store.sorted_scan [OF wf, of "object_prefix b"] by (auto simp: strict_sorted_iff distinct_map)
  have inj: "inj_on fst (set ?s)" using store.sorted_scan [OF wf, of "object_prefix b"] by (simp add: strict_sorted_iff distinct_map)
  have img: "fst ` set ?s = {q. prefix (object_prefix b) q \<and> kv_get db q \<noteq> None}"
    by (rule scan_keys [OF wf])
  have "weight w db b = (\<Sum>x \<in> set ?s. opt_weight w (kv_get db (fst x)))"
    using d store.set_scan [OF wf, of "object_prefix b"]
    by (auto simp: weight_def sum_list_distinct_conv_sum_set intro!: sum.cong)
  also have "\<dots> = (\<Sum>q \<in> fst ` set ?s. opt_weight w (kv_get db q))" by (simp add: sum.reindex [OF inj])
  finally show ?thesis by (simp add: img)
qed

lemma finite_entries: "kv_wf db \<Longrightarrow> finite {q. prefix p q \<and> kv_get db q \<noteq> None}"
  using scan_keys [of db p] by (metis finite_imageI finite_set)

lemma in_bucket:
  assumes "object_ref_ok (b, k, x)" "name_ok b'"
  shows "prefix (object_prefix b') (entry_key b k x) \<longleftrightarrow> b' = b"
  using scan_exact [of b' b k x] assms by (simp add: entry_key_ref name_ok_def)

lemma weight_update:
  assumes "object_update db db' (entry_key b k x) r" "object_ref_ok (b, k, x)" "kv_wf db" "name_ok b'"
  shows "weight w db' b' = weight w db b' + (if b' = b then opt_weight w r - opt_weight w (kv_get db (entry_key b k x)) else 0)"
proof -
  let ?e = "entry_key b k x"
  let ?D = "\<lambda>d. {q. prefix (object_prefix b') q \<and> kv_get d q \<noteq> None}"
  let ?A = "?D db - {?e}"
  have wf': "kv_wf db'" using assms(1) by (simp add: object_update_def)
  have obj: "prefix PREFIX_OBJECT q" if "prefix (object_prefix b') q" for q
    using that by (auto simp: object_prefix_def prefix_def)
  have g: "kv_get db' q = (if q = ?e then r else kv_get db q)" if "prefix (object_prefix b') q" for q
    using assms(1) obj [OF that] by (simp add: object_update_def)
  have fin: "finite ?A" using finite_entries [OF assms(3)] by simp
  have split: "weight w d b' = (\<Sum>q \<in> ?A. opt_weight w (kv_get db q)) +
      (if prefix (object_prefix b') ?e then opt_weight w (kv_get d ?e) else 0)"
    if d: "kv_wf d" "\<And>q. prefix (object_prefix b') q \<Longrightarrow> q \<noteq> ?e \<Longrightarrow> kv_get d q = kv_get db q" for d
  proof -
    have e: "?D d - {?e} = ?A" using d(2) by auto
    have "(\<Sum>q \<in> ?D d. opt_weight w (kv_get d q)) = (\<Sum>q \<in> ?D d - {?e}. opt_weight w (kv_get d q)) +
        (if ?e \<in> ?D d then opt_weight w (kv_get d ?e) else 0)"
      using finite_entries [OF d(1)] by (simp add: sum.remove)
    also have "(\<Sum>q \<in> ?D d - {?e}. opt_weight w (kv_get d q)) = (\<Sum>q \<in> ?A. opt_weight w (kv_get db q))"
      unfolding e using d(2) by (intro sum.cong) auto
    finally show ?thesis unfolding weight_sum [OF d(1)] by auto
  qed
  show ?thesis
    using split [OF assms(3)] split [OF wf'] g in_bucket [OF assms(2,4)] by auto
qed

lemma weight_ge:
  assumes "kv_wf db" "kv_get db (entry_key b k x) = Some v" "object_ref_ok (b, k, x)" "\<And>v. 0 \<le> w v"
  shows "w v \<le> weight w db b"
proof -
  let ?D = "{q. prefix (object_prefix b) q \<and> kv_get db q \<noteq> None}"
  have "name_ok b" using assms(3) by (simp add: object_ref_ok_def)
  then have "entry_key b k x \<in> ?D" using in_bucket [OF assms(3)] assms(2) by simp
  then have "opt_weight w (kv_get db (entry_key b k x)) \<le> (\<Sum>q \<in> ?D. opt_weight w (kv_get db q))"
    using finite_entries [OF assms(1)] assms(4)
    by (intro member_le_sum) (auto simp: opt_weight_def split: option.split)
  then show ?thesis using assms(2) by (simp add: weight_sum [OF assms(1)])
qed

lemma weight_mono: "kv_wf db \<Longrightarrow> (\<And>v. w v \<le> w' v) \<Longrightarrow> weight w db b \<le> weight w' db b"
  unfolding weight_def by (intro sum_list_mono) auto

lemma weight_nonneg: "(\<And>v. 0 \<le> w v) \<Longrightarrow> 0 \<le> weight w db b"
  unfolding weight_def by (intro sum_list_nonneg) auto

section \<open>Class tallies\<close>

definition class_ok :: "bucket_stats \<Rightarrow> (bytes \<Rightarrow> int) \<Rightarrow> (bytes \<Rightarrow> int) \<Rightarrow> bool" where
  "class_ok st f g \<longleftrightarrow> distinct (map fst (bs_by_class st)) \<and>
     (\<forall>c. uint (ct_objects (class_tally_of st c)) = f c \<and> uint (ct_bytes (class_tally_of st c)) = g c)"

lemma u64_of_int: "0 \<le> x \<Longrightarrow> x < 2 ^ 64 \<Longrightarrow> uint (of_int x :: u64) = x"
  by (simp add: unsigned_of_int take_bit_int_eq_self)

lemma uint_tally_add:
  assumes "uint t < 2 ^ 63" "0 \<le> uint t + d" "uint t + d < 2 ^ 63"
  shows "uint (tally_add t d) = uint t + d"
proof -
  have "i64_wrap (sint t + d) = uint t + d" using assms sint_small [OF assms(1)] by (simp add: i64_wrap_def)
  then show ?thesis using assms u64_of_int [of "uint t + d"] by (simp add: tally_add_def)
qed

lemma bump_keys: "map fst (bump_class c a d ts) = (if c \<in> fst ` set ts then map fst ts else map fst ts @ [c])"
  by (induction c a d ts rule: bump_class.induct) auto

lemma map_of_bump:
  "map_of (bump_class c a d ts) c' =
     (if c' \<noteq> c then map_of ts c'
      else Some (case map_of ts c of
          Some t \<Rightarrow> \<lparr>ct_objects = tally_add (ct_objects t) a, ct_bytes = tally_add (ct_bytes t) d\<rparr>
        | None \<Rightarrow> \<lparr>ct_objects = of_int (max 0 a), ct_bytes = of_int (max 0 d)\<rparr>))"
  by (induction c a d ts rule: bump_class.induct) auto

lemma map_of_filter_distinct:
  "distinct (map fst ts) \<Longrightarrow> map_of (filter (\<lambda>(_, t). P t) ts) c = (case map_of ts c of Some t \<Rightarrow> if P t then Some t else None | None \<Rightarrow> None)"
  by (induction ts) (auto simp: map_of_eq_None_iff image_iff split: option.splits)

lemma class_step:
  assumes "class_ok st f g" "f c < 2 ^ 63" "g c < 2 ^ 63" "0 \<le> f c + a" "f c + a < 2 ^ 63" "0 \<le> g c + d" "g c + d < 2 ^ 63"
  shows "class_ok (apply_class_delta (c, a, d) st) (f(c := f c + a)) (g(c := g c + d))"
proof (cases "a = 0 \<and> d = 0")
  case False
  let ?z = "\<lparr>ct_objects = 0, ct_bytes = 0\<rparr> :: class_tally"
  let ?ts = "bs_by_class st"
  let ?bs = "bump_class c a d ?ts"
  let ?P = "\<lambda>t. ct_objects t \<noteq> 0 \<or> ct_bytes t \<noteq> 0"
  have dist: "distinct (map fst ?ts)" using assms(1) by (simp add: class_ok_def)
  then have dist': "distinct (map fst ?bs)" by (auto simp: bump_keys)
  have z: "(case (if ?P t then Some t else None) of Some t \<Rightarrow> t | None \<Rightarrow> ?z) = t" for t :: class_tally
    by (cases t) simp
  have tally: "class_tally_of (apply_class_delta (c, a, d) st) c' = (case map_of ?bs c' of Some t \<Rightarrow> t | None \<Rightarrow> ?z)" for c'
    using False map_of_filter_distinct [OF dist', of ?P c'] z
    by (auto simp: class_tally_of_def apply_class_delta_def split: option.splits)
  have old: "uint (ct_objects (case map_of ?ts x of Some t \<Rightarrow> t | None \<Rightarrow> ?z)) = f x"
    "uint (ct_bytes (case map_of ?ts x of Some t \<Rightarrow> t | None \<Rightarrow> ?z)) = g x" for x
    using assms(1) by (simp_all add: class_ok_def class_tally_of_def)
  have "uint (ct_objects (class_tally_of (apply_class_delta (c, a, d) st) c')) = (f(c := f c + a)) c' \<and>
      uint (ct_bytes (class_tally_of (apply_class_delta (c, a, d) st) c')) = (g(c := g c + d)) c'" for c'
  proof (cases "c' = c")
    case True
    show ?thesis
    proof (cases "map_of ?ts c")
      case None
      with old [of c] have "f c = 0" "g c = 0" by simp_all
      then show ?thesis using assms True None u64_of_int [of a] u64_of_int [of d] by (simp add: tally map_of_bump)
    next
      case (Some t)
      with old [of c] have e: "uint (ct_objects t) = f c" "uint (ct_bytes t) = g c" by simp_all
      then show ?thesis
        using uint_tally_add [of "ct_objects t" a] uint_tally_add [of "ct_bytes t" d] assms Some True
        by (simp add: tally map_of_bump)
    qed
  next
    case False
    then show ?thesis using old [of c'] by (simp add: tally map_of_bump)
  qed
  moreover have "distinct (map fst (bs_by_class (apply_class_delta (c, a, d) st)))"
    using False dist' by (auto simp: apply_class_delta_def distinct_map_filter)
  ultimately show ?thesis by (simp add: class_ok_def)
qed (use assms(1) in \<open>simp add: apply_class_delta_def\<close>)

section \<open>Exact statistics\<close>

definition n_of :: "stored \<Rightarrow> int" where
  "n_of v = (case v of VObject m \<Rightarrow> if om_is_delete_marker m then 0 else 1 | _ \<Rightarrow> 0)"

definition bytes_of :: "stored \<Rightarrow> int" where
  "bytes_of v = (case v of VObject m \<Rightarrow> if om_is_delete_marker m then 0 else uint (om_size m) | _ \<Rightarrow> 0)"

definition in_class :: "bytes \<Rightarrow> (stored \<Rightarrow> int) \<Rightarrow> stored \<Rightarrow> int" where
  "in_class c w v = (case v of VObject m \<Rightarrow> if storage_class_name m = c then w v else 0 | _ \<Rightarrow> 0)"

definition stats_exact :: "db \<Rightarrow> bytes \<Rightarrow> bucket_stats \<Rightarrow> bool" where
  "stats_exact db b st \<longleftrightarrow> uint (bs_objects st) = weight n_of db b \<and> uint (bs_bytes st) = weight bytes_of db b \<and>
     class_ok st (\<lambda>c. weight (in_class c n_of) db b) (\<lambda>c. weight (in_class c bytes_of) db b)"

definition fits :: "db \<Rightarrow> bytes \<Rightarrow> bool" where
  "fits db b \<longleftrightarrow> weight n_of db b < 2 ^ 63 \<and> weight bytes_of db b < 2 ^ 63"

lemma weights_nonneg [simp]: "0 \<le> n_of v" "0 \<le> bytes_of v" "0 \<le> w v \<Longrightarrow> 0 \<le> in_class c w v" "0 \<le> w v \<Longrightarrow> in_class c w v \<le> w v"
  by (auto simp: n_of_def bytes_of_def in_class_def split: stored.split)

lemma fits_class:
  assumes "kv_wf db" "fits db b"
  shows "weight (in_class c n_of) db b < 2 ^ 63" "weight (in_class c bytes_of) db b < 2 ^ 63"
  using weight_mono [OF assms(1), of "in_class c n_of" n_of b] weight_mono [OF assms(1), of "in_class c bytes_of" bytes_of b]
    assms(2) by (simp_all add: fits_def)

lemma apply_class_other [simp]: "bs_objects (apply_class_delta x st) = bs_objects st" "bs_bytes (apply_class_delta x st) = bs_bytes st"
  by (simp_all add: apply_class_delta_def split: prod.split)

lemma fold_class_other [simp]: "bs_objects (fold apply_class_delta xs st) = bs_objects st"
  "bs_bytes (fold apply_class_delta xs st) = bs_bytes st"
  by (induction xs arbitrary: st) simp_all

lemma uint_stat_add: "0 \<le> uint n + d \<Longrightarrow> uint n + d < 2 ^ 63 \<Longrightarrow> uint (stat_add n d) = uint n + d"
  using u64_of_int [of "uint n + d"] by (simp add: stat_add_def)

definition class_entry :: "int \<Rightarrow> stored option \<Rightarrow> (bytes \<times> int \<times> int) list" where
  "class_entry sg r = (case r of
     Some (VObject m) \<Rightarrow> if om_is_delete_marker m then [] else [(storage_class_name m, sg, sg * uint (om_size m))] | _ \<Rightarrow> [])"

lemma class_entry_step:
  assumes "class_ok st f g" "\<And>c. 0 \<le> f c" "\<And>c. f c < 2 ^ 63" "\<And>c. 0 \<le> g c" "\<And>c. g c < 2 ^ 63"
    "\<And>c. 0 \<le> f c + sg * opt_weight (in_class c n_of) r" "\<And>c. f c + sg * opt_weight (in_class c n_of) r < 2 ^ 63"
    "\<And>c. 0 \<le> g c + sg * opt_weight (in_class c bytes_of) r" "\<And>c. g c + sg * opt_weight (in_class c bytes_of) r < 2 ^ 63"
  shows "class_ok (fold apply_class_delta (class_entry sg r) st)
    (\<lambda>c. f c + sg * opt_weight (in_class c n_of) r) (\<lambda>c. g c + sg * opt_weight (in_class c bytes_of) r)"
proof (cases "\<exists>m. r = Some (VObject m) \<and> \<not> om_is_delete_marker m")
  case True
  then obtain m where m: "r = Some (VObject m)" "\<not> om_is_delete_marker m" by blast
  let ?c = "storage_class_name m"
  have w: "opt_weight (in_class c n_of) r = (if c = ?c then 1 else 0)"
    "opt_weight (in_class c bytes_of) r = (if c = ?c then uint (om_size m) else 0)" for c
    using m(2) by (auto simp: m(1) in_class_def n_of_def bytes_of_def)
  have "class_ok (apply_class_delta (?c, sg, sg * uint (om_size m)) st) (f(?c := f ?c + sg)) (g(?c := g ?c + sg * uint (om_size m)))"
    using assms(6-9) [of ?c] assms(3,5) [of ?c] by (intro class_step [OF assms(1)]) (simp_all add: w)
  moreover have "f(?c := f ?c + sg) = (\<lambda>c. f c + sg * opt_weight (in_class c n_of) r)"
    "g(?c := g ?c + sg * uint (om_size m)) = (\<lambda>c. g c + sg * opt_weight (in_class c bytes_of) r)" by (auto simp: w)
  ultimately show ?thesis using m by (simp add: class_entry_def)
next
  case False
  then have "opt_weight (in_class c n_of) r = 0" "opt_weight (in_class c bytes_of) r = 0" "class_entry sg r = []" for c
    by (auto simp: opt_weight_def in_class_def n_of_def bytes_of_def class_entry_def split: option.splits stored.splits)
  then show ?thesis using assms(1) by simp
qed

text \<open>One entry is replaced and the statistics move by the difference of its weights.\<close>

lemma replace_exact:
  assumes "object_update db db' (entry_key b k x) r" "object_ref_ok (b, k, x)" "kv_wf db" "old = kv_get db (entry_key b k x)"
    "stats_exact db b st" "fits db b" "fits db' b"
    "sd_objects \<delta> = opt_weight n_of r - opt_weight n_of old" "sd_bytes \<delta> = opt_weight bytes_of r - opt_weight bytes_of old"
    "sd_by_class \<delta> = class_entry (- 1) old @ class_entry 1 r"
  shows "stats_exact db' b (apply_stats \<delta> st)"
proof -
  have nb: "name_ok b" using assms(2) by (simp add: object_ref_ok_def)
  have wf': "kv_wf db'" using assms(1) by (simp add: object_update_def)
  have up: "weight w db' b = weight w db b - opt_weight w old + opt_weight w r" for w
    using weight_update [OF assms(1-3) nb, of w] assms(4) by simp
  have ge: "0 \<le> opt_weight w old \<and> opt_weight w old \<le> weight w db b" if "\<And>v. 0 \<le> w v" for w
    unfolding assms(4) using weight_ge [OF assms(3) _ assms(2), of _ w] weight_nonneg [of w db b] that
    by (cases "kv_get db (entry_key b k x)") simp_all
  have nn: "0 \<le> weight w d b" if "\<And>v. 0 \<le> w v" for w d using weight_nonneg that by blast
  let ?f = "\<lambda>c. weight (in_class c n_of) db b" and ?g = "\<lambda>c. weight (in_class c bytes_of) db b"
  let ?st = "st\<lparr>bs_objects := stat_add (bs_objects st) (sd_objects \<delta>), bs_bytes := stat_add (bs_bytes st) (sd_bytes \<delta>)\<rparr>"
  have "class_ok ?st ?f ?g" using assms(5) by (simp add: stats_exact_def class_ok_def class_tally_of_def)
  have gn: "0 \<le> opt_weight (in_class c n_of) old \<and> opt_weight (in_class c n_of) old \<le> ?f c"
    and gb: "0 \<le> opt_weight (in_class c bytes_of) old \<and> opt_weight (in_class c bytes_of) old \<le> ?g c" for c
    by (rule ge; simp)+
  have n0: "0 \<le> weight (in_class c n_of) d b" "0 \<le> weight (in_class c bytes_of) d b" for c d by (rule nn; simp)+
  note f0 = fits_class [OF assms(3,6)] and f1 = fits_class [OF wf' assms(7)]
  let ?f' = "\<lambda>c. ?f c + - 1 * opt_weight (in_class c n_of) old"
  let ?g' = "\<lambda>c. ?g c + - 1 * opt_weight (in_class c bytes_of) old"
  have b1: "0 \<le> ?f' c" "?f' c < 2 ^ 63" "0 \<le> ?g' c" "?g' c < 2 ^ 63" for c
    using gn [of c] gb [of c] f0 [of c] by linarith+
  have e: "?f' c + 1 * opt_weight (in_class c n_of) r = weight (in_class c n_of) db' b"
    "?g' c + 1 * opt_weight (in_class c bytes_of) r = weight (in_class c bytes_of) db' b" for c
    by (simp_all add: up)
  have c1: "class_ok (fold apply_class_delta (class_entry (- 1) old) ?st) ?f' ?g'"
    by (rule class_entry_step [OF \<open>class_ok ?st ?f ?g\<close> n0(1) f0(1) n0(2) f0(2) b1])
  have "class_ok (fold apply_class_delta (class_entry 1 r) (fold apply_class_delta (class_entry (- 1) old) ?st))
      (\<lambda>c. ?f' c + 1 * opt_weight (in_class c n_of) r) (\<lambda>c. ?g' c + 1 * opt_weight (in_class c bytes_of) r)"
    by (rule class_entry_step [OF c1 b1]) (simp_all only: e f1 n0)
  then have c: "class_ok (apply_stats \<delta> st) (\<lambda>c. weight (in_class c n_of) db' b) (\<lambda>c. weight (in_class c bytes_of) db' b)"
    unfolding e by (simp add: apply_stats_def assms(10))
  have "uint (bs_objects st) + sd_objects \<delta> = weight n_of db' b" "uint (bs_bytes st) + sd_bytes \<delta> = weight bytes_of db' b"
    using assms(5,8,9) by (simp_all add: stats_exact_def up)
  then have "uint (stat_add (bs_objects st) (sd_objects \<delta>)) = weight n_of db' b"
    "uint (stat_add (bs_bytes st) (sd_bytes \<delta>)) = weight bytes_of db' b"
    using uint_stat_add nn assms(7) by (simp_all add: fits_def)
  with c show ?thesis by (simp add: stats_exact_def apply_stats_def)
qed

section \<open>Requests\<close>

datatype request =
    PutRequest versioning_state object_meta "int option"
  | DeleteRequest versioning_state "bytes option" bool bool

fun serve :: "write_env \<Rightarrow> bytes \<Rightarrow> bytes \<Rightarrow> alloc_draft \<Rightarrow> event_draft option \<Rightarrow> request \<Rightarrow> db \<Rightarrow> db" where
  "serve e b k draft ev (PutRequest v proto xm) db = fst (put_object_meta e v b k proto xm draft ev db)"
| "serve e b k draft ev (DeleteRequest v version bypass skip_lock) db =
     fst (delete_version_inner e b k version v bypass skip_lock draft ev db)"

definition entries_ok :: "db \<Rightarrow> bool" where
  "entries_ok db \<longleftrightarrow> objects_ok db \<and>
     (\<forall>q m. prefix PREFIX_OBJECT q \<longrightarrow> kv_get db q = Some (VObject m) \<longrightarrow>
        om_size m \<le> MAX_OBJECT_SIZE \<and> (om_is_delete_marker m \<longrightarrow> om_size m = 0))"

lemma entries_okD: "entries_ok db \<Longrightarrow> kv_get db (entry_key b k w) = Some (VObject m) \<Longrightarrow>
    om_size m \<le> MAX_OBJECT_SIZE \<and> (om_is_delete_marker m \<longrightarrow> om_size m = 0)"
  unfolding entries_ok_def using entry_key_object by blast

definition bucket_exact :: "db \<Rightarrow> bytes \<Rightarrow> bool" where
  "bucket_exact db b \<longleftrightarrow>
     (case kv_get db (bucket_key b) of Some (VBucket bm) \<Rightarrow> stats_exact db b (bk_stats bm) | _ \<Rightarrow> True)"

lemma put_error: "put_object_meta e v b k proto xm draft ev db = (db', Inl err) \<Longrightarrow> db' = db"
  by (auto simp: put_object_meta_def commit_put_plan_def commit_object_put_def commit_object_put_version_def
      env_commit_def commit_def Let_def bind_res_def split: sum.splits prod.splits option.splits if_splits)

lemma entries_ok_update:
  assumes "entries_ok db" "object_update db db' (entry_key b k x) r" "object_ref_ok (b, k, x)"
    "r = None \<or> (\<exists>m. r = Some (VObject m) \<and> om_size m \<le> MAX_OBJECT_SIZE \<and> (om_is_delete_marker m \<longrightarrow> om_size m = 0))"
  shows "entries_ok db'"
  using assms objects_ok_update [of db db' b k x r] by (auto simp: entries_ok_def object_update_def split: if_splits)

lemma stats_step:
  assumes "bucket_exact db b" "stats_update db db' b \<delta>" "object_update db db' (entry_key b k x) r" "object_ref_ok (b, k, x)"
    "kv_wf db" "fits db b" "fits db' b" "old = kv_get db (entry_key b k x)"
    "sd_objects \<delta> = opt_weight n_of r - opt_weight n_of old" "sd_bytes \<delta> = opt_weight bytes_of r - opt_weight bytes_of old"
    "sd_by_class \<delta> = class_entry (- 1) old @ class_entry 1 r"
  shows "bucket_exact db' b"
proof -
  obtain bm where bm: "kv_get db (bucket_key b) = Some (VBucket bm)"
    "kv_get db' (bucket_key b) = Some (VBucket (bm\<lparr>bk_stats := apply_stats \<delta> (bk_stats bm)\<rparr>))"
    using assms(2) by (auto simp: stats_update_def)
  then show ?thesis
    using replace_exact [OF assms(3-5,8) _ assms(6,7,9-11), of "bk_stats bm"] assms(1) by (simp add: bucket_exact_def)
qed

lemma plan_old:
  assumes "objects_ok db" "addr_ok b k" "key_ok db b k" "e_rnd e = Inr r" "length r = 8"
    "plan_object_write e db b k v = Inr (target, old)"
  shows "\<exists>o1. kv_get db (entry_key b k (target_version_key target)) = map_option VObject o1 \<and> old = old_view o1 \<and>
    object_ref_ok (b, k, target_version_key target)"
proof -
  obtain l where l: "get_object db b k = Inr l" "kv_get db (object_key b k) = map_option VObject l"
    using get_object_char [OF assms(1,2)] by blast
  obtain n where n: "get_object_version db b k VK_NULL = Inr n" "kv_get db (object_version_key b k VK_NULL) = map_option VObject n"
    using get_version_char [OF assms(1,2)] by blast
  obtain vk where vk: "next_vk e db b k = Inr vk" "length vk = 16" "kv_get db (object_version_key b k vk) = None"
    using next_vk_spec [OF assms(1-5)] by blast
  show ?thesis
    using assms(6) l n vk addr_ref [OF assms(2)]
    by (cases v; cases l) (auto simp: plan_object_write_def entry_key_def old_view_def [of None]
        intro: exI [where x = "Some a" for a])
qed

lemma delta_matches:
  assumes "entries_ok db" "kv_get db (entry_key b k x) = map_option VObject o1" "om_size m \<le> MAX_OBJECT_SIZE"
    "\<not> om_is_delete_marker m"
  shows "sd_objects (put_delta (old_view o1) m) = opt_weight n_of (Some (VObject m)) - opt_weight n_of (map_option VObject o1)"
    "sd_bytes (put_delta (old_view o1) m) = opt_weight bytes_of (Some (VObject m)) - opt_weight bytes_of (map_option VObject o1)"
    "sd_by_class (put_delta (old_view o1) m) = class_entry (- 1) (map_option VObject o1) @ class_entry 1 (Some (VObject m))"
proof -
  have o1: "om_size q \<le> MAX_OBJECT_SIZE \<and> (om_is_delete_marker q \<longrightarrow> om_size q = 0)" if "o1 = Some q" for q
    using entries_okD [OF assms(1)] assms(2) that by simp
  note sm = size_small [OF assms(3)]
  show "sd_objects (put_delta (old_view o1) m) = opt_weight n_of (Some (VObject m)) - opt_weight n_of (map_option VObject o1)"
    "sd_bytes (put_delta (old_view o1) m) = opt_weight bytes_of (Some (VObject m)) - opt_weight bytes_of (map_option VObject o1)"
    "sd_by_class (put_delta (old_view o1) m) = class_entry (- 1) (map_option VObject o1) @ class_entry 1 (Some (VObject m))"
    using o1 size_small sm assms(4)
    by (cases o1; auto simp: put_delta_def old_view_def old_default_def n_of_def bytes_of_def class_entry_def
        class_stats_delta_def storage_class_name_def split: option.split)+
qed

lemma remove_matches:
  assumes "om_size m \<le> MAX_OBJECT_SIZE"
  shows "sd_objects (remove_delta m) = - n_of (VObject m)" "sd_bytes (remove_delta m) = - bytes_of (VObject m)"
    "sd_by_class (remove_delta m) = class_entry (- 1) (Some (VObject m))"
  using size_small [OF assms] by (simp_all add: remove_delta_def no_delta_def n_of_def bytes_of_def class_entry_def)

lemma commit_unchanged: "env_commit e ops db = (db', Inl err) \<Longrightarrow> db' = db"
  by (auto simp: env_commit_def commit_def split: sum.splits)

lemma delete_cases:
  assumes "delete_version_inner e b k version v bypass skip_lock draft ev db = (db', res)"
  obtains "db' = db" | m where "delete_plain e b k bypass skip_lock draft ev db = (db', Inr (Some m))"
  | w m where "delete_version_entry e b k w bypass skip_lock draft ev db = (db', Inr (Some m))"
  | mk where "v \<noteq> Off" "delete_current_marker e b k v draft ev db = (db', Inr mk)"
proof -
  have p: "db' = db \<or> (\<exists>m. res = Inr (Some m))" if "delete_plain e b k bypass skip_lock draft ev db = (db', res)"
    using that commit_unchanged [of e _ db db']
    by (auto simp: delete_plain_def commit_object_delete_def bind_res_def split: sum.splits option.splits prod.splits; metis)
  have q: "db' = db \<or> (\<exists>m. res = Inr (Some m))" if "delete_version_entry e b k w bypass skip_lock draft ev db = (db', res)" for w
    using that commit_unchanged [of e _ db db']
    by (auto simp: delete_version_entry_def commit_object_delete_version_def bind_res_def
        split: sum.splits option.splits prod.splits; metis)
  have r: "db' = db \<or> (\<exists>m. res = Inr m)" if "delete_current_marker e b k v draft ev db = (db', res)"
    using that commit_unchanged [of e _ db db']
    by (cases res) (auto simp: delete_current_marker_def commit_object_delete_current_def bind_res_def Let_def
        split: sum.splits prod.splits)
  have "delete_plain e b k bypass skip_lock draft ev db = (db', res) \<or>
      (\<exists>w. delete_version_entry e b k w bypass skip_lock draft ev db = (db', res)) \<or>
      v \<noteq> Off \<and> delete_current_marker e b k v draft ev db = (db', res) \<or> db' = db"
    using assms by (auto simp: delete_version_inner_def delete_object_version_def
        split: versioning_state.splits option.splits if_splits sum.splits)
  with p q r that show ?thesis by metis
qed

lemma removal_keeps:
  assumes "entries_ok db" "addr_ok b k" "bucket_exact db b" "fits db b" "fits db' b"
    "delete_plain e b k bypass skip draft ev db = (db', Inr (Some m)) \<and> vk = None \<or>
     (\<exists>w. delete_version_entry e b k w bypass skip draft ev db = (db', Inr (Some m)) \<and> vk = Some w)"
  shows "bucket_exact db' b \<and> entries_ok db'"
proof -
  have ok: "objects_ok db" and wf: "kv_wf db" using assms(1) by (simp_all add: entries_ok_def objects_ok_def)
  note ef = remove_effect [OF assms(6) wf]
  then have g: "kv_get db (entry_key b k vk) = Some (VObject m)" by blast
  then have sz: "om_size m \<le> MAX_OBJECT_SIZE" using entries_okD [OF assms(1)] by blast
  have ref: "object_ref_ok (b, k, vk)"
  proof (cases vk)
    case (Some w)
    with version_entries [OF ok assms(2), of "object_version_key b k w" "VObject m"] g version_key_prefix
    show ?thesis using addr_ref(2) [OF assms(2)] by (auto simp: entry_key_def version_key_inj)
  qed (simp add: addr_ref(1) [OF assms(2)])
  have "bucket_exact db' b"
    using ef remove_matches [OF sz] g
    by (intro stats_step [OF assms(3) _ _ ref wf assms(4,5) refl, where \<delta> = "remove_delta m" and r = None])
      (simp_all add: class_entry_def)
  moreover have "entries_ok db'" using ef by (intro entries_ok_update [OF assms(1) _ ref, of db' None]) simp_all
  ultimately show ?thesis by simp
qed

lemma marker_keeps:
  assumes "entries_ok db" "addr_ok b k" "key_ok db b k" "e_rnd e = Inr r" "length r = 8" "bucket_exact db b" "fits db b" "fits db' b"
    "delete_current_marker e b k v draft ev db = (db', Inr res)" "v \<noteq> Off"
  shows "bucket_exact db' b \<and> entries_ok db'"
proof -
  have ok: "objects_ok db" and wf: "kv_wf db" using assms(1) by (simp_all add: entries_ok_def objects_ok_def)
  obtain w old mk where p: "om_is_delete_marker mk" "om_size mk = 0"
    "if v = Enabled then (\<exists>x. next_vk e db b k = Inr x \<and> w = Some x) \<and> old = None
     else (case get_object db b k of Inr (Some l) \<Rightarrow> w = None \<and> old = Some l
           | Inr None \<Rightarrow> w = Some VK_NULL \<and> get_object_version db b k VK_NULL = Inr old | Inl _ \<Rightarrow> False)"
    "object_update db db' (entry_key b k w) (Some (VObject mk))"
    "stats_update db db' b (case old of Some o1 \<Rightarrow> remove_delta o1 | None \<Rightarrow> no_delta)"
    using marker_effect [OF assms(9) wf] by blast
  obtain l where l: "get_object db b k = Inr l" "kv_get db (object_key b k) = map_option VObject l"
    using get_object_char [OF ok assms(2)] by blast
  obtain n where n: "get_object_version db b k VK_NULL = Inr n" "kv_get db (object_version_key b k VK_NULL) = map_option VObject n"
    using get_version_char [OF ok assms(2)] by blast
  obtain vk where vk: "next_vk e db b k = Inr vk" "length vk = 16" "kv_get db (object_version_key b k vk) = None"
    using next_vk_spec [OF ok assms(2-5)] by blast
  have g: "kv_get db (entry_key b k w) = map_option VObject old \<and> object_ref_ok (b, k, w)"
    using p(3) l n vk addr_ref [OF assms(2)] by (cases "v = Enabled"; cases l) (auto simp: entry_key_def)
  have sz: "om_size o1 \<le> MAX_OBJECT_SIZE" if "old = Some o1" for o1
    using entries_okD [OF assms(1), of b k w o1] g that by simp
  have mk: "n_of (VObject mk) = 0" "bytes_of (VObject mk) = 0" "class_entry 1 (Some (VObject mk)) = []"
    using p(1) by (simp_all add: n_of_def bytes_of_def class_entry_def)
  have "bucket_exact db' b"
    using g mk sz remove_matches
    by (intro stats_step [OF assms(6) p(5) p(4) _ wf assms(7,8) refl])
      (cases old; auto simp: no_delta_def class_entry_def [of _ None])+
  moreover have "entries_ok db'" using g p(1,2)
    by (intro entries_ok_update [OF assms(1) p(4)]) (auto simp: MAX_OBJECT_SIZE_def)
  ultimately show ?thesis by simp
qed

lemma serve_keeps:
  assumes "entries_ok db" "addr_ok b k" "key_ok db b k" "e_rnd e = Inr r" "length r = 8"
    "bucket_exact db b" "fits db b" "fits (serve e b k draft ev req db) b"
  shows "bucket_exact (serve e b k draft ev req db) b \<and> entries_ok (serve e b k draft ev req db)"
proof (cases req)
  case (PutRequest v proto xm)
  have ok: "objects_ok db" and wf: "kv_wf db" using assms(1) by (simp_all add: entries_ok_def objects_ok_def)
  obtain db' res where c: "put_object_meta e v b k proto xm draft ev db = (db', res)" by force
  show ?thesis
  proof (cases res)
    case (Inl err)
    then show ?thesis using put_error c assms(1,6) PutRequest by fastforce
  next
    case (Inr m)
    then obtain target old t where p: "plan_object_write e db b k v = Inr (target, old)"
      "m = proto\<lparr>om_mtime := t, om_version_id := meta_version_id target, om_is_delete_marker := False, om_restore_state := None\<rparr>"
      "om_size m \<le> MAX_OBJECT_SIZE"
      "object_update db db' (entry_key b k (target_version_key target)) (Some (VObject m))"
      "stats_update db db' b (put_delta old m)"
      using put_effect [OF _ wf] c by blast
    obtain o1 where o1: "kv_get db (entry_key b k (target_version_key target)) = map_option VObject o1" "old = old_view o1"
      "object_ref_ok (b, k, target_version_key target)" using plan_old [OF ok assms(2-5) p(1)] by blast
    have nm: "\<not> om_is_delete_marker m" using p(2) by simp
    have "bucket_exact db' b"
      using stats_step [OF assms(6) p(5,4) o1(3) wf assms(7) _ o1(1) [symmetric]] assms(8) PutRequest c
        delta_matches [OF assms(1) o1(1) p(3) nm] by (simp add: o1(2))
    moreover have "entries_ok db'" using entries_ok_update [OF assms(1) p(4) o1(3)] p(3) nm by blast
    ultimately show ?thesis using PutRequest c by simp
  qed
next
  case (DeleteRequest v version bypass skip_lock)
  obtain db' res where c: "delete_version_inner e b k version v bypass skip_lock draft ev db = (db', res)" by force
  then have db': "serve e b k draft ev req db = db'" using DeleteRequest by simp
  from c show ?thesis
  proof (cases rule: delete_cases)
    case 1
    then show ?thesis using assms(1,6) db' by simp
  next
    case (2 m)
    then show ?thesis using removal_keeps [OF assms(1,2,6,7)] assms(8) db' by blast
  next
    case (3 w m)
    then show ?thesis using removal_keeps [OF assms(1,2,6,7)] assms(8) db' by blast
  next
    case (4 mk)
    then show ?thesis using marker_keeps [OF assms(1-7)] assms(8) db' by blast
  qed
qed

text \<open>
  C20. The counters of a bucket are exact: after any PUT or DELETE, accepted or refused, the stored number
  of objects, of bytes and the tally of every storage class are the number and total size of the
  bucket's entries that are not delete markers, as long as they fit in 63 bits.
\<close>

theorem statistics_exact:
  assumes "entries_ok db" "addr_ok b k" "key_ok db b k" "e_rnd e = Inr r" "length r = 8"
    "bucket_exact db b" "fits db b" "fits (serve e b k draft ev req db) b"
  shows "bucket_exact (serve e b k draft ev req db) b \<and> entries_ok (serve e b k draft ev req db)"
  by (rule serve_keeps [OF assms])

section \<open>Retention\<close>

lemma locked_denied:
  assumes "\<not> om_is_delete_marker m" "om_legal_hold m \<or> (\<exists>t. om_retention m = Some t \<and> ret_mode t = Compliance \<and> now < retain_until t)"
  shows "deny_if_locked m now bypass False = Inl AccessDenied"
  using assms by (auto simp: deny_if_locked_def lock_blocks_delete_def)

text \<open>
  C21. A version under a legal hold or an unexpired COMPLIANCE retention survives every DELETE, whatever
  the bypass header says, unless the caller is the clean-up of a failed upload: its entry is as
  before, in a bucket with versioning in the enabled state.
\<close>

theorem locked_version_survives:
  assumes "objects_ok db" "addr_ok b k" "key_ok db b k" "e_rnd e = Inr r" "length r = 8"
    "kv_get db (entry_key b k x) = Some (VObject m)" "object_ref_ok (b, k, x)" "\<not> om_is_delete_marker m"
    "om_legal_hold m \<or> (\<exists>t. om_retention m = Some t \<and> ret_mode t = Compliance \<and> e_lock_now e < retain_until t)"
    "v = Enabled"
  shows "kv_get (serve e b k draft ev (DeleteRequest v version bypass False) db) (entry_key b k x) = Some (VObject m)"
proof -
  have wf: "kv_wf db" using assms(1) by (simp add: objects_ok_def)
  obtain db' res where c: "delete_version_inner e b k version v bypass False draft ev db = (db', res)" by force
  note deny = locked_denied [OF assms(8,9), of bypass]
  have gone: "kv_get db' (entry_key b k x) = Some (VObject m)"
    if h: "delete_plain e b k bypass False draft ev db = (db', Inr (Some m')) \<and> vk = None \<or>
     (\<exists>w. delete_version_entry e b k w bypass False draft ev db = (db', Inr (Some m')) \<and> vk = Some w)" for vk m'
  proof -
    note ef = remove_effect [OF h wf]
    then have "entry_key b k vk \<noteq> entry_key b k x" using assms(6) deny by auto
    then show ?thesis using ef assms(6) by (simp add: object_update_def)
  qed
  from c have "kv_get db' (entry_key b k x) = Some (VObject m)"
  proof (cases rule: delete_cases)
    case 1
    then show ?thesis using assms(6) by simp
  next
    case (2 m')
    then show ?thesis using gone by blast
  next
    case (3 w m')
    then show ?thesis using gone by blast
  next
    case (4 mk)
    obtain w mk' where w: "next_vk e db b k = Inr w" "object_update db db' (entry_key b k (Some w)) (Some (VObject mk'))"
      using marker_effect [OF 4(2) wf] assms(10) by auto
    obtain w' where w': "next_vk e db b k = Inr w'" "kv_get db (object_version_key b k w') = None"
      using next_vk_spec [OF assms(1-5)] by blast
    have "entry_key b k (Some w) \<noteq> entry_key b k x" using w(1) w' assms(6) by (auto simp: entry_key_def)
    then show ?thesis using w(2) assms(6) by (simp add: object_update_def)
  qed
  then show ?thesis using c by simp
qed

section \<open>Witnesses\<close>

lemma demo_weight: "weight w demo_store (lit ''b'') = 0"
proof -
  have wf: "kv_wf demo_store" by (simp add: demo_store_def kv_wf_def)
  have "kv_get demo_store q = None" if "prefix (object_prefix (lit ''b'')) q" for q
    using demo_get_object that by (auto simp: object_prefix_def prefix_def)
  then have "{q. prefix (object_prefix (lit ''b'')) q \<and> kv_get demo_store q \<noteq> None} = {}" by auto
  then show ?thesis by (simp only: weight_sum [OF wf] sum.empty)
qed

lemma demo_stats_ok: "entries_ok demo_store" "bucket_exact demo_store (lit ''b'')" "fits demo_store (lit ''b'')"
proof -
  show "entries_ok demo_store" using demo_store_ok(1) demo_get_object by (auto simp: entries_ok_def)
  show "bucket_exact demo_store (lit ''b'')"
    by (simp add: bucket_exact_def demo_get stats_exact_def demo_weight class_ok_def class_tally_of_def demo_bucket_def)
qed (simp add: fits_def demo_weight)

theorem statistics_exact_witness:
  "\<exists>db'. db' = serve demo_env (lit ''b'') (lit ''k'') demo_draft None (PutRequest Enabled demo_object None) demo_store \<and>
     bucket_exact db' (lit ''b'') \<and> weight n_of db' (lit ''b'') = 1 \<and> weight bytes_of db' (lit ''b'') = 3"
proof -
  let ?b = "lit ''b''" and ?k = "lit ''k''"
  obtain db' m where p: "put_object_meta demo_env Enabled ?b ?k demo_object None demo_draft None demo_store = (db', Inr m)"
    using put_accepted [OF demo_store_ok demo_quota] by blast
  obtain w t where a: "m = demo_object\<lparr>om_mtime := t, om_version_id := om_version_id m, om_is_delete_marker := False, om_restore_state := None\<rparr>"
    "object_ref_ok (?b, ?k, w)" "object_update demo_store db' (entry_key ?b ?k w) (Some (VObject m))"
    using put_current [OF demo_store_ok(1-3,5,6) p] by blast
  have f: "om_size m = 3" "\<not> om_is_delete_marker m" by (subst a(1), simp add: demo_object_def)+
  have wf: "kv_wf demo_store" by (simp add: demo_store_def kv_wf_def)
  have nb: "name_ok ?b" using a(2) by (simp add: object_ref_ok_def)
  have w: "weight n_of db' ?b = 1" "weight bytes_of db' ?b = 3"
    using weight_update [OF a(3,2) wf nb, of n_of] weight_update [OF a(3,2) wf nb, of bytes_of] f
    by (simp_all add: demo_weight demo_get_object n_of_def bytes_of_def)
  then have "fits (serve demo_env ?b ?k demo_draft None (PutRequest Enabled demo_object None) demo_store) ?b"
    using p by (simp add: fits_def)
  from statistics_exact [OF demo_stats_ok(1) demo_store_ok(2,3,5,6) demo_stats_ok(2,3) this] p w show ?thesis by simp
qed

definition demo_vk :: bytes where
  "demo_vk = to_be_bytes (5 :: u64) @ replicate 8 1"

definition demo_held :: object_meta where
  "demo_held = demo_object\<lparr>om_is_delete_marker := False, om_legal_hold := True\<rparr>"

definition demo_locked :: db where
  "demo_locked = [(bucket_key (lit ''b''), VBucket demo_bucket), (entry_key (lit ''b'') (lit ''k'') (Some demo_vk), VObject demo_held)]"

lemma demo_locked_get: "kv_get demo_locked q =
    (if q = bucket_key (lit ''b'') then Some (VBucket demo_bucket)
     else if q = entry_key (lit ''b'') (lit ''k'') (Some demo_vk) then Some (VObject demo_held) else None)"
  by (simp add: demo_locked_def kv_get_def)

lemma demo_locked_ok: "objects_ok demo_locked" "key_ok demo_locked (lit ''b'') (lit ''k'')"
  "object_ref_ok (lit ''b'', lit ''k'', Some demo_vk)"
  "kv_get demo_locked (entry_key (lit ''b'') (lit ''k'') (Some demo_vk)) = Some (VObject demo_held)"
proof -
  let ?b = "lit ''b''" and ?k = "lit ''k''"
  have "drop 8 demo_vk \<noteq> drop 8 VK_NULL" by (simp add: demo_vk_def VK_NULL_def)
  then have "demo_vk \<noteq> VK_NULL" by (rule contrapos_nn) simp
  moreover have "length demo_vk = 16" "vk_time_us demo_vk \<noteq> - 1" by (simp_all add: demo_vk_def vk_time_us_def)
  ultimately have vk: "length demo_vk = 16" "demo_vk \<noteq> VK_NULL" "vk_time_us demo_vk \<noteq> - 1" by simp_all
  show ref: "object_ref_ok (?b, ?k, Some demo_vk)" using addr_ref(2) [OF demo_store_ok(2) vk(1)] .
  have wf: "kv_wf demo_locked"
    by (simp add: demo_locked_def kv_wf_def entry_key_def object_version_key_def object_key_def bucket_key_def prefix_defs lit_def)
  show "objects_ok demo_locked"
    using wf ref object_not_bucket by (auto simp: objects_ok_def demo_locked_get entry_key_ref)
  have none: "kv_get demo_locked (entry_key ?b ?k x) = None" if "x \<noteq> Some demo_vk" "object_ref_ok (?b, ?k, x)" for x
    using entry_key_inject [OF that(2) ref] that(1) object_not_bucket [OF entry_key_object] by (auto simp: demo_locked_get)
  have none0: "kv_get demo_locked (object_key ?b ?k) = None" "kv_get demo_locked (object_version_key ?b ?k VK_NULL) = None"
    using none [of None] none [of "Some VK_NULL"] addr_ref [OF demo_store_ok(2)] vk(2) by (simp_all add: entry_key_def)
  have only: "q = object_version_key ?b ?k demo_vk"
    if "(q, v) \<in> set (scan_prefix demo_locked (object_key_prefix ?b ?k))" for q v
  proof -
    have h: "kv_get demo_locked q = Some v" "prefix PREFIX_OBJECT q"
      using that prefix_order.trans [OF key_prefix_object] by (auto simp: store.set_scan [OF wf])
    then show ?thesis using object_not_bucket [OF h(2)] by (auto simp: demo_locked_get entry_key_def split: if_splits)
  qed
  have "drop (length (object_key_prefix ?b ?k)) (object_version_key ?b ?k demo_vk) = demo_vk"
    by (simp add: object_key_prefix_def object_version_key_def)
  then have "vk_time_us (drop (length (object_key_prefix ?b ?k)) q) \<noteq> - 1"
    if "(q, v) \<in> set (scan_prefix demo_locked (object_key_prefix ?b ?k))" for q v
    using vk(3) only [OF that] by simp
  then show "key_ok demo_locked ?b ?k"
    unfolding key_ok_def null_time_ok_def none0 by (simp add: Ball_def)
  show "kv_get demo_locked (entry_key ?b ?k (Some demo_vk)) = Some (VObject demo_held)"
    using object_not_bucket [OF entry_key_object] by (simp add: demo_locked_get)
qed

theorem locked_version_survives_witness:
  "kv_get (serve demo_env (lit ''b'') (lit ''k'') demo_draft None (DeleteRequest Enabled (Some demo_vk) True False) demo_locked)
     (entry_key (lit ''b'') (lit ''k'') (Some demo_vk)) = Some (VObject demo_held)"
  by (rule locked_version_survives [OF demo_locked_ok(1) demo_store_ok(2) demo_locked_ok(2) demo_store_ok(5,6) demo_locked_ok(4,3)])
    (simp_all add: demo_held_def)

end
