(* ===== verification/Multipart.thy ===== *)
theory Multipart
  imports Bucket_Stats
begin

text \<open>
  Multipart uploads (\<^verbatim>\<open>fs3-engine/src/lib.rs\<close> and \<^verbatim>\<open>fs3-meta/src/lib.rs\<close>): starting an upload, storing its parts, completing it into
  an object, giving it up, and the sweep of old uploads. Reading, decrypting, compressing and writing data is a
  parameter: \<open>data_path\<close> holds the hash functions and what the data routines return. As for a PUT the allocation
  draft of a request is an input.
\<close>

section \<open>Sessions and parts in the store\<close>



definition get_multipart :: "db \<Rightarrow> bytes \<Rightarrow> multipart_session option result" where
  "get_multipart db uid =
     (case kv_get db (session_key uid) of None \<Rightarrow> Inr None | Some v \<Rightarrow> bind_res (decode_session v) (\<lambda>s. Inr (Some s)))"

definition get_part :: "db \<Rightarrow> bytes \<Rightarrow> u32 \<Rightarrow> part_meta option result" where
  "get_part db uid n =
     (case kv_get db (part_key uid n) of None \<Rightarrow> Inr None | Some v \<Rightarrow> bind_res (decode_part v) (\<lambda>p. Inr (Some p)))"

fun decode_parts :: "db \<Rightarrow> (u32 \<times> part_meta) list result" where
  "decode_parts [] = Inr []"
| "decode_parts ((k, v) # it) =
     bind_res (parse_part_key k) (\<lambda>n. bind_res (decode_part v) (\<lambda>p. bind_res (decode_parts it) (\<lambda>out. Inr ((n, p) # out))))"

definition list_parts :: "db \<Rightarrow> bytes \<Rightarrow> (u32 \<times> part_meta) list result" where
  "list_parts db uid = decode_parts (scan_prefix db (part_prefix uid))"

fun decode_sessions :: "db \<Rightarrow> (bytes \<times> multipart_session) list result" where
  "decode_sessions [] = Inr []"
| "decode_sessions ((k, v) # it) =
     bind_res (parse_text PREFIX_UPLOAD k) (\<lambda>uid.
     bind_res (decode_session v) (\<lambda>s. bind_res (decode_sessions it) (\<lambda>out. Inr ((uid, s) # out))))"

definition list_all_sessions :: "db \<Rightarrow> (bytes \<times> multipart_session) list result" where
  "list_all_sessions db = decode_sessions (scan_prefix db PREFIX_UPLOAD)"

fun bucket_sessions_loop ::
    "db \<Rightarrow> bytes \<Rightarrow> (bytes \<times> bytes) option \<Rightarrow> nat \<Rightarrow> db \<Rightarrow> (bytes \<times> multipart_session) list \<Rightarrow> (bytes \<times> multipart_session) list result" where
  "bucket_sessions_loop db p after mx [] out = Inr out"
| "bucket_sessions_loop db p after mx ((k, v) # it) out =
     bind_res (parse_session_index_key k) (\<lambda>uid.
     bind_res (get_multipart db uid) (\<lambda>so.
       case so of
         None \<Rightarrow> bucket_sessions_loop db p after mx it out
       | Some s \<Rightarrow>
           if ms_completed s \<or> (p \<noteq> [] \<and> \<not> prefix p (ms_key s)) \<or>
              (case after of Some (mk, mu) \<Rightarrow> ms_key s < mk \<or> ms_key s = mk \<and> uid \<le> mu | None \<Rightarrow> False)
           then bucket_sessions_loop db p after mx it out
           else if mx \<le> length out then Inr out
           else bucket_sessions_loop db p after mx it (out @ [(uid, s)])))"

definition list_bucket_sessions :: "db \<Rightarrow> bytes \<Rightarrow> bytes \<Rightarrow> (bytes \<times> bytes) option \<Rightarrow> nat \<Rightarrow> (bytes \<times> multipart_session) list result" where
  "list_bucket_sessions db b p after mx = bucket_sessions_loop db p after mx (scan_prefix db (session_index_prefix b)) []"

section \<open>Starting an upload and storing parts\<close>

definition session_sse :: "multipart_session \<Rightarrow> bool" where
  "session_sse s \<longleftrightarrow> ms_sse_key_md5 s \<noteq> None \<or> ms_sse_s3 s \<noteq> None \<or> ms_sse_kms s \<noteq> None"

definition archive_session :: "multipart_session \<Rightarrow> bool" where
  "archive_session s \<longleftrightarrow> (case ms_requested_storage_class s of Some c \<Rightarrow> is_archive_class c | None \<Rightarrow> False)"




text \<open>\<open>s\<close> is the session of the request; its bucket, key and settings are the arguments of \<^verbatim>\<open>create_multipart_lock\<close>,
  the default content type filled in.\<close>

definition create_multipart_lock :: "write_env \<Rightarrow> bytes result \<Rightarrow> multipart_session \<Rightarrow> db \<Rightarrow> db \<times> bytes result" where
  "create_multipart_lock e raw s db =
     (case bind_res (get_bucket db (ms_bucket s)) (\<lambda>bm.
             if bm = None then Inl NotFound
             else if session_sse s \<and> archive_session s then Inl InvalidRequest
             else raw) of
        Inl err \<Rightarrow> (db, Inl err)
      | Inr r \<Rightarrow>
          (let uid = hex_encode r;
               fresh = s\<lparr>ms_created := e_now_ts e, ms_completed := False, ms_final_etag := replicate 16 0, ms_final_size := 0, ms_final_mtime := 0\<rparr>;
               (db', q) = env_commit e [MultipartOp (MultipartCreate uid fresh)] db
           in (db', bind_res q (\<lambda>_. Inr uid))))"

text \<open>What the data routines and the libraries give to a request.\<close>

record stream_outcome =
  so_segments :: "segment list"
  so_size :: u64
  so_etag :: bytes
  so_sse :: "sse_info option"
  so_compressed_size :: "u64 option"

record data_path =
  dp_small_limit :: u64
  dp_compress :: bool
  dp_level :: u32
  dp_md5 :: "bytes \<Rightarrow> bytes"
  dp_hash :: "checksum_algorithm \<Rightarrow> bytes \<Rightarrow> bytes"
  dp_keys :: "session_sse_s3 option \<Rightarrow> session_sse_kms option \<Rightarrow> bytes \<Rightarrow> bytes \<Rightarrow> unit result"
  dp_plain :: "part_meta \<Rightarrow> bytes result"
  dp_seal :: "part_meta list \<Rightarrow> (bytes \<times> sse_info) result"
  dp_store :: "u32 \<Rightarrow> part_meta list \<Rightarrow> stream_outcome result"

text \<open>The keys of an encrypted upload are unwrapped for each request.\<close>

definition session_keys :: "data_path \<Rightarrow> multipart_session \<Rightarrow> unit result" where
  "session_keys dp s = dp_keys dp (ms_sse_s3 s) (ms_sse_kms s) (ms_bucket s) (ms_key s)"

definition touch_completed :: "write_env \<Rightarrow> bytes \<Rightarrow> db \<Rightarrow> db \<times> unit result" where
  "touch_completed e uid db =
     (case get_multipart db uid of
        Inl err \<Rightarrow> (db, Inl err)
      | Inr so \<Rightarrow>
          if (case so of Some s \<Rightarrow> ms_completed s | None \<Rightarrow> False)
          then (let (db', q) = env_commit e [MultipartOp (MultipartUpdate uid False (replicate 16 0) 0 0)] db in (db', bind_res q (\<lambda>_. Inr ())))
          else (db, Inr ()))"

definition upload_part_check :: "data_path \<Rightarrow> multipart_session \<Rightarrow> bool \<Rightarrow> unit result" where
  "upload_part_check dp s has_key =
     (if archive_session s \<and> session_sse s then Inl InvalidRequest
      else if dp_compress dp \<and> \<not> archive_session s then Inl Unsupported
      else if (ms_sse_key_md5 s \<noteq> None) \<noteq> has_key then Inl InvalidRequest
      else if ms_sse_s3 s \<noteq> None \<and> has_key then Inl InvalidRequest
      else session_keys dp s)"

definition upload_part ::
    "data_path \<Rightarrow> write_env \<Rightarrow> bytes \<Rightarrow> u32 \<Rightarrow> bool \<Rightarrow> part_meta result \<Rightarrow> alloc_draft \<Rightarrow> db \<Rightarrow> db \<times> part_meta result" where
  "upload_part dp e uid n has_key written draft db =
     (case bind_res (get_multipart db uid) (\<lambda>so. bind_res (ok_or NoSuchUpload so) (\<lambda>s.
             bind_res (upload_part_check dp s has_key) (\<lambda>_. bind_res (get_part db uid n) (\<lambda>_. written)))) of
        Inl err \<Rightarrow> (db, Inl err)
      | Inr part \<Rightarrow>
          (case env_commit e [MultipartOp (PartPut uid n part), Alloc draft] db of
             (db1, Inl err) \<Rightarrow> (db1, Inl err)
           | (db1, Inr _) \<Rightarrow> (let (db2, q) = touch_completed e uid db1 in (db2, bind_res q (\<lambda>_. Inr part)))))"

section \<open>Completing an upload\<close>






















section \<open>Giving up an upload\<close>

definition abort_multipart :: "write_env \<Rightarrow> bytes \<Rightarrow> alloc_draft \<Rightarrow> db \<Rightarrow> db \<times> unit result" where
  "abort_multipart e uid draft db =
     (case bind_res (get_multipart db uid) (\<lambda>so. bind_res (ok_or NoSuchUpload so) (\<lambda>_. list_parts db uid)) of
        Inl err \<Rightarrow> (db, Inl err)
      | Inr parts \<Rightarrow>
          (let (db', q) = env_commit e (MultipartOp (MultipartDelete uid) #
                 map (\<lambda>(n, _). MultipartOp (PartDelete (part_key uid n))) parts @ [Alloc draft]) db
           in (db', bind_res q (\<lambda>_. Inr ()))))"

text \<open>Uploads of buckets without lifecycle rules are given up after a fixed time; \<open>rules\<close> tells whether a bucket has rules.\<close>

fun expired_sessions :: "(bytes \<Rightarrow> bool result) \<Rightarrow> int \<Rightarrow> int \<Rightarrow> (bytes \<times> multipart_session) list \<Rightarrow> bytes list result" where
  "expired_sessions has_rules now ttl [] = Inr []"
| "expired_sessions has_rules now ttl ((uid, s) # rest) =
     (if now - ms_created s < ttl then expired_sessions has_rules now ttl rest
      else bind_res (has_rules (ms_bucket s)) (\<lambda>r. bind_res (expired_sessions has_rules now ttl rest) (\<lambda>out. Inr (if r then out else uid # out))))"

fun abort_all :: "write_env \<Rightarrow> (bytes \<Rightarrow> alloc_draft) \<Rightarrow> bytes list \<Rightarrow> db \<Rightarrow> db \<times> nat" where
  "abort_all e drafts [] db = (db, 0)"
| "abort_all e drafts (uid # uids) db =
     (let (db1, q) = abort_multipart e uid (drafts uid) db; (db2, n) = abort_all e drafts uids db1
      in (db2, case q of Inr _ \<Rightarrow> n + 1 | Inl _ \<Rightarrow> n))"

definition sweep_expired_sessions :: "write_env \<Rightarrow> (bytes \<Rightarrow> alloc_draft) \<Rightarrow> (bytes \<Rightarrow> bool result) \<Rightarrow> int \<Rightarrow> db \<Rightarrow> db \<times> nat result" where
  "sweep_expired_sessions e drafts has_rules ttl db =
     (case bind_res (list_all_sessions db) (expired_sessions has_rules (e_now_ts e) ttl) of
        Inl err \<Rightarrow> (db, Inl err)
      | Inr uids \<Rightarrow> (let (db', n) = abort_all e drafts uids db in (db', Inr n)))"

section \<open>What a completed upload leaves\<close>





















section \<open>Witness\<close>



















end
