(* ===== verification/Lifecycle.thy ===== *)
theory Lifecycle
  imports Version_Writes
begin

text \<open>
  The lifecycle rule engine (\<^verbatim>\<open>fs3-engine/src/lifecycle.rs\<close>): deadlines, filters, the actions a
  set of rules asks for on one version, and the evaluation of all versions of a key. A value
  \<^term>\<open>None\<close> of the evaluation stands for the panic of an \<^verbatim>\<open>unwrap\<close> or \<^verbatim>\<open>unreachable!\<close>.
\<close>

section \<open>Time\<close>

definition next_midnight_utc :: "int \<Rightarrow> int" where
  "next_midnight_utc ts = i64_wrap ((ts div 86400 + 1) * 86400)"

definition days_deadline :: "int \<Rightarrow> u32 \<Rightarrow> int" where
  "days_deadline base days = next_midnight_utc (i64_wrap (base + uint days * 86400))"

section \<open>Rules\<close>

datatype lifecycle_action = DeleteCurrent | InsertDeleteMarker | DeleteNoncurrentVersion bytes | ExpireDeleteMarker
  | Transition bytes | AbortUpload

record entry_ctx =
  ec_key :: bytes
  ec_vk :: "bytes option"
  ec_meta :: object_meta
  ec_versioning :: versioning_state
  ec_is_current :: bool
  ec_noncurrent_since :: "int option"
  ec_group_len :: nat
  ec_noncurrent_rank :: "u32 option"

definition filter_matches :: "lifecycle_filter \<Rightarrow> bytes \<Rightarrow> (bytes \<times> bytes) list \<Rightarrow> bool" where
  "filter_matches f key tags \<longleftrightarrow> (lf_prefix f = [] \<or> prefix (lf_prefix f) key) \<and>
     list_all (\<lambda>(k, v). list_ex (\<lambda>(tk, tv). tk = k \<and> tv = v) tags) (lf_tags f)"

definition push_unique :: "'a \<Rightarrow> 'a list \<Rightarrow> 'a list" where
  "push_unique a v = (if a \<in> set v then v else v @ [a])"

definition time_hit :: "int \<Rightarrow> int \<Rightarrow> u32 option \<Rightarrow> int option \<Rightarrow> bool" where
  "time_hit now base days date \<longleftrightarrow>
     (case days of Some d \<Rightarrow> days_deadline base d \<le> now | None \<Rightarrow> False) \<or>
     (case date of Some d \<Rightarrow> d \<le> now | None \<Rightarrow> False)"

text \<open>What one enabled, matching rule asks for, in the order of the code.\<close>

definition transition_actions :: "entry_ctx \<Rightarrow> int \<Rightarrow> lifecycle_rule \<Rightarrow> lifecycle_action list" where
  "transition_actions ctx now rule =
     (case lr_transition rule of
        Some tr \<Rightarrow>
          if \<not> om_is_delete_marker (ec_meta ctx) \<and> time_hit now (om_mtime (ec_meta ctx)) (lt_days tr) (lt_date tr)
          then [Transition (lt_storage_class tr)] else []
      | None \<Rightarrow> [])"

definition expiration_actions :: "entry_ctx \<Rightarrow> int \<Rightarrow> lifecycle_rule \<Rightarrow> lifecycle_action list" where
  "expiration_actions ctx now rule =
     (case lr_expiration rule of
        Some ex \<Rightarrow>
          if om_is_delete_marker (ec_meta ctx)
          then (if le_expired_object_delete_marker ex \<and> ec_group_len ctx = 1 then [ExpireDeleteMarker] else [])
          else if time_hit now (om_mtime (ec_meta ctx)) (le_days ex) (le_date ex)
          then [if ec_versioning ctx = Off then DeleteCurrent else InsertDeleteMarker] else []
      | None \<Rightarrow> [])"

definition noncurrent_actions :: "entry_ctx \<Rightarrow> int \<Rightarrow> lifecycle_rule \<Rightarrow> lifecycle_action list" where
  "noncurrent_actions ctx now rule =
     (case lr_noncurrent_expiration rule of
        Some nc \<Rightarrow>
          (let days_hit = (case (ne_noncurrent_days nc, ec_noncurrent_since ctx) of
                 (Some d, Some since) \<Rightarrow> days_deadline since d \<le> now | _ \<Rightarrow> False);
               keep_hit = (case (ne_newer_noncurrent_versions nc, ec_noncurrent_rank ctx) of
                 (Some keep, Some rank) \<Rightarrow> keep \<le> rank | _ \<Rightarrow> False)
           in if days_hit \<or> keep_hit
              then [DeleteNoncurrentVersion (case ec_vk ctx of Some v \<Rightarrow> v | None \<Rightarrow> VK_NULL)] else [])
      | None \<Rightarrow> [])"

definition rule_actions :: "entry_ctx \<Rightarrow> int \<Rightarrow> lifecycle_rule \<Rightarrow> lifecycle_action list" where
  "rule_actions ctx now rule =
     (if lr_status rule \<noteq> LcEnabled then []
      else if \<not> filter_matches (lr_filter rule) (ec_key ctx) (om_tags (ec_meta ctx)) then []
      else if ec_is_current ctx then transition_actions ctx now rule @ expiration_actions ctx now rule
      else if ec_versioning ctx \<noteq> Off then noncurrent_actions ctx now rule
      else [])"

definition match_entry :: "entry_ctx \<Rightarrow> lifecycle_rule list \<Rightarrow> int \<Rightarrow> lifecycle_action list" where
  "match_entry ctx rules now = fold (\<lambda>rule. fold push_unique (rule_actions ctx now rule)) rules []"

section \<open>All versions of a key\<close>

type_synonym group = "(bytes option \<times> object_meta) list"

record group_action =
  ga_action :: lifecycle_action
  ga_target_vk :: bytes
  ga_bytes :: u64

definition is_real :: "group \<Rightarrow> nat \<Rightarrow> bool" where
  "is_real es i \<longleftrightarrow> (case fst (es ! i) of Some v \<Rightarrow> v \<noteq> VK_NULL | None \<Rightarrow> False)"

definition vk_of :: "group \<Rightarrow> nat \<Rightarrow> bytes" where
  "vk_of es i = (case fst (es ! i) of Some v \<Rightarrow> v | None \<Rightarrow> VK_NULL)"

definition mtime_at :: "group \<Rightarrow> nat \<Rightarrow> int" where
  "mtime_at es i = om_mtime (snd (es ! i))"

definition wt :: "group \<Rightarrow> nat \<Rightarrow> int" where
  "wt es i = (if is_real es i then vk_secs (vk_of es i) else mtime_at es i)"

fun scan_group :: "nat \<Rightarrow> group \<Rightarrow> nat option \<times> nat option \<times> nat list \<Rightarrow> nat option \<times> nat option \<times> nat list" where
  "scan_group i [] acc = acc"
| "scan_group i ((vk, _) # es) (legacy, null_slot, reals) =
     scan_group (i + 1) es
       (case vk of
          None \<Rightarrow> (Some i, null_slot, reals)
        | Some v \<Rightarrow> if v = VK_NULL then (legacy, Some i, reals) else (legacy, null_slot, reals @ [i]))"

definition pick_null :: "group \<Rightarrow> nat option \<Rightarrow> nat option \<Rightarrow> nat option" where
  "pick_null es legacy null_slot =
     (case (legacy, null_slot) of
        (Some l, Some n) \<Rightarrow> Some (if mtime_at es n \<le> mtime_at es l then l else n)
      | (Some l, None) \<Rightarrow> Some l
      | (None, n) \<Rightarrow> n)"

definition pick_current :: "group \<Rightarrow> nat option \<Rightarrow> nat list \<Rightarrow> nat option" where
  "pick_current es null_pick reals =
     (case (null_pick, if reals = [] then None else Some (last reals)) of
        (Some n, Some r) \<Rightarrow> Some (if wt es r < mtime_at es n then n else r)
      | (Some n, None) \<Rightarrow> Some n
      | (None, r) \<Rightarrow> r)"

text \<open>The moment a version stopped being current; the outer option is the panic.\<close>

definition since_of :: "group \<Rightarrow> nat option \<Rightarrow> nat option \<Rightarrow> nat list \<Rightarrow> nat \<Rightarrow> nat \<Rightarrow> int option option" where
  "since_of es null_slot null_pick reals current i =
     (if i = current then Some None
      else case fst (es ! i) of
          Some v \<Rightarrow>
            if v \<noteq> VK_NULL
            then (case find (\<lambda>r. v < vk_of es r) reals of
                Some r \<Rightarrow> Some (Some (wt es r))
              | None \<Rightarrow> map_option (\<lambda>n. Some (mtime_at es n)) null_pick)
            else Some (Some (wt es current))
        | None \<Rightarrow>
            (case reals of
                r # _ \<Rightarrow> Some (Some (wt es r))
              | [] \<Rightarrow> map_option (\<lambda>n. Some (mtime_at es n)) null_slot))"

text \<open>Newest first: write time, then real versions, then the larger id. The sort is stable.\<close>

definition newer :: "group \<Rightarrow> nat \<Rightarrow> nat \<Rightarrow> bool" where
  "newer es a b \<longleftrightarrow> wt es b < wt es a \<or> wt es a = wt es b \<and>
     (is_real es a \<and> \<not> is_real es b \<or> is_real es a = is_real es b \<and>
       (case (fst (es ! a), fst (es ! b)) of
          (Some v, Some w) \<Rightarrow> w < v | (Some _, None) \<Rightarrow> True | (None, _) \<Rightarrow> False))"

fun insert_by :: "('a \<Rightarrow> 'a \<Rightarrow> bool) \<Rightarrow> 'a \<Rightarrow> 'a list \<Rightarrow> 'a list" where
  "insert_by before x [] = [x]"
| "insert_by before x (y # ys) = (if before y x then y # insert_by before x ys else x # y # ys)"

definition sort_by :: "('a \<Rightarrow> 'a \<Rightarrow> bool) \<Rightarrow> 'a list \<Rightarrow> 'a list" where
  "sort_by before xs = foldr (insert_by before) xs []"

definition group_action_of :: "group \<Rightarrow> nat \<Rightarrow> object_meta \<Rightarrow> lifecycle_action \<Rightarrow> group_action option" where
  "group_action_of es current m a =
     (case a of
        DeleteCurrent \<Rightarrow> Some \<lparr>ga_action = a, ga_target_vk = vk_of es current, ga_bytes = om_size m\<rparr>
      | DeleteNoncurrentVersion vk \<Rightarrow> Some \<lparr>ga_action = a, ga_target_vk = vk, ga_bytes = om_size m\<rparr>
      | AbortUpload \<Rightarrow> None
      | _ \<Rightarrow> Some \<lparr>ga_action = a, ga_target_vk = vk_of es current, ga_bytes = 0\<rparr>)"

definition skip_shadowed :: "nat option \<Rightarrow> nat option \<Rightarrow> lifecycle_action \<Rightarrow> bool" where
  "skip_shadowed legacy null_slot a \<longleftrightarrow> a = DeleteNoncurrentVersion VK_NULL \<and> legacy \<noteq> None \<and> null_slot \<noteq> None"

fun action_loop :: "group \<Rightarrow> nat option \<Rightarrow> nat option \<Rightarrow> nat \<Rightarrow> object_meta \<Rightarrow> lifecycle_action list \<Rightarrow>
    group_action list \<Rightarrow> group_action list option" where
  "action_loop es legacy null_slot current m [] out = Some out"
| "action_loop es legacy null_slot current m (a # as) out =
     (if skip_shadowed legacy null_slot a then action_loop es legacy null_slot current m as out
      else case group_action_of es current m a of
          None \<Rightarrow> None
        | Some ga \<Rightarrow> action_loop es legacy null_slot current m as (push_unique ga out))"

definition entry_ctx_of :: "bytes \<Rightarrow> group \<Rightarrow> versioning_state \<Rightarrow> nat \<Rightarrow> int option \<Rightarrow> u32 option \<Rightarrow> nat \<Rightarrow> entry_ctx" where
  "entry_ctx_of key es v current since rank i =
     \<lparr>ec_key = key, ec_vk = fst (es ! i), ec_meta = snd (es ! i), ec_versioning = v, ec_is_current = (i = current),
      ec_noncurrent_since = since, ec_group_len = length es, ec_noncurrent_rank = rank\<rparr>"

fun group_loop :: "bytes \<Rightarrow> group \<Rightarrow> versioning_state \<Rightarrow> lifecycle_rule list \<Rightarrow> int \<Rightarrow> nat option \<Rightarrow> nat option \<Rightarrow>
    nat option \<Rightarrow> nat list \<Rightarrow> nat \<Rightarrow> nat list \<Rightarrow> nat list \<Rightarrow> group_action list \<Rightarrow> group_action list option" where
  "group_loop key es v rules now legacy null_slot null_pick reals current noncurrent [] out = Some out"
| "group_loop key es v rules now legacy null_slot null_pick reals current noncurrent (i # is) out =
     (case since_of es null_slot null_pick reals current i of
        None \<Rightarrow> None
      | Some since \<Rightarrow>
          (let rank = map_option of_nat (position (\<lambda>x. x = i) noncurrent);
               ctx = entry_ctx_of key es v current since rank i
           in case action_loop es legacy null_slot current (snd (es ! i)) (match_entry ctx rules now) out of
                None \<Rightarrow> None
              | Some out' \<Rightarrow> group_loop key es v rules now legacy null_slot null_pick reals current noncurrent is out'))"

definition eval_key_group :: "bytes \<Rightarrow> group \<Rightarrow> versioning_state \<Rightarrow> lifecycle_rule list \<Rightarrow> int \<Rightarrow> group_action list option" where
  "eval_key_group key es v rules now =
     (if es = [] then Some []
      else
        (let (legacy, null_slot, reals0) = scan_group 0 es (None, None, []);
             reals = sort_key (vk_of es) reals0;
             null_pick = pick_null es legacy null_slot
         in case pick_current es null_pick reals of
              None \<Rightarrow> None
            | Some current \<Rightarrow>
                group_loop key es v rules now legacy null_slot null_pick reals current
                  (sort_by (newer es) (filter (\<lambda>i. i \<noteq> current) [0..<length es])) [0..<length es] []))"

definition eval_session_abort :: "bytes \<Rightarrow> (bytes \<times> bytes) list \<Rightarrow> int \<Rightarrow> lifecycle_rule list \<Rightarrow> int \<Rightarrow> bool" where
  "eval_session_abort key tags created rules now =
     list_ex (\<lambda>r. lr_status r = LcEnabled \<and> filter_matches (lr_filter r) key tags \<and>
        (case lr_abort_incomplete_multipart r of Some d \<Rightarrow> days_deadline created d \<le> now | None \<Rightarrow> False)) rules"

text \<open>The group the executor reads again before it acts.\<close>

definition fresh_group :: "db \<Rightarrow> bytes \<Rightarrow> bytes \<Rightarrow> group result" where
  "fresh_group db b k =
     bind_res (get_object db b k) (\<lambda>l.
     bind_res (list_key_versions db b k) (\<lambda>vs.
       Inr ((case l of Some m \<Rightarrow> [(None, m)] | None \<Rightarrow> []) @ map (\<lambda>(vk, m). (Some vk, m)) vs)))"

section \<open>The parts of a group\<close>

primrec last_index :: "nat \<Rightarrow> (bytes option \<Rightarrow> bool) \<Rightarrow> group \<Rightarrow> nat option \<Rightarrow> nat option" where
  "last_index n P [] d = d"
| "last_index n P (e # es) d = last_index (n + 1) P es (if P (fst e) then Some n else d)"

primrec real_indices :: "nat \<Rightarrow> group \<Rightarrow> nat list" where
  "real_indices n [] = []"
| "real_indices n (e # es) =
     (case fst e of Some v \<Rightarrow> if v = VK_NULL then [] else [n] | None \<Rightarrow> []) @ real_indices (n + 1) es"

lemma scan_group_eq:
  "scan_group n es (l, z, rs) =
     (last_index n (\<lambda>x. x = None) es l, last_index n (\<lambda>x. x = Some VK_NULL) es z, rs @ real_indices n es)"
proof (induction es arbitrary: n l z rs)
  case (Cons e es)
  then show ?case by (cases e) (auto split: option.split)
qed simp

lemma last_index_Some:
  "last_index n P es d = Some i \<Longrightarrow> d = Some i \<or> n \<le> i \<and> i < n + length es \<and> P (fst (es ! (i - n)))"
proof (induction es arbitrary: n d)
  case (Cons e es)
  from Cons.prems have "last_index (n + 1) P es (if P (fst e) then Some n else d) = Some i" by simp
  from Cons.IH [OF this] show ?case by (auto simp: nth_Cons' split: if_splits)
qed simp

lemma last_index_found: "d \<noteq> None \<or> (\<exists>x \<in> set es. P (fst x)) \<Longrightarrow> last_index n P es d \<noteq> None"
proof (induction es arbitrary: n d)
  case (Cons e es)
  have "(if P (fst e) then Some n else d) \<noteq> None \<or> (\<exists>x \<in> set es. P (fst x))" using Cons.prems by auto
  from Cons.IH [OF this] show ?case by simp
qed simp

lemma last_index_iff:
  assumes "distinct (map fst es)" "\<And>x. P x \<longleftrightarrow> x = c"
  shows "last_index 0 P es None = Some i \<longleftrightarrow> i < length es \<and> fst (es ! i) = c"
proof
  assume h: "i < length es \<and> fst (es ! i) = c"
  then have "\<exists>x \<in> set es. P (fst x)" using assms(2) nth_mem by blast
  then obtain j where j: "last_index 0 P es None = Some j" using last_index_found [of None es P 0] by auto
  then have "j < length es \<and> fst (es ! j) = c" using last_index_Some [OF j] assms(2) by simp
  with h have "i = j" using nth_eq_iff_index_eq [OF assms(1), of i j] by simp
  with j show "last_index 0 P es None = Some i" by simp
qed (use last_index_Some [of 0 P es None i] assms(2) in simp)

lemma set_real_indices: "set (real_indices n es) = {n + j |j. j < length es \<and> is_real es j}"
proof (induction es arbitrary: n)
  case (Cons e es)
  have "{n + j |j. j < length (e # es) \<and> is_real (e # es) j} =
      (if is_real (e # es) 0 then {n} else {}) \<union> {(n + 1) + j |j. j < length es \<and> is_real es j}" (is "?l = ?r")
  proof (intro equalityI subsetI)
    fix x assume "x \<in> ?l"
    then obtain j where j: "x = n + j" "j < length (e # es)" "is_real (e # es) j" by blast
    then show "x \<in> ?r" by (cases j) (auto simp: is_real_def)
  next
    fix x assume "x \<in> ?r"
    then consider "is_real (e # es) 0" "x = n" | j where "x = (n + 1) + j" "j < length es" "is_real es j"
      by (auto split: if_splits)
    then show "x \<in> ?l"
    proof cases
      case 2
      then show ?thesis by (intro CollectI exI [of _ "Suc j"]) (auto simp: is_real_def)
    qed auto
  qed
  moreover have "set (case fst e of Some v \<Rightarrow> if v = VK_NULL then [] else [n] | None \<Rightarrow> []) =
      (if is_real (e # es) 0 then {n} else {})" by (auto simp: is_real_def split: option.split)
  ultimately show ?case using Cons.IH [of "n + 1"] by (simp only: real_indices.simps set_append)
qed simp

definition group_ok :: "group \<Rightarrow> bool" where
  "group_ok es \<longleftrightarrow> distinct (map fst es) \<and> (\<forall>e \<in> set es. case fst e of Some v \<Rightarrow> length v = 16 | None \<Rightarrow> True)"

lemma group_index: "group_ok es \<Longrightarrow> i < length es \<Longrightarrow> j < length es \<Longrightarrow> fst (es ! i) = fst (es ! j) \<longleftrightarrow> i = j"
  unfolding group_ok_def using nth_eq_iff_index_eq [of "map fst es" i j] by simp

lemma real_length: "group_ok es \<Longrightarrow> i < length es \<Longrightarrow> fst (es ! i) = Some v \<Longrightarrow> length v = 16"
  unfolding group_ok_def using nth_mem by fastforce

lemma vk_secs_mono:
  assumes "length v = 16" "length w = 16" "v \<le> w"
  shows "vk_secs v \<le> vk_secs w"
proof -
  have "vk_time_us v \<le> vk_time_us w"
  proof (rule ccontr)
    assume "\<not> vk_time_us v \<le> vk_time_us w"
    then have "w < v" using vk_less_of_time [OF assms(2,1)] by simp
    with assms(3) show False by simp
  qed
  then have "uint (vk_time_us v) \<le> uint (vk_time_us w)" by (simp add: word_le_def)
  then show ?thesis unfolding vk_secs_def uint_div by (simp add: zdiv_mono1)
qed

text \<open>The evaluation's view of a group: legacy entry, null slot, real versions by id, null pick, current.\<close>

definition parts :: "group \<Rightarrow> nat option \<Rightarrow> nat option \<Rightarrow> nat list \<Rightarrow> nat option \<Rightarrow> nat \<Rightarrow> bool" where
  "parts es l z rs np cur \<longleftrightarrow>
     (\<exists>rs0. scan_group 0 es (None, None, []) = (l, z, rs0) \<and> rs = sort_key (vk_of es) rs0) \<and>
     np = pick_null es l z \<and> pick_current es np rs = Some cur"

lemma parts_spec:
  assumes "parts es l z rs np cur" "group_ok es"
  shows "l = Some i \<longleftrightarrow> i < length es \<and> fst (es ! i) = None"
    "z = Some i \<longleftrightarrow> i < length es \<and> fst (es ! i) = Some VK_NULL"
    "set rs = {i. i < length es \<and> is_real es i}" "sorted (map (vk_of es) rs)"
proof -
  obtain rs0 where r: "scan_group 0 es (None, None, []) = (l, z, rs0)" "rs = sort_key (vk_of es) rs0"
    using assms(1) by (auto simp: parts_def)
  have dist: "distinct (map fst es)" using assms(2) by (simp add: group_ok_def)
  have e: "l = last_index 0 (\<lambda>x. x = None) es None" "z = last_index 0 (\<lambda>x. x = Some VK_NULL) es None" "rs0 = real_indices 0 es"
    using r(1) by (simp_all add: scan_group_eq)
  show "l = Some i \<longleftrightarrow> i < length es \<and> fst (es ! i) = None" "z = Some i \<longleftrightarrow> i < length es \<and> fst (es ! i) = Some VK_NULL"
    unfolding e by (simp_all add: last_index_iff [OF dist])
  show "set rs = {i. i < length es \<and> is_real es i}" by (simp add: r(2) e(3) set_real_indices)
  show "sorted (map (vk_of es) rs)" by (simp add: r(2))
qed

lemma parts_exist:
  assumes "es \<noteq> []"
  shows "\<exists>l z rs np cur. parts es l z rs np cur"
proof -
  define l where "l = last_index 0 (\<lambda>x. x = None) es None"
  define z where "z = last_index 0 (\<lambda>x. x = Some VK_NULL) es None"
  define rs0 where "rs0 = real_indices 0 es"
  have r: "scan_group 0 es (None, None, []) = (l, z, rs0)" by (simp add: scan_group_eq l_def z_def rs0_def)
  have z0: "0 < length es" "es ! 0 \<in> set es" using assms by simp_all
  consider "fst (es ! 0) = None" | "fst (es ! 0) = Some VK_NULL" | "is_real es 0"
    by (cases "fst (es ! 0)") (auto simp: is_real_def)
  then have "l \<noteq> None \<or> z \<noteq> None \<or> rs0 \<noteq> []"
  proof cases
    case 1
    then have "l \<noteq> None" unfolding l_def using z0 by (intro last_index_found) auto
    then show ?thesis by simp
  next
    case 2
    then have "z \<noteq> None" unfolding z_def using z0 by (intro last_index_found) auto
    then show ?thesis by simp
  next
    case 3
    then have "0 \<in> set rs0" using z0 by (simp add: rs0_def set_real_indices)
    then show ?thesis by auto
  qed
  moreover have "sort_key (vk_of es) rs0 = [] \<longleftrightarrow> rs0 = []" by (metis length_0_conv length_sort)
  ultimately have "\<exists>cur. pick_current es (pick_null es l z) (sort_key (vk_of es) rs0) = Some cur"
    by (auto simp: pick_current_def pick_null_def split: option.split)
  with r show ?thesis unfolding parts_def by blast
qed

lemma last_greatest: "sorted (map f rs) \<Longrightarrow> r \<in> set rs \<Longrightarrow> f r \<le> f (last rs)"
  by (induction rs) (auto split: if_splits)

lemma current_cases:
  assumes "parts es l z rs np cur"
  obtains "np = Some cur" "\<forall>r \<in> set rs. rs \<noteq> [] \<and> wt es (last rs) < mtime_at es cur"
  | "rs \<noteq> []" "cur = last rs" "\<forall>n. np = Some n \<longrightarrow> mtime_at es n \<le> wt es cur"
  using assms that by (auto simp: parts_def pick_current_def split: option.splits if_splits)

lemma pick_null_in: "np = pick_null es l z \<Longrightarrow> np = Some n \<Longrightarrow> l = Some n \<or> z = Some n"
  by (auto simp: pick_null_def split: option.splits if_splits)

lemma current_in:
  assumes "parts es l z rs np cur" "group_ok es"
  shows "cur < length es"
  using assms(1)
proof (cases rule: current_cases)
  case 1
  then show ?thesis using parts_spec(1,2) [OF assms, of cur] pick_null_in [of np es l z cur] assms(1) by (auto simp: parts_def)
next
  case 2
  then show ?thesis using parts_spec(3) [OF assms] last_in_set [of rs] by auto
qed

section \<open>When a version stopped being current\<close>

lemma real_wt: "is_real es i \<Longrightarrow> wt es i = vk_secs (vk_of es i)" "\<not> is_real es i \<Longrightarrow> wt es i = mtime_at es i"
  by (simp_all add: wt_def)

lemma real_later:
  assumes "group_ok es" "i < length es" "j < length es" "is_real es i" "is_real es j" "vk_of es i \<le> vk_of es j"
  shows "wt es i \<le> wt es j"
proof -
  have "length (vk_of es i) = 16" "length (vk_of es j) = 16"
    using assms(2-5) real_length [OF assms(1)] by (auto simp: is_real_def vk_of_def split: option.splits)
  then show ?thesis using vk_secs_mono assms(4-6) by (simp add: real_wt)
qed

lemma newest_replaced:
  assumes "parts es l z rs np cur" "group_ok es" "i < length es" "i \<noteq> cur" "is_real es i"
    "find (\<lambda>r. vk_of es i < vk_of es r) rs = None"
  shows "np = Some cur \<and> wt es i < mtime_at es cur \<and> \<not> is_real es cur"
proof -
  note spec = parts_spec [OF assms(1,2)]
  have i: "i \<in> set rs" using spec(3) assms(3,5) by simp
  then have ne: "rs \<noteq> []" by auto
  have "\<not> vk_of es i < vk_of es (last rs)" using assms(6) ne by (auto simp: find_None_iff)
  moreover have "vk_of es i \<le> vk_of es (last rs)" using last_greatest [OF spec(4) i] .
  ultimately have "vk_of es (last rs) = vk_of es i" by simp
  moreover have lr: "last rs < length es" "is_real es (last rs)" using spec(3) ne last_in_set by blast+
  ultimately have "fst (es ! last rs) = fst (es ! i)" using assms(5) by (auto simp: is_real_def vk_of_def split: option.splits)
  then have li: "last rs = i" using group_index [OF assms(2) lr(1) assms(3)] by simp
  from assms(1) have c: "np = Some cur \<and> wt es i < mtime_at es cur"
    using li ne assms(4) i by (cases rule: current_cases) auto
  then have "\<not> is_real es cur"
    using pick_null_in [of np es l z cur] spec(1,2) [of cur] assms(1) by (auto simp: parts_def is_real_def)
  with c show ?thesis by simp
qed

lemma unversioned_replaced:
  assumes "parts es l z rs np cur" "group_ok es" "i < length es" "i \<noteq> cur" "fst (es ! i) = None" "rs = []"
  shows "z = Some cur"
proof -
  have l: "l = Some i" using parts_spec(1) [OF assms(1,2)] assms(3,5) by simp
  have np: "np = pick_null es l z" using assms(1) by (simp add: parts_def)
  from assms(1) have "np = Some cur" using assms(6) by (cases rule: current_cases) auto
  then show ?thesis using pick_null_in [OF np] l assms(4) by simp
qed

lemma since_null:
  assumes "parts es l z rs np cur" "group_ok es" "i < length es" "i \<noteq> cur" "fst (es ! i) = Some VK_NULL"
  shows "since_of es z np rs cur i = Some (Some (wt es cur)) \<and> wt es i \<le> wt es cur"
proof -
  note spec = parts_spec [OF assms(1,2)]
  have z: "z = Some i" using spec(2) assms(3,5) by simp
  have ni: "wt es i = mtime_at es i" using assms(5) by (simp add: wt_def is_real_def)
  have np: "np = pick_null es l z" using assms(1) by (simp add: parts_def)
  have "wt es i \<le> wt es cur"
    using assms(1)
  proof (cases rule: current_cases)
    case 1
    then have l: "l = Some cur" "mtime_at es i \<le> mtime_at es cur"
      using np z assms(4) by (auto simp: pick_null_def split: option.splits if_splits)
    then have "\<not> is_real es cur" using spec(1) by (simp add: is_real_def)
    with l ni show ?thesis by (simp add: real_wt)
  next
    case 2
    obtain n where "np = Some n" "mtime_at es i \<le> mtime_at es n"
      using np z by (cases l) (auto simp: pick_null_def)
    then show ?thesis using 2 ni by force
  qed
  with assms(4,5) show ?thesis by (simp add: since_of_def)
qed

text \<open>
  The moment a noncurrent version was replaced: the first write of a version with an id that comes after
  it (for the unversioned entry, the first version with an id at all), and the write of the current
  version where there is no such write.
\<close>

definition successors :: "group \<Rightarrow> nat \<Rightarrow> nat set" where
  "successors es i = {j. j < length es \<and> is_real es j \<and> (fst (es ! i) = None \<or> vk_of es i < vk_of es j)}"

definition replaced_at :: "group \<Rightarrow> nat \<Rightarrow> nat \<Rightarrow> int" where
  "replaced_at es cur i = (if successors es i = {} then wt es cur else Min (wt es ` successors es i))"

lemma finite_successors [simp]: "finite (successors es i)"
  by (simp add: successors_def)

lemma replaced_first:
  assumes "group_ok es" "r \<in> successors es i" "\<And>j. j \<in> successors es i \<Longrightarrow> vk_of es r \<le> vk_of es j"
  shows "replaced_at es cur i = wt es r"
proof -
  have "wt es r \<le> wt es j" if "j \<in> successors es i" for j
    using real_later [OF assms(1), of r j] assms(2) assms(3) [OF that] that by (simp add: successors_def)
  then have "Min (wt es ` successors es i) = wt es r" using assms(2) by (intro Min_eqI) auto
  then show ?thesis using assms(2) by (auto simp: replaced_at_def)
qed

lemma find_least:
  assumes "find P rs = Some r" "sorted (map f rs)" "j \<in> set rs" "P j"
  shows "f r \<le> f j"
  using assms
proof (induction rs)
  case (Cons x xs)
  then show ?case by (cases "P x") auto
qed simp

lemma since_replaced:
  assumes "parts es l z rs np cur" "group_ok es" "i < length es" "i \<noteq> cur"
  shows "since_of es z np rs cur i = Some (Some (replaced_at es cur i))"
proof -
  note spec = parts_spec [OF assms(1,2)]
  consider (id) v where "fst (es ! i) = Some v" "v \<noteq> VK_NULL" | (null) "fst (es ! i) = Some VK_NULL" | (legacy) "fst (es ! i) = None"
    by (cases "fst (es ! i)") auto
  then show ?thesis
  proof cases
    case id
    then have real: "is_real es i" "vk_of es i = v" by (simp_all add: is_real_def vk_of_def)
    have suc: "successors es i = {j. j \<in> set rs \<and> v < vk_of es j}" using id real(2) spec(3) by (auto simp: successors_def)
    show ?thesis
    proof (cases "find (\<lambda>r. v < vk_of es r) rs")
      case (Some r)
      then have "r \<in> successors es i" unfolding suc by (auto simp: find_Some_iff)
      moreover have "vk_of es r \<le> vk_of es j" if "j \<in> successors es i" for j
        using find_least [OF Some spec(4)] that by (simp add: suc)
      ultimately have "replaced_at es cur i = wt es r" by (rule replaced_first [OF assms(2)])
      with Some id assms(4) show ?thesis by (simp add: since_of_def)
    next
      case None
      then have "successors es i = {}" by (auto simp: suc find_None_iff)
      moreover have "np = Some cur" "\<not> is_real es cur" using newest_replaced [OF assms real(1)] None id real(2) by auto
      ultimately show ?thesis using None id assms(4) by (simp add: since_of_def replaced_at_def real_wt)
    qed
  next
    case null
    have "successors es i = {}"
    proof (rule equals0I)
      fix j assume j: "j \<in> successors es i"
      then obtain w where w: "fst (es ! j) = Some w" "w = vk_of es j" by (auto simp: successors_def is_real_def vk_of_def split: option.splits)
      then have "vk_of es j \<le> VK_NULL" using real_length [OF assms(2), of j w] vk_le_null [of w] j by (simp add: successors_def)
      moreover have "vk_of es i = VK_NULL" using null by (simp add: vk_of_def)
      ultimately show False using j null by (auto simp: successors_def)
    qed
    with null assms(4) show ?thesis by (simp add: since_of_def replaced_at_def)
  next
    case legacy
    have suc: "successors es i = set rs" using legacy spec(3) by (auto simp: successors_def)
    show ?thesis
    proof (cases rs)
      case Nil
      then have "z = Some cur" "\<not> is_real es cur" using unversioned_replaced [OF assms legacy] spec(2) by (auto simp: is_real_def)
      with Nil suc legacy assms(4) show ?thesis by (simp add: since_of_def replaced_at_def real_wt)
    next
      case (Cons r rs')
      then have "replaced_at es cur i = wt es r" using spec(4) by (intro replaced_first [OF assms(2)]) (auto simp: suc)
      with Cons legacy assms(4) show ?thesis by (simp add: since_of_def)
    qed
  qed
qed

text \<open>A version with an id, or in the null slot, was replaced no earlier than it was written.\<close>

lemma replaced_after_write:
  assumes "parts es l z rs np cur" "group_ok es" "i < length es" "i \<noteq> cur" "fst (es ! i) \<noteq> None"
  shows "wt es i \<le> replaced_at es cur i"
proof (cases "is_real es i")
  case real: True
  have nn: "fst (es ! i) \<noteq> None" by fact
  show ?thesis
  proof (cases "successors es i = {}")
    case True
    then have "find (\<lambda>r. vk_of es i < vk_of es r) rs = None"
      using parts_spec(3) [OF assms(1,2)] by (auto simp: find_None_iff successors_def)
    from newest_replaced [OF assms(1-4) real this] True show ?thesis by (simp add: replaced_at_def real_wt)
  next
    case False
    have "wt es i \<le> wt es j" if "j \<in> successors es i" for j
      using real_later [OF assms(2,3), of j] real that nn by (auto simp: successors_def)
    with False show ?thesis by (simp add: replaced_at_def)
  qed
next
  case False
  then have "fst (es ! i) = Some VK_NULL" using assms(5) by (auto simp: is_real_def split: option.splits)
  from since_null [OF assms(1-4) this] since_replaced [OF assms(1-4)] show ?thesis by simp
qed

lemma since_ok:
  assumes "parts es l z rs np cur" "group_ok es" "i < length es"
  shows "since_of es z np rs cur i = Some (if i = cur then None else Some (replaced_at es cur i))"
  using since_replaced [OF assms] by (auto simp: since_of_def)

section \<open>The actions\<close>

lemma set_push_unique [simp]: "set (push_unique a v) = insert a (set v)"
  by (auto simp: push_unique_def)

lemma set_fold_push: "set (fold push_unique as v) = set as \<union> set v"
  by (induction as arbitrary: v) auto

lemma set_match_entry: "set (match_entry ctx rules now) = (\<Union>r \<in> set rules. set (rule_actions ctx now r))"
proof -
  have "set (fold (\<lambda>rule. fold push_unique (rule_actions ctx now rule)) rules v) =
      set v \<union> (\<Union>r \<in> set rules. set (rule_actions ctx now r))" for v
    by (induction rules arbitrary: v) (auto simp: set_fold_push)
  from this [of "[]"] show ?thesis by (simp add: match_entry_def)
qed

lemma no_abort: "AbortUpload \<notin> set (match_entry ctx rules now)"
  by (auto simp: set_match_entry rule_actions_def transition_actions_def expiration_actions_def noncurrent_actions_def Let_def
      split: if_splits option.splits)

definition actions_of :: "group \<Rightarrow> nat option \<Rightarrow> nat option \<Rightarrow> nat \<Rightarrow> object_meta \<Rightarrow> lifecycle_action list \<Rightarrow> group_action set" where
  "actions_of es l z cur m as = {ga. \<exists>a \<in> set as. \<not> skip_shadowed l z a \<and> group_action_of es cur m a = Some ga}"

lemma action_loop_set:
  "AbortUpload \<notin> set as \<Longrightarrow> \<exists>out'. action_loop es l z cur m as out = Some out' \<and> set out' = set out \<union> actions_of es l z cur m as"
proof (induction as arbitrary: out)
  case (Cons a as)
  show ?case
  proof (cases "skip_shadowed l z a")
    case True
    then show ?thesis using Cons by (auto simp: actions_of_def)
  next
    case False
    obtain ga where ga: "group_action_of es cur m a = Some ga" using Cons.prems by (cases a) (auto simp: group_action_of_def)
    have "AbortUpload \<notin> set as" using Cons.prems by simp
    from Cons.IH [OF this, of "push_unique ga out"] False ga show ?thesis by (auto simp: actions_of_def)
  qed
qed (simp add: actions_of_def)

definition ctx_at :: "bytes \<Rightarrow> group \<Rightarrow> versioning_state \<Rightarrow> nat option \<Rightarrow> nat list \<Rightarrow> nat option \<Rightarrow> nat \<Rightarrow> nat list \<Rightarrow> nat \<Rightarrow> entry_ctx" where
  "ctx_at key es v z rs np cur nc i =
     entry_ctx_of key es v cur (case since_of es z np rs cur i of Some s \<Rightarrow> s | None \<Rightarrow> None)
       (map_option of_nat (position (\<lambda>x. x = i) nc)) i"

lemma group_loop_set:
  assumes "\<forall>i \<in> set is. since_of es z np rs cur i \<noteq> None"
  shows "\<exists>out'. group_loop key es v rules now l z np rs cur nc is out = Some out' \<and>
    set out' = set out \<union> (\<Union>i \<in> set is. actions_of es l z cur (snd (es ! i)) (match_entry (ctx_at key es v z rs np cur nc i) rules now))"
  using assms
proof (induction "is" arbitrary: out)
  case (Cons i "is")
  obtain since where s: "since_of es z np rs cur i = Some since" using Cons.prems by auto
  obtain out1 where o1: "action_loop es l z cur (snd (es ! i)) (match_entry (ctx_at key es v z rs np cur nc i) rules now) out = Some out1"
    "set out1 = set out \<union> actions_of es l z cur (snd (es ! i)) (match_entry (ctx_at key es v z rs np cur nc i) rules now)"
    using action_loop_set [OF no_abort] by blast
  from Cons.IH [of out1] Cons.prems obtain out2 where o2:
    "group_loop key es v rules now l z np rs cur nc is out1 = Some out2"
    "set out2 = set out1 \<union> (\<Union>i \<in> set is. actions_of es l z cur (snd (es ! i)) (match_entry (ctx_at key es v z rs np cur nc i) rules now))"
    by auto
  have "group_loop key es v rules now l z np rs cur nc (i # is) out = Some out2"
    using s o1(1) o2(1) by (simp add: ctx_at_def Let_def)
  then show ?case using o1(2) o2(2) by auto
qed simp

definition noncurrent_order :: "group \<Rightarrow> nat \<Rightarrow> nat list" where
  "noncurrent_order es cur = sort_by (newer es) (filter (\<lambda>i. i \<noteq> cur) [0..<length es])"

lemma eval_char:
  assumes "group_ok es" "es \<noteq> []"
  obtains l z rs np cur acts where "parts es l z rs np cur" "eval_key_group key es v rules now = Some acts"
    "set acts = (\<Union>i \<in> {..<length es}. actions_of es l z cur (snd (es ! i))
       (match_entry (ctx_at key es v z rs np cur (noncurrent_order es cur) i) rules now))"
proof -
  obtain l z rs np cur where p: "parts es l z rs np cur" using parts_exist [OF assms(2)] by blast
  then obtain rs0 where r: "scan_group 0 es (None, None, []) = (l, z, rs0)" "rs = sort_key (vk_of es) rs0"
    "np = pick_null es l z" "pick_current es np rs = Some cur" by (auto simp: parts_def)
  have "\<forall>i \<in> set [0..<length es]. since_of es z np rs cur i \<noteq> None" using since_ok [OF p assms(1)] by fastforce
  from group_loop_set [OF this, of key v rules now l "noncurrent_order es cur" "[]"]
  obtain acts where "group_loop key es v rules now l z np rs cur (noncurrent_order es cur) [0..<length es] [] = Some acts"
    "set acts = (\<Union>i \<in> set [0..<length es]. actions_of es l z cur (snd (es ! i))
       (match_entry (ctx_at key es v z rs np cur (noncurrent_order es cur) i) rules now))" by auto
  moreover have "eval_key_group key es v rules now =
      group_loop key es v rules now l z np rs cur (noncurrent_order es cur) [0..<length es] []"
    using r assms(2) by (simp add: eval_key_group_def noncurrent_order_def Let_def)
  ultimately show ?thesis using that p by (simp add: atLeast0LessThan)
qed

section \<open>The order of noncurrent versions\<close>

lemma set_insert_by [simp]: "set (insert_by before x ys) = insert x (set ys)"
  by (induction ys) auto

lemma set_sort_by [simp]: "set (sort_by before xs) = set xs"
  by (induction xs) (simp_all add: sort_by_def)

lemma distinct_insert_by: "distinct (insert_by before x ys) \<longleftrightarrow> x \<notin> set ys \<and> distinct ys"
  by (induction ys) auto

lemma distinct_sort_by: "distinct xs \<Longrightarrow> distinct (sort_by before xs)"
proof (induction xs)
  case (Cons x xs)
  then show ?case using set_sort_by [of before xs] by (simp add: sort_by_def distinct_insert_by)
qed (simp add: sort_by_def)

lemma sorted_insert_by:
  fixes f :: "'a \<Rightarrow> 'b :: linorder"
  assumes "\<And>x y. before x y \<longleftrightarrow> f y < f x" "sorted_wrt (\<lambda>x y. f y \<le> f x) ys"
  shows "sorted_wrt (\<lambda>x y. f y \<le> f x) (insert_by before x ys)"
  using assms(2) by (induction ys) (auto simp: assms(1) not_less)

lemma sorted_sort_by:
  fixes f :: "'a \<Rightarrow> 'b :: linorder"
  assumes "\<And>x y. before x y \<longleftrightarrow> f y < f x"
  shows "sorted_wrt (\<lambda>x y. f y \<le> f x) (sort_by before xs)"
proof (induction xs)
  case (Cons x xs)
  from sorted_insert_by [OF assms Cons.IH] show ?case by (simp add: sort_by_def)
qed (simp add: sort_by_def)

lemma position_before:
  assumes "position P xs = Some n"
  shows "n < length xs \<and> P (xs ! n)"
proof -
  let ?n = "length (takeWhile (\<lambda>x. \<not> P x) xs)"
  have "?n < length xs" "n = ?n" using assms by (auto simp: position_def Let_def split: if_splits)
  then show ?thesis using nth_length_takeWhile [of "\<lambda>x. \<not> P x" xs] by simp
qed

definition age_key :: "group \<Rightarrow> nat \<Rightarrow> int \<times> bool \<times> bool \<times> bytes" where
  "age_key es i = (wt es i, is_real es i, fst (es ! i) \<noteq> None, vk_of es i)"

lemma newer_key: "newer es a b \<longleftrightarrow> age_key es b < age_key es a"
  by (auto simp: newer_def age_key_def less_prod_def' vk_of_def split: option.splits)

lemma rank_newer:
  assumes "group_ok es" "position (\<lambda>x. x = i) (noncurrent_order es cur) = Some n"
  shows "n = card {j. j < length es \<and> j \<noteq> cur \<and> newer es j i}"
proof -
  let ?o = "noncurrent_order es cur"
  have dist: "distinct ?o" by (simp add: noncurrent_order_def distinct_sort_by)
  have set: "set ?o = {j. j < length es \<and> j \<noteq> cur}" by (auto simp: noncurrent_order_def)
  have so: "sorted_wrt (\<lambda>x y. age_key es y \<le> age_key es x) ?o"
    unfolding noncurrent_order_def by (rule sorted_sort_by) (rule newer_key)
  have n: "n < length ?o" "?o ! n = i" using position_before [OF assms(2)] by simp_all
  have inj: "age_key es a = age_key es b \<longleftrightarrow> a = b" if "a < length es" "b < length es" for a b
    using group_index [OF assms(1) that] by (auto simp: age_key_def vk_of_def split: option.splits)
  have lt: "?o ! k < length es" if "k < length ?o" for k using nth_mem [OF that] set by simp
  have iff: "newer es (?o ! k) i \<longleftrightarrow> k < n" if k: "k < length ?o" for k
  proof -
    consider "k < n" | "k = n" | "n < k" by linarith
    then show ?thesis
    proof cases
      case 1
      then have "age_key es i \<le> age_key es (?o ! k)" using sorted_wrt_nth_less [OF so 1 n(1)] n(2) by simp
      moreover have "?o ! k \<noteq> i" using nth_eq_iff_index_eq [OF dist k n(1)] 1 n(2) by simp
      ultimately show ?thesis using 1 inj [OF lt [OF n(1)] lt [OF k]] n(2) by (auto simp: newer_key order.order_iff_strict)
    next
      case 3
      then have "age_key es (?o ! k) \<le> age_key es i" using sorted_wrt_nth_less [OF so 3 k] n(2) by simp
      with 3 show ?thesis by (simp add: newer_key not_less)
    qed (simp add: n(2) newer_key)
  qed
  have "{j. j < length es \<and> j \<noteq> cur \<and> newer es j i} = (!) ?o ` {..<n}"
  proof (intro equalityI subsetI)
    fix j assume "j \<in> {j. j < length es \<and> j \<noteq> cur \<and> newer es j i}"
    then have "j \<in> set ?o" "newer es j i" using set by auto
    then obtain k where "k < length ?o" "j = ?o ! k" by (auto simp: in_set_conv_nth)
    with \<open>newer es j i\<close> iff show "j \<in> (!) ?o ` {..<n}" by auto
  next
    fix j assume "j \<in> (!) ?o ` {..<n}"
    then obtain k where k: "j = ?o ! k" "k < n" by auto
    then have "k < length ?o" using n(1) by simp
    then have "j \<in> set ?o" "newer es j i" using k iff by (auto simp: in_set_conv_nth)
    then show "j \<in> {j. j < length es \<and> j \<noteq> cur \<and> newer es j i}" using set by simp
  qed
  moreover have "inj_on ((!) ?o) {..<n}" using dist n(1) by (auto simp: inj_on_def nth_eq_iff_index_eq)
  ultimately show ?thesis by (simp add: card_image)
qed

section \<open>Deadlines\<close>

lemma days_deadline_bounds:
  assumes "- (2 ^ 62) \<le> base" "base \<le> 2 ^ 62"
  shows "base + uint d * 86400 < days_deadline base d" "days_deadline base d \<le> base + (uint d + 1) * 86400"
proof -
  have "uint d < 2 ^ 32" using unsigned_less [of d, where 'a = int] by simp
  then have b: "- (2 ^ 62) \<le> base + uint d * 86400" "base + uint d * 86400 \<le> 2 ^ 62 + 2 ^ 32 * 86400"
    using assms uint_ge_0 [of d] by linarith+
  let ?x = "base + uint d * 86400"
  have w: "i64_wrap ?x = ?x" using b by (simp add: i64_wrap_def)
  have "?x div 86400 * 86400 + ?x mod 86400 = ?x" "0 \<le> ?x mod 86400" "?x mod 86400 < 86400" by simp_all
  then have m: "?x < (?x div 86400 + 1) * 86400" "(?x div 86400 + 1) * 86400 \<le> ?x + 86400"
    unfolding distrib_right by linarith+
  then have "i64_wrap ((?x div 86400 + 1) * 86400) = (?x div 86400 + 1) * 86400" using b by (simp add: i64_wrap_def)
  then have "days_deadline base d = (?x div 86400 + 1) * 86400" by (simp add: days_deadline_def next_midnight_utc_def w)
  with m show "base + uint d * 86400 < days_deadline base d" "days_deadline base d \<le> base + (uint d + 1) * 86400"
    by (simp_all add: algebra_simps)
qed

section \<open>Properties\<close>

definition group_current :: "group \<Rightarrow> nat option" where
  "group_current es =
     (case scan_group 0 es (None, None, []) of
        (l, z, rs0) \<Rightarrow> pick_current es (pick_null es l z) (sort_key (vk_of es) rs0))"

lemma parts_current: "parts es l z rs np cur \<Longrightarrow> group_current es = Some cur"
  by (auto simp: parts_def group_current_def)

definition times_ok :: "group \<Rightarrow> bool" where
  "times_ok es \<longleftrightarrow> (\<forall>e \<in> set es. - (2 ^ 62) \<le> om_mtime (snd e) \<and> om_mtime (snd e) \<le> 2 ^ 62)"

lemma vk_secs_bounds: "0 \<le> vk_secs v" "vk_secs v \<le> 2 ^ 62"
proof -
  have "uint (vk_time_us v) < 18446744073709551616" using unsigned_less [of "vk_time_us v", where 'a = int] by simp
  then have "uint (vk_time_us v) div 1000000 \<le> 2 ^ 62" by simp
  then show "0 \<le> vk_secs v" "vk_secs v \<le> 2 ^ 62" by (simp_all add: vk_secs_def uint_div pos_imp_zdiv_nonneg_iff)
qed

lemma wt_bounds: "times_ok es \<Longrightarrow> i < length es \<Longrightarrow> - (2 ^ 62) \<le> wt es i \<and> wt es i \<le> 2 ^ 62"
  using vk_secs_bounds [of "vk_of es i"] nth_mem [of i es] by (auto simp: wt_def times_ok_def mtime_at_def)

lemma replaced_bounds:
  assumes "parts es l z rs np cur" "group_ok es" "times_ok es"
  shows "- (2 ^ 62) \<le> replaced_at es cur i \<and> replaced_at es cur i \<le> 2 ^ 62"
proof (cases "successors es i = {}")
  case True
  then show ?thesis using wt_bounds [OF assms(3) current_in [OF assms(1,2)]] by (simp add: replaced_at_def)
next
  case False
  then have "replaced_at es cur i \<in> wt es ` successors es i" using Min_in [of "wt es ` successors es i"] by (simp add: replaced_at_def)
  then obtain j where "j \<in> successors es i" "replaced_at es cur i = wt es j" by blast
  then show ?thesis using wt_bounds [OF assms(3), of j] by (simp add: successors_def)
qed

lemma length_noncurrent: "length (noncurrent_order es cur) \<le> length es"
proof -
  have "length (insert_by before x ys) = Suc (length ys)" for before :: "nat \<Rightarrow> nat \<Rightarrow> bool" and x ys
    by (induction ys) auto
  then have "length (sort_by before xs) = length xs" for before :: "nat \<Rightarrow> nat \<Rightarrow> bool" and xs
    by (induction xs) (simp_all add: sort_by_def)
  then show ?thesis using length_filter_le [of "\<lambda>i. i \<noteq> cur" "[0..<length es]"] by (simp add: noncurrent_order_def)
qed

definition rule_applies :: "lifecycle_rule \<Rightarrow> bytes \<Rightarrow> object_meta \<Rightarrow> bool" where
  "rule_applies rule key m \<longleftrightarrow> lr_status rule = LcEnabled \<and> filter_matches (lr_filter rule) key (om_tags m)"

text \<open>The age in days has passed completely since \<open>base\<close>, or the date has come.\<close>

definition due :: "int \<Rightarrow> int \<Rightarrow> u32 option \<Rightarrow> int option \<Rightarrow> bool" where
  "due now base days date \<longleftrightarrow>
     (case days of Some d \<Rightarrow> base + uint d * 86400 < now | None \<Rightarrow> False) \<or>
     (case date of Some d \<Rightarrow> d \<le> now | None \<Rightarrow> False)"

lemma time_hit_due: "time_hit now base days date \<Longrightarrow> - (2 ^ 62) \<le> base \<Longrightarrow> base \<le> 2 ^ 62 \<Longrightarrow> due now base days date"
  using days_deadline_bounds(1) [of base "the days"]
  by (cases days; cases date) (auto simp: time_hit_def due_def)

text \<open>What justifies an action on version \<open>i\<close> when \<open>cur\<close> is current.\<close>

definition justified :: "group \<Rightarrow> versioning_state \<Rightarrow> int \<Rightarrow> lifecycle_rule \<Rightarrow> nat \<Rightarrow> nat \<Rightarrow> lifecycle_action \<Rightarrow> bool" where
  "justified es v now rule cur i a =
     (let m = snd (es ! i) in case a of
        DeleteNoncurrentVersion vk \<Rightarrow> i \<noteq> cur \<and> v \<noteq> Off \<and> vk = vk_of es i \<and> vk \<noteq> vk_of es cur \<and>
          (case lr_noncurrent_expiration rule of
             None \<Rightarrow> False
           | Some nc \<Rightarrow>
               (case ne_noncurrent_days nc of
                  Some d \<Rightarrow> replaced_at es cur i + uint d * 86400 < now \<and> (fst (es ! i) = None \<or> wt es i \<le> replaced_at es cur i)
                | None \<Rightarrow> False) \<or>
               (case ne_newer_noncurrent_versions nc of
                  Some n \<Rightarrow> unat n \<le> card {j. j < length es \<and> j \<noteq> cur \<and> newer es j i} | None \<Rightarrow> False))
      | ExpireDeleteMarker \<Rightarrow> i = cur \<and> om_is_delete_marker m \<and> length es = 1 \<and>
          (case lr_expiration rule of Some ex \<Rightarrow> le_expired_object_delete_marker ex | None \<Rightarrow> False)
      | Transition c \<Rightarrow> i = cur \<and> \<not> om_is_delete_marker m \<and>
          (case lr_transition rule of
             Some tr \<Rightarrow> c = lt_storage_class tr \<and> due now (om_mtime m) (lt_days tr) (lt_date tr) | None \<Rightarrow> False)
      | AbortUpload \<Rightarrow> False
      | _ \<Rightarrow> i = cur \<and> (a = DeleteCurrent \<longleftrightarrow> v = Off) \<and> \<not> om_is_delete_marker m \<and>
          (case lr_expiration rule of
             Some ex \<Rightarrow> due now (om_mtime m) (le_days ex) (le_date ex) | None \<Rightarrow> False))"

lemma ctx_at_simps [simp]:
  "ec_key (ctx_at key es v z rs np cur nc i) = key" "ec_vk (ctx_at key es v z rs np cur nc i) = fst (es ! i)"
  "ec_meta (ctx_at key es v z rs np cur nc i) = snd (es ! i)" "ec_versioning (ctx_at key es v z rs np cur nc i) = v"
  "ec_is_current (ctx_at key es v z rs np cur nc i) = (i = cur)" "ec_group_len (ctx_at key es v z rs np cur nc i) = length es"
  "ec_noncurrent_since (ctx_at key es v z rs np cur nc i) = (case since_of es z np rs cur i of Some s \<Rightarrow> s | None \<Rightarrow> None)"
  "ec_noncurrent_rank (ctx_at key es v z rs np cur nc i) = map_option of_nat (position (\<lambda>x. x = i) nc)"
  by (simp_all add: ctx_at_def entry_ctx_of_def)

lemma current_justified:
  assumes "times_ok es" "cur < length es" "a \<in> set (rule_actions (ctx_at key es v z rs np cur nc cur) now rule)"
  shows "rule_applies rule key (snd (es ! cur)) \<and> justified es v now rule cur cur a"
proof -
  have b: "- (2 ^ 62) \<le> om_mtime (snd (es ! cur))" "om_mtime (snd (es ! cur)) \<le> 2 ^ 62"
    using assms(1,2) nth_mem [of cur es] by (auto simp: times_ok_def)
  show ?thesis
    using assms(3) time_hit_due [OF _ b]
    by (cases "lr_transition rule"; cases "lr_expiration rule")
      (auto simp: rule_actions_def rule_applies_def justified_def transition_actions_def expiration_actions_def
        split: if_splits)
qed

lemma noncurrent_justified:
  assumes "parts es l z rs np cur" "group_ok es" "times_ok es" "length es < 2 ^ 32" "i < length es" "i \<noteq> cur"
    "a \<in> set (rule_actions (ctx_at key es v z rs np cur (noncurrent_order es cur) i) now rule)" "\<not> skip_shadowed l z a"
  shows "rule_applies rule key (snd (es ! i)) \<and> justified es v now rule cur i a"
proof -
  let ?ctx = "ctx_at key es v z rs np cur (noncurrent_order es cur) i"
  let ?t = "replaced_at es cur i"
  have s: "since_of es z np rs cur i = Some (Some ?t)" using since_replaced [OF assms(1,2,5,6)] .
  have r: "rule_applies rule key (snd (es ! i))" "v \<noteq> Off" "a \<in> set (noncurrent_actions ?ctx now rule)"
    using assms(6,7) by (auto simp: rule_actions_def rule_applies_def split: if_splits)
  then obtain nc where n0: "lr_noncurrent_expiration rule = Some nc"
    by (cases "lr_noncurrent_expiration rule") (auto simp: noncurrent_actions_def)
  with r(3) s have nc: "lr_noncurrent_expiration rule = Some nc" "a = DeleteNoncurrentVersion (vk_of es i)"
    "(\<exists>d. ne_noncurrent_days nc = Some d \<and> days_deadline ?t d \<le> now) \<or>
     (\<exists>n p. ne_newer_noncurrent_versions nc = Some n \<and> position (\<lambda>x. x = i) (noncurrent_order es cur) = Some p \<and> n \<le> of_nat p)"
    by (cases "ne_noncurrent_days nc"; cases "ne_newer_noncurrent_versions nc";
        cases "position (\<lambda>x. x = i) (noncurrent_order es cur)";
        auto simp: noncurrent_actions_def vk_of_def split: if_splits)+
  have other: "vk_of es i \<noteq> vk_of es cur"
  proof
    assume e: "vk_of es i = vk_of es cur"
    have c: "cur < length es" using current_in [OF assms(1,2)] .
    have "fst (es ! i) \<noteq> fst (es ! cur)" using group_index [OF assms(2,5) c] assms(6) by simp
    then have "vk_of es i = VK_NULL \<and> (fst (es ! i) = None \<and> fst (es ! cur) = Some VK_NULL \<or>
        fst (es ! i) = Some VK_NULL \<and> fst (es ! cur) = None)"
      using e by (auto simp: vk_of_def split: option.splits)
    then have "vk_of es i = VK_NULL" "l \<noteq> None" "z \<noteq> None"
      using parts_spec(1,2) [OF assms(1,2)] assms(5) c by (metis option.distinct(1))+
    then show False using assms(8) nc(2) by (simp add: skip_shadowed_def)
  qed
  have "(case ne_noncurrent_days nc of
        Some d \<Rightarrow> ?t + uint d * 86400 < now \<and> (fst (es ! i) = None \<or> wt es i \<le> ?t) | None \<Rightarrow> False) \<or>
     (case ne_newer_noncurrent_versions nc of
        Some n \<Rightarrow> unat n \<le> card {j. j < length es \<and> j \<noteq> cur \<and> newer es j i} | None \<Rightarrow> False)"
    using nc(3)
  proof (elim disjE exE conjE)
    fix d assume d: "ne_noncurrent_days nc = Some d" "days_deadline ?t d \<le> now"
    have "?t + uint d * 86400 < now"
      using days_deadline_bounds(1) [of ?t d] replaced_bounds [OF assms(1-3), of i] d(2) by linarith
    then show ?thesis using d replaced_after_write [OF assms(1,2,5,6)] by auto
  next
    fix n p assume p: "ne_newer_noncurrent_versions nc = Some n" "position (\<lambda>x. x = i) (noncurrent_order es cur) = Some p" "n \<le> of_nat p"
    have "p < length (noncurrent_order es cur)" using position_before [OF p(2)] by simp
    also have "length (noncurrent_order es cur) \<le> length es" by (rule length_noncurrent)
    finally have "unat (of_nat p :: u32) = p" using assms(4) by (simp add: unat_of_nat take_bit_nat_eq_self)
    then have "unat n \<le> p" using p(3) by (simp add: word_le_nat_alt)
    then show ?thesis using rank_newer [OF assms(2) p(2)] p(1) by simp
  qed
  then show ?thesis using r(1,2) nc(1,2) other assms(6) by (simp add: justified_def Let_def)
qed

lemma group_action_cases:
  assumes "parts es l z rs np cur" "group_ok es" "times_ok es" "length es < 2 ^ 32" "i < length es"
    "ga \<in> actions_of es l z cur (snd (es ! i)) (match_entry (ctx_at key es v z rs np cur (noncurrent_order es cur) i) rules now)"
  shows "\<exists>rule \<in> set rules. rule_applies rule key (snd (es ! i)) \<and> justified es v now rule cur i (ga_action ga) \<and>
    ga_target_vk ga = vk_of es i"
proof -
  obtain a rule where a: "\<not> skip_shadowed l z a" "group_action_of es cur (snd (es ! i)) a = Some ga" "rule \<in> set rules"
    "a \<in> set (rule_actions (ctx_at key es v z rs np cur (noncurrent_order es cur) i) now rule)"
    using assms(6) by (auto simp: actions_of_def set_match_entry)
  have j: "rule_applies rule key (snd (es ! i)) \<and> justified es v now rule cur i a"
  proof (cases "i = cur")
    case True
    with a(4) current_justified [OF assms(3), of cur] assms(5) show ?thesis by simp
  next
    case False
    then show ?thesis using noncurrent_justified [OF assms(1-5) False a(4,1)] by simp
  qed
  moreover have "ga_action ga = a" using a(2) by (cases a) (auto simp: group_action_of_def)
  moreover have "ga_target_vk ga = vk_of es i"
    using a(2) j by (cases a) (auto simp: group_action_of_def justified_def Let_def)
  ultimately show ?thesis using a(3) by blast
qed

lemma time_hit_mono: "time_hit now base days date \<Longrightarrow> now \<le> later \<Longrightarrow> time_hit later base days date"
  by (auto simp: time_hit_def split: option.splits)

lemma noncurrent_actions_mono:
  "now \<le> later \<Longrightarrow> set (noncurrent_actions ctx now rule) \<subseteq> set (noncurrent_actions ctx later rule)"
  by (cases "lr_noncurrent_expiration rule"; cases "ne_noncurrent_days (the (lr_noncurrent_expiration rule))";
      cases "ec_noncurrent_since ctx")
    (auto simp: noncurrent_actions_def Let_def)

lemma rule_actions_mono:
  assumes "now \<le> later"
  shows "set (rule_actions ctx now rule) \<subseteq> set (rule_actions ctx later rule)"
proof -
  note hit = time_hit_mono [OF _ assms]
  have "set (transition_actions ctx now rule) \<subseteq> set (transition_actions ctx later rule)"
    using hit by (auto simp: transition_actions_def split: option.split)
  moreover have "set (expiration_actions ctx now rule) \<subseteq> set (expiration_actions ctx later rule)"
    using hit by (auto simp: expiration_actions_def split: option.split)
  ultimately show ?thesis using noncurrent_actions_mono [OF assms, of ctx rule] by (auto simp: rule_actions_def)
qed

lemma match_entry_mono:
  "now \<le> later \<Longrightarrow> set (match_entry ctx rules now) \<subseteq> set (match_entry ctx rules later)"
  using rule_actions_mono by (fastforce simp: set_match_entry)

lemma pick_agrees:
  assumes "parts es l z rs np cur" "group_ok es"
  shows "d1a_pick_current (map_option (\<lambda>i. snd (es ! i)) l) (map_option (\<lambda>i. snd (es ! i)) z)
    (if rs = [] then None else Some (vk_of es (last rs), snd (es ! last rs))) = Some (vk_of es cur, snd (es ! cur))"
proof -
  have fam: "null_family (map_option (\<lambda>i. snd (es ! i)) l) (map_option (\<lambda>i. snd (es ! i)) z) = map_option (\<lambda>i. snd (es ! i)) np"
    using assms(1) by (auto simp: parts_def null_family_def pick_null_def mtime_at_def split: option.split)
  have null: "vk_of es n = VK_NULL" if "np = Some n" for n
    using parts_spec(1,2) [OF assms, of n] pick_null_in [of np es l z n] assms(1) that by (auto simp: parts_def vk_of_def)
  have real: "wt es (last rs) = vk_secs (vk_of es (last rs))" if "rs \<noteq> []"
    using parts_spec(3) [OF assms] last_in_set [OF that] by (auto simp: real_wt)
  have "pick_current es np rs = Some cur" using assms(1) unfolding parts_def by blast
  then show ?thesis
    using fam null real by (auto simp: d1a_pick_current_def pick_current_def mtime_at_def split: option.splits if_splits)
qed

lemma fresh_group_spec:
  assumes "objects_ok db" "addr_ok b k"
  obtains l0 vs where "get_object db b k = Inr l0" "list_key_versions db b k = Inr vs"
    "version_scan_tip db b k = Inr (map_of vs VK_NULL, find real (rev vs))"
    "sorted_wrt (\<lambda>x y. fst x < fst y) vs" "\<forall>x \<in> set vs. length (fst x) = 16"
proof -
  obtain vs where vs: "scan_prefix db (object_key_prefix b k) = map (ventry b k) vs" "\<forall>x \<in> set vs. length (fst x) = 16"
     "sorted_wrt (\<lambda>x y. fst x < fst y) vs" using entries_of_scan [OF assms] by blast
  obtain l0 where "get_object db b k = Inr l0" using get_object_char [OF assms] by auto
  moreover have "list_key_versions db b k = Inr vs"
    using list_versions_map [OF assms(2) vs(2)] vs(1) by (simp add: list_key_versions_def)
  ultimately show ?thesis using that tip_of_entries [OF assms vs] vs by blast
qed

lemma fresh_entries:
  assumes "sorted_wrt (\<lambda>x y. fst x < fst y) vs" "\<forall>x \<in> set vs. length (fst x) = 16"
    "es = (case l0 of Some m \<Rightarrow> [(None, m)] | None \<Rightarrow> []) @ map (\<lambda>(vk, m). (Some vk, m)) vs"
  shows "group_ok es" "(None, m) \<in> set es \<longleftrightarrow> l0 = Some m" "(Some w, m) \<in> set es \<longleftrightarrow> (w, m) \<in> set vs"
proof -
  have dist: "distinct (map fst vs)" using assms(1) by (simp add: strict_sorted_iff flip: sorted_wrt_map)
  have "map fst (map (\<lambda>(vk, m). (Some vk, m)) vs) = map Some (map fst vs)" by (induction vs) auto
  then have fs: "map fst es = (case l0 of Some m \<Rightarrow> [None] | None \<Rightarrow> []) @ map Some (map fst vs)"
    by (simp add: assms(3) split: option.split)
  have "distinct (map fst es)" unfolding fs using dist by (auto simp: distinct_map inj_on_def split: option.split)
  moreover have "\<forall>e \<in> set es. case fst e of Some v \<Rightarrow> length v = 16 | None \<Rightarrow> True"
    using assms(2) by (auto simp: assms(3) split: option.splits)
  ultimately show "group_ok es" by (simp add: group_ok_def)
qed (auto simp: assms(3) split: option.splits)

lemma real_entry:
  assumes "i < length es" "is_real es i"
  obtains v where "(Some v, snd (es ! i)) \<in> set es" "v \<noteq> VK_NULL" "fst (es ! i) = Some v" "vk_of es i = v"
proof -
  obtain v where v: "fst (es ! i) = Some v" "v \<noteq> VK_NULL" using assms(2) by (auto simp: is_real_def split: option.splits)
  then have "es ! i = (Some v, snd (es ! i))" by (simp add: prod_eq_iff)
  then have "(Some v, snd (es ! i)) \<in> set es" using nth_mem [OF assms(1)] by metis
  with v that show ?thesis by (simp add: vk_of_def)
qed

lemma null_parts:
  assumes "parts es l z rs np cur" "group_ok es" "\<And>m. (c, m) \<in> set es \<longleftrightarrow> d = Some m" "c = None \<and> x = l \<or> c = Some VK_NULL \<and> x = z"
  shows "map_option (\<lambda>i. snd (es ! i)) x = d"
proof -
  have x: "x = Some i \<longleftrightarrow> i < length es \<and> fst (es ! i) = c" for i using parts_spec(1,2) [OF assms(1,2), of i] assms(4) by auto
  show ?thesis
  proof (cases x)
    case None
    then have "(c, m) \<notin> set es" for m using x by (metis fst_conv in_set_conv_nth option.distinct(1))
    then have "d = None" using assms(3) by (cases d) auto
    with None show ?thesis by simp
  next
    case (Some i)
    then have "(c, snd (es ! i)) \<in> set es" using x [of i] nth_mem [of i es] by (metis prod.collapse)
    with Some assms(3) show ?thesis by simp
  qed
qed

lemma real_parts:
  assumes "parts es l z rs np cur" "group_ok es" "\<And>w m. (Some w, m) \<in> set es \<longleftrightarrow> (w, m) \<in> set vs"
    "sorted_wrt (\<lambda>x y. fst x < fst y) vs"
  shows "(if rs = [] then None else Some (vk_of es (last rs), snd (es ! last rs))) = find real (rev vs)"
proof -
  note spec = parts_spec [OF assms(1,2)]
  have last: "last rs < length es" "is_real es (last rs)" if "rs \<noteq> []" using spec(3) last_in_set [OF that] by auto
  show ?thesis
  proof (cases "find real (rev vs)")
    case None
    then have none: "\<forall>x \<in> set vs. \<not> real x" by (auto simp: find_None_iff)
    have "rs = []"
    proof (rule ccontr)
      assume "rs \<noteq> []"
      from real_entry [OF last [OF this]] obtain v where "(Some v, snd (es ! last rs)) \<in> set es" "v \<noteq> VK_NULL" .
      then show False using assms(3) none by (auto simp: real_def)
    qed
    with None show ?thesis by simp
  next
    case (Some y)
    obtain w m where w: "y = (w, m)" by (cases y)
    from find_last_max [OF assms(4) Some] have y: "(w, m) \<in> set vs" "w \<noteq> VK_NULL" "\<forall>x \<in> set vs. real x \<longrightarrow> fst x \<le> w"
      by (auto simp: w real_def)
    then have "(Some w, m) \<in> set es" using assms(3) by blast
    then obtain i where i: "i < length es" "es ! i = (Some w, m)" unfolding in_set_conv_nth by blast
    then have "i \<in> set rs" using spec(3) y(2) by (simp add: is_real_def)
    then have ne: "rs \<noteq> []" and up: "vk_of es i \<le> vk_of es (last rs)" using last_greatest [OF spec(4)] by auto
    obtain v where v: "(Some v, snd (es ! last rs)) \<in> set es" "v \<noteq> VK_NULL" "fst (es ! last rs) = Some v" "vk_of es (last rs) = v"
      using real_entry [OF last [OF ne]] .
    then have "v \<le> w" using y(3) assms(3) by (force simp: real_def)
    moreover have vo: "vk_of es i = w" using i(2) by (simp add: vk_of_def)
    ultimately have "v = w" using up v(4) by simp
    then have "last rs = i" using group_index [OF assms(2) last(1) [OF ne] i(1)] v(3) i(2) by simp
    then show ?thesis using Some ne vo i by (simp add: w)
  qed
qed

lemma fresh_current:
  assumes "sorted_wrt (\<lambda>x y. fst x < fst y) vs" "\<forall>x \<in> set vs. length (fst x) = 16"
    "es = (case l0 of Some m \<Rightarrow> [(None, m)] | None \<Rightarrow> []) @ map (\<lambda>(vk, m). (Some vk, m)) vs"
  shows "d1a_pick_current l0 (map_of vs VK_NULL) (find real (rev vs)) =
    map_option (\<lambda>i. (vk_of es i, snd (es ! i))) (group_current es)"
proof (cases "es = []")
  case True
  then have "l0 = None" "vs = []" by (auto simp: assms(3) split: option.splits)
  then show ?thesis using True by (simp add: group_current_def d1a_pick_current_def null_family_def pick_current_def pick_null_def)
next
  case False
  then obtain l z rs np cur where p: "parts es l z rs np cur" using parts_exist by blast
  note e = fresh_entries [OF assms]
  have "distinct (map fst vs)" using assms(1) by (simp add: strict_sorted_iff flip: sorted_wrt_map)
  then have "(Some VK_NULL, m) \<in> set es \<longleftrightarrow> map_of vs VK_NULL = Some m" for m using e(3) by simp
  from null_parts [OF p e(1) this] null_parts [OF p e(1,2)] real_parts [OF p e(1,3) assms(1)]
    pick_agrees [OF p e(1)] parts_current [OF p] show ?thesis by simp
qed

text \<open>
  C32. The evaluation of a key's versions never panics: on every group whose entries have distinct ids,
  each of its \<^verbatim>\<open>unwrap\<close>s finds a value and neither \<^verbatim>\<open>unreachable!\<close> is reached, whatever the rules, the
  versioning state and the time.
\<close>

theorem lifecycle_never_panics:
  assumes "group_ok es"
  shows "eval_key_group key es v rules now \<noteq> None"
proof (cases "es = []")
  case False
  with eval_char [OF assms, of key v rules now] show ?thesis by (metis option.distinct(1))
qed (simp add: eval_key_group_def)

text \<open>
  C29. Every action the evaluation asks for is justified by one enabled rule whose filter matches the
  version: the current version expires or moves only when the rule's whole number of days has passed
  since its modification or the rule's date has come; a delete marker is expired only by a rule that asks
  for it, when it is current and alone in its group; a noncurrent version goes only when the rule's
  days have passed since it was replaced or when the rule's number of newer noncurrent versions exist,
  and the target is never the current version's id. A version was replaced by the first write of a
  version with a greater id, or by the current version where there is none; that is never before its own
  write. The unversioned entry counts as replaced by the first version with an id, which can lie before
  its own write: the lemma \<open>legacy_acts\<close> below shows that case.
\<close>

theorem lifecycle_never_early:
  assumes "group_ok es" "times_ok es" "length es < 2 ^ 32" "eval_key_group key es v rules now = Some acts" "ga \<in> set acts"
  shows "\<exists>cur i rule. group_current es = Some cur \<and> i < length es \<and> rule \<in> set rules \<and>
    rule_applies rule key (snd (es ! i)) \<and> justified es v now rule cur i (ga_action ga) \<and> ga_target_vk ga = vk_of es i"
proof -
  have "es \<noteq> []" using assms(4,5) by (auto simp: eval_key_group_def)
  obtain l z rs np cur acts0 where p: "parts es l z rs np cur" and e: "eval_key_group key es v rules now = Some acts0" and
    s: "set acts0 = (\<Union>i \<in> {..<length es}. actions_of es l z cur (snd (es ! i))
       (match_entry (ctx_at key es v z rs np cur (noncurrent_order es cur) i) rules now))"
    using eval_char [OF assms(1) \<open>es \<noteq> []\<close>] .
  then obtain i where i: "i < length es"
    "ga \<in> actions_of es l z cur (snd (es ! i)) (match_entry (ctx_at key es v z rs np cur (noncurrent_order es cur) i) rules now)"
    using assms(4,5) by auto
  from group_action_cases [OF p assms(1-3) i] parts_current [OF p] i(1) show ?thesis by blast
qed

text \<open>
  Time only adds work: an action that is due stays due at every later evaluation of the same group
  with the same rules.
\<close>

theorem lifecycle_monotone:
  assumes "group_ok es" "now \<le> later" "eval_key_group key es v rules now = Some acts"
    "eval_key_group key es v rules later = Some acts'"
  shows "set acts \<subseteq> set acts'"
proof (cases "es = []")
  case False
  obtain l z rs np cur acts0 where p: "parts es l z rs np cur" and e: "eval_key_group key es v rules now = Some acts0" and
    a: "set acts0 = (\<Union>i \<in> {..<length es}. actions_of es l z cur (snd (es ! i))
       (match_entry (ctx_at key es v z rs np cur (noncurrent_order es cur) i) rules now))"
    using eval_char [OF assms(1) False] .
  obtain l' z' rs' np' cur' acts1 where p': "parts es l' z' rs' np' cur'" and e': "eval_key_group key es v rules later = Some acts1" and
    b: "set acts1 = (\<Union>i \<in> {..<length es}. actions_of es l' z' cur' (snd (es ! i))
       (match_entry (ctx_at key es v z' rs' np' cur' (noncurrent_order es cur') i) rules later))"
    using eval_char [OF assms(1) False] .
  have same: "l' = l" "z' = z" "rs' = rs" "np' = np" "cur' = cur" using p p' by (auto simp: parts_def)
  have sub: "actions_of es l z cur m (match_entry ctx rules now) \<subseteq> actions_of es l z cur m (match_entry ctx rules later)"
    for m ctx using match_entry_mono [OF assms(2), of ctx rules] by (auto simp: actions_of_def)
  have "acts = acts0" "acts' = acts1" using e e' assms(3,4) by simp_all
  then show ?thesis using sub unfolding same by (simp add: a b [unfolded same] UN_mono)
qed (use assms(3) in \<open>simp add: eval_key_group_def\<close>)

text \<open>
  C30. The rule engine and the read path agree on which version is current: the group the executor reads
  from a well-formed store is well formed, and the entry the engine takes as current is the one a read
  without a version id resolves to.
\<close>

theorem lifecycle_current_is_read:
  assumes "objects_ok db" "addr_ok b k"
  shows "\<exists>es. fresh_group db b k = Inr es \<and> group_ok es \<and>
    get_current_version db b k = Inr (map_option (\<lambda>i. (vk_of es i, snd (es ! i))) (group_current es))"
proof -
  obtain l0 vs where g: "get_object db b k = Inr l0" "list_key_versions db b k = Inr vs"
    "version_scan_tip db b k = Inr (map_of vs VK_NULL, find real (rev vs))"
    and s: "sorted_wrt (\<lambda>x y. fst x < fst y) vs" "\<forall>x \<in> set vs. length (fst x) = 16"
    using fresh_group_spec [OF assms] .
  define es where "es = (case l0 of Some m \<Rightarrow> [(None, m)] | None \<Rightarrow> []) @ map (\<lambda>(vk, m). (Some vk, m)) vs"
  from fresh_entries(1) [OF s es_def] fresh_current [OF s es_def] g show ?thesis
    by (intro exI [of _ es]) (simp add: fresh_group_def get_current_version_def es_def)
qed

lemma legacy_acts:
  assumes "length v1 = 16" "length v2 = 16" "v1 < v2" "v2 \<noteq> VK_NULL" "om_mtime m \<le> vk_secs v2" "v \<noteq> Off"
    "rule_applies rule key m" "lr_noncurrent_expiration rule = Some nc" "ne_noncurrent_days nc = Some d"
    "vk_secs v1 + (uint d + 1) * 86400 \<le> now"
  shows "\<exists>acts. eval_key_group key [(None, m), (Some v1, m1), (Some v2, m2)] v [rule] now = Some acts \<and>
    \<lparr>ga_action = DeleteNoncurrentVersion VK_NULL, ga_target_vk = VK_NULL, ga_bytes = om_size m\<rparr> \<in> set acts"
proof -
  let ?es = "[(None, m), (Some v1, m1), (Some v2, m2)]"
  have n1: "v1 \<noteq> VK_NULL" using assms(3,4) vk_le_null [OF assms(2)] by auto
  have ok: "group_ok ?es" using assms(1-3) by (auto simp: group_ok_def)
  obtain l z rs np cur acts where p: "parts ?es l z rs np cur" and e: "eval_key_group key ?es v [rule] now = Some acts" and
    s: "set acts = (\<Union>i \<in> {..<length ?es}. actions_of ?es l z cur (snd (?es ! i))
       (match_entry (ctx_at key ?es v z rs np cur (noncurrent_order ?es cur) i) [rule] now))"
    using eval_char [OF ok, of key v "[rule]" now] by blast
  have "scan_group 0 ?es (None, None, []) = (Some 0, None, [1, 2])" using n1 assms(4) by simp
  then have q: "l = Some 0" "z = None" "rs = [1, 2]" using p assms(3) by (auto simp: parts_def vk_of_def)
  have cur: "cur = 2"
    using p q assms(4,5) by (auto simp: parts_def pick_null_def pick_current_def wt_def is_real_def vk_of_def mtime_at_def)
  let ?ctx = "ctx_at key ?es v z rs np cur (noncurrent_order ?es cur) 0"
  have w: "wt ?es 1 = vk_secs v1" using n1 by (simp add: wt_def is_real_def vk_of_def)
  have since: "ec_noncurrent_since ?ctx = Some (vk_secs v1)" by (simp add: since_of_def q cur w [unfolded One_nat_def])
  have dl: "days_deadline (vk_secs v1) d \<le> now"
    using days_deadline_bounds(2) [of "vk_secs v1" d] vk_secs_bounds [of v1] assms(10) by linarith
  have "DeleteNoncurrentVersion VK_NULL \<in> set (rule_actions ?ctx now rule)"
    using assms(6-9) since dl by (simp add: rule_actions_def rule_applies_def noncurrent_actions_def cur Let_def)
  then have "DeleteNoncurrentVersion VK_NULL \<in> set (match_entry ?ctx [rule] now)" by (simp add: set_match_entry)
  then have "\<lparr>ga_action = DeleteNoncurrentVersion VK_NULL, ga_target_vk = VK_NULL, ga_bytes = om_size m\<rparr>
      \<in> actions_of ?es l z cur (snd (?es ! 0)) (match_entry ?ctx [rule] now)"
    unfolding actions_of_def by (intro CollectI bexI) (simp_all add: skip_shadowed_def group_action_of_def q)
  then have "\<lparr>ga_action = DeleteNoncurrentVersion VK_NULL, ga_target_vk = VK_NULL, ga_bytes = om_size m\<rparr> \<in> set acts"
    unfolding s by (intro UN_I [of 0]) simp_all
  with e show ?thesis by blast
qed

text \<open>
  C31. A noncurrent unversioned entry is dated by the first version with an id, not by the version that
  replaced it. When the entry was rewritten after that first version (a write under suspended
  versioning), it is deleted as soon as the rule's days have passed since the first version, however
  short the time since its own write.
\<close>

theorem legacy_expires_early:
  assumes "length v1 = 16" "length v2 = 16" "v1 < v2" "v2 \<noteq> VK_NULL" "om_mtime m \<le> vk_secs v2" "v \<noteq> Off"
    "rule_applies rule key m" "lr_noncurrent_expiration rule = Some nc" "ne_noncurrent_days nc = Some d"
    "vk_secs v1 + (uint d + 1) * 86400 \<le> now"
  shows "\<exists>acts. eval_key_group key [(None, m), (Some v1, m1), (Some v2, m2)] v [rule] now = Some acts \<and>
    \<lparr>ga_action = DeleteNoncurrentVersion VK_NULL, ga_target_vk = VK_NULL, ga_bytes = om_size m\<rparr> \<in> set acts"
  using assms by (rule legacy_acts)

section \<open>Witnesses\<close>

definition day_vk :: "u64 \<Rightarrow> bytes" where
  "day_vk d = to_be_bytes (d * 86400000000) @ replicate 8 0"

lemma day_vk_simps: "length (day_vk d) = 16" "vk_time_us (day_vk d) = d * 86400000000"
  by (simp_all add: day_vk_def vk_time_us_def)

lemma day_vk_not_null: "d * 86400000000 \<noteq> - 1 \<Longrightarrow> day_vk d \<noteq> VK_NULL"
proof
  assume a: "d * 86400000000 \<noteq> - 1" "day_vk d = VK_NULL"
  then have "take 8 (day_vk d) = to_be_bytes (- 1 :: u64)" by (simp add: VK_NULL_def to_be_bytes_max)
  then show False using a(1) to_be_bytes_inject [of "d * 86400000000" "- 1"] by (simp add: day_vk_def)
qed

definition demo_version :: "int \<Rightarrow> object_meta" where
  "demo_version t = (delete_marker_meta t None)\<lparr>om_is_delete_marker := False\<rparr>"

definition demo_rule :: lifecycle_rule where
  "demo_rule = \<lparr>lr_id = [], lr_status = LcEnabled, lr_filter = \<lparr>lf_prefix = [], lf_tags = []\<rparr>, lr_expiration = None,
     lr_noncurrent_expiration = Some \<lparr>ne_noncurrent_days = Some 30, ne_newer_noncurrent_versions = None\<rparr>,
     lr_transition = None, lr_abort_incomplete_multipart = None, lr_legacy_prefix = False\<rparr>"

definition demo_group :: group where
  "demo_group = [(None, demo_version 8640000), (Some (day_vk 1), demo_version 86400), (Some (day_vk 101), demo_version 8726400)]"

lemma day_vk_secs: "vk_secs (day_vk 1) = 86400" "vk_secs (day_vk 101) = 8726400"
  by (simp_all add: vk_secs_def day_vk_simps)

lemma day_vk_order: "day_vk 1 < day_vk 101" "day_vk 101 \<noteq> VK_NULL"
  by (rule vk_less_of_time) (simp_all add: day_vk_simps day_vk_not_null)

lemma demo_group_ok: "group_ok demo_group" "times_ok demo_group" "length demo_group < 2 ^ 32"
  using day_vk_order(1) by (auto simp: group_ok_def times_ok_def demo_group_def day_vk_simps demo_version_def delete_marker_meta_def)

theorem lifecycle_never_panics_witness: "eval_key_group [] demo_group Enabled [demo_rule] 8726401 \<noteq> None"
  using lifecycle_never_panics [OF demo_group_ok(1)] .

lemma demo_legacy_acts:
  "\<exists>acts. eval_key_group [] demo_group Enabled [demo_rule] 8726401 = Some acts \<and>
    \<lparr>ga_action = DeleteNoncurrentVersion VK_NULL, ga_target_vk = VK_NULL, ga_bytes = om_size (demo_version 8640000)\<rparr> \<in> set acts"
  using legacy_acts [OF day_vk_simps(1) day_vk_simps(1) day_vk_order, of "demo_version 8640000" Enabled demo_rule "[]"
      "\<lparr>ne_noncurrent_days = Some 30, ne_newer_noncurrent_versions = None\<rparr>" 30 8726401 "demo_version 86400" "demo_version 8726400"]
  by (simp add: demo_group_def day_vk_secs demo_rule_def rule_applies_def filter_matches_def demo_version_def delete_marker_meta_def)

theorem legacy_expires_early_witness:
  "\<exists>acts. eval_key_group [] demo_group Enabled [demo_rule] 8726401 = Some acts \<and>
    \<lparr>ga_action = DeleteNoncurrentVersion VK_NULL, ga_target_vk = VK_NULL, ga_bytes = om_size (demo_version 8640000)\<rparr> \<in> set acts"
  using legacy_expires_early [OF day_vk_simps(1) day_vk_simps(1) day_vk_order, of "demo_version 8640000" Enabled demo_rule "[]"
      "\<lparr>ne_noncurrent_days = Some 30, ne_newer_noncurrent_versions = None\<rparr>" 30 8726401 "demo_version 86400" "demo_version 8726400"]
  by (simp add: demo_group_def day_vk_secs demo_rule_def rule_applies_def filter_matches_def demo_version_def delete_marker_meta_def)

theorem lifecycle_never_early_witness:
  "\<exists>acts ga cur i. eval_key_group [] demo_group Enabled [demo_rule] 8726401 = Some acts \<and> ga \<in> set acts \<and>
    group_current demo_group = Some cur \<and> i < length demo_group \<and> justified demo_group Enabled 8726401 demo_rule cur i (ga_action ga)"
proof -
  obtain acts ga where a: "eval_key_group [] demo_group Enabled [demo_rule] 8726401 = Some acts" "ga \<in> set acts"
    using demo_legacy_acts by blast
  from lifecycle_never_early [OF demo_group_ok a] a show ?thesis by fastforce
qed

theorem lifecycle_monotone_witness:
  "\<exists>acts acts' ga. eval_key_group [] demo_group Enabled [demo_rule] 8726401 = Some acts \<and>
    eval_key_group [] demo_group Enabled [demo_rule] 9000000 = Some acts' \<and> ga \<in> set acts \<and> ga \<in> set acts'"
proof -
  obtain acts ga where a: "eval_key_group [] demo_group Enabled [demo_rule] 8726401 = Some acts" "ga \<in> set acts"
    using demo_legacy_acts by blast
  have "demo_group \<noteq> []" by (simp add: demo_group_def)
  then obtain acts' where b: "eval_key_group [] demo_group Enabled [demo_rule] 9000000 = Some acts'"
    by (rule eval_char [OF demo_group_ok(1)])
  from lifecycle_monotone [OF demo_group_ok(1) _ a(1) b] a b show ?thesis by auto
qed

theorem lifecycle_current_is_read_witness:
  "\<exists>db' m es. put_object_meta demo_env Enabled (lit ''b'') (lit ''k'') demo_object None demo_draft None demo_store = (db', Inr m) \<and>
    fresh_group db' (lit ''b'') (lit ''k'') = Inr es \<and> group_ok es \<and>
    get_current_version db' (lit ''b'') (lit ''k'') = Inr (map_option (\<lambda>i. (vk_of es i, snd (es ! i))) (group_current es))"
proof -
  obtain db' m where p: "put_object_meta demo_env Enabled (lit ''b'') (lit ''k'') demo_object None demo_draft None demo_store = (db', Inr m)"
    using put_accepted [OF demo_store_ok demo_quota] by blast
  have "objects_ok db'" using put_current [OF demo_store_ok(1-3,5,6) p] by blast
  from lifecycle_current_is_read [OF this demo_store_ok(2)] p show ?thesis by blast
qed

end
