(* ===== verification/Rust_Str.thy ===== *)
theory Rust_Str
  imports Rust_Std
begin

text \<open>
  More of Rust's string library, on UTF-8 bytes: trimming, splitting, number parsing, replacement,
  slicing at character boundaries and the parser of IP addresses.
\<close>

section \<open>Trimming and splitting\<close>

text \<open>The encodings of the characters with the Unicode property White\_Space.\<close>

definition ws_chars :: "bytes list" where
  "ws_chars = [[0x20], [0x09], [0x0A], [0x0B], [0x0C], [0x0D], [0xC2, 0x85], [0xC2, 0xA0], [0xE1, 0x9A, 0x80]] @
     map (\<lambda>b. [0xE2, 0x80, b]) [0x80, 0x81, 0x82, 0x83, 0x84, 0x85, 0x86, 0x87, 0x88, 0x89, 0x8A, 0xA8, 0xA9, 0xAF] @
     [[0xE2, 0x81, 0x9F], [0xE3, 0x80, 0x80]]"

lemma ws_chars_nonempty: "w \<in> set ws_chars \<Longrightarrow> w \<noteq> []"
  by (auto simp: ws_chars_def)

lemma find_in: "find P xs = Some x \<Longrightarrow> x \<in> set xs \<and> P x"
  by (auto simp: find_Some_iff)

function trim_start :: "bytes \<Rightarrow> bytes" where
  "trim_start s = (case find (\<lambda>w. prefix w s) ws_chars of Some w \<Rightarrow> trim_start (drop (length w) s) | None \<Rightarrow> s)"
  by pat_completeness auto
termination
proof (relation "measure length")
  fix s w assume "find (\<lambda>w. prefix w s) ws_chars = Some w"
  from find_in [OF this] have "w \<noteq> []" "prefix w s" using ws_chars_nonempty [of w] by auto
  then show "(drop (length w) s, s) \<in> measure length" by (auto simp: prefix_def)
qed simp

function trim_end :: "bytes \<Rightarrow> bytes" where
  "trim_end s = (case find (\<lambda>w. suffix w s) ws_chars of Some w \<Rightarrow> trim_end (take (length s - length w) s) | None \<Rightarrow> s)"
  by pat_completeness auto
termination
proof (relation "measure length")
  fix s w assume "find (\<lambda>w. suffix w s) ws_chars = Some w"
  from find_in [OF this] have "w \<noteq> []" "suffix w s" using ws_chars_nonempty [of w] by auto
  then show "(take (length s - length w) s, s) \<in> measure length" by (auto simp: suffix_def)
qed simp

declare trim_start.simps [simp del] trim_end.simps [simp del]

definition str_trim :: "bytes \<Rightarrow> bytes" where
  "str_trim s = trim_end (trim_start s)"

text \<open>A trimmed string neither begins nor ends with white space; trimming gives one and keeps it.\<close>

definition trimmed :: "bytes \<Rightarrow> bool" where
  "trimmed s \<longleftrightarrow> (\<forall>w \<in> set ws_chars. \<not> prefix w s \<and> \<not> suffix w s)"

lemma trim_start_no_ws: "\<forall>w \<in> set ws_chars. \<not> prefix w (trim_start s)"
proof (induction s rule: trim_start.induct)
  case (1 s)
  show ?case
  proof (cases "find (\<lambda>w. prefix w s) ws_chars")
    case None
    moreover from this have "trim_start s = s" by (simp add: trim_start.simps [of s])
    ultimately show ?thesis by (simp add: find_None_iff)
  next
    case (Some w)
    with 1 show ?thesis by (simp add: trim_start.simps [of s])
  qed
qed

lemma trim_end_no_ws: "\<forall>w \<in> set ws_chars. \<not> suffix w (trim_end s)"
proof (induction s rule: trim_end.induct)
  case (1 s)
  show ?case
  proof (cases "find (\<lambda>w. suffix w s) ws_chars")
    case None
    moreover from this have "trim_end s = s" by (simp add: trim_end.simps [of s])
    ultimately show ?thesis by (simp add: find_None_iff)
  next
    case (Some w)
    with 1 show ?thesis by (simp add: trim_end.simps [of s])
  qed
qed

lemma prefix_trim_end: "prefix (trim_end s) s"
proof (induction s rule: trim_end.induct)
  case (1 s)
  then show ?case by (auto simp: trim_end.simps [of s] split: option.split intro: prefix_order.trans take_is_prefix)
qed

lemma trimmed_str_trim: "trimmed (str_trim s)"
  using trim_start_no_ws [of s] trim_end_no_ws [of "trim_start s"] prefix_trim_end [of "trim_start s"]
  unfolding trimmed_def str_trim_def by (meson prefix_order.trans)

lemma str_trim_trimmed: "trimmed s \<Longrightarrow> str_trim s = s"
proof -
  assume t: "trimmed s"
  then have "find (\<lambda>w. prefix w s) ws_chars = None" "find (\<lambda>w. suffix w s) ws_chars = None"
    by (auto simp: trimmed_def find_None_iff)
  then show ?thesis by (simp add: str_trim_def trim_start.simps [of s] trim_end.simps [of s])
qed

lemma to_lower_idem: "to_lower (to_lower b) = to_lower b"
proof -
  have "\<not> is_ascii_upper (b + 32)" if "is_ascii_upper b"
    using that by (auto simp: is_ascii_upper_def word_le_nat_alt unat_word_ariths)
  then show ?thesis by (auto simp: to_lower_def)
qed

lemma to_lower_other: "to_lower b = c \<Longrightarrow> \<not> is_ascii_lower c \<Longrightarrow> b = c"
proof -
  have "is_ascii_lower (b + 32)" if "is_ascii_upper b"
    using that by (auto simp: is_ascii_upper_def is_ascii_lower_def word_le_nat_alt unat_word_ariths)
  then show "to_lower b = c \<Longrightarrow> \<not> is_ascii_lower c \<Longrightarrow> b = c" by (auto simp: to_lower_def split: if_splits)
qed

lemma ws_bytes: "w \<in> set ws_chars \<Longrightarrow> b \<in> set w \<Longrightarrow> \<not> is_ascii_lower b \<and> b \<noteq> 0x3A"
proof -
  have "list_all (list_all (\<lambda>b. \<not> is_ascii_lower b \<and> b \<noteq> 0x3A)) ws_chars"
    by (simp add: ws_chars_def is_ascii_lower_def)
  then show "w \<in> set ws_chars \<Longrightarrow> b \<in> set w \<Longrightarrow> \<not> is_ascii_lower b \<and> b \<noteq> 0x3A" by (auto simp: list_all_iff)
qed

lemma map_lower_ws:
  assumes "map to_lower xs = w" "w \<in> set ws_chars"
  shows "xs = w"
  using assms ws_bytes [OF assms(2)] to_lower_other by (intro nth_equalityI) (auto simp: in_set_conv_nth, metis nth_map nth_mem)

lemma trimmed_lowercase:
  assumes "trimmed s"
  shows "trimmed (ascii_lowercase s)"
  unfolding trimmed_def
proof (intro ballI conjI notI)
  fix w assume w: "w \<in> set ws_chars"
  { assume "prefix w (ascii_lowercase s)"
    then have "take (length w) (map to_lower s) = w" by (auto simp: ascii_lowercase_def prefix_def)
    then have "take (length w) s = w" using map_lower_ws [OF _ w] by (simp add: take_map)
    then show False using assms w take_is_prefix [of "length w" s] by (auto simp: trimmed_def) }
  { assume "suffix w (ascii_lowercase s)"
    then obtain zs where z: "map to_lower s = zs @ w" by (auto simp: ascii_lowercase_def suffix_def)
    have "length (map to_lower s) = length (zs @ w)" by (simp only: z)
    then have "length zs = length s - length w" by simp
    then have "drop (length s - length w) (map to_lower s) = w" using z by simp
    then have "drop (length s - length w) s = w" using map_lower_ws [OF _ w] by (simp add: drop_map)
    then show False using assms w suffix_drop [of "length s - length w" s] by (auto simp: trimmed_def) }
qed

definition split_once :: "u8 \<Rightarrow> bytes \<Rightarrow> (bytes \<times> bytes) option" where
  "split_once c s = (case position (\<lambda>x. x = c) s of Some i \<Rightarrow> Some (take i s, drop (i + 1) s) | None \<Rightarrow> None)"

definition strip_suf :: "'a list \<Rightarrow> 'a list \<Rightarrow> 'a list option" where
  "strip_suf p s = (if suffix p s then Some (take (length s - length p) s) else None)"

text \<open>Replacement of every occurrence, from the left and without overlap, of a nonempty pattern.\<close>

function str_replace :: "bytes \<Rightarrow> bytes \<Rightarrow> bytes \<Rightarrow> bytes" where
  "str_replace p r [] = []"
| "str_replace p r (c # s) =
     (if p \<noteq> [] \<and> prefix p (c # s) then r @ str_replace p r (drop (length p) (c # s)) else c # str_replace p r s)"
  by pat_completeness auto
termination by (relation "measure (\<lambda>(p, r, s). length s)") (auto simp: prefix_def)

definition char_boundary :: "bytes \<Rightarrow> nat \<Rightarrow> bool" where
  "char_boundary s i \<longleftrightarrow> i = length s \<or> i < length s \<and> \<not> cont_byte (s ! i)"

definition str_get :: "bytes \<Rightarrow> nat \<Rightarrow> nat \<Rightarrow> bytes option" where
  "str_get s a z = (if a \<le> z \<and> char_boundary s a \<and> char_boundary s z then Some (take (z - a) (drop a s)) else None)"

section \<open>Numbers\<close>

definition dec_value :: "bytes \<Rightarrow> nat" where
  "dec_value ds = foldl (\<lambda>n d. n * 10 + (unat d - 48)) 0 ds"

definition digits_ok :: "bytes \<Rightarrow> bool" where
  "digits_ok ds \<longleftrightarrow> ds \<noteq> [] \<and> list_all is_ascii_digit ds"

definition parse_i64 :: "bytes \<Rightarrow> int option" where
  "parse_i64 s =
     (case s of
        [] \<Rightarrow> None
      | c # r \<Rightarrow>
          (let (neg, ds) = (if c = 0x2D then (True, r) else if c = 0x2B then (False, r) else (False, s));
               v = (if neg then - int (dec_value ds) else int (dec_value ds))
           in if digits_ok ds \<and> in_i64 v then Some v else None))"

definition parse_u8 :: "bytes \<Rightarrow> u8 option" where
  "parse_u8 s =
     (case s of
        [] \<Rightarrow> None
      | c # r \<Rightarrow>
          (let ds = (if c = 0x2B then r else s)
           in if digits_ok ds \<and> dec_value ds \<le> 255 then Some (of_nat (dec_value ds)) else None))"

section \<open>IP addresses\<close>

datatype ip_addr = V4 u32 | V6 "128 word"

definition hex_digit :: "u8 \<Rightarrow> nat option" where
  "hex_digit b =
     (if is_ascii_digit b then Some (unat b - 48)
      else if is_ascii_lower b \<and> b \<le> 0x66 then Some (unat b - 87)
      else if is_ascii_upper b \<and> b \<le> 0x46 then Some (unat b - 55) else None)"

definition to_digit :: "nat \<Rightarrow> u8 \<Rightarrow> nat option" where
  "to_digit radix b = (case hex_digit b of Some d \<Rightarrow> if d < radix then Some d else None | None \<Rightarrow> None)"

text \<open>A number of at most \<open>k\<close> digits below \<open>limit\<close>, with what follows it.\<close>

definition read_number :: "nat \<Rightarrow> nat \<Rightarrow> bool \<Rightarrow> nat \<Rightarrow> bytes \<Rightarrow> (nat \<times> bytes) option" where
  "read_number radix k zero_prefix limit s =
     (let ds = takeWhile (\<lambda>b. to_digit radix b \<noteq> None) s;
          v = foldl (\<lambda>n d. n * radix + the (to_digit radix d)) 0 ds
      in if ds = [] \<or> k < length ds \<or> \<not> zero_prefix \<and> hd ds = 0x30 \<and> 1 < length ds \<or> limit \<le> v then None
         else Some (v, drop (length ds) s))"

definition read_given :: "u8 \<Rightarrow> bytes \<Rightarrow> bytes option" where
  "read_given c s = (case s of b # r \<Rightarrow> if b = c then Some r else None | [] \<Rightarrow> None)"

definition read_separator :: "u8 \<Rightarrow> nat \<Rightarrow> (bytes \<Rightarrow> ('a \<times> bytes) option) \<Rightarrow> bytes \<Rightarrow> ('a \<times> bytes) option" where
  "read_separator sep i inner s =
     (if 0 < i then (case read_given sep s of Some r \<Rightarrow> inner r | None \<Rightarrow> None) else inner s)"

fun read_octets :: "nat \<Rightarrow> nat \<Rightarrow> bytes \<Rightarrow> (nat list \<times> bytes) option" where
  "read_octets i 0 s = Some ([], s)"
| "read_octets i (Suc n) s =
     (case read_separator 0x2E i (read_number 10 3 False 256) s of
        None \<Rightarrow> None
      | Some (v, r) \<Rightarrow> (case read_octets (i + 1) n r of Some (vs, q) \<Rightarrow> Some (v # vs, q) | None \<Rightarrow> None))"

definition read_ipv4 :: "bytes \<Rightarrow> (nat list \<times> bytes) option" where
  "read_ipv4 s = read_octets 0 4 s"

definition be_value :: "nat \<Rightarrow> nat list \<Rightarrow> nat" where
  "be_value base vs = foldl (\<lambda>n v. n * base + v) 0 vs"

text \<open>Groups of an IPv6 address: the groups read, whether they end in an IPv4 part, and the rest.\<close>

fun read_groups :: "nat \<Rightarrow> nat \<Rightarrow> bytes \<Rightarrow> nat list \<times> bool \<times> bytes" where
  "read_groups i 0 s = ([], False, s)"
| "read_groups i (Suc n) s =
     (case (if 0 < n then read_separator 0x3A i read_ipv4 s else None) of
        Some ([a, b, c, d], r) \<Rightarrow> ([a * 256 + b, c * 256 + d], True, r)
      | _ \<Rightarrow>
          (case read_separator 0x3A i (read_number 16 4 True 65536) s of
             None \<Rightarrow> ([], False, s)
           | Some (g, r) \<Rightarrow> (case read_groups (i + 1) n r of (gs, v4, q) \<Rightarrow> (g # gs, v4, q))))"

definition read_ipv6 :: "bytes \<Rightarrow> (nat list \<times> bytes) option" where
  "read_ipv6 s =
     (case read_groups 0 8 s of
        (hd_gs, v4, r) \<Rightarrow>
          if length hd_gs = 8 then Some (hd_gs, r)
          else if v4 then None
          else case read_given 0x3A r of
              None \<Rightarrow> None
            | Some r1 \<Rightarrow>
                (case read_given 0x3A r1 of
                   None \<Rightarrow> None
                 | Some r2 \<Rightarrow>
                     (case read_groups 0 (8 - (length hd_gs + 1)) r2 of
                        (tl_gs, _, q) \<Rightarrow>
                          Some (hd_gs @ replicate (8 - length hd_gs - length tl_gs) 0 @ tl_gs, q))))"

definition parse_ip :: "bytes \<Rightarrow> ip_addr option" where
  "parse_ip s =
     (case read_ipv4 s of
        Some (vs, []) \<Rightarrow> Some (V4 (of_nat (be_value 256 vs)))
      | Some _ \<Rightarrow> None
      | None \<Rightarrow> (case read_ipv6 s of Some (gs, []) \<Rightarrow> Some (V6 (of_nat (be_value 65536 gs))) | _ \<Rightarrow> None))"

text \<open>The address of a socket address: an IPv4 address or a bracketed IPv6 address with an optional scope, then the port.\<close>

definition read_port :: "bytes \<Rightarrow> bytes option" where
  "read_port s =
     (case read_given 0x3A s of
        Some r \<Rightarrow> map_option snd (read_number 10 (length r) True 65536 r) | None \<Rightarrow> None)"

definition read_scope :: "bytes \<Rightarrow> bytes" where
  "read_scope s =
     (case read_given 0x25 s of
        Some r \<Rightarrow> (case read_number 10 (length r) True (2 ^ 32) r of Some (_, q) \<Rightarrow> q | None \<Rightarrow> s) | None \<Rightarrow> s)"

definition socket_v4 :: "bytes \<Rightarrow> (ip_addr \<times> bytes) option" where
  "socket_v4 s =
     (case read_ipv4 s of
        Some (vs, r) \<Rightarrow> map_option (\<lambda>q. (V4 (of_nat (be_value 256 vs)), q)) (read_port r) | None \<Rightarrow> None)"

definition socket_v6 :: "bytes \<Rightarrow> (ip_addr \<times> bytes) option" where
  "socket_v6 s =
     (case read_given 0x5B s of
        None \<Rightarrow> None
      | Some r \<Rightarrow>
          (case read_ipv6 r of
             None \<Rightarrow> None
           | Some (gs, q) \<Rightarrow>
               (case read_given 0x5D (read_scope q) of
                  Some t \<Rightarrow> map_option (\<lambda>u. (V6 (of_nat (be_value 65536 gs)), u)) (read_port t) | None \<Rightarrow> None)))"

definition parse_socket_ip :: "bytes \<Rightarrow> ip_addr option" where
  "parse_socket_ip s =
     (case (case socket_v4 s of Some x \<Rightarrow> Some x | None \<Rightarrow> socket_v6 s) of
        Some (ip, []) \<Rightarrow> Some ip | _ \<Rightarrow> None)"

end
