(* ===== verification/Policy.thy ===== *)
theory Policy
  imports Rust_Str
begin

text \<open>
  Access policies (\<^verbatim>\<open>fs3-s3/src/policy.rs\<close>): the document model, its construction from a JSON value and
  the evaluation of a request. JSON text is parsed by \<^verbatim>\<open>serde_json\<close>, which is a parameter
  (\<open>from_str\<close>); an object is the list of its members in iteration order. The wildcard matcher is
  the loop of the source and is compared with the language it stands for.
\<close>

section \<open>Documents\<close>

datatype json = JNull | JBool bool | JNumber bytes | JString bytes | JArray "json list" | JObject "(bytes \<times> json) list"

datatype policy_error = PeJson | PeNotObject | PeVersion | PeNoStatement | PeStatementNotArray | PeNoStatements
  | PeStatementNotObject | PeUnsupportedField | PeUnknownField | PeEffect | PeNoAction | PeNoResource
  | PeElementNotString | PeNotStringOrArray | PePrincipal | PeConditionNotObject | PeConditionKey | PeConditionValue
  | PeConditionOperator | PeCidrLength | PeIp | PeCidrRange

datatype effect = EfAllow | EfDeny

datatype aws_principal = LegacyAuthenticated | Root bytes | User bytes bytes

datatype principal = PrAny | PrAws "aws_principal list"

record caller_identity =
  ci_tenant_canonical_id :: bytes
  ci_user :: bytes
  ci_access_key :: bytes

record eval_ctx =
  ec_source_ip :: "ip_addr option"
  ec_prefix :: "bytes option"
  ec_delimiter :: "bytes option"
  ec_bypass_governance :: bool
  ec_remaining_retention_days :: "int option"
  ec_caller :: "caller_identity option"
  ec_now :: "int option"

record ip_net =
  net_addr :: ip_addr
  net_prefix_len :: u8

datatype str_key = SkPrefix | SkDelimiter | SkBypassGovernance

datatype numeric_op = NumEq | NumNe | NumLt | NumLte | NumGt | NumGte

datatype date_op = DateGt | DateLt | DateEq

datatype cond = CondIp bool "ip_net list" | CondStr bool str_key "bytes list" | CondBool bool
  | CondNumeric numeric_op "int list" | CondDate date_op "int list"

record statement =
  st_effect :: effect
  st_principal :: "principal option"
  st_actions :: "bytes list"
  st_resources :: "bytes list"
  st_conditions :: "cond list"

datatype decision = Allow | Deny | NoMatch

type_synonym policy = "statement list"

definition default_ctx :: eval_ctx where
  "default_ctx = \<lparr>ec_source_ip = None, ec_prefix = None, ec_delimiter = None, ec_bypass_governance = False,
     ec_remaining_retention_days = None, ec_caller = None, ec_now = None\<rparr>"

section \<open>Matching\<close>

definition aws_matches :: "bool \<Rightarrow> caller_identity option \<Rightarrow> aws_principal \<Rightarrow> bool" where
  "aws_matches authenticated caller p =
     (case p of
        LegacyAuthenticated \<Rightarrow> authenticated
      | Root i \<Rightarrow> (case caller of Some c \<Rightarrow> ci_tenant_canonical_id c = i | None \<Rightarrow> False)
      | User i name \<Rightarrow> (case caller of Some c \<Rightarrow> ci_tenant_canonical_id c = i \<and> ci_user c = name | None \<Rightarrow> False))"

definition principal_matches :: "bool \<Rightarrow> caller_identity option \<Rightarrow> principal \<Rightarrow> bool" where
  "principal_matches authenticated caller p =
     (case p of PrAny \<Rightarrow> True | PrAws ps \<Rightarrow> list_ex (aws_matches authenticated caller) ps)"

definition net_contains :: "ip_net \<Rightarrow> ip_addr \<Rightarrow> bool" where
  "net_contains n ip =
     (case (net_addr n, ip) of
        (V4 net, V4 a) \<Rightarrow>
          (let shift = unat (32 - net_prefix_len n); mask = (if shift = 32 then 0 else push_bit shift (- 1))
           in and net mask = and a mask)
      | (V6 net, V6 a) \<Rightarrow>
          (let shift = unat (128 - net_prefix_len n); mask = (if shift = 128 then 0 else push_bit shift (- 1))
           in and net mask = and a mask)
      | _ \<Rightarrow> False)"

definition str_key_value :: "eval_ctx \<Rightarrow> str_key \<Rightarrow> bytes option" where
  "str_key_value ctx k =
     (case k of
        SkPrefix \<Rightarrow> ec_prefix ctx
      | SkDelimiter \<Rightarrow> ec_delimiter ctx
      | SkBypassGovernance \<Rightarrow> Some (if ec_bypass_governance ctx then lit ''true'' else lit ''false''))"

fun numeric_cmp :: "numeric_op \<Rightarrow> int \<Rightarrow> int \<Rightarrow> bool" where
  "numeric_cmp NumEq have_v want = (have_v = want)"
| "numeric_cmp NumNe have_v want = (have_v \<noteq> want)"
| "numeric_cmp NumLt have_v want = (have_v < want)"
| "numeric_cmp NumLte have_v want = (have_v \<le> want)"
| "numeric_cmp NumGt have_v want = (want < have_v)"
| "numeric_cmp NumGte have_v want = (want \<le> have_v)"

fun date_cmp :: "date_op \<Rightarrow> int \<Rightarrow> int \<Rightarrow> bool" where
  "date_cmp DateGt now want = (want < now)"
| "date_cmp DateLt now want = (now < want)"
| "date_cmp DateEq now want = (now = want)"

text \<open>The backtracking loop of \<^verbatim>\<open>glob_match\<close>: positions in pattern and value, the last star and where it was met.\<close>

partial_function (option) glob_loop :: "bytes \<Rightarrow> bytes \<Rightarrow> nat \<Rightarrow> nat \<Rightarrow> (nat \<times> nat) option \<Rightarrow> bool option" where
  "glob_loop p v pi vi star =
     (if vi < length v then
        if pi < length p \<and> (p ! pi = 0x3F \<or> p ! pi = v ! vi) then glob_loop p v (pi + 1) (vi + 1) star
        else if pi < length p \<and> p ! pi = 0x2A then glob_loop p v (pi + 1) vi (Some (pi, vi))
        else case star of
            Some (star_p, star_v) \<Rightarrow> glob_loop p v (star_p + 1) (star_v + 1) (Some (star_p, star_v + 1))
          | None \<Rightarrow> Some False
      else Some (pi + length (takeWhile (\<lambda>c. c = 0x2A) (drop pi p)) = length p))"

declare glob_loop.simps [code]

definition glob_match :: "bytes \<Rightarrow> bytes \<Rightarrow> bool option" where
  "glob_match p v = glob_loop p v 0 0 None"

definition glob_hit :: "bytes \<Rightarrow> bytes \<Rightarrow> bool" where
  "glob_hit p v \<longleftrightarrow> glob_match p v = Some True"

definition cond_satisfied :: "eval_ctx \<Rightarrow> cond \<Rightarrow> bool" where
  "cond_satisfied ctx c =
     (case c of
        CondIp negate nets \<Rightarrow>
          (case ec_source_ip ctx of Some ip \<Rightarrow> list_ex (\<lambda>n. net_contains n ip) nets | None \<Rightarrow> False) \<noteq> negate
      | CondStr like key values \<Rightarrow>
          (case str_key_value ctx key of
             None \<Rightarrow> False
           | Some v \<Rightarrow> list_ex (\<lambda>p. if like then glob_hit p v else p = v) values)
      | CondBool expected \<Rightarrow> ec_bypass_governance ctx = expected
      | CondNumeric op values \<Rightarrow>
          (case ec_remaining_retention_days ctx of None \<Rightarrow> False | Some h \<Rightarrow> list_ex (numeric_cmp op h) values)
      | CondDate op values \<Rightarrow>
          (case ec_now ctx of None \<Rightarrow> False | Some now \<Rightarrow> list_ex (date_cmp op now) values))"

definition normalize_action :: "bytes \<Rightarrow> bytes" where
  "normalize_action action =
     (let a = ascii_lowercase (str_trim action)
      in if prefix (lit ''s3:'') a \<or> prefix (lit ''admin:'') a \<or> prefix (lit ''sts:'') a then a else lit ''s3:'' @ a)"

definition wildcard_match :: "bytes \<Rightarrow> bytes \<Rightarrow> bool" where
  "wildcard_match pattern v =
     (let pat = str_trim pattern
      in case strip_suf [0x2A] pat of Some p \<Rightarrow> prefix p v | None \<Rightarrow> eq_ignore_case pat v)"

definition username_var :: bytes where
  "username_var = lit ''${aws:username}''"

definition expand_username_var :: "bytes \<Rightarrow> caller_identity option \<Rightarrow> bytes option" where
  "expand_username_var pattern caller =
     (if \<not> sublist username_var pattern then Some pattern
      else case caller of None \<Rightarrow> None | Some c \<Rightarrow> Some (str_replace username_var (ci_user c) pattern))"

section \<open>Decisions\<close>

definition statement_applies :: "bytes \<Rightarrow> bytes \<Rightarrow> bool \<Rightarrow> eval_ctx \<Rightarrow> statement \<Rightarrow> bool" where
  "statement_applies action resource authenticated ctx st \<longleftrightarrow>
     (case st_principal st of Some p \<Rightarrow> principal_matches authenticated (ec_caller ctx) p | None \<Rightarrow> True) \<and>
     list_ex (\<lambda>p. wildcard_match p action) (st_actions st) \<and>
     list_ex (\<lambda>p. case expand_username_var p (ec_caller ctx) of
         Some expanded \<Rightarrow> wildcard_match expanded resource | None \<Rightarrow> False) (st_resources st) \<and>
     list_all (cond_satisfied ctx) (st_conditions st)"

fun decide_loop :: "bytes \<Rightarrow> bytes \<Rightarrow> bool \<Rightarrow> eval_ctx \<Rightarrow> statement list \<Rightarrow> bool \<Rightarrow> decision" where
  "decide_loop action resource authenticated ctx [] allowed = (if allowed then Allow else NoMatch)"
| "decide_loop action resource authenticated ctx (st # sts) allowed =
     (if \<not> statement_applies action resource authenticated ctx st
      then decide_loop action resource authenticated ctx sts allowed
      else case st_effect st of
          EfDeny \<Rightarrow> Deny
        | EfAllow \<Rightarrow> decide_loop action resource authenticated ctx sts True)"

definition decide :: "policy \<Rightarrow> bytes \<Rightarrow> bytes \<Rightarrow> bool \<Rightarrow> eval_ctx \<Rightarrow> decision" where
  "decide p action resource authenticated ctx =
     decide_loop (normalize_action action) resource authenticated ctx p False"

definition evaluate :: "policy \<Rightarrow> bytes \<Rightarrow> bytes \<Rightarrow> bool" where
  "evaluate p action resource \<longleftrightarrow> decide p action resource True default_ctx = Allow"

definition public_targets :: "bytes list" where
  "public_targets = [lit ''s3:getobject'', lit ''s3:putobject'', lit ''s3:listbucket'']"

definition grants_anonymous_public_access :: "policy \<Rightarrow> bool" where
  "grants_anonymous_public_access p =
     list_ex (\<lambda>st. st_effect st = EfAllow \<and> st_principal st = Some PrAny \<and>
       list_ex (\<lambda>pat. list_ex (wildcard_match (normalize_action pat)) public_targets) (st_actions st)) p"

section \<open>The wildcard language\<close>

text \<open>What a pattern means: a star stands for any string, a question mark for any byte.\<close>

fun glob :: "bytes \<Rightarrow> bytes \<Rightarrow> bool" where
  "glob [] v \<longleftrightarrow> v = []"
| "glob (c # p) [] \<longleftrightarrow> c = 0x2A \<and> glob p []"
| "glob (c # p) (x # v) \<longleftrightarrow>
     (if c = 0x2A then glob p (x # v) \<or> glob (c # p) v else (c = 0x3F \<or> c = x) \<and> glob p v)"

lemma glob_star: "glob (0x2A # p) v \<longleftrightarrow> (\<exists>k \<le> length v. glob p (drop k v))"
proof (induction v)
  case (Cons x v)
  have "(\<exists>k \<le> length (x # v). glob p (drop k (x # v))) \<longleftrightarrow> glob p (x # v) \<or> (\<exists>k \<le> length v. glob p (drop k v))"
    by (metis Suc_le_mono drop0 drop_Suc_Cons le0 length_Cons not0_implies_Suc)
  with Cons show ?case by simp
qed simp

lemma glob_segment:
  assumes "0x2A \<notin> set seg" "glob (seg @ p) v"
  shows "length seg \<le> length v \<and> glob p (drop (length seg) v)"
  using assms
proof (induction seg arbitrary: v)
  case (Cons c seg)
  then show ?case by (cases v) auto
qed simp

lemma glob_stars: "glob p [] \<longleftrightarrow> length (takeWhile (\<lambda>c. c = 0x2A) p) = length p"
  by (induction p) auto

section \<open>The loop\<close>

text \<open>
  The state after a star at \<open>sp\<close> that was met at value position \<open>sv\<close>: since then the loop has matched,
  one byte each, the star-free part of the pattern up to \<open>pi\<close>.
\<close>

definition star_ok :: "bytes \<Rightarrow> nat \<Rightarrow> nat \<Rightarrow> (nat \<times> nat) option \<Rightarrow> bool" where
  "star_ok p pi vi star \<longleftrightarrow>
     (case star of
        None \<Rightarrow> True
      | Some (sp, sv) \<Rightarrow> sp < pi \<and> sv \<le> vi \<and> p ! sp = 0x2A \<and> vi - sv = pi - (sp + 1) \<and>
          0x2A \<notin> set (take (pi - (sp + 1)) (drop (sp + 1) p)))"

definition retry :: "bytes \<Rightarrow> bytes \<Rightarrow> (nat \<times> nat) option \<Rightarrow> bool" where
  "retry p v star \<longleftrightarrow>
     (case star of None \<Rightarrow> False | Some (sp, sv) \<Rightarrow> \<exists>k > sv. k \<le> length v \<and> glob (drop (sp + 1) p) (drop k v))"

definition glob_rank :: "bytes \<Rightarrow> bytes \<Rightarrow> ((nat \<times> nat \<times> (nat \<times> nat) option) \<times> (nat \<times> nat \<times> (nat \<times> nat) option)) set" where
  "glob_rank p v = measures
     [\<lambda>(pi, vi, star). case star of None \<Rightarrow> length v + 1 | Some (sp, sv) \<Rightarrow> length v - sv,
      \<lambda>(pi, vi, star). case star of None \<Rightarrow> 0 | Some (sp, sv) \<Rightarrow> length p - sp,
      \<lambda>(pi, vi, star). length v - vi]"

lemma wf_glob_rank: "wf (glob_rank p v)"
  by (simp add: glob_rank_def)

lemma segment_ahead:
  assumes "star_ok p pi vi (Some (sp, sv))" "pi \<le> length p" "sv < k" "k \<le> length v" "glob (drop (sp + 1) p) (drop k v)"
  shows "k + (vi - sv) \<le> length v \<and> glob (drop pi p) (drop (k + (vi - sv)) v)"
proof -
  let ?seg = "take (pi - (sp + 1)) (drop (sp + 1) p)"
  have a: "sp < pi" "0x2A \<notin> set ?seg" "vi - sv = pi - (sp + 1)" using assms(1) by (auto simp: star_ok_def)
  then have len: "length ?seg = vi - sv" using assms(2) by simp
  have "drop (sp + 1) p = ?seg @ drop (pi - (sp + 1)) (drop (sp + 1) p)" by (rule append_take_drop_id [symmetric])
  then have "drop (sp + 1) p = ?seg @ drop pi p" using a(1) by simp
  then have "glob (?seg @ drop pi p) (drop k v)" using assms(5) by simp
  from glob_segment [OF a(2) this] assms(4) show ?thesis unfolding len by (auto simp: add.commute)
qed

lemma star_ok_hit:
  assumes "star_ok p pi vi star" "pi < length p" "p ! pi \<noteq> 0x2A"
  shows "star_ok p (pi + 1) (vi + 1) star"
proof (cases star)
  case (Some x)
  obtain sp sv where x: "x = (sp, sv)" by (cases x)
  have a: "sp < pi" "0x2A \<notin> set (take (pi - (sp + 1)) (drop (sp + 1) p))" using assms(1) by (simp_all add: star_ok_def Some x)
  have "pi - (sp + 1) < length (drop (sp + 1) p)" "drop (sp + 1) p ! (pi - (sp + 1)) = p ! pi" using a(1) assms(2) by simp_all
  then have "take (Suc (pi - (sp + 1))) (drop (sp + 1) p) = take (pi - (sp + 1)) (drop (sp + 1) p) @ [p ! pi]"
    by (metis take_Suc_conv_app_nth)
  moreover have "pi + 1 - (sp + 1) = Suc (pi - (sp + 1))" using a(1) by simp
  ultimately have "set (take (pi + 1 - (sp + 1)) (drop (sp + 1) p)) = insert (p ! pi) (set (take (pi - (sp + 1)) (drop (sp + 1) p)))"
    by (simp only: set_append set_simps) blast
  then have "0x2A \<notin> set (take (pi + 1 - (sp + 1)) (drop (sp + 1) p))" using a(2) assms(3) by (simp only:) auto
  then show ?thesis using assms(1) a(1) by (auto simp: star_ok_def Some x)
qed (simp add: star_ok_def)

lemma star_step:
  fixes P :: "nat \<Rightarrow> bool"
  assumes "i \<le> n"
  shows "P i \<or> (\<exists>k > i. k \<le> n \<and> P k) \<longleftrightarrow> (\<exists>k \<le> n - i. P (k + i))" (is "?l \<longleftrightarrow> ?r")
proof
  assume ?l
  then obtain k where "i \<le> k" "k \<le> n" "P k" using assms by (metis less_imp_le order.refl)
  then show ?r by (intro exI [of _ "k - i"]) simp
next
  assume ?r
  then obtain k where k: "k \<le> n - i" "P (k + i)" by blast
  then show ?l using assms by (cases k) (auto intro: exI [of _ "k + i"])
qed

lemma no_retry_at_end:
  "star_ok p pi (length v) star \<Longrightarrow> pi \<le> length p \<Longrightarrow> \<not> retry p v star"
  using segment_ahead [of p pi "length v"] by (fastforce simp: retry_def star_ok_def split: option.splits)

lemma retry_at_star:
  assumes "star_ok p pi vi star" "pi < length p" "p ! pi = 0x2A" "vi \<le> length v" "retry p v star"
  shows "glob (drop pi p) (drop vi v)"
proof -
  obtain sp sv k where k: "star = Some (sp, sv)" "sv < k" "k \<le> length v" "glob (drop (sp + 1) p) (drop k v)"
    using assms(5) by (auto simp: retry_def split: option.splits)
  have s: "star_ok p pi vi (Some (sp, sv))" using assms(1) k(1) by simp
  from segment_ahead [OF s _ k(2-4)] assms(2) have "k + (vi - sv) \<le> length v" "glob (drop pi p) (drop (k + (vi - sv)) v)"
    by simp_all
  moreover have d: "drop pi p = 0x2A # drop (pi + 1) p" using Cons_nth_drop_Suc [OF assms(2)] assms(3) by simp
  moreover have "sv \<le> vi" using s by (simp add: star_ok_def)
  ultimately obtain j where j: "j \<le> length v - (k + (vi - sv))" "glob (drop (pi + 1) p) (drop (j + (k + (vi - sv))) v)"
    by (auto simp: glob_star)
  have "j + (k + (vi - sv)) = (j + k - sv) + vi" "j + k - sv \<le> length v - vi"
    using j(1) k(2,3) \<open>sv \<le> vi\<close> \<open>k + (vi - sv) \<le> length v\<close> by linarith+
  then show ?thesis using j(2) unfolding d glob_star by (intro exI [of _ "j + k - sv"]) simp
qed

lemma next_step:
  fixes P :: "nat \<Rightarrow> bool"
  shows "i < n \<Longrightarrow> P (Suc i) \<or> (\<exists>k > Suc i. k \<le> n \<and> P k) \<longleftrightarrow> (\<exists>k > i. k \<le> n \<and> P k)"
  by (metis Suc_lessD Suc_lessI Suc_le_eq lessI)

text \<open>What the loop still has to decide, and how one turn changes the question.\<close>

definition pending :: "bytes \<Rightarrow> bytes \<Rightarrow> nat \<Rightarrow> nat \<Rightarrow> (nat \<times> nat) option \<Rightarrow> bool" where
  "pending p v pi vi star \<longleftrightarrow> glob (drop pi p) (drop vi v) \<or> retry p v star"

lemma pending_hit:
  assumes "vi < length v" "pi < length p" "p ! pi = 0x3F \<or> p ! pi = v ! vi" "p ! pi \<noteq> 0x2A"
  shows "pending p v pi vi star \<longleftrightarrow> pending p v (pi + 1) (vi + 1) star"
proof -
  have "drop vi v = v ! vi # drop (vi + 1) v" "drop pi p = p ! pi # drop (pi + 1) p"
    using Cons_nth_drop_Suc [OF assms(1)] Cons_nth_drop_Suc [OF assms(2)] by simp_all
  then have "glob (drop pi p) (drop vi v) \<longleftrightarrow> glob (drop (pi + 1) p) (drop (vi + 1) v)" using assms(3,4) by (simp only: glob.simps) simp
  then show ?thesis by (simp add: pending_def)
qed

lemma pending_star:
  assumes "vi < length v" "pi < length p" "p ! pi = 0x2A" "star_ok p pi vi star"
  shows "pending p v pi vi star \<longleftrightarrow> pending p v (pi + 1) vi (Some (pi, vi))"
proof -
  have p: "drop pi p = 0x2A # drop (pi + 1) p" using Cons_nth_drop_Suc [OF assms(2)] assms(3) by simp
  have "glob (drop (pi + 1) p) (drop vi v) \<or> retry p v (Some (pi, vi)) \<longleftrightarrow> glob (drop pi p) (drop vi v)"
    unfolding p glob_star retry_def
    using star_step [of vi "length v" "\<lambda>k. glob (drop (pi + 1) p) (drop k v)"] assms(1) by simp
  then show ?thesis using retry_at_star [OF assms(4,2,3), of v] assms(1) by (auto simp: pending_def)
qed

lemma no_match:
  assumes "vi < length v" "pi < length p \<longrightarrow> p ! pi \<noteq> 0x3F \<and> p ! pi \<noteq> v ! vi \<and> p ! pi \<noteq> 0x2A"
  shows "\<not> glob (drop pi p) (drop vi v)"
proof -
  have v: "drop vi v = v ! vi # drop (vi + 1) v" using Cons_nth_drop_Suc [OF assms(1)] by simp
  show ?thesis
  proof (cases "pi < length p")
    case True
    have "drop pi p = p ! pi # drop (pi + 1) p" using Cons_nth_drop_Suc [OF True] by simp
    then show ?thesis unfolding v using assms(2) True by simp
  qed (simp add: v)
qed

lemma pending_back:
  assumes "\<not> glob (drop pi p) (drop vi v)" "sv < length v"
  shows "pending p v pi vi (Some (sp, sv)) \<longleftrightarrow> pending p v (sp + 1) (sv + 1) (Some (sp, sv + 1))"
  using assms next_step [of sv "length v" "\<lambda>k. glob (drop (sp + 1) p) (drop k v)"]
  by (simp add: pending_def retry_def)

lemma glob_loop_spec:
  assumes "0x2A \<notin> set v"
  shows "pi \<le> length p \<Longrightarrow> vi \<le> length v \<Longrightarrow> star_ok p pi vi star \<Longrightarrow>
    glob_loop p v pi vi star = Some (pending p v pi vi star)"
proof (induction "(pi, vi, star)" arbitrary: pi vi star rule: wf_induct_rule [OF wf_glob_rank [of p v]])
  case 1
  note IH = 1(1) and pre = 1(2-)
  consider (ended) "vi = length v" | (hit) "vi < length v" "pi < length p" "p ! pi = 0x3F \<or> p ! pi = v ! vi"
    | (star) "vi < length v" "pi < length p" "p ! pi = 0x2A" "p ! pi \<noteq> v ! vi"
    | (miss) "vi < length v" "pi < length p \<longrightarrow> p ! pi \<noteq> 0x3F \<and> p ! pi \<noteq> v ! vi \<and> p ! pi \<noteq> 0x2A"
    using pre(2) by force
  then show ?case
  proof cases
    case ended
    then have "\<not> retry p v star" using no_retry_at_end pre by simp
    moreover have "pi + length (takeWhile (\<lambda>c. c = 0x2A) (drop pi p)) = length p \<longleftrightarrow> glob (drop pi p) []"
      using pre(1) unfolding glob_stars length_drop by linarith
    ultimately show ?thesis using ended by (subst glob_loop.simps) (simp add: pending_def)
  next
    case hit
    have ns: "p ! pi \<noteq> 0x2A" using hit(3) assms nth_mem [OF hit(1)] by auto
    have "((pi + 1, vi + 1, star), pi, vi, star) \<in> glob_rank p v" using hit by (auto simp: glob_rank_def)
    from IH [OF this _ _ star_ok_hit [OF pre(3) hit(2) ns]] hit pending_hit [OF hit ns, of star]
    show ?thesis by (subst glob_loop.simps) simp
  next
    case star
    have so: "star_ok p (pi + 1) vi (Some (pi, vi))" using star by (simp add: star_ok_def)
    have "((pi + 1, vi, Some (pi, vi)), pi, vi, star) \<in> glob_rank p v"
      using pre star by (auto simp: glob_rank_def star_ok_def split: option.split)
    from IH [OF this _ _ so] star pending_star [OF star(1-3) pre(3)] show ?thesis by (subst glob_loop.simps) simp
  next
    case miss
    note no = no_match [OF miss]
    show ?thesis
    proof (cases star)
      case None
      then show ?thesis using miss no by (subst glob_loop.simps) (auto simp: pending_def retry_def)
    next
      case (Some x)
      obtain sp sv where x: "x = (sp, sv)" by (cases x)
      have sv: "sp < pi" "sv \<le> vi" "p ! sp = 0x2A" using pre(3) by (auto simp: Some x star_ok_def)
      have so: "star_ok p (sp + 1) (sv + 1) (Some (sp, sv + 1))" using sv by (simp add: star_ok_def)
      have "((sp + 1, sv + 1, Some (sp, sv + 1)), pi, vi, star) \<in> glob_rank p v"
        using sv miss(1) by (auto simp: glob_rank_def Some x)
      from IH [OF this _ _ so] sv miss(1) pre(1) pending_back [OF no, of sv sp]
      have "glob_loop p v (sp + 1) (sv + 1) (Some (sp, sv + 1)) = Some (pending p v pi vi star)" by (simp add: Some x)
      then show ?thesis using miss by (subst glob_loop.simps) (auto simp: Some x)
    qed
  qed
qed


definition star_behind :: "nat \<Rightarrow> nat \<Rightarrow> (nat \<times> nat) option \<Rightarrow> bool" where
  "star_behind pi vi star \<longleftrightarrow> (case star of None \<Rightarrow> True | Some (sp, sv) \<Rightarrow> sp < pi \<and> sv \<le> vi)"

lemma glob_loop_total:
  "pi \<le> length p \<Longrightarrow> star_behind pi vi star \<Longrightarrow> glob_loop p v pi vi star \<noteq> None"
proof (induction "(pi, vi, star)" arbitrary: pi vi star rule: wf_induct_rule [OF wf_glob_rank [of p v]])
  case 1
  note IH = 1(1) and pre = 1(2-)
  have hit: "glob_loop p v (pi + 1) (vi + 1) star \<noteq> None" if "vi < length v" "pi < length p"
    using pre that by (intro IH) (auto simp: glob_rank_def star_behind_def split: option.splits)
  have star: "glob_loop p v (pi + 1) vi (Some (pi, vi)) \<noteq> None" if "vi < length v" "pi < length p"
    using pre that by (intro IH) (auto simp: glob_rank_def star_behind_def split: option.splits)
  have again: "glob_loop p v (sp + 1) (sv + 1) (Some (sp, sv + 1)) \<noteq> None" if "vi < length v" "star = Some (sp, sv)" for sp sv
    using pre that by (intro IH) (auto simp: glob_rank_def star_behind_def)
  show ?case by (subst glob_loop.simps) (use hit star again in \<open>auto split: option.split\<close>)
qed

lemma literal_tail:
  "0x2A \<notin> set (drop pi p) \<Longrightarrow> pi \<le> length p \<Longrightarrow> vi \<le> length v \<Longrightarrow>
    glob_loop p v pi vi None = Some (glob (drop pi p) (drop vi v))"
proof (induction "length v - vi" arbitrary: pi vi)
  case 0
  then have "pi + length (takeWhile (\<lambda>c. c = 0x2A) (drop pi p)) = length p \<longleftrightarrow> glob (drop pi p) []"
    unfolding glob_stars length_drop by linarith
  then show ?case using 0 by (subst glob_loop.simps) simp
next
  case (Suc n)
  have vi: "vi < length v" using Suc(2) by simp
  show ?case
  proof (cases "pi < length p \<and> (p ! pi = 0x3F \<or> p ! pi = v ! vi)")
    case True
    have "p ! pi \<in> set (drop pi p)" using True by (metis Cons_nth_drop_Suc list.set_intros(1))
    then have ns: "p ! pi \<noteq> 0x2A" using Suc.prems(1) by metis
    have "set (drop (pi + 1) p) \<subseteq> set (drop pi p)" by (rule set_drop_subset_set_drop) simp
    then have "glob_loop p v (pi + 1) (vi + 1) None = Some (glob (drop (pi + 1) p) (drop (vi + 1) v))"
      using Suc.prems True vi Suc(2) by (intro Suc(1)) auto
    then show ?thesis using True vi pending_hit [of vi v pi p None] ns
      by (subst glob_loop.simps) (simp add: pending_def retry_def)
  next
    case False
    have "p ! pi \<in> set (drop pi p)" if "pi < length p" using that by (metis Cons_nth_drop_Suc list.set_intros(1))
    then have "pi < length p \<longrightarrow> p ! pi \<noteq> 0x2A" using Suc.prems(1) by metis
    with False vi no_match [of vi v pi p] show ?thesis by (subst glob_loop.simps) auto
  qed
qed

section \<open>Decisions are independent of order\<close>

lemma decide_loop_spec:
  "decide_loop a r auth ctx sts allowed =
     (if \<exists>st \<in> set sts. st_effect st = EfDeny \<and> statement_applies a r auth ctx st then Deny
      else if allowed \<or> (\<exists>st \<in> set sts. st_effect st = EfAllow \<and> statement_applies a r auth ctx st) then Allow else NoMatch)"
proof (induction sts arbitrary: allowed)
  case (Cons st sts)
  then show ?case by (cases "st_effect st") auto
qed simp

lemma glob_refl: "glob w w"
proof (induction w)
  case (Cons c w)
  have "glob (0x2A # w) w" if "glob w w" using that by (simp add: glob_star) (metis drop0 le0)
  with Cons show ?case by simp
qed simp

lemma mask_high: "and (w :: 'a :: len word) (push_bit k (- 1)) = push_bit k (drop_bit k w)"
  by (rule bit_word_eqI) (auto simp: bit_simps)

lemma drop_push_drop: "drop_bit k (push_bit k (drop_bit k w)) = drop_bit k (w :: 'a :: len word)"
  by (rule bit_word_eqI) (auto simp: bit_simps dest: bit_imp_le_length)

lemma net_contains_V4:
  assumes "net_prefix_len n \<le> 32" "net_addr n = V4 net"
  shows "net_contains n (V4 a) \<longleftrightarrow> drop_bit (32 - unat (net_prefix_len n)) net = drop_bit (32 - unat (net_prefix_len n)) a"
proof -
  have sh: "unat (32 - net_prefix_len n) = 32 - unat (net_prefix_len n)"
    using assms(1) by (simp add: unat_sub_if' word_le_nat_alt)
  have "and net (push_bit k (- 1)) = and a (push_bit k (- 1)) \<longleftrightarrow> drop_bit k net = drop_bit k a" for k
    unfolding mask_high by (metis drop_push_drop)
  moreover have "drop_bit 32 net = 0" "drop_bit 32 a = 0" by (auto intro!: bit_word_eqI simp: bit_simps dest: bit_imp_le_length)
  ultimately show ?thesis using assms(2) by (simp add: net_contains_def sh Let_def)
qed

section \<open>Properties\<close>

text \<open>
  C36. The wildcard matcher of policy conditions ends on every pattern and value.
\<close>

theorem glob_match_terminates: "glob_match p v \<noteq> None"
  unfolding glob_match_def by (rule glob_loop_total) (simp_all add: star_behind_def)

lemma glob_questions: "glob (replicate n 0x3F) v \<longleftrightarrow> length v = n"
proof (induction n arbitrary: v)
  case (Suc n)
  then show ?case by (cases v) auto
qed simp

text \<open>
  C37. On values without a star byte the backtracking loop decides exactly the wildcard language over
  bytes: a star in the pattern stands for any string, a question mark for one byte, everything else for
  itself. In particular a run of question marks matches exactly the values of that many bytes: a
  character whose UTF-8 form has two bytes needs two of them, where the comment of the function speaks of
  a single character.
\<close>

theorem glob_match_correct:
  assumes "0x2A \<notin> set v"
  shows "glob_match p v = Some (glob p v) \<and> glob_match (replicate n 0x3F) v = Some (length v = n)"
proof -
  have "glob_match q v = Some (glob q v)" for q
    using glob_loop_spec [OF assms, of 0 q 0 None] by (simp add: glob_match_def star_ok_def pending_def retry_def)
  then show ?thesis by (simp add: glob_questions)
qed

text \<open>
  When the value itself begins with a star the loop takes a star of the pattern for that byte and
  never returns to it: the pattern does not match although its text stands at the end of the value.
\<close>

theorem glob_match_loses_star:
  assumes "0x2A \<notin> set w" "x \<noteq> []"
  shows "glob_match (0x2A # w) (0x2A # x @ w) = Some False \<and> glob (0x2A # w) (0x2A # x @ w)"
proof
  let ?p = "0x2A # w" and ?v = "0x2A # x @ w"
  have "glob_match ?p ?v = glob_loop ?p ?v 1 1 None"
    unfolding glob_match_def by (subst glob_loop.simps) simp
  also have "\<dots> = Some (glob w (x @ w))" using literal_tail [of 1 ?p 1 ?v] assms(1) by simp
  also have "glob w (x @ w) = False" using glob_segment [OF assms(1), of "[]" "x @ w"] assms(2) by (cases x) auto
  finally show "glob_match ?p ?v = Some False" by simp
  show "glob ?p ?v" unfolding glob_star using glob_refl [of w] by (intro exI [of _ "1 + length x"]) simp
qed

text \<open>
  The decision of a policy does not depend on the order of its statements: it is a denial when a
  denying statement applies, otherwise permission when an allowing one applies, otherwise no match.
\<close>

theorem decide_exact:
  "decide p action resource auth ctx =
     (let app = statement_applies (normalize_action action) resource auth ctx in
      if \<exists>st \<in> set p. st_effect st = EfDeny \<and> app st then Deny
      else if \<exists>st \<in> set p. st_effect st = EfAllow \<and> app st then Allow else NoMatch)"
  by (simp add: decide_def decide_loop_spec Let_def)

section \<open>Witnesses\<close>

theorem glob_match_correct_witness:
  "glob_match (lit ''a*c?'') (lit ''abcacd'') = Some True \<and>
   glob_match (lit ''?'') [0xC3, 0xA9] = Some False \<and> glob_match (lit ''??'') [0xC3, 0xA9] = Some True"
proof -
  have "0x2A \<notin> set (lit ''abcacd'')" "glob (lit ''a*c?'') (lit ''abcacd'')"
    and e: "0x2A \<notin> set [0xC3, 0xA9 :: u8]" by code_simp+
  then have "glob_match (lit ''a*c?'') (lit ''abcacd'') = Some True"
    using glob_match_correct [of "lit ''abcacd''" "lit ''a*c?''"] by simp
  moreover have "lit ''?'' = replicate 1 0x3F" "lit ''??'' = replicate 2 0x3F" by code_simp+
  ultimately show ?thesis
    using glob_match_correct [OF e, of "[]" 1] glob_match_correct [OF e, of "[]" 2] by (simp add: glob_questions)
qed

theorem glob_match_loses_star_witness:
  "glob_match (lit ''*a'') (lit ''*ba'') = Some False \<and> glob (lit ''*a'') (lit ''*ba'')"
  using glob_match_loses_star [of "lit ''a''" "lit ''b''"] by (simp add: lit_def)

end
