(* ===== verification/Policy_Parse.thy ===== *)
theory Policy_Parse
  imports Policy
begin

text \<open>
  Building a policy from a JSON value (\<^verbatim>\<open>Policy::parse\<close> and its helpers): fields, principals, conditions
  and the dates in them. The JSON text parser \<open>from_str\<close> is a parameter.
\<close>

section \<open>Values\<close>

fun string_elements :: "json list \<Rightarrow> policy_error + bytes list" where
  "string_elements [] = Inr []"
| "string_elements (JString s # js) = bind_res (string_elements js) (\<lambda>out. Inr (s # out))"
| "string_elements (_ # js) = Inl PeElementNotString"

definition parse_string_or_array :: "json \<Rightarrow> policy_error + bytes list" where
  "parse_string_or_array v =
     (case v of JString s \<Rightarrow> Inr [s] | JArray js \<Rightarrow> string_elements js | _ \<Rightarrow> Inl PeNotStringOrArray)"

fun map_res :: "('a \<Rightarrow> 'e + 'b) \<Rightarrow> 'a list \<Rightarrow> 'e + 'b list" where
  "map_res f [] = Inr []"
| "map_res f (x # xs) = bind_res (f x) (\<lambda>y. bind_res (map_res f xs) (\<lambda>ys. Inr (y # ys)))"

definition parse_net :: "bytes \<Rightarrow> policy_error + ip_net" where
  "parse_net s =
     bind_res (case split_once 0x2F s of
         Some (a, p) \<Rightarrow> (case parse_u8 p of Some n \<Rightarrow> Inr (a, Some n) | None \<Rightarrow> Inl PeCidrLength)
       | None \<Rightarrow> Inr (s, None)) (\<lambda>(addr_s, plen).
     case parse_ip addr_s of
       None \<Rightarrow> Inl PeIp
     | Some addr \<Rightarrow>
         (case (plen, addr) of
            (Some p, V4 _) \<Rightarrow> if p \<le> 32 then Inr \<lparr>net_addr = addr, net_prefix_len = p\<rparr> else Inl PeCidrRange
          | (Some p, V6 _) \<Rightarrow> if p \<le> 128 then Inr \<lparr>net_addr = addr, net_prefix_len = p\<rparr> else Inl PeCidrRange
          | (None, V4 _) \<Rightarrow> Inr \<lparr>net_addr = addr, net_prefix_len = 32\<rparr>
          | (None, V6 _) \<Rightarrow> Inr \<lparr>net_addr = addr, net_prefix_len = 128\<rparr>))"

section \<open>Dates\<close>

text \<open>Seconds of a civil date and time; arithmetic is that of \<^verbatim>\<open>i64\<close>.\<close>

definition civil_days :: "int \<Rightarrow> int \<Rightarrow> int \<Rightarrow> int" where
  "civil_days y mo d =
     (let y_adj = (if mo \<le> 2 then y - 1 else y); era = y_adj div 400; yoe = y_adj mod 400;
          mp = (if 2 < mo then mo - 3 else mo + 9); doy = quot_i64 (153 * mp + 2) 5 + d - 1;
          doe = yoe * 365 + quot_i64 yoe 4 - quot_i64 yoe 100 + doy
      in era * 146097 + doe - 719468)"

definition date_offset :: "bytes \<Rightarrow> int option" where
  "date_offset rest =
     (if rest = lit ''Z'' \<or> rest = lit ''z'' \<or> rest = [] then Some 0
      else if hd rest \<noteq> 0x2B \<and> hd rest \<noteq> 0x2D then None
      else case split_once 0x3A (tl rest) of
          None \<Rightarrow> None
        | Some (th, tm) \<Rightarrow>
            (case (parse_i64 th, parse_i64 tm) of
               (Some h, Some m) \<Rightarrow>
                 Some (i64_wrap ((if hd rest = 0x2B then 1 else - 1) * i64_wrap (i64_wrap (h * 3600) + i64_wrap (m * 60))))
             | _ \<Rightarrow> None))"

definition date_num :: "bytes \<Rightarrow> nat \<Rightarrow> nat \<Rightarrow> int option" where
  "date_num s a z = (case str_get s a z of Some t \<Rightarrow> parse_i64 t | None \<Rightarrow> None)"

definition date_shape :: "bytes \<Rightarrow> bool" where
  "date_shape b \<longleftrightarrow> 20 \<le> length b \<and> b ! 4 = 0x2D \<and> b ! 7 = 0x2D \<and> (b ! 10 = 0x54 \<or> b ! 10 = 0x74) \<and>
     b ! 13 = 0x3A \<and> b ! 16 = 0x3A"

definition date_rest :: "bytes \<Rightarrow> bytes" where
  "date_rest s =
     (let rest = drop 19 s
      in case strip_pre [0x2E] rest of
           Some stripped \<Rightarrow> drop (length (takeWhile is_ascii_digit stripped)) stripped
         | None \<Rightarrow> rest)"

definition parse_policy_date :: "bytes \<Rightarrow> int option" where
  "parse_policy_date s =
     (case parse_i64 (str_trim s) of
        Some epoch \<Rightarrow> Some epoch
      | None \<Rightarrow>
          if \<not> date_shape s then None
          else case (date_num s 0 4, date_num s 5 7, date_num s 8 10, date_num s 11 13, date_num s 14 16, date_num s 17 19) of
              (Some y, Some mo, Some d, Some h, Some mi, Some sec) \<Rightarrow>
                (case date_offset (date_rest s) of
                   Some offset \<Rightarrow> Some (i64_wrap (civil_days y mo d * 86400 + h * 3600 + mi * 60 + sec - offset))
                 | None \<Rightarrow> None)
            | _ \<Rightarrow> None)"

section \<open>Principals\<close>

definition parse_aws_principal :: "bytes \<Rightarrow> aws_principal" where
  "parse_aws_principal s =
     (case strip_pre (lit ''arn:aws:iam::'') s of
        None \<Rightarrow> LegacyAuthenticated
      | Some rest \<Rightarrow>
          (case split_once 0x3A rest of
             None \<Rightarrow> LegacyAuthenticated
           | Some (i, resource) \<Rightarrow>
               if i = [] then LegacyAuthenticated
               else if resource = lit ''root'' then Root i
               else case strip_pre (lit ''user/'') resource of
                   Some name \<Rightarrow> if name = [] then LegacyAuthenticated else User i name
                 | None \<Rightarrow> LegacyAuthenticated))"

fun json_string :: "json \<Rightarrow> bytes option" where
  "json_string (JString s) = Some s"
| "json_string _ = None"

definition parse_principal :: "json \<Rightarrow> policy_error + principal" where
  "parse_principal v =
     (case v of
        JString s \<Rightarrow> if s = lit ''*'' then Inr PrAny else Inl PePrincipal
      | JObject [(k, w)] \<Rightarrow>
          if k \<noteq> lit ''AWS'' then Inl PePrincipal
          else (case w of
              JString s \<Rightarrow> Inr (if s = lit ''*'' then PrAny else PrAws [parse_aws_principal s])
            | JArray js \<Rightarrow>
                if js = [] \<or> \<not> list_all (\<lambda>j. json_string j \<noteq> None) js then Inl PePrincipal
                else Inr (PrAws (map (\<lambda>j. parse_aws_principal (the (json_string j))) js))
            | _ \<Rightarrow> Inl PePrincipal)
      | _ \<Rightarrow> Inl PePrincipal)"

section \<open>Conditions\<close>

definition numeric_of_name :: "bytes \<Rightarrow> numeric_op option" where
  "numeric_of_name op =
     map_of [(lit ''NumericEquals'', NumEq), (lit ''NumericNotEquals'', NumNe), (lit ''NumericLessThan'', NumLt),
       (lit ''NumericLessThanEquals'', NumLte), (lit ''NumericGreaterThan'', NumGt),
       (lit ''NumericGreaterThanEquals'', NumGte)] op"

definition date_of_name :: "bytes \<Rightarrow> date_op option" where
  "date_of_name op =
     map_of [(lit ''DateGreaterThan'', DateGt), (lit ''DateLessThan'', DateLt), (lit ''DateEquals'', DateEq)] op"

definition parse_cond :: "bytes \<Rightarrow> bytes \<Rightarrow> json \<Rightarrow> policy_error + cond" where
  "parse_cond op key val =
     (let key_l = ascii_lowercase key in
      if op = lit ''IpAddress'' \<or> op = lit ''NotIpAddress'' then
        if key_l \<noteq> lit ''s3:sourceip'' then Inl PeConditionKey
        else bind_res (parse_string_or_array val) (\<lambda>ss.
          bind_res (map_res parse_net ss) (\<lambda>nets. Inr (CondIp (op = lit ''NotIpAddress'') nets)))
      else if op = lit ''StringEquals'' \<or> op = lit ''StringLike'' then
        bind_res
          (if key_l = lit ''s3:prefix'' then Inr SkPrefix
           else if key_l = lit ''s3:delimiter'' then Inr SkDelimiter
           else if key_l = lit ''s3:bypassgovernanceretention'' \<and> op = lit ''StringEquals'' then Inr SkBypassGovernance
           else Inl PeConditionKey) (\<lambda>sk.
        bind_res (parse_string_or_array val) (\<lambda>vs. Inr (CondStr (op = lit ''StringLike'') sk vs)))
      else if op = lit ''Bool'' then
        if key_l \<noteq> lit ''s3:bypassgovernanceretention'' then Inl PeConditionKey
        else bind_res (parse_string_or_array val) (\<lambda>raw.
          case raw of
            [b] \<Rightarrow> if b = lit ''true'' then Inr (CondBool True) else if b = lit ''false'' then Inr (CondBool False)
                   else Inl PeConditionValue
          | _ \<Rightarrow> Inl PeConditionValue)
      else case numeric_of_name op of
          Some nop \<Rightarrow>
            if key_l \<noteq> lit ''s3:objectlockremainingretentiondays'' then Inl PeConditionKey
            else bind_res (parse_string_or_array val) (\<lambda>ss.
              bind_res (map_res (\<lambda>s. case parse_i64 s of Some n \<Rightarrow> Inr n | None \<Rightarrow> Inl PeConditionValue) ss) (\<lambda>ns.
                Inr (CondNumeric nop ns)))
        | None \<Rightarrow>
            (case date_of_name op of
               Some dop \<Rightarrow>
                 if key_l \<noteq> lit ''aws:currenttime'' then Inl PeConditionKey
                 else bind_res (parse_string_or_array val) (\<lambda>ss.
                   bind_res (map_res (\<lambda>s. case parse_policy_date s of Some n \<Rightarrow> Inr n | None \<Rightarrow> Inl PeConditionValue) ss)
                     (\<lambda>ns. Inr (CondDate dop ns)))
             | None \<Rightarrow> Inl PeConditionOperator))"

fun parse_conds :: "bytes \<Rightarrow> (bytes \<times> json) list \<Rightarrow> policy_error + cond list" where
  "parse_conds op [] = Inr []"
| "parse_conds op ((k, v) # kvs) = bind_res (parse_cond op k v) (\<lambda>c. bind_res (parse_conds op kvs) (\<lambda>cs. Inr (c # cs)))"

fun parse_ops :: "(bytes \<times> json) list \<Rightarrow> policy_error + cond list" where
  "parse_ops [] = Inr []"
| "parse_ops ((op, JObject kvs) # ops) = bind_res (parse_conds op kvs) (\<lambda>cs. bind_res (parse_ops ops) (\<lambda>ds. Inr (cs @ ds)))"
| "parse_ops (_ # ops) = Inl PeConditionNotObject"

definition parse_condition :: "json \<Rightarrow> policy_error + cond list" where
  "parse_condition v = (case v of JObject ops \<Rightarrow> parse_ops ops | _ \<Rightarrow> Inl PeConditionNotObject)"

section \<open>Statements\<close>

definition field_ok :: "bytes \<Rightarrow> policy_error + unit" where
  "field_ok k =
     (if k \<in> set [lit ''Sid'', lit ''Effect'', lit ''Principal'', lit ''Action'', lit ''Resource'', lit ''Condition''] then Inr ()
      else if k \<in> set [lit ''NotPrincipal'', lit ''NotAction'', lit ''NotResource''] then Inl PeUnsupportedField
      else Inl PeUnknownField)"

text \<open>\<^verbatim>\<open>so.get(name).map(f).transpose()?\<close>\<close>

definition opt_field :: "(bytes \<times> json) list \<Rightarrow> bytes \<Rightarrow> (json \<Rightarrow> 'e + 'b) \<Rightarrow> 'e + 'b option" where
  "opt_field so name f =
     (case map_of so name of None \<Rightarrow> Inr None | Some v \<Rightarrow> bind_res (f v) (\<lambda>x. Inr (Some x)))"

definition req_field :: "(bytes \<times> json) list \<Rightarrow> bytes \<Rightarrow> 'e \<Rightarrow> (json \<Rightarrow> 'e + 'b) \<Rightarrow> 'e + 'b" where
  "req_field so name e f = bind_res (opt_field so name f) (\<lambda>x. case x of Some y \<Rightarrow> Inr y | None \<Rightarrow> Inl e)"

definition parse_effect :: "(bytes \<times> json) list \<Rightarrow> policy_error + effect" where
  "parse_effect so =
     (case map_of so (lit ''Effect'') of
        Some (JString s) \<Rightarrow> if s = lit ''Allow'' then Inr EfAllow else if s = lit ''Deny'' then Inr EfDeny else Inl PeEffect
      | _ \<Rightarrow> Inl PeEffect)"

definition parse_statement :: "json \<Rightarrow> policy_error + statement" where
  "parse_statement st =
     (case st of
        JObject so \<Rightarrow>
          bind_res (map_res (\<lambda>(k, _). field_ok k) so) (\<lambda>_.
          bind_res (parse_effect so) (\<lambda>effect.
          bind_res (opt_field so (lit ''Principal'') parse_principal) (\<lambda>principal.
          bind_res (req_field so (lit ''Action'') PeNoAction parse_string_or_array) (\<lambda>actions.
          bind_res (req_field so (lit ''Resource'') PeNoResource parse_string_or_array) (\<lambda>resources.
          bind_res (opt_field so (lit ''Condition'') parse_condition) (\<lambda>conditions.
            Inr \<lparr>st_effect = effect, st_principal = principal, st_actions = map normalize_action actions,
                 st_resources = resources, st_conditions = (case conditions of Some cs \<Rightarrow> cs | None \<Rightarrow> [])\<rparr>))))))
      | _ \<Rightarrow> Inl PeStatementNotObject)"

definition check_version :: "(bytes \<times> json) list \<Rightarrow> policy_error + unit" where
  "check_version obj =
     (case map_of obj (lit ''Version'') of
        None \<Rightarrow> Inr ()
      | Some v \<Rightarrow>
          (case json_string v of
             Some s \<Rightarrow> if s = lit ''2012-10-17'' \<or> s = lit ''2008-10-17'' then Inr () else Inl PeVersion
           | None \<Rightarrow> Inl PeVersion))"

definition parse_statements :: "json \<Rightarrow> policy_error + policy" where
  "parse_statements v =
     (case v of
        JArray stmts \<Rightarrow> if stmts = [] then Inl PeNoStatements else map_res parse_statement stmts
      | _ \<Rightarrow> Inl PeStatementNotArray)"

definition parse_policy_value :: "json \<Rightarrow> policy_error + policy" where
  "parse_policy_value root =
     (case root of
        JObject obj \<Rightarrow>
          bind_res (check_version obj) (\<lambda>_.
          bind_res (case map_of obj (lit ''Statement'') of Some v \<Rightarrow> Inr v | None \<Rightarrow> Inl PeNoStatement) parse_statements)
      | _ \<Rightarrow> Inl PeNotObject)"

definition parse_policy :: "(bytes \<Rightarrow> json option) \<Rightarrow> bytes \<Rightarrow> policy_error + policy" where
  "parse_policy from_str text = (case from_str text of Some v \<Rightarrow> parse_policy_value v | None \<Rightarrow> Inl PeJson)"


section \<open>Parsed policies\<close>

lemma map_res_Inr: "map_res f xs = Inr ys \<Longrightarrow> list_all2 (\<lambda>x y. f x = Inr y) xs ys"
proof (induction xs arbitrary: ys)
  case (Cons x xs)
  then show ?case by (auto simp: bind_res_eq_Inr)
qed simp

lemma trimmed_s3:
  assumes "trimmed a"
  shows "trimmed (lit ''s3:'' @ a)"
  unfolding trimmed_def
proof (intro ballI conjI notI)
  fix w assume w: "w \<in> set ws_chars"
  note ne = ws_chars_nonempty [OF w]
  { assume "prefix w (lit ''s3:'' @ a)"
    then have "hd w = 0x73" using ne by (cases w) (auto simp: lit_def)
    then have "0x73 \<in> set w" using hd_in_set [OF ne] by simp
    then show False using ws_bytes [OF w, of "0x73"] by (simp add: is_ascii_lower_def) }
  { assume "suffix w (lit ''s3:'' @ a)"
    then have "suffix w a \<or> (\<exists>zs. w = zs @ a \<and> suffix zs (lit ''s3:''))" by (simp only: suffix_append)
    then consider "suffix w a" | zs where "w = zs @ a" "suffix zs (lit ''s3:'')" "zs \<noteq> []"
      by (metis append_Nil suffix_order.refl)
    then show False
    proof cases
      case 1
      then show False using assms w by (simp add: trimmed_def)
    next
      case 2
      then have "last zs = last (lit ''s3:'')" by (auto simp: suffix_def)
      then have "0x3A \<in> set w" using 2 last_in_set [of zs] by (simp add: lit_def)
      then show False using ws_bytes [OF w] by blast
    qed }
qed

lemma normalize_idem: "normalize_action (normalize_action a) = normalize_action a"
proof -
  have lower: "ascii_lowercase (ascii_lowercase s) = ascii_lowercase s" for s
    by (simp add: ascii_lowercase_def to_lower_idem)
  let ?b = "ascii_lowercase (str_trim a)"
  have t: "trimmed ?b" by (intro trimmed_lowercase trimmed_str_trim)
  have l: "ascii_lowercase (lit ''s3:'' @ ?b) = lit ''s3:'' @ ?b"
    using lower by (simp add: ascii_lowercase_def lit_def to_lower_def is_ascii_upper_def to_lower_idem)
  show ?thesis
    using str_trim_trimmed [OF t] str_trim_trimmed [OF trimmed_s3 [OF t]] lower l
    by (simp add: normalize_action_def Let_def)
qed

lemma parsed_actions:
  assumes "parse_policy_value v = Inr p" "st \<in> set p" "a \<in> set (st_actions st)"
  shows "normalize_action a = a"
proof -
  obtain w where "parse_statements w = Inr p"
    using assms(1) by (cases v) (auto simp: parse_policy_value_def bind_res_eq_Inr)
  then obtain stmts where "map_res parse_statement stmts = Inr p"
    by (cases w) (auto simp: parse_statements_def split: if_splits)
  from map_res_Inr [OF this] obtain j where "parse_statement j = Inr st"
    using assms(2) by (auto simp: in_set_conv_nth dest: list_all2_nthD2)
  then show ?thesis
    using assms(3) normalize_idem by (cases j) (auto simp: parse_statement_def bind_res_eq_Inr)
qed

lemma named_never_anonymous: "principal_matches False None pr \<longleftrightarrow> pr = PrAny"
proof (cases pr)
  case (PrAws ps)
  have "\<not> aws_matches False None x" for x by (cases x) (simp_all add: aws_matches_def)
  then show ?thesis using PrAws by (simp add: principal_matches_def list_ex_iff)
qed (simp add: principal_matches_def)

section \<open>Properties\<close>

text \<open>
  C38. Public policies are recognised: when every statement of a parsed policy names a principal and an
  anonymous request for reading, writing or listing is allowed, the check behind BlockPublicPolicy
  reports the policy as public.
\<close>

theorem public_policy_detected:
  assumes "parse_policy_value v = Inr p" "\<forall>st \<in> set p. st_principal st \<noteq> None" "ec_caller ctx = None"
    "decide p action resource False ctx = Allow" "normalize_action action \<in> set public_targets"
  shows "grants_anonymous_public_access p"
proof -
  obtain st where st: "st \<in> set p" "st_effect st = EfAllow" "statement_applies (normalize_action action) resource False ctx st"
    using assms(4) by (auto simp: decide_def decide_loop_spec split: if_splits)
  then obtain pr where "st_principal st = Some pr" "principal_matches False None pr"
    using assms(2,3) by (auto simp: statement_applies_def)
  then have pr: "st_principal st = Some PrAny" by (simp add: named_never_anonymous)
  obtain pat where "pat \<in> set (st_actions st)" "wildcard_match pat (normalize_action action)"
    using st(3) by (auto simp: statement_applies_def list_ex_iff)
  then show ?thesis using parsed_actions [OF assms(1) st(1)] st pr assms(5)
    by (force simp: grants_anonymous_public_access_def list_ex_iff)
qed

text \<open>
  A statement without a principal is accepted, applies to everyone, anonymous requests included, and
  escapes that check: the document below is parsed, lets an anonymous request read every object under
  every context, and is not reported as public.
\<close>

definition open_doc :: json where
  "open_doc = JObject [(lit ''Statement'', JArray [JObject [(lit ''Effect'', JString (lit ''Allow'')),
     (lit ''Action'', JString (lit ''s3:GetObject'')), (lit ''Resource'', JString (lit ''*''))]])]"

definition open_statement :: statement where
  "open_statement = \<lparr>st_effect = EfAllow, st_principal = None, st_actions = [lit ''s3:getobject''],
     st_resources = [lit ''*''], st_conditions = []\<rparr>"

lemma open_doc_parses: "parse_policy_value open_doc = Inr [open_statement]"
  by code_simp

lemma open_doc_facts:
  "normalize_action (lit ''GetObject'') = lit ''s3:getobject''" "normalize_action (lit ''s3:getobject'') = lit ''s3:getobject''"
  "wildcard_match (lit ''s3:getobject'') (lit ''s3:getobject'')" "str_trim (lit ''*'') = lit ''*''"
  "\<not> sublist username_var (lit ''*'')" "strip_suf [0x2A] (lit ''*'') = Some []"
  by code_simp+

theorem principal_less_policy_is_public:
  "\<exists>p. parse_policy_value open_doc = Inr p \<and> \<not> grants_anonymous_public_access p \<and>
     (\<forall>resource ctx. decide p (lit ''GetObject'') resource False ctx = Allow)"
proof (intro exI conjI allI)
  show "parse_policy_value open_doc = Inr [open_statement]" by (rule open_doc_parses)
  show "\<not> grants_anonymous_public_access [open_statement]" by (simp add: grants_anonymous_public_access_def open_statement_def)
  fix resource ctx
  show "decide [open_statement] (lit ''GetObject'') resource False ctx = Allow"
    by (simp add: decide_def open_statement_def statement_applies_def open_doc_facts expand_username_var_def)
      (simp add: wildcard_match_def open_doc_facts)
qed

section \<open>Networks and dates\<close>

lemma parse_net_length:
  assumes "parse_net s = Inr n"
  shows "case net_addr n of V4 _ \<Rightarrow> net_prefix_len n \<le> 32 | V6 _ \<Rightarrow> net_prefix_len n \<le> 128"
proof -
  obtain addr_s plen where a: "(case parse_ip addr_s of
       None \<Rightarrow> Inl PeIp
     | Some addr \<Rightarrow>
         (case (plen, addr) of
            (Some p, V4 _) \<Rightarrow> if p \<le> 32 then Inr \<lparr>net_addr = addr, net_prefix_len = p\<rparr> else Inl PeCidrRange
          | (Some p, V6 _) \<Rightarrow> if p \<le> 128 then Inr \<lparr>net_addr = addr, net_prefix_len = p\<rparr> else Inl PeCidrRange
          | (None, V4 _) \<Rightarrow> Inr \<lparr>net_addr = addr, net_prefix_len = 32\<rparr>
          | (None, V6 _) \<Rightarrow> Inr \<lparr>net_addr = addr, net_prefix_len = 128\<rparr>)) = Inr n"
    using assms by (auto simp: parse_net_def bind_res_eq_Inr)
  then obtain addr where "parse_ip addr_s = Some addr" by (cases "parse_ip addr_s") auto
  with a show ?thesis by (cases addr; cases plen) (auto split: if_splits)
qed

lemma cidr_exact:
  assumes "parse_net s = Inr n" "net_addr n = V4 net"
  shows "net_contains n (V4 a) \<longleftrightarrow> drop_bit (32 - unat (net_prefix_len n)) net = drop_bit (32 - unat (net_prefix_len n)) a"
  using parse_net_length [OF assms(1)] assms(2) by (intro net_contains_V4) simp_all

definition leap :: "int \<Rightarrow> bool" where
  "leap y \<longleftrightarrow> 4 dvd y \<and> (\<not> 100 dvd y \<or> 400 dvd y)"

definition month_days :: "int \<Rightarrow> int \<Rightarrow> int" where
  "month_days y mo = (if mo = 2 then if leap y then 29 else 28 else if mo \<in> {4, 6, 9, 11} then 30 else 31)"

text \<open>Days before the first of March of a year, in closed form.\<close>

definition year_start :: "int \<Rightarrow> int" where
  "year_start y = 365 * y + y div 4 - y div 100 + y div 400"

lemma era_days:
  fixes y :: int
  shows "y div 400 * 146097 + (y mod 400 * 365 + quot_i64 (y mod 400) 4 - quot_i64 (y mod 400) 100) = year_start y"
proof -
  define q r where "q = y div 400" and "r = y mod 400"
  have y: "y = 400 * q + r" "0 \<le> r" "r < 400" by (simp_all add: q_def r_def)
  have "y = r + (100 * q) * 4" "y = r + (4 * q) * 100" using y(1) by simp_all
  then have "y div 4 = 100 * q + r div 4" "y div 100 = 4 * q + r div 100" by (metis add.commute div_mult_self1 zero_neq_numeral)+
  moreover have "quot_i64 r 4 = r div 4" "quot_i64 r 100 = r div 100" using y(2) by (simp_all add: quot_i64_nonneg)
  ultimately show ?thesis unfolding year_start_def q_def [symmetric] r_def [symmetric] using y(1) by linarith
qed

lemma div_step:
  fixes y :: int
  assumes "0 < n"
  shows "y div n - (y - 1) div n = (if n dvd y then 1 else 0)"
proof -
  have y: "y = n * (y div n) + y mod n" "0 \<le> y mod n" "y mod n < n" using assms by simp_all
  show ?thesis
  proof (cases "n dvd y")
    case True
    then have "y - 1 = n * (y div n - 1) + (n - 1)" by (simp add: algebra_simps)
    then have "(y - 1) div n = y div n - 1" using assms by (intro int_div_pos_eq [of _ _ _ "n - 1"]) simp_all
    with True show ?thesis by simp
  next
    case False
    then have "y mod n \<noteq> 0" by (simp add: dvd_eq_mod_eq_0)
    then have "(y - 1) div n = y div n" using y by (intro int_div_pos_eq [of _ _ _ "y mod n - 1"]) simp_all
    with False show ?thesis by simp
  qed
qed

lemma leap_rule:
  assumes "C \<Longrightarrow> B" "B \<Longrightarrow> A"
  shows "365 + (if A then 1 else 0) - (if B then 1 else 0) + (if C then 1 else 0) = (if A \<and> (\<not> B \<or> C) then 366 else (365 :: int))"
  using assms by (cases A; cases B; cases C) simp_all

lemma year_start_Suc: "year_start y = year_start (y - 1) + (if leap y then 366 else 365)"
proof -
  have d: "400 dvd y \<Longrightarrow> 100 dvd y" "100 dvd y \<Longrightarrow> 4 dvd y"
    using dvd_trans [of 100 400 y] dvd_trans [of 4 100 y] by simp_all
  have "year_start y - year_start (y - 1) =
      365 + (y div 4 - (y - 1) div 4) - (y div 100 - (y - 1) div 100) + (y div 400 - (y - 1) div 400)"
    unfolding year_start_def right_diff_distrib by linarith
  also have "\<dots> = 365 + (if 4 dvd y then 1 else 0) - (if 100 dvd y then 1 else 0) + (if 400 dvd y then 1 else 0)"
    by (simp only: div_step zero_less_numeral)
  also have "\<dots> = (if leap y then 366 else 365)" unfolding leap_def by (rule leap_rule [OF d])
  finally show ?thesis by simp
qed

lemma civil_days_alt:
  assumes "1 \<le> mo" "mo \<le> 12"
  shows "civil_days y mo d = year_start (if mo \<le> 2 then y - 1 else y) +
    (153 * (if 2 < mo then mo - 3 else mo + 9) + 2) div 5 + d - 1 - 719468"
proof -
  have "quot_i64 (153 * (if 2 < mo then mo - 3 else mo + 9) + 2) 5 = (153 * (if 2 < mo then mo - 3 else mo + 9) + 2) div 5"
    using assms by (intro quot_i64_nonneg) auto
  then show ?thesis using era_days [of "if mo \<le> 2 then y - 1 else y"] by (simp add: civil_days_def Let_def)
qed

text \<open>
  Dates in policy conditions are converted by the Gregorian calendar: the first of January 1970 is
  day zero, and each month of each year has its number of days, leap years included.
\<close>

theorem policy_dates_gregorian:
  assumes "1 \<le> mo" "mo \<le> 12"
  shows "civil_days 1970 1 1 = 0 \<and> civil_days y mo d = civil_days y mo 1 + (d - 1) \<and>
    (if mo = 12 then civil_days (y + 1) 1 1 else civil_days y (mo + 1) 1) = civil_days y mo 1 + month_days y mo"
proof (intro conjI)
  show "civil_days 1970 1 1 = 0" by (simp add: civil_days_alt year_start_def)
  show "civil_days y mo d = civil_days y mo 1 + (d - 1)" using civil_days_alt [OF assms] by simp
  have "mo = 1 \<or> mo = 2 \<or> mo = 3 \<or> mo = 4 \<or> mo = 5 \<or> mo = 6 \<or> mo = 7 \<or> mo = 8 \<or> mo = 9 \<or> mo = 10 \<or> mo = 11 \<or> mo = 12"
    using assms by presburger
  then show "(if mo = 12 then civil_days (y + 1) 1 1 else civil_days y (mo + 1) 1) = civil_days y mo 1 + month_days y mo"
    using year_start_Suc [of y] by (elim disjE) (simp_all add: civil_days_alt month_days_def)
qed

theorem policy_dates_gregorian_witness:
  "civil_days 1970 1 1 = 0 \<and> civil_days 2024 2 29 = civil_days 2024 2 1 + (29 - 1) \<and>
    (if (2 :: int) = 12 then civil_days (2024 + 1) 1 1 else civil_days 2024 (2 + 1) 1) = civil_days 2024 2 1 + month_days 2024 2"
  by (rule policy_dates_gregorian) simp_all

definition shared_doc :: json where
  "shared_doc = JObject [(lit ''Statement'', JArray [JObject [(lit ''Effect'', JString (lit ''Allow'')),
     (lit ''Principal'', JString (lit ''*'')), (lit ''Action'', JString (lit ''s3:GetObject'')),
     (lit ''Resource'', JString (lit ''*''))]])]"

theorem public_policy_detected_witness:
  "\<exists>p. parse_policy_value shared_doc = Inr p \<and> grants_anonymous_public_access p"
proof -
  have p: "parse_policy_value shared_doc = Inr [open_statement\<lparr>st_principal := Some PrAny\<rparr>]" by code_simp
  have "decide [open_statement\<lparr>st_principal := Some PrAny\<rparr>] (lit ''GetObject'') (lit ''*'') False default_ctx = Allow"
    "normalize_action (lit ''GetObject'') \<in> set public_targets" "ec_caller default_ctx = None" by code_simp+
  with public_policy_detected [OF p, of default_ctx "lit ''GetObject''" "lit ''*''"] p show ?thesis by simp
qed

end
