(* ===== verification/Authz.thy ===== *)
theory Authz
  imports Policy_Parse Version_Writes Object_Lock
begin

text \<open>
  Authorization of requests (\<^verbatim>\<open>fs3-s3/src/service.rs\<close>, \<^verbatim>\<open>fs3-s3/src/iam.rs\<close>): the layers of
  \<^verbatim>\<open>authorize\<close> (key policy, embedded policy, session policies, identity policies of the owner, bucket policy,
  tenant boundary), the anonymous path, the administrative check and the cache of bucket policies. The
  in-memory tables of the service are maps of the state; \<open>from_str\<close> stands for the JSON text parser.
\<close>

section \<open>State\<close>

datatype az_error = AzAccessDenied | AzNoSuchBucket | AzMalformedPolicy | AzNoSuchBucketPolicy | AzEngine fs3_error

record iam_user_state =
  us_enabled :: bool
  us_policies :: "bytes list"
  us_groups :: "bytes list"

record service =
  sv_policies :: "bytes \<rightharpoonup> policy option"
  sv_embedded_policies :: "bytes \<rightharpoonup> policy option"
  sv_key_owners :: "bytes \<rightharpoonup> bytes \<times> bytes"
  sv_iam_users :: "bytes \<times> bytes \<rightharpoonup> iam_user_state"
  sv_iam_groups :: "bytes \<times> bytes \<rightharpoonup> bytes list"
  sv_iam_policies :: "bytes \<times> bytes \<rightharpoonup> policy"
  sv_tenants :: "bytes \<rightharpoonup> bytes"
  sv_bucket_policies :: "bytes \<rightharpoonup> policy option"
  sv_db :: db
  sv_lock_now :: int
  sv_allow_anonymous :: bool
  sv_last_peer :: bytes

record session_view =
  se_session_policy :: "bytes option"
  se_inline_policy :: "bytes option"

record auth_identity =
  ai_who :: bytes
  ai_session :: "session_view option"

record s3_request =
  rq_method :: bytes
  rq_query :: "(bytes \<times> bytes) list"
  rq_headers :: headers

section \<open>Canned policies\<close>

definition canned_doc :: "string \<Rightarrow> string list \<Rightarrow> json" where
  "canned_doc sid actions =
     JObject [(lit ''Statement'', JArray [JObject [(lit ''Action'', JArray (map (\<lambda>a. JString (lit a)) actions)),
       (lit ''Effect'', JString (lit ''Allow'')), (lit ''Resource'', JArray [JString (lit ''*'')]), (lit ''Sid'', JString (lit sid))]]),
       (lit ''Version'', JString (lit ''2012-10-17''))]"

definition canned_table :: "(bytes \<times> json) list" where
  "canned_table =
     [(lit ''readonly'', canned_doc ''FastS3ReadOnly'' [''s3:Get*'', ''s3:List*'', ''s3:Head*'']),
      (lit ''readwrite'', canned_doc ''FastS3ReadWrite'' [''s3:*'']),
      (lit ''writeonly'', canned_doc ''FastS3WriteOnly''
         [''s3:Put*'', ''s3:Delete*'', ''s3:CreateBucket'', ''s3:Abort*'', ''s3:Restore*'', ''s3:Multipart'']),
      (lit ''diagnostics'', canned_doc ''FastS3Diagnostics''
         [''admin:List*'', ''admin:Get*'', ''s3:Get*'', ''s3:List*'', ''s3:Head*'']),
      (lit ''consoleAdmin'', canned_doc ''FastS3ConsoleAdmin'' [''admin:*'', ''s3:*'']),
      (lit ''tenantAdmin'', canned_doc ''FastS3TenantAdmin''
         [''admin:CreateUser'', ''admin:ListUsers'', ''admin:GetUser'', ''admin:UpdateUser'', ''admin:DeleteUser'',
          ''admin:CreateGroup'', ''admin:ListGroups'', ''admin:GetGroup'', ''admin:UpdateGroup'', ''admin:DeleteGroup'',
          ''admin:CreatePolicy'', ''admin:ListPolicies'', ''admin:GetPolicy'', ''admin:DeletePolicy'', ''admin:AttachPolicy'',
          ''admin:CreateServiceAccount'', ''admin:ListServiceAccounts'', ''admin:DeleteServiceAccount'',
          ''admin:UpdateServiceAccount'', ''admin:CreateRole'', ''admin:ListRoles'', ''admin:GetRole'', ''admin:DeleteRole'',
          ''admin:CreateBucket'', ''admin:UpdateBucket'', ''admin:DeleteBucket'', ''s3:*''])]"

definition canned_policy :: "bytes \<Rightarrow> json option" where
  "canned_policy name = map_of canned_table name"

definition is_canned :: "bytes \<Rightarrow> bool" where
  "is_canned name \<longleftrightarrow> canned_policy name \<noteq> None"

definition canned_parsed :: "bytes \<Rightarrow> policy option" where
  "canned_parsed name =
     (case canned_policy name of
        Some v \<Rightarrow> (case parse_policy_value v of Inr p \<Rightarrow> Some p | Inl _ \<Rightarrow> None) | None \<Rightarrow> None)"

definition TENANT_ACTIONS :: "bytes list" where
  "TENANT_ACTIONS = [lit ''admin:createtenant'', lit ''admin:listtenants'', lit ''admin:gettenant'',
     lit ''admin:updatetenant'', lit ''admin:deletetenant'']"

definition CANNED_CONSOLE_ADMIN :: bytes where
  "CANNED_CONSOLE_ADMIN = lit ''consoleAdmin''"

definition can_grant_policy :: "bool \<Rightarrow> bytes \<Rightarrow> bool" where
  "can_grant_policy granter_is_root target \<longleftrightarrow> granter_is_root \<or> target \<noteq> CANNED_CONSOLE_ADMIN"

section \<open>Identity layer\<close>

definition caller_identity_of :: "service \<Rightarrow> bytes \<Rightarrow> caller_identity" where
  "caller_identity_of s ak =
     (let (tenant, user) = (case sv_key_owners s ak of Some o' \<Rightarrow> o' | None \<Rightarrow> (lit ''default'', lit ''bootstrap''));
          canonical = (case sv_tenants s tenant of Some c \<Rightarrow> c | None \<Rightarrow> lit ''fasts3'')
      in \<lparr>ci_tenant_canonical_id = canonical, ci_user = user, ci_access_key = ak\<rparr>)"

text \<open>Directly attached policies, then those of the groups, without repetition and in order.\<close>

definition add_name :: "bytes \<Rightarrow> bytes list \<Rightarrow> bytes list" where
  "add_name p names = (if p \<in> set names then names else names @ [p])"

definition attached_names :: "service \<Rightarrow> bytes \<Rightarrow> iam_user_state \<Rightarrow> bytes list" where
  "attached_names s tenant u =
     fold (\<lambda>g names. case sv_iam_groups s (tenant, g) of Some pols \<Rightarrow> fold add_name pols names | None \<Rightarrow> names)
       (us_groups u) (us_policies u)"

definition named_policy :: "service \<Rightarrow> bytes \<Rightarrow> bytes \<Rightarrow> policy option" where
  "named_policy s tenant name =
     (if is_canned name then canned_parsed name else sv_iam_policies s (tenant, name))"

fun identity_loop :: "service \<Rightarrow> bytes \<Rightarrow> bytes \<Rightarrow> bytes \<Rightarrow> eval_ctx \<Rightarrow> bytes list \<Rightarrow> bool \<Rightarrow> decision" where
  "identity_loop s tenant action resource ctx [] allowed = (if allowed then Allow else NoMatch)"
| "identity_loop s tenant action resource ctx (name # names) allowed =
     (case map_option (\<lambda>p. decide p action resource True ctx) (named_policy s tenant name) of
        Some Deny \<Rightarrow> Deny
      | Some Allow \<Rightarrow> identity_loop s tenant action resource ctx names True
      | Some NoMatch \<Rightarrow> identity_loop s tenant action resource ctx names allowed
      | None \<Rightarrow> Deny)"

definition iam_identity_decision :: "service \<Rightarrow> bytes \<Rightarrow> bytes \<Rightarrow> bytes \<Rightarrow> eval_ctx \<Rightarrow> decision option" where
  "iam_identity_decision s ak action resource ctx =
     (case sv_key_owners s ak of
        None \<Rightarrow> None
      | Some (tenant, user) \<Rightarrow>
          (case sv_iam_users s (tenant, user) of
             None \<Rightarrow> None
           | Some u \<Rightarrow>
               if us_policies u = [] \<and> us_groups u = [] then None
               else Some (identity_loop s tenant action resource ctx (attached_names s tenant u) False)))"

fun admin_loop :: "service \<Rightarrow> bytes \<Rightarrow> bytes \<Rightarrow> bytes list \<Rightarrow> bool" where
  "admin_loop s tenant action [] = False"
| "admin_loop s tenant action (name # names) =
     (case map_option (\<lambda>p. decide p action (lit ''*'') True default_ctx) (named_policy s tenant name) of
        Some Deny \<Rightarrow> False
      | None \<Rightarrow> False
      | Some Allow \<Rightarrow> True
      | Some NoMatch \<Rightarrow> admin_loop s tenant action names)"

definition check_admin_action :: "service \<Rightarrow> bytes \<Rightarrow> bytes \<Rightarrow> bytes \<Rightarrow> bytes option \<Rightarrow> bool" where
  "check_admin_action s tenant user action target_tenant =
     (case sv_iam_users s (tenant, user) of
        None \<Rightarrow> False
      | Some u \<Rightarrow>
          if \<not> us_enabled u then False
          else
            (let names = attached_names s tenant u;
                 console_admin = CANNED_CONSOLE_ADMIN \<in> set names;
                 norm = ascii_lowercase (str_trim action)
             in if \<not> console_admin \<and> norm \<in> set TENANT_ACTIONS then False
                else if \<not> console_admin \<and> (case target_tenant of Some t \<Rightarrow> t \<noteq> tenant | None \<Rightarrow> False) then False
                else admin_loop s tenant norm names))"

section \<open>Bucket policies and their cache\<close>

definition stored_policy :: "(bytes \<Rightarrow> json option) \<Rightarrow> db \<Rightarrow> bytes \<Rightarrow> policy option" where
  "stored_policy from_str db b =
     (case kv_get db (conf_key PolicyDoc b) of
        Some (VRaw t) \<Rightarrow>
          if utf8_valid t then (case parse_policy from_str t of Inr p \<Rightarrow> Some p | Inl _ \<Rightarrow> None) else None
      | _ \<Rightarrow> None)"

definition cache_policy :: "bytes \<Rightarrow> policy option \<Rightarrow> service \<Rightarrow> service" where
  "cache_policy b p s = s\<lparr>sv_bucket_policies := (sv_bucket_policies s)(b \<mapsto> p)\<rparr>"

definition bucket_policy :: "(bytes \<Rightarrow> json option) \<Rightarrow> service \<Rightarrow> bytes \<Rightarrow> policy option \<times> service" where
  "bucket_policy from_str s b =
     (case sv_bucket_policies s b of
        Some hit \<Rightarrow> (hit, s)
      | None \<Rightarrow> (let parsed = stored_policy from_str (sv_db s) b in (parsed, cache_policy b parsed s)))"

record public_access_block =
  pab_block_public_acls :: bool
  pab_ignore_public_acls :: bool
  pab_block_public_policy :: bool
  pab_restrict_public_buckets :: bool

definition pab_default :: public_access_block where
  "pab_default = \<lparr>pab_block_public_acls = True, pab_ignore_public_acls = True, pab_block_public_policy = True,
     pab_restrict_public_buckets = True\<rparr>"

text \<open>The XML document of a public access block is parsed by \<open>parse_pab\<close>.\<close>

definition bpa_of :: "(bytes \<Rightarrow> public_access_block option) \<Rightarrow> db \<Rightarrow> bytes \<Rightarrow> public_access_block option" where
  "bpa_of parse_pab db b =
     (case get_bucket db b of
        Inr (Some _) \<Rightarrow>
          (case kv_get db (conf_key PublicAccessBlock b) of
             Some (VRaw doc) \<Rightarrow> Some (case parse_pab doc of Some p \<Rightarrow> p | None \<Rightarrow> pab_default)
           | _ \<Rightarrow> Some pab_default)
      | _ \<Rightarrow> None)"

definition az_of_engine :: "fs3_error \<Rightarrow> az_error" where
  "az_of_engine e = (if e = NotFound then AzNoSuchBucket else AzEngine e)"

definition put_bucket_policy ::
  "(bytes \<Rightarrow> json option) \<Rightarrow> (bytes \<Rightarrow> public_access_block option) \<Rightarrow> write_env \<Rightarrow> bytes \<Rightarrow> bytes \<Rightarrow> service \<Rightarrow> service \<times> (az_error + unit)" where
  "put_bucket_policy from_str parse_pab e b body s =
     (if \<not> utf8_valid body then (s, Inl AzMalformedPolicy)
      else case parse_policy from_str body of
          Inl _ \<Rightarrow> (s, Inl AzMalformedPolicy)
        | Inr p \<Rightarrow>
            if grants_anonymous_public_access p \<and>
               (case bpa_of parse_pab (sv_db s) b of Some a \<Rightarrow> pab_block_public_policy a | None \<Rightarrow> False)
            then (s, Inl AzAccessDenied)
            else (case env_commit e [BucketConfPut b PolicyDoc body] (sv_db s) of
                (db', Inl err) \<Rightarrow> (s\<lparr>sv_db := db'\<rparr>, Inl (az_of_engine err))
              | (db', Inr _) \<Rightarrow> (cache_policy b (Some p) (s\<lparr>sv_db := db'\<rparr>), Inr ())))"

definition delete_bucket_policy :: "write_env \<Rightarrow> bytes \<Rightarrow> service \<Rightarrow> service \<times> (az_error + unit)" where
  "delete_bucket_policy e b s =
     (case get_bucket (sv_db s) b of
        Inl err \<Rightarrow> (s, Inl (AzEngine err))
      | Inr None \<Rightarrow> (s, Inl AzNoSuchBucket)
      | Inr (Some _) \<Rightarrow>
          if kv_get (sv_db s) (conf_key PolicyDoc b) = None then (s, Inl AzNoSuchBucketPolicy)
          else (case env_commit e [BucketConfDelete b PolicyDoc] (sv_db s) of
              (db', Inl err) \<Rightarrow> (s\<lparr>sv_db := db'\<rparr>, Inl (az_of_engine err))
            | (db', Inr _) \<Rightarrow> (cache_policy b None (s\<lparr>sv_db := db'\<rparr>), Inr ())))"

section \<open>Authorization\<close>

definition resource_arn :: "bytes \<Rightarrow> bytes \<Rightarrow> bytes" where
  "resource_arn b k =
     (if b = [] then lit ''*'' else if k = [] then lit ''arn:aws:s3:::'' @ b else lit ''arn:aws:s3:::'' @ b @ lit ''/'' @ k)"

definition s3_action_name :: "bytes \<Rightarrow> bytes \<Rightarrow> bytes \<Rightarrow> bytes" where
  "s3_action_name name b k =
     (if name = lit ''GetObject'' \<and> k = [] \<and> b \<noteq> [] then lit ''ListBucket''
      else if name = lit ''HeadBucket'' then lit ''ListBucket''
      else if name = lit ''ListBuckets'' then lit ''ListAllMyBuckets''
      else if name = lit ''PostObject'' then lit ''PutObject'' else name)"

definition query_param :: "s3_request \<Rightarrow> bytes \<Rightarrow> bytes option" where
  "query_param req name = map_option snd (find (\<lambda>(k, _). eq_ignore_case k name) (rq_query req))"

text \<open>
  The HTTP layer calls \<open>set_peer\<close> once for every accepted connection; a request does not carry the address
  of its connection.
\<close>

definition set_peer :: "bytes \<Rightarrow> service \<Rightarrow> service" where
  "set_peer peer s = s\<lparr>sv_last_peer := peer\<rparr>"

definition policy_ctx :: "service \<Rightarrow> s3_request \<Rightarrow> bytes \<Rightarrow> bytes \<Rightarrow> eval_ctx" where
  "policy_ctx s req b k =
     \<lparr>ec_source_ip = parse_socket_ip (sv_last_peer s), ec_prefix = query_param req (lit ''prefix''), ec_delimiter = query_param req (lit ''delimiter''),
      ec_bypass_governance = bypass_governance (rq_headers req),
      ec_remaining_retention_days =
        (if k = [] then None
         else case resolve_object (sv_db s) b k None None of
             Inl _ \<Rightarrow> None
           | Inr m \<Rightarrow> map_option (\<lambda>r. remaining_retention_days (retain_until r) (sv_lock_now s)) (om_retention m)),
      ec_caller = None, ec_now = Some (sv_lock_now s)\<rparr>"

definition scope_allows :: "policy option option \<Rightarrow> bytes \<Rightarrow> bytes \<Rightarrow> eval_ctx \<Rightarrow> bool" where
  "scope_allows entry action resource ctx =
     (case entry of Some (Some p) \<Rightarrow> decide p action resource True ctx = Allow | _ \<Rightarrow> True)"

definition session_allows :: "(bytes \<Rightarrow> json option) \<Rightarrow> auth_identity \<Rightarrow> bytes \<Rightarrow> bytes \<Rightarrow> eval_ctx \<Rightarrow> bool" where
  "session_allows from_str a action resource ctx =
     (case ai_session a of
        None \<Rightarrow> True
      | Some sess \<Rightarrow>
          list_all (\<lambda>sp. case sp of
              None \<Rightarrow> True
            | Some t \<Rightarrow> (case parse_policy from_str t of Inr p \<Rightarrow> decide p action resource True ctx = Allow | Inl _ \<Rightarrow> False))
            [se_session_policy sess, se_inline_policy sess])"

definition cross_tenant :: "service \<Rightarrow> caller_identity \<Rightarrow> bytes \<Rightarrow> bool" where
  "cross_tenant s c b =
     (case get_bucket (sv_db s) b of Inr (Some m) \<Rightarrow> bk_owner m \<noteq> ci_tenant_canonical_id c | _ \<Rightarrow> False)"

definition authorize ::
  "(bytes \<Rightarrow> json option) \<Rightarrow> service \<Rightarrow> auth_identity option \<Rightarrow> bytes \<Rightarrow> bytes \<Rightarrow> bytes \<Rightarrow> s3_request \<Rightarrow> (az_error + unit) \<times> service" where
  "authorize from_str s auth name b k req =
     (let resource = resource_arn b k;
          action = s3_action_name name b k;
          access = map_option ai_who auth;
          caller = map_option (caller_identity_of s) access;
          ctx = (policy_ctx s req b k)\<lparr>ec_caller := caller\<rparr>;
          key_policy = (case access of Some ak \<Rightarrow> (case sv_policies s ak of Some p \<Rightarrow> p | None \<Rightarrow> None) | None \<Rightarrow> None);
          key_decision = (case key_policy of Some p \<Rightarrow> decide p action resource True ctx | None \<Rightarrow> NoMatch)
      in if key_decision = Deny then (Inl AzAccessDenied, s)
         else if \<not> (case access of Some ak \<Rightarrow> scope_allows (sv_embedded_policies s ak) action resource ctx | None \<Rightarrow> True)
         then (Inl AzAccessDenied, s)
         else if \<not> (case auth of Some a \<Rightarrow> session_allows from_str a action resource ctx | None \<Rightarrow> True)
         then (Inl AzAccessDenied, s)
         else
           (let iam_decision = (case access of Some ak \<Rightarrow> iam_identity_decision s ak action resource ctx | None \<Rightarrow> None)
            in if iam_decision = Some Deny then (Inl AzAccessDenied, s)
               else
                 (let (bp, s') = (if b = [] then (None, s) else bucket_policy from_str s b);
                      bucket_decision = (case bp of Some p \<Rightarrow> decide p action resource (access \<noteq> None) ctx | None \<Rightarrow> NoMatch)
                  in if bucket_decision = Deny then (Inl AzAccessDenied, s')
                     else if (case caller of
                         Some c \<Rightarrow> b \<noteq> [] \<and> bucket_decision \<noteq> Allow \<and> sv_key_owners s' (ci_access_key c) \<noteq> None \<and> cross_tenant s' c b
                       | None \<Rightarrow> False) then (Inl AzAccessDenied, s')
                     else (case access of
                         None \<Rightarrow> (Inr (), s')
                       | Some _ \<Rightarrow>
                           (let union_ok = (key_policy = None \<or> key_decision = Allow \<or> bucket_decision = Allow)
                            in case iam_decision of
                                 None \<Rightarrow> (if union_ok then Inr () else Inl AzAccessDenied, s')
                               | Some Allow \<Rightarrow> (if union_ok then Inr () else Inl AzAccessDenied, s')
                               | Some _ \<Rightarrow> (Inl AzAccessDenied, s'))))))"

definition authorize_bypass_if_requested ::
  "(bytes \<Rightarrow> json option) \<Rightarrow> service \<Rightarrow> auth_identity option \<Rightarrow> bytes \<Rightarrow> bytes \<Rightarrow> bytes \<Rightarrow> s3_request \<Rightarrow> (az_error + unit) \<times> service" where
  "authorize_bypass_if_requested from_str s auth name b k req =
     (if \<not> bypass_governance (rq_headers req) then (Inr (), s)
      else if name \<noteq> lit ''PutObjectRetention'' \<and> name \<noteq> lit ''DeleteObject'' then (Inr (), s)
      else authorize from_str s auth (lit ''BypassGovernanceRetention'') b k req)"

definition anonymous_bucket_grant ::
  "(bytes \<Rightarrow> json option) \<Rightarrow> (bytes \<Rightarrow> public_access_block option) \<Rightarrow> service \<Rightarrow> bytes \<Rightarrow> bytes \<Rightarrow> bytes \<Rightarrow> eval_ctx \<Rightarrow> bool \<times> service" where
  "anonymous_bucket_grant from_str parse_pab s action b k ctx =
     (if b = [] then (False, s)
      else if (case bpa_of parse_pab (sv_db s) b of Some a \<Rightarrow> pab_restrict_public_buckets a | None \<Rightarrow> False) then (False, s)
      else (case bucket_policy from_str s b of
          (None, s') \<Rightarrow> (False, s')
        | (Some p, s') \<Rightarrow> (decide p action (resource_arn b k) False ctx = Allow, s')))"

text \<open>The part of \<^verbatim>\<open>require_auth\<close> after authentication, with the route as its arguments.\<close>

definition require_auth ::
  "(bytes \<Rightarrow> json option) \<Rightarrow> (bytes \<Rightarrow> public_access_block option) \<Rightarrow> service \<Rightarrow> bytes option \<Rightarrow> s3_request \<Rightarrow>
    bytes \<Rightarrow> bytes \<Rightarrow> bytes \<Rightarrow> (az_error + bytes option) \<times> service" where
  "require_auth from_str parse_pab s access req name b k =
     (case access of
        Some ak \<Rightarrow> (Inr (Some ak), s)
      | None \<Rightarrow>
          (case (if b = [] then (False, s)
                 else anonymous_bucket_grant from_str parse_pab s (s3_action_name name b k) b k (policy_ctx s req b k)) of
             (True, s') \<Rightarrow> (Inr None, s')
           | (False, s') \<Rightarrow>
               if rq_method req \<noteq> lit ''GET'' \<and> rq_method req \<noteq> lit ''HEAD''
               then (Inl (if rq_method req = lit ''DELETE'' \<and> b \<noteq> [] \<and> get_bucket (sv_db s') b = Inr None
                          then AzNoSuchBucket else AzAccessDenied), s')
               else if \<not> sv_allow_anonymous s' then (Inl AzAccessDenied, s')
               else if b \<noteq> [] \<and> (case bpa_of parse_pab (sv_db s') b of Some a \<Rightarrow> pab_restrict_public_buckets a | None \<Rightarrow> False)
               then (Inl AzAccessDenied, s')
               else (Inr None, s')))"


section \<open>The cache holds the stored policy\<close>

definition cache_ok :: "(bytes \<Rightarrow> json option) \<Rightarrow> service \<Rightarrow> bool" where
  "cache_ok from_str s \<longleftrightarrow> kv_wf (sv_db s) \<and>
     (\<forall>b p. sv_bucket_policies s b = Some p \<longrightarrow> p = stored_policy from_str (sv_db s) b)"

lemma bucket_policy_stored:
  assumes "cache_ok from_str s"
  shows "fst (bucket_policy from_str s b) = stored_policy from_str (sv_db s) b \<and> cache_ok from_str (snd (bucket_policy from_str s b)) \<and>
    sv_db (snd (bucket_policy from_str s b)) = sv_db s \<and> sv_key_owners (snd (bucket_policy from_str s b)) = sv_key_owners s"
  using assms by (auto simp: bucket_policy_def cache_ok_def cache_policy_def Let_def split: option.split)

lemma policy_key_inject: "conf_key PolicyDoc b = conf_key PolicyDoc b' \<longleftrightarrow> b = b'"
  by (simp add: bucket_conf_key_def)

lemma policy_family:
  assumes "prefix PREFIX_BUCKET_POLICY q"
  shows "\<not> prefix PREFIX_BINLOG q" "q \<noteq> SYS_SEQ"
  using assms family_excl [of PREFIX_BUCKET_POLICY _ q] by (auto simp: all_prefixes_def prefix_defs lit_def)

lemma conf_commit:
  assumes "env_commit e [p] db = (db', Inr sq)" "kv_wf db" "\<not> is_event_enqueue p"
    "\<And>mode n d. apply_op mode n p db = Inr d \<Longrightarrow> d = (case r of Some v \<Rightarrow> kv_put key v db | None \<Rightarrow> kv_del key db)"
  shows "kv_wf db' \<and> (\<forall>q. prefix PREFIX_BUCKET_POLICY q \<longrightarrow> kv_get db' q = (if q = key then r else kv_get db q))"
proof -
  let ?mode = "Commit (e_binlog e) (e_now_ts e)"
  obtain d1 d2 n m where d: "apply_op ?mode n p db = Inr d1" "write_binlog ?mode n [p] d1 = Inr d2" "db' = put_u64 SYS_SEQ m d2"
    using assms(1,3) by (auto simp: env_commit_def commit_def apply_ops_def bind_res_eq_Inr Let_def split: sum.splits prod.splits)
  have w1: "kv_wf d1" using op_wf [OF d(1) assms(2)] .
  have w2: "kv_wf d2" "\<And>k. \<not> prefix PREFIX_BINLOG k \<Longrightarrow> kv_get d2 k = kv_get d1 k" using binlog_wf_frame [OF d(2) w1] by blast+
  have "kv_get d1 q = (if q = key then r else kv_get db q)" for q
    using assms(4) [OF d(1)] assms(2) by (auto simp: store.get_put store.get_del split: option.split)
  then show ?thesis using w2 policy_family by (simp add: d(3) put_u64_def store.wf_put store.get_put)
qed

lemma failed_commit: "env_commit e ops db = (db', Inl err) \<Longrightarrow> db' = db"
  by (auto simp: env_commit_def commit_def split: sum.splits prod.splits)

lemma stored_policy_update:
  assumes "\<forall>q. prefix PREFIX_BUCKET_POLICY q \<longrightarrow> kv_get db' q = (if q = conf_key PolicyDoc b then r else kv_get db q)"
  shows "stored_policy from_str db' b' =
    (if b' = b then (case r of Some (VRaw t) \<Rightarrow> if utf8_valid t then (case parse_policy from_str t of Inr p \<Rightarrow> Some p | Inl _ \<Rightarrow> None) else None | _ \<Rightarrow> None)
     else stored_policy from_str db b')"
proof -
  have "prefix PREFIX_BUCKET_POLICY (conf_key PolicyDoc b')" by (simp add: bucket_conf_key_def)
  then have "kv_get db' (conf_key PolicyDoc b') = (if b' = b then r else kv_get db (conf_key PolicyDoc b'))"
    using assms policy_key_inject by metis
  then show ?thesis by (simp add: stored_policy_def)
qed

lemma cache_ok_write:
  assumes "cache_ok from_str s" "kv_wf db'" "\<And>b'. b' \<noteq> b \<Longrightarrow> stored_policy from_str db' b' = stored_policy from_str (sv_db s) b'"
    "stored_policy from_str db' b = p"
  shows "cache_ok from_str (cache_policy b p (s\<lparr>sv_db := db'\<rparr>))"
  using assms by (auto simp: cache_ok_def cache_policy_def)

lemma put_policy_effect:
  assumes "cache_ok from_str s" "put_bucket_policy from_str parse_pab e b body s = (s', r)"
  shows "cache_ok from_str s' \<and> (r = Inr () \<longrightarrow> stored_policy from_str (sv_db s') =
    (stored_policy from_str (sv_db s))(b := case parse_policy from_str body of Inr p \<Rightarrow> Some p | Inl _ \<Rightarrow> None))"
proof (cases "r = Inr ()")
  case True
  then obtain p db' sq where a: "utf8_valid body" "parse_policy from_str body = Inr p"
    "env_commit e [BucketConfPut b PolicyDoc body] (sv_db s) = (db', Inr sq)" "s' = cache_policy b (Some p) (s\<lparr>sv_db := db'\<rparr>)"
    using assms(2) by (auto simp: put_bucket_policy_def split: if_splits sum.splits prod.splits)
  have wf: "kv_wf (sv_db s)" using assms(1) by (simp add: cache_ok_def)
  have u: "kv_wf db' \<and> (\<forall>q. prefix PREFIX_BUCKET_POLICY q \<longrightarrow>
      kv_get db' q = (if q = conf_key PolicyDoc b then Some (VRaw body) else kv_get (sv_db s) q))"
    by (rule conf_commit [OF a(3) wf]) (auto simp: op_conf_put_def bind_res_eq_Inr)
  note st = stored_policy_update [OF conjunct2 [OF u], of from_str]
  have "cache_ok from_str s'" unfolding a(4) using u by (intro cache_ok_write [OF assms(1)]) (simp_all add: st a(1,2))
  then show ?thesis by (auto simp: a(2,4) cache_policy_def st a(1))
next
  case False
  then have "s' = s" using assms(2) failed_commit
    by (auto simp: put_bucket_policy_def split: if_splits sum.splits prod.splits)
  with False assms(1) show ?thesis by simp
qed

lemma delete_policy_effect:
  assumes "cache_ok from_str s" "delete_bucket_policy e b s = (s', r)"
  shows "cache_ok from_str s' \<and> (r = Inr () \<longrightarrow> stored_policy from_str (sv_db s') b = None)"
proof (cases "r = Inr ()")
  case True
  then obtain db' sq where a: "env_commit e [BucketConfDelete b PolicyDoc] (sv_db s) = (db', Inr sq)"
    "s' = cache_policy b None (s\<lparr>sv_db := db'\<rparr>)"
    using assms(2) by (auto simp: delete_bucket_policy_def split: if_splits sum.splits prod.splits option.splits)
  have wf: "kv_wf (sv_db s)" using assms(1) by (simp add: cache_ok_def)
  have u: "kv_wf db' \<and> (\<forall>q. prefix PREFIX_BUCKET_POLICY q \<longrightarrow>
      kv_get db' q = (if q = conf_key PolicyDoc b then None else kv_get (sv_db s) q))"
    by (rule conf_commit [OF a(1) wf]) (auto simp: op_conf_delete_def bind_res_eq_Inr)
  note st = stored_policy_update [OF conjunct2 [OF u], of from_str]
  have "cache_ok from_str s'" unfolding a(2) using u by (intro cache_ok_write [OF assms(1)]) (simp_all add: st)
  then show ?thesis by (simp add: a(2) cache_policy_def st)
next
  case False
  then have "s' = s" using assms(2) failed_commit
    by (auto simp: delete_bucket_policy_def split: if_splits sum.splits prod.splits option.splits)
  with False assms(1) show ?thesis by simp
qed

section \<open>Layers\<close>

text \<open>The condition context of a request, and the policies that are consulted for an authenticated caller.\<close>

definition caller_ctx :: "service \<Rightarrow> auth_identity \<Rightarrow> s3_request \<Rightarrow> bytes \<Rightarrow> bytes \<Rightarrow> eval_ctx" where
  "caller_ctx s a req b k = (policy_ctx s req b k)\<lparr>ec_caller := Some (caller_identity_of s (ai_who a))\<rparr>"

definition consulted :: "(bytes \<Rightarrow> json option) \<Rightarrow> service \<Rightarrow> auth_identity \<Rightarrow> bytes \<Rightarrow> policy \<Rightarrow> bool" where
  "consulted from_str s a b p \<longleftrightarrow>
     sv_policies s (ai_who a) = Some (Some p) \<or> sv_embedded_policies s (ai_who a) = Some (Some p) \<or>
     (\<exists>sess t. ai_session a = Some sess \<and> Some t \<in> {se_session_policy sess, se_inline_policy sess} \<and> parse_policy from_str t = Inr p) \<or>
     (\<exists>tenant user u name. sv_key_owners s (ai_who a) = Some (tenant, user) \<and> sv_iam_users s (tenant, user) = Some u \<and>
        name \<in> set (attached_names s tenant u) \<and> named_policy s tenant name = Some p) \<or>
     b \<noteq> [] \<and> stored_policy from_str (sv_db s) b = Some p"

lemma identity_loop_deny:
  assumes "name \<in> set names" "named_policy s tenant name = Some p" "decide p action resource True ctx = Deny"
  shows "identity_loop s tenant action resource ctx names allowed = Deny"
  using assms
proof (induction names arbitrary: allowed)
  case (Cons n names)
  then show ?case by (auto split: option.split decision.split)
qed simp

lemma attached_empty: "us_policies u = [] \<Longrightarrow> us_groups u = [] \<Longrightarrow> attached_names s tenant u = []"
  by (simp add: attached_names_def)

lemma layers_flat:
  "(if kd = Deny then Inl AzAccessDenied else if \<not> em then Inl AzAccessDenied else if \<not> se then Inl AzAccessDenied
    else if iam = Some Deny then Inl AzAccessDenied else if bd = Deny then Inl AzAccessDenied
    else if x then Inl AzAccessDenied
    else case iam of None \<Rightarrow> if u then Inr () else Inl AzAccessDenied
      | Some Allow \<Rightarrow> if u then Inr () else Inl AzAccessDenied | Some _ \<Rightarrow> Inl AzAccessDenied) =
   (if kd \<noteq> Deny \<and> em \<and> se \<and> iam \<in> {None, Some Allow} \<and> bd \<noteq> Deny \<and> \<not> x \<and> u then Inr () else Inl AzAccessDenied)"
  by (cases iam) (auto split: decision.split)

lemma authorize_unfold:
  fixes from_str s a name b k req
  defines "resource \<equiv> resource_arn b k" and "action \<equiv> s3_action_name name b k" and "ctx \<equiv> caller_ctx s a req b k"
    and "kp \<equiv> case sv_policies s (ai_who a) of Some p \<Rightarrow> p | None \<Rightarrow> None"
  defines "kd \<equiv> case kp of Some p \<Rightarrow> decide p action resource True ctx | None \<Rightarrow> NoMatch"
    and "bd \<equiv> if b = [] then NoMatch else case stored_policy from_str (sv_db s) b of
             Some p \<Rightarrow> decide p action resource True ctx | None \<Rightarrow> NoMatch"
  assumes "cache_ok from_str s"
  shows "fst (authorize from_str s (Some a) name b k req) =
    (if kd \<noteq> Deny \<and> scope_allows (sv_embedded_policies s (ai_who a)) action resource ctx \<and>
        session_allows from_str a action resource ctx \<and>
        iam_identity_decision s (ai_who a) action resource ctx \<in> {None, Some Allow} \<and> bd \<noteq> Deny \<and>
        \<not> (b \<noteq> [] \<and> bd \<noteq> Allow \<and> sv_key_owners s (ai_who a) \<noteq> None \<and> cross_tenant s (caller_identity_of s (ai_who a)) b) \<and>
        (kp = None \<or> kd = Allow \<or> bd = Allow)
     then Inr () else Inl AzAccessDenied)"
proof -
  have ak: "ci_access_key (caller_identity_of s x) = x" for x
    by (simp add: caller_identity_of_def Let_def split: prod.split)
  obtain bp s' where bp: "bucket_policy from_str s b = (bp, s')" by fastforce
  have st: "bp = stored_policy from_str (sv_db s) b" "sv_db s' = sv_db s" "sv_key_owners s' = sv_key_owners s"
    using bucket_policy_stored [OF assms(7), of b] by (simp_all add: bp)
  have ct: "cross_tenant s' = cross_tenant s" by (intro ext) (simp add: cross_tenant_def st)
  define sx where "sx = (if b = [] then s else s')"
  have pick: "(if b = [] then (None, s) else bucket_policy from_str s b) = (if b = [] then None else bp, sx)"
    by (simp add: bp sx_def)
  have sx: "cross_tenant sx = cross_tenant s" "sv_key_owners sx = sv_key_owners s" by (simp_all add: sx_def ct st)
  have bd: "(case (if b = [] then None else bp) of Some p \<Rightarrow> decide p action resource (Some (ai_who a) \<noteq> None) ctx | None \<Rightarrow> NoMatch) = bd"
    by (cases bp) (simp_all add: bd_def st(1) [symmetric])
  let ?iam = "iam_identity_decision s (ai_who a) action resource ctx"
  have fin: "fst (case ?iam of None \<Rightarrow> (if u then Inr () else Inl AzAccessDenied, sx)
      | Some Allow \<Rightarrow> (if u then Inr () else Inl AzAccessDenied, sx) | Some _ \<Rightarrow> (Inl AzAccessDenied, sx)) =
     (case ?iam of None \<Rightarrow> if u then Inr () else Inl AzAccessDenied
      | Some Allow \<Rightarrow> if u then Inr () else Inl AzAccessDenied | Some _ \<Rightarrow> Inl AzAccessDenied)" for u
    by (cases ?iam) (simp_all split: decision.split)
  show ?thesis
    unfolding layers_flat [symmetric] authorize_def Let_def option.map option.case pick prod.case
      caller_ctx_def [symmetric] resource_def [symmetric] action_def [symmetric] ctx_def [symmetric]
      kp_def [symmetric] kd_def [symmetric] option.simps simp_thms if_True bd sx ak if_distrib [of fst] fst_conv fin
    by simp
qed


lemma session_text_allows:
  assumes "session_allows from_str a act res ctx" "ai_session a = Some sess"
    "Some t \<in> {se_session_policy sess, se_inline_policy sess}"
  shows "\<exists>p. parse_policy from_str t = Inr p \<and> decide p act res True ctx = Allow"
proof -
  have "se_session_policy sess = Some t \<or> se_inline_policy sess = Some t" using assms(3) by auto
  then show ?thesis using assms(1,2) by (cases "parse_policy from_str t") (auto simp: session_allows_def)
qed

section \<open>Properties\<close>

text \<open>
  C33. An explicit denial in any layer wins: whatever the other policies allow, a request of an
  authenticated caller is refused when the policy of its key, an embedded or session policy, a policy
  attached to the owner or one of its groups, or the stored bucket policy denies it.
\<close>

theorem deny_wins:
  assumes "cache_ok from_str s" "consulted from_str s a b p"
    "decide p (s3_action_name name b k) (resource_arn b k) True (caller_ctx s a req b k) = Deny"
  shows "fst (authorize from_str s (Some a) name b k req) = Inl AzAccessDenied"
proof -
  note flat = authorize_unfold [OF assms(1), of a name b k req]
  let ?act = "s3_action_name name b k" and ?res = "resource_arn b k" and ?ctx = "caller_ctx s a req b k"
  from assms(2) consider (key) "sv_policies s (ai_who a) = Some (Some p)" | (emb) "sv_embedded_policies s (ai_who a) = Some (Some p)"
    | (sess) sess t where "ai_session a = Some sess" "Some t \<in> {se_session_policy sess, se_inline_policy sess}" "parse_policy from_str t = Inr p"
    | (iam) tenant user u n where "sv_key_owners s (ai_who a) = Some (tenant, user)" "sv_iam_users s (tenant, user) = Some u"
        "n \<in> set (attached_names s tenant u)" "named_policy s tenant n = Some p"
    | (bucket) "b \<noteq> []" "stored_policy from_str (sv_db s) b = Some p"
    unfolding consulted_def by blast
  then show ?thesis
  proof cases
    case key
    then show ?thesis using assms(3) by (simp add: flat)
  next
    case emb
    then have "\<not> scope_allows (sv_embedded_policies s (ai_who a)) ?act ?res ?ctx" using assms(3) by (simp add: scope_allows_def)
    then show ?thesis by (simp add: flat)
  next
    case sess
    then have "\<not> session_allows from_str a ?act ?res ?ctx" using assms(3) session_text_allows by force
    then show ?thesis by (simp add: flat)
  next
    case iam
    then have "iam_identity_decision s (ai_who a) ?act ?res ?ctx = Some Deny"
      using identity_loop_deny [OF iam(3,4) assms(3)] attached_empty [of u s tenant] by (auto simp: iam_identity_decision_def)
    then show ?thesis by (simp add: flat)
  next
    case bucket
    then show ?thesis using assms(3) by (simp add: flat)
  qed
qed

text \<open>
  C34. Tenants are apart: a caller with an owner record reaches a bucket of another tenant only when the
  stored policy of that bucket allows the request; no policy of the caller's own side is enough.
\<close>

theorem tenant_boundary:
  assumes "cache_ok from_str s" "fst (authorize from_str s (Some a) name b k req) = Inr ()" "b \<noteq> []"
    "sv_key_owners s (ai_who a) \<noteq> None" "get_bucket (sv_db s) b = Inr (Some m)"
    "bk_owner m \<noteq> ci_tenant_canonical_id (caller_identity_of s (ai_who a))"
  shows "\<exists>p. stored_policy from_str (sv_db s) b = Some p \<and>
    decide p (s3_action_name name b k) (resource_arn b k) True (caller_ctx s a req b k) = Allow"
proof -
  have "cross_tenant s (caller_identity_of s (ai_who a)) b" using assms(5,6) by (simp add: cross_tenant_def)
  then show ?thesis
    using assms(2-4) unfolding authorize_unfold [OF assms(1), of a name b k req]
    by (auto split: if_splits option.splits)
qed

text \<open>
  C35. Temporary credentials only narrow: a request allowed under a session, with policy texts or without,
  is allowed to the base key as well, and every policy text the session carries parses and allows it.
\<close>

theorem session_only_narrows:
  assumes "cache_ok from_str s" "fst (authorize from_str s (Some a) name b k req) = Inr ()" "ai_session a = Some sess"
  shows "fst (authorize from_str s (Some (a\<lparr>ai_session := None\<rparr>)) name b k req) = Inr () \<and>
    (\<forall>t. Some t \<in> {se_session_policy sess, se_inline_policy sess} \<longrightarrow>
      (\<exists>p. parse_policy from_str t = Inr p \<and>
        decide p (s3_action_name name b k) (resource_arn b k) True (caller_ctx s a req b k) = Allow))"
proof (intro conjI allI impI)
  have c: "caller_ctx s (a\<lparr>ai_session := None\<rparr>) req b k = caller_ctx s a req b k" by (simp add: caller_ctx_def)
  have n: "session_allows from_str (a\<lparr>ai_session := None\<rparr>) act res ctx" for act res ctx by (simp add: session_allows_def)
  show "fst (authorize from_str s (Some (a\<lparr>ai_session := None\<rparr>)) name b k req) = Inr ()"
    using assms(2) unfolding authorize_unfold [OF assms(1)] c by (simp add: n split: if_splits)
  have ok: "session_allows from_str a (s3_action_name name b k) (resource_arn b k) (caller_ctx s a req b k)"
    using assms(2) unfolding authorize_unfold [OF assms(1)] by (simp split: if_splits)
  fix t assume "Some t \<in> {se_session_policy sess, se_inline_policy sess}"
  with ok show "\<exists>p. parse_policy from_str t = Inr p \<and>
      decide p (s3_action_name name b k) (resource_arn b k) True (caller_ctx s a req b k) = Allow"
    using session_text_allows assms(3) by blast
qed

text \<open>
  An anonymous request passes only when the bucket does not restrict public access and either its
  stored policy allows the request to anonymous callers, or the request reads and anonymous reading is
  switched on.
\<close>

theorem anonymous_needs_grant:
  assumes "cache_ok from_str s" "fst (require_auth from_str parse_pab s None req name b k) = Inr x" "b \<noteq> []"
  shows "\<not> (\<exists>w. bpa_of parse_pab (sv_db s) b = Some w \<and> pab_restrict_public_buckets w) \<and>
    ((\<exists>p. stored_policy from_str (sv_db s) b = Some p \<and>
        decide p (s3_action_name name b k) (resource_arn b k) False (policy_ctx s req b k) = Allow) \<or>
     rq_method req \<in> {lit ''GET'', lit ''HEAD''} \<and> sv_allow_anonymous s)"
proof -
  obtain bp s' where bp: "bucket_policy from_str s b = (bp, s')" by fastforce
  have st: "bp = stored_policy from_str (sv_db s) b" "sv_db s' = sv_db s" using bucket_policy_stored [OF assms(1), of b] by (simp_all add: bp)
  have aa: "sv_allow_anonymous s' = sv_allow_anonymous s"
    using bp by (auto simp: bucket_policy_def cache_policy_def Let_def split: option.splits)
  show ?thesis
    using assms(2,3) st aa
    by (auto simp: require_auth_def anonymous_bucket_grant_def bp split: if_splits option.splits bool.splits)
qed

text \<open>
  An accepted policy takes effect with the next request: the lookup returns it, whatever the cache
  held before, the cache stays true to the store, and the policies of all other buckets are unchanged.
\<close>

theorem put_policy_takes_effect:
  assumes "cache_ok from_str s" "put_bucket_policy from_str parse_pab e b body s = (s', Inr ())"
  shows "\<exists>p. parse_policy from_str body = Inr p \<and> fst (bucket_policy from_str s' b) = Some p \<and> cache_ok from_str s' \<and>
    stored_policy from_str (sv_db s') = (stored_policy from_str (sv_db s))(b \<mapsto> p) \<and>
    \<not> (grants_anonymous_public_access p \<and> (\<exists>w. bpa_of parse_pab (sv_db s) b = Some w \<and> pab_block_public_policy w))"
proof -
  obtain p where p: "parse_policy from_str body = Inr p"
    "\<not> (grants_anonymous_public_access p \<and> (\<exists>w. bpa_of parse_pab (sv_db s) b = Some w \<and> pab_block_public_policy w))"
    using assms(2) by (auto simp: put_bucket_policy_def split: if_splits sum.splits option.splits)
  then show ?thesis using put_policy_effect [OF assms] bucket_policy_stored [of from_str s' b] by auto
qed

text \<open>
  C39. Administrative actions stay inside the tenant: without the cluster-wide policy among the attached
  ones, an enabled user is never allowed a tenant life-cycle action nor an action on another tenant, and
  unknown or disabled users are allowed nothing.
\<close>

theorem admin_stays_in_tenant:
  assumes "check_admin_action s tenant user action target"
  shows "\<exists>u. sv_iam_users s (tenant, user) = Some u \<and> us_enabled u \<and>
    (CANNED_CONSOLE_ADMIN \<in> set (attached_names s tenant u) \<or>
     ascii_lowercase (str_trim action) \<notin> set TENANT_ACTIONS \<and> (target = None \<or> target = Some tenant)) \<and>
    (\<exists>name \<in> set (attached_names s tenant u). \<exists>p. named_policy s tenant name = Some p \<and>
      decide p (ascii_lowercase (str_trim action)) (lit ''*'') True default_ctx = Allow)"
proof -
  have found: "\<exists>name \<in> set names. \<exists>p. named_policy s tenant name = Some p \<and> decide p act (lit ''*'') True default_ctx = Allow"
    if "admin_loop s tenant act names" for act names
    using that by (induction names) (auto split: option.splits decision.splits)
  obtain u where u: "sv_iam_users s (tenant, user) = Some u" "us_enabled u"
    using assms by (auto simp: check_admin_action_def split: option.splits if_splits)
  with assms have "CANNED_CONSOLE_ADMIN \<in> set (attached_names s tenant u) \<or>
     ascii_lowercase (str_trim action) \<notin> set TENANT_ACTIONS \<and> (target = None \<or> target = Some tenant)"
    "admin_loop s tenant (ascii_lowercase (str_trim action)) (attached_names s tenant u)"
    by (auto simp: check_admin_action_def Let_def split: if_splits option.splits)
  with u found show ?thesis by blast
qed

text \<open>
  The administrative check stops at the first attached policy that allows the action, so a denial in
  a later one is ignored, whereas the same two policies refuse the same action in the data-plane check.
\<close>

theorem admin_allow_hides_deny:
  assumes "sv_iam_users s (tenant, user) = Some \<lparr>us_enabled = True, us_policies = [n1, n2], us_groups = []\<rparr>"
    "named_policy s tenant n1 = Some p1" "named_policy s tenant n2 = Some p2"
    "decide p1 (ascii_lowercase (str_trim action)) (lit ''*'') True default_ctx = Allow"
    "decide p2 (ascii_lowercase (str_trim action)) (lit ''*'') True default_ctx = Deny"
    "ascii_lowercase (str_trim action) \<notin> set TENANT_ACTIONS"
  shows "check_admin_action s tenant user action None \<and>
    identity_loop s tenant (ascii_lowercase (str_trim action)) (lit ''*'') default_ctx
      (attached_names s tenant \<lparr>us_enabled = True, us_policies = [n1, n2], us_groups = []\<rparr>) False = Deny"
  using assms by (simp add: check_admin_action_def attached_names_def Let_def)

text \<open>
  A source address condition is decided by the newest connection: once another client has connected,
  the condition holds of every request according to that client's address, also of requests that arrive
  over a connection opened before from a different address.
\<close>

theorem newest_connection_decides_source_ip:
  assumes "parse_socket_ip newest = Some ip"
  shows "cond_satisfied (policy_ctx (set_peer newest (set_peer own s)) req b k) (CondIp negate nets) \<longleftrightarrow>
    list_ex (\<lambda>n. net_contains n ip) nets \<noteq> negate"
  using assms by (simp add: policy_ctx_def set_peer_def cond_satisfied_def)

section \<open>The cache under concurrency\<close>

text \<open>
  The lookup and the replacement of a policy as they interleave: a lookup that misses reads the store and
  later fills the cache; a replacement commits to the store and later fills the cache. No lock spans the
  two halves.
\<close>

datatype cache_pc = CIdle | CMissed | CLoaded "policy option" | CStored policy

record cache_race =
  cr_stored :: "policy option"
  cr_cache :: "policy option option"
  cr_pc :: "nat \<Rightarrow> cache_pc"

inductive cache_step :: "cache_race \<Rightarrow> cache_race \<Rightarrow> bool" where
  miss: "cr_pc \<sigma> t = CIdle \<Longrightarrow> cr_cache \<sigma> = None \<Longrightarrow> cache_step \<sigma> (\<sigma>\<lparr>cr_pc := (cr_pc \<sigma>)(t := CMissed)\<rparr>)"
| load: "cr_pc \<sigma> t = CMissed \<Longrightarrow> cache_step \<sigma> (\<sigma>\<lparr>cr_pc := (cr_pc \<sigma>)(t := CLoaded (cr_stored \<sigma>))\<rparr>)"
| fill: "cr_pc \<sigma> t = CLoaded v \<Longrightarrow> cache_step \<sigma> (\<sigma>\<lparr>cr_cache := Some v, cr_pc := (cr_pc \<sigma>)(t := CIdle)\<rparr>)"
| store: "cr_pc \<sigma> t = CIdle \<Longrightarrow> cache_step \<sigma> (\<sigma>\<lparr>cr_stored := Some p, cr_pc := (cr_pc \<sigma>)(t := CStored p)\<rparr>)"
| publish: "cr_pc \<sigma> t = CStored p \<Longrightarrow> cache_step \<sigma> (\<sigma>\<lparr>cr_cache := Some (Some p), cr_pc := (cr_pc \<sigma>)(t := CIdle)\<rparr>)"

text \<open>
  The cache can go stale for good: from a state in which policy \<open>p\<close> is stored and nothing is cached,
  a lookup that overlaps the replacement by \<open>q\<close> can leave \<open>p\<close> in the cache after both have finished,
  with \<open>q\<close> in the store; every later lookup then answers with the replaced policy.
\<close>

theorem policy_cache_goes_stale:
  "\<exists>\<sigma>. cache_step\<^sup>*\<^sup>* \<lparr>cr_stored = Some p, cr_cache = None, cr_pc = (\<lambda>_. CIdle)\<rparr> \<sigma> \<and>
     cr_stored \<sigma> = Some q \<and> cr_cache \<sigma> = Some (Some p) \<and> cr_pc \<sigma> = (\<lambda>_. CIdle)"
proof -
  let ?st = "\<lambda>st ca r w. \<lparr>cr_stored = st, cr_cache = ca, cr_pc = (\<lambda>_. CIdle)(0 := r, 1 := w)\<rparr>"
  have s1: "cache_step (?st (Some p) None CIdle CIdle) (?st (Some p) None CMissed CIdle)"
    using miss [of "?st (Some p) None CIdle CIdle" 0] by (simp add: fun_upd_twist)
  have s2: "cache_step (?st (Some p) None CMissed CIdle) (?st (Some p) None (CLoaded (Some p)) CIdle)"
    using load [of "?st (Some p) None CMissed CIdle" 0] by (simp add: fun_upd_twist)
  have s3: "cache_step (?st (Some p) None (CLoaded (Some p)) CIdle) (?st (Some q) None (CLoaded (Some p)) (CStored q))"
    using store [of "?st (Some p) None (CLoaded (Some p)) CIdle" 1 q] by simp
  have s4: "cache_step (?st (Some q) None (CLoaded (Some p)) (CStored q)) (?st (Some q) (Some (Some q)) (CLoaded (Some p)) CIdle)"
    using publish [of "?st (Some q) None (CLoaded (Some p)) (CStored q)" 1 q] by simp
  have s5: "cache_step (?st (Some q) (Some (Some q)) (CLoaded (Some p)) CIdle) (?st (Some q) (Some (Some p)) CIdle CIdle)"
    using fill [of "?st (Some q) (Some (Some q)) (CLoaded (Some p)) CIdle" 0 "Some p"] by (simp add: fun_upd_twist)
  from r_into_rtranclp [of cache_step, OF s1] s2 s3 s4 s5
  have "cache_step\<^sup>*\<^sup>* (?st (Some p) None CIdle CIdle) (?st (Some q) (Some (Some p)) CIdle CIdle)"
    by (meson rtranclp.rtrancl_into_rtrancl)
  then show ?thesis by (intro exI [of _ "?st (Some q) (Some (Some p)) CIdle CIdle"]) (simp add: fun_upd_idem)
qed

section \<open>Witnesses\<close>

definition demo_stmt :: "effect \<Rightarrow> statement" where
  "demo_stmt ef = \<lparr>st_effect = ef, st_principal = None, st_actions = [lit ''s3:getobject''], st_resources = [lit ''*''], st_conditions = []\<rparr>"

lemma demo_decide: "decide [demo_stmt ef] (lit ''GetObject'') r auth ctx = (case ef of EfAllow \<Rightarrow> Allow | EfDeny \<Rightarrow> Deny)"
proof -
  have "wildcard_match (lit ''*'') r" by (simp add: wildcard_match_def open_doc_facts)
  then have "statement_applies (lit ''s3:getobject'') r auth ctx (demo_stmt ef)"
    by (simp add: demo_stmt_def statement_applies_def open_doc_facts expand_username_var_def)
  then show ?thesis by (cases ef) (simp_all add: decide_def open_doc_facts demo_stmt_def)
qed

definition demo_from_str :: "bytes \<Rightarrow> json option" where
  "demo_from_str t = (if t = lit ''p'' then Some open_doc else None)"

definition demo_parse_pab :: "bytes \<Rightarrow> public_access_block option" where
  "demo_parse_pab doc = Some (pab_default\<lparr>pab_restrict_public_buckets := False\<rparr>)"

definition demo_policy_db :: db where
  "demo_policy_db = kv_put (conf_key PublicAccessBlock (lit ''b'')) (VRaw []) (kv_put (conf_key PolicyDoc (lit ''b'')) (VRaw (lit ''p'')) demo_store)"

definition demo_service :: service where
  "demo_service = \<lparr>sv_policies = Map.empty, sv_embedded_policies = Map.empty, sv_key_owners = [lit ''ak'' \<mapsto> (lit ''t'', lit ''u'')],
     sv_iam_users = Map.empty, sv_iam_groups = Map.empty, sv_iam_policies = Map.empty, sv_tenants = Map.empty,
     sv_bucket_policies = Map.empty, sv_db = demo_policy_db, sv_lock_now = 0, sv_allow_anonymous = False, sv_last_peer = []\<rparr>"

definition demo_request :: s3_request where
  "demo_request = \<lparr>rq_method = lit ''GET'', rq_query = [], rq_headers = []\<rparr>"

definition demo_id :: auth_identity where
  "demo_id = \<lparr>ai_who = lit ''ak'', ai_session = Some \<lparr>se_session_policy = Some (lit ''p''), se_inline_policy = None\<rparr>\<rparr>"

lemma lit_neq: "lit x = lit y \<longleftrightarrow> x = y"
  using inj_lit_char by (auto simp: lit_def inj_map_eq_map)

lemma demo_policy_db_get:
  "kv_wf demo_policy_db" "kv_get demo_policy_db (bucket_key (lit ''b'')) = Some (VBucket demo_bucket)"
  "kv_get demo_policy_db (conf_key PolicyDoc (lit ''b'')) = Some (VRaw (lit ''p''))"
  "kv_get demo_policy_db (conf_key PublicAccessBlock (lit ''b'')) = Some (VRaw [])" "kv_get demo_policy_db SYS_SEQ = None"
proof -
  have wf: "kv_wf demo_store" using demo_store_ok(1) by (simp add: objects_ok_def)
  then show "kv_wf demo_policy_db" by (simp add: demo_policy_db_def store.wf_put)
  show "kv_get demo_policy_db (bucket_key (lit ''b'')) = Some (VBucket demo_bucket)"
    "kv_get demo_policy_db (conf_key PolicyDoc (lit ''b'')) = Some (VRaw (lit ''p''))"
    "kv_get demo_policy_db (conf_key PublicAccessBlock (lit ''b'')) = Some (VRaw [])" "kv_get demo_policy_db SYS_SEQ = None"
    using wf by (simp_all add: demo_policy_db_def store.get_put store.wf_put demo_get bucket_conf_key_def bucket_key_def prefix_defs lit_def)
qed

lemma demo_stored: "stored_policy demo_from_str demo_policy_db (lit ''b'') = Some [open_statement]"
proof -
  have "utf8_valid (lit ''p'')" by code_simp
  then show ?thesis by (simp add: stored_policy_def demo_policy_db_get(3) [unfolded conf_key.simps] parse_policy_def demo_from_str_def open_doc_parses)
qed

lemma demo_cache_ok: "cache_ok demo_from_str demo_service" "cache_ok demo_from_str (demo_service\<lparr>sv_policies := x\<rparr>)"
  by (simp_all add: cache_ok_def demo_service_def demo_policy_db_get(1))

lemma demo_names: "s3_action_name (lit ''GetObject'') (lit ''b'') (lit ''k'') = lit ''GetObject''" "lit ''b'' \<noteq> []"
  by (simp_all add: s3_action_name_def lit_neq) (simp_all add: lit_def)

lemma open_is_demo: "open_statement = demo_stmt EfAllow"
  by (simp add: open_statement_def demo_stmt_def)

lemma demo_authorized: "fst (authorize demo_from_str demo_service (Some demo_id) (lit ''GetObject'') (lit ''b'') (lit ''k'') demo_request) = Inr ()"
proof -
  have d: "sv_policies demo_service (ai_who demo_id) = None" "sv_embedded_policies demo_service (ai_who demo_id) = None"
    "sv_db demo_service = demo_policy_db" "iam_identity_decision demo_service (ai_who demo_id) act res ctx = None" for act res ctx
    by (simp_all add: demo_service_def demo_id_def iam_identity_decision_def)
  have "session_allows demo_from_str demo_id (lit ''GetObject'') res ctx" for res ctx
    by (simp add: session_allows_def demo_id_def parse_policy_def demo_from_str_def open_doc_parses open_is_demo demo_decide)
  then show ?thesis
    unfolding authorize_unfold [OF demo_cache_ok(1)]
    by (simp add: d demo_stored demo_names scope_allows_def open_is_demo demo_decide)
qed

theorem deny_wins_witness:
  "fst (authorize demo_from_str (demo_service\<lparr>sv_policies := [lit ''ak'' \<mapsto> Some [demo_stmt EfDeny]]\<rparr>) (Some demo_id)
     (lit ''GetObject'') (lit ''b'') (lit ''k'') demo_request) = Inl AzAccessDenied"
  by (rule deny_wins [OF demo_cache_ok(2), of _ _ _ "[demo_stmt EfDeny]"])
    (simp_all add: consulted_def demo_id_def demo_names demo_decide)

theorem tenant_boundary_witness:
  "\<exists>p. stored_policy demo_from_str demo_policy_db (lit ''b'') = Some p \<and>
    decide p (lit ''GetObject'') (resource_arn (lit ''b'') (lit ''k'')) True (caller_ctx demo_service demo_id demo_request (lit ''b'') (lit ''k'')) = Allow"
proof -
  have "sv_key_owners demo_service (ai_who demo_id) \<noteq> None" "sv_db demo_service = demo_policy_db"
    "bk_owner demo_bucket \<noteq> ci_tenant_canonical_id (caller_identity_of demo_service (ai_who demo_id))"
    by (simp_all add: demo_service_def demo_id_def demo_bucket_def caller_identity_of_def Let_def) (simp add: lit_def)
  moreover have "get_bucket demo_policy_db (lit ''b'') = Inr (Some demo_bucket)" by (simp add: get_bucket_def demo_policy_db_get(2))
  ultimately show ?thesis using tenant_boundary [OF demo_cache_ok(1) demo_authorized demo_names(2)] demo_names(1) by simp
qed

theorem session_only_narrows_witness:
  "fst (authorize demo_from_str demo_service (Some (demo_id\<lparr>ai_session := None\<rparr>)) (lit ''GetObject'') (lit ''b'') (lit ''k'') demo_request) = Inr () \<and>
   (\<exists>p. parse_policy demo_from_str (lit ''p'') = Inr p)"
proof -
  have "ai_session demo_id = Some \<lparr>se_session_policy = Some (lit ''p''), se_inline_policy = None\<rparr>" by (simp add: demo_id_def)
  from session_only_narrows [OF demo_cache_ok(1) demo_authorized this] show ?thesis by auto
qed

theorem anonymous_needs_grant_witness:
  "\<exists>p. stored_policy demo_from_str demo_policy_db (lit ''b'') = Some p \<and>
    decide p (lit ''GetObject'') (resource_arn (lit ''b'') (lit ''k'')) False (policy_ctx demo_service demo_request (lit ''b'') (lit ''k'')) = Allow"
proof -
  have db: "sv_db demo_service = demo_policy_db" "sv_bucket_policies demo_service = Map.empty" "\<not> sv_allow_anonymous demo_service"
    by (simp_all add: demo_service_def)
  have "get_bucket demo_policy_db (lit ''b'') = Inr (Some demo_bucket)" by (simp add: get_bucket_def demo_policy_db_get(2))
  then have "bpa_of demo_parse_pab demo_policy_db (lit ''b'') = Some (pab_default\<lparr>pab_restrict_public_buckets := False\<rparr>)"
    by (simp add: bpa_of_def demo_policy_db_get(4) [unfolded conf_key.simps] demo_parse_pab_def)
  then have "fst (require_auth demo_from_str demo_parse_pab demo_service None demo_request (lit ''GetObject'') (lit ''b'') (lit ''k'')) = Inr None"
    by (simp add: require_auth_def anonymous_bucket_grant_def db bucket_policy_def demo_stored demo_names open_is_demo demo_decide Let_def)
  from anonymous_needs_grant [OF demo_cache_ok(1) this demo_names(2)] db show ?thesis by (simp add: demo_names(1))
qed

definition open_pab :: "bytes \<Rightarrow> public_access_block option" where
  "open_pab doc = Some \<lparr>pab_block_public_acls = False, pab_ignore_public_acls = False, pab_block_public_policy = False,
     pab_restrict_public_buckets = False\<rparr>"

lemma demo_put: "\<exists>s'. put_bucket_policy demo_from_str open_pab (demo_env\<lparr>e_binlog := False\<rparr>) (lit ''b'') (lit ''p'') demo_service = (s', Inr ())"
proof -
  let ?e = "demo_env\<lparr>e_binlog := False\<rparr>"
  have db: "sv_db demo_service = demo_policy_db" by (simp add: demo_service_def)
  have bk: "get_bucket demo_policy_db (lit ''b'') = Inr (Some demo_bucket)" by (simp add: get_bucket_def demo_policy_db_get(2))
  have u: "utf8_valid (lit ''p'')" by code_simp
  have pab: "bpa_of open_pab demo_policy_db (lit ''b'') = open_pab []"
    by (simp add: bpa_of_def bk demo_policy_db_get(4) [unfolded conf_key.simps] open_pab_def)
  have "\<exists>d n. env_commit ?e [BucketConfPut (lit ''b'') PolicyDoc (lit ''p'')] demo_policy_db = (d, Inr n)"
    by (simp add: env_commit_def commit_def apply_ops_def read_u64_def demo_policy_db_get demo_env_def op_conf_put_def require_bucket_def bk ok_or_def)
  then show ?thesis
    by (auto simp: put_bucket_policy_def u db pab open_pab_def parse_policy_def demo_from_str_def open_doc_parses)
qed

theorem put_policy_takes_effect_witness:
  "fst (bucket_policy demo_from_str
     (fst (put_bucket_policy demo_from_str open_pab (demo_env\<lparr>e_binlog := False\<rparr>) (lit ''b'') (lit ''p'') demo_service)) (lit ''b''))
   = Some [open_statement]"
proof -
  obtain s' where s': "put_bucket_policy demo_from_str open_pab (demo_env\<lparr>e_binlog := False\<rparr>) (lit ''b'') (lit ''p'') demo_service = (s', Inr ())"
    using demo_put by blast
  from put_policy_takes_effect [OF demo_cache_ok(1) this] show ?thesis
    by (auto simp: s' parse_policy_def demo_from_str_def open_doc_parses)
qed

definition admin_stmt :: "effect \<Rightarrow> statement" where
  "admin_stmt ef = (demo_stmt ef)\<lparr>st_actions := [lit ''admin:createuser'']\<rparr>"

definition admin_user :: iam_user_state where
  "admin_user = \<lparr>us_enabled = True, us_policies = [lit ''a'', lit ''d''], us_groups = []\<rparr>"

definition admin_service :: service where
  "admin_service = demo_service\<lparr>sv_iam_users := [(lit ''t'', lit ''u'') \<mapsto> admin_user],
     sv_iam_policies := [(lit ''t'', lit ''a'') \<mapsto> [admin_stmt EfAllow], (lit ''t'', lit ''d'') \<mapsto> [admin_stmt EfDeny]]\<rparr>"

lemma admin_facts:
  "sv_iam_users admin_service (lit ''t'', lit ''u'') = Some admin_user"
  "named_policy admin_service (lit ''t'') (lit ''a'') = Some [admin_stmt EfAllow]"
  "named_policy admin_service (lit ''t'') (lit ''d'') = Some [admin_stmt EfDeny]"
  "ascii_lowercase (str_trim (lit ''admin:CreateUser'')) = lit ''admin:createuser''"
  "decide [admin_stmt EfAllow] (lit ''admin:createuser'') (lit ''*'') True default_ctx = Allow"
  "decide [admin_stmt EfDeny] (lit ''admin:createuser'') (lit ''*'') True default_ctx = Deny"
  "lit ''admin:createuser'' \<notin> set TENANT_ACTIONS" "attached_names admin_service (lit ''t'') admin_user = [lit ''a'', lit ''d'']"
  "CANNED_CONSOLE_ADMIN \<notin> {lit ''a'', lit ''d''}"
proof -
  have nc: "\<not> is_canned (lit ''a'')" "\<not> is_canned (lit ''d'')" by (simp_all add: is_canned_def canned_policy_def canned_table_def lit_neq)
  show "named_policy admin_service (lit ''t'') (lit ''a'') = Some [admin_stmt EfAllow]"
    "named_policy admin_service (lit ''t'') (lit ''d'') = Some [admin_stmt EfDeny]"
    using nc by (simp_all add: named_policy_def admin_service_def lit_neq)
  show "sv_iam_users admin_service (lit ''t'', lit ''u'') = Some admin_user" by (simp add: admin_service_def)
  show "ascii_lowercase (str_trim (lit ''admin:CreateUser'')) = lit ''admin:createuser''" by code_simp
  show "decide [admin_stmt EfAllow] (lit ''admin:createuser'') (lit ''*'') True default_ctx = Allow" by code_simp
  show "decide [admin_stmt EfDeny] (lit ''admin:createuser'') (lit ''*'') True default_ctx = Deny" by code_simp
  show "lit ''admin:createuser'' \<notin> set TENANT_ACTIONS" by (simp add: TENANT_ACTIONS_def lit_neq)
  show "attached_names admin_service (lit ''t'') admin_user = [lit ''a'', lit ''d'']" by (simp add: attached_names_def admin_user_def)
  show "CANNED_CONSOLE_ADMIN \<notin> {lit ''a'', lit ''d''}" by (simp add: CANNED_CONSOLE_ADMIN_def lit_neq)
qed

lemma admin_check: "check_admin_action admin_service (lit ''t'') (lit ''u'') (lit ''admin:CreateUser'') (Some (lit ''t''))"
  using admin_facts(9) by (simp add: check_admin_action_def admin_facts Let_def) (simp add: admin_user_def)

theorem admin_stays_in_tenant_witness:
  "\<exists>name \<in> set (attached_names admin_service (lit ''t'') admin_user). \<exists>p. named_policy admin_service (lit ''t'') name = Some p \<and>
    decide p (lit ''admin:createuser'') (lit ''*'') True default_ctx = Allow"
  using admin_stays_in_tenant [OF admin_check] by (simp add: admin_facts)

theorem admin_allow_hides_deny_witness:
  "check_admin_action admin_service (lit ''t'') (lit ''u'') (lit ''admin:CreateUser'') None"
  using admin_allow_hides_deny [of admin_service "lit ''t''" "lit ''u''" "lit ''a''" "lit ''d''" "[admin_stmt EfAllow]" "[admin_stmt EfDeny]" "lit ''admin:CreateUser''"]
  by (simp add: admin_facts admin_user_def [symmetric])

definition office_net :: ip_net where
  "office_net = \<lparr>net_addr = V4 3232235520, net_prefix_len = 16\<rparr>"

lemma office_facts:
  "parse_socket_ip (lit ''192.168.1.9:443'') = Some (V4 3232235785)" "parse_socket_ip (lit ''10.0.0.1:5555'') = Some (V4 167772161)"
  "net_contains office_net (V4 3232235785)" "\<not> net_contains office_net (V4 167772161)"
proof -
  have "read_ipv4 (lit ''192.168.1.9:443'') = Some ([192, 168, 1, 9], lit '':443'')" "read_ipv4 (lit ''10.0.0.1:5555'') = Some ([10, 0, 0, 1], lit '':5555'')"
    by code_simp+
  moreover have "to_digit 10 51 = Some 3" "to_digit 10 52 = Some 4" "to_digit 10 53 = Some 5" by code_simp+
  then have "read_port (lit '':443'') = Some []" "read_port (lit '':5555'') = Some []"
    by (simp_all add: read_port_def read_given_def read_number_def lit_def)
  ultimately have "socket_v4 (lit ''192.168.1.9:443'') = Some (V4 (of_nat (be_value 256 [192, 168, 1, 9])), [])"
    "socket_v4 (lit ''10.0.0.1:5555'') = Some (V4 (of_nat (be_value 256 [10, 0, 0, 1])), [])"
    by (simp_all add: socket_v4_def)
  then show "parse_socket_ip (lit ''192.168.1.9:443'') = Some (V4 3232235785)" "parse_socket_ip (lit ''10.0.0.1:5555'') = Some (V4 167772161)"
    by (simp_all add: parse_socket_ip_def be_value_def)
  show "net_contains office_net (V4 3232235785)" "\<not> net_contains office_net (V4 167772161)"
    by (simp_all add: office_net_def net_contains_V4)
qed

theorem newest_connection_decides_source_ip_witness:
  "cond_satisfied (policy_ctx (set_peer (lit ''192.168.1.9:443'') (set_peer (lit ''10.0.0.1:5555'') demo_service)) demo_request [] [])
     (CondIp False [office_net]) \<and>
   \<not> cond_satisfied (policy_ctx (set_peer (lit ''10.0.0.1:5555'') demo_service) demo_request [] []) (CondIp False [office_net])"
proof
  show "cond_satisfied (policy_ctx (set_peer (lit ''192.168.1.9:443'') (set_peer (lit ''10.0.0.1:5555'') demo_service)) demo_request [] [])
     (CondIp False [office_net])"
    using newest_connection_decides_source_ip [OF office_facts(1), of _ demo_service demo_request "[]" "[]" False "[office_net]"] office_facts(3) by simp
  show "\<not> cond_satisfied (policy_ctx (set_peer (lit ''10.0.0.1:5555'') demo_service) demo_request [] []) (CondIp False [office_net])"
    by (simp add: policy_ctx_def set_peer_def cond_satisfied_def office_facts(2,4))
qed

end
