(* ===== verification/Listing.thy ===== *)
theory Listing
  imports Version_Writes
begin

text \<open>
  Listing the objects of a bucket (\<^verbatim>\<open>fs3-meta/src/lib.rs\<close>): the unpaged listing, the pages of
  \<^verbatim>\<open>list_objects_page\<close> with prefix, delimiter and cursor for unversioned and versioned buckets, and the raw
  scan in pages of the background jobs. The locale \<open>paged_listing\<close> states what a client that follows cursors
  relies on.
\<close>

section \<open>Pages\<close>

record list_page =
  lp_items :: "(bytes \<times> object_meta) list"
  lp_common_prefixes :: "bytes list"
  lp_truncated :: bool
  lp_last_scanned :: "bytes option"

definition empty_page :: list_page where
  "empty_page = \<lparr>lp_items = [], lp_common_prefixes = [], lp_truncated = False, lp_last_scanned = None\<rparr>"

definition bucket_versioning :: "db \<Rightarrow> bytes \<Rightarrow> versioning_state result" where
  "bucket_versioning db b = bind_res (get_bucket db b) (\<lambda>m. Inr (case m of Some x \<Rightarrow> bk_versioning x | None \<Rightarrow> Off))"

text \<open>\<^verbatim>\<open>str::find\<close> with a string pattern: the first position at which it stands.\<close>

fun find_sub :: "bytes \<Rightarrow> bytes \<Rightarrow> nat option" where
  "find_sub d [] = (if d = [] then Some 0 else None)"
| "find_sub d (c # r) = (if prefix d (c # r) then Some 0 else map_option Suc (find_sub d r))"

text \<open>The entry a key is shown as: itself or the common prefix it falls under.\<close>

definition entry_of :: "bytes \<Rightarrow> bytes option \<Rightarrow> bytes \<Rightarrow> bytes \<times> bool" where
  "entry_of p delimiter key =
     (case delimiter of
        Some d \<Rightarrow>
          if d \<noteq> [] then
            (let rest = drop (min (length p) (length key)) key
             in case find_sub d rest of
                  Some i \<Rightarrow> (p @ take (i + length d) rest, True)
                | None \<Rightarrow> (key, False))
          else (key, False)
      | None \<Rightarrow> (key, False))"

record lister =
  ls_page :: list_page
  ls_entries :: nat
  ls_last_entry :: "bytes option"
  ls_last_emitted :: "bytes option"

definition new_lister :: lister where
  "new_lister = \<lparr>ls_page = empty_page, ls_entries = 0, ls_last_entry = None, ls_last_emitted = None\<rparr>"

text \<open>One key is offered to the page; the metadata is decoded only when it is shown. False ends the scan.\<close>

definition offer ::
  "bytes \<Rightarrow> bytes option \<Rightarrow> bytes option \<Rightarrow> nat \<Rightarrow> bytes \<Rightarrow> object_meta result \<Rightarrow> lister \<Rightarrow> (bool \<times> lister) result" where
  "offer p delimiter after mx key meta st =
     (if p \<noteq> [] \<and> \<not> prefix p key then Inr (True, st)
      else
        (let (entry, is_prefix_entry) = entry_of p delimiter key; page = ls_page st
         in if (case after of Some m \<Rightarrow> entry \<le> m | None \<Rightarrow> False) then Inr (True, st)
            else if ls_last_entry st = Some entry then Inr (True, st)
            else if mx \<le> ls_entries st then Inr (False, st)
            else bind_res
              (if is_prefix_entry \<or> entry \<noteq> key
               then Inr (page\<lparr>lp_common_prefixes := lp_common_prefixes page @ [entry]\<rparr>)
               else bind_res meta (\<lambda>m. Inr (page\<lparr>lp_items := lp_items page @ [(key, m)]\<rparr>)))
              (\<lambda>page'. Inr (True, st\<lparr>ls_page := page', ls_last_entry := Some entry, ls_last_emitted := Some entry,
                 ls_entries := ls_entries st + 1\<rparr>))))"

definition page_start :: "bytes \<Rightarrow> bytes option \<Rightarrow> bytes" where
  "page_start b after = object_prefix b @ (case after of Some a \<Rightarrow> escape a | None \<Rightarrow> [])"

definition finish_page :: "bool \<times> lister \<Rightarrow> list_page" where
  "finish_page = (\<lambda>(truncated, st). (ls_page st)\<lparr>lp_truncated := truncated, lp_last_scanned := ls_last_emitted st\<rparr>)"

fun plain_loop :: "bytes \<Rightarrow> (bytes \<Rightarrow> object_meta result \<Rightarrow> 's \<Rightarrow> (bool \<times> 's) result) \<Rightarrow> db \<Rightarrow> 's \<Rightarrow> (bool \<times> 's) result" where
  "plain_loop b emit [] st = Inr (False, st)"
| "plain_loop b emit ((k, v) # it) st =
     (if \<not> prefix (object_prefix b) k then Inr (False, st)
      else bind_res (parse_object_key k) (\<lambda>(_, key).
        bind_res (emit key (decode_object v) st) (\<lambda>(go, st').
          if go then plain_loop b emit it st' else Inr (True, st'))))"

definition list_objects_page_plain ::
  "db \<Rightarrow> bytes \<Rightarrow> bytes \<Rightarrow> bytes option \<Rightarrow> bytes option \<Rightarrow> nat \<Rightarrow> list_page result" where
  "list_objects_page_plain db b p delimiter after mx =
     bind_res (plain_loop b (offer p delimiter after mx) (iter_from (page_start b after) db) new_lister)
       (\<lambda>r. Inr (finish_page r))"

section \<open>Versioned buckets\<close>

text \<open>The entries of the key being read: the unversioned one, the null slot and the latest version.\<close>

record open_group =
  og_key :: "bytes option"
  og_legacy :: "object_meta option"
  og_null :: "object_meta option"
  og_real :: "(bytes \<times> object_meta) option"

definition no_group :: open_group where
  "no_group = \<lparr>og_key = None, og_legacy = None, og_null = None, og_real = None\<rparr>"

definition close_group ::
  "(bytes \<Rightarrow> object_meta \<Rightarrow> 's \<Rightarrow> (bool \<times> 's) result) \<Rightarrow> open_group \<Rightarrow> 's \<Rightarrow> (bool \<times> 's) result" where
  "close_group emit g st =
     (case og_key g of
        None \<Rightarrow> Inr (True, st)
      | Some ck \<Rightarrow>
          (case d1a_pick_current (og_legacy g) (og_null g) (og_real g) of
             None \<Rightarrow> Inr (True, st)
           | Some (_, cm) \<Rightarrow> emit ck cm st))"

definition add_entry :: "bytes option \<Rightarrow> object_meta \<Rightarrow> open_group \<Rightarrow> open_group" where
  "add_entry vk m g =
     (case vk of
        None \<Rightarrow> g\<lparr>og_legacy := Some m\<rparr>
      | Some w \<Rightarrow> if w = VK_NULL then g\<lparr>og_null := Some m\<rparr> else g\<lparr>og_real := Some (w, m)\<rparr>)"

fun versioned_loop ::
  "bytes \<Rightarrow> (bytes \<Rightarrow> object_meta \<Rightarrow> 's \<Rightarrow> (bool \<times> 's) result) \<Rightarrow> db \<Rightarrow> open_group \<Rightarrow> 's \<Rightarrow> (bool \<times> 's) result" where
  "versioned_loop b emit [] g st = bind_res (close_group emit g st) (\<lambda>(go, st'). Inr (\<not> go, st'))"
| "versioned_loop b emit ((k, v) # it) g st =
     (if \<not> prefix (object_prefix b) k then bind_res (close_group emit g st) (\<lambda>(go, st'). Inr (\<not> go, st'))
      else bind_res (parse_object_version_key k) (\<lambda>(_, key, vk).
        if og_key g \<noteq> Some key
        then bind_res (close_group emit g st) (\<lambda>(go, st').
          if \<not> go then Inr (True, st')
          else bind_res (decode_object v) (\<lambda>m. versioned_loop b emit it (add_entry vk m (no_group\<lparr>og_key := Some key\<rparr>)) st'))
        else bind_res (decode_object v) (\<lambda>m. versioned_loop b emit it (add_entry vk m g) st)))"

definition emit_current ::
  "bytes \<Rightarrow> bytes option \<Rightarrow> bytes option \<Rightarrow> nat \<Rightarrow> bytes \<Rightarrow> object_meta \<Rightarrow> lister \<Rightarrow> (bool \<times> lister) result" where
  "emit_current p delimiter after mx key m st =
     (if om_is_delete_marker m then Inr (True, st) else offer p delimiter after mx key (Inr m) st)"

definition list_objects_page_versioned ::
  "db \<Rightarrow> bytes \<Rightarrow> bytes \<Rightarrow> bytes option \<Rightarrow> bytes option \<Rightarrow> nat \<Rightarrow> list_page result" where
  "list_objects_page_versioned db b p delimiter after mx =
     bind_res (versioned_loop b (emit_current p delimiter after mx) (iter_from (page_start b after) db) no_group new_lister)
       (\<lambda>r. Inr (finish_page r))"

definition list_objects_page ::
  "db \<Rightarrow> bytes \<Rightarrow> bytes \<Rightarrow> bytes option \<Rightarrow> bytes option \<Rightarrow> nat \<Rightarrow> list_page result" where
  "list_objects_page db b p delimiter after mx =
     bind_res (bucket_versioning db b) (\<lambda>v.
       if v = Off then list_objects_page_plain db b p delimiter after mx
       else list_objects_page_versioned db b p delimiter after mx)"

section \<open>Listings without pages\<close>

definition keep_plain :: "bytes \<Rightarrow> bytes \<Rightarrow> object_meta result \<Rightarrow> (bytes \<times> object_meta) list \<Rightarrow> (bool \<times> (bytes \<times> object_meta) list) result" where
  "keep_plain p key meta out =
     (if p = [] \<or> prefix p key then bind_res meta (\<lambda>m. Inr (True, out @ [(key, m)])) else Inr (True, out))"

definition keep_current :: "bytes \<Rightarrow> bytes \<Rightarrow> object_meta \<Rightarrow> (bytes \<times> object_meta) list \<Rightarrow> (bool \<times> (bytes \<times> object_meta) list) result" where
  "keep_current p key m out =
     Inr (True, if \<not> om_is_delete_marker m \<and> (p = [] \<or> prefix p key) then out @ [(key, m)] else out)"

definition list_objects_plain :: "db \<Rightarrow> bytes \<Rightarrow> bytes \<Rightarrow> (bytes \<times> object_meta) list result" where
  "list_objects_plain db b p =
     bind_res (plain_loop b (keep_plain p) (iter_from (object_prefix b) db) []) (\<lambda>(_, out). Inr out)"

definition list_objects :: "db \<Rightarrow> bytes \<Rightarrow> bytes \<Rightarrow> (bytes \<times> object_meta) list result" where
  "list_objects db b p =
     bind_res (bucket_versioning db b) (\<lambda>v.
       if v = Off then list_objects_plain db b p
       else bind_res (versioned_loop b (keep_current p) (iter_from (object_prefix b) db) no_group []) (\<lambda>(_, out). Inr out))"

fun entries_loop :: "db \<Rightarrow> (bytes \<times> bytes option \<times> object_meta) list result" where
  "entries_loop [] = Inr []"
| "entries_loop ((k, v) # it) =
     bind_res (parse_object_version_key k) (\<lambda>(_, key, vk).
     bind_res (decode_object v) (\<lambda>m.
     bind_res (entries_loop it) (\<lambda>out. Inr ((key, vk, m) # out))))"

definition list_object_entries :: "db \<Rightarrow> bytes \<Rightarrow> (bytes \<times> bytes option \<times> object_meta) list result" where
  "list_object_entries db b = entries_loop (scan_prefix db (object_prefix b))"

text \<open>The raw scan in pages: the cursor is the last entry returned.\<close>

fun entries_page_loop ::
  "bytes \<Rightarrow> bytes option \<Rightarrow> nat \<Rightarrow> db \<Rightarrow> (bytes \<times> bytes option \<times> object_meta) list \<Rightarrow>
    ((bytes \<times> bytes option \<times> object_meta) list \<times> bool) result" where
  "entries_page_loop b skip limit [] out = Inr (out, True)"
| "entries_page_loop b skip limit ((k, v) # it) out =
     (if \<not> prefix (object_prefix b) k then Inr (out, True)
      else if out = [] \<and> skip = Some k then entries_page_loop b skip limit it out
      else if limit \<le> length out then Inr (out, False)
      else bind_res (parse_object_version_key k) (\<lambda>(_, key, vk).
        bind_res (decode_object v) (\<lambda>m. entries_page_loop b skip limit it (out @ [(key, vk, m)]))))"

definition scan_object_entries_page ::
  "db \<Rightarrow> bytes \<Rightarrow> (bytes \<times> bytes option) option \<Rightarrow> nat \<Rightarrow> ((bytes \<times> bytes option \<times> object_meta) list \<times> bool) result" where
  "scan_object_entries_page db b cursor limit =
     (let start = (case cursor of
            Some (key, Some vk) \<Rightarrow> object_version_key b key vk
          | Some (key, None) \<Rightarrow> object_key b key
          | None \<Rightarrow> object_prefix b)
      in entries_page_loop b (if cursor = None then None else Some start) (max limit 1) (iter_from start db) [])"


section \<open>Following cursors\<close>

text \<open>A client asks for pages until one is not truncated, passing on the cursor of each.\<close>

fun follow :: "('c option \<Rightarrow> 'r result) \<Rightarrow> ('r \<Rightarrow> bool) \<Rightarrow> ('r \<Rightarrow> 'c option) \<Rightarrow> nat \<Rightarrow> 'c option \<Rightarrow> 'r list option" where
  "follow page again nxt 0 c = None"
| "follow page again nxt (Suc f) c =
     (case page c of
        Inl _ \<Rightarrow> None
      | Inr r \<Rightarrow> if again r then map_option ((#) r) (follow page again nxt f (nxt r)) else Some [r])"

text \<open>
  What a paged listing promises: its entries in one order, a page holds the next ones after the cursor
  and tells whether there are more.
\<close>

locale paged_listing =
  fixes ok :: "'s \<Rightarrow> bool"
    and entries :: "'s \<Rightarrow> 'e list"
    and cursor :: "'e \<Rightarrow> 'c"
    and page :: "'s \<Rightarrow> nat \<Rightarrow> 'c option \<Rightarrow> 'r result"
    and render :: "'e list \<Rightarrow> bool \<Rightarrow> 'r"
    and again :: "'r \<Rightarrow> bool"
    and nxt :: "'r \<Rightarrow> 'c option"
  assumes page_first: "ok s \<Longrightarrow> 0 < n \<Longrightarrow> page s n None = Inr (render (take n (entries s)) (n < length (entries s)))"
    and page_after: "ok s \<Longrightarrow> 0 < n \<Longrightarrow> entries s = xs @ e # ys \<Longrightarrow>
      page s n (Some (cursor e)) = Inr (render (take n ys) (n < length ys))"
    and again_render: "again (render es t) = t"
    and nxt_render: "es \<noteq> [] \<Longrightarrow> nxt (render es t) = Some (cursor (last es))"
begin

definition reached :: "'s \<Rightarrow> 'c option \<Rightarrow> 'e list \<Rightarrow> bool" where
  "reached s c rest \<longleftrightarrow> c = None \<and> rest = entries s \<or> (\<exists>xs e. entries s = xs @ e # rest \<and> c = Some (cursor e))"

lemma page_at: "ok s \<Longrightarrow> 0 < n \<Longrightarrow> reached s c rest \<Longrightarrow> page s n c = Inr (render (take n rest) (n < length rest))"
  using page_first page_after by (auto simp: reached_def)

lemma at_next:
  assumes "reached s c rest" "0 < n" "n < length rest"
  shows "reached s (Some (cursor (last (take n rest)))) (drop n rest)"
proof -
  have ne: "take n rest \<noteq> []" using assms(2,3) by (cases rest) auto
  obtain pre where "entries s = pre @ rest" using assms(1) by (auto simp: reached_def)
  also have "rest = butlast (take n rest) @ last (take n rest) # drop n rest"
    using ne by (metis append_take_drop_id append_butlast_last_id append.assoc append_Cons append_Nil)
  finally have "entries s = (pre @ butlast (take n rest)) @ last (take n rest) # drop n rest" by simp
  then show ?thesis unfolding reached_def by blast
qed

text \<open>Following the cursors sees every entry once and in order, and ends.\<close>

lemma follow_from:
  assumes "ok s" "0 < n" "reached s c rest" "length rest < f"
  shows "\<exists>rs. follow (page s n) again nxt f c = Some (map (\<lambda>(es, t). render es t) rs) \<and> concat (map fst rs) = rest \<and>
    (\<forall>(es, t) \<in> set rs. length es \<le> n)"
  using assms(3,4)
proof (induction f arbitrary: c rest)
  case (Suc f)
  have p: "page s n c = Inr (render (take n rest) (n < length rest))" by (rule page_at [OF assms(1,2) Suc.prems(1)])
  show ?case
  proof (cases "n < length rest")
    case True
    then have ne: "take n rest \<noteq> []" using assms(2) by (cases rest) auto
    have "length (drop n rest) < f" using Suc.prems(2) True assms(2) by simp
    from Suc.IH [OF at_next [OF Suc.prems(1) assms(2) True] this]
    obtain rs where rs: "follow (page s n) again nxt f (Some (cursor (last (take n rest)))) = Some (map (\<lambda>(es, t). render es t) rs)"
      "concat (map fst rs) = drop n rest" "\<forall>(es, t) \<in> set rs. length es \<le> n" by blast
    then show ?thesis using True ne
      by (intro exI [of _ "(take n rest, True) # rs"]) (simp add: p again_render nxt_render)
  next
    case False
    then show ?thesis by (intro exI [of _ "[(take n rest, False)]"]) (simp add: p again_render)
  qed
qed simp

lemma follow_all:
  assumes "ok s" "0 < n" "length (entries s) < f"
  shows "\<exists>rs. follow (page s n) again nxt f None = Some (map (\<lambda>(es, t). render es t) rs) \<and>
    concat (map fst rs) = entries s \<and> (\<forall>(es, t) \<in> set rs. length es \<le> n)"
  by (rule follow_from [OF assms(1,2) _ assms(3)]) (simp add: reached_def)

end

section \<open>The entries of a bucket\<close>

type_synonym ref = "bytes \<times> bytes option \<times> object_meta"

definition raw :: "bytes \<Rightarrow> ref \<Rightarrow> bytes \<times> stored" where
  "raw b = (\<lambda>(k, v, m). (object_ref_key (b, k, v), VObject m))"

definition refs_of :: "db \<Rightarrow> bytes \<Rightarrow> ref list \<Rightarrow> bool" where
  "refs_of db b R \<longleftrightarrow> scan_prefix db (object_prefix b) = map (raw b) R \<and>
     (\<forall>(k, v, m) \<in> set R. object_ref_ok (b, k, v)) \<and>
     sorted_wrt (\<lambda>x y. fst (raw b x) < fst (raw b y)) R \<and>
     (\<forall>k v m. (k, v, m) \<in> set R \<longleftrightarrow> object_ref_ok (b, k, v) \<and> kv_get db (object_ref_key (b, k, v)) = Some (VObject m))"

lemma prefix_object_ref: "prefix (object_prefix b) (object_ref_key (b, k, v))"
  by (cases v) (simp_all add: object_ref_key_def object_version_key_def object_key_def object_prefix_def)

lemma prefix_object_family: "prefix PREFIX_OBJECT (object_prefix b)"
  by (simp add: object_prefix_def)

lemma refs_exist:
  assumes "objects_ok db" "name_ok b"
  shows "\<exists>R. refs_of db b R"
proof -
  let ?s = "scan_prefix db (object_prefix b)"
  have wf: "kv_wf db" using assms(1) by (simp add: objects_ok_def)
  have set: "set ?s = {(q, v). kv_get db q = Some v \<and> prefix (object_prefix b) q}"
    using wf by (rule store.set_scan)
  have "\<exists>r. x = raw b r \<and> object_ref_ok (b, fst r, fst (snd r))" if x: "x \<in> set ?s" for x
  proof -
    obtain q v where q: "x = (q, v)" "kv_get db q = Some v" "prefix (object_prefix b) q" using x set by auto
    then have "prefix PREFIX_OBJECT q" using prefix_object_family prefix_order.trans by blast
    then obtain y m where y: "object_ref_ok y" "q = object_ref_key y" "v = VObject m" using objects_okD [OF assms(1) q(2)] by blast
    obtain b' k w where ye: "y = (b', k, w)" by (cases y)
    have "b' = b" using scan_exact [of b b' k w] y(1,2) q(3) assms(2) by (simp add: ye name_ok_def)
    then show ?thesis using y q by (intro exI [of _ "(k, w, m)"]) (simp add: raw_def ye)
  qed
  then obtain f where f: "\<And>x. x \<in> set ?s \<Longrightarrow> x = raw b (f x) \<and> object_ref_ok (b, fst (f x), fst (snd (f x)))" by metis
  define R where "R = map f ?s"
  have m: "?s = map (raw b) R" using f by (simp add: R_def map_idI [symmetric] cong: map_cong)
  have okR: "\<forall>(k, v, m) \<in> set R. object_ref_ok (b, k, v)"
  proof
    fix r assume "r \<in> set R"
    then obtain x where "x \<in> set ?s" "r = f x" by (auto simp: R_def)
    then show "case r of (k, v, m) \<Rightarrow> object_ref_ok (b, k, v)" using f [of x] by (simp add: case_prod_beta)
  qed
  have "sorted_wrt (<) (map fst (map (raw b) R))" using store.sorted_scan [OF wf] m by metis
  then have s: "sorted_wrt (\<lambda>x y. fst (raw b x) < fst (raw b y)) R" by (simp add: sorted_wrt_map)
  have "(k, v, mm) \<in> set R \<longleftrightarrow> object_ref_ok (b, k, v) \<and> kv_get db (object_ref_key (b, k, v)) = Some (VObject mm)" for k v mm
  proof
    assume "(k, v, mm) \<in> set R"
    moreover from this have "raw b (k, v, mm) \<in> set ?s" using m by force
    ultimately show "object_ref_ok (b, k, v) \<and> kv_get db (object_ref_key (b, k, v)) = Some (VObject mm)"
      using okR set by (auto simp: raw_def)
  next
    assume a: "object_ref_ok (b, k, v) \<and> kv_get db (object_ref_key (b, k, v)) = Some (VObject mm)"
    then have "raw b (k, v, mm) \<in> set (map (raw b) R)" using set m prefix_object_ref by (auto simp: raw_def)
    then obtain r where r: "r \<in> set R" "raw b r = raw b (k, v, mm)" by auto
    obtain k' v' m' where re: "r = (k', v', m')" by (cases r)
    have "object_ref_ok (b, k', v')" using okR r(1) re by auto
    then have "(b, k', v') = (b, k, v)"
      using a r(2) object_keys.build_inject [of "(b, k', v')" "(b, k, v)"] by (simp add: raw_def re)
    then show "(k, v, mm) \<in> set R" using r re by (simp add: raw_def)
  qed
  with m okR s show ?thesis unfolding refs_of_def by blast
qed


section \<open>Loops over the entries\<close>

text \<open>Both scans come down to offering the keys with their metadata one by one.\<close>

fun offers :: "(bytes \<Rightarrow> object_meta \<Rightarrow> 's \<Rightarrow> (bool \<times> 's) result) \<Rightarrow> (bytes \<times> object_meta) list \<Rightarrow> 's \<Rightarrow> (bool \<times> 's) result" where
  "offers emit [] st = Inr (False, st)"
| "offers emit ((k, m) # cs) st = bind_res (emit k m st) (\<lambda>(go, st'). if go then offers emit cs st' else Inr (True, st'))"

lemma offers_append_stop: "offers emit (cs @ ds) st = bind_res (offers emit cs st) (\<lambda>(stop, st'). if stop then Inr (True, st') else offers emit ds st')"
  by (induction cs arbitrary: st) (auto simp: bind_res_def split: sum.split)

lemma scan_from:
  assumes "refs_of db b R" "kv_wf db" "prefix (object_prefix b) start"
  shows "takeWhile (\<lambda>(k, _). prefix (object_prefix b) k) (iter_from start db) = map (raw b) (filter (\<lambda>r. \<not> fst (raw b r) < start) R)"
proof -
  let ?d = "filter (\<lambda>(k, _). \<not> k < start) db"
  have "sorted_wrt (\<lambda>x y. fst x < fst y) ?d" using assms(2) by (auto simp: kv_wf_def sorted_wrt_map sorted_wrt_filter)
  moreover have "\<forall>x \<in> set ?d. object_prefix b \<le> fst x" using prefix_le [OF assms(3)] by auto
  ultimately have "takeWhile (\<lambda>(k, _). prefix (object_prefix b) k) (iter_from start db) =
      filter (\<lambda>(k, _). prefix (object_prefix b) k) ?d"
    unfolding iter_from_filter [OF assms(2)] by (rule takeWhile_prefix_filter)
  also have "\<dots> = filter (\<lambda>(k, _). \<not> k < start) (scan_prefix db (object_prefix b))"
    by (simp add: scan_prefix_filter [OF assms(2)] conj_commute case_prod_beta)
  also have "\<dots> = map (raw b) (filter (\<lambda>r. \<not> fst (raw b r) < start) R)"
    using assms(1) by (simp add: refs_of_def filter_map o_def case_prod_beta)
  finally show ?thesis .
qed

lemma plain_takeWhile:
  "plain_loop b emit it st = plain_loop b emit (takeWhile (\<lambda>(k, _). prefix (object_prefix b) k) it) st"
  by (induction b emit it st rule: plain_loop.induct) (auto simp: bind_res_def split: sum.split)

lemma versioned_takeWhile:
  "versioned_loop b emit it g st = versioned_loop b emit (takeWhile (\<lambda>(k, _). prefix (object_prefix b) k) it) g st"
  by (induction b emit it g st rule: versioned_loop.induct) (auto simp: bind_res_def split: sum.split)

lemma parse_raw: "object_ref_ok (b, k, v) \<Longrightarrow> parse_object_version_key (object_ref_key (b, k, v)) = Inr (b, k, v)"
  using object_keys.parse_build [of "(b, k, v)"] by simp

lemma plain_loop_offers:
  assumes "\<forall>(k, v, m) \<in> set R. object_ref_ok (b, k, v) \<and> v = None"
  shows "plain_loop b emit (map (raw b) R) st = offers (\<lambda>k m. emit k (Inr m)) (map (\<lambda>(k, _, m). (k, m)) R) st"
  using assms by (induction R arbitrary: st)
    (auto simp: raw_def prefix_object_ref parse_object_key_def parse_raw bind_res_def split: sum.split)

text \<open>The groups the versioned scan closes, one after the other.\<close>

fun gather :: "open_group \<Rightarrow> ref list \<Rightarrow> open_group list" where
  "gather g [] = [g]"
| "gather g ((k, v, m) # R) =
     (if og_key g \<noteq> Some k then g # gather (add_entry v m (no_group\<lparr>og_key := Some k\<rparr>)) R
      else gather (add_entry v m g) R)"

definition group_current :: "open_group \<Rightarrow> (bytes \<times> object_meta) list" where
  "group_current g =
     (case og_key g of
        None \<Rightarrow> []
      | Some ck \<Rightarrow> (case d1a_pick_current (og_legacy g) (og_null g) (og_real g) of None \<Rightarrow> [] | Some (_, cm) \<Rightarrow> [(ck, cm)]))"

lemma close_group_offers: "close_group emit g st =
    bind_res (offers emit (group_current g) st) (\<lambda>(stop, st'). Inr (\<not> stop, st'))"
  by (auto simp: close_group_def group_current_def bind_res_def split: option.split sum.split)

lemma versioned_loop_offers:
  assumes "\<forall>(k, v, m) \<in> set R. object_ref_ok (b, k, v)"
  shows "versioned_loop b emit (map (raw b) R) g st = offers emit (concat (map group_current (gather g R))) st"
  using assms
proof (induction R arbitrary: g st)
  case Nil
  then show ?case by (auto simp: close_group_offers bind_res_def split: sum.split)
next
  case (Cons r R)
  obtain k v m where r: "r = (k, v, m)" by (cases r)
  with Cons.prems have "parse_object_version_key (object_ref_key (b, k, v)) = Inr (b, k, v)" by (simp add: parse_raw)
  with Cons show ?case
    by (auto simp: r raw_def prefix_object_ref close_group_offers offers_append_stop bind_res_def split: sum.split)
qed


section \<open>Order of the entries\<close>

definition vk_before :: "bytes option \<Rightarrow> bytes option \<Rightarrow> bool" where
  "vk_before v w = (case (v, w) of (None, Some _) \<Rightarrow> True | (Some x, Some y) \<Rightarrow> x < y | _ \<Rightarrow> False)"

definition before :: "ref \<Rightarrow> ref \<Rightarrow> bool" where
  "before = (\<lambda>(k, v, _) (j, w, _). escape k < escape j \<or> k = j \<and> vk_before v w)"

lemma escape_inj: "escape j = escape k \<longleftrightarrow> j = k"
  using unescape_escape by (metis Inr_inject)

lemma escape_tail_order:
  assumes "escape j < escape k" "xs = [] \<or> (\<exists>r. xs = 0 # r)"
  shows "escape j @ xs < escape k @ ys"
  using list_less_cases [OF assms(1)]
proof
  assume "\<exists>p a b u v. escape j = p @ a # u \<and> escape k = p @ b # v \<and> a < b"
  then show ?thesis by (auto simp: append_less_same)
next
  assume "\<exists>b v. escape k = escape j @ b # v"
  then obtain b v where k: "escape k = escape j @ b # v" by blast
  then obtain i where i: "b # v = escape i" using escape_eq_append [OF k] by blast
  then have "b \<noteq> 0" by (cases i) (auto split: if_splits)
  then have "0 < b" by (simp add: word_neq_0_conv)
  then show ?thesis using assms(2) by (auto simp: k append_less_same)
qed

definition tail_of :: "bytes option \<Rightarrow> bytes" where
  "tail_of v = (case v of None \<Rightarrow> [] | Some vk \<Rightarrow> 0 # vk)"

lemma ref_key_tail: "object_ref_key (b, k, v) = object_prefix b @ escape k @ tail_of v"
  by (cases v) (simp_all add: object_ref_key_def object_version_key_def object_key_def object_prefix_def tail_of_def)

lemma tail_form: "tail_of v = [] \<or> (\<exists>r. tail_of v = 0 # r)"
  by (cases v) (simp_all add: tail_of_def)

lemma raw_before: "fst (raw b x) < fst (raw b y) \<longleftrightarrow> before x y"
proof -
  obtain k v m j w n where xy: "x = (k, v, m)" "y = (j, w, n)" by (cases x; cases y)
  have "fst (raw b x) < fst (raw b y) \<longleftrightarrow> escape k @ tail_of v < escape j @ tail_of w"
    by (simp add: xy raw_def ref_key_tail append_less_same)
  also have "\<dots> \<longleftrightarrow> before x y"
  proof (cases "escape k" "escape j" rule: linorder_cases)
    case less
    with escape_tail_order [OF less tail_form] show ?thesis by (simp add: before_def xy)
  next
    case equal
    then show ?thesis by (auto simp: before_def xy escape_inj append_less_same tail_of_def vk_before_def split: option.split)
  next
    case greater
    with escape_tail_order [OF greater tail_form, of w "tail_of v"] show ?thesis by (auto simp: before_def xy)
  qed
  finally show ?thesis .
qed

section \<open>Groups\<close>

definition fields :: "ref list \<Rightarrow> bytes \<Rightarrow> open_group \<Rightarrow> bool" where
  "fields P k g \<longleftrightarrow> og_key g = Some k \<and> (\<forall>m. og_legacy g = Some m \<longleftrightarrow> (k, None, m) \<in> set P) \<and>
     (\<forall>m. og_null g = Some m \<longleftrightarrow> (k, Some VK_NULL, m) \<in> set P) \<and>
     (case og_real g of
        None \<Rightarrow> \<forall>w m. (k, Some w, m) \<in> set P \<longrightarrow> w = VK_NULL
      | Some (w, m) \<Rightarrow> w \<noteq> VK_NULL \<and> (k, Some w, m) \<in> set P \<and>
          (\<forall>w' m'. (k, Some w', m') \<in> set P \<longrightarrow> w' = VK_NULL \<or> w' < w \<or> w' = w \<and> m' = m))"

lemma fields_add:
  assumes "fields P k g" "\<forall>r \<in> set P. before r (k, v, m)"
  shows "fields (P @ [(k, v, m)]) k (add_entry v m g)"
proof -
  have old: "vk_before w v" if "(k, w, n) \<in> set P" for w n using assms(2) that by (auto simp: before_def)
  show ?thesis
  proof (cases v)
    case None
    then have "(k, w, n) \<notin> set P" for w n using old [of w n] by (auto simp: vk_before_def split: option.splits)
    with None assms(1) show ?thesis by (auto simp: fields_def add_entry_def split: option.splits)
  next
    case (Some x)
    then have lt: "(k, Some w, n) \<in> set P \<Longrightarrow> w < x" for w n using old [of "Some w" n] by (simp add: vk_before_def)
    show ?thesis
    proof (cases "x = VK_NULL")
      case True
      with Some assms(1) lt show ?thesis by (auto simp: fields_def add_entry_def split: option.splits)
    next
      case False
      have "og_null g = Some n \<longleftrightarrow> (k, Some VK_NULL, n) \<in> set P" for n using assms(1) by (simp add: fields_def)
      with False Some assms(1) lt show ?thesis by (auto simp: fields_def add_entry_def split: option.splits)
    qed
  qed
qed

lemma fields_new:
  assumes "\<forall>r \<in> set P. fst r \<noteq> k"
  shows "fields (P @ [(k, v, m)]) k (add_entry v m (no_group\<lparr>og_key := Some k\<rparr>))"
  using assms by (cases v) (auto simp: fields_def add_entry_def no_group_def)

lemma fields_more: "fields P k g \<Longrightarrow> \<forall>r \<in> set R. fst r \<noteq> k \<Longrightarrow> fields (P @ R) k g"
  by (auto simp: fields_def split: option.splits)

lemma fields_cong: "(\<And>v m. (k, v, m) \<in> set P \<longleftrightarrow> (k, v, m) \<in> set Q) \<Longrightarrow> fields P k g \<longleftrightarrow> fields Q k g"
  by (simp add: fields_def split: option.split)

lemma option_eqI: "(\<And>m. x = Some m \<longleftrightarrow> y = Some m) \<Longrightarrow> x = y"
  by (cases x; cases y) auto

lemma fields_unique:
  assumes "fields P k g" "fields P k h"
  shows "g = h"
proof -
  have "og_legacy g = og_legacy h" "og_null g = og_null h"
    by (rule option_eqI, use assms in \<open>simp add: fields_def\<close>)+
  moreover have "og_real g = og_real h"
  proof (cases "og_real g")
    case None
    with assms show ?thesis by (cases "og_real h") (auto simp: fields_def)
  next
    case (Some x)
    obtain w m where x: "x = (w, m)" by (cases x)
    have g: "w \<noteq> VK_NULL" "(k, Some w, m) \<in> set P" using assms(1) Some by (simp_all add: fields_def x)
    then obtain w' m' where h: "og_real h = Some (w', m')" using assms(2) by (cases "og_real h") (auto simp: fields_def)
    then have "w < w' \<or> w = w' \<and> m = m'" using assms(2) g by (auto simp: fields_def)
    moreover have "w' < w \<or> w' = w \<and> m' = m" using assms h Some x by (auto simp: fields_def)
    ultimately show ?thesis using h Some x by auto
  qed
  moreover have "og_key g = og_key h" using assms by (simp add: fields_def)
  ultimately show ?thesis by simp
qed


definition opt_before :: "open_group \<Rightarrow> open_group \<Rightarrow> bool" where
  "opt_before g h = (case (og_key g, og_key h) of (None, Some _) \<Rightarrow> True | (Some k, Some j) \<Rightarrow> escape k < escape j | _ \<Rightarrow> False)"

lemma add_entry_key [simp]: "og_key (add_entry v m g) = og_key g"
  by (simp add: add_entry_def split: option.split)

lemma gather_key: "og_key g \<in> og_key ` set (gather g R)"
  by (induction g R rule: gather.induct) auto

lemma before_key: "before x y \<Longrightarrow> fst x \<noteq> fst y \<Longrightarrow> escape (fst x) < escape (fst y)"
  by (auto simp: before_def)

lemma before_key_le: "before x y \<Longrightarrow> escape (fst x) \<le> escape (fst y)"
  by (auto simp: before_def)

text \<open>The scan closes one group per key, with all entries of that key, in the order of the escaped keys.\<close>

lemma gather_fields:
  assumes "sorted_wrt before (P @ R)" "P = [] \<and> g = no_group \<or> P \<noteq> [] \<and> fields P (fst (last P)) g"
  shows "(\<forall>h \<in> set (gather g R). h = no_group \<or> (\<exists>k \<in> fst ` set (P @ R). fields (P @ R) k h)) \<and>
    sorted_wrt opt_before (gather g R) \<and> (\<forall>h \<in> set (gather g R). og_key h = og_key g \<or> opt_before g h) \<and>
    Some ` fst ` set R \<subseteq> og_key ` set (gather g R)"
  using assms
proof (induction R arbitrary: P g)
  case Nil
  then show ?case by (cases "P = []") (auto intro!: bexI [of _ "last P"])
next
  case (Cons r R)
  obtain k v m where r: "r = (k, v, m)" by (cases r)
  have srt: "sorted_wrt before ((P @ [r]) @ R)" using Cons.prems(1) by simp
  have bef: "\<forall>x \<in> set P. before x r" using Cons.prems(1) by (auto simp: sorted_wrt_append)
  have aft: "\<forall>x \<in> set R. before r x" using Cons.prems(1) by (auto simp: sorted_wrt_append)
  show ?case
  proof (cases "og_key g = Some k")
    case True
    then have P: "P \<noteq> []" "fst (last P) = k" "fields P k g" using Cons.prems(2) by (auto simp: no_group_def fields_def)
    have "fields (P @ [r]) k (add_entry v m g)" unfolding r using bef by (intro fields_add [OF P(3)]) (simp add: r)
    with Cons.IH [OF srt, of "add_entry v m g"] gather_key [of "add_entry v m g" R] show ?thesis
      using True by (simp add: r opt_before_def)
  next
    case False
    let ?n = "add_entry v m (no_group\<lparr>og_key := Some k\<rparr>)"
    have new: "\<forall>x \<in> set P. fst x \<noteq> k"
    proof
      fix x assume x: "x \<in> set P"
      then have P: "P \<noteq> []" "og_key g = Some (fst (last P))" using Cons.prems(2) by (auto simp: fields_def)
      have "before (last P) r" using bef P(1) by simp
      then have lt: "escape (fst (last P)) < escape k" using before_key [of "last P" r] False P(2) by (auto simp: r)
      have "sorted_wrt before (butlast P @ [last P])" using Cons.prems(1) P(1) by (simp add: sorted_wrt_append)
      moreover have "x \<in> set (butlast P @ [last P])" using x P(1) by simp
      ultimately have "x = last P \<or> before x (last P)" by (auto simp: sorted_wrt_append)
      then have "escape (fst x) \<le> escape (fst (last P))" using before_key_le [of x "last P"] by auto
      with lt show "fst x \<noteq> k" by auto
    qed
    have f: "fields (P @ [r]) k ?n" unfolding r by (rule fields_new [OF new])
    have ih: "(\<forall>h \<in> set (gather ?n R). h = no_group \<or> (\<exists>k \<in> fst ` set ((P @ [r]) @ R). fields ((P @ [r]) @ R) k h)) \<and>
      sorted_wrt opt_before (gather ?n R) \<and> (\<forall>h \<in> set (gather ?n R). og_key h = og_key ?n \<or> opt_before ?n h) \<and>
      Some ` fst ` set R \<subseteq> og_key ` set (gather ?n R)"
      using f by (intro Cons.IH [OF srt]) (simp add: r)
    have gk: "og_key g = None \<or> (\<exists>j. og_key g = Some j \<and> escape j < escape k)"
    proof (cases "P = []")
      case True
      with Cons.prems(2) show ?thesis by (simp add: no_group_def)
    next
      case ne: False
      with Cons.prems(2) have j: "og_key g = Some (fst (last P))" by (simp add: fields_def)
      have "before (last P) r" using bef ne by simp
      then show ?thesis using before_key [of "last P" r] new ne j by (auto simp: r)
    qed
    have later: "\<forall>x \<in> set (r # R). fst x \<noteq> fst (last P)" if ne: "P \<noteq> []"
    proof
      fix x assume "x \<in> set (r # R)"
      then have "escape k \<le> escape (fst x)" using aft before_key_le [of r x] by (auto simp: r)
      moreover have "escape (fst (last P)) < escape k" using before_key [of "last P" r] bef new ne by (auto simp: r)
      ultimately show "fst x \<noteq> fst (last P)" by auto
    qed
    have g: "g = no_group \<or> (\<exists>k \<in> fst ` set (P @ r # R). fields (P @ r # R) k g)"
    proof (cases "P = []")
      case True
      with Cons.prems(2) show ?thesis by simp
    next
      case ne: False
      with Cons.prems(2) fields_more [OF _ later [OF ne]] have "fields (P @ r # R) (fst (last P)) g" by simp
      moreover have "fst (last P) \<in> fst ` set (P @ r # R)" using ne by simp
      ultimately show ?thesis by blast
    qed
    have ob: "opt_before g h" if "h \<in> set (gather ?n R)" for h
    proof -
      have "og_key h = Some k \<or> opt_before ?n h" using ih that by auto
      then show ?thesis using gk by (auto simp: opt_before_def no_group_def split: option.splits)
    qed
    have split: "gather g (r # R) = g # gather ?n R" using False by (simp add: r)
    have "Some ` fst ` set (r # R) \<subseteq> og_key ` set (g # gather ?n R)"
      using ih gather_key [of ?n R] by (simp add: r subset_insertI2)
    with ih g ob show ?thesis unfolding split by simp
  qed
qed


section \<open>The visible objects\<close>

definition currents :: "ref list \<Rightarrow> (bytes \<times> object_meta) list" where
  "currents R = concat (map group_current (gather no_group R))"

definition picked :: "open_group \<Rightarrow> object_meta option" where
  "picked g = map_option snd (d1a_pick_current (og_legacy g) (og_null g) (og_real g))"

lemma group_current_set: "(k, m) \<in> set (group_current g) \<longleftrightarrow> og_key g = Some k \<and> picked g = Some m"
  by (cases "og_key g"; cases "d1a_pick_current (og_legacy g) (og_null g) (og_real g)") (auto simp: group_current_def picked_def)

lemma currents_set:
  assumes "sorted_wrt before R"
  shows "(k, m) \<in> set (currents R) \<longleftrightarrow> k \<in> fst ` set R \<and> (\<exists>g. fields R k g \<and> picked g = Some m)"
proof -
  have g: "(\<forall>h \<in> set (gather no_group R). h = no_group \<or> (\<exists>k \<in> fst ` set R. fields R k h)) \<and>
    Some ` fst ` set R \<subseteq> og_key ` set (gather no_group R)"
    using gather_fields [of "[]" R no_group] assms by simp
  have "(k, m) \<in> set (currents R) \<longleftrightarrow> (\<exists>h \<in> set (gather no_group R). og_key h = Some k \<and> picked h = Some m)"
    by (auto simp: currents_def group_current_set)
  also have "\<dots> \<longleftrightarrow> k \<in> fst ` set R \<and> (\<exists>h. fields R k h \<and> picked h = Some m)"
  proof
    assume "\<exists>h \<in> set (gather no_group R). og_key h = Some k \<and> picked h = Some m"
    then obtain h where h: "h \<in> set (gather no_group R)" "og_key h = Some k" "picked h = Some m" by blast
    then have "h \<noteq> no_group" by (auto simp: no_group_def)
    with g h(1) obtain j where "j \<in> fst ` set R" "fields R j h" by blast
    with h show "k \<in> fst ` set R \<and> (\<exists>h. fields R k h \<and> picked h = Some m)" by (auto simp: fields_def)
  next
    assume a: "k \<in> fst ` set R \<and> (\<exists>h. fields R k h \<and> picked h = Some m)"
    then obtain h where h: "fields R k h" "picked h = Some m" by blast
    from a g have "Some k \<in> og_key ` set (gather no_group R)" by blast
    then obtain h' where h': "h' \<in> set (gather no_group R)" "og_key h' = Some k" by force
    then have "h' \<noteq> no_group" by (auto simp: no_group_def)
    with g h' obtain j where "fields R j h'" by blast
    then have "fields R k h'" using h' by (simp add: fields_def)
    then have "h' = h" using fields_unique h(1) by blast
    with h h' show "\<exists>h \<in> set (gather no_group R). og_key h = Some k \<and> picked h = Some m" by blast
  qed
  finally show ?thesis .
qed

lemma currents_sorted:
  assumes "sorted_wrt before R"
  shows "sorted_wrt (\<lambda>x y. escape (fst x) < escape (fst y)) (currents R)"
proof -
  have "sorted_wrt opt_before (gather no_group R)" using gather_fields [of "[]" R no_group] assms by simp
  moreover have "sorted_wrt opt_before G \<Longrightarrow> sorted_wrt (\<lambda>x y. escape (fst x) < escape (fst y)) (concat (map group_current G))" for G
  proof (induction G)
    case (Cons g G)
    have "sorted_wrt (\<lambda>x y. escape (fst x) < escape (fst y)) (group_current g)"
      by (simp add: group_current_def split: option.split)
    moreover have "escape (fst x) < escape (fst y)" if "x \<in> set (group_current g)" "y \<in> set (group_current h)" "h \<in> set G" for x y h
      using that Cons.prems group_current_set [of "fst x" "snd x" g] group_current_set [of "fst y" "snd y" h] by (auto simp: opt_before_def)
    ultimately show ?case using Cons by (auto simp: sorted_wrt_append)
  qed simp
  ultimately show ?thesis by (simp add: currents_def)
qed

text \<open>What a read of the key answers.\<close>

lemma fields_read:
  assumes "objects_ok db" "name_ok b" "refs_of db b R" "fields R k g" "utf8_valid k"
  shows "get_current_version db b k = Inr (d1a_pick_current (og_legacy g) (og_null g) (og_real g))"
    "kv_get db (object_key b k) = map_option VObject (og_legacy g)"
proof -
  have addr: "addr_ok b k" using assms(2,5) by (simp add: addr_ok_def)
  have mem: "(k, v, m) \<in> set R \<longleftrightarrow> object_ref_ok (b, k, v) \<and> kv_get db (object_ref_key (b, k, v)) = Some (VObject m)" for v m
    using assms(3) by (simp add: refs_of_def)
  have ref: "object_ref_ok (b, k, v) \<longleftrightarrow> (case v of None \<Rightarrow> True | Some vk \<Rightarrow> length vk = 16)" for v
    using addr by (simp add: object_ref_ok_def addr_ok_def)
  have none: "(k, None, m) \<in> set R \<longleftrightarrow> kv_get db (object_key b k) = Some (VObject m)" for m
    by (simp add: mem ref object_ref_key_def)
  have some: "(k, Some w, m) \<in> set R \<longleftrightarrow> length w = 16 \<and> kv_get db (object_version_key b k w) = Some (VObject m)" for w m
    by (simp add: mem ref object_ref_key_def)
  have obj: "kv_get db (object_version_key b k w) = Some x \<Longrightarrow> \<exists>m. x = VObject m" for w x
    using version_entries [OF assms(1) addr _ version_key_prefix] by blast
  have legacy: "kv_get db (object_key b k) = map_option VObject (og_legacy g)"
    using get_object_char [OF assms(1) addr] assms(4) none by (cases "og_legacy g") (auto simp: fields_def)
  have "kv_get db (object_version_key b k VK_NULL) = map_option VObject (og_null g)"
    using get_version_char [OF assms(1) addr, of VK_NULL] assms(4) some [of VK_NULL] by (cases "og_null g") (auto simp: fields_def length_VK_NULL)
  moreover have "case og_real g of
      None \<Rightarrow> \<forall>vk. length vk = 16 \<longrightarrow> vk \<noteq> VK_NULL \<longrightarrow> kv_get db (object_version_key b k vk) = None
    | Some (w, m) \<Rightarrow> length w = 16 \<and> w \<noteq> VK_NULL \<and> kv_get db (object_version_key b k w) = Some (VObject m) \<and>
        (\<forall>vk. length vk = 16 \<longrightarrow> vk \<noteq> VK_NULL \<longrightarrow> kv_get db (object_version_key b k vk) \<noteq> None \<longrightarrow> vk \<le> w)"
  proof (cases "og_real g")
    case None
    then have "\<And>w m. (k, Some w, m) \<in> set R \<Longrightarrow> w = VK_NULL" using assms(4) by (auto simp: fields_def)
    then have "kv_get db (object_version_key b k vk) = None" if "length vk = 16" "vk \<noteq> VK_NULL" for vk
      using that some [of vk] obj [of vk] by (cases "kv_get db (object_version_key b k vk)") auto
    then show ?thesis by (simp add: None)
  next
    case (Some y)
    obtain w m where y: "y = (w, m)" by (cases y)
    have "w \<noteq> VK_NULL" "(k, Some w, m) \<in> set R" and mx: "\<And>w' m'. (k, Some w', m') \<in> set R \<Longrightarrow> w' = VK_NULL \<or> w' < w \<or> w' = w \<and> m' = m"
      using assms(4) Some by (auto simp: fields_def y)
    moreover have "vk \<le> w" if vk: "length vk = 16" "vk \<noteq> VK_NULL" "kv_get db (object_version_key b k vk) \<noteq> None" for vk
    proof -
      obtain m' where "kv_get db (object_version_key b k vk) = Some (VObject m')" using vk(3) obj by blast
      then have "(k, Some vk, m') \<in> set R" using vk(1) some by simp
      then show ?thesis using mx vk(2) by (auto intro: less_imp_le)
    qed
    ultimately show ?thesis using some by (simp add: Some y)
  qed
  ultimately have "tip_is db b k (og_null g) (og_real g)" by (simp add: tip_is_def)
  then show "get_current_version db b k = Inr (d1a_pick_current (og_legacy g) (og_null g) (og_real g))"
    by (rule current_of [OF assms(1) addr _ legacy])
  show "kv_get db (object_key b k) = map_option VObject (og_legacy g)" by (rule legacy)
qed


definition visible :: "versioning_state \<Rightarrow> ref list \<Rightarrow> (bytes \<times> object_meta) list" where
  "visible v R = (if v = Off then map (\<lambda>(k, _, m). (k, m)) R else filter (\<lambda>(_, m). \<not> om_is_delete_marker m) (currents R))"

lemma sorted_before_filter: "sorted_wrt before R \<Longrightarrow> sorted_wrt before (filter Q R)"
  by (simp add: sorted_wrt_filter)

lemma visible_filter:
  assumes "sorted_wrt before R"
  shows "visible v (filter (\<lambda>r. Q (fst r)) R) = filter (\<lambda>x. Q (fst x)) (visible v R)"
proof -
  let ?F = "filter (\<lambda>r. Q (fst r)) R"
  have srt: "sorted_wrt before ?F" using assms by (rule sorted_before_filter)
  have "x \<in> set (currents ?F) \<longleftrightarrow> x \<in> set (currents R) \<and> Q (fst x)" for x
  proof -
    obtain k m where x: "x = (k, m)" by (cases x)
    have "fields ?F k g \<longleftrightarrow> fields R k g" if "Q k" for g using that by (intro fields_cong) auto
    then show ?thesis unfolding x currents_set [OF srt] currents_set [OF assms] by force
  qed
  then have "currents ?F = filter (\<lambda>x. Q (fst x)) (currents R)"
    using currents_sorted [OF srt] currents_sorted [OF assms]
    by (intro sorted_key_unique [of "\<lambda>x. escape (fst x)"]) (auto simp: sorted_wrt_filter)
  then show ?thesis by (simp add: visible_def filter_map o_def case_prod_beta conj_commute)
qed

lemma from_start: "fst (raw b r) < object_prefix b @ escape a \<longleftrightarrow> escape (fst r) < escape a"
proof -
  obtain k v m where r: "r = (k, v, m)" by (cases r)
  have "fst (raw b r) < object_prefix b @ escape a \<longleftrightarrow> escape k @ tail_of v < escape a"
    by (simp add: r raw_def ref_key_tail append_less_same)
  also have "\<dots> \<longleftrightarrow> escape k < escape a"
  proof (cases "escape k" "escape a" rule: linorder_cases)
    case less
    with escape_tail_order [OF less tail_form, of v "[]"] show ?thesis by simp
  next
    case equal
    then show ?thesis using append_less_same [of "escape a" "tail_of v" "[]"] by simp
  next
    case greater
    with escape_tail_order [OF greater, of "[]" "tail_of v"] show ?thesis by auto
  qed
  finally show ?thesis by (simp add: r)
qed

text \<open>Both scans offer the visible objects from the cursor on.\<close>

definition from_cursor :: "bytes option \<Rightarrow> bytes \<Rightarrow> bool" where
  "from_cursor after k = (case after of None \<Rightarrow> True | Some a \<Rightarrow> \<not> escape k < escape a)"

lemma from_cursor_refs:
  assumes "refs_of db b R" "kv_wf db"
  shows "takeWhile (\<lambda>(k, _). prefix (object_prefix b) k) (iter_from (page_start b after) db) =
    map (raw b) (filter (\<lambda>r. from_cursor after (fst r)) R)"
proof -
  have "prefix (object_prefix b) (page_start b after)" by (simp add: page_start_def)
  moreover have "\<not> object_prefix b @ x < object_prefix b" for x using append_less_same [of "object_prefix b" x "[]"] by simp
  then have "(\<not> fst (raw b r) < page_start b after) = from_cursor after (fst r)" for r
    by (cases after) (simp_all add: page_start_def from_cursor_def from_start, simp add: raw_def ref_key_tail split: prod.split)
  ultimately show ?thesis using scan_from [OF assms] by simp
qed

definition clean :: "versioning_state \<Rightarrow> ref list \<Rightarrow> bool" where
  "clean v R \<longleftrightarrow> (v = Off \<longrightarrow> (\<forall>(_, vk, m) \<in> set R. vk = None \<and> \<not> om_is_delete_marker m))"

lemma offers_skip:
  assumes "\<And>k m st. \<not> P m \<Longrightarrow> f k m st = Inr (True, st)" "\<And>k m st. P m \<Longrightarrow> f k m st = h k m st"
  shows "offers f cs st = offers h (filter (\<lambda>(_, m). P m) cs) st"
  using assms by (induction cs arbitrary: st) (auto simp: bind_res_def split: sum.split)

lemma plain_visible:
  assumes "refs_of db b R" "kv_wf db" "clean Off R"
  shows "plain_loop b emit (iter_from (page_start b after) db) st =
    offers (\<lambda>k m. emit k (Inr m)) (filter (\<lambda>x. from_cursor after (fst x)) (visible Off R)) st"
proof -
  let ?F = "filter (\<lambda>r. from_cursor after (fst r)) R"
  have "\<forall>(k, v, m) \<in> set ?F. object_ref_ok (b, k, v) \<and> v = None"
  proof
    fix r assume "r \<in> set ?F"
    then have "r \<in> set R" by simp
    moreover have "\<forall>(k, v, m) \<in> set R. object_ref_ok (b, k, v)" using assms(1) by (simp add: refs_of_def)
    ultimately show "case r of (k, v, m) \<Rightarrow> object_ref_ok (b, k, v) \<and> v = None" using assms(3) by (fastforce simp: clean_def)
  qed
  then have "plain_loop b emit (iter_from (page_start b after) db) st = offers (\<lambda>k m. emit k (Inr m)) (map (\<lambda>(k, _, m). (k, m)) ?F) st"
    by (subst plain_takeWhile) (simp add: from_cursor_refs [OF assms(1,2)] plain_loop_offers)
  then show ?thesis by (simp add: visible_def filter_map o_def case_prod_beta)
qed

lemma versioned_visible:
  assumes "refs_of db b R" "kv_wf db" "v \<noteq> Off"
    "\<And>k m st. om_is_delete_marker m \<Longrightarrow> emit k m st = Inr (True, st)" "\<And>k m st. \<not> om_is_delete_marker m \<Longrightarrow> emit k m st = h k m st"
  shows "versioned_loop b emit (iter_from (page_start b after) db) no_group st =
    offers h (filter (\<lambda>x. from_cursor after (fst x)) (visible v R)) st"
proof -
  let ?F = "filter (\<lambda>r. from_cursor after (fst r)) R"
  have srt: "sorted_wrt before R" using assms(1) by (simp add: refs_of_def raw_before)
  have "\<forall>(k, v, m) \<in> set R. object_ref_ok (b, k, v)" using assms(1) by (simp add: refs_of_def)
  then have "\<forall>(k, v, m) \<in> set ?F. object_ref_ok (b, k, v)" by auto
  then have "versioned_loop b emit (iter_from (page_start b after) db) no_group st = offers emit (currents ?F) st"
    by (subst versioned_takeWhile) (simp add: from_cursor_refs [OF assms(1,2)] versioned_loop_offers currents_def)
  also have "\<dots> = offers h (filter (\<lambda>(_, m). \<not> om_is_delete_marker m) (currents ?F)) st"
    using assms(4,5) by (intro offers_skip) simp_all
  also have "filter (\<lambda>(_, m). \<not> om_is_delete_marker m) (currents ?F) = visible v ?F" using assms(3) by (simp add: visible_def)
  also have "\<dots> = filter (\<lambda>x. from_cursor after (fst x)) (visible v R)" by (rule visible_filter [OF srt])
  finally show ?thesis .
qed

lemma page_offers:
  assumes "refs_of db b R" "kv_wf db" "clean v R" "bucket_versioning db b = Inr v"
  shows "list_objects_page db b p d after mx =
    bind_res (offers (\<lambda>k m. offer p d after mx k (Inr m)) (filter (\<lambda>x. from_cursor after (fst x)) (visible v R)) new_lister)
      (\<lambda>r. Inr (finish_page r))"
proof (cases "v = Off")
  case True
  with assms show ?thesis by (simp add: list_objects_page_def list_objects_page_plain_def plain_visible)
next
  case False
  have "versioned_loop b (emit_current p d after mx) (iter_from (page_start b after) db) no_group new_lister =
      offers (\<lambda>k m. offer p d after mx k (Inr m)) (filter (\<lambda>x. from_cursor after (fst x)) (visible v R)) new_lister"
    by (rule versioned_visible [OF assms(1,2) False]) (simp_all add: emit_current_def)
  with False assms(4) show ?thesis by (simp add: list_objects_page_def list_objects_page_versioned_def)
qed

lemma offers_keep:
  assumes "\<And>k m out. f k m out = Inr (True, if p = [] \<or> prefix p k then out @ [(k, m)] else out)"
  shows "offers f cs out = Inr (False, out @ filter (\<lambda>(k, _). prefix p k) cs)"
  using assms by (induction cs arbitrary: out) auto

lemma list_objects_visible:
  assumes "refs_of db b R" "kv_wf db" "clean v R" "bucket_versioning db b = Inr v"
  shows "list_objects db b p = Inr (filter (\<lambda>(k, _). prefix p k) (visible v R))"
proof -
  have st: "object_prefix b = page_start b None" by (simp add: page_start_def)
  show ?thesis
  proof (cases "v = Off")
    case True
    have "offers (\<lambda>k m. keep_plain p k (Inr m)) cs [] = Inr (False, filter (\<lambda>(k, _). prefix p k) cs)" for cs
      using offers_keep [of "\<lambda>k m. keep_plain p k (Inr m)" p cs "[]"] by (simp add: keep_plain_def)
    with True assms plain_visible [OF assms(1,2), of "keep_plain p" None "[]"] show ?thesis
      by (simp add: list_objects_def list_objects_plain_def st from_cursor_def)
  next
    case False
    define h where "h = (\<lambda>k m (out :: (bytes \<times> object_meta) list). Inr (True, if p = [] \<or> prefix p k then out @ [(k, m)] else out) :: (bool \<times> (bytes \<times> object_meta) list) result)"
    have "versioned_loop b (keep_current p) (iter_from (page_start b None) db) no_group [] =
        offers h (filter (\<lambda>x. from_cursor None (fst x)) (visible v R)) []"
      by (rule versioned_visible [OF assms(1,2) False]) (simp_all add: keep_current_def h_def)
    moreover have "offers h cs [] = Inr (False, filter (\<lambda>(k, _). prefix p k) cs)" for cs
      using offers_keep [of h p cs "[]"] by (simp add: h_def)
    ultimately show ?thesis using False assms(4) by (simp add: list_objects_def st from_cursor_def)
  qed
qed

end
