(* ===== verification/Listing_Pages.thy ===== *)
theory Listing_Pages
  imports Listing
begin

text \<open>
  The pages of a listing: entries under a delimiter are in order, a page holds the next entries after its
  cursor, and so \<^verbatim>\<open>list_objects_page\<close> and \<^verbatim>\<open>scan_object_entries_page\<close> keep the contract \<open>paged_listing\<close>.
\<close>

section \<open>The entries of a listing\<close>

text \<open>An entry is a key with its metadata, or a common prefix.\<close>

type_synonym entry = "bytes \<times> object_meta option"

definition ent :: "bytes \<Rightarrow> bytes option \<Rightarrow> bytes \<times> object_meta \<Rightarrow> entry" where
  "ent p d = (\<lambda>(k, m). (fst (entry_of p d k), if snd (entry_of p d k) then None else Some m))"

fun fresh :: "bytes option \<Rightarrow> entry list \<Rightarrow> entry list" where
  "fresh l [] = []"
| "fresh l (x # xs) = (if l = Some (fst x) then fresh l xs else x # fresh (Some (fst x)) xs)"

definition beyond :: "bytes option \<Rightarrow> entry \<Rightarrow> bool" where
  "beyond after x = (case after of None \<Rightarrow> True | Some a \<Rightarrow> a < fst x)"

definition items_of :: "entry list \<Rightarrow> (bytes \<times> object_meta) list" where
  "items_of es = concat (map (\<lambda>(k, m). case m of Some x \<Rightarrow> [(k, x)] | None \<Rightarrow> []) es)"

definition prefixes_of :: "entry list \<Rightarrow> bytes list" where
  "prefixes_of es = map fst (filter (\<lambda>(_, m). m = None) es)"

definition last_of :: "entry list \<Rightarrow> bytes option" where
  "last_of es = (if es = [] then None else Some (fst (last es)))"

definition lister_of :: "entry list \<Rightarrow> lister" where
  "lister_of es = \<lparr>ls_page = \<lparr>lp_items = items_of es, lp_common_prefixes = prefixes_of es, lp_truncated = False, lp_last_scanned = None\<rparr>,
     ls_entries = length es, ls_last_entry = last_of es, ls_last_emitted = last_of es\<rparr>"

definition render_page :: "entry list \<Rightarrow> bool \<Rightarrow> list_page" where
  "render_page es t = \<lparr>lp_items = items_of es, lp_common_prefixes = prefixes_of es, lp_truncated = t, lp_last_scanned = last_of es\<rparr>"

lemma entry_item: "\<not> snd (entry_of p d k) \<Longrightarrow> fst (entry_of p d k) = k"
  by (auto simp: entry_of_def Let_def split: option.splits if_splits)

lemma items_of_snoc: "items_of (es @ [(k, m)]) = items_of es @ (case m of Some x \<Rightarrow> [(k, x)] | None \<Rightarrow> [])"
  by (simp add: items_of_def)

lemma prefixes_of_snoc: "prefixes_of (es @ [(k, m)]) = prefixes_of es @ (if m = None then [k] else [])"
  by (simp add: prefixes_of_def)

lemma offer_lister:
  assumes "x = ent p d (k, m)"
  shows "offer p d after mx k (Inr m) (lister_of es) =
    (if \<not> prefix p k \<or> \<not> beyond after x \<or> last_of es = Some (fst x) then Inr (True, lister_of es)
     else if mx \<le> length es then Inr (False, lister_of es) else Inr (True, lister_of (es @ [x])))"
proof -
  obtain e i where e: "entry_of p d k = (e, i)" by fastforce
  have item: "\<not> i \<Longrightarrow> e = k" using entry_item [of p d k] by (simp add: e)
  have x: "x = (e, if i then None else Some m)" by (simp add: assms ent_def e)
  show ?thesis
    using item
    by (auto simp: offer_def e x Let_def beyond_def lister_of_def last_of_def items_of_snoc prefixes_of_snoc not_less split: option.split)
qed

lemma offers_lister:
  "offers (\<lambda>k m. offer p d after mx k (Inr m)) cs (lister_of es) =
    (let N = fresh (last_of es) (filter (beyond after) (map (ent p d) (filter (\<lambda>(k, _). prefix p k) cs)))
     in Inr (mx - length es < length N, lister_of (es @ take (mx - length es) N)))"
proof (induction cs arbitrary: es)
  case (Cons c cs)
  obtain k m where c: "c = (k, m)" by (cases c)
  define x where "x = ent p d (k, m)"
  show ?case
  proof (cases "mx \<le> length es")
    case True
    then show ?thesis using Cons [of es] by (auto simp: c offer_lister [OF x_def] Let_def simp flip: x_def)
  next
    case False
    then have "mx - length es = Suc (mx - length (es @ [x]))" by simp
    moreover have "last_of (es @ [x]) = Some (fst x)" by (simp add: last_of_def)
    ultimately show ?thesis using False Cons [of es] Cons [of "es @ [x]"]
      by (auto simp: c offer_lister [OF x_def] Let_def simp flip: x_def)
  qed
qed simp

lemma new_lister_of: "new_lister = lister_of []"
  by (simp add: new_lister_def lister_of_def empty_page_def items_of_def prefixes_of_def last_of_def)

lemma finish_lister: "finish_page (t, lister_of es) = render_page es t"
  by (simp add: finish_page_def lister_of_def render_page_def)

lemma page_entries:
  assumes "refs_of db b R" "kv_wf db" "clean v R" "bucket_versioning db b = Inr v"
  shows "list_objects_page db b p d after mx =
    (let N = fresh None (filter (beyond after) (map (ent p d) (filter (\<lambda>(k, _). prefix p k)
       (filter (\<lambda>x. from_cursor after (fst x)) (visible v R)))))
     in Inr (render_page (take mx N) (mx < length N)))"
  using offers_lister [of p d after mx _ "[]"]
  by (simp add: page_offers [OF assms] new_lister_of Let_def finish_lister last_of_def)

section \<open>Entries are in order\<close>

lemma find_sub_take: "find_sub d s = Some i \<Longrightarrow> take (length d) (drop i s) = d \<and> i + length d \<le> length s"
proof (induction d s arbitrary: i rule: find_sub.induct)
  case (2 d c r)
  show ?case
  proof (cases "prefix d (c # r)")
    case True
    then have "take (length d) (c # r) = d" "length d \<le> length (c # r)" using prefix_length_le [OF True] by (auto simp: prefix_def)
    with 2 True show ?thesis by simp
  next
    case False
    with 2 show ?thesis by auto
  qed
qed (auto split: if_splits)

lemma find_sub_prefix:
  assumes "find_sub d s = Some i" "prefix (take (i + length d) s) t"
  shows "find_sub d t = Some i"
  using assms
proof (induction d s arbitrary: i t rule: find_sub.induct)
  case (1 d t)
  then show ?case by (cases t) (auto split: if_splits)
next
  case (2 d c r)
  show ?case
  proof (cases "prefix d (c # r)")
    case True
    with 2 have "i = 0" by simp
    have "take (length d) (c # r) = d" using True by (auto simp: prefix_def)
    then have "prefix d t" using 2(3) \<open>i = 0\<close> by simp
    then show ?thesis unfolding \<open>i = 0\<close> by (cases t) simp_all
  next
    case False
    with 2(2) obtain j where j: "i = Suc j" "find_sub d r = Some j" by auto
    with 2(3) obtain t' where t: "t = c # t'" "prefix (take (j + length d) r) t'" by (cases t) auto
    have l: "j + length d \<le> length r" using find_sub_take [OF j(2)] by simp
    have "\<not> prefix d t"
    proof
      assume "prefix d t"
      then have "d = take (length d) t" by (auto simp: prefix_def)
      also have "take (length d) t = take (length d) (take (Suc (j + length d)) (c # r))"
      proof -
        have "take (Suc (j + length d)) t = take (Suc (j + length d)) (c # r)"
          using t l by (auto simp: prefix_def)
        then have "take (length d) (take (Suc (j + length d)) t) = take (length d) (take (Suc (j + length d)) (c # r))" by simp
        then show ?thesis by (simp add: min_absorb1)
      qed
      also have "\<dots> = take (min (length d) (Suc (j + length d))) (c # r)" by (rule take_take)
      also have "min (length d) (Suc (j + length d)) = length d" by simp
      finally show False using False by (metis take_is_prefix)
    qed
    then show ?thesis using 2(1) [OF False j(2) t(2)] t j by simp
  qed
qed


lemma entry_prefix: "prefix p k \<Longrightarrow> prefix p (fst (entry_of p d k)) \<and> prefix (fst (entry_of p d k)) k"
  by (auto simp: prefix_def entry_of_def Let_def split: option.split) (metis append_take_drop_id)

lemma entry_same:
  assumes "prefix p k" "snd (entry_of p d k)" "prefix (fst (entry_of p d k)) j"
  shows "entry_of p d j = entry_of p d k"
proof -
  obtain r where k: "k = p @ r" using assms(1) by (auto simp: prefix_def)
  obtain c i where c: "d = Some c" "c \<noteq> []" "find_sub c r = Some i" "entry_of p d k = (p @ take (i + length c) r, True)"
    using assms(2) by (auto simp: entry_of_def Let_def k split: option.splits if_splits)
  obtain t where j: "j = p @ t" "prefix (take (i + length c) r) t" using assms(3) by (auto simp: c(4) prefix_def)
  have "i + length c \<le> length r" using find_sub_take [OF c(3)] by simp
  then have "take (i + length c) t = take (i + length c) r" using j(2) by (auto simp: prefix_def)
  then show ?thesis using find_sub_prefix [OF c(3) j(2)] c by (simp add: entry_of_def j(1))
qed

lemma entry_mono:
  assumes "prefix p k" "prefix p j" "k < j"
  shows "fst (entry_of p d k) \<le> fst (entry_of p d j)"
    "fst (entry_of p d k) = fst (entry_of p d j) \<Longrightarrow> snd (entry_of p d k) \<and> snd (entry_of p d j)"
proof -
  let ?e = "fst (entry_of p d k)" and ?f = "fst (entry_of p d j)"
  have pe: "prefix ?e k" "prefix ?f j" using entry_prefix assms by blast+
  show "?e \<le> ?f"
  proof (rule ccontr)
    assume "\<not> ?e \<le> ?f"
    then have "?f < ?e" by simp
    then consider (diff) q a u c v where "?f = q @ a # u" "?e = q @ c # v" "a < c" | (pre) c v where "?e = ?f @ c # v"
      using list_less_cases by blast
    then show False
    proof cases
      case diff
      then obtain x y where "j = q @ a # x" "k = q @ c # y" using pe by (auto simp: prefix_def)
      then have "j < k" using diff(3) by (simp add: append_less_same)
      then show False using assms(3) by simp
    next
      case pre
      then have fk: "prefix ?f k" using pe(1) by (auto simp: prefix_def)
      show False
      proof (cases "snd (entry_of p d j)")
        case True
        from entry_same [OF assms(2) True fk] pre show False by simp
      next
        case False
        then have "prefix j k" using fk entry_item [of p d j] by simp
        then show False using prefix_le [of j k] assms(3) by simp
      qed
    qed
  qed
  assume eq: "?e = ?f"
  have k: "snd (entry_of p d k)" if s: "snd (entry_of p d j)"
  proof -
    have "prefix ?f k" using pe(1) unfolding eq .
    from entry_same [OF assms(2) s this] s show ?thesis by simp
  qed
  have j: "snd (entry_of p d j)" if s: "snd (entry_of p d k)"
  proof -
    have "prefix ?e j" using pe(2) unfolding eq .
    from entry_same [OF assms(1) s this] s show ?thesis by simp
  qed
  show "snd (entry_of p d k) \<and> snd (entry_of p d j)"
  proof (rule ccontr)
    assume "\<not> (snd (entry_of p d k) \<and> snd (entry_of p d j))"
    then have n: "\<not> snd (entry_of p d k)" "\<not> snd (entry_of p d j)" using k j by blast+
    have "k = ?e" by (rule entry_item [OF n(1), symmetric])
    also note eq
    also have "?f = j" by (rule entry_item [OF n(2)])
    finally show False using assms(3) by simp
  qed
qed

lemma ent_sorted:
  assumes "sorted_wrt (\<lambda>x y. fst x < fst y) cs" "\<forall>x \<in> set cs. prefix p (fst x)"
  shows "sorted_wrt (\<le>) (map fst (map (ent p d) cs))"
proof -
  have "sorted_wrt (\<lambda>x y. fst (ent p d x) \<le> fst (ent p d y)) cs"
    using assms(1) by (rule sorted_wrt_mono_rel [rotated]) (use assms(2) entry_mono(1) in \<open>auto simp: ent_def case_prod_beta\<close>)
  then show ?thesis by (simp add: sorted_wrt_map)
qed

lemma fresh_set: "fst ` set (fresh l xs) \<subseteq> fst ` set xs" "set (fresh l xs) \<subseteq> set xs"
  by (induction xs arbitrary: l) auto

lemma fresh_sorted:
  assumes "sorted_wrt (\<le>) (map fst xs)" "\<forall>x \<in> set xs. case l of None \<Rightarrow> True | Some a \<Rightarrow> a \<le> fst x"
  shows "sorted_wrt (\<lambda>x y. fst x < fst y) (fresh l xs)" "\<forall>x \<in> set (fresh l xs). case l of None \<Rightarrow> True | Some a \<Rightarrow> a < fst x"
  using assms
proof (induction xs arbitrary: l)
  case (Cons x xs)
  {
    case 1
    have "\<forall>y \<in> set xs. case Some (fst x) of None \<Rightarrow> True | Some a \<Rightarrow> a \<le> fst y" using 1 by auto
    from Cons.IH(1,2) [OF _ this] Cons.IH(1) [of l] 1 show ?case by auto
  next
    case 2
    have le: "\<forall>y \<in> set xs. case Some (fst x) of None \<Rightarrow> True | Some a \<Rightarrow> a \<le> fst y" using 2 by auto
    from Cons.IH(2) [OF _ le] Cons.IH(2) [of l] 2 show ?case
      by (cases l) (auto intro: le_neq_trans less_le_trans order.strict_implies_order)
  }
qed simp_all

lemma fresh_other: "\<forall>x \<in> set xs. l \<noteq> Some (fst x) \<and> l' \<noteq> Some (fst x) \<Longrightarrow> fresh l xs = fresh l' xs"
  by (cases xs) auto

lemma fresh_filter:
  assumes "sorted_wrt (\<le>) (map fst xs)" "\<forall>x \<in> set xs. case l of None \<Rightarrow> True | Some a \<Rightarrow> a \<le> fst x"
  shows "filter (\<lambda>x. a < fst x) (fresh l xs) = fresh l (filter (\<lambda>x. a < fst x) xs)"
  using assms
proof (induction xs arbitrary: l)
  case (Cons x xs)
  have le: "\<forall>y \<in> set xs. fst x \<le> fst y" using Cons.prems by auto
  from Cons.IH [of "Some (fst x)"] Cons.IH [of l] Cons.prems le
  have ih: "filter (\<lambda>x. a < fst x) (fresh (Some (fst x)) xs) = fresh (Some (fst x)) (filter (\<lambda>x. a < fst x) xs)"
    "filter (\<lambda>x. a < fst x) (fresh l xs) = fresh l (filter (\<lambda>x. a < fst x) xs)" by auto
  show ?case
  proof (cases "l = Some (fst x) \<or> a < fst x")
    case True
    with ih show ?thesis by auto
  next
    case False
    then have "fresh (Some (fst x)) (filter (\<lambda>x. a < fst x) xs) = fresh l (filter (\<lambda>x. a < fst x) xs)"
      using Cons.prems by (intro fresh_other) (auto split: option.splits)
    with ih False show ?thesis by simp
  qed
qed simp


section \<open>Object listings follow the contract\<close>

text \<open>
  A bucket in order: readable entries, no versions and no delete markers while versioning was never
  switched on, and no key with a NUL character.
\<close>

definition listing_ok :: "db \<Rightarrow> bytes \<Rightarrow> bool" where
  "listing_ok db b \<longleftrightarrow> objects_ok db \<and> name_ok b \<and>
     (\<exists>v R. bucket_versioning db b = Inr v \<and> list_object_entries db b = Inr R \<and> clean v R \<and> (\<forall>r \<in> set R. 0 \<notin> set (fst r)))"

definition listing_entries :: "db \<times> bytes \<times> bytes \<times> bytes option \<Rightarrow> entry list" where
  "listing_entries = (\<lambda>(db, b, p, d). case list_objects db b p of Inr xs \<Rightarrow> fresh None (map (ent p d) xs) | Inl _ \<Rightarrow> [])"

lemma entries_loop_refs: "\<forall>(k, v, m) \<in> set R. object_ref_ok (b, k, v) \<Longrightarrow> entries_loop (map (raw b) R) = Inr R"
  by (induction R) (auto simp: raw_def parse_raw)

lemma list_entries_refs: "refs_of db b R \<Longrightarrow> list_object_entries db b = Inr R"
  by (simp add: refs_of_def list_object_entries_def entries_loop_refs)

lemma listing_okE:
  assumes "listing_ok db b"
  obtains v R where "objects_ok db" "name_ok b" "kv_wf db" "refs_of db b R" "bucket_versioning db b = Inr v" "clean v R"
    "\<forall>r \<in> set R. 0 \<notin> set (fst r)"
proof -
  have ok: "objects_ok db" "name_ok b" using assms by (simp_all add: listing_ok_def)
  then have wf: "kv_wf db" by (simp add: objects_ok_def)
  obtain R where R: "refs_of db b R" using refs_exist [OF ok] by blast
  obtain v where "bucket_versioning db b = Inr v" "clean v R" "\<forall>r \<in> set R. 0 \<notin> set (fst r)"
    using assms list_entries_refs [OF R] by (auto simp: listing_ok_def)
  then show thesis by (rule that [OF ok wf R])
qed

lemma visible_keys:
  assumes "sorted_wrt before R" "(k, m) \<in> set (visible v R)"
  shows "k \<in> fst ` set R"
  using assms by (cases "v = Off") (force simp: visible_def currents_set [OF assms(1)])+

lemma visible_sorted:
  assumes "refs_of db b R" "clean v R" "\<forall>r \<in> set R. 0 \<notin> set (fst r)"
  shows "sorted_wrt (\<lambda>x y. fst x < fst y) (visible v R)"
    "\<And>k m. (k, m) \<in> set (visible v R) \<Longrightarrow> 0 \<notin> set k \<and> 0xFF \<notin> set k \<and> escape k = k"
proof -
  have srt: "sorted_wrt before R" using assms(1) by (simp add: refs_of_def raw_before)
  have okR: "\<forall>(k, v, m) \<in> set R. object_ref_ok (b, k, v)" using assms(1) by (simp add: refs_of_def)
  show key: "0 \<notin> set k \<and> 0xFF \<notin> set k \<and> escape k = k" if vis: "(k, m) \<in> set (visible v R)" for k m
  proof -
    obtain r where r: "r \<in> set R" "fst r = k" using visible_keys [OF srt vis] by auto
    then have "utf8_valid k" using okR by (cases r) (auto simp: object_ref_ok_def)
    then have "0xFF \<notin> set k" by (rule utf8_no_ff)
    moreover have "0 \<notin> set k" using assms(3) r by auto
    ultimately show ?thesis using escape_plain by blast
  qed
  have esc: "sorted_wrt (\<lambda>x y. escape (fst x) < escape (fst y)) (visible v R)"
  proof (cases "v = Off")
    case True
    have none: "fst (snd x) = None" if "x \<in> set R" for x using assms(2) True that by (auto simp: clean_def)
    have "sorted_wrt (\<lambda>x y. escape (fst x) < escape (fst y)) R"
    proof (rule sorted_wrt_mono_rel [OF _ srt])
      fix x y assume "x \<in> set R" "y \<in> set R" "before x y"
      with none [of x] none [of y] show "escape (fst x) < escape (fst y)" by (auto simp: before_def vk_before_def case_prod_beta)
    qed
    then show ?thesis using True by (simp add: visible_def sorted_wrt_map case_prod_beta)
  next
    case False
    then show ?thesis using currents_sorted [OF srt] by (simp add: visible_def sorted_wrt_filter)
  qed
  show "sorted_wrt (\<lambda>x y. fst x < fst y) (visible v R)"
  proof (rule sorted_wrt_mono_rel [OF _ esc])
    fix x y assume a: "x \<in> set (visible v R)" "y \<in> set (visible v R)" "escape (fst x) < escape (fst y)"
    then have "escape (fst x) = fst x" "escape (fst y) = fst y" using key [of "fst x" "snd x"] key [of "fst y" "snd y"] by auto
    with a(3) show "fst x < fst y" by simp
  qed
qed

lemma page_cursor:
  assumes "refs_of db b R" "kv_wf db" "clean v R" "bucket_versioning db b = Inr v" "\<forall>r \<in> set R. 0 \<notin> set (fst r)"
    "after = None \<or> (\<exists>a. after = Some a \<and> escape a = a)"
  shows "list_objects_page db b p d after mx =
    (let N = filter (beyond after) (fresh None (map (ent p d) (filter (\<lambda>(k, _). prefix p k) (visible v R))))
     in Inr (render_page (take mx N) (mx < length N)))"
proof (cases after)
  case None
  then show ?thesis by (simp add: page_entries [OF assms(1-4)] from_cursor_def beyond_def)
next
  case (Some a)
  let ?V = "filter (\<lambda>(k, _). prefix p k) (visible v R)"
  note vis = visible_sorted [OF assms(1,3,5)]
  have ea: "escape a = a" using Some assms(6) by simp
  have srt: "sorted_wrt (\<lambda>x y. fst x < fst y) ?V" "\<forall>x \<in> set ?V. prefix p (fst x)" using vis(1) by (auto simp: sorted_wrt_filter)
  have "from_cursor after (fst x)" if x: "x \<in> set ?V" "beyond after (ent p d x)" for x
  proof -
    obtain k m where xe: "x = (k, m)" by (cases x)
    have "fst (ent p d x) \<le> k" using entry_prefix [of p k d] prefix_le x(1) by (auto simp: xe ent_def)
    moreover have "a < fst (ent p d x)" using x(2) Some by (simp add: beyond_def)
    moreover have "escape k = k" using vis(2) [of k m] x(1) xe by auto
    ultimately show ?thesis using ea by (auto simp: from_cursor_def Some xe)
  qed
  then have "filter (beyond after) (map (ent p d) (filter (\<lambda>x. from_cursor after (fst x)) ?V)) = filter (beyond after) (map (ent p d) ?V)"
    by (auto simp: filter_map o_def intro!: arg_cong [of _ _ "map (ent p d)"] filter_cong)
  moreover have "filter (\<lambda>(k, _). prefix p k) (filter (\<lambda>x. from_cursor after (fst x)) (visible v R)) = filter (\<lambda>x. from_cursor after (fst x)) ?V"
    by (simp add: conj_commute case_prod_beta)
  moreover have "fresh None (filter (beyond after) (map (ent p d) ?V)) = filter (beyond after) (fresh None (map (ent p d) ?V))"
    using fresh_filter [OF ent_sorted [OF srt, of d], of None a] by (simp add: Some beyond_def [abs_def])
  ultimately show ?thesis by (simp add: page_entries [OF assms(1-4)])
qed


lemma listing_entries_sorted:
  assumes "listing_ok db b"
  shows "sorted_wrt (\<lambda>x y. fst x < fst y) (listing_entries (db, b, p, d))"
    "\<And>x. x \<in> set (listing_entries (db, b, p, d)) \<Longrightarrow> escape (fst x) = fst x"
proof -
  from assms obtain v R where R: "kv_wf db" "refs_of db b R" "bucket_versioning db b = Inr v" "clean v R"
    "\<forall>r \<in> set R. 0 \<notin> set (fst r)" by (rule listing_okE)
  let ?V = "filter (\<lambda>(k, _). prefix p k) (visible v R)"
  have E: "listing_entries (db, b, p, d) = fresh None (map (ent p d) ?V)"
    by (simp add: listing_entries_def list_objects_visible [OF R(2,1,4,3)])
  note vis = visible_sorted [OF R(2,4,5)]
  have srt: "sorted_wrt (\<lambda>x y. fst x < fst y) ?V" "\<forall>x \<in> set ?V. prefix p (fst x)" using vis(1) by (auto simp: sorted_wrt_filter)
  show "sorted_wrt (\<lambda>x y. fst x < fst y) (listing_entries (db, b, p, d))"
    unfolding E by (rule fresh_sorted(1) [OF ent_sorted [OF srt]]) simp
  fix x assume "x \<in> set (listing_entries (db, b, p, d))"
  then have "x \<in> ent p d ` set ?V" using fresh_set(2) unfolding E by fastforce
  then obtain k m where k: "(k, m) \<in> set (visible v R)" "prefix p k" "x = ent p d (k, m)" by auto
  then have "prefix (fst x) k" using entry_prefix [of p k d] by (simp add: ent_def)
  then have "set (fst x) \<subseteq> set k" by (auto simp: prefix_def)
  then show "escape (fst x) = fst x" using vis(2) [OF k(1)] by (intro escape_plain) auto
qed

lemma page_of_entries:
  assumes "listing_ok db b" "after = None \<or> (\<exists>x \<in> set (listing_entries (db, b, p, d)). after = Some (fst x))"
  shows "list_objects_page db b p d after mx =
    (let N = filter (beyond after) (listing_entries (db, b, p, d)) in Inr (render_page (take mx N) (mx < length N)))"
proof -
  from assms(1) obtain v R where R: "kv_wf db" "refs_of db b R" "bucket_versioning db b = Inr v" "clean v R"
    "\<forall>r \<in> set R. 0 \<notin> set (fst r)" by (rule listing_okE)
  have "after = None \<or> (\<exists>a. after = Some a \<and> escape a = a)" using assms(2) listing_entries_sorted(2) [OF assms(1)] by blast
  from page_cursor [OF R(2,1,4,3,5) this]
  show ?thesis by (simp add: listing_entries_def list_objects_visible [OF R(2,1,4,3)])
qed

lemma sorted_after:
  assumes "sorted_wrt (\<lambda>x y. f x < (f y :: 'a::linorder)) (xs @ e # ys)"
  shows "filter (\<lambda>x. f e < f x) (xs @ e # ys) = ys"
proof -
  have "\<forall>x \<in> set xs. \<not> f e < f x" "\<forall>y \<in> set ys. f e < f y" using assms by (auto simp: sorted_wrt_append)
  then show ?thesis by (auto simp: filter_empty_conv filter_id_conv)
qed

interpretation objects: paged_listing "\<lambda>(db, b, p, d). listing_ok db b" listing_entries fst
  "\<lambda>(db, b, p, d) n after. list_objects_page db b p d after n" render_page lp_truncated lp_last_scanned
proof unfold_locales
  fix s :: "db \<times> bytes \<times> bytes \<times> bytes option" and n :: nat
  obtain db b p d where s: "s = (db, b, p, d)" by (cases s)
  assume "case s of (db, b, p, d) \<Rightarrow> listing_ok db b"
  then have ok: "listing_ok db b" by (simp add: s)
  show "(case s of (db, b, p, d) \<Rightarrow> \<lambda>n after. list_objects_page db b p d after n) n None =
      Inr (render_page (take n (listing_entries s)) (n < length (listing_entries s)))"
    using page_of_entries [OF ok, of None p d n] by (simp add: s beyond_def [abs_def] Let_def)
  fix xs e ys
  assume e: "listing_entries s = xs @ e # ys"
  then have "filter (beyond (Some (fst e))) (listing_entries s) = ys"
    using listing_entries_sorted(1) [OF ok, of p d] sorted_after [of fst xs e ys] by (simp add: s beyond_def [abs_def])
  then show "(case s of (db, b, p, d) \<Rightarrow> \<lambda>n after. list_objects_page db b p d after n) n (Some (fst e)) = Inr (render_page (take n ys) (n < length ys))"
    using page_of_entries [OF ok, of "Some (fst e)" p d n] e by (simp add: s Let_def)
qed (simp_all add: render_page_def last_of_def)


section \<open>Raw scans follow the contract\<close>

definition raw_entries :: "db \<times> bytes \<Rightarrow> ref list" where
  "raw_entries = (\<lambda>(db, b). case list_object_entries db b of Inr R \<Rightarrow> R | Inl _ \<Rightarrow> [])"

definition ref_cursor :: "ref \<Rightarrow> bytes \<times> bytes option" where
  "ref_cursor = (\<lambda>(k, v, _). (k, v))"

lemma entries_page_refs:
  assumes "\<forall>(k, v, m) \<in> set R. object_ref_ok (b, k, v)" "out \<noteq> [] \<or> (\<forall>r \<in> set R. skip \<noteq> Some (fst (raw b r)))" "0 < n"
  shows "entries_page_loop b skip n (map (raw b) R) out = Inr (out @ take (n - length out) R, length R \<le> n - length out)"
  using assms(1,2)
proof (induction R arbitrary: out)
  case (Cons r R)
  obtain k v m where r: "r = (k, v, m)" by (cases r)
  have p: "parse_object_version_key (object_ref_key (b, k, v)) = Inr (b, k, v)" using Cons.prems(1) by (simp add: r parse_raw)
  show ?case
  proof (cases "n \<le> length out")
    case True
    with assms(3) have "out \<noteq> []" by auto
    with True show ?thesis by (simp add: r raw_def prefix_object_ref)
  next
    case False
    have "\<not> (out = [] \<and> skip = Some (object_ref_key (b, k, v)))" using Cons.prems(2) by (auto simp: r raw_def)
    moreover have "entries_page_loop b skip n (map (raw b) R) (out @ [r]) =
        Inr ((out @ [r]) @ take (n - length (out @ [r])) R, length R \<le> n - length (out @ [r]))"
      using Cons.prems(1) by (intro Cons.IH) auto
    moreover have "n - length out = Suc (n - length (out @ [r]))" using False by simp
    ultimately show ?thesis using False p by (auto simp: r raw_def prefix_object_ref)
  qed
qed simp

lemma scan_page_refs:
  assumes "refs_of db b R" "kv_wf db" "0 < n"
  shows "scan_object_entries_page db b None n = Inr (take n R, length R \<le> n)"
    "R = xs @ e # ys \<Longrightarrow> scan_object_entries_page db b (Some (ref_cursor e)) n = Inr (take n ys, length ys \<le> n)"
proof -
  let ?p = "\<lambda>(k, _ :: stored). prefix (object_prefix b) k"
  have tw: "entries_page_loop b skip l it out = entries_page_loop b skip l (takeWhile ?p it) out" for skip l it out
    by (induction b skip l it out rule: entries_page_loop.induct) (auto simp: bind_res_def split: sum.split)
  have okR: "\<forall>(k, v, m) \<in> set R. object_ref_ok (b, k, v)" using assms(1) by (simp add: refs_of_def)
  have n: "max n 1 = n" using assms(3) by simp
  have "\<not> object_prefix b @ x < object_prefix b" for x using append_less_same [of "object_prefix b" x "[]"] by simp
  then have "filter (\<lambda>r. \<not> fst (raw b r) < object_prefix b) R = R"
    by (auto simp: raw_def ref_key_tail filter_id_conv split: prod.split)
  then have "takeWhile ?p (iter_from (object_prefix b) db) = map (raw b) R" using scan_from [OF assms(1,2), of "object_prefix b"] by simp
  with entries_page_refs [OF okR, of "[]" None n] show "scan_object_entries_page db b None n = Inr (take n R, length R \<le> n)"
    unfolding scan_object_entries_page_def Let_def n by (subst tw) (simp add: assms(3))
  assume e: "R = xs @ e # ys"
  have start: "(case Some (ref_cursor e) of Some (key, Some vk) \<Rightarrow> object_version_key b key vk | Some (key, None) \<Rightarrow> object_key b key | None \<Rightarrow> object_prefix b)
      = fst (raw b e)"
    by (cases e) (auto simp: ref_cursor_def raw_def object_ref_key_def split: option.split)
  have srt: "sorted_wrt (\<lambda>x y. fst (raw b x) < fst (raw b y)) (xs @ e # ys)" using assms(1) by (simp add: refs_of_def e)
  then have "\<forall>x \<in> set xs. fst (raw b x) < fst (raw b e)" "\<forall>y \<in> set ys. fst (raw b e) < fst (raw b y)" by (auto simp: sorted_wrt_append)
  then have "filter (\<lambda>r. \<not> fst (raw b r) < fst (raw b e)) R = e # ys" and ne: "\<forall>y \<in> set ys. fst (raw b e) \<noteq> fst (raw b y)"
    by (auto simp: e filter_empty_conv filter_id_conv)
  moreover have pe: "prefix (object_prefix b) (fst (raw b e))" by (cases e) (simp add: raw_def prefix_object_ref)
  ultimately have tk: "takeWhile ?p (iter_from (fst (raw b e)) db) = map (raw b) (e # ys)"
    using scan_from [OF assms(1,2), of "fst (raw b e)"] by simp
  have "entries_page_loop b (Some (fst (raw b e))) n (map (raw b) ys) [] = Inr (take n ys, length ys \<le> n)"
    using entries_page_refs [of ys b "[]" "Some (fst (raw b e))" n] okR ne assms(3) by (auto simp: e)
  then have "entries_page_loop b (Some (fst (raw b e))) n (map (raw b) (e # ys)) [] = Inr (take n ys, length ys \<le> n)"
    using pe by (cases "raw b e") simp
  then show "scan_object_entries_page db b (Some (ref_cursor e)) n = Inr (take n ys, length ys \<le> n)"
    unfolding scan_object_entries_page_def Let_def n start by (subst tw) (simp add: tk [simplified])
qed

interpretation raw_scan: paged_listing "\<lambda>(db, b). objects_ok db \<and> name_ok b" raw_entries ref_cursor
  "\<lambda>(db, b) n cursor. scan_object_entries_page db b cursor n" "\<lambda>es t. (es, \<not> t)" "\<lambda>(_, finished). \<not> finished"
  "\<lambda>(es, _). if es = [] then None else Some (ref_cursor (last es))"
proof unfold_locales
  fix s :: "db \<times> bytes" and n :: nat
  obtain db b where s: "s = (db, b)" by (cases s)
  assume "case s of (db, b) \<Rightarrow> objects_ok db \<and> name_ok b"
  then have ok: "objects_ok db" "name_ok b" by (simp_all add: s)
  then have wf: "kv_wf db" by (simp add: objects_ok_def)
  obtain R where R: "refs_of db b R" using refs_exist [OF ok] by blast
  have E: "raw_entries s = R" by (simp add: raw_entries_def s list_entries_refs [OF R])
  assume n: "0 < n"
  show "(case s of (db, b) \<Rightarrow> \<lambda>n cursor. scan_object_entries_page db b cursor n) n None = Inr (take n (raw_entries s), \<not> n < length (raw_entries s))"
    using scan_page_refs(1) [OF R wf n] by (simp add: s E [unfolded s] not_less)
  fix xs e ys
  assume "raw_entries s = xs @ e # ys"
  then show "(case s of (db, b) \<Rightarrow> \<lambda>n cursor. scan_object_entries_page db b cursor n) n (Some (ref_cursor e)) = Inr (take n ys, \<not> n < length ys)"
    using scan_page_refs(2) [OF R wf n] by (simp add: s E [unfolded s] not_less)
qed simp_all


section \<open>What the pages hold\<close>

lemma concat_items: "concat (map items_of ess) = items_of (concat ess)"
  by (induction ess) (simp_all add: items_of_def)

lemma concat_prefixes: "concat (map prefixes_of ess) = prefixes_of (concat ess)"
  by (induction ess) (simp_all add: prefixes_of_def)

lemma length_parts: "length (items_of es) + length (prefixes_of es) = length es"
  by (induction es) (auto simp: items_of_def prefixes_of_def split: option.split)

lemma length_fresh: "length (fresh l xs) \<le> length xs"
  by (induction xs arbitrary: l) (auto intro: le_SucI)

lemma items_of_fresh:
  assumes "sorted_wrt (\<lambda>x y. fst x < fst y) cs" "\<forall>x \<in> set cs. prefix p (fst x)"
    "\<forall>x \<in> set cs. l = Some (fst (ent p d x)) \<longrightarrow> snd (entry_of p d (fst x))"
  shows "items_of (fresh l (map (ent p d) cs)) = filter (\<lambda>(k, _). \<not> snd (entry_of p d k)) cs"
  using assms
proof (induction cs arbitrary: l)
  case (Cons c cs)
  obtain k m where c: "c = (k, m)" by (cases c)
  have "snd (entry_of p d (fst x))" if x: "x \<in> set cs" "Some (fst (ent p d c)) = Some (fst (ent p d x))" for x
    using entry_mono(2) [of p k "fst x" d] Cons.prems(1,2) x by (auto simp: c ent_def case_prod_beta)
  then have "items_of (fresh (Some (fst (ent p d c))) (map (ent p d) cs)) = filter (\<lambda>(k, _). \<not> snd (entry_of p d k)) cs"
    using Cons.prems by (intro Cons.IH) auto
  moreover have "items_of (fresh l (map (ent p d) cs)) = filter (\<lambda>(k, _). \<not> snd (entry_of p d k)) cs"
    using Cons.prems by (intro Cons.IH) auto
  moreover have "items_of (x # xs) = (case snd x of Some n \<Rightarrow> [(fst x, n)] | None \<Rightarrow> []) @ items_of xs" for x xs
    by (simp add: items_of_def case_prod_beta)
  moreover have "snd (ent p d c) = (if snd (entry_of p d k) then None else Some m)" by (simp add: c ent_def)
  moreover have "\<not> snd (entry_of p d k) \<Longrightarrow> fst (ent p d c) = k" using entry_item [of p d k] by (simp add: c ent_def)
  moreover have "l = Some (fst (ent p d c)) \<Longrightarrow> snd (entry_of p d k)" using Cons.prems(3) by (simp add: c)
  ultimately show ?case by (cases "l = Some (fst (ent p d c))"; cases "snd (entry_of p d k)") (simp_all add: c)
qed (simp add: items_of_def)

lemma fresh_covers: "x \<in> set xs \<Longrightarrow> l = Some (fst x) \<or> fst x \<in> fst ` set (fresh l xs)"
proof (induction xs arbitrary: l)
  case (Cons y xs)
  then show ?case using Cons.IH [of l] Cons.IH [of "Some (fst y)"] by (cases "x \<in> set xs") auto
qed simp

lemma prefixes_of_fresh:
  assumes "sorted_wrt (\<lambda>x y. fst x < fst y) cs" "\<forall>x \<in> set cs. prefix p (fst x)"
  shows "c \<in> set (prefixes_of (fresh None (map (ent p d) cs))) \<longleftrightarrow> (\<exists>(k, m) \<in> set cs. entry_of p d k = (c, True))"
proof
  assume "c \<in> set (prefixes_of (fresh None (map (ent p d) cs)))"
  then have "(c, None) \<in> set (map (ent p d) cs)" using fresh_set(2) [of None "map (ent p d) cs"] by (auto simp: prefixes_of_def)
  then obtain k m where "(k, m) \<in> set cs" "ent p d (k, m) = (c, None)" by auto
  then show "\<exists>(k, m) \<in> set cs. entry_of p d k = (c, True)"
    by (intro bexI [of _ "(k, m)"]) (auto simp: ent_def prod_eq_iff split: if_splits)
next
  assume "\<exists>(k, m) \<in> set cs. entry_of p d k = (c, True)"
  then obtain k m where k: "(k, m) \<in> set cs" "entry_of p d k = (c, True)" by auto
  then have "(c, None) \<in> set (map (ent p d) cs)" by (force simp: ent_def)
  then obtain y where y: "y \<in> set (fresh None (map (ent p d) cs))" "fst y = c"
    using fresh_covers [of "(c, None)" "map (ent p d) cs" None] by auto
  then obtain j n where j: "(j, n) \<in> set cs" "y = ent p d (j, n)" using fresh_set(2) [of None "map (ent p d) cs"] by auto
  have "prefix (fst (entry_of p d k)) j" using entry_prefix [of p j d] assms(2) j y(2) k(2) by (auto simp: ent_def)
  then have "entry_of p d j = (c, True)" using entry_same [of p k d j] assms(2) k by auto
  then have "y = (c, None)" by (simp add: j(2) ent_def)
  then show "c \<in> set (prefixes_of (fresh None (map (ent p d) cs)))" using y(1) by (force simp: prefixes_of_def)
qed

lemma listing_cases:
  assumes "listing_ok db b" "list_objects db b p = Inr xs"
  shows "sorted_wrt (\<lambda>x y. fst x < fst y) xs" "\<forall>x \<in> set xs. prefix p (fst x)" "listing_entries (db, b, p, d) = fresh None (map (ent p d) xs)"
proof -
  from assms(1) obtain v R where R: "kv_wf db" "refs_of db b R" "bucket_versioning db b = Inr v" "clean v R"
    "\<forall>r \<in> set R. 0 \<notin> set (fst r)" by (rule listing_okE)
  have xs: "xs = filter (\<lambda>(k, _). prefix p k) (visible v R)" using assms(2) by (simp add: list_objects_visible [OF R(2,1,4,3)])
  then show "sorted_wrt (\<lambda>x y. fst x < fst y) xs" "\<forall>x \<in> set xs. prefix p (fst x)"
    using visible_sorted(1) [OF R(2,4,5)] by (auto simp: sorted_wrt_filter)
  show "listing_entries (db, b, p, d) = fresh None (map (ent p d) xs)" using assms(2) by (simp add: listing_entries_def)
qed

lemma fields_exist:
  assumes "sorted_wrt before R"
  shows "\<exists>g. fields R k g"
proof (cases "k \<in> fst ` set R")
  case True
  have g: "(\<forall>h \<in> set (gather no_group R). h = no_group \<or> (\<exists>k \<in> fst ` set R. fields R k h)) \<and>
    Some ` fst ` set R \<subseteq> og_key ` set (gather no_group R)"
    using gather_fields [of "[]" R no_group] assms by simp
  with True have "Some k \<in> og_key ` set (gather no_group R)" by blast
  then obtain h where h: "h \<in> set (gather no_group R)" "og_key h = Some k" by force
  then have "h \<noteq> no_group" by (auto simp: no_group_def)
  with g h obtain j where "fields R j h" by blast
  then have "fields R k h" using h by (simp add: fields_def)
  then show ?thesis ..
next
  case False
  then have "(k, v, m) \<notin> set R" for v m by force
  then have "fields R k (no_group\<lparr>og_key := Some k\<rparr>)" by (simp add: fields_def no_group_def)
  then show ?thesis ..
qed

lemma visible_read:
  assumes "objects_ok db" "name_ok b" "refs_of db b R" "clean v R"
  shows "(k, m) \<in> set (visible v R) \<longleftrightarrow> utf8_valid k \<and> resolve_object db b k None (Some v) = Inr m"
proof (cases "utf8_valid k")
  case False
  have srt: "sorted_wrt before R" using assms(3) by (simp add: refs_of_def raw_before)
  have "\<forall>(k, v, m) \<in> set R. object_ref_ok (b, k, v)" using assms(3) by (simp add: refs_of_def)
  then have "k \<notin> fst ` set R" using False by (auto simp: object_ref_ok_def)
  then show ?thesis using visible_keys [OF srt] False by blast
next
  case True
  have srt: "sorted_wrt before R" using assms(3) by (simp add: refs_of_def raw_before)
  obtain g where g: "fields R k g" using fields_exist [OF srt] by blast
  note rd = fields_read [OF assms(1-3) g True]
  show ?thesis
  proof (cases "v = Off")
    case off: True
    have c: "w = None \<and> \<not> om_is_delete_marker n" if "(k, w, n) \<in> set R" for w n
      using assms(4) off that by (auto simp: clean_def)
    have "(k, m) \<in> set (visible v R) \<longleftrightarrow> (\<exists>w. (k, w, m) \<in> set R)" by (auto simp: visible_def off intro: rev_image_eqI)
    also have "\<dots> \<longleftrightarrow> (k, None, m) \<in> set R \<and> \<not> om_is_delete_marker m" using c by blast
    also have "(k, None, m) \<in> set R \<longleftrightarrow> og_legacy g = Some m" using g by (simp add: fields_def)
    finally have "(k, m) \<in> set (visible v R) \<longleftrightarrow> og_legacy g = Some m \<and> \<not> om_is_delete_marker m" .
    moreover have "get_object db b k = Inr (og_legacy g)" using get_object_eqI [OF rd(2)] .
    ultimately show ?thesis using True
      by (cases "og_legacy g") (auto simp: resolve_object_def resolve_object_entry_def get_current_version_for_def off)
  next
    case von: False
    have "(k, m) \<in> set (currents R) \<longleftrightarrow> picked g = Some m"
    proof
      assume "(k, m) \<in> set (currents R)"
      then show "picked g = Some m" using currents_set [OF srt] fields_unique [OF g] by blast
    next
      assume p: "picked g = Some m"
      have "k \<in> fst ` set R"
      proof (rule ccontr)
        assume "k \<notin> fst ` set R"
        then have "(k, v, m) \<notin> set R" for v m by force
        then have "og_legacy g = None" "og_null g = None" "og_real g = None" using g by (auto simp: fields_def split: option.splits)
        then show False using p by (simp add: picked_def d1a_pick_current_def null_family_def)
      qed
      then show "(k, m) \<in> set (currents R)" using currents_set [OF srt] g p by blast
    qed
    then have "(k, m) \<in> set (visible v R) \<longleftrightarrow> picked g = Some m \<and> \<not> om_is_delete_marker m" using von by (simp add: visible_def)
    then show ?thesis using True von rd(1)
      by (cases "d1a_pick_current (og_legacy g) (og_null g) (og_real g)")
        (auto simp: resolve_object_def resolve_object_entry_def get_current_version_for_def picked_def split: if_splits)
  qed
qed

section \<open>Properties\<close>

text \<open>
  C27. In a well-formed store, for a bucket without versions or delete markers while versioning was never
  switched on, the listing shows exactly what reads find: a key with its metadata is listed under a prefix
  if and only if it has that prefix and a read without version id answers with that metadata. The keys
  come in strictly increasing order when no key of the bucket has a NUL character.
\<close>

theorem list_matches_get:
  assumes "objects_ok db" "name_ok b" "bucket_versioning db b = Inr v" "list_object_entries db b = Inr R" "clean v R"
  shows "\<exists>xs. list_objects db b p = Inr xs \<and>
    (\<forall>k m. (k, m) \<in> set xs \<longleftrightarrow> utf8_valid k \<and> prefix p k \<and> resolve_object db b k None (Some v) = Inr m) \<and>
    ((\<forall>r \<in> set R. 0 \<notin> set (fst r)) \<longrightarrow> sorted_wrt (\<lambda>x y. fst x < fst y) xs)"
proof -
  have wf: "kv_wf db" using assms(1) by (simp add: objects_ok_def)
  obtain R' where "refs_of db b R'" using refs_exist [OF assms(1,2)] by blast
  then have R: "refs_of db b R" using list_entries_refs [of db b R'] assms(4) by simp
  have L: "list_objects db b p = Inr (filter (\<lambda>(k, _). prefix p k) (visible v R))"
    by (rule list_objects_visible [OF R wf assms(5,3)])
  have "sorted_wrt (\<lambda>x y. fst x < fst y) (filter (\<lambda>(k, _). prefix p k) (visible v R))" if "\<forall>r \<in> set R. 0 \<notin> set (fst r)"
    using visible_sorted(1) [OF R assms(5) that] by (rule sorted_wrt_filter)
  with visible_read [OF assms(1,2) R assms(5)] L show ?thesis by auto
qed

text \<open>
  C28. In a well-formed store, for a bucket none of whose keys has a NUL character (and that has no versions
  or delete markers while versioning was never switched on), following the cursors of a paged listing, with
  any page size, prefix and delimiter, ends and shows every object that is not under a common prefix
  exactly once and in order, every common prefix exactly once and in order, and no page is larger than
  asked. (The condition on NUL is needed, see \<open>nul_key_lost_between_pages\<close> below.)
\<close>

theorem list_pages_complete:
  assumes "listing_ok db b" "0 < mx" "list_objects db b p = Inr xs"
  shows "\<exists>pages. follow (\<lambda>after. list_objects_page db b p d after mx) lp_truncated lp_last_scanned (Suc (length xs)) None = Some pages \<and>
    concat (map lp_items pages) = filter (\<lambda>(k, _). \<not> snd (entry_of p d k)) xs \<and>
    sorted_wrt (<) (concat (map lp_common_prefixes pages)) \<and>
    set (concat (map lp_common_prefixes pages)) = {c. \<exists>(k, m) \<in> set xs. entry_of p d k = (c, True)} \<and>
    (\<forall>pg \<in> set pages. length (lp_items pg) + length (lp_common_prefixes pg) \<le> mx)"
proof -
  let ?E = "listing_entries (db, b, p, d)"
  note xs = listing_cases [OF assms(1,3)]
  have "length ?E < Suc (length xs)" using length_fresh [of None "map (ent p d) xs"] by (simp add: xs(3) less_Suc_eq_le)
  then obtain rs where rs: "follow (\<lambda>after. list_objects_page db b p d after mx) lp_truncated lp_last_scanned (Suc (length xs)) None =
      Some (map (\<lambda>(es, t). render_page es t) rs)" "concat (map fst rs) = ?E" "\<forall>(es, t) \<in> set rs. length es \<le> mx"
    using objects.follow_all [of "(db, b, p, d)" mx "Suc (length xs)"] assms(1,2) by auto
  let ?pages = "map (\<lambda>(es, t). render_page es t) rs"
  have items: "concat (map lp_items ?pages) = items_of ?E"
    by (simp add: concat_items [symmetric] rs(2) [symmetric] o_def case_prod_beta render_page_def)
  have prefixes: "concat (map lp_common_prefixes ?pages) = prefixes_of ?E"
    by (simp add: concat_prefixes [symmetric] rs(2) [symmetric] o_def case_prod_beta render_page_def)
  show ?thesis
  proof (intro exI [of _ ?pages] conjI)
    show "concat (map lp_items ?pages) = filter (\<lambda>(k, _). \<not> snd (entry_of p d k)) xs"
      unfolding items xs(3) by (rule items_of_fresh [OF xs(1,2)]) simp
    show "sorted_wrt (<) (concat (map lp_common_prefixes ?pages))" unfolding prefixes
      using listing_entries_sorted(1) [OF assms(1), of p d] by (simp add: prefixes_of_def sorted_wrt_map sorted_wrt_filter)
    show "set (concat (map lp_common_prefixes ?pages)) = {c. \<exists>(k, m) \<in> set xs. entry_of p d k = (c, True)}"
      unfolding prefixes xs(3) using prefixes_of_fresh [OF xs(1,2)] by blast
    show "\<forall>pg \<in> set ?pages. length (lp_items pg) + length (lp_common_prefixes pg) \<le> mx"
      using rs(3) by (auto simp: render_page_def length_parts)
  qed (rule rs(1))
qed


text \<open>
  The pages of a background scan hold every stored entry of the bucket, old versions and delete
  markers included, exactly once and in store order, whatever the page size.
\<close>

theorem raw_scan_complete:
  assumes "objects_ok db" "name_ok b" "0 < n"
  shows "\<exists>R pages. list_object_entries db b = Inr R \<and>
    follow (\<lambda>cursor. scan_object_entries_page db b cursor n) (\<lambda>(_, finished). \<not> finished)
      (\<lambda>(es, _). if es = [] then None else Some (ref_cursor (last es))) (Suc (length R)) None = Some pages \<and>
    concat (map fst pages) = R"
proof -
  obtain R where R: "refs_of db b R" using refs_exist [OF assms(1,2)] by blast
  have E: "raw_entries (db, b) = R" by (simp add: raw_entries_def list_entries_refs [OF R])
  obtain rs where "follow (\<lambda>cursor. scan_object_entries_page db b cursor n) (\<lambda>(_, finished). \<not> finished)
      (\<lambda>(es, _). if es = [] then None else Some (ref_cursor (last es))) (Suc (length R)) None = Some (map (\<lambda>(es, t). (es, \<not> t)) rs)"
    "concat (map fst rs) = R"
    using raw_scan.follow_all [of "(db, b)" n "Suc (length R)"] assms E by auto
  then show ?thesis using list_entries_refs [OF R] by (auto simp: o_def case_prod_beta)
qed

definition plain_bucket :: bucket_meta where
  "plain_bucket = demo_bucket\<lparr>bk_versioning := Off\<rparr>"

definition plain_object :: object_meta where
  "plain_object = demo_object\<lparr>om_is_delete_marker := False\<rparr>"

definition bucket_with :: "bytes list \<Rightarrow> db" where
  "bucket_with ks = (bucket_key (lit ''b''), VBucket plain_bucket) # map (\<lambda>k. (object_key (lit ''b'') k, VObject plain_object)) ks"

text \<open>
  A key with a NUL character can be lost between pages: it is stored after keys that compare greater,
  so it falls behind the cursor and no page shows it, although the listing in one piece does.
\<close>

theorem nul_key_lost_between_pages:
  "\<exists>xs pages. list_objects (bucket_with [lit ''ab'', lit ''a'' @ [0]]) (lit ''b'') [] = Inr xs \<and> lit ''a'' @ [0] \<in> fst ` set xs \<and>
    follow (\<lambda>after. list_objects_page (bucket_with [lit ''ab'', lit ''a'' @ [0]]) (lit ''b'') [] None after 1)
      lp_truncated lp_last_scanned 3 None = Some pages \<and> lit ''a'' @ [0] \<notin> fst ` set (concat (map lp_items pages))"
proof -
  let ?db = "bucket_with [lit ''ab'', lit ''a'' @ [0]]"
  have "list_objects ?db (lit ''b'') [] = Inr [(lit ''ab'', plain_object), (lit ''a'' @ [0], plain_object)]" by code_simp
  moreover have "follow (\<lambda>after. list_objects_page ?db (lit ''b'') [] None after 1) lp_truncated lp_last_scanned 3 None =
      Some [\<lparr>lp_items = [(lit ''ab'', plain_object)], lp_common_prefixes = [], lp_truncated = True, lp_last_scanned = Some (lit ''ab'')\<rparr>,
        empty_page]" by code_simp
  ultimately show ?thesis by (auto simp: empty_page_def lit_def)
qed

section \<open>Witnesses\<close>

definition demo_keys :: "bytes list" where
  "demo_keys = [lit ''a/x'', lit ''a/y'', lit ''c'']"

lemma demo_entries: "list_object_entries (bucket_with demo_keys) (lit ''b'') = Inr (map (\<lambda>k. (k, None, plain_object)) demo_keys)"
  by code_simp

lemma demo_objects_ok: "objects_ok (bucket_with demo_keys)"
proof -
  have "kv_wf (bucket_with demo_keys)" by code_simp
  moreover have "\<exists>x m. object_ref_ok x \<and> k = object_ref_key x \<and> v = VObject m"
    if "kv_get (bucket_with demo_keys) k = Some v" "prefix PREFIX_OBJECT k" for k v
  proof -
    have "(k, v) \<in> set (bucket_with demo_keys)" using that(1) by (simp add: kv_get_def map_of_SomeD)
    moreover have "k \<noteq> bucket_key (lit ''b'')" using that(2) object_not_bucket by blast
    ultimately obtain j where j: "j \<in> set demo_keys" "k = object_key (lit ''b'') j" "v = VObject plain_object"
      by (auto simp: bucket_with_def)
    have "list_all (\<lambda>j. object_ref_ok (lit ''b'', j, None)) demo_keys" by code_simp
    then have "object_ref_ok (lit ''b'', j, None)" using j(1) by (simp add: list_all_iff)
    then show ?thesis using j by (intro exI [of _ "(lit ''b'', j, None)"]) (simp add: object_ref_key_def)
  qed
  ultimately show ?thesis by (simp add: objects_ok_def)
qed

lemma demo_listing: "listing_ok (bucket_with demo_keys) (lit ''b'')"
proof -
  have "name_ok (lit ''b'')" "bucket_versioning (bucket_with demo_keys) (lit ''b'') = Inr Off" by code_simp+
  moreover have "list_all (\<lambda>k. 0 \<notin> set k) demo_keys" "\<not> om_is_delete_marker plain_object" by code_simp+
  ultimately show ?thesis using demo_objects_ok demo_entries
    by (auto simp: listing_ok_def clean_def list_all_iff)
qed

theorem list_matches_get_witness:
  "\<exists>xs. list_objects (bucket_with demo_keys) (lit ''b'') (lit ''a/'') = Inr xs \<and> length xs = 2 \<and>
    (lit ''a/x'', plain_object) \<in> set xs \<and> resolve_object (bucket_with demo_keys) (lit ''b'') (lit ''a/x'') None (Some Off) = Inr plain_object \<and>
    sorted_wrt (\<lambda>x y. fst x < fst y) xs"
proof -
  have xs: "list_objects (bucket_with demo_keys) (lit ''b'') (lit ''a/'') = Inr [(lit ''a/x'', plain_object), (lit ''a/y'', plain_object)]"
    "bucket_versioning (bucket_with demo_keys) (lit ''b'') = Inr Off" "name_ok (lit ''b'')" by code_simp+
  have n: "list_all (\<lambda>k. 0 \<notin> set k) demo_keys" "\<not> om_is_delete_marker plain_object" by code_simp+
  then have c: "clean Off (map (\<lambda>k. (k, None, plain_object)) demo_keys)" by (auto simp: clean_def)
  have "\<forall>r \<in> set (map (\<lambda>k. (k, None :: bytes option, plain_object)) demo_keys). 0 \<notin> set (fst r)" using n(1) by (auto simp: list_all_iff)
  with list_matches_get [OF demo_objects_ok xs(3,2) demo_entries c, of "lit ''a/''"] xs(1) show ?thesis by auto
qed

theorem list_pages_complete_witness:
  "\<exists>pages. follow (\<lambda>after. list_objects_page (bucket_with demo_keys) (lit ''b'') [] (Some (lit ''/'')) after 1)
      lp_truncated lp_last_scanned 4 None = Some pages \<and>
    concat (map lp_items pages) = [(lit ''c'', plain_object)] \<and> set (concat (map lp_common_prefixes pages)) = {lit ''a/''}"
proof -
  let ?xs = "map (\<lambda>k. (k, plain_object)) demo_keys"
  have xs: "list_objects (bucket_with demo_keys) (lit ''b'') [] = Inr ?xs" by code_simp
  have e: "map (entry_of [] (Some (lit ''/''))) demo_keys = [(lit ''a/'', True), (lit ''a/'', True), (lit ''c'', False)]" by code_simp
  then have "filter (\<lambda>(k, _). \<not> snd (entry_of [] (Some (lit ''/'')) k)) ?xs = [(lit ''c'', plain_object)]"
    "{c. \<exists>(k, m) \<in> set ?xs. entry_of [] (Some (lit ''/'')) k = (c, True)} = {lit ''a/''}"
    by (auto simp: demo_keys_def)
  moreover have "Suc (length ?xs) = 4" by (simp add: demo_keys_def)
  ultimately show ?thesis using list_pages_complete [OF demo_listing, of 1 "[]" ?xs "Some (lit ''/'')"] xs by auto
qed

theorem raw_scan_complete_witness:
  "\<exists>pages. follow (\<lambda>cursor. scan_object_entries_page (bucket_with demo_keys) (lit ''b'') cursor 2) (\<lambda>(_, finished). \<not> finished)
      (\<lambda>(es, _). if es = [] then None else Some (ref_cursor (last es))) 4 None = Some pages \<and>
    concat (map fst pages) = map (\<lambda>k. (k, None, plain_object)) demo_keys"
proof -
  let ?R = "map (\<lambda>k. (k, None, plain_object)) demo_keys"
  have "name_ok (lit ''b'')" by code_simp
  moreover have "0 < (2 :: nat)" by simp
  ultimately have "\<exists>R pages. Inr ?R = (Inr R :: ref list result) \<and>
      follow (\<lambda>cursor. scan_object_entries_page (bucket_with demo_keys) (lit ''b'') cursor 2) (\<lambda>(_, finished). \<not> finished)
        (\<lambda>(es, _). if es = [] then None else Some (ref_cursor (last es))) (Suc (length R)) None = Some pages \<and> concat (map fst pages) = R"
    unfolding demo_entries [symmetric] by (rule raw_scan_complete [OF demo_objects_ok])
  then obtain R pages where r: "?R = R" "follow (\<lambda>cursor. scan_object_entries_page (bucket_with demo_keys) (lit ''b'') cursor 2) (\<lambda>(_, finished). \<not> finished)
      (\<lambda>(es, _). if es = [] then None else Some (ref_cursor (last es))) (Suc (length R)) None = Some pages" "concat (map fst pages) = R"
    unfolding sum.inject by (elim exE conjE)
  have "Suc (length R) = 4" unfolding r(1) [symmetric] by (simp add: demo_keys_def)
  with r(2,3) show ?thesis unfolding r(1) by (intro exI [of _ pages]) (simp only: simp_thms)
qed

end
