(* ===== verification/Replication.thy ===== *)
theory Replication
  imports Version_Writes
begin

text \<open>
  Replication at the level of the metadata store: what a record of the binlog refers to and how a stream is
  narrowed to some buckets (\<^verbatim>\<open>crates/fs3-meta/src/repl.rs\<close>), and the store's operations for it
  (\<^verbatim>\<open>crates/fs3-meta/src/lib.rs\<close>): applying a record on a standby, the upstream scan, slots and the truncation of
  the binlog, promotion, export, import and the clearing for a rebuild. A record keeps its operations; the segments and buckets it
  refers to are computed from them, as the code does when it makes a record. As elsewhere transactions are taken without contention, and stored values are kept decoded; the encoded
  length of a record, which the truncation counts, is a parameter.
\<close>

section \<open>Records\<close>

definition ref_of :: "segment \<Rightarrow> data_ref" where
  "ref_of s = \<lparr>df_extent_id = extent_id s, df_offset = seg_offset s, df_len = seg_len s\<rparr>"

definition meta_refs :: "object_meta \<Rightarrow> data_ref list" where
  "meta_refs m = map ref_of (om_extents m) @
     (case om_restore_state m of Some st \<Rightarrow> map ref_of (restored_extents st) | None \<Rightarrow> [])"

fun op_refs :: "meta_op \<Rightarrow> data_ref list" where
  "op_refs (ObjectPut _ _ m) = meta_refs m"
| "op_refs (ObjectPutVersion _ _ _ m) = meta_refs m"
| "op_refs (ObjectMigrate _ _ _ _ new) = map ref_of new"
| "op_refs (MultipartOp (PartMigrate _ _ _ new)) = map ref_of new"
| "op_refs (MultipartOp (PartPut _ _ m)) = map ref_of (pm_extents m)"
| "op_refs _ = []"

definition ref_key :: "data_ref \<Rightarrow> u32 \<times> u32 \<times> u32" where
  "ref_key d = (df_extent_id d, df_offset d, df_len d)"

definition data_refs_of :: "meta_op list \<Rightarrow> data_ref list" where
  "data_refs_of ops = remdups_adj (sort_key ref_key (concat (map op_refs ops)))"

definition repl_record_new :: "u64 \<Rightarrow> meta_op list \<Rightarrow> repl_record" where
  "repl_record_new epoch ops =
     \<lparr>rr_epoch = epoch, rr_ops = ops, rr_ts = None, rr_epoch_barrier = None, rr_raw_seq = None\<rparr>"

fun op_bucket :: "meta_op \<Rightarrow> bytes option" where
  "op_bucket (BucketPut n _ _) = Some n"
| "op_bucket (BucketDelete n) = Some n"
| "op_bucket (BucketSetVersioning n _) = Some n"
| "op_bucket (BucketSetEncryption n _) = Some n"
| "op_bucket (BucketSetEncryptionKms n _ _) = Some n"
| "op_bucket (BucketSetObjectLock n _) = Some n"
| "op_bucket (BucketConfPut b _ _) = Some b"
| "op_bucket (BucketConfDelete b _) = Some b"
| "op_bucket (LifecycleRulesReplace b _) = Some b"
| "op_bucket (LifecycleRulesDelete b) = Some b"
| "op_bucket (ConfigOp (NotificationRulesReplace b _)) = Some b"
| "op_bucket (ConfigOp (NotificationRulesDelete b)) = Some b"
| "op_bucket (ConfigOp (InventoryRulePut b _)) = Some b"
| "op_bucket (ConfigOp (InventoryRuleDelete b _)) = Some b"
| "op_bucket (ObjectPut b _ _) = Some b"
| "op_bucket (ObjectMigrate b _ _ _ _) = Some b"
| "op_bucket (ObjectSetTags b _ _ _) = Some b"
| "op_bucket (ObjectSetRetention b _ _ _) = Some b"
| "op_bucket (ObjectSetLegalHold b _ _ _) = Some b"
| "op_bucket (ObjectDelete b _) = Some b"
| "op_bucket (ObjectDeleteCurrent b _ _ _) = Some b"
| "op_bucket (ObjectDeleteVersion b _ _) = Some b"
| "op_bucket (ObjectPutVersion b _ _ _) = Some b"
| "op_bucket (Stats b _) = Some b"
| "op_bucket (EventEnqueue r) = Some (ev_bucket r)"
| "op_bucket (RestoreJobPut j) = Some (rj_bucket j)"
| "op_bucket (ConfigOp (IngestJobPut j)) = Some (ij_dest_bucket j)"
| "op_bucket (MultipartOp (MultipartCreate _ s)) = Some (ms_bucket s)"
| "op_bucket _ = None"

definition op_kept :: "bucket_filter \<Rightarrow> meta_op \<Rightarrow> bool" where
  "op_kept filters op = (case op_bucket op of None \<Rightarrow> True | Some b \<Rightarrow> allows_bucket filters b)"

definition scoped_for :: "bucket_filter \<Rightarrow> repl_record \<Rightarrow> repl_record" where
  "scoped_for filters r = (if filters = AllBuckets then r else r\<lparr>rr_ops := filter (op_kept filters) (rr_ops r)\<rparr>)"

section \<open>State of a node\<close>

datatype repl_role = Primary | Standby

fun role_str :: "repl_role \<Rightarrow> bytes" where
  "role_str Primary = lit ''primary''"
| "role_str Standby = lit ''standby''"

definition parse_role :: "bytes \<Rightarrow> repl_role result" where
  "parse_role raw = (if raw = lit ''primary'' then Inr Primary else if raw = lit ''standby'' then Inr Standby else Inl Corrupt)"

definition read_role :: "db \<Rightarrow> repl_role result" where
  "read_role db = (case kv_get db SYS_REPL_ROLE of
       None \<Rightarrow> Inr Primary | Some (VRaw b) \<Rightarrow> parse_role b | Some _ \<Rightarrow> Inl Corrupt)"

definition set_repl_role :: "repl_role \<Rightarrow> db \<Rightarrow> db" where
  "set_repl_role r db = kv_put SYS_REPL_ROLE (VRaw (role_str r)) db"

definition repl_epoch :: "db \<Rightarrow> u64 result" where
  "repl_epoch db = read_u64 db SYS_REPL_EPOCH REPL_INITIAL_EPOCH"

definition repl_ebase :: "db \<Rightarrow> u64 result" where
  "repl_ebase db = read_u64 db SYS_REPL_EBASE 0"

fun decode_gtids :: "stored \<Rightarrow> gtid_set result" where
  "decode_gtids (VGtids g) = bind_res (check_ranges (ranges g)) (\<lambda>_. Inr g)"
| "decode_gtids _ = Inl Corrupt"

definition repl_executed :: "db \<Rightarrow> gtid_set result" where
  "repl_executed db = (case kv_get db SYS_REPL_EXECUTED of None \<Rightarrow> Inr gs_new | Some v \<Rightarrow> decode_gtids v)"

definition repl_cursor :: "db \<Rightarrow> gtid result" where
  "repl_cursor db = (case kv_get db SYS_REPL_CURSOR of
       None \<Rightarrow> Inr \<lparr>g_epoch = 0, g_seq = 0\<rparr> | Some (VRaw b) \<Rightarrow> parse_repl_cursor_value b | Some _ \<Rightarrow> Inl Corrupt)"

definition repl_bucket_scoped :: "db \<Rightarrow> bool" where
  "repl_bucket_scoped db \<longleftrightarrow> kv_get db SYS_REPL_BUCKET_SCOPED \<noteq> None"

definition set_repl_bucket_scoped :: "bool \<Rightarrow> db \<Rightarrow> db" where
  "set_repl_bucket_scoped scoped db =
     (if scoped then kv_put SYS_REPL_BUCKET_SCOPED (VRaw (lit ''1'')) db else kv_del SYS_REPL_BUCKET_SCOPED db)"

definition repl_pending_exists :: "db \<Rightarrow> gtid \<Rightarrow> bool" where
  "repl_pending_exists db g \<longleftrightarrow> kv_get db (repl_pending_key g) \<noteq> None"

definition repl_object_data_pending :: "db \<Rightarrow> bytes \<Rightarrow> bytes \<Rightarrow> bool" where
  "repl_object_data_pending db b k \<longleftrightarrow> kv_get db (repl_pending_obj_key b k) \<noteq> None"

fun decode_repl :: "stored \<Rightarrow> repl_record result" where
  "decode_repl (VRepl r) = Inr r"
| "decode_repl _ = Inl Corrupt"

section \<open>Standby: applying a record\<close>

datatype repl_apply_outcome = Applied | SkippedDuplicate

fun pending_target :: "meta_op \<Rightarrow> (bytes \<times> bytes) option" where
  "pending_target (ObjectPut b k _) = Some (b, k)"
| "pending_target (ObjectPutVersion b k _ _) = Some (b, k)"
| "pending_target (ObjectMigrate b k _ _ _) = Some (b, k)"
| "pending_target _ = None"

definition mark_pending :: "gtid \<Rightarrow> repl_record \<Rightarrow> db \<Rightarrow> db" where
  "mark_pending g r db =
     (if data_refs_of (rr_ops r) = [] then db
      else fold (\<lambda>(b, k). kv_put (repl_pending_obj_key b k) (VRaw [])) (List.map_filter pending_target (rr_ops r))
             (kv_put (repl_pending_key g) (VRefs (data_refs_of (rr_ops r))) db))"

text \<open>A sequence number of zero fails an assertion of the position set, which stops the code.\<close>

definition apply_repl_record :: "nat \<Rightarrow> gtid \<Rightarrow> repl_record \<Rightarrow> db \<Rightarrow> (db \<times> repl_apply_outcome) result" where
  "apply_repl_record event_queue_max g r db =
     (if g_epoch g \<noteq> unat (rr_epoch r) then Inl InvalidArgument
      else bind_res (repl_cursor db) (\<lambda>cursor.
        if \<not> gtid_less cursor g then Inr (db, SkippedDuplicate)
        else if unat (rr_epoch r) < max (g_epoch cursor) (unat REPL_INITIAL_EPOCH) then Inl InvalidArgument
        else bind_res (read_u64 db SYS_REPL_EPOCH REPL_INITIAL_EPOCH) (\<lambda>local_epoch.
          let db1 = (if local_epoch < rr_epoch r then put_u64 SYS_REPL_EPOCH (rr_epoch r) db else db)
          in bind_res (apply_ops db1 (rr_ops r) (Replay g r)) (\<lambda>(db2, _).
             bind_res (repl_executed db2) (\<lambda>executed.
             bind_res (ok_or Corrupt (gs_insert executed g)) (\<lambda>executed'.
               let db3 = kv_put SYS_REPL_EXECUTED (VGtids executed') db2;
                   db4 = kv_put SYS_REPL_CURSOR (VRaw (repl_cursor_value g)) db3;
                   db5 = mark_pending g r db4
               in Inr (if list_ex is_event_enqueue (rr_ops r) then fst (truncate_events event_queue_max db5) else db5,
                       Applied)))))))"

text \<open>A pulled batch, in order: the worker stops at the first error and keeps what it has applied.\<close>

primrec apply_batch :: "nat \<Rightarrow> (gtid \<times> repl_record) list \<Rightarrow> db \<Rightarrow> db \<times> fs3_error option" where
  "apply_batch mx [] db = (db, None)"
| "apply_batch mx (x # xs) db =
     (case apply_repl_record mx (fst x) (snd x) db of
        Inl e \<Rightarrow> (db, Some e)
      | Inr (db', _) \<Rightarrow> apply_batch mx xs db')"

section \<open>Upstream: scanning the binlog\<close>

fun binlog_scan_loop :: "gtid \<Rightarrow> nat \<Rightarrow> db \<Rightarrow> (gtid \<times> repl_record) list result" where
  "binlog_scan_loop after limit [] = Inr []"
| "binlog_scan_loop after limit ((k, v) # items) =
     (if \<not> prefix PREFIX_BINLOG k then Inr []
      else bind_res (parse_binlog_gtid k) (\<lambda>g.
        if \<not> gtid_less after g then binlog_scan_loop after limit items
        else bind_res (decode_repl v) (\<lambda>r.
          if limit \<le> 1 then Inr [(g, r)]
          else bind_res (binlog_scan_loop after (limit - 1) items) (\<lambda>out. Inr ((g, r) # out)))))"

definition repl_binlog_scan :: "db \<Rightarrow> gtid \<Rightarrow> nat \<Rightarrow> (gtid \<times> repl_record) list result" where
  "repl_binlog_scan db after limit =
     (if limit = 0 then Inr []
      else binlog_scan_loop after limit
        (iter_from (binlog_key (of_nat (g_epoch after)) (of_nat (sat_add1 (g_seq after)))) db))"

section \<open>Slots and truncation\<close>

fun decode_slot :: "stored \<Rightarrow> slot result" where
  "decode_slot (VSlot s) = Inr s"
| "decode_slot _ = Inl Corrupt"

definition put_repl_slot :: "slot \<Rightarrow> db \<Rightarrow> db result" where
  "put_repl_slot s db = bind_res (repl_slot_key (slot_name s)) (\<lambda>k. Inr (kv_put k (VSlot s) db))"

definition ack_repl_slot :: "bytes \<Rightarrow> gtid \<Rightarrow> int \<Rightarrow> db \<Rightarrow> (db \<times> slot) result" where
  "ack_repl_slot name confirmed now db =
     bind_res (repl_slot_key name) (\<lambda>k.
     bind_res (ok_or NotFound (kv_get db k)) (\<lambda>v.
     bind_res (decode_slot v) (\<lambda>s.
       if slot_stale s then Inl InvalidArgument
       else if gtid_less confirmed (slot_confirmed s) then Inl InvalidArgument
       else (let s' = s\<lparr>slot_confirmed := confirmed, slot_last_ack_at := now\<rparr>
             in bind_res (repl_slot_key (slot_name s')) (\<lambda>k'. Inr (kv_put k' (VSlot s') db, s'))))))"

definition mark_repl_slot_stale_if_behind :: "bytes \<Rightarrow> gtid \<Rightarrow> db \<Rightarrow> (db \<times> bool) result" where
  "mark_repl_slot_stale_if_behind name cut_through db =
     bind_res (repl_slot_key name) (\<lambda>k.
       case kv_get db k of
         None \<Rightarrow> Inr (db, False)
       | Some v \<Rightarrow> bind_res (decode_slot v) (\<lambda>s.
           if slot_stale s \<or> \<not> gtid_less (slot_confirmed s) cut_through then Inr (db, False)
           else bind_res (repl_slot_key (slot_name s)) (\<lambda>k'. Inr (kv_put k' (VSlot (s\<lparr>slot_stale := True\<rparr>)) db, True))))"

fun decode_slots :: "db \<Rightarrow> slot list result" where
  "decode_slots [] = Inr []"
| "decode_slots ((k, v) # items) =
     bind_res (decode_slot v) (\<lambda>s. bind_res (decode_slots items) (\<lambda>out. Inr (s # out)))"

definition list_repl_slots :: "db \<Rightarrow> slot list result" where
  "list_repl_slots db = decode_slots (scan_prefix db PREFIX_REPL_SLOT)"

definition delete_repl_slot :: "bytes \<Rightarrow> db \<Rightarrow> db result" where
  "delete_repl_slot name db = bind_res (repl_slot_key name) (\<lambda>k. Inr (kv_del k db))"

record retain_config =
  rc_hours :: u64
  rc_bytes :: nat
  rc_bytes_hard :: nat

record binlog_entry =
  be_gtid :: gtid
  be_bytes :: nat
  be_ts :: "int option"
  be_refs :: "data_ref list"

fun binlog_entries :: "(repl_record \<Rightarrow> nat) \<Rightarrow> db \<Rightarrow> binlog_entry list result" where
  "binlog_entries enc_len [] = Inr []"
| "binlog_entries enc_len ((k, v) # items) =
     bind_res (decode_repl v) (\<lambda>r.
     bind_res (parse_binlog_gtid k) (\<lambda>g.
       if unat (rr_epoch r) \<noteq> g_epoch g then Inl Corrupt
       else bind_res (binlog_entries enc_len items) (\<lambda>out.
         Inr (\<lparr>be_gtid = g, be_bytes = enc_len r, be_ts = rr_ts r, be_refs = data_refs_of (rr_ops r)\<rparr> # out))))"

text \<open>
  The first entry the soft limits keep, counted from the newest side. Lengths are counted without wrap-around: the
  saturating addition of the code only differs above \<^verbatim>\<open>2^64\<close> bytes. The age limit is \<^verbatim>\<open>hours * 3600\<close>, saturated at
  \<^verbatim>\<open>2^64 - 1\<close> and read as a signed number.
\<close>

definition max_age_secs :: "retain_config \<Rightarrow> int" where
  "max_age_secs rc = sint (of_nat (min (unat (rc_hours rc) * 3600) u64_max) :: u64)"

definition over_age :: "retain_config \<Rightarrow> int \<Rightarrow> binlog_entry \<Rightarrow> bool" where
  "over_age rc now e = (case be_ts e of None \<Rightarrow> False | Some ts \<Rightarrow> max_age_secs rc < sat_sub_i64 now ts)"

fun kept_tail :: "retain_config \<Rightarrow> int \<Rightarrow> nat \<Rightarrow> binlog_entry list \<Rightarrow> nat" where
  "kept_tail rc now tail_bytes [] = 0"
| "kept_tail rc now tail_bytes (e # newest_first) =
     (if rc_bytes rc < tail_bytes + be_bytes e \<or> over_age rc now e then 0
      else Suc (kept_tail rc now (tail_bytes + be_bytes e) newest_first))"

definition soft_cut :: "retain_config \<Rightarrow> int \<Rightarrow> binlog_entry list \<Rightarrow> nat" where
  "soft_cut rc now es = length es - kept_tail rc now 0 (rev es)"

definition bytes_of :: "binlog_entry list \<Rightarrow> nat" where
  "bytes_of es = sum_list (map be_bytes es)"

fun force_cut :: "nat \<Rightarrow> binlog_entry list \<Rightarrow> nat" where
  "force_cut hard [] = 0"
| "force_cut hard (e # es) = (if hard < bytes_of (e # es) then Suc (force_cut hard es) else 0)"

definition gtid_min :: "gtid list \<Rightarrow> gtid option" where
  "gtid_min gs = (case gs of [] \<Rightarrow> None
     | g # rest \<Rightarrow> Some (fold (\<lambda>h m. if gtid_less h m then h else m) rest g))"

definition allowed_cut :: "gtid option \<Rightarrow> binlog_entry list \<Rightarrow> nat" where
  "allowed_cut floor es = (case floor of
       None \<Rightarrow> length es
     | Some f \<Rightarrow> length (takeWhile (\<lambda>e. \<not> gtid_less f (be_gtid e)) es))"

definition rmap_id :: "binlog_entry \<Rightarrow> data_ref \<Rightarrow> bytes" where
  "rmap_id e d = repl_rmap_key (of_nat (g_epoch (be_gtid e))) (df_extent_id d) (df_offset d) (df_len d)"

definition entry_rmaps :: "binlog_entry list \<Rightarrow> bytes list" where
  "entry_rmaps es = concat (map (\<lambda>e. map (rmap_id e) (be_refs e)) es)"

fun mark_stale_all :: "slot list \<Rightarrow> gtid \<Rightarrow> db \<Rightarrow> db result" where
  "mark_stale_all [] cut_through db = Inr db"
| "mark_stale_all (s # ss) cut_through db =
     (if gtid_less (slot_confirmed s) cut_through
      then bind_res (mark_repl_slot_stale_if_behind (slot_name s) cut_through db) (\<lambda>(db', _). mark_stale_all ss cut_through db')
      else mark_stale_all ss cut_through db)"

definition truncate_binlog :: "(repl_record \<Rightarrow> nat) \<Rightarrow> bool \<Rightarrow> int \<Rightarrow> retain_config \<Rightarrow> db \<Rightarrow> db result" where
  "truncate_binlog enc_len binlog now rc db =
     (if \<not> binlog then Inr db
      else bind_res (list_repl_slots db) (\<lambda>all_slots.
        let slots = filter (\<lambda>s. \<not> slot_stale s) all_slots
        in bind_res (binlog_entries enc_len (scan_prefix db PREFIX_BINLOG)) (\<lambda>es.
             let soft = min (soft_cut rc now es) (allowed_cut (gtid_min (map slot_confirmed slots)) es);
                 cut = soft + force_cut (rc_bytes_hard rc) (drop soft es)
             in if cut = 0 then Inr db
                else
                  (let cut_through = be_gtid (es ! (cut - 1));
                       db1 = fold (\<lambda>e. kv_del (binlog_key (of_nat (g_epoch (be_gtid e))) (of_nat (g_seq (be_gtid e)))))
                               (take cut es) db;
                       db2 = fold kv_del (filter (\<lambda>i. i \<notin> set (entry_rmaps (drop cut es))) (entry_rmaps (take cut es))) db1
                   in if soft < cut then mark_stale_all slots cut_through db2 else Inr db2))))"

section \<open>Promotion\<close>

datatype promote_error = NotStandby | BucketScoped | PendingDiscards | PromoteStore fs3_error

definition lift_store :: "'a result \<Rightarrow> promote_error + 'a" where
  "lift_store r = (case r of Inl e \<Rightarrow> Inl (PromoteStore e) | Inr x \<Rightarrow> Inr x)"

fun parse_all :: "('b \<Rightarrow> 'a result) \<Rightarrow> 'b list \<Rightarrow> 'a list result" where
  "parse_all f [] = Inr []"
| "parse_all f (x # xs) = bind_res (f x) (\<lambda>y. bind_res (parse_all f xs) (\<lambda>ys. Inr (y # ys)))"

definition discard_object :: "bytes \<times> bytes \<Rightarrow> db \<Rightarrow> db" where
  "discard_object o' db =
     (let base = object_key (fst o') (snd o')
      in clear_prefix (base @ [0]) (kv_del base db))"

definition discard_pending :: "db \<Rightarrow> (bytes \<times> bytes) list \<Rightarrow> db" where
  "discard_pending db objects =
     fold kv_del (map fst (scan_prefix db PREFIX_REPL_PENDING_OBJ))
       (fold kv_del (map fst (scan_prefix db PREFIX_REPL_PENDING)) (fold discard_object objects db))"

definition epoch_barrier_record :: "u64 \<Rightarrow> u64 \<Rightarrow> u64 \<Rightarrow> int \<Rightarrow> repl_record" where
  "epoch_barrier_record new_epoch old_epoch raw now =
     (repl_record_new new_epoch [])\<lparr>rr_ts := Some now, rr_epoch_barrier := Some old_epoch, rr_raw_seq := Some raw\<rparr>"

definition turn_primary :: "int \<Rightarrow> u64 \<Rightarrow> u64 \<Rightarrow> db \<Rightarrow> (db \<times> u64) result" where
  "turn_primary now old_epoch cur_seq db =
     (if old_epoch = - 1 then Inl Corrupt
      else
        (let new_epoch = old_epoch + 1;
             db1 = put_u64 SYS_SEQ (cur_seq + 1) (put_u64 SYS_REPL_EBASE cur_seq (put_u64 SYS_REPL_EPOCH new_epoch db));
             db2 = kv_put (binlog_key new_epoch 1) (VRepl (epoch_barrier_record new_epoch old_epoch (cur_seq + 1) now)) db1;
             db3 = kv_del SYS_REPL_UPCHAIN (kv_put SYS_REPL_EVER_PRIMARY (VRaw (lit ''1'')) db2)
         in bind_res (repl_executed db3) (\<lambda>executed.
            bind_res (ok_or Corrupt (gs_insert executed \<lparr>g_epoch = unat new_epoch, g_seq = 1\<rparr>)) (\<lambda>executed'.
              Inr (set_repl_role Primary (kv_put SYS_REPL_EXECUTED (VGtids executed') db3), new_epoch)))))"

definition promote :: "int \<Rightarrow> bool \<Rightarrow> db \<Rightarrow> promote_error + (db \<times> u64)" where
  "promote now force db =
     bind_res (lift_store (read_role db)) (\<lambda>role.
       if role \<noteq> Standby then Inl NotStandby
       else if repl_bucket_scoped db then Inl BucketScoped
       else
         bind_res (lift_store (repl_epoch db)) (\<lambda>old_epoch.
         bind_res (lift_store (last_seq db)) (\<lambda>cur_seq.
           let pending = map fst (scan_prefix db PREFIX_REPL_PENDING);
               pdobj = map fst (scan_prefix db PREFIX_REPL_PENDING_OBJ)
           in if pending \<noteq> [] \<and> \<not> force then Inl PendingDiscards
              else
                bind_res (if pending = [] then Inr db
                          else lift_store (bind_res (parse_all parse_repl_pending_obj_key pdobj) (\<lambda>objects.
                            Inr (discard_pending db (remdups objects))))) (\<lambda>db1.
                  lift_store (turn_primary now old_epoch cur_seq db1)))))"

section \<open>Export, import and rebuild\<close>

definition export_key_excluded :: "bytes \<Rightarrow> bool" where
  "export_key_excluded k \<longleftrightarrow> \<not> (k = SYS_SSE_KEK_SEED \<or> k = SYS_SSE_KEK_GEN) \<and>
     list_ex (\<lambda>p. prefix p k) [PREFIX_SYS, PREFIX_ALLOC, PREFIX_TXN, PREFIX_BINLOG, PREFIX_EVENT, PREFIX_RESTORE_JOB,
       PREFIX_INGEST_JOB, PREFIX_BATCH_JOB]"

definition str_ok :: "bytes \<Rightarrow> bytes option" where
  "str_ok b = (if utf8_valid b then Some b else None)"

definition export_key_bucket :: "bytes \<Rightarrow> bytes option" where
  "export_key_bucket k =
     (case find (\<lambda>p. prefix p k) [PREFIX_BUCKET, PREFIX_BUCKET_LOC, PREFIX_BUCKET_CORS, PREFIX_BUCKET_TAGGING,
          PREFIX_BUCKET_OWNERSHIP, PREFIX_BUCKET_BPA, PREFIX_BUCKET_POLICY] of
        Some p \<Rightarrow> str_ok (drop (length p) k)
      | None \<Rightarrow>
          (case find (\<lambda>p. prefix p k) [PREFIX_OBJECT, PREFIX_LIFECYCLE_RULE, PREFIX_NOTIFICATION, PREFIX_INVENTORY,
              PREFIX_UPLOAD_INDEX] of
             Some p \<Rightarrow> str_ok (takeWhile (\<lambda>b. b \<noteq> 0) (drop (length p) k))
           | None \<Rightarrow> None))"

definition export_key_included :: "bucket_filter \<Rightarrow> bytes \<Rightarrow> bool" where
  "export_key_included filters k \<longleftrightarrow> \<not> export_key_excluded k \<and>
     (case export_key_bucket k of None \<Rightarrow> True | Some b \<Rightarrow> allows_bucket filters b)"

definition export_snapshot :: "bucket_filter \<Rightarrow> db \<Rightarrow> db" where
  "export_snapshot filters db = filter (\<lambda>(k, _). export_key_included filters k) db"

definition merge_alloc :: "u64 \<Rightarrow> alloc_draft \<Rightarrow> db \<Rightarrow> db result" where
  "merge_alloc seq d db =
     (if draft_is_empty d then Inr db
      else
        bind_res (case kv_get db (alloc_key seq) of
            None \<Rightarrow> Inr \<lparr>r_seq = seq, r_txn = seq, r_alloc = [], r_ref_inc = [], r_ref_dec = []\<rparr>
          | Some (VAlloc r) \<Rightarrow> Inr r
          | Some _ \<Rightarrow> Inl Corrupt) (\<lambda>r.
          Inr (put_u64 (txn_key seq) seq (kv_put (alloc_key seq)
            (VAlloc (r\<lparr>r_alloc := r_alloc r @ d_alloc d, r_ref_inc := r_ref_inc r @ d_ref_inc d,
                       r_ref_dec := r_ref_dec r @ d_ref_dec d\<rparr>)) db))))"

definition import_repl_batch :: "db \<Rightarrow> alloc_draft option \<Rightarrow> u64 \<Rightarrow> db \<Rightarrow> db result" where
  "import_repl_batch entries alloc import_seq db =
     (let db1 = fold (\<lambda>(k, v). kv_put k v) entries db
      in case alloc of None \<Rightarrow> Inr db1 | Some d \<Rightarrow> merge_alloc import_seq d db1)"

definition finalize_repl_import :: "gtid \<Rightarrow> gtid_set \<Rightarrow> u64 \<Rightarrow> u64 \<Rightarrow> db \<Rightarrow> db result" where
  "finalize_repl_import point executed raw_seq ebase db =
     (let db1 = kv_put SYS_REPL_EXECUTED (VGtids executed) (kv_put SYS_REPL_CURSOR (VRaw (repl_cursor_value point)) db)
      in bind_res (read_u64 db1 SYS_REPL_EPOCH 0) (\<lambda>local_epoch.
         let db2 = put_u64 SYS_REPL_EPOCH (max local_epoch (of_nat (g_epoch point))) db1
         in bind_res (read_u64 db2 SYS_SEQ 0) (\<lambda>cur_seq.
            Inr (put_u64 SYS_REPL_EBASE ebase (put_u64 SYS_SEQ (max cur_seq raw_seq) db2)))))"

definition wiped_families :: "bytes list" where
  "wiped_families = [PREFIX_BINLOG, PREFIX_REPL_PENDING, PREFIX_REPL_PENDING_OBJ, PREFIX_REPL_RMAP, PREFIX_REPL_SLOT,
     PREFIX_REPL_DCRED_OUT, PREFIX_REPL_DCRED_IN, PREFIX_BUCKET, PREFIX_BUCKET_LOC, PREFIX_BUCKET_CORS,
     PREFIX_BUCKET_TAGGING, PREFIX_BUCKET_OWNERSHIP, PREFIX_BUCKET_BPA, PREFIX_BUCKET_POLICY, PREFIX_OBJECT,
     PREFIX_UPLOAD, PREFIX_UPLOAD_INDEX, PREFIX_PART, PREFIX_KEY, PREFIX_LIFECYCLE_RULE, PREFIX_NOTIFICATION,
     PREFIX_INVENTORY, PREFIX_TENANT, PREFIX_IAM_USER, PREFIX_IAM_GROUP, PREFIX_IAM_POLICY, PREFIX_IAM_ROLE]"

definition wipe_replicated_families :: "db \<Rightarrow> db" where
  "wipe_replicated_families db = fold clear_prefix wiped_families db"

definition clear_for_rebuild :: "int \<Rightarrow> db \<Rightarrow> db" where
  "clear_for_rebuild now db =
     (let db1 = set_repl_role Standby (kv_put SYS_REBUILD_PENDING (VRaw (to_be_bytes (of_int now :: u64))) db);
          db2 = fold kv_del [SYS_REPL_CURSOR, SYS_REPL_EXECUTED, SYS_REPL_EPOCH, SYS_REPL_EBASE, SYS_REPL_BUCKET_SCOPED,
                  SYS_REPL_UPCHAIN, SYS_REPL_EVER_PRIMARY] db1
      in kv_del SYS_REBUILD_PENDING (wipe_replicated_families db2))"

end
