(* ===== verification/Replica_Sim.thy ===== *)
theory Replica_Sim
  imports Replication
begin

text \<open>
  A standby replays the operations of the primary on its own store, where the segments of objects and parts have
  other places. The relation \<open>sim\<close> states that two stores hold the same metadata up to those places, and every
  operation that succeeds on the primary succeeds on the standby and keeps the relation. The locale
  \<open>forward_simulation\<close> carries this from one operation to a transaction.
\<close>

section \<open>Two stores with the same metadata\<close>

definition strip_meta :: "object_meta \<Rightarrow> object_meta" where
  "strip_meta m = m\<lparr>om_extents := [], om_restore_state := map_option (\<lambda>st. st\<lparr>restored_extents := []\<rparr>) (om_restore_state m)\<rparr>"

fun strip :: "stored \<Rightarrow> stored" where
  "strip (VObject m) = VObject (strip_meta m)"
| "strip (VPart p) = VPart (PCurrent ((part_of_format p)\<lparr>pm_extents := []\<rparr>))"
| "strip v = v"

definition is_metadata :: "bytes \<Rightarrow> bool" where
  "is_metadata k \<longleftrightarrow> list_ex (\<lambda>p. prefix p k) metadata_families"

definition sim :: "db \<Rightarrow> db \<Rightarrow> bool" where
  "sim p s \<longleftrightarrow> kv_wf p \<and> kv_wf s \<and>
     (\<forall>k. is_metadata k \<longrightarrow> map_option strip (kv_get p k) = map_option strip (kv_get s k))"

lemma simD: "sim p s \<Longrightarrow> kv_wf p" "sim p s \<Longrightarrow> kv_wf s"
  "sim p s \<Longrightarrow> is_metadata k \<Longrightarrow> map_option strip (kv_get p k) = map_option strip (kv_get s k)"
  by (simp_all add: sim_def)

lemma is_metadataI: "prefix p k \<Longrightarrow> p \<in> set metadata_families \<Longrightarrow> is_metadata k"
  by (auto simp: is_metadata_def list_ex_iff)

lemma metadata_members [simp]:
  "PREFIX_BUCKET \<in> set metadata_families" "PREFIX_BUCKET_LOC \<in> set metadata_families"
  "PREFIX_LIFECYCLE_RULE \<in> set metadata_families" "PREFIX_NOTIFICATION \<in> set metadata_families"
  "PREFIX_INVENTORY \<in> set metadata_families" "PREFIX_EVENT \<in> set metadata_families"
  "PREFIX_RESTORE_JOB \<in> set metadata_families" "PREFIX_OBJECT \<in> set metadata_families"
  "PREFIX_INGEST_JOB \<in> set metadata_families" "PREFIX_BATCH_JOB \<in> set metadata_families"
  "PREFIX_UPLOAD \<in> set metadata_families" "PREFIX_UPLOAD_INDEX \<in> set metadata_families"
  "PREFIX_PART \<in> set metadata_families" "PREFIX_SESSION \<in> set metadata_families" "PREFIX_KEY \<in> set metadata_families"
  "PREFIX_TENANT \<in> set metadata_families" "PREFIX_IAM_USER \<in> set metadata_families"
  "PREFIX_IAM_GROUP \<in> set metadata_families" "PREFIX_IAM_POLICY \<in> set metadata_families"
  "PREFIX_IAM_ROLE \<in> set metadata_families"
  by (simp_all add: metadata_families_def)

lemma metadata_keys [simp]:
  "is_metadata (bucket_key b)" "is_metadata (bucket_location_key b)" "is_metadata (object_key b k)"
  "is_metadata (object_version_key b k vk)" "is_metadata (entry_key b k v)" "is_metadata (event_key n)"
  "is_metadata (restore_job_key n)" "is_metadata (lifecycle_rule_key b i)" "is_metadata (session_key u)"
  "is_metadata (session_index_key b u)" "is_metadata (part_key u j)" "is_metadata (key_key a)"
  "is_metadata (notification_rule_key b i)" "is_metadata (inventory_config_key b i)" "is_metadata (sts_session_key i')"
  by (rule is_metadataI, rule key_prefixes entity_key_prefixes, simp)+

lemma entity_metadata:
  "ingest_job_key i = Inr k \<Longrightarrow> is_metadata k" "batch_job_key i = Inr k \<Longrightarrow> is_metadata k"
  "tenant_key t = Inr k \<Longrightarrow> is_metadata k" "iam_user_key t n = Inr k \<Longrightarrow> is_metadata k"
  "iam_group_key t n = Inr k \<Longrightarrow> is_metadata k" "iam_policy_key t n = Inr k \<Longrightarrow> is_metadata k"
  "iam_role_key t n = Inr k \<Longrightarrow> is_metadata k"
  by (erule is_metadataI [OF entity_key_Inr(1)] is_metadataI [OF entity_key_Inr(2)] is_metadataI [OF entity_key_Inr(3)]
      is_metadataI [OF entity_key_Inr(4)] is_metadataI [OF entity_key_Inr(5)] is_metadataI [OF entity_key_Inr(6)]
      is_metadataI [OF entity_key_Inr(7)], simp)+

lemma sim_get:
  assumes "sim p s" "is_metadata k" "kv_get p k = Some v"
  obtains w where "kv_get s k = Some w" "strip w = strip v"
  using simD(3) [OF assms(1,2)] assms(3) by (cases "kv_get s k") auto

lemma sim_none: "sim p s \<Longrightarrow> is_metadata k \<Longrightarrow> kv_get s k = None \<longleftrightarrow> kv_get p k = None"
  using simD(3) by (metis option.map_disc_iff)

lemma sim_put: "sim p s \<Longrightarrow> strip v = strip w \<Longrightarrow> sim (kv_put k v p) (kv_put k w s)"
  by (auto simp: sim_def store.wf_put store.get_put)

lemma sim_put_same: "sim p s \<Longrightarrow> sim (kv_put k v p) (kv_put k v s)"
  by (rule sim_put) simp_all

lemma sim_del: "sim p s \<Longrightarrow> sim (kv_del k p) (kv_del k s)"
  by (auto simp: sim_def store.wf_del kv_get_del)

lemma sim_clear: "sim p s \<Longrightarrow> sim (clear_prefix q p) (clear_prefix q s)"
  by (auto simp: sim_def clear_prefix_wf clear_prefix_get)

lemma sim_fold_put: "sim p s \<Longrightarrow> sim (fold (\<lambda>r. kv_put (f r) (g r)) rs p) (fold (\<lambda>r. kv_put (f r) (g r)) rs s)"
  by (induction rs arbitrary: p s) (simp_all add: sim_put_same)

lemma sim_fold_del: "sim p s \<Longrightarrow> sim (fold (\<lambda>c. kv_del (f c)) cs p) (fold (\<lambda>c. kv_del (f c)) cs s)"
  by (induction cs arbitrary: p s) (simp_all add: sim_del)

lemma sim_dels: "sim p s \<Longrightarrow> sim (fold kv_del ks p) (fold kv_del ks s)"
  by (induction ks arbitrary: p s) (simp_all add: sim_del)

text \<open>Changes outside the metadata do not matter, on either side.\<close>

lemma sim_put_left: "sim p s \<Longrightarrow> \<not> is_metadata k \<Longrightarrow> sim (kv_put k v p) s"
  by (auto simp: sim_def store.wf_put store.get_put)

lemma sim_put_right: "sim p s \<Longrightarrow> \<not> is_metadata k \<Longrightarrow> sim p (kv_put k v s)"
  by (auto simp: sim_def store.wf_put store.get_put)

lemmas sim_intros = sim_put_same sim_del sim_clear sim_fold_put sim_fold_del

lemma sim_scan:
  assumes "sim p s" "prefix f q" "f \<in> set metadata_families"
  shows "map (apsnd strip) (scan_prefix p q) = map (apsnd strip) (scan_prefix s q)"
proof (rule sorted_key_unique [where f = fst])
  note wf = simD(1,2) [OF assms(1)]
  show "sorted_wrt (\<lambda>x y. fst x < fst y) (map (apsnd strip) (scan_prefix p q))"
    "sorted_wrt (\<lambda>x y. fst x < fst y) (map (apsnd strip) (scan_prefix s q))"
    using store.sorted_scan [OF wf(1), of q] store.sorted_scan [OF wf(2), of q] by (simp_all add: sorted_wrt_map)
  have m: "prefix q k \<Longrightarrow> is_metadata k" for k
    using is_metadataI [OF prefix_order.trans [OF assms(2)] assms(3)] .
  have scan: "set (map (apsnd strip) (scan_prefix d q)) = {(k, w). prefix q k \<and> map_option strip (kv_get d k) = Some w}"
    if "kv_wf d" for d :: db
    using store.set_scan [OF that, of q] by (force simp: image_iff)
  have "prefix q k \<and> map_option strip (kv_get p k) = Some w \<longleftrightarrow> prefix q k \<and> map_option strip (kv_get s k) = Some w" for k w
    using m [of k] simD(3) [OF assms(1), of k] by metis
  then show "set (map (apsnd strip) (scan_prefix p q)) = set (map (apsnd strip) (scan_prefix s q))"
    unfolding scan [OF wf(1)] scan [OF wf(2)] by presburger
qed

lemma sim_scan_keys:
  "sim p s \<Longrightarrow> prefix f q \<Longrightarrow> f \<in> set metadata_families \<Longrightarrow> map fst (scan_prefix s q) = map fst (scan_prefix p q)"
  using sim_scan [of p s f q] by (metis (no_types, lifting) fst_apsnd comp_apply list.map_comp map_eq_conv)

section \<open>Results\<close>

definition sim_res :: "db result \<Rightarrow> db result \<Rightarrow> bool" where
  "sim_res a b \<longleftrightarrow> (\<forall>x. a = Inr x \<longrightarrow> (\<exists>y. b = Inr y \<and> sim x y))"

lemma sim_res_Inr: "sim_res (Inr x) (Inr y) \<longleftrightarrow> sim x y"
  by (auto simp: sim_res_def)

lemma sim_res_Inl [simp]: "sim_res (Inl e) b"
  by (simp add: sim_res_def)

lemma sim_resD: "sim_res a b \<Longrightarrow> a = Inr x \<Longrightarrow> \<exists>y. b = Inr y \<and> sim x y"
  by (simp add: sim_res_def)

lemma sim_bind_same: "(\<And>x. r = Inr x \<Longrightarrow> sim_res (f x) (g x)) \<Longrightarrow> sim_res (bind_res r f) (bind_res r g)"
  by (cases r) auto

lemma sim_guard: "(\<not> c \<Longrightarrow> sim_res a b) \<Longrightarrow> sim_res (if c then Inl e else a) (if c then Inl e' else b)"
  by simp

lemma sim_bind_sim:
  "sim_res r r' \<Longrightarrow> (\<And>x y. sim x y \<Longrightarrow> sim_res (f x) (g y)) \<Longrightarrow> sim_res (bind_res r f) (bind_res r' g)"
  by (cases r) (auto simp: sim_res_def)

lemma sim_bind_get:
  assumes "sim p s" "is_metadata k"
    "\<And>v w. kv_get p k = Some v \<Longrightarrow> strip w = strip v \<Longrightarrow> sim_res (f v) (g w)"
  shows "sim_res (bind_res (ok_or e (kv_get p k)) f) (bind_res (ok_or e' (kv_get s k)) g)"
proof (cases "kv_get p k")
  case (Some v)
  with assms(1,2) obtain w where "kv_get s k = Some w" "strip w = strip v" by (rule sim_get)
  with Some assms(3) show ?thesis by simp
qed simp

lemma sim_bind_bucket:
  assumes "sim p s" "sim_res a b"
  shows "sim_res (bind_res (require_bucket p n) (\<lambda>_. a)) (bind_res (require_bucket s n) (\<lambda>_. b))"
  unfolding require_bucket_def by (rule sim_bind_get [OF assms(1)]) (use assms(2) in auto)

text \<open>Readers that do not look at segments give the same on both sides.\<close>

lemma exact_decoders [simp]:
  "decode_bucket (strip v) = decode_bucket v" "decode_event (strip v) = decode_event v"
  "decode_user (strip v) = decode_user v" "decode_group (strip v) = decode_group v"
  "decode_key_record (strip v) = decode_key_record v" "decode_session_strict (strip v) = decode_session_strict v"
  by (cases v; simp)+

lemma sim_bind_exact:
  assumes "strip w = strip v" "\<And>x. dec (strip x) = dec x" "\<And>m. sim_res (f m) (g m)"
  shows "sim_res (bind_res (dec v) f) (bind_res (dec w) g)"
proof -
  have "dec w = dec v" using assms(1,2) by metis
  then show ?thesis using assms(3) by (simp add: sim_bind_same)
qed

lemma decode_object_Inr: "decode_object v = Inr m \<longleftrightarrow> v = VObject m"
  by (cases v) auto

lemma strip_object: "strip w = VObject n \<longleftrightarrow> (\<exists>m. w = VObject m \<and> strip_meta m = n)"
  by (cases w) auto

lemma sim_bind_object:
  assumes "strip w = strip v" "\<And>m m'. strip_meta m' = strip_meta m \<Longrightarrow> sim_res (f m) (g m')"
  shows "sim_res (bind_res (decode_object v) f) (bind_res (decode_object w) g)"
proof (cases "decode_object v")
  case (Inr m)
  then have "strip w = VObject (strip_meta m)" using assms(1) decode_object_Inr by simp
  then obtain m' where "w = VObject m'" "strip_meta m' = strip_meta m" using strip_object by blast
  with Inr assms(2) show ?thesis by simp
qed simp

lemma strip_part: "strip w = VPart (PCurrent n) \<longleftrightarrow> (\<exists>p. w = VPart p \<and> (part_of_format p)\<lparr>pm_extents := []\<rparr> = n)"
  by (cases w) auto

lemma decode_part_Inr: "decode_part v = Inr m \<longleftrightarrow> (\<exists>p. v = VPart p \<and> m = part_of_format p)"
  by (cases v) auto

lemma sim_bind_part:
  assumes "strip w = strip v" "\<And>m m'. m'\<lparr>pm_extents := []\<rparr> = m\<lparr>pm_extents := []\<rparr> \<Longrightarrow> sim_res (f m) (g m')"
  shows "sim_res (bind_res (decode_part v) f) (bind_res (decode_part w) g)"
proof (cases "decode_part v")
  case (Inr m)
  then have "strip w = VPart (PCurrent (m\<lparr>pm_extents := []\<rparr>))" using assms(1) decode_part_Inr by auto
  then obtain q where "w = VPart q" "(part_of_format q)\<lparr>pm_extents := []\<rparr> = m\<lparr>pm_extents := []\<rparr>" using strip_part by blast
  with Inr assms(2) show ?thesis by simp
qed simp

section \<open>Operations\<close>

text \<open>Raw keys, which a few operations carry, address an object or a part.\<close>

fun well_addressed :: "meta_op \<Rightarrow> bool" where
  "well_addressed (ObjectMetaRewrite raw _) = prefix PREFIX_OBJECT raw"
| "well_addressed (MultipartOp (PartDelete raw)) = prefix PREFIX_PART raw"
| "well_addressed _ = True"

lemma config_sim: "sim p s \<Longrightarrow> sim_res (apply_config op p) (apply_config op s)"
  by (cases op) (auto simp: op_notification_replace_def op_notification_delete_def op_inventory_put_def op_inventory_delete_def
      op_ingest_put_def op_ingest_delete_def op_batch_put_def op_batch_delete_def sim_res_Inr
      intro!: sim_bind_bucket sim_bind_same sim_intros)

lemma part_migrate_sim: "sim p s \<Longrightarrow> sim_res (op_part_migrate False u n old new p) (op_part_migrate True u n old new s)"
  unfolding op_part_migrate_def
  by (rule sim_bind_get, assumption, simp, erule sim_bind_part)
    (auto simp: sim_res_Inr Let_def case_prod_beta intro!: sim_put)

lemma multipart_sim:
  assumes "sim p s" "well_addressed (MultipartOp op)"
  shows "sim_res (apply_multipart False op p) (apply_multipart True op s)"
proof (cases op)
  case (PartDelete raw)
  then have "is_metadata raw" using assms(2) by (auto intro: is_metadataI)
  with PartDelete assms(1) sim_none [OF assms(1)] show ?thesis by (auto simp: op_part_delete_def sim_res_Inr sim_del)
next
  case (PartMigrate u n old new)
  with assms part_migrate_sim show ?thesis by simp
next
  case (MultipartUpdate u c e z t)
  show ?thesis
    unfolding MultipartUpdate apply_multipart.simps op_multipart_update_def
    by (rule sim_bind_get [OF assms(1)], simp, erule sim_bind_exact) (auto simp: sim_res_Inr intro!: sim_intros assms(1))
next
  case (MultipartDelete u)
  show ?thesis
    unfolding MultipartDelete apply_multipart.simps op_multipart_delete_def
    by (rule sim_bind_get [OF assms(1)], simp, erule sim_bind_exact) (auto simp: sim_res_Inr intro!: sim_intros assms(1))
next
  case (PartPut u n m)
  show ?thesis
    unfolding PartPut apply_multipart.simps op_part_put_def
    by (rule sim_bind_get [OF assms(1)]) (auto simp: sim_res_Inr intro!: sim_intros assms(1))
qed (use assms in \<open>auto simp: op_multipart_create_def sim_res_Inr intro!: sim_bind_bucket sim_intros\<close>)

text \<open>The scans over keys, users and groups find the same on both sides.\<close>

lemma any_key_strip: "any_key P (map (apsnd strip) xs) = any_key P xs"
  by (induction xs) (auto simp: bind_res_def split: sum.split)

lemma any_attached_strip: "(\<And>v. dec (strip v) = dec v) \<Longrightarrow> any_attached dec n (map (apsnd strip) xs) = any_attached dec n xs"
  by (induction xs) (auto simp: bind_res_def split: sum.split)

lemma policies_strip: "user_policies (strip v) = user_policies v" "group_policies (strip v) = group_policies v"
  by (simp_all add: user_policies_def group_policies_def)

lemma sim_any_key: "sim p s \<Longrightarrow> any_key P (scan_prefix s PREFIX_KEY) = any_key P (scan_prefix p PREFIX_KEY)"
  using sim_scan [of p s PREFIX_KEY PREFIX_KEY] any_key_strip by (metis metadata_members(15) prefix_order.refl)

lemma iam_prefix_Inr:
  "iam_user_prefix t = Inr q \<Longrightarrow> prefix PREFIX_IAM_USER q" "iam_group_prefix t = Inr q \<Longrightarrow> prefix PREFIX_IAM_GROUP q"
  "iam_policy_prefix t = Inr q \<Longrightarrow> prefix PREFIX_IAM_POLICY q" "iam_role_prefix t = Inr q \<Longrightarrow> prefix PREFIX_IAM_ROLE q"
  by (auto simp: iam_user_prefix_def iam_group_prefix_def iam_policy_prefix_def iam_role_prefix_def iam_entity_prefix_def
      bind_res_eq_Inr)

lemma sim_any_attached:
  assumes "sim p s" "prefix f q" "f \<in> set metadata_families" "\<And>v. dec (strip v) = dec v"
  shows "any_attached dec n (scan_prefix s q) = any_attached dec n (scan_prefix p q)"
  using sim_scan [OF assms(1,2,3)] any_attached_strip [of dec n, OF assms(4)] by metis

lemma tprefix_nonempty_scan: "tprefix_nonempty db q \<longleftrightarrow> scan_prefix db q \<noteq> []"
  by (cases "iter_from q db") (auto simp: tprefix_nonempty_def scan_prefix_def split: prod.split)

lemma sim_tprefix: "sim p s \<Longrightarrow> prefix f q \<Longrightarrow> f \<in> set metadata_families \<Longrightarrow> tprefix_nonempty s q = tprefix_nonempty p q"
  using sim_scan [of p s f q] by (metis tprefix_nonempty_scan map_is_Nil_conv)

lemma add_members_sim: "sim p s \<Longrightarrow> sim_res (add_members t g ms p) (add_members t g ms s)"
proof (induction ms arbitrary: p s)
  case (Cons m ms)
  show ?case unfolding add_members.simps
  proof (rule sim_bind_same, rule sim_bind_get [OF Cons.prems])
    fix uk v w assume "iam_user_key t m = Inr uk" "strip w = strip v"
    then show "sim_res
        (bind_res (decode_user v) (\<lambda>u. add_members t g ms (if g \<in> set (iu_groups u) then p
           else kv_put uk (VUser (u\<lparr>iu_groups := iu_groups u @ [g]\<rparr>)) p)))
        (bind_res (decode_user w) (\<lambda>u. add_members t g ms (if g \<in> set (iu_groups u) then s
           else kv_put uk (VUser (u\<lparr>iu_groups := iu_groups u @ [g]\<rparr>)) s)))"
      by (elim sim_bind_exact) (auto intro!: Cons.IH sim_intros Cons.prems)
  qed (use entity_metadata(4) in blast)
qed (simp add: sim_res_Inr)

lemma drop_members_sim: "sim p s \<Longrightarrow> sim_res (drop_members t g ms p) (drop_members t g ms s)"
proof (induction ms arbitrary: p s)
  case (Cons m ms)
  show ?case unfolding drop_members.simps
  proof (rule sim_bind_same)
    fix uk assume "iam_user_key t m = Inr uk"
    then have k: "is_metadata uk" by (rule entity_metadata)
    show "sim_res (case kv_get p uk of None \<Rightarrow> drop_members t g ms p | Some v \<Rightarrow> bind_res (decode_user v) (\<lambda>u.
        drop_members t g ms (kv_put uk (VUser (u\<lparr>iu_groups := filter (\<lambda>x. x \<noteq> g) (iu_groups u)\<rparr>)) p)))
      (case kv_get s uk of None \<Rightarrow> drop_members t g ms s | Some v \<Rightarrow> bind_res (decode_user v) (\<lambda>u.
        drop_members t g ms (kv_put uk (VUser (u\<lparr>iu_groups := filter (\<lambda>x. x \<noteq> g) (iu_groups u)\<rparr>)) s)))"
    proof (cases "kv_get p uk")
      case None
      with sim_none [OF Cons.prems k] Cons show ?thesis by simp
    next
      case (Some v)
      obtain w where w: "kv_get s uk = Some w" "strip w = strip v" using sim_get [OF Cons.prems k Some] .
      show ?thesis unfolding Some w(1) option.case
        by (rule sim_bind_exact [OF w(2)]) (auto intro!: Cons.IH sim_intros Cons.prems)
    qed
  qed
qed (simp add: sim_res_Inr)

lemma read_group_sim: "sim p s \<Longrightarrow> is_metadata k \<Longrightarrow> read_group s k = read_group p k"
  using simD(3) [of p s k] exact_decoders(4) unfolding read_group_def
  by (cases "kv_get p k"; cases "kv_get s k") (auto, metis exact_decoders(4))

lemma group_put_sim: "sim p s \<Longrightarrow> sim_res (op_group_put g p) (op_group_put g s)"
  unfolding op_group_put_def
proof (rule sim_bind_same)
  fix k assume sim: "sim p s" and "iam_group_key (ig_tenant_id g) (ig_name g) = Inr k"
  then have k: "read_group s k = read_group p k" by (simp add: read_group_sim entity_metadata(5))
  show "sim_res (bind_res (read_group p k) (\<lambda>old. bind_res (add_members (ig_tenant_id g) (ig_name g) (ig_members g) p) (\<lambda>db1.
      bind_res (case old of None \<Rightarrow> Inr db1 | Some o' \<Rightarrow> drop_members (ig_tenant_id g) (ig_name g)
        (filter (\<lambda>m. m \<notin> set (ig_members g)) (ig_members o')) db1) (\<lambda>db2. Inr (kv_put k (VGroup g) db2)))))
    (bind_res (read_group s k) (\<lambda>old. bind_res (add_members (ig_tenant_id g) (ig_name g) (ig_members g) s) (\<lambda>db1.
      bind_res (case old of None \<Rightarrow> Inr db1 | Some o' \<Rightarrow> drop_members (ig_tenant_id g) (ig_name g)
        (filter (\<lambda>m. m \<notin> set (ig_members g)) (ig_members o')) db1) (\<lambda>db2. Inr (kv_put k (VGroup g) db2)))))"
    unfolding k
    by (intro sim_bind_same sim_bind_sim [OF add_members_sim [OF sim]] sim_bind_sim)
      (auto simp: sim_res_Inr intro: drop_members_sim sim_put_same split: option.split)
qed

lemma group_delete_sim: "sim p s \<Longrightarrow> sim_res (op_group_delete t n p) (op_group_delete t n s)"
  unfolding op_group_delete_def
  by (rule sim_bind_same, rule sim_bind_get, assumption, erule entity_metadata(5), erule sim_bind_exact)
    (auto simp: sim_res_Inr intro!: sim_bind_sim [OF drop_members_sim] sim_del)

lemma delete_existing_sim: "sim p s \<Longrightarrow> is_metadata k \<Longrightarrow> sim_res (delete_existing k p) (delete_existing k s)"
  unfolding delete_existing_def by (rule sim_bind_get) (auto simp: sim_res_Inr sim_del)

lemma tenant_delete_sim:
  assumes "sim p s"
  shows "sim_res (op_tenant_delete t p) (op_tenant_delete t s)"
  unfolding op_tenant_delete_def
proof (rule sim_bind_same, rule sim_bind_get [OF assms], erule entity_metadata(3), (rule sim_bind_same)+)
  fix k pu pg pp pr
  assume "iam_user_prefix t = Inr pu" "iam_group_prefix t = Inr pg" "iam_policy_prefix t = Inr pp" "iam_role_prefix t = Inr pr"
  note q = this(1) [THEN iam_prefix_Inr(1)] this(2) [THEN iam_prefix_Inr(2)] this(3) [THEN iam_prefix_Inr(3)]
    this(4) [THEN iam_prefix_Inr(4)]
  have "list_ex (tprefix_nonempty s) [pu, pg, pp, pr] = list_ex (tprefix_nonempty p) [pu, pg, pp, pr]"
    using sim_tprefix [OF assms q(1)] sim_tprefix [OF assms q(2)] sim_tprefix [OF assms q(3)] sim_tprefix [OF assms q(4)]
    by simp
  then show "sim_res (if list_ex (tprefix_nonempty p) [pu, pg, pp, pr] then Inl InvalidArgument
      else bind_res (any_key (\<lambda>r. kr_tenant_id r = t) (scan_prefix p PREFIX_KEY)) (\<lambda>found.
        if found then Inl InvalidArgument else Inr (kv_del k p)))
    (if list_ex (tprefix_nonempty s) [pu, pg, pp, pr] then Inl InvalidArgument
      else bind_res (any_key (\<lambda>r. kr_tenant_id r = t) (scan_prefix s PREFIX_KEY)) (\<lambda>found.
        if found then Inl InvalidArgument else Inr (kv_del k s)))"
    unfolding sim_any_key [OF assms]
    by (simp only:) (intro sim_guard sim_bind_same, simp add: sim_res_Inr sim_del assms)
qed

lemma user_delete_sim:
  assumes "sim p s"
  shows "sim_res (op_user_delete t n p) (op_user_delete t n s)"
  unfolding op_user_delete_def sim_any_key [OF assms]
  by (rule sim_bind_same, rule sim_bind_get [OF assms], erule entity_metadata(4))
    (intro sim_guard sim_bind_same, simp add: sim_res_Inr sim_del assms)

lemma policy_delete_sim:
  assumes "sim p s"
  shows "sim_res (op_policy_delete t n p) (op_policy_delete t n s)"
  unfolding op_policy_delete_def
proof (rule sim_bind_same, rule sim_bind_get [OF assms], erule entity_metadata(6), (rule sim_bind_same)+)
  fix k pu pg assume q: "iam_user_prefix t = Inr pu" "iam_group_prefix t = Inr pg"
  have "any_attached user_policies n (scan_prefix s pu) = any_attached user_policies n (scan_prefix p pu)"
    "any_attached group_policies n (scan_prefix s pg) = any_attached group_policies n (scan_prefix p pg)"
    using sim_any_attached [OF assms iam_prefix_Inr(1) [OF q(1)]] sim_any_attached [OF assms iam_prefix_Inr(2) [OF q(2)]]
    by (simp_all add: policies_strip)
  then show "sim_res (bind_res (any_attached user_policies n (scan_prefix p pu)) (\<lambda>by_user.
      if by_user then Inl InvalidArgument else bind_res (any_attached group_policies n (scan_prefix p pg)) (\<lambda>by_group.
        if by_group then Inl InvalidArgument else Inr (kv_del k p))))
    (bind_res (any_attached user_policies n (scan_prefix s pu)) (\<lambda>by_user.
      if by_user then Inl InvalidArgument else bind_res (any_attached group_policies n (scan_prefix s pg)) (\<lambda>by_group.
        if by_group then Inl InvalidArgument else Inr (kv_del k s))))"
    by (simp only:) (intro sim_guard sim_bind_same, simp add: sim_res_Inr sim_del assms)
qed

lemma iam_sim:
  assumes "sim p s"
  shows "sim_res (apply_iam op p) (apply_iam op s)"
proof (cases op)
  case (IamRoleDelete t n)
  then show ?thesis using assms
    by (auto simp: op_role_delete_def intro!: sim_bind_same delete_existing_sim dest: entity_metadata(7))
qed (use assms tenant_delete_sim user_delete_sim policy_delete_sim group_put_sim group_delete_sim delete_existing_sim in
  \<open>auto simp: op_session_put_def op_session_delete_def op_key_put_def op_key_delete_def op_tenant_put_def op_user_put_def
     op_policy_put_def op_role_put_def sim_res_Inr intro!: sim_bind_same sim_intros\<close>)

section \<open>The operations on buckets, objects and queues\<close>

lemma update_bucket_sim: "sim p s \<Longrightarrow> sim_res (update_bucket b f p) (update_bucket b f s)"
  unfolding update_bucket_def require_bucket_def
  by (rule sim_bind_get, assumption, simp, erule sim_bind_exact) (simp_all add: sim_res_Inr sim_put_same)

lemma update_object_sim:
  assumes "sim p s" "\<And>m. strip_meta (f m) = f (strip_meta m)"
  shows "sim_res (update_object b k vk f p) (update_object b k vk f s)"
  unfolding update_object_def
  by (rule sim_bind_get [OF assms(1)], simp, erule sim_bind_object) (simp add: sim_res_Inr sim_put assms)

lemma migrate_strip:
  "strip_meta (m\<lparr>om_extents := e, om_restore_state := map_option (\<lambda>st. st\<lparr>restored_extents := r\<rparr>) (om_restore_state m)\<rparr>) = strip_meta m"
  by (cases "om_restore_state m") (simp_all add: strip_meta_def)

lemma object_migrate_sim:
  assumes "sim p s"
  shows "sim_res (op_object_migrate (Commit bl now) b k vk old new p) (op_object_migrate (Replay g r) b k vk old new s)"
  unfolding op_object_migrate_def
  by (rule sim_bind_get [OF assms], simp, erule sim_bind_object)
    (auto simp: sim_res_Inr Let_def case_prod_beta migrate_strip intro!: sim_put assms)

lemma require_existing_sim:
  "sim p s \<Longrightarrow> is_metadata k \<Longrightarrow> sim_res a b \<Longrightarrow>
    sim_res (bind_res (ok_or e (kv_get p k)) (\<lambda>_. a)) (bind_res (ok_or e (kv_get s k)) (\<lambda>_. b))"
  by (rule sim_bind_get)

lemma bucket_delete_sim: "sim p s \<Longrightarrow> sim_res (op_bucket_delete b p) (op_bucket_delete b s)"
  unfolding op_bucket_delete_def Let_def by (intro sim_bind_bucket, assumption) (simp add: sim_res_Inr sim_intros)

lemma event_mark_dead_sim: "sim p s \<Longrightarrow> sim_res (op_event_mark_dead n p) (op_event_mark_dead n s)"
  unfolding op_event_mark_dead_def
  by (rule sim_bind_get, assumption, simp, erule sim_bind_exact) (simp_all add: sim_res_Inr sim_put_same)

lemma not_metadata: "p \<in> set all_prefixes \<Longrightarrow> p \<notin> set metadata_families \<Longrightarrow> prefix p k \<Longrightarrow> \<not> is_metadata k"
  using family_excl [of p _ k] metadata_in_all by (auto simp: is_metadata_def list_ex_iff)

definition node_families :: "bytes list" where
  "node_families = [PREFIX_ALLOC, PREFIX_TXN, PREFIX_BINLOG, SYS_SEQ, SYS_REPL_EPOCH, SYS_REPL_EBASE, SYS_REPL_ROLE,
     SYS_REPL_EXECUTED, SYS_REPL_CURSOR, SYS_REPL_BUCKET_SCOPED, SYS_REPL_UPCHAIN, SYS_REPL_EVER_PRIMARY,
     PREFIX_REPL_PENDING, PREFIX_REPL_RMAP, PREFIX_REPL_PENDING_OBJ, PREFIX_REPL_SLOT]"

lemma node_families_apart: "p \<in> set node_families \<Longrightarrow> p \<in> set all_prefixes \<and> p \<notin> set metadata_families"
proof -
  have "list_all (\<lambda>p. p \<in> set all_prefixes) node_families" by (simp add: node_families_def all_prefixes_def)
  moreover have "list_all (\<lambda>p. p \<notin> set metadata_families) node_families"
    by (simp add: node_families_def metadata_families_def prefix_defs lit_def)
  moreover assume "p \<in> set node_families"
  ultimately show ?thesis by (simp add: list_all_iff)
qed

lemma node_key: "p \<in> set node_families \<Longrightarrow> prefix p k \<Longrightarrow> \<not> is_metadata k"
  using node_families_apart not_metadata by blast

lemma node_keys [simp]:
  "\<not> is_metadata (alloc_key n)" "\<not> is_metadata (txn_key n)" "\<not> is_metadata (binlog_key e n)"
  "\<not> is_metadata SYS_SEQ" "\<not> is_metadata SYS_REPL_EPOCH" "\<not> is_metadata SYS_REPL_EBASE"
  "\<not> is_metadata SYS_REPL_EXECUTED" "\<not> is_metadata SYS_REPL_CURSOR" "\<not> is_metadata (repl_pending_key g)"
  "\<not> is_metadata (repl_pending_obj_key b k)"
  subgoal by (rule node_key [of PREFIX_ALLOC]) (simp_all add: node_families_def)
  subgoal by (rule node_key [of PREFIX_TXN]) (simp_all add: node_families_def)
  subgoal by (rule node_key [of PREFIX_BINLOG]) (simp_all add: node_families_def)
  subgoal by (rule node_key [of SYS_SEQ]) (simp_all add: node_families_def)
  subgoal by (rule node_key [of SYS_REPL_EPOCH]) (simp_all add: node_families_def)
  subgoal by (rule node_key [of SYS_REPL_EBASE]) (simp_all add: node_families_def)
  subgoal by (rule node_key [of SYS_REPL_EXECUTED]) (simp_all add: node_families_def)
  subgoal by (rule node_key [of SYS_REPL_CURSOR]) (simp_all add: node_families_def)
  subgoal by (rule node_key [of PREFIX_REPL_PENDING]) (simp_all add: node_families_def repl_pending_key_def)
  subgoal by (rule node_key [of PREFIX_REPL_PENDING_OBJ]) (simp_all add: node_families_def repl_pending_obj_key_def)
  done

lemma alloc_sim: "sim p s \<Longrightarrow> sim_res (op_alloc (Commit bl now) n d p) (op_alloc (Replay g r) n' d s)"
  by (simp add: op_alloc_def Let_def put_u64_def sim_res_Inr sim_put_left)

lemma op_sim:
  assumes "sim p s" "well_addressed op"
  shows "sim_res (apply_op (Commit bl now) n op p) (apply_op (Replay g r) n op s)"
proof (cases op)
  case (ObjectMetaRewrite raw m)
  with assms(2) have "is_metadata raw" by (auto intro: is_metadataI)
  with ObjectMetaRewrite assms(1) show ?thesis
    by (auto simp: op_meta_rewrite_def sim_res_Inr intro!: require_existing_sim sim_put_same)
next
  case (ObjectMigrate b k vk old new)
  with assms object_migrate_sim show ?thesis by simp
next
  case (MultipartOp q)
  with assms multipart_sim show ?thesis by simp
next
  case (Alloc d)
  with assms alloc_sim show ?thesis by simp
next
  case (BucketPut n m loc)
  with assms show ?thesis by (auto simp: op_bucket_put_def Let_def sim_res_Inr sim_intros split: option.split)
next
  case (ObjectSetTags b k vk t)
  then show ?thesis by (simp add: op_set_tags_def update_object_sim [OF assms(1)] strip_meta_def)
next
  case (ObjectSetRetention b k vk t)
  then show ?thesis by (simp add: op_set_retention_def update_object_sim [OF assms(1)] strip_meta_def)
next
  case (ObjectSetLegalHold b k vk t)
  then show ?thesis by (simp add: op_set_legal_hold_def update_object_sim [OF assms(1)] strip_meta_def)
qed (use assms(1) config_sim iam_sim bucket_delete_sim event_mark_dead_sim update_bucket_sim in
  \<open>auto simp: op_bucket_set_versioning_def op_bucket_set_encryption_def op_bucket_set_encryption_kms_def
     op_bucket_set_object_lock_def op_conf_put_def op_conf_delete_def op_lifecycle_replace_def op_lifecycle_delete_def
     op_event_enqueue_def op_event_delete_def op_restore_job_put_def op_restore_job_delete_def op_object_put_def
     op_object_delete_def op_object_delete_current_def op_object_delete_version_def op_object_put_version_def
     op_stats_def op_kek_seed_put_def op_kek_gen_put_def sim_res_Inr
     intro!: sim_bind_bucket require_existing_sim sim_intros\<close>)

end
