(* ===== verification/Replica_Sync.thy ===== *)
theory Replica_Sync
  imports Replica_Stream
begin

text \<open>
  A primary and a standby side by side: commits on the primary, deliveries of any stretch of its log to the standby,
  repeated or cut short, in any order. The standby never refuses a record, and once it has pulled what is left it holds
  the metadata of the primary.
\<close>

section \<open>Reading the log\<close>

abbreviation later :: "gtid \<Rightarrow> (gtid \<times> repl_record) list \<Rightarrow> (gtid \<times> repl_record) list" where
  "later c L \<equiv> filter (\<lambda>x. gtid_less c (fst x)) L"

abbreviation as_entry :: "gtid \<times> repl_record \<Rightarrow> bytes \<times> stored" where
  "as_entry x \<equiv> (bkey (fst x), VRepl (snd x))"

lemma scan_loop_family:
  "binlog_scan_loop c l items = binlog_scan_loop c l (takeWhile (\<lambda>(k, _). prefix PREFIX_BINLOG k) items)"
  by (induction c l items rule: binlog_scan_loop.induct) (auto simp: bind_res_def split: sum.splits)

lemma scan_loop_records:
  "list_all record_ok L \<Longrightarrow> 1 \<le> l \<Longrightarrow> binlog_scan_loop c l (map as_entry L) = Inr (take l (later c L))"
proof (induction L arbitrary: l)
  case (Cons x L)
  have "parse_binlog_gtid (bkey (fst x)) = Inr (fst x)"
    using Cons.prems(1) by (intro binlog_keys.parse_build) (simp add: record_ok_def)
  then show ?case using Cons by (cases "l \<le> 1") (auto simp: take_Cons' le_Suc_eq)
qed simp

lemma scan_after:
  assumes "gtid_ok c" "gtid_ok g" "gtid_less c g"
  shows "\<not> bkey g < binlog_key (of_nat (g_epoch c)) (of_nat (sat_add1 (g_seq c)))"
proof -
  let ?h = "\<lparr>g_epoch = g_epoch c, g_seq = sat_add1 (g_seq c)\<rparr>"
  have "gtid_ok ?h" using assms(1) by (simp add: gtid_ok_def sat_add1_def u64_max_def)
  moreover have "\<not> gtid_less g ?h" using assms(3) by (auto simp: gtid_less_def sat_add1_def)
  ultimately show ?thesis using binlog_keys.build_less [OF assms(2), of ?h] by simp
qed

lemma binlog_scan:
  assumes "kv_wf p" "binlog_is p L" "gtid_ok c"
  shows "repl_binlog_scan p c limit = Inr (take limit (later c L))"
proof (cases "limit = 0")
  case False
  let ?k = "binlog_key (of_nat (g_epoch c)) (of_nat (sat_add1 (g_seq c)))"
  let ?M = "filter (\<lambda>x. \<not> bkey (fst x) < ?k) L"
  have ok: "list_all record_ok L" using assms(2) by (simp add: binlog_is_def)
  have low: "PREFIX_BINLOG \<le> ?k" by (rule prefix_le) simp
  have srt: "sorted_wrt (\<lambda>x y. fst x < fst y) (iter_from ?k p)"
    using assms(1) by (simp add: iter_from_filter kv_wf_def sorted_wrt_filter sorted_wrt_map)
  have "takeWhile (\<lambda>(k, _). prefix PREFIX_BINLOG k) (iter_from ?k p) = filter (\<lambda>(k, _). prefix PREFIX_BINLOG k) (iter_from ?k p)"
    using low by (intro takeWhile_prefix_filter [OF srt]) (auto simp: iter_from_filter [OF assms(1)])
  also have "\<dots> = filter (\<lambda>(k, _). \<not> k < ?k) (scan_prefix p PREFIX_BINLOG)"
    by (simp add: iter_from_filter [OF assms(1)] scan_prefix_filter [OF assms(1)] conj_commute case_prod_beta)
  also have "\<dots> = map as_entry ?M"
    using assms(2) by (simp add: binlog_is_def filter_map comp_def case_prod_beta)
  finally have "repl_binlog_scan p c limit = binlog_scan_loop c limit (map as_entry ?M)"
    using False scan_loop_family [of c limit "iter_from ?k p"] by (simp add: repl_binlog_scan_def)
  also have "\<dots> = Inr (take limit (later c ?M))"
    using ok False by (intro scan_loop_records) (auto simp: list_all_iff)
  also have "later c ?M = later c L"
    using ok scan_after [OF assms(3)] by (auto simp: list_all_iff record_ok_def intro!: filter_cong)
  finally show ?thesis .
qed (simp add: repl_binlog_scan_def)

section \<open>Batches\<close>

lemma batch_append:
  "apply_batch mx (xs @ ys) s =
    (case apply_batch mx xs s of (s1, None) \<Rightarrow> apply_batch mx ys s1 | (s1, Some e) \<Rightarrow> (s1, Some e))"
  by (induction xs arbitrary: s) (simp_all split: sum.splits prod.splits)

lemma batch_duplicates:
  "standby_at s c X \<Longrightarrow> list_all record_ok xs \<Longrightarrow> list_all (\<lambda>x. \<not> gtid_less c (fst x)) xs \<Longrightarrow> apply_batch mx xs s = (s, None)"
  by (induction xs) (simp_all add: apply_repl_record_def standby_at_def record_ok_def)

text \<open>The position of a standby after a batch of newer records.\<close>

definition batch_end :: "gtid \<Rightarrow> (gtid \<times> repl_record) list \<Rightarrow> gtid" where
  "batch_end c xs = (if xs = [] then c else fst (last xs))"

lemma batch_standby:
  assumes "standby_at s c X" "list_all record_ok xs" "sorted_wrt gtid_less (map fst xs)"
    "list_all (\<lambda>x. gtid_less c (fst x)) xs" "apply_batch mx xs s = (s', None)"
  shows "\<exists>X'. standby_at s' (batch_end c xs) X'"
  using assms
proof (induction xs arbitrary: s c X)
  case (Cons x xs)
  then obtain s1 out where s1: "apply_repl_record mx (fst x) (snd x) s = Inr (s1, out)" "apply_batch mx xs s1 = (s', None)"
    by (auto split: sum.splits prod.splits)
  obtain X1 where "standby_at s1 (fst x) X1"
    using apply_record_standby [OF Cons.prems(1) _ _ s1(1)] Cons.prems(2,4) by auto
  from Cons.IH [OF this _ _ _ s1(2)] Cons.prems(2,3) obtain X' where "standby_at s' (batch_end (fst x) xs) X'"
    by (auto simp: list_all_iff)
  then show ?case by (cases "xs = []") (auto simp: batch_end_def)
qed (auto simp: batch_end_def)

lemma split_at:
  "sorted_wrt gtid_less (map fst M) \<Longrightarrow> M = filter (\<lambda>x. \<not> gtid_less c (fst x)) M @ later c M"
proof (induction M)
  case (Cons x M)
  have "later c M = M" if "gtid_less c (fst x)"
    using Cons.prems gtid_less_trans(1) [OF that] by (auto simp: filter_id_conv)
  then have "filter (\<lambda>x. \<not> gtid_less c (fst x)) M = [] \<and> later c M = M" if "gtid_less c (fst x)"
    using that by (metis (mono_tags, lifting) filter_False filter_id_conv)
  with Cons show ?case by auto
qed simp

lemma gtid_less_asym: "gtid_less a b \<Longrightarrow> \<not> gtid_less b a"
  by (auto simp: gtid_less_def)

lemma sorted_last: "sorted_wrt gtid_less (map fst xs) \<Longrightarrow> x \<in> set xs \<Longrightarrow> \<not> gtid_less (fst (last xs)) (fst x)"
proof (induction xs rule: rev_induct)
  case (snoc y ys)
  then have "x = y \<or> gtid_less (fst x) (fst y)" by (auto simp: sorted_wrt_append)
  then show ?case by (auto dest: gtid_less_asym)
qed simp

lemma later_end:
  assumes "sorted_wrt gtid_less (map fst (M @ D))"
  shows "later (batch_end c (later c M)) (M @ D) = later c D"
proof (cases "later c M = []")
  case True
  then show ?thesis by (simp add: batch_end_def)
next
  case False
  let ?l = "last (later c M)"
  have l: "?l \<in> set M" "gtid_less c (fst ?l)" using last_in_set [OF False] by auto
  have "sorted_wrt gtid_less (map fst (later c M))" using assms by (simp add: sorted_wrt_append sorted_wrt_map sorted_wrt_filter)
  then have top: "\<not> gtid_less (fst ?l) (fst x)" if "x \<in> set (later c M)" for x
    using sorted_last that by blast
  have "\<not> gtid_less (fst ?l) (fst x)" if "x \<in> set M" for x
    using top [of x] that gtid_less_trans(1) [OF l(2), of "fst x"] by (cases "gtid_less c (fst x)") (simp, blast)
  moreover have "gtid_less (fst ?l) (fst x) \<and> gtid_less c (fst x)" if "x \<in> set D" for x
    using assms l that gtid_less_trans(1) [OF l(2), of "fst x"] by (simp add: sorted_wrt_append)
  ultimately have "later (fst ?l) M = []" "later (fst ?l) D = later c D"
    by (simp_all add: filter_empty_conv cong: filter_cong)
  then show ?thesis using False by (simp add: batch_end_def)
qed

section \<open>Runs of the primary\<close>

text \<open>
  How the primary got from a state to its present one: the records of the log in between, each the log of a transaction
  that was committed in the state it was committed in; what happens between them does not concern the metadata.
\<close>

inductive leads :: "nat \<Rightarrow> db \<Rightarrow> (gtid \<times> repl_record) list \<Rightarrow> db \<Rightarrow> bool" for mx where
  here: "leads mx p [] p"
| idle: "(\<And>s. sim q s \<Longrightarrow> sim q' s) \<Longrightarrow> leads mx q' xs p \<Longrightarrow> leads mx q xs p"
| next_record: "apply_each (Commit True now) (raw_of g r) (rr_ops r) q = Inr q1 \<Longrightarrow> (\<And>s. sim (trimmed mx (rr_ops r) q1) s \<Longrightarrow> sim q' s) \<Longrightarrow>
    leads mx q' xs p \<Longrightarrow> leads mx q ((g, r) # xs) p"

lemma leads_idle: "leads mx q xs p \<Longrightarrow> (\<And>s. sim p s \<Longrightarrow> sim p' s) \<Longrightarrow> leads mx q xs p'"
  by (induction rule: leads.induct) (blast intro: leads.intros)+

lemma leads_record:
  assumes "leads mx q xs p" "apply_each (Commit True now) (raw_of g r) (rr_ops r) p = Inr p1" "\<And>s. sim (trimmed mx (rr_ops r) p1) s \<Longrightarrow> sim p' s"
  shows "leads mx q (xs @ [(g, r)]) p'"
  using assms
proof (induction rule: leads.induct)
  case (here p)
  then show ?case using next_record [OF here(1,2) leads.here] by simp
next
  case (idle q q' xs p)
  then show ?case using leads.idle [of q q' mx "xs @ [(g, r)]" p'] by blast
next
  case (next_record now' g' r' q q1 q' xs p)
  then show ?case using leads.next_record [of now' g' r' q q1 mx q' "xs @ [(g, r)]" p'] by simp
qed

text \<open>A standby that holds the first state takes any number of the records, and then holds the state after them.\<close>

lemma leads_applied:
  assumes "leads mx q zs p" "zs = xs @ ys" "sim q s" "standby_at s c X" "list_all record_ok xs" "sorted_wrt gtid_less (map fst xs)"
    "list_all (\<lambda>x. gtid_less c (fst x)) xs"
  shows "\<exists>s' q'. apply_batch mx xs s = (s', None) \<and> sim q' s' \<and> leads mx q' ys p"
  using assms
proof (induction arbitrary: xs s c X rule: leads.induct)
  case (here p)
  then show ?case by (auto intro: leads.here)
next
  case (idle q q' zs p)
  then show ?case by blast
next
  case (next_record now g r q q1 q' zs p)
  show ?case
  proof (cases xs)
    case Nil
    then show ?thesis using next_record leads.next_record by fastforce
  next
    case (Cons x xs')
    then have x: "x = (g, r)" "zs = xs' @ ys" using next_record.prems(1) by simp_all
    have ok: "record_ok (g, r)" "gtid_less c g" using next_record.prems(4,6) by (simp_all add: Cons x)
    obtain s1 where s1: "apply_repl_record mx g r s = Inr (s1, Applied)" "sim q' s1"
      using apply_record_sim [OF next_record.prems(3) ok next_record.prems(2) next_record.hyps(1), of mx] next_record.hyps(2) by blast
    obtain X1 where X1: "standby_at s1 g X1" using apply_record_standby [OF next_record.prems(3) ok s1(1)] by blast
    from next_record.IH [OF x(2) s1(2) X1] next_record.prems(4,5) obtain s2 q2 where
      "apply_batch mx xs' s1 = (s2, None)" "sim q2 s2" "leads mx q2 ys p" by (auto simp: Cons x list_all_iff)
    then show ?thesis using s1(1) by (auto simp: Cons x)
  qed
qed

lemma leads_nothing: "leads mx q zs p \<Longrightarrow> zs = [] \<Longrightarrow> sim q s \<Longrightarrow> sim p s"
  by (induction rule: leads.induct) auto

section \<open>Primary and standby together\<close>

text \<open>The standby holds the metadata of a state the primary was in, and the log of the primary has everything since.\<close>

definition following :: "nat \<Rightarrow> db \<Rightarrow> db \<Rightarrow> bool" where
  "following mx p s \<longleftrightarrow> (\<exists>L e b n c X q. primary_at p L e b n \<and> standby_at s c X \<and> \<not> gtid_less (position_of e b n) c \<and>
     sim q s \<and> leads mx q (later c L) p)"

lemma following_write:
  assumes "following mx p s" "list_all well_addressed ops" "last_seq p = Inr n" "n \<noteq> - 1" "commit True now mx ops p = (p', res)"
  shows "following mx p' s"
proof -
  obtain L e b n0 c X q where F: "primary_at p L e b n0" "standby_at s c X" "\<not> gtid_less (position_of e b n0) c"
    "sim q s" "leads mx q (later c L) p" using assms(1) unfolding following_def by blast
  have n0: "n0 = n" using F(1) assms(3) by (simp add: primary_at_def)
  show ?thesis
  proof (cases res)
    case (Inl x)
    then have "p' = p" using assms(5) by (auto simp: commit_def split: sum.splits)
    with assms(1) show ?thesis by simp
  next
    case (Inr n')
    let ?g = "position_of e b (n + 1)"
    let ?r = "record_of e (n + 1) now ops"
    obtain p1 where p1: "apply_each (Commit True now) (n + 1) ops p = Inr p1"
      "primary_at p' (L @ [(?g, ?r)]) e b (n + 1)" "\<And>s. sim (trimmed mx ops p1) s \<Longrightarrow> sim p' s"
      using commit_primary [OF F(1) [unfolded n0] assms(4,2)] assms(5) Inr by blast
    have "b \<le> n" using F(1) n0 by (simp add: primary_at_def)
    then have cg: "gtid_less c ?g" using F(3) position_next(2) [OF _ assms(4)] gtid_less_trans(2) n0 by blast
    have "leads mx q (later c L @ [(?g, ?r)]) p'"
      by (rule leads_record [OF F(5)]) (use p1 in \<open>simp_all add: raw_of_def record_of_def\<close>)
    then have "leads mx q (later c (L @ [(?g, ?r)])) p'" using cg by simp
    moreover have "\<not> gtid_less ?g c" using gtid_less_asym [OF cg] .
    ultimately show ?thesis using p1(2) F(2,4) unfolding following_def by blast
  qed
qed

lemma deliver_batch:
  assumes "primary_at p L e b n" "standby_at s c X" "\<not> gtid_less (position_of e b n) c"
    "sim q s" "leads mx q (later c L) p" "gtid_ok c0" "\<not> gtid_less c c0"
    "repl_binlog_scan p c0 limit = Inr recs"
  shows "\<exists>s1 X1 c1 q1. apply_batch mx (take m recs) s = (s1, None) \<and> standby_at s1 c1 X1 \<and> \<not> gtid_less (position_of e b n) c1 \<and>
    \<not> gtid_less c1 c \<and> sim q1 s1 \<and> leads mx q1 (later c1 L) p \<and> length (later c1 L) = length (later c L) - length (later c (take m recs))"
proof -
  have bl: "kv_wf p" "binlog_is p L" and up: "list_all (\<lambda>x. \<not> gtid_less (position_of e b n) (fst x)) L"
    using assms(1) by (simp_all add: primary_at_def)
  define N where "N = later c0 L"
  have recs: "recs = take limit N" using binlog_scan [OF bl assms(6)] assms(8) by (simp add: N_def)
  define M where "M = take m recs"
  then obtain D where MD: "N = M @ D" using recs by (metis append_take_drop_id append.assoc)
  have ok: "list_all record_ok N" "sorted_wrt gtid_less (map fst N)"
    using bl binlog_sorted [OF bl] by (auto simp: N_def binlog_is_def list_all_iff sorted_wrt_map sorted_wrt_filter)
  have cN: "later x L = later x N" if "\<not> gtid_less x c0" for x
    using gtid_less_trans(2) [OF that] by (auto simp: N_def intro!: filter_cong)
  have dup: "apply_batch mx (filter (\<lambda>x. \<not> gtid_less c (fst x)) M) s = (s, None)"
    using ok MD by (intro batch_duplicates [OF assms(2)]) (auto simp: list_all_iff)
  have skip: "apply_batch mx M s = apply_batch mx (later c M) s"
    using batch_append [of mx "filter (\<lambda>x. \<not> gtid_less c (fst x)) M" "later c M" s] dup split_at [of M c] ok(2) MD
    by (simp add: sorted_wrt_append)
  have okM: "list_all record_ok (later c M)" "sorted_wrt gtid_less (map fst (later c M))" "list_all (\<lambda>x. gtid_less c (fst x)) (later c M)"
    using ok MD by (auto simp: list_all_iff sorted_wrt_append sorted_wrt_map sorted_wrt_filter)
  have "later c L = later c M @ later c D" using cN [OF assms(7)] MD by simp
  from leads_applied [OF assms(5) this assms(4,2) okM] obtain s1 q1 where
    s1: "apply_batch mx (later c M) s = (s1, None)" "sim q1 s1" "leads mx q1 (later c D) p" by blast
  let ?c1 = "batch_end c (later c M)"
  obtain X1 where X1: "standby_at s1 ?c1 X1" using batch_standby [OF assms(2) okM s1(1)] by blast
  have "set M \<subseteq> set N" using MD by simp
  then have mem: "set (later c M) \<subseteq> set L" by (auto simp: N_def)
  have "\<not> gtid_less (position_of e b n) ?c1 \<and> \<not> gtid_less ?c1 c"
  proof (cases "later c M = []")
    case False
    then have "last (later c M) \<in> set L" "gtid_less c (fst (last (later c M)))" using last_in_set [OF False] mem by auto
    with up False show ?thesis using gtid_less_asym by (simp add: batch_end_def list_all_iff)
  qed (use assms(3) in \<open>simp add: batch_end_def\<close>)
  then have c1: "\<not> gtid_less (position_of e b n) ?c1" "\<not> gtid_less ?c1 c0" "\<not> gtid_less ?c1 c"
    using assms(7) gtid_less_trans(2) by blast+
  have "later ?c1 L = later c D" using cN [OF c1(2)] later_end [of M D c] ok(2) MD by simp
  moreover have "length (later c L) = length (later c M) + length (later c D)" using cN [OF assms(7)] MD by simp
  ultimately have "length (later ?c1 L) = length (later c L) - length (later c M)" "leads mx q1 (later ?c1 L) p"
    using s1(3) by simp_all
  with s1 skip X1 c1(1,3) show ?thesis unfolding M_def by metis
qed

end
