(* ===== verification/Replica_Slots.thy ===== *)
theory Replica_Slots
  imports Replica_Stream
begin

text \<open>
  Slots and truncation of the log on the primary: a downstream confirms positions on its slot, and truncation may only
  delete records that every live slot has confirmed; past the hard limit it marks the slots it overtakes as stale.
\<close>

section \<open>The slot family\<close>

text \<open>Every slot is stored under the key of its own name.\<close>

definition slots_wf :: "db \<Rightarrow> bool" where
  "slots_wf db \<longleftrightarrow> (\<forall>k sl. kv_get db k = Some (VSlot sl) \<longrightarrow> prefix PREFIX_REPL_SLOT k \<longrightarrow> repl_slot_key (slot_name sl) = Inr k)"

definition slot_at :: "bytes \<Rightarrow> db \<Rightarrow> slot option" where
  "slot_at name db =
     (case repl_slot_key name of
        Inl _ \<Rightarrow> None
      | Inr k \<Rightarrow> (case kv_get db k of Some (VSlot sl) \<Rightarrow> Some sl | _ \<Rightarrow> None))"

lemma slot_key_prefix: "repl_slot_key name = Inr k \<Longrightarrow> prefix PREFIX_REPL_SLOT k"
  by (auto simp: repl_slot_key_def split: if_splits)

lemma slot_key_inj: "repl_slot_key a = Inr k \<Longrightarrow> repl_slot_key b = Inr k \<Longrightarrow> a = b"
  by (auto simp: repl_slot_key_def split: if_splits)

lemma slot_atE:
  assumes "slot_at name db = Some sl"
  obtains k where "repl_slot_key name = Inr k" "kv_get db k = Some (VSlot sl)"
  using assms by (auto simp: slot_at_def split: sum.splits option.splits stored.splits)

lemma slot_name_at: "slots_wf db \<Longrightarrow> slot_at name db = Some sl \<Longrightarrow> slot_name sl = name"
  using slot_key_inj slot_key_prefix unfolding slots_wf_def by (metis slot_atE)

lemma slot_at_cong:
  "(\<And>k. prefix PREFIX_REPL_SLOT k \<Longrightarrow> kv_get db' k = kv_get db k) \<Longrightarrow> slot_at name db' = slot_at name db"
  using slot_key_prefix by (auto simp: slot_at_def split: sum.splits)

lemma slots_wf_cong:
  "(\<And>k. prefix PREFIX_REPL_SLOT k \<Longrightarrow> kv_get db' k = kv_get db k) \<Longrightarrow> slots_wf db' = slots_wf db"
  by (auto simp: slots_wf_def)

lemma slots_wf_put:
  "slots_wf db \<Longrightarrow> kv_wf db \<Longrightarrow> repl_slot_key (slot_name sl) = Inr k \<Longrightarrow> slots_wf (kv_put k (VSlot sl) db)"
  by (auto simp: slots_wf_def store.get_put split: if_splits)

lemma decode_slots_mem: "decode_slots items = Inr out \<Longrightarrow> (k, VSlot sl) \<in> set items \<Longrightarrow> sl \<in> set out"
  by (induction items arbitrary: out rule: decode_slots.induct) (auto simp: bind_res_eq_Inr)

lemma listed_slot:
  assumes "kv_wf db" "list_repl_slots db = Inr slots" "slot_at name db = Some sl"
  shows "sl \<in> set slots"
proof -
  obtain k where "repl_slot_key name = Inr k" "kv_get db k = Some (VSlot sl)" using slot_atE [OF assms(3)] .
  then have "(k, VSlot sl) \<in> set (scan_prefix db PREFIX_REPL_SLOT)"
    using store.set_scan [OF assms(1)] slot_key_prefix by blast
  with decode_slots_mem assms(2) show ?thesis by (simp add: list_repl_slots_def)
qed

section \<open>Acknowledging and falling behind\<close>

lemma ack_slot:
  assumes "kv_wf db" "slots_wf db" "ack_repl_slot name g now db = Inr (db', sl')"
  obtains sl where "slot_at name db = Some sl" "\<not> slot_stale sl" "\<not> gtid_less g (slot_confirmed sl)"
    "slot_at name db' = Some (sl\<lparr>slot_confirmed := g, slot_last_ack_at := now\<rparr>)" "kv_wf db'" "slots_wf db'"
    "\<And>k. \<not> prefix PREFIX_REPL_SLOT k \<Longrightarrow> kv_get db' k = kv_get db k"
proof -
  from assms(3) obtain k sl where k: "repl_slot_key name = Inr k" "kv_get db k = Some (VSlot sl)"
    and c: "\<not> slot_stale sl" "\<not> gtid_less g (slot_confirmed sl)"
    and db': "bind_res (repl_slot_key (slot_name sl)) (\<lambda>k'. Inr (kv_put k' (VSlot (sl\<lparr>slot_confirmed := g, slot_last_ack_at := now\<rparr>)) db)) = Inr db'"
    by (auto simp: ack_repl_slot_def bind_res_eq_Inr ok_or_def Let_def split: option.splits if_splits elim!: decode_slot.elims)
  have nm: "slot_at name db = Some sl" using k by (simp add: slot_at_def)
  with slot_name_at [OF assms(2)] k db' have "db' = kv_put k (VSlot (sl\<lparr>slot_confirmed := g, slot_last_ack_at := now\<rparr>)) db" by simp
  with that [OF nm c] assms(1,2) k slot_key_prefix [OF k(1)] slot_name_at [OF assms(2) nm] show thesis
    by (auto simp: slot_at_def store.get_put store.wf_put slots_wf_put)
qed

text \<open>Marking slots: only live slots behind the cut change, and only their mark.\<close>

definition marked :: "db \<Rightarrow> db \<Rightarrow> bool" where
  "marked db db' \<longleftrightarrow> kv_wf db' \<and> slots_wf db' \<and> (\<forall>k. \<not> prefix PREFIX_REPL_SLOT k \<longrightarrow> kv_get db' k = kv_get db k) \<and>
     (\<forall>name sl. slot_at name db = Some sl \<longrightarrow> slot_at name db' = Some sl \<or> slot_at name db' = Some (sl\<lparr>slot_stale := True\<rparr>))"

lemma marked_refl: "kv_wf db \<Longrightarrow> slots_wf db \<Longrightarrow> marked db db"
  by (simp add: marked_def)

lemma marked_slot:
  "marked db db' \<Longrightarrow> slot_at name db = Some sl \<Longrightarrow> slot_at name db' = Some sl \<or> slot_at name db' = Some (sl\<lparr>slot_stale := True\<rparr>)"
  by (simp add: marked_def)

lemma marked_trans:
  assumes "marked a b" "marked b c"
  shows "marked a c"
proof -
  have "slot_at name c = Some sl \<or> slot_at name c = Some (sl\<lparr>slot_stale := True\<rparr>)" if "slot_at name a = Some sl" for name sl
    using marked_slot [OF assms(1) that] marked_slot [OF assms(2), of name sl] marked_slot [OF assms(2), of name "sl\<lparr>slot_stale := True\<rparr>"]
    by auto
  with assms show ?thesis by (simp add: marked_def)
qed

lemma mark_one:
  assumes "kv_wf db" "slots_wf db" "mark_repl_slot_stale_if_behind name ct db = Inr (db', b)"
  shows "marked db db' \<and> (\<forall>sl. slot_at name db = Some sl \<longrightarrow> gtid_less (slot_confirmed sl) ct \<longrightarrow> (\<exists>sl'. slot_at name db' = Some sl' \<and> slot_stale sl'))"
proof -
  obtain k where k: "repl_slot_key name = Inr k" using assms(3) by (auto simp: mark_repl_slot_stale_if_behind_def bind_res_eq_Inr)
  show ?thesis
  proof (cases "kv_get db k")
    case None
    then show ?thesis using assms k by (auto simp: mark_repl_slot_stale_if_behind_def marked_refl slot_at_def)
  next
    case (Some v)
    then obtain sl where v: "v = VSlot sl" using assms(3) k
      by (auto simp: mark_repl_slot_stale_if_behind_def bind_res_eq_Inr elim!: decode_slot.elims)
    have at: "slot_at name db = Some sl" using k Some v by (simp add: slot_at_def)
    have nm: "slot_name sl = name" using slot_name_at [OF assms(2) at] .
    show ?thesis
    proof (cases "slot_stale sl \<or> \<not> gtid_less (slot_confirmed sl) ct")
      case True
      with assms(3) k Some v have "db' = db" by (simp add: mark_repl_slot_stale_if_behind_def)
      with True assms(1,2) at show ?thesis by (auto simp: marked_refl)
    next
      case False
      with assms(3) k Some v nm have db': "db' = kv_put k (VSlot (sl\<lparr>slot_stale := True\<rparr>)) db"
        by (auto simp: mark_repl_slot_stale_if_behind_def)
      have "slot_at name' db' = (if name' = name then Some (sl\<lparr>slot_stale := True\<rparr>) else slot_at name' db)" for name'
        using k slot_key_inj [of name' k name] assms(1)
        by (cases "repl_slot_key name'"; cases "name' = name") (auto simp: db' slot_at_def store.get_put)
      moreover have "kv_wf db'" "slots_wf db'" "\<And>q. \<not> prefix PREFIX_REPL_SLOT q \<Longrightarrow> kv_get db' q = kv_get db q"
        using assms(1,2) k nm slot_key_prefix [OF k] by (auto simp: db' store.wf_put store.get_put slots_wf_put)
      ultimately show ?thesis using at by (simp add: marked_def)
    qed
  qed
qed

lemma mark_all:
  assumes "mark_stale_all ss ct db = Inr db'" "kv_wf db" "slots_wf db"
  shows "marked db db' \<and> (\<forall>name sl. slot_at name db = Some sl \<longrightarrow> sl \<in> set ss \<longrightarrow> gtid_less (slot_confirmed sl) ct \<longrightarrow>
    (\<exists>sl'. slot_at name db' = Some sl' \<and> slot_stale sl'))"
  using assms
proof (induction ss arbitrary: db)
  case Nil
  then show ?case by (simp add: marked_refl)
next
  case (Cons s ss)
  obtain d where d: "marked db d" "mark_stale_all ss ct d = Inr db'"
    "\<And>sl. slot_at (slot_name s) db = Some sl \<Longrightarrow> gtid_less (slot_confirmed s) ct \<Longrightarrow> gtid_less (slot_confirmed sl) ct \<Longrightarrow>
       \<exists>sl'. slot_at (slot_name s) d = Some sl' \<and> slot_stale sl'"
  proof (cases "gtid_less (slot_confirmed s) ct")
    case True
    with Cons.prems(1) obtain d b where "mark_repl_slot_stale_if_behind (slot_name s) ct db = Inr (d, b)" "mark_stale_all ss ct d = Inr db'"
      by (auto simp: bind_res_eq_Inr)
    with mark_one [OF Cons.prems(2,3)] that show thesis by blast
  next
    case False
    with Cons.prems that [of db] show thesis by (simp add: marked_refl)
  qed
  have wf: "kv_wf d" "slots_wf d" using d(1) by (simp_all add: marked_def)
  have IH: "marked d db'" "\<And>name sl. slot_at name d = Some sl \<Longrightarrow> sl \<in> set ss \<Longrightarrow> gtid_less (slot_confirmed sl) ct \<Longrightarrow>
      \<exists>sl'. slot_at name db' = Some sl' \<and> slot_stale sl'"
    using Cons.IH [OF d(2) wf] by blast+
  have stay: "\<exists>sl'. slot_at name db' = Some sl' \<and> slot_stale sl'" if "slot_at name d = Some x" "slot_stale x" for name x
    using marked_slot [OF IH(1) that(1)] that(2) by auto
  have "\<exists>sl'. slot_at name db' = Some sl' \<and> slot_stale sl'"
    if at: "slot_at name db = Some sl" and m: "sl \<in> set (s # ss)" and lt: "gtid_less (slot_confirmed sl) ct" for name sl
  proof -
    have nm: "slot_name sl = name" using slot_name_at [OF Cons.prems(3) at] .
    from marked_slot [OF d(1) at] show ?thesis using d(3) [of sl] IH(2) [of name sl] stay nm at m lt by auto
  qed
  with marked_trans [OF d(1) IH(1)] show ?case by blast
qed

section \<open>Truncation\<close>

lemma parse_binlog_build:
  assumes "parse_binlog_gtid k = Inr g"
  shows "bkey g = k" "gtid_ok g"
proof -
  from assms obtain body where k: "k = PREFIX_BINLOG @ body" "length body = 16"
    and g: "g = \<lparr>g_epoch = unat (from_be_bytes (take 8 body) :: u64), g_seq = unat (from_be_bytes (drop 8 body) :: u64)\<rparr>"
    by (auto simp: parse_binlog_gtid_def bind_res_eq_Inr key_body_def gtid_of_bytes_def strip_pre_Some
        split: if_splits option.splits)
  show "bkey g = k" using k(2) by (simp add: g k(1) binlog_key_def to_from_be_bytes)
  show "gtid_ok g"
    using unsigned_less [of "from_be_bytes (take 8 body) :: u64", where 'a = nat]
      unsigned_less [of "from_be_bytes (drop 8 body) :: u64", where 'a = nat] by (simp add: g gtid_ok_def)
qed

abbreviation ekey :: "binlog_entry \<Rightarrow> bytes" where
  "ekey e \<equiv> bkey (be_gtid e)"

lemma entries_keys:
  "binlog_entries enc items = Inr es \<Longrightarrow> map ekey es = map fst items \<and> (\<forall>e \<in> set es. gtid_ok (be_gtid e))"
  by (induction enc items arbitrary: es rule: binlog_entries.induct)
    (auto simp: bind_res_eq_Inr parse_binlog_build split: if_splits)

lemma entries_sorted:
  assumes "kv_wf db" "binlog_entries enc (scan_prefix db PREFIX_BINLOG) = Inr es"
  shows "sorted_wrt gtid_less (map be_gtid es)"
proof -
  have "sorted_wrt (<) (map bkey (map be_gtid es))"
    using store.sorted_scan [OF assms(1), of PREFIX_BINLOG] entries_keys [OF assms(2)] by (simp add: comp_def sorted_wrt_map)
  then show ?thesis using binlog_keys.scan_order [of "map be_gtid es"] entries_keys [OF assms(2)] by simp
qed

lemma fold_min:
  "\<not> gtid_less g (fold (\<lambda>h m. if gtid_less h m then h else m) gs g) \<and>
    (\<forall>h \<in> set gs. \<not> gtid_less h (fold (\<lambda>h m. if gtid_less h m then h else m) gs g))"
proof (induction gs arbitrary: g)
  case (Cons h gs)
  define m where "m = (if gtid_less h g then h else g)"
  have m: "\<not> gtid_less g m" "\<not> gtid_less h m" by (auto simp: m_def gtid_less_def)
  with Cons.IH [of m] show ?case by (auto simp: m_def [symmetric] intro: gtid_less_trans(2))
qed simp

lemma gtid_min_least: "h \<in> set gs \<Longrightarrow> \<exists>m. gtid_min gs = Some m \<and> \<not> gtid_less h m"
  using fold_min by (cases gs) (auto simp: gtid_min_def)

lemma allowed_confirmed:
  assumes "h \<in> set gs" "e \<in> set (take (min n (allowed_cut (gtid_min gs) es)) es)"
  shows "\<not> gtid_less h (be_gtid e)"
proof -
  obtain m where m: "gtid_min gs = Some m" "\<not> gtid_less h m" using gtid_min_least [OF assms(1)] by blast
  let ?w = "takeWhile (\<lambda>e. \<not> gtid_less m (be_gtid e)) es"
  have "set (take (min n (length ?w)) es) \<subseteq> set (take (length ?w) es)" by (rule set_take_subset_set_take) simp
  then have "e \<in> set ?w" using assms(2) m(1) by (auto simp: allowed_cut_def simp flip: takeWhile_eq_take)
  then have "\<not> gtid_less m (be_gtid e)" using set_takeWhileD by fastforce
  with m(2) show ?thesis by (auto simp: gtid_less_def)
qed

lemma dels_frame:
  "kv_wf db \<Longrightarrow> kv_wf (fold kv_del ks db) \<and> kv_get (fold kv_del ks db) k = (if k \<in> set ks then None else kv_get db k)"
  by (induction ks arbitrary: db) (auto simp: store.wf_del store.get_del)

lemma force_cut_le: "force_cut h es \<le> length es"
  by (induction h es rule: force_cut.induct) simp_all

lemma sorted_cut:
  assumes "sorted_wrt gtid_less (map be_gtid es)" "e \<in> set (take cutn es)" "cutn \<noteq> 0" "cutn \<le> length es"
  shows "\<not> gtid_less (be_gtid (es ! (cutn - 1))) (be_gtid e)"
proof -
  obtain i where i: "i < cutn" "i < length es" "e = es ! i" using assms(2) by (auto simp: in_set_conv_nth)
  show ?thesis
  proof (cases "i < cutn - 1")
    case True
    then have "gtid_less (be_gtid e) (be_gtid (es ! (cutn - 1)))"
      using assms(1,3,4) i by (simp add: sorted_wrt_map sorted_wrt_iff_nth_less)
    then show ?thesis by (auto simp: gtid_less_def)
  next
    case False
    then have "i = cutn - 1" using i(1) by simp
    then show ?thesis using i(3) by simp
  qed
qed

text \<open>
  What a truncation leaves. A live slot is either marked stale, or all the records that are gone are ones it had confirmed.
\<close>

definition cut_safely :: "binlog_entry list \<Rightarrow> db \<Rightarrow> db \<Rightarrow> bool" where
  "cut_safely gone db db' \<longleftrightarrow> kv_wf db' \<and> slots_wf db' \<and>
     (\<forall>k. \<not> prefix PREFIX_REPL_SLOT k \<longrightarrow> \<not> prefix PREFIX_REPL_RMAP k \<longrightarrow> kv_get db' k = (if k \<in> ekey ` set gone then None else kv_get db k)) \<and>
     (\<forall>name sl. slot_at name db = Some sl \<longrightarrow> slot_at name db' = Some sl \<or> slot_at name db' = Some (sl\<lparr>slot_stale := True\<rparr>)) \<and>
     (\<forall>name sl. slot_at name db' = Some sl \<longrightarrow> \<not> slot_stale sl \<longrightarrow> slot_at name db = Some sl \<longrightarrow> (\<forall>e \<in> set gone. \<not> gtid_less (slot_confirmed sl) (be_gtid e)))"

lemma fold_dels: "fold (\<lambda>e. kv_del (f e)) es db = fold kv_del (map f es) db"
  by (simp add: fold_map comp_def)

lemma cut_dels:
  fixes gone :: "binlog_entry list"
  assumes "kv_wf db" "slots_wf db" "\<forall>k \<in> set ks. prefix PREFIX_REPL_RMAP k"
  defines "db2 \<equiv> fold kv_del ks (fold kv_del (map ekey gone) db)"
  shows "kv_wf db2" "slots_wf db2" "slot_at name db2 = slot_at name db"
    "\<not> prefix PREFIX_REPL_SLOT k \<Longrightarrow> \<not> prefix PREFIX_REPL_RMAP k \<Longrightarrow> kv_get db2 k = (if k \<in> ekey ` set gone then None else kv_get db k)"
proof -
  have wf: "kv_wf (fold kv_del (map ekey gone) db)" using dels_frame [OF assms(1)] by blast
  show "kv_wf db2" using dels_frame [OF wf] by (simp add: db2_def)
  have get: "kv_get db2 k = (if k \<in> set ks \<or> k \<in> ekey ` set gone then None else kv_get db k)" for k
    using dels_frame [OF wf, of ks k] dels_frame [OF assms(1), of "map ekey gone" k] by (simp add: db2_def)
  have ap: "\<not> prefix PREFIX_REPL_RMAP k \<and> \<not> prefix PREFIX_BINLOG k" if "prefix PREFIX_REPL_SLOT k" for k
    using that family_excl [of PREFIX_REPL_SLOT PREFIX_REPL_RMAP k] family_excl [of PREFIX_REPL_SLOT PREFIX_BINLOG k]
    by (simp add: all_prefixes_def) (simp add: prefix_defs lit_def)
  have sl: "kv_get db2 k = kv_get db k" if "prefix PREFIX_REPL_SLOT k" for k
    using get [of k] ap [OF that] assms(3) by auto
  then show "slot_at name db2 = slot_at name db" "slots_wf db2"
    using slot_at_cong [of db2 db] slots_wf_cong [of db2 db] assms(2) by auto
  show "\<not> prefix PREFIX_REPL_SLOT k \<Longrightarrow> \<not> prefix PREFIX_REPL_RMAP k \<Longrightarrow> kv_get db2 k = (if k \<in> ekey ` set gone then None else kv_get db k)"
    using get [of k] assms(3) by auto
qed

lemma truncate_cuts_safely:
  assumes "kv_wf db" "slots_wf db" "truncate_binlog enc True now rc db = Inr db'"
  shows "\<exists>es cutn. binlog_entries enc (scan_prefix db PREFIX_BINLOG) = Inr es \<and> cut_safely (take cutn es) db db'"
proof -
  from assms(3) obtain all_slots es where sl: "list_repl_slots db = Inr all_slots" and es: "binlog_entries enc (scan_prefix db PREFIX_BINLOG) = Inr es"
    by (auto simp: truncate_binlog_def bind_res_eq_Inr Let_def)
  define slots where "slots = filter (\<lambda>s. \<not> slot_stale s) all_slots"
  define soft where "soft = min (soft_cut rc now es) (allowed_cut (gtid_min (map slot_confirmed slots)) es)"
  define cutn where "cutn = soft + force_cut (rc_bytes_hard rc) (drop soft es)"
  define ks where "ks = filter (\<lambda>i. i \<notin> set (entry_rmaps (drop cutn es))) (entry_rmaps (take cutn es))"
  define db2 where "db2 = fold kv_del ks (fold kv_del (map ekey (take cutn es)) db)"
  have "soft \<le> length es" by (simp add: soft_def soft_cut_def)
  then have le: "cutn \<le> length es" using force_cut_le [of "rc_bytes_hard rc" "drop soft es"] by (simp add: cutn_def)
  have ks: "\<forall>k \<in> set ks. prefix PREFIX_REPL_RMAP k" by (auto simp: ks_def entry_rmaps_def rmap_id_def repl_rmap_key_def)
  have res: "(if cutn = 0 then Inr db else if soft < cutn then mark_stale_all slots (be_gtid (es ! (cutn - 1))) db2 else Inr db2) = Inr db'"
    using assms(3)
    unfolding truncate_binlog_def sl es bind_res_simps Let_def fold_dels [where f = ekey] slots_def [symmetric]
    unfolding soft_def [symmetric]
    unfolding cutn_def [symmetric]
    unfolding ks_def [symmetric]
    unfolding db2_def [symmetric] by simp
  have live: "sl \<in> set slots" if "slot_at name db = Some sl" "\<not> slot_stale sl" for name sl
    using listed_slot [OF assms(1) sl that(1)] that(2) by (simp add: slots_def)
  have softly: "\<not> gtid_less (slot_confirmed sl) (be_gtid e)" if "slot_at name db = Some sl" "\<not> slot_stale sl" "e \<in> set (take soft es)" for name sl e
    using allowed_confirmed [of "slot_confirmed sl" "map slot_confirmed slots"] live that by (simp add: soft_def)
  note d2 = cut_dels [OF assms(1,2) ks, where gone = "take cutn es", folded db2_def]
  consider "cutn = 0" "db' = db" | "cutn \<noteq> 0" "cutn = soft" "db' = db2" | "cutn \<noteq> 0" "soft < cutn" "mark_stale_all slots (be_gtid (es ! (cutn - 1))) db2 = Inr db'"
    using res by (cases "cutn = 0"; cases "soft < cutn") (auto simp: cutn_def)
  then have "cut_safely (take cutn es) db db'"
  proof cases
    case 1
    then show ?thesis using assms(1,2) by (simp add: cut_safely_def)
  next
    case 2
    then show ?thesis using d2 softly by (auto simp: cut_safely_def)
  next
    case 3
    let ?ct = "be_gtid (es ! (cutn - 1))"
    have m: "marked db2 db'" "\<And>name sl. slot_at name db2 = Some sl \<Longrightarrow> sl \<in> set slots \<Longrightarrow> gtid_less (slot_confirmed sl) ?ct \<Longrightarrow>
        \<exists>sl'. slot_at name db' = Some sl' \<and> slot_stale sl'"
      using mark_all [OF 3(3) d2(1,2)] by blast+
    have last: "\<not> gtid_less ?ct (be_gtid e)" if "e \<in> set (take cutn es)" for e
      using entries_sorted [OF assms(1) es] that 3(1) le by (rule sorted_cut)
    have "\<not> gtid_less (slot_confirmed sl) (be_gtid e)"
      if "slot_at name db' = Some sl" "\<not> slot_stale sl" "slot_at name db = Some sl" "e \<in> set (take cutn es)" for name sl e
    proof -
      have "\<not> gtid_less (slot_confirmed sl) ?ct" using m(2) [of name sl] live [OF that(3,2)] that(1-3) d2(3) by auto
      with last [OF that(4)] show ?thesis by (auto simp: gtid_less_def)
    qed
    with m(1) d2 show ?thesis by (simp add: cut_safely_def marked_def)
  qed
  with es show ?thesis by blast
qed

end
