(* ===== verification/Repl_Endpoint.thy ===== *)
theory Repl_Endpoint
  imports Replica_Sync Replica_Slots
begin

text \<open>
  The two ends of the replication stream: the log endpoint of a node (\<^verbatim>\<open>handle_binlog\<close> of \<^verbatim>\<open>crates/fs3d/src/repl.rs\<close>) with the
  check of the slot, the check for a gap, the filters of the slot and the delivery watermark of a relay; and the round of the
  pull worker (\<^verbatim>\<open>repl_worker.rs\<close>) that asks it. Requests are taken parsed, and a long poll is taken at its last look at the log.
\<close>

section \<open>Answers\<close>

datatype repl_fault = ErrNodeIdMismatch | ErrBadRequest | ErrTopologyLoop | ErrDiverged | ErrBinlogGone | ErrSlotUnknown
  | ErrSlotExists | ErrSlotLimit | ErrSlotOwnerMismatch | ErrFilterMismatch | ErrInternal fs3_error

definition internal :: "'a result \<Rightarrow> repl_fault + 'a" where
  "internal r = (case r of Inl e \<Rightarrow> Inl (ErrInternal e) | Inr x \<Rightarrow> Inr x)"

definition MAX_BINLOG_LIMIT :: nat where
  "MAX_BINLOG_LIMIT = 4096"

definition valid_slot_name :: "bytes \<Rightarrow> bool" where
  "valid_slot_name name \<longleftrightarrow> name \<noteq> [] \<and> length name \<le> 128 \<and> list_all (\<lambda>b. is_ascii_alnum b \<or> b \<in> set (lit ''-_.'')) name"

definition repl_slot :: "bytes \<Rightarrow> db \<Rightarrow> slot option result" where
  "repl_slot name db =
     bind_res (repl_slot_key name) (\<lambda>k.
       case kv_get db k of None \<Rightarrow> Inr None | Some v \<Rightarrow> bind_res (decode_slot v) (\<lambda>sl. Inr (Some sl)))"

definition high_watermark :: "db \<Rightarrow> gtid result" where
  "high_watermark db =
     bind_res (repl_epoch db) (\<lambda>e. bind_res (last_seq db) (\<lambda>n. bind_res (repl_ebase db) (\<lambda>b.
       Inr \<lparr>g_epoch = unat e, g_seq = unat n - unat b\<rparr>)))"

definition binlog_floor :: "db \<Rightarrow> gtid option result" where
  "binlog_floor db =
     bind_res (repl_binlog_scan db \<lparr>g_epoch = 0, g_seq = 0\<rparr> 1) (\<lambda>l. Inr (case l of [] \<Rightarrow> None | x # _ \<Rightarrow> Some (fst x)))"

section \<open>The log endpoint\<close>

definition next_wanted :: "gtid \<Rightarrow> gtid \<Rightarrow> gtid" where
  "next_wanted after fl =
     (if g_epoch after = 0 \<and> g_seq after = 0 then \<lparr>g_epoch = g_epoch fl, g_seq = 1\<rparr>
      else \<lparr>g_epoch = g_epoch after, g_seq = (g_seq after + 1) mod 2 ^ 64\<rparr>)"

fun ship :: "db \<Rightarrow> (gtid \<times> repl_record) list \<Rightarrow> (gtid \<times> repl_record) list" where
  "ship db [] = []"
| "ship db ((g, r) # rest) =
     (if data_refs_of (rr_ops r) \<noteq> [] \<and> repl_pending_exists db g then [] else (g, r) # ship db rest)"

definition slot_for_pull :: "bytes \<Rightarrow> db \<Rightarrow> repl_fault + slot" where
  "slot_for_pull name db =
     (if \<not> valid_slot_name name then Inl ErrBadRequest
      else bind_res (internal (repl_slot name db)) (\<lambda>so.
        case so of None \<Rightarrow> Inl ErrSlotUnknown | Some sl \<Rightarrow> if slot_stale sl then Inl ErrBinlogGone else Inr sl))"

definition gap_check :: "gtid \<Rightarrow> db \<Rightarrow> repl_fault + unit" where
  "gap_check after db =
     bind_res (internal (binlog_floor db)) (\<lambda>fl.
       case fl of None \<Rightarrow> Inr () | Some f \<Rightarrow> if gtid_less (next_wanted after f) f then Inl ErrBinlogGone else Inr ())"

definition handle_binlog :: "bytes \<Rightarrow> gtid \<Rightarrow> nat \<Rightarrow> db \<Rightarrow> repl_fault + (gtid \<times> repl_record) list" where
  "handle_binlog name after limit db =
     bind_res (slot_for_pull name db) (\<lambda>sl.
     bind_res (gap_check after db) (\<lambda>_.
     bind_res (internal (high_watermark db)) (\<lambda>w.
     bind_res (if g_epoch w < g_epoch after then Inr [] else internal (repl_binlog_scan db after (max 1 (min limit MAX_BINLOG_LIMIT)))) (\<lambda>es.
       Inr (ship db (map (\<lambda>(g, r). (g, scoped_for (slot_filters sl) r)) (filter (\<lambda>x. gtid_less after (fst x)) es)))))))"

section \<open>The pull worker\<close>

text \<open>
  How a round ends: the batch was applied; the worker has to build the standby from a snapshot first; or the round failed,
  after which the worker shakes hands again or stops.
\<close>

datatype pull_end = Pulled | Bootstrap | Stopped repl_fault

definition executed_is_empty :: "db \<Rightarrow> bool" where
  "executed_is_empty db = (case repl_executed db of Inr X \<Rightarrow> gs_is_empty X | Inl _ \<Rightarrow> False)"

definition pull :: "nat \<Rightarrow> bytes \<Rightarrow> nat \<Rightarrow> db \<Rightarrow> db \<Rightarrow> db \<times> pull_end" where
  "pull mx name limit p s =
     (case repl_cursor s of
        Inl e \<Rightarrow> (s, Stopped (ErrInternal e))
      | Inr c \<Rightarrow>
          if g_epoch c = 0 \<and> g_seq c = 0 then (s, Bootstrap)
          else
            (case handle_binlog name c limit p of
               Inl f \<Rightarrow> (s, if f = ErrBinlogGone \<and> executed_is_empty s then Bootstrap else Stopped f)
             | Inr recs \<Rightarrow>
                 (case apply_batch mx recs s of
                    (s', None) \<Rightarrow> (s', Pulled)
                  | (s', Some e) \<Rightarrow> (s', Stopped (ErrInternal e)))))"

section \<open>What the endpoint answers\<close>

lemma internal_Inr [simp]: "internal (Inr x) = Inr x" "internal r = Inr y \<longleftrightarrow> r = Inr y"
  by (simp_all add: internal_def split: sum.splits)

lemma repl_slot_at: "repl_slot name db = Inr (Some sl) \<Longrightarrow> slot_at name db = Some sl"
  by (auto simp: repl_slot_def slot_at_def bind_res_eq_Inr split: option.splits elim!: decode_slot.elims)

lemma slot_for_pull_at: "slot_for_pull name db = Inr sl \<Longrightarrow> slot_at name db = Some sl \<and> \<not> slot_stale sl"
proof -
  assume "slot_for_pull name db = Inr sl"
  then obtain so where so: "repl_slot name db = Inr so"
    "(case so of None \<Rightarrow> Inl ErrSlotUnknown | Some sl \<Rightarrow> if slot_stale sl then Inl ErrBinlogGone else Inr sl) = Inr sl"
    by (auto simp: slot_for_pull_def bind_res_eq_Inr split: if_splits)
  then have "so = Some sl \<and> \<not> slot_stale sl" by (cases so) (simp_all split: if_splits)
  then show ?thesis using so(1) repl_slot_at by blast
qed

lemma slot_pull_ok:
  "valid_slot_name name \<Longrightarrow> slot_at name db = Some sl \<Longrightarrow> \<not> slot_stale sl \<Longrightarrow> slot_for_pull name db = Inr sl"
  by (auto simp: slot_for_pull_def repl_slot_def slot_at_def split: sum.splits option.splits stored.splits)

lemma floor_first:
  assumes "kv_wf p" "binlog_is p L"
  shows "binlog_floor p = Inr (case L of [] \<Rightarrow> None | x # _ \<Rightarrow> Some (fst x))"
proof -
  have "later \<lparr>g_epoch = 0, g_seq = 0\<rparr> L = L"
    using assms(2) by (intro filter_True) (auto simp: binlog_is_def list_all_iff record_ok_def gtid_less_def)
  moreover have "gtid_ok \<lparr>g_epoch = 0, g_seq = 0\<rparr>" by (simp add: gtid_ok_def)
  ultimately show ?thesis using binlog_scan [OF assms, of _ 1] by (cases L) (simp_all add: binlog_floor_def)
qed

lemma ship_take: "\<exists>k. ship db xs = take k xs"
proof (induction xs)
  case (Cons x xs)
  then obtain k where "ship db xs = take k xs" by blast
  then show ?case using exI [of "\<lambda>k. ship db (x # xs) = take k (x # xs)" 0] exI [of "\<lambda>k. ship db (x # xs) = take k (x # xs)" "Suc k"]
    by (cases x) auto
qed simp

lemma ship_present: "(g, r) \<in> set (ship db xs) \<Longrightarrow> data_refs_of (rr_ops r) = [] \<or> \<not> repl_pending_exists db g"
  by (induction db xs rule: ship.induct) (auto split: if_splits)

lemma handle_binlog_next:
  assumes "primary_at p L e b n" "slot_for_pull name p = Inr sl" "gtid_ok c" "g_epoch c \<le> unat e"
    "L \<noteq> [] \<Longrightarrow> \<not> gtid_less (next_wanted c (fst (hd L))) (fst (hd L))"
  shows "handle_binlog name c limit p =
    Inr (ship p (map (\<lambda>(g, r). (g, scoped_for (slot_filters sl) r)) (take (max 1 (min limit MAX_BINLOG_LIMIT)) (later c L))))"
proof -
  have bl: "kv_wf p" "binlog_is p L" and P: "last_seq p = Inr n" "repl_epoch p = Inr e" "repl_ebase p = Inr b"
    using assms(1) by (simp_all add: primary_at_def)
  have "gap_check c p = Inr ()" using floor_first [OF bl] assms(5) by (cases L) (simp_all add: gap_check_def)
  moreover have "high_watermark p = Inr \<lparr>g_epoch = unat e, g_seq = unat n - unat b\<rparr>" using P by (simp add: high_watermark_def)
  moreover have "filter (\<lambda>x. gtid_less c (fst x)) (take k (later c L)) = take k (later c L)" for k
    by (rule filter_True) (auto dest: in_set_takeD)
  ultimately show ?thesis
    using assms(2,4) binlog_scan [OF bl assms(3), of "max 1 (min limit MAX_BINLOG_LIMIT)"] by (simp add: handle_binlog_def)
qed

lemma next_wanted_position:
  assumes "b \<le> n" "n \<noteq> - 1" "1 \<le> e"
  shows "next_wanted (position_of e b n) f = position_of e b (n + 1)"
proof -
  have "unat (n + 1 - b) = unat (n - b) + 1"
    using u64_succ_unat [OF assms(2)] position_next(1) [OF assms(1,2)] assms(1) by (simp add: unat_sub word_le_nat_alt)
  moreover have "unat (n + 1 - b) < 2 ^ 64" using unsigned_less [of "n + 1 - b", where 'a = nat] by simp
  moreover have "unat e \<noteq> 0" using assms(3) by (simp add: word_le_nat_alt)
  ultimately show ?thesis by (simp add: next_wanted_def position_of_def)
qed

lemma ship_all: "\<forall>g. \<not> repl_pending_exists db g \<Longrightarrow> ship db xs = xs"
  by (induction db xs rule: ship.induct) auto

lemma watermark_position: "primary_at p L e b n \<Longrightarrow> high_watermark p = Inr (position_of e b n)"
  by (simp add: primary_at_def high_watermark_def position_of_def unat_sub)

text \<open>A cursor on a log without a gap: it is in the epoch of the log, and every record after it up to the watermark is there.\<close>

definition gapless :: "gtid \<Rightarrow> db \<Rightarrow> bool" where
  "gapless c p \<longleftrightarrow> (\<exists>w. high_watermark p = Inr w \<and> g_epoch c = g_epoch w \<and>
     (\<forall>j. g_seq c < j \<and> j \<le> g_seq w \<longrightarrow> kv_get p (bkey \<lparr>g_epoch = g_epoch w, g_seq = j\<rparr>) \<noteq> None))"

lemma record_stored:
  assumes "kv_wf p" "binlog_is p L"
  shows "kv_get p (bkey g) \<noteq> None \<longleftrightarrow> bkey g \<in> bkey ` fst ` set L"
proof -
  have "set (scan_prefix p PREFIX_BINLOG) = {(k, v). kv_get p k = Some v \<and> prefix PREFIX_BINLOG k}" by (rule store.set_scan [OF assms(1)])
  then have "kv_get p (bkey g) \<noteq> None \<longleftrightarrow> bkey g \<in> fst ` set (scan_prefix p PREFIX_BINLOG)" by force
  also have "fst ` set (scan_prefix p PREFIX_BINLOG) = bkey ` fst ` set L"
    using assms(2) by (simp add: binlog_is_def image_image case_prod_beta)
  finally show ?thesis .
qed

lemma gapless_floor:
  assumes "primary_at p L e b n" "n \<noteq> - 1" "gapless c p" "\<not> gtid_less (position_of e b n) c" "L \<noteq> []"
  shows "\<not> gtid_less (next_wanted c (fst (hd L))) (fst (hd L))"
proof -
  let ?w = "position_of e b n"
  obtain x L' where L: "L = x # L'" using assms(5) by (cases L) auto
  have P: "kv_wf p" "binlog_is p L" "1 \<le> e" "b \<le> n" "\<not> gtid_less ?w (fst x)" "list_all record_ok L" and srt: "sorted_wrt gtid_less (map fst L)"
    using assms(1) binlog_sorted [of p L] by (simp_all add: primary_at_def binlog_is_def L)
  have g: "g_epoch c = g_epoch ?w" "g_seq c \<le> g_seq ?w"
    "g_seq c < j \<Longrightarrow> j \<le> g_seq ?w \<Longrightarrow> kv_get p (bkey \<lparr>g_epoch = g_epoch ?w, g_seq = j\<rparr>) \<noteq> None" for j
    using assms(3,4) watermark_position [OF assms(1)] by (auto simp: gapless_def gtid_less_def)
  have "unat (n - b) \<le> unat n" using P(4) by (simp add: unat_sub)
  moreover have "unat n + 1 < 2 ^ 64" using u64_succ_unat [OF assms(2)] unsigned_less [of "n + 1", where 'a = nat] by simp
  ultimately have top: "g_seq ?w + 1 < 2 ^ 64" by (simp add: position_of_def)
  have "1 \<le> unat e" using P(3) by (simp add: word_le_nat_alt)
  then have nz: "g_epoch c \<noteq> 0" using g(1) by (simp add: position_of_def)
  have nw: "next_wanted c (fst x) = \<lparr>g_epoch = g_epoch ?w, g_seq = g_seq c + 1\<rparr>" using nz g(1,2) top by (simp add: next_wanted_def)
  show ?thesis
  proof (cases "g_seq c < g_seq ?w")
    case True
    let ?h = "\<lparr>g_epoch = g_epoch ?w, g_seq = g_seq c + 1\<rparr>"
    have "kv_get p (bkey ?h) \<noteq> None" using g(3) [of "g_seq c + 1"] True by simp
    then obtain y where y: "y \<in> set L" "bkey ?h = bkey (fst y)" using record_stored [OF P(1,2), of ?h] by auto
    have "gtid_ok ?h" using top g(2) position_ok [of e b n] True by (simp add: gtid_ok_def)
    moreover have "gtid_ok (fst y)" using P(6) y(1) by (auto simp: list_all_iff record_ok_def)
    ultimately have "?h = fst y" using binlog_keys.build_inject y(2) by blast
    moreover have "x = y \<or> gtid_less (fst x) (fst y)" using srt y(1) by (auto simp: L)
    ultimately show ?thesis using nw by (auto simp: L dest: gtid_less_asym)
  next
    case False
    then have "gtid_less ?w (next_wanted c (fst x))" using g(2) by (simp add: nw gtid_less_def)
    then show ?thesis using P(5) gtid_less_trans(3) [of ?w] by (auto simp: L dest: gtid_less_trans)
  qed
qed

lemma gapless_moves:
  assumes "gapless c p" "primary_at p L e b n" "\<not> gtid_less c1 c" "\<not> gtid_less (position_of e b n) c1"
  shows "gapless c1 p"
  using assms(1,3,4) watermark_position [OF assms(2)] by (auto simp: gapless_def gtid_less_def)

lemma gapless_write:
  assumes "gapless c p" "primary_at p L e b n" "n \<noteq> - 1" "primary_at p' (L @ [(position_of e b (n + 1), r)]) e b (n + 1)"
  shows "gapless c p'"
proof -
  let ?w = "position_of e b n" and ?v = "position_of e b (n + 1)"
  have bl: "kv_wf p" "binlog_is p L" "kv_wf p'" "binlog_is p' (L @ [(?v, r)])" "b \<le> n" using assms(2,4) by (simp_all add: primary_at_def)
  have "unat (n + 1 - b) = unat (n - b) + 1"
    using u64_succ_unat [OF assms(3)] position_next(1) [OF bl(5) assms(3)] bl(5) by (simp add: unat_sub word_le_nat_alt)
  then have v: "?v = \<lparr>g_epoch = g_epoch ?w, g_seq = g_seq ?w + 1\<rparr>" by (simp add: position_of_def)
  have "kv_get p' (bkey \<lparr>g_epoch = g_epoch ?w, g_seq = j\<rparr>) \<noteq> None" if "g_seq c < j" "j \<le> g_seq ?w + 1" for j
  proof (cases "j \<le> g_seq ?w")
    case True
    then show ?thesis
      using assms(1) watermark_position [OF assms(2)] that(1) record_stored [OF bl(1,2), of "\<lparr>g_epoch = g_epoch ?w, g_seq = j\<rparr>"]
        record_stored [OF bl(3,4), of "\<lparr>g_epoch = g_epoch ?w, g_seq = j\<rparr>"] by (auto simp: gapless_def)
  next
    case False
    then have "\<lparr>g_epoch = g_epoch ?w, g_seq = j\<rparr> = ?v" using that(2) by (simp add: v)
    then show ?thesis using record_stored [OF bl(3,4), of ?v] by simp
  qed
  moreover have "g_epoch c = g_epoch ?w" using assms(1) watermark_position [OF assms(2)] by (auto simp: gapless_def)
  ultimately show ?thesis using watermark_position [OF assms(4)] unfolding gapless_def v by auto
qed

text \<open>On such a log the endpoint serves a live slot for all buckets the next stretch after the cursor.\<close>

lemma served_next:
  assumes "primary_at p L e b n" "n \<noteq> - 1" "gapless c p" "\<not> gtid_less (position_of e b n) c" "gtid_ok c"
    "slot_for_pull name p = Inr sl" "slot_filters sl = AllBuckets" "\<forall>g. \<not> repl_pending_exists p g"
  shows "handle_binlog name c limit p = Inr (take (max 1 (min limit MAX_BINLOG_LIMIT)) (later c L))"
proof -
  have "g_epoch c \<le> unat e" using assms(4) by (auto simp: position_of_def gtid_less_def)
  from handle_binlog_next [OF assms(1,6,5) this gapless_floor [OF assms(1-4)], of limit] show ?thesis
    using assms(7,8) by (simp add: ship_all scoped_for_def case_prod_eta)
qed

end
