(* ===== verification/Replica_Backfill.thy ===== *)
theory Replica_Backfill
  imports Replica_Stream
begin

text \<open>
  The backfill on a standby (\<^verbatim>\<open>repl_localize_segments\<close> of \<^verbatim>\<open>crates/fs3-meta/src/lib.rs\<close>): one transaction that
  replaces the upstream segments of objects and parts by local ones, records the mapping, takes the fetched references off
  the pending queue, clears object marks and adds the allocation record. As elsewhere it is taken without contention.
\<close>

section \<open>Replacing segments\<close>

type_synonym subs = "(data_ref \<times> segment list \<times> u64) list"

record localize_item =
  li_key :: bytes
  li_subs :: subs

definition same_ref :: "data_ref \<Rightarrow> segment \<Rightarrow> bool" where
  "same_ref d s \<longleftrightarrow> df_extent_id d = extent_id s \<and> df_offset d = seg_offset s \<and> df_len d = seg_len s"

fun first_sub :: "subs \<Rightarrow> segment \<Rightarrow> nat option" where
  "first_sub [] s = None"
| "first_sub ((d, local, ep) # rest) s = (if same_ref d s then Some 0 else map_option Suc (first_sub rest s))"

fun relocate :: "subs \<Rightarrow> bool list \<Rightarrow> segment list \<Rightarrow> (bool list \<times> segment list) result" where
  "relocate subs matched [] = Inr (matched, [])"
| "relocate subs matched (s # ss) =
     (case first_sub subs s of
        None \<Rightarrow> bind_res (relocate subs matched ss) (\<lambda>(m, out). Inr (m, s # out))
      | Some i \<Rightarrow>
          if matched ! i then Inl Corrupt
          else bind_res (relocate subs (matched[i := True]) ss) (\<lambda>(m, out). Inr (m, fst (snd (subs ! i)) @ out)))"

definition relocate_restored :: "subs \<Rightarrow> bool list \<Rightarrow> restore_state option \<Rightarrow> (bool list \<times> restore_state option) result" where
  "relocate_restored subs matched st =
     (case st of
        None \<Rightarrow> Inr (matched, None)
      | Some r \<Rightarrow> bind_res (relocate subs matched (restored_extents r)) (\<lambda>(m, out). Inr (m, Some (r\<lparr>restored_extents := out\<rparr>))))"

definition put_rmaps :: "subs \<Rightarrow> db \<Rightarrow> db" where
  "put_rmaps subs db =
     fold (\<lambda>(d, local, ep). kv_put (repl_rmap_key ep (df_extent_id d) (df_offset d) (df_len d)) (VSegs local)) subs db"

definition settle_item :: "localize_item \<Rightarrow> bool list \<Rightarrow> stored \<Rightarrow> db \<Rightarrow> (db \<times> nat) result" where
  "settle_item it matched v db =
     (if li_subs it = [] then Inr (db, 0)
      else if list_all (\<lambda>b. b) matched
      then Inr (put_rmaps (li_subs it) (kv_put (li_key it) v db), length (li_subs it))
      else Inl ObjectChanged)"

definition localize_one :: "localize_item \<Rightarrow> db \<Rightarrow> (db \<times> nat) result" where
  "localize_one it db =
     (case kv_get db (li_key it) of
        None \<Rightarrow> Inl ObjectChanged
      | Some raw \<Rightarrow>
          let unmatched = replicate (length (li_subs it)) False
          in if prefix PREFIX_OBJECT (li_key it)
             then bind_res (decode_object raw) (\<lambda>m.
                  bind_res (relocate (li_subs it) unmatched (om_extents m)) (\<lambda>(m1, ext).
                  bind_res (relocate_restored (li_subs it) m1 (om_restore_state m)) (\<lambda>(m2, st).
                    settle_item it m2 (VObject (m\<lparr>om_extents := ext, om_restore_state := st\<rparr>)) db)))
             else if prefix PREFIX_PART (li_key it)
             then bind_res (decode_part raw) (\<lambda>p.
                  bind_res (relocate (li_subs it) unmatched (pm_extents p)) (\<lambda>(m1, ext).
                    settle_item it m1 (VPart (PCurrent (p\<lparr>pm_extents := ext\<rparr>))) db))
             else Inl InvalidArgument)"

fun localize_all :: "localize_item list \<Rightarrow> db \<Rightarrow> (db \<times> nat) result" where
  "localize_all [] db = Inr (db, 0)"
| "localize_all (it # its) db =
     bind_res (localize_one it db) (\<lambda>(db1, n).
     bind_res (localize_all its db1) (\<lambda>(db2, k). Inr (db2, n + k)))"

section \<open>Settling the queue\<close>

fun decode_refs :: "stored \<Rightarrow> data_ref list result" where
  "decode_refs (VRefs rs) = Inr rs"
| "decode_refs _ = Inl Corrupt"

definition swap_remove :: "'a list \<Rightarrow> nat \<Rightarrow> 'a list" where
  "swap_remove xs i = butlast (xs[i := last xs])"

definition take_ref :: "data_ref \<Rightarrow> data_ref list \<Rightarrow> data_ref list" where
  "take_ref r pending = (case position (\<lambda>p. ref_key p = ref_key r) pending of Some i \<Rightarrow> swap_remove pending i | None \<Rightarrow> pending)"

definition settle_entry :: "gtid \<Rightarrow> data_ref list \<Rightarrow> db \<Rightarrow> db result" where
  "settle_entry g refs db =
     (case kv_get db (repl_pending_key g) of
        None \<Rightarrow> Inr db
      | Some v \<Rightarrow> bind_res (decode_refs v) (\<lambda>pending.
          let rest = fold take_ref refs pending
          in Inr (if rest = [] then kv_del (repl_pending_key g) db else kv_put (repl_pending_key g) (VRefs rest) db)))"

definition by_entry :: "(gtid \<times> data_ref) list \<Rightarrow> (gtid \<times> data_ref list) list" where
  "by_entry consumed =
     map (\<lambda>g. (g, map snd (filter (\<lambda>x. fst x = g) consumed))) (remdups_adj (sort_key (\<lambda>g. (g_epoch g, g_seq g)) (map fst consumed)))"

fun settle_entries :: "(gtid \<times> data_ref list) list \<Rightarrow> db \<Rightarrow> db result" where
  "settle_entries [] db = Inr db"
| "settle_entries ((g, refs) # rest) db = bind_res (settle_entry g refs db) (settle_entries rest)"

definition repl_localize_segments ::
    "localize_item list \<Rightarrow> (gtid \<times> data_ref) list \<Rightarrow> alloc_draft option \<Rightarrow> u64 \<Rightarrow> bytes list \<Rightarrow> db \<Rightarrow> (db \<times> nat) result" where
  "repl_localize_segments items consumed alloc alloc_seq clear_markers db =
     bind_res (localize_all items db) (\<lambda>(db1, substituted).
     bind_res (settle_entries (by_entry consumed) db1) (\<lambda>db2.
       let db3 = fold kv_del clear_markers db2
       in bind_res (case alloc of None \<Rightarrow> Inr db3 | Some d \<Rightarrow> merge_alloc alloc_seq d db3) (\<lambda>db4. Inr (db4, substituted))))"

section \<open>What a backfill leaves alone\<close>

text \<open>The metadata up to the places of the data, and the replication state.\<close>

definition untouched :: "db \<Rightarrow> db \<Rightarrow> bool" where
  "untouched db db' \<longleftrightarrow> kv_wf db' \<and> (\<forall>k. is_metadata k \<longrightarrow> map_option strip (kv_get db' k) = map_option strip (kv_get db k)) \<and>
     (\<forall>k \<in> set state_keys. kv_get db' k = kv_get db k)"

lemma untouched_refl: "kv_wf db \<Longrightarrow> untouched db db"
  by (simp add: untouched_def)

lemma untouched_trans: "untouched a b \<Longrightarrow> untouched b c \<Longrightarrow> untouched a c"
  by (simp add: untouched_def)

lemma untouched_wf: "untouched a b \<Longrightarrow> kv_wf b"
  by (simp add: untouched_def)

lemma untouched_put: "kv_wf db \<Longrightarrow> \<not> is_metadata k \<Longrightarrow> k \<notin> set state_keys \<Longrightarrow> untouched db (kv_put k v db)"
  by (auto simp: untouched_def store.wf_put store.get_put)

lemma untouched_del: "kv_wf db \<Longrightarrow> \<not> is_metadata k \<Longrightarrow> k \<notin> set state_keys \<Longrightarrow> untouched db (kv_del k db)"
  by (auto simp: untouched_def store.wf_del store.get_del)

lemma untouched_strip:
  assumes "kv_wf db" "kv_get db k = Some v" "strip w = strip v" "k \<notin> set state_keys"
  shows "untouched db (kv_put k w db)"
  using assms by (auto simp: untouched_def store.wf_put store.get_put)

lemma node_state:
  "repl_rmap_key ep a b c \<notin> set state_keys" "\<not> is_metadata (repl_rmap_key ep a b c)"
  "repl_pending_key g \<notin> set state_keys" "alloc_key n \<notin> set state_keys" "txn_key n \<notin> set state_keys"
  "prefix PREFIX_REPL_PENDING_OBJ k \<Longrightarrow> k \<notin> set state_keys \<and> \<not> is_metadata k"
  "prefix PREFIX_OBJECT k \<Longrightarrow> k \<notin> set state_keys" "prefix PREFIX_PART k \<Longrightarrow> k \<notin> set state_keys"
proof -
  have rm: "prefix PREFIX_REPL_RMAP (repl_rmap_key ep a b c)" by (simp add: repl_rmap_key_def)
  show "\<not> is_metadata (repl_rmap_key ep a b c)" using node_key [OF _ rm] by (simp add: node_families_def)
  show "prefix PREFIX_REPL_PENDING_OBJ k \<Longrightarrow> k \<notin> set state_keys \<and> \<not> is_metadata k"
    using state_key_facts(7) node_key [of PREFIX_REPL_PENDING_OBJ k] by (auto simp: node_families_def)
  have "prefix PREFIX_REPL_PENDING (repl_pending_key g)" "prefix PREFIX_ALLOC (alloc_key n)" "prefix PREFIX_TXN (txn_key n)"
    by (simp_all add: repl_pending_key_def)
  then show "repl_pending_key g \<notin> set state_keys" "alloc_key n \<notin> set state_keys" "txn_key n \<notin> set state_keys"
    using state_key_facts(2,3,6) by blast+
qed (auto simp: state_keys_def repl_rmap_key_def prefix_defs lit_def)

lemma fold_untouched:
  "(\<And>x d. x \<in> set xs \<Longrightarrow> kv_wf d \<Longrightarrow> untouched d (f x d)) \<Longrightarrow> kv_wf db \<Longrightarrow> untouched db (fold f xs db)"
proof (induction xs arbitrary: db)
  case (Cons x xs)
  have "untouched db (f x db)" using Cons.prems by simp
  with Cons.IH [of "f x db"] Cons.prems(1) untouched_wf show ?case by (auto intro: untouched_trans)
qed (simp add: untouched_refl)

lemma put_rmaps_untouched: "kv_wf db \<Longrightarrow> untouched db (put_rmaps subs db)"
  unfolding put_rmaps_def by (rule fold_untouched) (auto simp: node_state untouched_put)

lemma settle_item_untouched:
  assumes "settle_item it m w db = Inr (db', n)" "kv_wf db" "kv_get db (li_key it) = Some v" "strip w = strip v" "li_key it \<notin> set state_keys"
  shows "untouched db db'"
proof (cases "li_subs it = []")
  case True
  with assms show ?thesis by (simp add: settle_item_def untouched_refl)
next
  case False
  then have db': "db' = put_rmaps (li_subs it) (kv_put (li_key it) w db)" using assms(1) by (simp add: settle_item_def split: if_splits)
  have "untouched db (kv_put (li_key it) w db)" using untouched_strip [OF assms(2-5)] .
  with put_rmaps_untouched [OF store.wf_put [OF assms(2)]] show ?thesis unfolding db' by (blast intro: untouched_trans)
qed

lemma relocate_restored_strip:
  "relocate_restored subs m st = Inr (m', st') \<Longrightarrow>
    map_option (\<lambda>r. r\<lparr>restored_extents := []\<rparr>) st' = map_option (\<lambda>r. r\<lparr>restored_extents := []\<rparr>) st"
  by (auto simp: relocate_restored_def bind_res_eq_Inr split: option.splits)

lemma localize_one_untouched:
  assumes "localize_one it db = Inr (db', n)" "kv_wf db"
  shows "untouched db db'"
proof -
  from assms(1) obtain raw where raw: "kv_get db (li_key it) = Some raw" by (auto simp: localize_one_def split: option.splits)
  show ?thesis
  proof (cases "prefix PREFIX_OBJECT (li_key it)")
    case True
    with assms(1) raw obtain m m1 ext m2 st where d: "decode_object raw = Inr m"
      "relocate_restored (li_subs it) m1 (om_restore_state m) = Inr (m2, st)"
      "settle_item it m2 (VObject (m\<lparr>om_extents := ext, om_restore_state := st\<rparr>)) db = Inr (db', n)"
      by (auto simp: localize_one_def bind_res_eq_Inr Let_def)
    have "raw = VObject m" using d(1) by (cases raw) simp_all
    then have "strip (VObject (m\<lparr>om_extents := ext, om_restore_state := st\<rparr>)) = strip raw"
      using relocate_restored_strip [OF d(2)] by (simp add: strip_meta_def)
    then show ?thesis using settle_item_untouched [OF d(3) assms(2) raw] node_state(7) [OF True] by blast
  next
    case False
    with assms(1) raw obtain pm m1 ext where d: "prefix PREFIX_PART (li_key it)" "decode_part raw = Inr pm"
      "settle_item it m1 (VPart (PCurrent (pm\<lparr>pm_extents := ext\<rparr>))) db = Inr (db', n)"
      by (auto simp: localize_one_def bind_res_eq_Inr Let_def split: if_splits)
    obtain pf where "raw = VPart pf" "pm = part_of_format pf" using d(2) by (cases raw) simp_all
    then have "strip (VPart (PCurrent (pm\<lparr>pm_extents := ext\<rparr>))) = strip raw" by simp
    then show ?thesis using settle_item_untouched [OF d(3) assms(2) raw] node_state(8) [OF d(1)] by blast
  qed
qed

lemma localize_all_untouched: "localize_all its db = Inr (db', n) \<Longrightarrow> kv_wf db \<Longrightarrow> untouched db db'"
proof (induction its arbitrary: db n)
  case (Cons it its)
  then obtain db1 n1 k where d: "localize_one it db = Inr (db1, n1)" "localize_all its db1 = Inr (db', k)" by (auto simp: bind_res_eq_Inr)
  have u: "untouched db db1" using localize_one_untouched [OF d(1) Cons.prems(2)] .
  then show ?case using Cons.IH [OF d(2) untouched_wf [OF u]] by (rule untouched_trans)
qed (simp add: untouched_refl)

lemma settle_entry_untouched: "settle_entry g refs db = Inr db' \<Longrightarrow> kv_wf db \<Longrightarrow> untouched db db'"
  by (auto simp: settle_entry_def bind_res_eq_Inr Let_def untouched_refl untouched_put untouched_del node_state split: option.splits if_splits)

lemma settle_entries_untouched: "settle_entries es db = Inr db' \<Longrightarrow> kv_wf db \<Longrightarrow> untouched db db'"
proof (induction es arbitrary: db)
  case (Cons x es)
  obtain g refs where x: "x = (g, refs)" by (cases x)
  from Cons.prems obtain d where d: "settle_entry g refs db = Inr d" "settle_entries es d = Inr db'" by (auto simp: x bind_res_eq_Inr)
  have u: "untouched db d" using settle_entry_untouched [OF d(1) Cons.prems(2)] .
  then show ?case using Cons.IH [OF d(2) untouched_wf [OF u]] by (rule untouched_trans)
qed (simp add: untouched_refl)

lemma merge_alloc_untouched:
  assumes "merge_alloc n d db = Inr db'" "kv_wf db"
  shows "untouched db db'"
proof (cases "draft_is_empty d")
  case True
  with assms show ?thesis by (simp add: merge_alloc_def untouched_refl)
next
  case False
  then obtain r where "db' = put_u64 (txn_key n) n (kv_put (alloc_key n) (VAlloc r) db)" using assms(1) by (auto simp: merge_alloc_def bind_res_eq_Inr)
  moreover have u: "untouched db (kv_put (alloc_key n) (VAlloc r) db)" by (simp add: assms(2) untouched_put node_state)
  ultimately show ?thesis
    using untouched_trans [OF u untouched_put [OF untouched_wf [OF u], of "txn_key n"]] by (simp add: put_u64_def node_state)
qed

lemma localize_untouched:
  assumes "repl_localize_segments items consumed alloc sq markers db = Inr (db', n)" "kv_wf db" "list_all (prefix PREFIX_REPL_PENDING_OBJ) markers"
  shows "untouched db db'"
proof -
  from assms(1) obtain d1 d2 where d: "localize_all items db = Inr (d1, n)" "settle_entries (by_entry consumed) d1 = Inr d2"
    "(case alloc of None \<Rightarrow> Inr (fold kv_del markers d2) | Some d \<Rightarrow> merge_alloc sq d (fold kv_del markers d2)) = Inr db'"
    by (auto simp: repl_localize_segments_def bind_res_eq_Inr Let_def)
  have u1: "untouched db d1" using localize_all_untouched [OF d(1) assms(2)] .
  have u2: "untouched d1 d2" using settle_entries_untouched [OF d(2) untouched_wf [OF u1]] .
  have u3: "untouched d2 (fold kv_del markers d2)"
    using assms(3) by (intro fold_untouched untouched_wf [OF u2]) (auto simp: list_all_iff node_state intro!: untouched_del)
  have "untouched (fold kv_del markers d2) db'"
    using d(3) merge_alloc_untouched untouched_wf [OF u3] by (auto simp: untouched_refl split: option.splits)
  with u1 u2 u3 show ?thesis by (blast intro: untouched_trans)
qed

lemma untouched_standby:
  assumes "untouched s s'" "standby_at s c X"
  shows "standby_at s' c X"
proof -
  have "kv_get s' k = kv_get s k" if "k \<in> set state_keys" for k using assms(1) that by (simp add: untouched_def)
  with assms show ?thesis
    by (simp add: standby_at_def untouched_def repl_cursor_def repl_executed_def repl_epoch_def last_seq_def read_u64_def)
qed

lemma untouched_sim: "untouched s s' \<Longrightarrow> sim q s \<Longrightarrow> sim q s'"
  by (simp add: untouched_def sim_def)

section \<open>What a backfill replaces\<close>

definition substituted :: "subs \<Rightarrow> segment \<Rightarrow> segment list" where
  "substituted subs s = (case first_sub subs s of None \<Rightarrow> [s] | Some i \<Rightarrow> fst (snd (subs ! i)))"

lemma relocate_out: "relocate subs m xs = Inr (m', out) \<Longrightarrow> out = concat (map (substituted subs) xs)"
  by (induction subs m xs arbitrary: m' out rule: relocate.induct)
    (auto simp: substituted_def bind_res_eq_Inr split: option.splits if_splits)

lemma first_sub_Some: "first_sub subs s = Some i \<Longrightarrow> i < length subs \<and> same_ref (fst (subs ! i)) s"
  by (induction subs s arbitrary: i rule: first_sub.induct) (auto split: if_splits)

lemma relocate_matched:
  "relocate subs m xs = Inr (m', out) \<Longrightarrow> length m = length subs \<Longrightarrow>
    length m' = length subs \<and> (\<forall>i < length subs. m' ! i \<longleftrightarrow> m ! i \<or> (\<exists>s \<in> set xs. first_sub subs s = Some i))"
proof (induction subs m xs arbitrary: m' out rule: relocate.induct)
  case (2 subs m s ss)
  show ?case
  proof (cases "first_sub subs s")
    case None
    with 2 show ?thesis by (auto simp: bind_res_eq_Inr)
  next
    case (Some i)
    with 2(3) obtain out1 where r: "\<not> m ! i" "relocate subs (m[i := True]) ss = Inr (m', out1)" by (auto simp: bind_res_eq_Inr split: if_splits)
    have "i < length subs" using first_sub_Some [OF Some] by simp
    with 2(2) [OF Some r(1) r(2)] 2(4) Some show ?thesis by (auto simp: nth_list_update)
  qed
qed simp

end
