(* ===== verification/Replica_Protocol.thy ===== *)
theory Replica_Protocol
  imports Repl_Endpoint Replica_Backfill
begin

text \<open>
  The replication protocol as a whole: commits and truncations on the primary, deliveries of any stretch of the log to a
  standby, its backfill of fetched data, and its acknowledgements, in any order. As long as its slot is not marked stale the
  rounds of the pull worker against the log endpoint are all answered, and the standby can always catch up.
\<close>

section \<open>Steps on the primary\<close>

lemma scan_agree:
  assumes "kv_wf a" "kv_wf b" "\<And>k. prefix q k \<Longrightarrow> kv_get a k = (if k \<in> K then None else kv_get b k)"
  shows "scan_prefix a q = filter (\<lambda>x. fst x \<notin> K) (scan_prefix b q)"
proof (rule scan_eqI [OF assms(1)])
  show "sorted_wrt (<) (map fst (filter (\<lambda>x. fst x \<notin> K) (scan_prefix b q)))"
    using store.sorted_scan [OF assms(2), of q] by (simp add: sorted_wrt_map sorted_wrt_filter)
  show "set (filter (\<lambda>x. fst x \<notin> K) (scan_prefix b q)) = {(k, v). kv_get a k = Some v \<and> prefix q k}"
    using store.set_scan [OF assms(2), of q] assms(3) by (auto split: if_splits)
qed

text \<open>What may change on the primary without the standby noticing: slots, location maps, and records of the log it has read.\<close>

definition log_trimmed :: "bytes set \<Rightarrow> db \<Rightarrow> db \<Rightarrow> bool" where
  "log_trimmed K p p' \<longleftrightarrow> kv_wf p' \<and> (\<forall>k \<in> K. prefix PREFIX_BINLOG k) \<and>
     (\<forall>k. \<not> prefix PREFIX_REPL_SLOT k \<longrightarrow> \<not> prefix PREFIX_REPL_RMAP k \<longrightarrow> kv_get p' k = (if k \<in> K then None else kv_get p k))"

lemma other_family: "prefix PREFIX_BINLOG k \<Longrightarrow> \<not> prefix PREFIX_REPL_SLOT k \<and> \<not> prefix PREFIX_REPL_RMAP k"
  using family_excl [of PREFIX_BINLOG PREFIX_REPL_SLOT k] family_excl [of PREFIX_BINLOG PREFIX_REPL_RMAP k]
  by (simp add: all_prefixes_def) (simp add: prefix_defs lit_def)

lemma state_key_apart: "k \<in> set state_keys \<Longrightarrow> \<not> prefix PREFIX_REPL_SLOT k \<and> \<not> prefix PREFIX_REPL_RMAP k"
  by (auto simp: state_keys_def prefix_defs lit_def)

lemma log_trimmed_primary:
  assumes "primary_at p L e b n" "log_trimmed K p p'"
  shows "primary_at p' (filter (\<lambda>x. bkey (fst x) \<notin> K) L) e b n"
proof -
  have P: "kv_wf p" "last_seq p = Inr n" "repl_epoch p = Inr e" "repl_ebase p = Inr b" "binlog_is p L"
    using assms(1) by (simp_all add: primary_at_def)
  have T: "kv_wf p'" and get: "\<And>k. \<not> prefix PREFIX_REPL_SLOT k \<Longrightarrow> \<not> prefix PREFIX_REPL_RMAP k \<Longrightarrow> kv_get p' k = (if k \<in> K then None else kv_get p k)"
    and K: "\<And>k. k \<in> K \<Longrightarrow> prefix PREFIX_BINLOG k" using assms(2) by (simp_all add: log_trimmed_def)
  have st: "kv_get p' k = kv_get p k" if "k \<in> set state_keys" for k
    using get [of k] state_key_apart [OF that] state_key_facts(4) [OF that] K by auto
  have "scan_prefix p' PREFIX_BINLOG = filter (\<lambda>x. fst x \<notin> K) (scan_prefix p PREFIX_BINLOG)"
    using get other_family by (intro scan_agree [OF T P(1)]) blast
  then have "binlog_is p' (filter (\<lambda>x. bkey (fst x) \<notin> K) L)"
    using P(5) by (auto simp: binlog_is_def filter_map comp_def case_prod_beta list_all_iff)
  moreover have "last_seq p' = Inr n" "repl_epoch p' = Inr e" "repl_ebase p' = Inr b"
    using P(2-4) st by (simp_all add: last_seq_def repl_epoch_def repl_ebase_def read_u64_def)
  ultimately show ?thesis using assms(1) T by (auto simp: primary_at_def list_all_iff)
qed

lemma log_trimmed_sim:
  assumes "sim p s" "log_trimmed K p p'"
  shows "sim p' s"
proof -
  have "kv_get p' k = kv_get p k" if "is_metadata k" for k
  proof -
    have "\<not> prefix PREFIX_REPL_SLOT k" "\<not> prefix PREFIX_REPL_RMAP k" "\<not> prefix PREFIX_BINLOG k"
      using that node_key [of PREFIX_REPL_SLOT k] node_key [of PREFIX_REPL_RMAP k] node_key [of PREFIX_BINLOG k]
      by (auto simp: node_families_def)
    with assms(2) show ?thesis unfolding log_trimmed_def by metis
  qed
  with assms show ?thesis by (simp add: sim_def log_trimmed_def)
qed

lemma following_trimmed:
  assumes "following mx p s" "log_trimmed K p p'" "repl_cursor s = Inr c"
    "\<And>g. gtid_ok g \<Longrightarrow> bkey g \<in> K \<Longrightarrow> \<not> gtid_less c g"
  shows "following mx p' s"
proof -
  obtain L e b n c1 X q where F: "primary_at p L e b n" "standby_at s c1 X" "\<not> gtid_less (position_of e b n) c1"
    "sim q s" "leads mx q (later c1 L) p" using assms(1) unfolding following_def by blast
  have c: "c1 = c" using F(2) assms(3) by (simp add: standby_at_def)
  have "list_all record_ok L" using F(1) by (simp add: primary_at_def binlog_is_def)
  then have "later c1 (filter (\<lambda>x. bkey (fst x) \<notin> K) L) = later c1 L"
    using assms(4) unfolding c by (auto simp: list_all_iff record_ok_def intro!: filter_cong)
  moreover have "leads mx q (later c1 L) p'" using leads_idle [OF F(5)] log_trimmed_sim [OF _ assms(2)] by blast
  ultimately have "leads mx q (later c1 (filter (\<lambda>x. bkey (fst x) \<notin> K) L)) p'" by simp
  then show ?thesis
    using log_trimmed_primary [OF F(1) assms(2)] F(2-4) unfolding following_def by blast
qed

lemma gapless_trimmed:
  assumes "gapless c p" "primary_at p L e b n" "log_trimmed K p p'" "\<And>g. gtid_ok g \<Longrightarrow> bkey g \<in> K \<Longrightarrow> \<not> gtid_less c g"
  shows "gapless c p'"
proof -
  let ?w = "position_of e b n"
  have w: "high_watermark p = Inr ?w" "high_watermark p' = Inr ?w"
    using watermark_position [OF assms(2)] watermark_position [OF log_trimmed_primary [OF assms(2,3)]] .
  have "kv_get p' (bkey \<lparr>g_epoch = g_epoch ?w, g_seq = j\<rparr>) = kv_get p (bkey \<lparr>g_epoch = g_epoch ?w, g_seq = j\<rparr>)"
    if "g_seq c < j" "j \<le> g_seq ?w" for j
  proof -
    let ?g = "\<lparr>g_epoch = g_epoch ?w, g_seq = j\<rparr>"
    have "gtid_ok ?g" using position_ok [of e b n] that(2) by (simp add: gtid_ok_def)
    moreover have "gtid_less c ?g" using assms(1) w(1) that(1) by (auto simp: gapless_def gtid_less_def)
    ultimately have "bkey ?g \<notin> K" using assms(4) by blast
    moreover have "\<not> prefix PREFIX_REPL_SLOT (bkey ?g) \<and> \<not> prefix PREFIX_REPL_RMAP (bkey ?g)" by (rule other_family) simp
    ultimately show ?thesis using assms(3) by (simp add: log_trimmed_def)
  qed
  with assms(1) w show ?thesis by (auto simp: gapless_def)
qed

lemma pending_trimmed:
  assumes "log_trimmed K p p'"
  shows "repl_pending_exists p' g = repl_pending_exists p g"
proof -
  have pk: "prefix PREFIX_REPL_PENDING (repl_pending_key g)" by (simp add: repl_pending_key_def)
  have "\<not> prefix q (repl_pending_key g)" if "q \<in> {PREFIX_BINLOG, PREFIX_REPL_SLOT, PREFIX_REPL_RMAP}" for q
    using that family_excl [OF _ _ _ pk, of q] by (auto simp: all_prefixes_def) (auto simp: prefix_defs lit_def)
  then show ?thesis using assms by (auto simp: log_trimmed_def repl_pending_exists_def)
qed

lemma commit_frame:
  assumes "kv_wf p" "list_all well_addressed ops" "commit True now mx ops p = (p', res)"
  shows "kv_wf p'" "\<not> is_metadata k \<Longrightarrow> \<not> prefix PREFIX_ALLOC k \<Longrightarrow> \<not> prefix PREFIX_TXN k \<Longrightarrow> \<not> prefix PREFIX_BINLOG k \<Longrightarrow> k \<noteq> SYS_SEQ \<Longrightarrow>
    kv_get p' k = kv_get p k"
proof -
  have "kv_wf p' \<and> (\<forall>k. \<not> is_metadata k \<and> \<not> prefix PREFIX_ALLOC k \<and> \<not> prefix PREFIX_TXN k \<and> \<not> prefix PREFIX_BINLOG k \<and> k \<noteq> SYS_SEQ \<longrightarrow>
      kv_get p' k = kv_get p k)"
  proof (cases res)
    case (Inl x)
    then have "p' = p" using assms(3) by (auto simp: commit_def split: sum.splits)
    with assms(1) show ?thesis by simp
  next
    case (Inr n')
    then obtain d where d: "apply_ops p ops (Commit True now) = Inr (d, n')" "p' = trimmed mx ops d"
      using assms(3) by (auto simp: commit_def trimmed_def split: sum.splits)
    then obtain n p1 p2 where p1: "apply_each (Commit True now) (n + 1) ops p = Inr p1"
      and p2: "write_binlog (Commit True now) (n + 1) ops p1 = Inr p2" "d = put_u64 SYS_SEQ (n + 1) p2"
      by (auto simp: apply_ops_def bind_res_eq_Inr Let_def)
    have w1: "kv_wf p1" using each_wf_frame [OF p1 assms(1)] by blast
    have w2: "kv_wf p2" "\<And>k. \<not> prefix PREFIX_BINLOG k \<Longrightarrow> kv_get p2 k = kv_get p1 k" using binlog_wf_frame [OF p2(1) w1] by blast+
    have wd: "kv_wf d" using w2(1) by (simp add: p2(2) put_u64_def store.wf_put)
    have "kv_get p' k = kv_get p k"
      if k: "\<not> is_metadata k" "\<not> prefix PREFIX_ALLOC k" "\<not> prefix PREFIX_TXN k" "\<not> prefix PREFIX_BINLOG k" "k \<noteq> SYS_SEQ" for k
    proof -
      have "\<not> prefix PREFIX_EVENT k" using k(1) event_metadata by blast
      then show ?thesis
        using trimmed_frame(2) [OF wd] w2 k each_node_frame [OF p1 assms(1,2) k(1-3)] by (simp add: d(2) p2(2) put_u64_def store.get_put)
    qed
    with trimmed_frame(1) [OF wd] d(2) show ?thesis by simp
  qed
  then show "kv_wf p'" "\<not> is_metadata k \<Longrightarrow> \<not> prefix PREFIX_ALLOC k \<Longrightarrow> \<not> prefix PREFIX_TXN k \<Longrightarrow> \<not> prefix PREFIX_BINLOG k \<Longrightarrow> k \<noteq> SYS_SEQ \<Longrightarrow>
    kv_get p' k = kv_get p k" by blast+
qed

lemma node_family_frame:
  assumes "kv_wf p" "list_all well_addressed ops" "commit True now mx ops p = (p', res)"
    "f \<in> {PREFIX_REPL_SLOT, PREFIX_REPL_PENDING}" "prefix f k"
  shows "kv_get p' k = kv_get p k"
proof (rule commit_frame(2) [OF assms(1-3)])
  have f: "f \<in> set node_families" "f \<in> set all_prefixes" using assms(4) by (auto simp: node_families_def all_prefixes_def)
  show "\<not> is_metadata k" using node_key [OF f(1) assms(5)] .
  have "q \<in> set all_prefixes \<and> q \<noteq> f" if "q \<in> {PREFIX_ALLOC, PREFIX_TXN, PREFIX_BINLOG}" for q
    using that assms(4) by (auto simp: all_prefixes_def) (auto simp: prefix_defs lit_def)
  then show "\<not> prefix PREFIX_ALLOC k" "\<not> prefix PREFIX_TXN k" "\<not> prefix PREFIX_BINLOG k"
    using family_excl [OF f(2) _ _ assms(5)] by blast+
  show "k \<noteq> SYS_SEQ" using assms(4,5) by (auto simp: prefix_defs lit_def)
qed

lemma commit_slots:
  assumes "kv_wf p" "list_all well_addressed ops" "commit True now mx ops p = (p', res)"
  shows "kv_wf p'" "prefix PREFIX_REPL_SLOT k \<Longrightarrow> kv_get p' k = kv_get p k"
  using commit_frame(1) [OF assms] node_family_frame [OF assms, of PREFIX_REPL_SLOT k] by simp_all

lemma commit_pending:
  assumes "kv_wf p" "list_all well_addressed ops" "commit True now mx ops p = (p', res)"
  shows "repl_pending_exists p' g = repl_pending_exists p g"
  using node_family_frame [OF assms, of PREFIX_REPL_PENDING "repl_pending_key g"]
  by (simp add: repl_pending_exists_def repl_pending_key_def)

lemma gapless_committed:
  assumes "gapless c p" "primary_at p L e b n" "n \<noteq> - 1" "list_all well_addressed ops" "commit True now mx ops p = (p', res)"
  shows "gapless c p'"
proof (cases res)
  case (Inl x)
  then have "p' = p" using assms(5) by (auto simp: commit_def split: sum.splits)
  with assms(1) show ?thesis by simp
next
  case (Inr n')
  with commit_primary [OF assms(2-4)] assms(5) gapless_write [OF assms(1-3)] show ?thesis by blast
qed

text \<open>A transaction whose operations can be applied is committed.\<close>

lemma commit_succeeds:
  assumes "primary_at p L e b n" "n \<noteq> - 1" "list_all well_addressed ops" "apply_each (Commit True now) (n + 1) ops p = Inr p1"
  shows "\<exists>p'. commit True now mx ops p = (p', Inr (n + 1))"
proof -
  have P: "kv_wf p" "read_u64 p SYS_SEQ 0 = Inr n" "read_u64 p SYS_REPL_EPOCH REPL_INITIAL_EPOCH = Inr e" "read_u64 p SYS_REPL_EBASE 0 = Inr b" "b \<le> n"
    using assms(1) by (simp_all add: primary_at_def last_seq_def repl_epoch_def repl_ebase_def)
  have fr: "kv_get p1 k = kv_get p k" if "k \<in> set state_keys" for k
    using each_node_frame [OF assms(4) P(1) assms(3)] state_key_facts [OF that] by blast
  have "read_u64 p1 SYS_REPL_EPOCH REPL_INITIAL_EPOCH = Inr e" "read_u64 p1 SYS_REPL_EBASE 0 = Inr b"
    using P(3,4) fr [of SYS_REPL_EPOCH] fr [of SYS_REPL_EBASE] by (simp_all add: read_u64_def)
  moreover have "\<not> n + 1 < b" using position_next(1) [OF P(5) assms(2)] by simp
  ultimately have "\<exists>d. apply_ops p ops (Commit True now) = Inr (d, n + 1)" using P(2) assms(4) by (auto simp: apply_ops_def)
  then show ?thesis by (auto simp: commit_def)
qed

section \<open>The protocol\<close>

text \<open>
  A delivery is any stretch of the log after a position the standby has had, which covers every answer of the endpoint, also a
  repeated or late one.
\<close>

inductive repl_step :: "nat \<Rightarrow> (repl_record \<Rightarrow> nat) \<Rightarrow> bytes \<Rightarrow> db \<times> db \<Rightarrow> db \<times> db \<Rightarrow> bool" for mx enc_len name where
  committed: "list_all well_addressed ops \<Longrightarrow> last_seq p = Inr n \<Longrightarrow> n \<noteq> - 1 \<Longrightarrow> commit True now mx ops p = (p', res) \<Longrightarrow>
    repl_step mx enc_len name (p, s) (p', s)"
| delivered: "repl_cursor s = Inr c \<Longrightarrow> gtid_ok c0 \<Longrightarrow> \<not> gtid_less c c0 \<Longrightarrow> repl_binlog_scan p c0 limit = Inr recs \<Longrightarrow>
    apply_batch mx (take m recs) s = (s', err) \<Longrightarrow> repl_step mx enc_len name (p, s) (p, s')"
| localized: "list_all (prefix PREFIX_REPL_PENDING_OBJ) markers \<Longrightarrow>
    repl_localize_segments items consumed alloc sq markers s = Inr (s', k) \<Longrightarrow> repl_step mx enc_len name (p, s) (p, s')"
| acknowledged: "repl_cursor s = Inr c \<Longrightarrow> \<not> gtid_less c g \<Longrightarrow> ack_repl_slot name g now p = Inr (p', sl) \<Longrightarrow>
    repl_step mx enc_len name (p, s) (p', s)"
| truncated: "truncate_binlog enc_len True now rc p = Inr p' \<Longrightarrow> repl_step mx enc_len name (p, s) (p', s)"

inductive_cases repl_stepE: "repl_step mx enc_len name (p, s) t"

text \<open>
  A slot that is not stale has confirmed nothing the standby has not applied, the standby can apply the rest, and the log has
  no gap after its cursor. The slot is for all buckets, and the primary has all its data.
\<close>

definition slot_serves :: "nat \<Rightarrow> bytes \<Rightarrow> db \<Rightarrow> db \<Rightarrow> bool" where
  "slot_serves mx name p s \<longleftrightarrow> kv_wf p \<and> slots_wf p \<and> (\<forall>g. \<not> repl_pending_exists p g) \<and>
     (\<exists>sl. slot_at name p = Some sl \<and> slot_filters sl = AllBuckets \<and>
       (slot_stale sl \<or> following mx p s \<and> (\<exists>c. repl_cursor s = Inr c \<and> \<not> gtid_less c (slot_confirmed sl) \<and> gapless c p)))"

lemma following_primary: "following mx p s \<Longrightarrow> repl_cursor s = Inr c \<Longrightarrow>
    \<exists>L e b n. primary_at p L e b n \<and> \<not> gtid_less (position_of e b n) c"
  unfolding following_def standby_at_def by auto

lemma serves_committed:
  assumes "slot_serves mx name p s" "list_all well_addressed ops" "last_seq p = Inr n" "n \<noteq> - 1" "commit True now mx ops p = (p', res)"
  shows "slot_serves mx name p' s"
proof -
  have w: "kv_wf p" "slots_wf p" using assms(1) by (simp_all add: slot_serves_def)
  note f = commit_slots [OF w(1) assms(2,5)]
  have sl: "slot_at name p' = slot_at name p" "slots_wf p'" using slot_at_cong [of p' p] slots_wf_cong [of p' p] f(2) w(2) by auto
  have "gapless c p'" if g: "gapless c p" "following mx p s" for c
  proof -
    obtain L e b m where "primary_at p L e b m" using g(2) unfolding following_def by blast
    moreover from this have "m = n" using assms(3) by (simp add: primary_at_def)
    ultimately show ?thesis using gapless_committed [OF g(1) _ assms(4,2,5)] by blast
  qed
  with assms(1) f(1) sl following_write [OF _ assms(2-5)] commit_pending [OF w(1) assms(2,5)] show ?thesis by (auto simp: slot_serves_def)
qed

lemma serves_delivered:
  assumes "slot_serves mx name p s" "repl_cursor s = Inr c" "gtid_ok c0" "\<not> gtid_less c c0"
    "repl_binlog_scan p c0 limit = Inr recs" "apply_batch mx (take m recs) s = (s', err)"
  shows "slot_serves mx name p s'"
proof -
  have "following mx p s' \<and> (\<exists>c1. repl_cursor s' = Inr c1 \<and> \<not> gtid_less c1 h \<and> gapless c1 p)"
    if f: "following mx p s" "\<not> gtid_less c h" "gapless c p" for h
  proof -
    obtain L e b n c1 X q where F: "primary_at p L e b n" "standby_at s c1 X" "\<not> gtid_less (position_of e b n) c1"
      "sim q s" "leads mx q (later c1 L) p" using f(1) unfolding following_def by blast
    have c: "c1 = c" using F(2) assms(2) by (simp add: standby_at_def)
    from deliver_batch [OF F(1-5) assms(3) _ assms(5), of m] assms(4) c obtain s1 X2 c2 q2 where
      D: "apply_batch mx (take m recs) s = (s1, None)" "standby_at s1 c2 X2" "\<not> gtid_less (position_of e b n) c2" "\<not> gtid_less c2 c"
      "sim q2 s1" "leads mx q2 (later c2 L) p" by blast
    then have s1: "s1 = s'" using assms(6) by simp
    have "following mx p s'" using F(1) D(2,3,5,6) unfolding s1 following_def by blast
    moreover have "gapless c2 p" using gapless_moves [OF f(3) F(1) D(4,3)] .
    moreover have "repl_cursor s' = Inr c2" "\<not> gtid_less c2 h" using D(2,4) f(2) gtid_less_trans(2) [of c2 c h] by (auto simp: s1 standby_at_def)
    ultimately show ?thesis by blast
  qed
  with assms(1,2) show ?thesis by (auto simp: slot_serves_def)
qed

lemma serves_localized:
  assumes "slot_serves mx name p s" "list_all (prefix PREFIX_REPL_PENDING_OBJ) markers"
    "repl_localize_segments items consumed alloc sq markers s = Inr (s', k)"
  shows "slot_serves mx name p s'"
proof -
  have "following mx p s' \<and> repl_cursor s' = repl_cursor s" if f: "following mx p s"
  proof -
    obtain L e b n c X q where F: "primary_at p L e b n" "standby_at s c X" "\<not> gtid_less (position_of e b n) c"
      "sim q s" "leads mx q (later c L) p" using f unfolding following_def by blast
    have u: "untouched s s'" using localize_untouched [OF assms(3) _ assms(2)] F(2) by (simp add: standby_at_def)
    have S: "standby_at s' c X" "sim q s'" using untouched_standby [OF u F(2)] untouched_sim [OF u F(4)] .
    then have "following mx p s'" using F(1,3,5) unfolding following_def by blast
    moreover have "repl_cursor s' = repl_cursor s" using S(1) F(2) by (simp add: standby_at_def)
    ultimately show ?thesis by blast
  qed
  with assms(1) show ?thesis by (auto simp: slot_serves_def)
qed

lemma serves_acknowledged:
  assumes "slot_serves mx name p s" "repl_cursor s = Inr c" "\<not> gtid_less c g" "ack_repl_slot name g now p = Inr (p', sl)"
  shows "slot_serves mx name p' s"
proof -
  have w: "kv_wf p" "slots_wf p" using assms(1) by (simp_all add: slot_serves_def)
  from ack_slot [OF w assms(4)] obtain sl0 where A: "slot_at name p = Some sl0" "\<not> slot_stale sl0"
    "slot_at name p' = Some (sl0\<lparr>slot_confirmed := g, slot_last_ack_at := now\<rparr>)" "kv_wf p'" "slots_wf p'"
    "\<And>k. \<not> prefix PREFIX_REPL_SLOT k \<Longrightarrow> kv_get p' k = kv_get p k" by blast
  have S: "following mx p s" "gapless c p" "slot_filters sl0 = AllBuckets" "\<forall>g. \<not> repl_pending_exists p g"
    using assms(1,2) A(1,2) by (auto simp: slot_serves_def)
  have tr: "log_trimmed {} p p'" using A(4,6) by (simp add: log_trimmed_def)
  have "following mx p' s" using following_trimmed [OF S(1) tr assms(2)] by blast
  moreover obtain L e b n where "primary_at p L e b n" using following_primary [OF S(1) assms(2)] by blast
  then have "gapless c p'" using gapless_trimmed [OF S(2) _ tr] by blast
  ultimately show ?thesis using A(2-5) assms(2,3) S(3,4) pending_trimmed [OF tr] by (auto simp: slot_serves_def)
qed

lemma serves_truncated:
  assumes "slot_serves mx name p s" "truncate_binlog enc_len True now rc p = Inr p'"
  shows "slot_serves mx name p' s"
proof -
  have w: "kv_wf p" "slots_wf p" using assms(1) by (simp_all add: slot_serves_def)
  from truncate_cuts_safely [OF w assms(2)] obtain es m where es: "binlog_entries enc_len (scan_prefix p PREFIX_BINLOG) = Inr es"
    and cs: "cut_safely (take m es) p p'" by blast
  obtain sl where sl: "slot_at name p = Some sl"
    "slot_stale sl \<or> following mx p s \<and> (\<exists>c. repl_cursor s = Inr c \<and> \<not> gtid_less c (slot_confirmed sl) \<and> gapless c p)"
    and S: "slot_filters sl = AllBuckets" "\<forall>g. \<not> repl_pending_exists p g"
    using assms(1) by (auto simp: slot_serves_def)
  have tr: "log_trimmed (ekey ` set (take m es)) p p'" using cs by (auto simp: cut_safely_def log_trimmed_def)
  have pe: "\<forall>g. \<not> repl_pending_exists p' g" using S(2) pending_trimmed [OF tr] by simp
  consider "slot_at name p' = Some sl" "\<not> slot_stale sl" | sl' where "slot_at name p' = Some sl'" "slot_stale sl'" "slot_filters sl' = AllBuckets"
    using cs sl(1) S(1) unfolding cut_safely_def by fastforce
  then show ?thesis
  proof cases
    case 1
    then obtain c where c: "following mx p s" "repl_cursor s = Inr c" "\<not> gtid_less c (slot_confirmed sl)" "gapless c p" using sl(2) by blast
    have gone: "\<not> gtid_less (slot_confirmed sl) (be_gtid e)" if "e \<in> set (take m es)" for e
      using cs 1 sl(1) that unfolding cut_safely_def by blast
    have ok: "gtid_ok (be_gtid e)" if "e \<in> set (take m es)" for e
      using entries_keys [OF es] in_set_takeD [OF that] by blast
    have low: "\<not> gtid_less c g" if "gtid_ok g" "bkey g \<in> ekey ` set (take m es)" for g
    proof -
      from that(2) obtain e where e: "e \<in> set (take m es)" "bkey g = ekey e" by blast
      then have "g = be_gtid e" using binlog_keys.build_inject [OF that(1) ok] by blast
      with gone [OF e(1)] c(3) show ?thesis by (auto simp: gtid_less_def)
    qed
    then have "following mx p' s" using following_trimmed [OF c(1) tr c(2)] by blast
    moreover obtain L e b n where "primary_at p L e b n" using following_primary [OF c(1,2)] by blast
    then have "gapless c p'" using gapless_trimmed [OF c(4) _ tr low] by blast
    ultimately show ?thesis using 1 c(2,3) cs S(1) pe by (auto simp: slot_serves_def cut_safely_def)
  next
    case 2
    with cs pe show ?thesis by (auto simp: slot_serves_def cut_safely_def)
  qed
qed

lemma serves_step: "repl_step mx enc_len name (p, s) (p', s') \<Longrightarrow> slot_serves mx name p s \<Longrightarrow> slot_serves mx name p' s'"
  by (erule repl_stepE) (auto intro: serves_committed serves_delivered serves_localized serves_acknowledged serves_truncated)

lemma serves_reachable:
  "(repl_step mx enc_len name)\<^sup>*\<^sup>* (p, s) (p', s') \<Longrightarrow> slot_serves mx name p s \<Longrightarrow> slot_serves mx name p' s'"
  by (induction "(p', s')" arbitrary: p' s' rule: rtranclp_induct) (auto intro: serves_step)

section \<open>Catching up\<close>

primrec pulls :: "nat \<Rightarrow> bytes \<Rightarrow> nat \<Rightarrow> db \<Rightarrow> nat \<Rightarrow> db \<Rightarrow> db \<times> pull_end" where
  "pulls mx name limit p 0 s = (s, Pulled)"
| "pulls mx name limit p (Suc k) s =
     (case pull mx name limit p s of (s', Pulled) \<Rightarrow> pulls mx name limit p k s' | r \<Rightarrow> r)"

text \<open>A source of the stream: a primary with a live slot for all buckets and with all its data, and a standby in step with it.\<close>

definition in_step :: "nat \<Rightarrow> bytes \<Rightarrow> (gtid \<times> repl_record) list \<Rightarrow> db \<Rightarrow> db \<Rightarrow> gtid \<Rightarrow> bool" where
  "in_step mx name L p s c \<longleftrightarrow> (\<exists>e b n X q sl. primary_at p L e b n \<and> n \<noteq> - 1 \<and> (\<forall>g. \<not> repl_pending_exists p g) \<and>
     slot_for_pull name p = Inr sl \<and> slot_filters sl = AllBuckets \<and> standby_at s c X \<and> \<not> gtid_less (position_of e b n) c \<and>
     gapless c p \<and> sim q s \<and> leads mx q (later c L) p)"

lemma in_step_served:
  assumes "in_step mx name L p s c"
  shows "handle_binlog name c limit p = Inr (take (max 1 (min limit MAX_BINLOG_LIMIT)) (later c L))"
  using assms unfolding in_step_def standby_at_def by (elim exE conjE) (rule served_next)

lemma pull_applies:
  assumes "in_step mx name L p s c"
  shows "\<exists>s1 c1. pull mx name limit p s = (s1, Pulled) \<and> in_step mx name L p s1 c1 \<and>
    length (later c1 L) = length (later c L) - min (max 1 (min limit MAX_BINLOG_LIMIT)) (length (later c L))"
proof -
  let ?lim = "max 1 (min limit MAX_BINLOG_LIMIT)"
  obtain e b n X q sl where S: "primary_at p L e b n" "n \<noteq> - 1" "\<forall>g. \<not> repl_pending_exists p g" "slot_for_pull name p = Inr sl"
    "slot_filters sl = AllBuckets" "standby_at s c X" "\<not> gtid_less (position_of e b n) c" "gapless c p" "sim q s" "leads mx q (later c L) p"
    using assms unfolding in_step_def by blast
  have bl: "kv_wf p" "binlog_is p L" "1 \<le> e" and c: "repl_cursor s = Inr c" "gtid_ok c"
    using S(1,6) by (simp_all add: primary_at_def standby_at_def)
  note sc = binlog_scan [OF bl(1,2) c(2), of ?lim]
  have all: "later c (take ?lim (later c L)) = take ?lim (later c L)"
    by (rule filter_True) (use set_take_subset [of ?lim "later c L"] in auto)
  from deliver_batch [OF S(1,6,7,9,10) c(2) _ sc, of ?lim] obtain s1 X1 c1 q1 where
    D: "apply_batch mx (take ?lim (later c L)) s = (s1, None)" "standby_at s1 c1 X1" "\<not> gtid_less (position_of e b n) c1" "\<not> gtid_less c1 c"
    "sim q1 s1" "leads mx q1 (later c1 L) p" "length (later c1 L) = length (later c L) - length (take ?lim (later c L))"
    unfolding take_take min.idem all by (metis gtid_less_irrefl)
  have "g_epoch c \<noteq> 0"
    using S(8) watermark_position [OF S(1)] bl(3) by (auto simp: gapless_def position_of_def word_le_nat_alt)
  then have "pull mx name limit p s = (s1, Pulled)" using c in_step_served [OF assms, of limit] D(1) by (simp add: pull_def)
  moreover have "in_step mx name L p s1 c1"
    using S(1-5) D(2,3,5,6) gapless_moves [OF S(8,1) D(4,3)] unfolding in_step_def by blast
  moreover have "length (later c1 L) = length (later c L) - min ?lim (length (later c L))" using D(7) by (simp only: length_take min.commute)
  ultimately show ?thesis by blast
qed

lemma pulls_catch_up:
  assumes "in_step mx name L p s c"
  shows "\<exists>s'. pulls mx name limit p k s = (s', Pulled) \<and>
    (length (later c L) \<le> k \<longrightarrow> sim p s' \<and> (\<exists>c'. repl_cursor s' = Inr c' \<and> handle_binlog name c' limit p = Inr []))"
  using assms
proof (induction k arbitrary: s c)
  case 0
  have "repl_cursor s = Inr c" "sim p s" if "later c L = []"
    using 0 leads_nothing [OF _ that] by (auto simp: in_step_def standby_at_def)
  with in_step_served [OF 0, of limit] show ?case by auto
next
  case (Suc k)
  from pull_applies [OF Suc.prems, of limit] obtain s1 c1 where S: "pull mx name limit p s = (s1, Pulled)" "in_step mx name L p s1 c1"
    "length (later c1 L) = length (later c L) - min (max 1 (min limit MAX_BINLOG_LIMIT)) (length (later c L))" by blast
  have le: "length (later c L) \<le> Suc k \<Longrightarrow> length (later c1 L) \<le> k" using S(3) by linarith
  with Suc.IH [OF S(2)] S(1) show ?case by auto
qed

text \<open>
  A primary and a standby at the start of a stream, as a snapshot leaves them when nothing is queued that snapshots leave out (see
  \<open>Replica_Gaps\<close>): the standby holds the metadata of the primary and
  its cursor stands at the watermark of the primary. The primary has a slot for it, for all buckets, that confirms nothing
  beyond, and no data of its own to fetch.
\<close>

definition joined :: "bytes \<Rightarrow> db \<Rightarrow> db \<Rightarrow> bool" where
  "joined name p s \<longleftrightarrow> (\<exists>L e b n X sl. primary_at p L e b n \<and> standby_at s (position_of e b n) X \<and> sim p s \<and> slots_wf p \<and>
     slot_at name p = Some sl \<and> slot_filters sl = AllBuckets \<and> \<not> gtid_less (position_of e b n) (slot_confirmed sl) \<and>
     (\<forall>g. \<not> repl_pending_exists p g))"

lemma joined_serves: "joined name p s \<Longrightarrow> slot_serves mx name p s"
proof -
  assume "joined name p s"
  then obtain L e b n X sl where J: "primary_at p L e b n" "standby_at s (position_of e b n) X" "sim p s" "slots_wf p"
    "slot_at name p = Some sl" "slot_filters sl = AllBuckets" "\<not> gtid_less (position_of e b n) (slot_confirmed sl)" "\<forall>g. \<not> repl_pending_exists p g"
    unfolding joined_def by blast
  have "later (position_of e b n) L = []" using J(1) by (auto simp: primary_at_def list_all_iff filter_empty_conv)
  then have "leads mx p (later (position_of e b n) L) p" by (simp add: leads.here)
  then have "following mx p s" using J(1-3) gtid_less_irrefl unfolding following_def by blast
  moreover have "kv_wf p" "repl_cursor s = Inr (position_of e b n)" using J(1,2) by (simp_all add: primary_at_def standby_at_def)
  moreover have "gapless (position_of e b n) p" using watermark_position [OF J(1)] by (auto simp: gapless_def)
  ultimately show ?thesis using J(4-8) by (auto simp: slot_serves_def)
qed

text \<open>
  C10. A standby that holds the metadata of the primary at the watermark of the primary (as the snapshot of a primary without queued
  events and jobs leaves it, see \<open>Replica_Gaps\<close>), with a slot for all buckets, goes on to follow it through the log
  endpoint. Whatever commits, deliveries (repeated, out of date or cut short),
  backfills on the standby, acknowledgements and log truncations have happened since, within the epoch of the primary and in any
  order, as long as the slot is not marked stale and the sequence counter is not used up: no round of the pull worker is refused or
  sent back to a snapshot, and as many rounds as the log has records, with any batch limit, leave the standby with the metadata
  of the primary and with nothing more to fetch.
\<close>

theorem standby_follows:
  assumes "joined name p0 s0" "valid_slot_name name" "(repl_step mx enc_len name)\<^sup>*\<^sup>* (p0, s0) (p, s)"
    "slot_at name p = Some sl" "\<not> slot_stale sl" "last_seq p \<noteq> Inr (- 1)"
  shows "\<exists>s'. pulls mx name limit p k s = (s', Pulled) \<and>
    (length (scan_prefix p PREFIX_BINLOG) \<le> k \<longrightarrow>
       sim p s' \<and> (\<exists>c. repl_cursor s' = Inr c \<and> handle_binlog name c limit p = Inr []))"
proof -
  have S: "following mx p s" "\<forall>g. \<not> repl_pending_exists p g" "slot_filters sl = AllBuckets" and "\<exists>c. repl_cursor s = Inr c \<and> gapless c p"
    using serves_reachable [OF assms(3) joined_serves [OF assms(1)]] assms(4,5) by (auto simp: slot_serves_def)
  then obtain L e b n c X q where F: "primary_at p L e b n" "standby_at s c X" "\<not> gtid_less (position_of e b n) c"
    "sim q s" "leads mx q (later c L) p" "gapless c p" unfolding following_def standby_at_def by (metis Inr_inject)
  have "n \<noteq> - 1" using F(1) assms(6) by (auto simp: primary_at_def)
  then have "in_step mx name L p s c"
    using F S(2,3) slot_pull_ok [OF assms(2,4,5)] unfolding in_step_def by blast
  moreover have "length (scan_prefix p PREFIX_BINLOG) = length L" using F(1) by (simp add: primary_at_def binlog_is_def)
  moreover have "length L \<le> k \<Longrightarrow> length (later c L) \<le> k" using length_filter_le le_trans by blast
  ultimately show ?thesis using pulls_catch_up [of mx name L p s c limit k] by auto
qed

definition sample_slot :: slot where
  "sample_slot = \<lparr>slot_name = [97], slot_consumer = [98], slot_confirmed = \<lparr>g_epoch = 0, g_seq = 0\<rparr>, slot_filters = AllBuckets,
     slot_created_at = 0, slot_last_ack_at = 0, slot_stale = False\<rparr>"

definition sample_primary :: db where
  "sample_primary = [(PREFIX_REPL_SLOT @ [97], VSlot sample_slot)]"

lemma sample_primary_at: "primary_at sample_primary [] 1 0 0"
  by (simp add: primary_at_def sample_primary_def kv_wf_def last_seq_def repl_epoch_def repl_ebase_def read_u64_def binlog_is_def
      REPL_INITIAL_EPOCH_def scan_prefix_filter prefix_defs lit_def kv_get_def)

definition sample_follower :: db where
  "sample_follower = [(SYS_REPL_CURSOR, VRaw (repl_cursor_value (position_of 1 0 0)))]"

lemma sample_follower_standby: "standby_at sample_follower (position_of 1 0 0) gs_new"
proof -
  have "SYS_REPL_CURSOR \<notin> {SYS_SEQ, SYS_REPL_EPOCH, SYS_REPL_EXECUTED}" by (simp add: prefix_defs lit_def)
  then show ?thesis using cursor_values.parse_build [OF position_ok [of 1 0 0]] position_ok [of 1 0 0]
    by (auto simp: standby_at_def sample_follower_def kv_wf_def repl_cursor_def repl_executed_def repl_epoch_def last_seq_def read_u64_def
        kv_get_def gs_new_def gs_wf_def)
qed

lemma sample_name: "valid_slot_name [97]"
  by (simp add: valid_slot_name_def is_ascii_alnum_def is_ascii_lower_def)

lemma sample_commit: "\<exists>p. commit True 5 10 [SseKekSeedPut (replicate 64 1)] sample_primary = (p, Inr 1)"
proof -
  have "apply_each (Commit True 5) (0 + 1) [SseKekSeedPut (replicate 64 1)] sample_primary = Inr (kv_put SYS_SSE_KEK_SEED (VRaw (replicate 64 1)) sample_primary)"
    by (simp add: op_kek_seed_put_def)
  from commit_succeeds [OF sample_primary_at _ _ this, of 10] show ?thesis by simp
qed

lemma sample_joined: "joined [97] sample_primary sample_follower"
proof -
  have nm: "\<not> is_metadata (PREFIX_REPL_SLOT @ [97])" "\<not> is_metadata SYS_REPL_CURSOR"
    using node_key [of PREFIX_REPL_SLOT "PREFIX_REPL_SLOT @ [97]"] node_key [of SYS_REPL_CURSOR SYS_REPL_CURSOR] by (simp_all add: node_families_def)
  then have "sim sample_primary sample_follower"
    by (auto simp: sim_def sample_primary_def sample_follower_def kv_wf_def kv_get_def)
  moreover have "slots_wf sample_primary" "slot_at [97] sample_primary = Some sample_slot"
    by (auto simp: slots_wf_def slot_at_def sample_primary_def sample_slot_def repl_slot_key_def kv_get_def)
  moreover have "\<not> repl_pending_exists sample_primary g" for g
    by (simp add: repl_pending_exists_def sample_primary_def kv_get_def repl_pending_key_def prefix_defs lit_def)
  moreover have "slot_filters sample_slot = AllBuckets" "\<not> gtid_less (position_of 1 0 0) (slot_confirmed sample_slot)"
    by (simp_all add: sample_slot_def position_of_def gtid_less_def)
  ultimately show ?thesis using sample_primary_at sample_follower_standby unfolding joined_def by blast
qed

theorem standby_follows_witness:
  "let p = fst (commit True 5 10 [SseKekSeedPut (replicate 64 1)] sample_primary) in last_seq p = Inr 1 \<and>
   (\<exists>s'. pulls 10 [97] 1 p (length (scan_prefix p PREFIX_BINLOG)) sample_follower = (s', Pulled) \<and> sim p s' \<and>
     (\<exists>c. repl_cursor s' = Inr c \<and> handle_binlog [97] c 1 p = Inr []))"
proof -
  define p where "p = fst (commit True 5 10 [SseKekSeedPut (replicate 64 1)] sample_primary)"
  then have c: "commit True 5 10 [SseKekSeedPut (replicate 64 1)] sample_primary = (p, Inr 1)" using sample_commit by auto
  then have n: "last_seq p = Inr 1" using commit_primary [OF sample_primary_at _ _ c] by (auto simp: primary_at_def)
  have w: "kv_wf sample_primary" by (simp add: sample_primary_def kv_wf_def)
  have "repl_step 10 (\<lambda>_. 1) [97] (sample_primary, sample_follower) (p, sample_follower)"
    by (rule committed [OF _ _ _ c, of 0]) (simp_all add: sample_primary_def last_seq_def read_u64_def kv_get_def prefix_defs lit_def)
  then have r: "(repl_step 10 (\<lambda>_. 1) [97])\<^sup>*\<^sup>* (sample_primary, sample_follower) (p, sample_follower)" by blast
  have "slot_at [97] p = slot_at [97] sample_primary"
    using commit_slots(2) [OF w _ c] by (intro slot_at_cong) simp
  then have sl: "slot_at [97] p = Some sample_slot" "\<not> slot_stale sample_slot"
    by (auto simp: slot_at_def sample_primary_def repl_slot_key_def kv_get_def sample_slot_def)
  show ?thesis
    using standby_follows [OF sample_joined sample_name r sl, of 1 "length (scan_prefix p PREFIX_BINLOG)"] n
    by (auto simp: Let_def simp flip: p_def)
qed

text \<open>
  C11. Truncating the log never takes a record from a downstream that still counts on it: for every slot that is not stale
  afterwards, each record after its confirmed position is still there.
\<close>

theorem truncate_keeps_unconfirmed:
  assumes "kv_wf db" "slots_wf db" "truncate_binlog enc_len True now rc db = Inr db'"
    "slot_at name db = Some sl" "slot_at name db' = Some sl'" "\<not> slot_stale sl'"
    "gtid_ok g" "gtid_less (slot_confirmed sl) g"
  shows "sl' = sl \<and> kv_get db' (binlog_key (of_nat (g_epoch g)) (of_nat (g_seq g))) = kv_get db (binlog_key (of_nat (g_epoch g)) (of_nat (g_seq g)))"
proof -
  from truncate_cuts_safely [OF assms(1-3)] obtain es m where es: "binlog_entries enc_len (scan_prefix db PREFIX_BINLOG) = Inr es"
    and cs: "cut_safely (take m es) db db'" by blast
  have "slot_at name db' = Some sl \<or> slot_at name db' = Some (sl\<lparr>slot_stale := True\<rparr>)" using cs assms(4) unfolding cut_safely_def by blast
  then have sl': "sl' = sl" using assms(5,6) by auto
  have "\<not> gtid_less (slot_confirmed sl) (be_gtid e)" if "e \<in> set (take m es)" for e
    using cs assms(4-6) sl' that unfolding cut_safely_def by blast
  moreover have "g = be_gtid e" if "e \<in> set (take m es)" "bkey g = ekey e" for e
    using that binlog_keys.build_inject [OF assms(7)] entries_keys [OF es] in_set_takeD [OF that(1)] by blast
  ultimately have "bkey g \<notin> ekey ` set (take m es)" using assms(8) by blast
  moreover have "\<not> prefix PREFIX_REPL_SLOT (bkey g) \<and> \<not> prefix PREFIX_REPL_RMAP (bkey g)" by (rule other_family) simp
  moreover have "\<not> prefix PREFIX_REPL_SLOT k \<Longrightarrow> \<not> prefix PREFIX_REPL_RMAP k \<Longrightarrow> k \<notin> ekey ` set (take m es) \<Longrightarrow> kv_get db' k = kv_get db k" for k
    using cs unfolding cut_safely_def by simp
  ultimately show ?thesis using sl' by blast
qed

definition sample_log :: db where
  "sample_log = [(binlog_key 1 1, VRepl (record_of 1 1 0 [])), (binlog_key 1 2, VRepl (record_of 1 2 0 [])),
     (PREFIX_REPL_SLOT @ [97], VSlot (sample_slot\<lparr>slot_confirmed := \<lparr>g_epoch = 1, g_seq = 1\<rparr>\<rparr>))]"

lemma sample_keys: "binlog_key 1 1 < binlog_key 1 2" "binlog_key 1 n < PREFIX_REPL_SLOT @ x"
  using binlog_keys.build_less [of "\<lparr>g_epoch = 1, g_seq = 1\<rparr>" "\<lparr>g_epoch = 1, g_seq = 2\<rparr>"]
  by (simp_all add: gtid_ok_def gtid_less_def binlog_key_def prefix_defs lit_def)

lemma sample_apart: "PREFIX_REPL_SLOT @ x \<noteq> binlog_key e n" "binlog_key e n \<noteq> PREFIX_REPL_SLOT @ x"
  "\<not> prefix PREFIX_BINLOG PREFIX_REPL_SLOT" "PREFIX_BINLOG \<noteq> PREFIX_REPL_SLOT @ x"
  by (simp_all add: binlog_key_def prefix_defs lit_def)

lemma sample_log_wf: "kv_wf sample_log" "slots_wf sample_log" "slot_at [97] sample_log = Some (sample_slot\<lparr>slot_confirmed := \<lparr>g_epoch = 1, g_seq = 1\<rparr>\<rparr>)"
  by (auto simp: kv_wf_def sample_log_def sample_keys sample_apart slots_wf_def slot_at_def kv_get_def repl_slot_key_def sample_slot_def split: if_splits)

lemma sample_truncated:
  "truncate_binlog (\<lambda>_. 1) True 100 \<lparr>rc_hours = 0, rc_bytes = 0, rc_bytes_hard = 10\<rparr> sample_log = Inr (tl sample_log)"
proof -
  let ?sl = "sample_slot\<lparr>slot_confirmed := \<lparr>g_epoch = 1, g_seq = 1\<rparr>\<rparr>"
  have pr: "parse_binlog_gtid (binlog_key 1 1) = Inr \<lparr>g_epoch = 1, g_seq = 1\<rparr>" "parse_binlog_gtid (binlog_key 1 2) = Inr \<lparr>g_epoch = 1, g_seq = 2\<rparr>"
    using binlog_keys.parse_build [of "\<lparr>g_epoch = 1, g_seq = 1\<rparr>"] binlog_keys.parse_build [of "\<lparr>g_epoch = 1, g_seq = 2\<rparr>"]
    by (simp_all add: gtid_ok_def)
  have "\<not> prefix PREFIX_REPL_SLOT (binlog_key e n)" for e n using other_family [of "binlog_key e n"] by simp
  then have sl: "list_repl_slots sample_log = Inr [?sl]"
    by (simp add: list_repl_slots_def scan_prefix_filter [OF sample_log_wf(1)]) (simp add: sample_log_def)
  have es: "binlog_entries (\<lambda>_. 1) (scan_prefix sample_log PREFIX_BINLOG) =
      Inr [\<lparr>be_gtid = \<lparr>g_epoch = 1, g_seq = 1\<rparr>, be_bytes = 1, be_ts = Some 0, be_refs = []\<rparr>,
           \<lparr>be_gtid = \<lparr>g_epoch = 1, g_seq = 2\<rparr>, be_bytes = 1, be_ts = Some 0, be_refs = []\<rparr>]"
    by (simp add: scan_prefix_filter [OF sample_log_wf(1)]) (simp add: sample_log_def sample_apart record_of_def pr data_refs_of_def)
  show ?thesis
    unfolding truncate_binlog_def sl es
    using sample_keys(1) sample_keys(2) [of 1 "[97]"]
    by (simp add: sample_slot_def soft_cut_def allowed_cut_def gtid_min_def gtid_less_def bytes_of_def entry_rmaps_def)
      (auto simp: sample_log_def kv_del_def)
qed

theorem truncate_keeps_unconfirmed_witness:
  "kv_get (tl sample_log) (binlog_key 1 2) = Some (VRepl (record_of 1 2 0 [])) \<and> kv_get (tl sample_log) (binlog_key 1 1) = None"
proof -
  have "slot_at [97] (tl sample_log) = slot_at [97] sample_log"
    using sample_keys(2) [of 1 "[97]"] by (auto simp: sample_log_def slot_at_def repl_slot_key_def kv_get_def)
  then show ?thesis
    using truncate_keeps_unconfirmed [OF sample_log_wf(1,2) sample_truncated sample_log_wf(3), of _ "\<lparr>g_epoch = 1, g_seq = 2\<rparr>"]
      sample_log_wf(3) sample_keys(1) sample_keys(2) [of 1 "[97]"]
    by (auto simp: sample_slot_def gtid_ok_def gtid_less_def sample_log_def kv_get_def)
qed

end
