(* ===== verification/Replica_Promote.thy ===== *)
theory Replica_Promote
  imports Replica_Protocol
begin

text \<open>
  Promotion of a standby: the new primary opens a fresh epoch whose first record is the barrier, above everything it had
  received, and keeps no transaction whose data never arrived.
\<close>

lemma dels_none: "kv_wf db \<Longrightarrow> kv_wf (fold kv_del ks db) \<and> (\<forall>k. kv_get (fold kv_del ks db) k = (if k \<in> set ks then None else kv_get db k))"
  using dels_frame by blast

lemma discard_object_frame:
  assumes "kv_wf db"
  shows "kv_wf (discard_object x db) \<and> (\<forall>k. \<not> prefix PREFIX_OBJECT k \<longrightarrow> kv_get (discard_object x db) k = kv_get db k)"
proof -
  let ?b = "object_key (fst x) (snd x)"
  have "prefix PREFIX_OBJECT k" if "prefix (?b @ [0]) k" for k
    using that key_prefixes(3) [of "fst x" "snd x"] by (meson append_prefixD prefix_order.trans)
  moreover have "kv_wf (kv_del ?b db)" using assms by (simp add: store.wf_del)
  moreover have "k \<noteq> ?b" if "\<not> prefix PREFIX_OBJECT k" for k using that by auto
  ultimately show ?thesis
    using assms by (auto simp: discard_object_def Let_def clear_prefix_wf clear_prefix_get store.get_del)
qed

lemma discard_objects_frame:
  "kv_wf db \<Longrightarrow> kv_wf (fold discard_object xs db) \<and> (\<forall>k. \<not> prefix PREFIX_OBJECT k \<longrightarrow> kv_get (fold discard_object xs db) k = kv_get db k)"
proof (induction xs arbitrary: db)
  case (Cons x xs)
  with discard_object_frame [OF Cons.prems, of x] Cons.IH [of "discard_object x db"] show ?case by simp
qed simp

lemma discard_frame:
  assumes "kv_wf db"
  shows "kv_wf (discard_pending db xs)"
    "\<not> prefix PREFIX_OBJECT k \<Longrightarrow> \<not> prefix PREFIX_REPL_PENDING k \<Longrightarrow> \<not> prefix PREFIX_REPL_PENDING_OBJ k \<Longrightarrow>
       kv_get (discard_pending db xs) k = kv_get db k"
    "prefix PREFIX_REPL_PENDING k \<Longrightarrow> kv_get (discard_pending db xs) k = None"
proof -
  let ?a = "fold discard_object xs db"
  let ?b = "fold kv_del (map fst (scan_prefix db PREFIX_REPL_PENDING)) ?a"
  have a: "kv_wf ?a" "\<And>k. \<not> prefix PREFIX_OBJECT k \<Longrightarrow> kv_get ?a k = kv_get db k" using discard_objects_frame [OF assms] by blast+
  have b: "kv_wf ?b" "\<And>k. kv_get ?b k = (if k \<in> fst ` set (scan_prefix db PREFIX_REPL_PENDING) then None else kv_get ?a k)"
    using dels_none [OF a(1)] by simp_all
  have c: "kv_wf (discard_pending db xs)" "\<And>k. kv_get (discard_pending db xs) k =
      (if k \<in> fst ` set (scan_prefix db PREFIX_REPL_PENDING_OBJ) then None else kv_get ?b k)"
    using dels_none [OF b(1)] by (simp_all add: discard_pending_def)
  then show "kv_wf (discard_pending db xs)" by simp
  show "\<not> prefix PREFIX_OBJECT k \<Longrightarrow> \<not> prefix PREFIX_REPL_PENDING k \<Longrightarrow> \<not> prefix PREFIX_REPL_PENDING_OBJ k \<Longrightarrow>
       kv_get (discard_pending db xs) k = kv_get db k"
    using c(2) [of k] b(2) [of k] a(2) [of k] store.set_scan [OF assms, of PREFIX_REPL_PENDING] store.set_scan [OF assms, of PREFIX_REPL_PENDING_OBJ] by auto
  show "kv_get (discard_pending db xs) k = None" if p: "prefix PREFIX_REPL_PENDING k"
  proof (cases "kv_get db k")
    case None
    have "\<not> prefix PREFIX_OBJECT k" using p family_excl [of PREFIX_REPL_PENDING PREFIX_OBJECT k]
      by (simp add: all_prefixes_def) (simp add: prefix_defs lit_def)
    with None show ?thesis using c(2) [of k] b(2) [of k] a(2) [of k] by simp
  next
    case (Some v)
    then have "k \<in> fst ` set (scan_prefix db PREFIX_REPL_PENDING)" using store.set_scan [OF assms, of PREFIX_REPL_PENDING] p by force
    then show ?thesis using c(2) [of k] b(2) [of k] by simp
  qed
qed

text \<open>What promotion leaves before the epoch turns: the log and the replication state as they were, and nothing pending.\<close>

definition promotable :: "db \<Rightarrow> db \<Rightarrow> bool" where
  "promotable db d \<longleftrightarrow> kv_wf d \<and> (\<forall>k. prefix PREFIX_BINLOG k \<or> k \<in> set state_keys \<longrightarrow> kv_get d k = kv_get db k) \<and>
     (\<forall>k. prefix PREFIX_REPL_PENDING k \<longrightarrow> kv_get d k = None)"

lemma promote_splits:
  assumes "kv_wf db" "promote now force db = Inr (db', e')" "repl_epoch db = Inr e" "last_seq db = Inr n"
  obtains d where "promotable db d" "turn_primary now e n d = Inr (db', e')"
proof -
  let ?pending = "map fst (scan_prefix db PREFIX_REPL_PENDING)"
  have turn: "lift_store (turn_primary now e n d) = Inr (db', e') \<Longrightarrow> turn_primary now e n d = Inr (db', e')" for d
    by (simp add: lift_store_def split: sum.splits)
  show thesis
  proof (cases "?pending = []")
    case True
    then have none: "kv_get db k = None" if "prefix PREFIX_REPL_PENDING k" for k
      using store.set_scan [OF assms(1), of PREFIX_REPL_PENDING] that by (cases "kv_get db k") auto
    have "lift_store (turn_primary now e n db) = Inr (db', e')"
      using assms(2-4) True by (auto simp: promote_def bind_res_eq_Inr lift_store_def Let_def split: if_splits)
    then show thesis using that [of db] none assms(1) turn by (simp add: promotable_def)
  next
    case False
    then obtain xs where xs: "turn_primary now e n (discard_pending db xs) = Inr (db', e')"
      using assms(2-4) by (auto simp: promote_def bind_res_eq_Inr lift_store_def Let_def split: if_splits sum.splits)
    have ap: "\<not> prefix PREFIX_OBJECT k \<and> \<not> prefix PREFIX_REPL_PENDING k \<and> \<not> prefix PREFIX_REPL_PENDING_OBJ k" if "prefix PREFIX_BINLOG k" for k
      using that family_excl [of PREFIX_BINLOG PREFIX_OBJECT k] family_excl [of PREFIX_BINLOG PREFIX_REPL_PENDING k]
        family_excl [of PREFIX_BINLOG PREFIX_REPL_PENDING_OBJ k]
      by (simp add: all_prefixes_def) (simp add: prefix_defs lit_def)
    have sk: "\<not> prefix PREFIX_OBJECT k" if "k \<in> set state_keys" for k using that by (auto simp: state_keys_def prefix_defs lit_def)
    have "promotable db (discard_pending db xs)"
      using discard_frame [OF assms(1)] ap sk state_key_facts(6,7) by (auto simp: promotable_def)
    then show thesis using that xs by blast
  qed
qed

lemma turned:
  assumes "kv_wf d" "turn_primary now e n d = Inr (db', e')"
  shows "e \<noteq> - 1 \<and> e' = e + 1 \<and> kv_wf db' \<and> read_role db' = Inr Primary \<and> last_seq db' = Inr (n + 1) \<and> repl_epoch db' = Inr e' \<and> repl_ebase db' = Inr n \<and>
    (\<forall>k. prefix PREFIX_BINLOG k \<longrightarrow> kv_get db' k = (if k = binlog_key e' 1 then Some (VRepl (epoch_barrier_record e' e (n + 1) now)) else kv_get d k)) \<and>
    (\<forall>k. prefix PREFIX_REPL_PENDING k \<longrightarrow> kv_get db' k = kv_get d k)"
proof -
  have ne: "e \<noteq> - 1" using assms(2) by (auto simp: turn_primary_def)
  with assms(2) obtain X where db': "db' = set_repl_role Primary (kv_put SYS_REPL_EXECUTED (VGtids X) (kv_del SYS_REPL_UPCHAIN
      (kv_put SYS_REPL_EVER_PRIMARY (VRaw (lit ''1'')) (kv_put (binlog_key (e + 1) 1) (VRepl (epoch_barrier_record (e + 1) e (n + 1) now))
        (put_u64 SYS_SEQ (n + 1) (put_u64 SYS_REPL_EBASE n (put_u64 SYS_REPL_EPOCH (e + 1) d)))))))" and e': "e' = e + 1"
    by (auto simp: turn_primary_def Let_def bind_res_eq_Inr)
  have w: "kv_wf db'" using assms(1) by (simp add: db' set_repl_role_def put_u64_def store.wf_put store.wf_del)
  have get: "kv_get db' k = (if k = SYS_REPL_ROLE then Some (VRaw (role_str Primary)) else if k = SYS_REPL_EXECUTED then Some (VGtids X)
      else if k = SYS_REPL_UPCHAIN then None else if k = SYS_REPL_EVER_PRIMARY then Some (VRaw (lit ''1''))
      else if k = binlog_key (e + 1) 1 then Some (VRepl (epoch_barrier_record (e + 1) e (n + 1) now))
      else if k = SYS_SEQ then Some (VRaw (to_be_bytes (n + 1))) else if k = SYS_REPL_EBASE then Some (VRaw (to_be_bytes n))
      else if k = SYS_REPL_EPOCH then Some (VRaw (to_be_bytes (e + 1))) else kv_get d k)" for k
    using assms(1) by (simp add: db' set_repl_role_def put_u64_def store.wf_put store.wf_del store.get_put store.get_del)
  note apart = binlog_key_state [of SYS_SEQ "e + 1" 1] binlog_key_state [of SYS_REPL_EPOCH "e + 1" 1] binlog_key_state [of SYS_REPL_EBASE "e + 1" 1]
  have nodes: "SYS_SEQ \<notin> {SYS_REPL_ROLE, SYS_REPL_UPCHAIN, SYS_REPL_EVER_PRIMARY}" "SYS_REPL_EPOCH \<notin> {SYS_REPL_ROLE, SYS_REPL_UPCHAIN, SYS_REPL_EVER_PRIMARY}"
    "SYS_REPL_EBASE \<notin> {SYS_REPL_ROLE, SYS_REPL_UPCHAIN, SYS_REPL_EVER_PRIMARY, SYS_REPL_EXECUTED}"
    by (simp_all add: prefix_defs lit_def)
  have st: "last_seq db' = Inr (n + 1)" "repl_epoch db' = Inr e'" "repl_ebase db' = Inr n"
    using apart nodes by (simp_all add: last_seq_def repl_epoch_def repl_ebase_def read_u64_def get e')
  have role: "read_role db' = Inr Primary" by (simp add: read_role_def get parse_role_def lit_def)
  have keys: "\<not> prefix q SYS_REPL_ROLE \<and> \<not> prefix q SYS_REPL_EXECUTED \<and> \<not> prefix q SYS_REPL_UPCHAIN \<and> \<not> prefix q SYS_REPL_EVER_PRIMARY \<and>
      \<not> prefix q SYS_SEQ \<and> \<not> prefix q SYS_REPL_EBASE \<and> \<not> prefix q SYS_REPL_EPOCH" if "q = PREFIX_BINLOG \<or> q = PREFIX_REPL_PENDING" for q
    using that by (auto simp: prefix_defs lit_def)
  have bl: "kv_get db' k = (if k = binlog_key (e + 1) 1 then Some (VRepl (epoch_barrier_record (e + 1) e (n + 1) now)) else kv_get d k)"
    if "prefix PREFIX_BINLOG k" for k
    using that keys [of PREFIX_BINLOG] unfolding get by auto
  have "\<not> prefix PREFIX_REPL_PENDING (binlog_key (e + 1) 1)"
    using family_excl [of PREFIX_BINLOG PREFIX_REPL_PENDING "binlog_key (e + 1) 1"]
    by (simp add: all_prefixes_def) (simp add: prefix_defs lit_def)
  then have "kv_get db' k = kv_get d k" if "prefix PREFIX_REPL_PENDING k" for k
    using that keys [of PREFIX_REPL_PENDING] unfolding get by auto
  with ne e' w role st bl show ?thesis by simp
qed

text \<open>
  C14. A standby that is promoted becomes a primary of a fresh epoch: its position is the first of that epoch, its log is
  what it had received followed by the barrier, nothing is left pending, and its commits continue from there (they get the
  positions after the barrier, so no position is ever issued twice across the change of primary).
\<close>

theorem promote_opens_epoch:
  assumes "kv_wf db" "binlog_is db L" "repl_epoch db = Inr e" "list_all (\<lambda>x. g_epoch (fst x) \<le> unat e) L"
    "last_seq db = Inr n" "n \<noteq> - 1" "promote now force db = Inr (db', e')"
  shows "e' = e + 1 \<and> read_role db' = Inr Primary \<and> scan_prefix db' PREFIX_REPL_PENDING = [] \<and>
    position_of e' n (n + 1) = \<lparr>g_epoch = unat e + 1, g_seq = 1\<rparr> \<and>
    primary_at db' (L @ [(position_of e' n (n + 1), epoch_barrier_record e' e (n + 1) now)]) e' n (n + 1)"
proof -
  obtain d where d: "promotable db d" "turn_primary now e n d = Inr (db', e')" using promote_splits [OF assms(1,7,3,5)] .
  have wd: "kv_wf d" using d(1) by (simp add: promotable_def)
  from turned [OF wd d(2)] have T: "e \<noteq> - 1" "e' = e + 1" "kv_wf db'" "read_role db' = Inr Primary" "last_seq db' = Inr (n + 1)"
    "repl_epoch db' = Inr e'" "repl_ebase db' = Inr n"
    "\<And>k. prefix PREFIX_BINLOG k \<Longrightarrow> kv_get db' k = (if k = binlog_key e' 1 then Some (VRepl (epoch_barrier_record e' e (n + 1) now)) else kv_get d k)"
    "\<And>k. prefix PREFIX_REPL_PENDING k \<Longrightarrow> kv_get db' k = kv_get d k" by auto
  let ?g = "position_of e' n (n + 1)"
  have ue: "unat e' = unat e + 1" using u64_succ_unat [OF T(1)] T(2) by simp
  have g: "?g = \<lparr>g_epoch = unat e + 1, g_seq = 1\<rparr>" using ue by (simp add: position_of_def)
  have ge: "g_epoch ?g = unat e + 1" "g_seq ?g = 1" by (simp_all add: g)
  have gok: "gtid_ok ?g" by (rule position_ok)
  have key: "bkey ?g = binlog_key e' 1" by (simp add: bkey_position)
  have rok: "record_ok (?g, epoch_barrier_record e' e (n + 1) now)"
    using ge gok ue by (simp add: record_ok_def epoch_barrier_record_def repl_record_new_def)
  have lt: "list_all (\<lambda>x. gtid_less (fst x) ?g) L" using assms(4) ge by (auto simp: list_all_iff gtid_less_def)
  have bl: "binlog_is db' (L @ [(?g, epoch_barrier_record e' e (n + 1) now)])"
    by (rule binlog_append [OF assms(1,2) T(3) rok lt]) (use T(8) key d(1) in \<open>simp add: promotable_def\<close>)
  have "list_all (\<lambda>x. \<not> gtid_less ?g (fst x)) (L @ [(?g, epoch_barrier_record e' e (n + 1) now)])"
    using lt gtid_less_asym by (auto simp: list_all_iff)
  moreover have "1 \<le> e'" using ue by (simp add: word_le_nat_alt)
  moreover have "n \<le> n + 1" using position_next(1) [of n n] assms(6) by simp
  ultimately have "primary_at db' (L @ [(?g, epoch_barrier_record e' e (n + 1) now)]) e' n (n + 1)"
    using T bl by (simp add: primary_at_def)
  moreover have "set (scan_prefix db' PREFIX_REPL_PENDING) = {}"
    using store.set_scan [OF T(3), of PREFIX_REPL_PENDING] T(9) d(1) by (auto simp: promotable_def)
  ultimately show ?thesis using T(2,4) g by simp
qed

definition sample_standby :: db where
  "sample_standby = set_repl_role Standby []"

lemma sample_standby_eq: "sample_standby = [(SYS_REPL_ROLE, VRaw (role_str Standby))]"
  by (simp add: sample_standby_def set_repl_role_def)

lemma sample_promoted: "\<exists>db'. promote 5 False sample_standby = Inr (db', 2)"
proof -
  have w: "kv_wf sample_standby" by (simp add: sample_standby_eq kv_wf_def)
  have none: "kv_get sample_standby k = None" if "k \<noteq> SYS_REPL_ROLE" for k using that by (simp add: sample_standby_eq kv_get_def)
  have keys: "SYS_REPL_ROLE \<noteq> SYS_REPL_BUCKET_SCOPED" "SYS_REPL_ROLE \<noteq> SYS_REPL_EPOCH" "SYS_REPL_ROLE \<noteq> SYS_SEQ" "SYS_REPL_ROLE \<noteq> SYS_REPL_EXECUTED"
    "SYS_REPL_EXECUTED \<notin> {SYS_REPL_UPCHAIN, SYS_REPL_EVER_PRIMARY, SYS_REPL_EBASE}" "\<not> prefix PREFIX_REPL_PENDING SYS_REPL_ROLE" "\<not> prefix PREFIX_REPL_PENDING_OBJ SYS_REPL_ROLE"
    by (simp_all add: prefix_defs lit_def)
  have sc: "scan_prefix sample_standby PREFIX_REPL_PENDING = []" using keys w by (simp add: scan_prefix_filter sample_standby_eq)
  have rd: "read_role sample_standby = Inr Standby" "repl_epoch sample_standby = Inr 1" "last_seq sample_standby = Inr 0" "\<not> repl_bucket_scoped sample_standby"
    using none keys(1-4) by (simp_all add: read_role_def repl_epoch_def last_seq_def read_u64_def REPL_INITIAL_EPOCH_def repl_bucket_scoped_def)
      (simp add: sample_standby_eq kv_get_def parse_role_def lit_def)
  have ins: "gs_insert gs_new \<lparr>g_epoch = 2, g_seq = 1\<rparr> \<noteq> None"
    using insert_range_spec [of gs_new 1 1 2] by (auto simp: gs_insert_def gs_new_def gs_wf_def u64_max_def)
  let ?d = "kv_del SYS_REPL_UPCHAIN (kv_put SYS_REPL_EVER_PRIMARY (VRaw (lit ''1'')) (kv_put (binlog_key 2 1) (VRepl (epoch_barrier_record 2 1 1 5))
        (put_u64 SYS_SEQ 1 (put_u64 SYS_REPL_EBASE 0 (put_u64 SYS_REPL_EPOCH 2 sample_standby)))))"
  have ex: "repl_executed ?d = Inr gs_new"
    using w keys none binlog_key_state [of SYS_REPL_EXECUTED 2 1]
    by (simp add: repl_executed_def put_u64_def store.get_put store.get_del store.wf_put)
  have "\<exists>db'. turn_primary 5 1 0 sample_standby = Inr (db', 2)" using ins ex by (auto simp: turn_primary_def Let_def ok_or_def split: option.splits)
  then show ?thesis using sc rd by (auto simp: promote_def lift_store_def Let_def)
qed

theorem promote_opens_epoch_witness:
  "\<exists>db'. promote 5 False sample_standby = Inr (db', 2) \<and> read_role db' = Inr Primary \<and>
     primary_at db' [(position_of 2 0 1, epoch_barrier_record 2 1 1 5)] 2 0 1"
proof -
  obtain db' where db': "promote 5 False sample_standby = Inr (db', 2)" using sample_promoted by blast
  have w: "kv_wf sample_standby" by (simp add: sample_standby_eq kv_wf_def)
  have "\<not> prefix PREFIX_BINLOG SYS_REPL_ROLE" "SYS_REPL_ROLE \<noteq> SYS_REPL_EPOCH" "SYS_REPL_ROLE \<noteq> SYS_SEQ" by (simp_all add: prefix_defs lit_def)
  then have "binlog_is sample_standby []" "repl_epoch sample_standby = Inr 1" "last_seq sample_standby = Inr 0"
    using w by (simp_all add: binlog_is_def scan_prefix_filter sample_standby_eq repl_epoch_def last_seq_def read_u64_def kv_get_def REPL_INITIAL_EPOCH_def)
  from promote_opens_epoch [OF w this(1,2) _ this(3) _ db'] show ?thesis using db' by auto
qed

end
