(* ===== verification/Replica_Gaps.thy ===== *)
theory Replica_Gaps
  imports Replica_Protocol
begin

text \<open>
  Two places where a standby does not get what the primary has. A snapshot leaves out the queue of events, but the log goes
  on to name its entries, and a standby built from the snapshot refuses such a record. And the records of the maintenance
  channel that rewrites an entry (storage class transitions, restores) carry new segments without counting as data to fetch.
\<close>

section \<open>Standbys built from a snapshot\<close>

lemma import_frame:
  "kv_wf db \<Longrightarrow> kv_wf (fold (\<lambda>(k, v). kv_put k v) es db) \<and>
    (\<forall>k. k \<notin> fst ` set es \<longrightarrow> kv_get (fold (\<lambda>(k, v). kv_put k v) es db) k = kv_get db k)"
proof (induction es arbitrary: db)
  case (Cons x es)
  obtain k v where x: "x = (k, v)" by (cases x)
  from Cons.IH [OF store.wf_put [OF Cons.prems, of k v]] Cons.prems show ?case by (simp add: x store.get_put)
qed simp

lemma kv_get_empty: "kv_get [] k = None"
  by (simp add: kv_get_def)

lemma snapshot_keys: "x \<in> set (export_snapshot f p) \<Longrightarrow> \<not> export_key_excluded (fst x)"
  by (auto simp: export_snapshot_def export_key_included_def)

lemma snapshot_misses:
  assumes "import_repl_batch (export_snapshot f p) None sq [] = Inr s"
  shows "kv_wf s" "export_key_excluded k \<Longrightarrow> kv_get s k = None"
proof -
  have s: "s = fold (\<lambda>(k, v). kv_put k v) (export_snapshot f p) []" using assms by (simp add: import_repl_batch_def)
  have w: "kv_wf []" by (simp add: kv_wf_def)
  show "kv_wf s" using import_frame [OF w] s by blast
  show "export_key_excluded k \<Longrightarrow> kv_get s k = None"
    using import_frame [OF w, of "export_snapshot f p"] snapshot_keys [of _ f p] s by (metis image_iff kv_get_empty)
qed

lemma excluded_keys: "export_key_excluded (event_key n)" "k \<in> set state_keys \<Longrightarrow> export_key_excluded k"
  by (auto simp: export_key_excluded_def event_key_def state_keys_def PREFIX_SYS_def prefix_defs lit_def)

lemma finalize_fresh:
  assumes "kv_wf db" "kv_get db SYS_REPL_EPOCH = None" "kv_get db SYS_SEQ = None"
  shows "finalize_repl_import c X raw eb db = Inr (put_u64 SYS_REPL_EBASE eb (put_u64 SYS_SEQ (max 0 raw)
    (put_u64 SYS_REPL_EPOCH (max 0 (of_nat (g_epoch c)))
      (kv_put SYS_REPL_EXECUTED (VGtids X) (kv_put SYS_REPL_CURSOR (VRaw (repl_cursor_value c)) db)))))"
  using assms by (simp add: finalize_repl_import_def read_u64_def put_u64_def store.get_put store.wf_put Let_def)

lemma finalized_standby:
  assumes "import_repl_batch (export_snapshot f p) None sq [] = Inr s0" "finalize_repl_import c X raw eb s0 = Inr s"
    "gtid_ok c" "gs_wf X"
  shows "standby_at s c X" "kv_get s (event_key q) = None" "is_metadata k \<Longrightarrow> kv_get s k = kv_get s0 k"
proof -
  note m = snapshot_misses [OF assms(1)]
  have st: "kv_get s0 k = None" if "k \<in> set state_keys" for k using m(2) excluded_keys(2) [OF that] .
  let ?d = "kv_put SYS_REPL_EXECUTED (VGtids X) (kv_put SYS_REPL_CURSOR (VRaw (repl_cursor_value c)) s0)"
  let ?e = "max 0 (of_nat (g_epoch c)) :: u64"
  have s: "s = put_u64 SYS_REPL_EBASE eb (put_u64 SYS_SEQ (max 0 raw) (put_u64 SYS_REPL_EPOCH ?e ?d))"
    using assms(2) finalize_fresh [OF m(1)] st by simp
  have w: "kv_wf s" using m(1) by (simp add: s put_u64_def store.wf_put)
  have get: "kv_get s k = (if k = SYS_REPL_EBASE then Some (VRaw (to_be_bytes eb)) else if k = SYS_SEQ then Some (VRaw (to_be_bytes (max 0 raw)))
      else if k = SYS_REPL_EPOCH then Some (VRaw (to_be_bytes ?e)) else if k = SYS_REPL_EXECUTED then Some (VGtids X)
      else if k = SYS_REPL_CURSOR then Some (VRaw (repl_cursor_value c)) else kv_get s0 k)" for k
    using m(1) by (simp add: s put_u64_def store.wf_put store.get_put)
  have ne: "SYS_REPL_CURSOR \<noteq> SYS_REPL_EBASE" "SYS_REPL_EXECUTED \<noteq> SYS_REPL_EBASE" by (simp_all add: prefix_defs lit_def)
  show "standby_at s c X"
    using w assms(3,4) ne gs_wf_check [OF assms(4)] cursor_values.parse_build [of c]
    by (simp add: standby_at_def repl_cursor_def repl_executed_def repl_epoch_def last_seq_def read_u64_def get)
  have "event_key q \<notin> set state_keys" using excluded_keys by (auto simp: state_keys_def event_key_def prefix_defs lit_def)
  then show "kv_get s (event_key q) = None" using m(2) [OF excluded_keys(1)] by (auto simp: get state_keys_def)
  have "\<not> is_metadata q" if "q \<in> {SYS_REPL_EBASE, SYS_SEQ, SYS_REPL_EPOCH, SYS_REPL_EXECUTED, SYS_REPL_CURSOR}" for q
    using that node_key [of q q] by (auto simp: node_families_def)
  then show "is_metadata k \<Longrightarrow> kv_get s k = kv_get s0 k" by (auto simp: get)
qed

lemma import_get:
  "kv_wf db \<Longrightarrow> distinct (map fst es) \<Longrightarrow>
    kv_get (fold (\<lambda>(k, v). kv_put k v) es db) k = (case map_of es k of Some v \<Rightarrow> Some v | None \<Rightarrow> kv_get db k)"
proof (induction es arbitrary: db)
  case (Cons x es)
  obtain j v where x: "x = (j, v)" by (cases x)
  have "j \<notin> fst ` set es" using Cons.prems(2) by (simp add: x)
  then have "map_of es j = None" by (simp add: map_of_eq_None_iff)
  with Cons.IH [OF store.wf_put [OF Cons.prems(1), of j v]] Cons.prems show ?case
    by (auto simp: x store.get_put split: option.split)
qed simp

text \<open>
  A snapshot of a primary that has nothing in the families a snapshot leaves out (queued events, restore, ingest and batch
  jobs) puts a standby at the start of the stream.
\<close>

lemma snapshot_joined:
  assumes "primary_at p L e b n" "import_repl_batch (export_snapshot AllBuckets p) None sq [] = Inr s0"
    "finalize_repl_import (position_of e b n) X raw eb s0 = Inr s" "gs_wf X"
    "\<And>k. is_metadata k \<Longrightarrow> kv_get p k \<noteq> None \<Longrightarrow> \<not> export_key_excluded k"
    "slots_wf p" "slot_at name p = Some sl" "slot_filters sl = AllBuckets" "\<not> gtid_less (position_of e b n) (slot_confirmed sl)"
    "\<And>g. \<not> repl_pending_exists p g"
  shows "joined name p s"
proof -
  note S = finalized_standby [OF assms(2,3) position_ok assms(4)]
  have w: "kv_wf p" using assms(1) by (simp add: primary_at_def)
  have inc: "export_key_included AllBuckets k \<longleftrightarrow> \<not> export_key_excluded k" for k
    by (simp add: export_key_included_def split: option.split)
  have "sorted_wrt (<) (map fst p)" using w by (simp add: kv_wf_def)
  then have "distinct (map fst (export_snapshot AllBuckets p))"
    unfolding export_snapshot_def by (intro distinct_map_filter) (simp add: strict_sorted_iff)
  then have s0: "kv_get s0 k = map_of (export_snapshot AllBuckets p) k" for k
    using assms(2) import_get [of "[]" "export_snapshot AllBuckets p" k]
    by (simp add: import_repl_batch_def kv_wf_def kv_get_empty split: option.splits)
  have "map_of (filter (\<lambda>(k, _). P k) xs) k = (if P k then map_of xs k else None)" for P k and xs :: "(bytes \<times> stored) list"
    by (induction xs) auto
  then have "kv_get s k = kv_get p k" if "is_metadata k" for k
    using S(3) [OF that] s0 [of k] assms(5) [OF that] by (cases "kv_get p k") (simp_all add: export_snapshot_def inc kv_get_def)
  then have "sim p s" using w S(1) by (simp add: sim_def standby_at_def)
  with assms(1,6-10) S(1) show ?thesis unfolding joined_def by blast
qed

text \<open>
  C15. A standby built from a full snapshot stalls as soon as the primary gives up on an event that was queued before the
  snapshot: the next record of the log is refused with \<^verbatim>\<open>NotFound\<close> and leaves the standby as it was, so that every further
  attempt does the same. The round of the pull worker over a live slot for all buckets ends that way.
\<close>

theorem snapshot_standby_stalls:
  assumes "primary_at p L e b n" "n \<noteq> - 1"
    "import_repl_batch (export_snapshot AllBuckets p) None sq [] = Inr s0"
    "finalize_repl_import (position_of e b n) X raw eb s0 = Inr s" "gs_wf X"
    "commit True now mx [EventMarkDead q] p = (p', Inr m)"
    "1 \<le> limit"
  shows "(\<exists>recs. repl_binlog_scan p' (position_of e b n) limit = Inr recs \<and> apply_batch mx recs s = (s, Some NotFound)) \<and>
    (\<forall>name sl. slot_for_pull name p' = Inr sl \<and> slot_filters sl = AllBuckets \<longrightarrow>
      pull mx name limit p' s = (s, Stopped (ErrInternal NotFound)))"
proof -
  let ?c = "position_of e b n"
  let ?g = "position_of e b (n + 1)"
  let ?r = "record_of e (n + 1) now [EventMarkDead q]"
  note S = finalized_standby [OF assms(3,4) position_ok assms(5)]
  have P: "primary_at p' (L @ [(?g, ?r)]) e b (n + 1)"
    using commit_primary [OF assms(1,2) _ assms(6)] by auto
  have bl: "kv_wf p'" "binlog_is p' (L @ [(?g, ?r)])" and bn: "b \<le> n" and up: "list_all (\<lambda>x. \<not> gtid_less ?c (fst x)) L"
    using P assms(1) by (simp_all add: primary_at_def)
  have rok: "record_ok (?g, ?r)" using bl(2) by (simp add: binlog_is_def)
  have cg: "gtid_less ?c ?g" using position_next(2) [OF bn assms(2)] .
  have "later ?c L = []" using up by (auto simp: list_all_iff filter_empty_conv)
  then have "later ?c (L @ [(?g, ?r)]) = [(?g, ?r)]" using cg by simp
  then have sc: "repl_binlog_scan p' ?c limit = Inr [(?g, ?r)]"
    using binlog_scan [OF bl position_ok, of e b n limit] assms(7) by (cases limit) simp_all
  obtain le m' where lm: "repl_epoch s = Inr le" "last_seq s = Inr m'" and w: "kv_wf s" using S(1) by (auto simp: standby_at_def)
  obtain X' where X': "gs_insert X ?g = Some X'" using insert_position [OF assms(5) rok] by blast
  have "event_key q \<noteq> SYS_REPL_EPOCH" by (simp add: event_key_def prefix_defs lit_def)
  then have "kv_get (raised ?r le s) (event_key q) = None" using raised_facts(2) [OF w] S(2) [of q] by simp
  then have "apply_repl_record mx ?g ?r s = Inl NotFound"
    unfolding apply_record_shape [OF S(1) rok cg lm X'] by (simp add: record_of_def op_event_mark_dead_def)
  then have ap: "apply_batch mx [(?g, ?r)] s = (s, Some NotFound)" by simp
  have "pull mx name limit p' s = (s, Stopped (ErrInternal NotFound))" if sl: "slot_for_pull name p' = Inr sl" "slot_filters sl = AllBuckets" for name sl
  proof -
    have nw: "next_wanted ?c (fst (hd (L @ [(?g, ?r)]))) = ?g" using next_wanted_position [OF bn assms(2)] assms(1) by (simp add: primary_at_def)
    have "\<not> gtid_less ?g (fst (hd (L @ [(?g, ?r)])))" using up cg by (cases L) (auto dest: gtid_less_trans)
    then have "handle_binlog name ?c limit p' = Inr (ship p' (take (max 1 (min limit MAX_BINLOG_LIMIT)) [(?g, ?r)]))"
      using handle_binlog_next [OF P sl(1) position_ok, of e b n limit] sl(2) \<open>later ?c (L @ [(?g, ?r)]) = [(?g, ?r)]\<close> nw
      by (simp add: scoped_for_def position_of_def del: filter_append)
    also have "take (max 1 (min limit MAX_BINLOG_LIMIT)) [(?g, ?r)] = [(?g, ?r)]" by (cases "min limit MAX_BINLOG_LIMIT") auto
    finally have "handle_binlog name ?c limit p' = Inr [(?g, ?r)]" by (simp add: data_refs_of_def record_of_def)
    moreover have "g_epoch ?c \<noteq> 0" using assms(1) by (auto simp: primary_at_def position_of_def word_le_nat_alt)
    ultimately show ?thesis using S(1) ap by (simp add: pull_def standby_at_def)
  qed
  with sc ap show ?thesis by blast
qed

definition sample_event :: event_record where
  "sample_event = \<lparr>ev_seq = 1, ev_ts = 0, ev_bucket = [98], ev_key = [107], ev_event = [101], ev_etag = None, ev_size = None,
     ev_version_id = None, ev_delete_marker = False, ev_dead = False, ev_sse = None\<rparr>"

definition sample_queue :: db where
  "sample_queue = [(event_key 1, VEvent sample_event), (PREFIX_REPL_SLOT @ [97], VSlot sample_slot)]"

lemma event_key_apart: "event_key n \<noteq> SYS_SEQ" "event_key n \<noteq> SYS_REPL_EPOCH" "event_key n \<noteq> SYS_REPL_EBASE"
  "\<not> prefix PREFIX_BINLOG (event_key n)" "event_key n < PREFIX_REPL_SLOT @ x" "event_key n \<noteq> PREFIX_REPL_SLOT @ x"
  by (simp_all add: event_key_def prefix_defs lit_def)

lemma slot_key_apart: "PREFIX_REPL_SLOT @ x \<noteq> SYS_SEQ" "PREFIX_REPL_SLOT @ x \<noteq> SYS_REPL_EPOCH" "PREFIX_REPL_SLOT @ x \<noteq> SYS_REPL_EBASE"
  "\<not> prefix PREFIX_BINLOG (PREFIX_REPL_SLOT @ x)" "export_key_excluded (PREFIX_REPL_SLOT @ x)"
  by (simp_all add: export_key_excluded_def PREFIX_SYS_def prefix_defs lit_def)

lemma sample_queue_primary: "primary_at sample_queue [] 1 0 0"
  using event_key_apart [of 1] slot_key_apart [of "[97]"]
  by (simp add: primary_at_def sample_queue_def kv_wf_def last_seq_def repl_epoch_def repl_ebase_def read_u64_def binlog_is_def
      REPL_INITIAL_EPOCH_def scan_prefix_filter kv_get_def)

lemma sample_mark_dead: "\<exists>p'. commit True 5 10 [EventMarkDead 1] sample_queue = (p', Inr 1)"
  using event_key_apart(1-3,6) [of 1] event_key_apart(1-3,6) [of 1, THEN not_sym] slot_key_apart(1-3) slot_key_apart(1-3) [THEN not_sym]
  by (simp add: commit_def apply_ops_def sample_queue_def op_event_mark_dead_def read_u64_def kv_get_def ok_or_def Let_def)

theorem snapshot_standby_stalls_witness:
  "\<exists>p' s0 s. commit True 5 10 [EventMarkDead 1] sample_queue = (p', Inr 1) \<and>
     import_repl_batch (export_snapshot AllBuckets sample_queue) None 1 [] = Inr s0 \<and>
     finalize_repl_import (position_of 1 0 0) gs_new 0 0 s0 = Inr s \<and> 
     (\<exists>recs. repl_binlog_scan p' (position_of 1 0 0) 1 = Inr recs \<and> apply_batch 10 recs s = (s, Some NotFound)) \<and>
     pull 10 [97] 1 p' s = (s, Stopped (ErrInternal NotFound))"
proof -
  obtain p' where p': "commit True 5 10 [EventMarkDead 1] sample_queue = (p', Inr 1)" using sample_mark_dead by blast
  have s0: "import_repl_batch (export_snapshot AllBuckets sample_queue) None 1 [] = Inr []"
    using excluded_keys(1) [of 1] slot_key_apart(5) [of "[97]"] by (simp add: import_repl_batch_def export_snapshot_def sample_queue_def export_key_included_def)
  obtain s where s: "finalize_repl_import (position_of 1 0 0) gs_new 0 0 [] = Inr s"
    using finalize_fresh [of "[]"] by (auto simp: kv_wf_def kv_get_empty)
  have g: "gs_wf gs_new" by (simp add: gs_new_def gs_wf_def)
  have w: "kv_wf sample_queue" using sample_queue_primary by (simp add: primary_at_def)
  have "slot_at [97] p' = slot_at [97] sample_queue" using commit_slots(2) [OF w _ p'] by (intro slot_at_cong) simp
  then have "slot_at [97] p' = Some sample_slot" using event_key_apart(6) [of 1, THEN not_sym]
    by (simp add: slot_at_def sample_queue_def repl_slot_key_def kv_get_def)
  then have sl: "slot_for_pull [97] p' = Inr sample_slot" "slot_filters sample_slot = AllBuckets"
    by (simp_all add: slot_pull_ok [OF sample_name] sample_slot_def)
  from snapshot_standby_stalls [OF sample_queue_primary _ s0 s g p', of 1] sl p' s0 s show ?thesis by auto
qed

section \<open>Entries rewritten in place\<close>

text \<open>
  C16. A record that moves an object to new segments through the maintenance channel leaves the standby with the segments
  of the primary's device and with nothing that marks the data as missing: nothing is queued for the backfill, and the
  object does not count as pending, so that reads are served from whatever those segments hold on the standby.
\<close>

theorem rewrite_skips_backfill:
  assumes "standby_at s c X" "record_ok (g, r)" "gtid_less c g" "rr_ops r = [ObjectMetaRewrite (entry_key b k v) m, Alloc d]"
    "kv_get s (entry_key b k v) = Some old" "\<not> repl_object_data_pending s b k" "\<not> repl_pending_exists s g"
  shows "\<exists>s'. apply_repl_record mx g r s = Inr (s', Applied) \<and> kv_get s' (entry_key b k v) = Some (VObject m) \<and>
    \<not> repl_object_data_pending s' b k \<and> \<not> repl_pending_exists s' g"
proof -
  obtain le n where lm: "repl_epoch s = Inr le" "last_seq s = Inr n" and w: "kv_wf s" and X: "gs_wf X"
    using assms(1) by (auto simp: standby_at_def)
  obtain X' where X': "gs_insert X g = Some X'" using insert_position [OF X assms(2)] by blast
  note R = raised_facts [OF w, where r = r and le = le]
  let ?k = "entry_key b k v"
  have fam: "\<not> prefix q SYS_REPL_EPOCH \<and> \<not> prefix q SYS_SEQ \<and> \<not> prefix q SYS_REPL_CURSOR \<and> \<not> prefix q SYS_REPL_EXECUTED"
    if "q \<in> {PREFIX_OBJECT, PREFIX_REPL_PENDING, PREFIX_REPL_PENDING_OBJ}" for q using that by (auto simp: prefix_defs lit_def)
  have apart: "\<not> prefix PREFIX_BINLOG q \<and> (\<not> prefix PREFIX_OBJECT q \<longrightarrow> q \<noteq> ?k)"
    if "prefix f q" "f \<in> {PREFIX_OBJECT, PREFIX_REPL_PENDING, PREFIX_REPL_PENDING_OBJ}" for f q
    using that family_excl [of f PREFIX_BINLOG q] by (auto simp: all_prefixes_def) (auto simp: prefix_defs lit_def)
  have ne: "q \<noteq> SYS_REPL_EPOCH \<and> q \<noteq> SYS_SEQ \<and> q \<noteq> SYS_REPL_CURSOR \<and> q \<noteq> SYS_REPL_EXECUTED \<and> q \<noteq> bkey g"
    if "prefix f q" "f \<in> {PREFIX_OBJECT, PREFIX_REPL_PENDING, PREFIX_REPL_PENDING_OBJ}" for f q
    using fam [OF that(2)] apart [OF that] that(1) key_prefixes(14) by blast
  have kk: "prefix PREFIX_OBJECT ?k" by simp
  define s' where "s' = advanced g r n X' (kv_put ?k (VObject m) (raised r le s))"
  have "kv_get (raised r le s) ?k = Some old" using R(2) [of ?k] assms(5) ne [OF kk] by simp
  then have ap: "apply_repl_record mx g r s = Inr (s', Applied)"
    unfolding apply_record_shape [OF assms(1-3) lm X'] assms(4)
    by (simp add: op_meta_rewrite_def op_alloc_def trimmed_def s'_def)
  have "data_refs_of (rr_ops r) = []" by (simp add: assms(4) data_refs_of_def)
  then have get: "kv_get s' q = (if q = SYS_REPL_CURSOR then Some (VRaw (repl_cursor_value g)) else if q = SYS_REPL_EXECUTED then Some (VGtids X')
      else if q = SYS_SEQ then Some (VRaw (to_be_bytes (max n (raw_of g r)))) else if q = bkey g then Some (VRepl r)
      else if q = ?k then Some (VObject m) else kv_get (raised r le s) q)" for q
    using R(1) by (simp add: s'_def advanced_def mark_pending_def put_u64_def store.wf_put store.get_put)
  have "kv_get s' ?k = Some (VObject m)"
    using get [of ?k] ne [OF kk] by simp
  moreover have kept: "kv_get s' q = kv_get s q" if "prefix f q" "f \<in> {PREFIX_REPL_PENDING, PREFIX_REPL_PENDING_OBJ}" for f q
  proof -
    have "\<not> prefix PREFIX_OBJECT q" using that family_excl [of f PREFIX_OBJECT q] by (auto simp: all_prefixes_def) (auto simp: prefix_defs lit_def)
    then have "q \<noteq> ?k" using kk by blast
    with that ne [of f q] show ?thesis using get [of q] R(2) [of q] by simp
  qed
  moreover have "kv_get s' (repl_pending_obj_key b k) = kv_get s (repl_pending_obj_key b k)" "kv_get s' (repl_pending_key g) = kv_get s (repl_pending_key g)"
    using kept [of PREFIX_REPL_PENDING_OBJ "repl_pending_obj_key b k"] kept [of PREFIX_REPL_PENDING "repl_pending_key g"]
    by (simp_all add: repl_pending_obj_key_def repl_pending_key_def)
  ultimately show ?thesis
    using ap assms(6,7) by (simp add: repl_object_data_pending_def repl_pending_exists_def)
qed

definition sample_replica :: db where
  "sample_replica = [(entry_key [98] [107] None, VObject demo_object)]"

definition moved_object :: object_meta where
  "moved_object = demo_object\<lparr>om_inline := None, om_extents := [\<lparr>extent_id = 7, seg_offset = 0, seg_len = 4096, crcs = [0]\<rparr>]\<rparr>"

lemma sample_replica_standby:
  "standby_at sample_replica \<lparr>g_epoch = 0, g_seq = 0\<rparr> gs_new" "\<not> repl_object_data_pending sample_replica b k" "\<not> repl_pending_exists sample_replica g"
  by (simp_all add: standby_at_def sample_replica_def kv_wf_def repl_cursor_def repl_executed_def repl_epoch_def last_seq_def read_u64_def kv_get_def
      gtid_ok_def gs_new_def gs_wf_def entry_key_def object_key_def repl_object_data_pending_def repl_pending_exists_def
      repl_pending_obj_key_def repl_pending_key_def prefix_defs lit_def)

theorem rewrite_skips_backfill_witness:
  "let r = \<lparr>rr_epoch = 1, rr_ops = [ObjectMetaRewrite (entry_key [98] [107] None) moved_object, Alloc \<lparr>d_alloc = [], d_ref_inc = [], d_ref_dec = []\<rparr>],
             rr_ts = None, rr_epoch_barrier = None, rr_raw_seq = Some 1\<rparr> in
   \<exists>s'. apply_repl_record 10 \<lparr>g_epoch = 1, g_seq = 1\<rparr> r sample_replica = Inr (s', Applied) \<and>
     kv_get s' (entry_key [98] [107] None) = Some (VObject moved_object) \<and> \<not> repl_object_data_pending s' [98] [107]"
proof -
  let ?d = "\<lparr>d_alloc = [], d_ref_inc = [], d_ref_dec = []\<rparr>"
  let ?r = "\<lparr>rr_epoch = 1, rr_ops = [ObjectMetaRewrite (entry_key [98] [107] None) moved_object, Alloc ?d], rr_ts = None, rr_epoch_barrier = None, rr_raw_seq = Some 1\<rparr>"
  have "record_ok (\<lparr>g_epoch = 1, g_seq = 1\<rparr>, ?r)" by (simp add: record_ok_def gtid_ok_def)
  moreover have "kv_get sample_replica (entry_key [98] [107] None) = Some (VObject demo_object)" by (simp add: sample_replica_def kv_get_def)
  ultimately show ?thesis
    using rewrite_skips_backfill [OF sample_replica_standby(1), of "\<lparr>g_epoch = 1, g_seq = 1\<rparr>" ?r "[98]" "[107]" None moved_object ?d "VObject demo_object" 10]
      sample_replica_standby(2,3) by (auto simp: gtid_less_def Let_def)
qed

end
