(* ===== verification/Repl_Server.thy ===== *)
theory Repl_Server
  imports Replica_Protocol
begin

text \<open>
  The replication service of a node (\<^verbatim>\<open>crates/fs3d/src/repl.rs\<close>): the handshake of a downstream and the management of
  slots, and what they and the log endpoint of \<open>Repl_Endpoint\<close> promise to a downstream. Delegated credentials for slots on
  some buckets are left out. The serialiser of the stored chain of upstreams is a parameter.
\<close>

definition MAX_CHAIN_HOPS :: nat where
  "MAX_CHAIN_HOPS = 8"

section \<open>What a node reports of itself\<close>

definition repl_upchain :: "(bytes \<Rightarrow> bytes list option) \<Rightarrow> db \<Rightarrow> bytes list result" where
  "repl_upchain from_bytes db =
     (case kv_get db SYS_REPL_UPCHAIN of
        None \<Rightarrow> Inr []
      | Some (VRaw b) \<Rightarrow> (case from_bytes b of Some c \<Rightarrow> Inr c | None \<Rightarrow> Inl Corrupt)
      | Some _ \<Rightarrow> Inl Corrupt)"

text \<open>The highest position per epoch, page by page; every page is after the last, so that the fuel is never used up.\<close>

definition note_max :: "gtid \<times> repl_record \<Rightarrow> (nat \<times> nat) list \<Rightarrow> (nat \<times> nat) list" where
  "note_max x m = bt_entry (g_epoch (fst x)) 0 (max (g_seq (fst x))) m"

primrec max_pages :: "nat \<Rightarrow> nat \<Rightarrow> db \<Rightarrow> gtid \<Rightarrow> (nat \<times> nat) list \<Rightarrow> (nat \<times> nat) list result" where
  "max_pages page 0 db after m = Inr m"
| "max_pages page (Suc fuel) db after m =
     bind_res (repl_binlog_scan db after page) (\<lambda>l.
       if l = [] then Inr m
       else if length l < page then Inr (fold note_max l m)
       else max_pages page fuel db (fst (last l)) (fold note_max l m))"

definition own_watermark :: "db \<Rightarrow> (nat \<times> nat) list \<Rightarrow> (nat \<times> nat) list result" where
  "own_watermark db m =
     bind_res (read_role db) (\<lambda>role.
       if role = Standby then Inr m
       else bind_res (last_seq db) (\<lambda>n. bind_res (repl_ebase db) (\<lambda>b.
         let wm = unat n - unat b
         in if wm < 1 then Inr m else bind_res (repl_epoch db) (\<lambda>e. Inr (bt_entry (unat e) 0 (max wm) m)))))"

fun add_ranges :: "(nat \<times> nat \<times> nat) list \<Rightarrow> gtid_set \<Rightarrow> gtid_set result" where
  "add_ranges [] s = Inr s"
| "add_ranges ((ep, a, b) # rest) s = bind_res (ok_or Corrupt (insert_range s ep a b)) (add_ranges rest)"

definition repl_local_gtid_set :: "db \<Rightarrow> gtid_set result" where
  "repl_local_gtid_set db =
     bind_res (repl_executed db) (\<lambda>s.
     bind_res (max_pages 1024 (Suc (length db)) db \<lparr>g_epoch = 0, g_seq = 0\<rparr> []) (\<lambda>m.
     bind_res (own_watermark db m) (\<lambda>m'. add_ranges (map (\<lambda>(ep, hi). (ep, 1, hi)) m') s)))"

section \<open>Handshake and slots\<close>

record hello_request =
  hr_node_id :: bytes
  hr_slot_name :: bytes
  hr_executed :: "(nat \<times> nat \<times> nat) list"
  hr_filters :: bucket_filter
  hr_chain :: "bytes list"
  hr_ever_primary :: bool

definition slot_limit_reached :: "nat \<Rightarrow> bytes \<Rightarrow> db \<Rightarrow> bool result" where
  "slot_limit_reached max_slots name db =
     bind_res (list_repl_slots db) (\<lambda>slots. Inr (max_slots \<le> length slots \<and> \<not> list_ex (\<lambda>s. slot_name s = name) slots))"

definition topology_check :: "(bytes \<Rightarrow> bytes list option) \<Rightarrow> bytes option \<Rightarrow> hello_request \<Rightarrow> db \<Rightarrow> repl_fault + unit" where
  "topology_check from_bytes node_id h db =
     (if MAX_CHAIN_HOPS < length (hr_chain h) \<or> \<not> distinct (hr_chain h) then Inl ErrTopologyLoop
      else if (case node_id of Some i \<Rightarrow> i \<in> set (hr_chain h) | None \<Rightarrow> False) then Inl ErrTopologyLoop
      else bind_res (internal (repl_upchain from_bytes db)) (\<lambda>uc.
        if uc \<noteq> [] \<and> hd uc = hr_node_id h then Inl ErrTopologyLoop else Inr ()))"

definition range_bad :: "nat \<times> nat \<times> nat \<Rightarrow> bool" where
  "range_bad r \<longleftrightarrow> fst (snd r) = 0 \<or> snd (snd r) < fst (snd r)"

definition gtid_max :: "gtid list \<Rightarrow> gtid option" where
  "gtid_max gs = (case gs of [] \<Rightarrow> None
     | g # rest \<Rightarrow> Some (fold (\<lambda>h m. if gtid_less m h then h else m) rest g))"

definition set_cursor :: "gtid_set \<Rightarrow> gtid option" where
  "set_cursor s = gtid_max (map (\<lambda>(ep, a, b). \<lparr>g_epoch = ep, g_seq = b\<rparr>) (gs_ranges s))"

definition resume_check :: "gtid option \<Rightarrow> db \<Rightarrow> repl_fault + unit" where
  "resume_check cursor db =
     (case cursor of
        None \<Rightarrow> Inr ()
      | Some c \<Rightarrow> bind_res (internal (binlog_floor db)) (\<lambda>fl.
          case fl of
            None \<Rightarrow> Inr ()
          | Some f \<Rightarrow> if gtid_less \<lparr>g_epoch = g_epoch c, g_seq = sat_add1 (g_seq c)\<rparr> f then Inl ErrBinlogGone else Inr ()))"

definition enter_slot :: "nat \<Rightarrow> int \<Rightarrow> hello_request \<Rightarrow> gtid option \<Rightarrow> slot option \<Rightarrow> db \<Rightarrow> repl_fault + (db \<times> slot)" where
  "enter_slot max_slots now h cursor so db =
     (case so of
        Some sl \<Rightarrow>
          if slot_consumer sl \<noteq> hr_node_id h then Inl ErrSlotOwnerMismatch
          else if slot_filters sl \<noteq> hr_filters h then Inl ErrFilterMismatch
          else Inr (db, sl)
      | None \<Rightarrow>
          bind_res (internal (slot_limit_reached max_slots (hr_slot_name h) db)) (\<lambda>full.
            if full then Inl ErrSlotLimit
            else
              (let sl = \<lparr>slot_name = hr_slot_name h, slot_consumer = hr_node_id h,
                         slot_confirmed = (case cursor of Some c \<Rightarrow> c | None \<Rightarrow> \<lparr>g_epoch = 0, g_seq = 0\<rparr>),
                         slot_filters = hr_filters h, slot_created_at = now, slot_last_ack_at = now, slot_stale = False\<rparr>
               in bind_res (internal (put_repl_slot sl db)) (\<lambda>db'. Inr (db', sl)))))"

definition handle_hello ::
    "(bytes \<Rightarrow> bytes list option) \<Rightarrow> bytes option \<Rightarrow> nat \<Rightarrow> int \<Rightarrow> bytes \<Rightarrow> hello_request \<Rightarrow> db \<Rightarrow> repl_fault + (db \<times> slot \<times> gtid)" where
  "handle_hello from_bytes node_id max_slots now cn h db =
     (if hr_node_id h \<noteq> cn then Inl ErrNodeIdMismatch
      else if \<not> valid_slot_name (hr_slot_name h) then Inl ErrBadRequest
      else bind_res (topology_check from_bytes node_id h db) (\<lambda>_.
        if hr_ever_primary h then Inl ErrDiverged
        else if list_ex range_bad (hr_executed h) then Inl ErrBadRequest
        else
          bind_res (internal (add_ranges (hr_executed h) gs_new)) (\<lambda>executed.
          let cursor = set_cursor executed
          in bind_res (internal (high_watermark db)) (\<lambda>w.
             bind_res (internal (repl_slot (hr_slot_name h) db)) (\<lambda>so.
               if (case so of Some sl \<Rightarrow> slot_stale sl | None \<Rightarrow> False) then Inl ErrBinlogGone
               else
                 bind_res (internal (repl_local_gtid_set db)) (\<lambda>upstream.
                   if \<not> gs_is_subset executed upstream then Inl ErrDiverged
                   else
                     bind_res (resume_check cursor db) (\<lambda>_.
                     bind_res (enter_slot max_slots now h cursor so db) (\<lambda>(db', sl). Inr (db', sl, w)))))))))"

definition handle_slot_create ::
    "nat \<Rightarrow> int \<Rightarrow> bytes \<Rightarrow> bytes \<Rightarrow> bytes option \<Rightarrow> bucket_filter \<Rightarrow> gtid option \<Rightarrow> db \<Rightarrow> repl_fault + (db \<times> slot)" where
  "handle_slot_create max_slots now cn name consumer filters confirmed db =
     (if \<not> valid_slot_name name then Inl ErrBadRequest
      else bind_res (case confirmed of Some g \<Rightarrow> Inr g | None \<Rightarrow> internal (high_watermark db)) (\<lambda>g.
        bind_res (internal (repl_slot name db)) (\<lambda>so.
          if so \<noteq> None then Inl ErrSlotExists
          else bind_res (internal (slot_limit_reached max_slots name db)) (\<lambda>full.
            if full then Inl ErrSlotLimit
            else
              (let sl = \<lparr>slot_name = name, slot_consumer = (case consumer of Some c \<Rightarrow> c | None \<Rightarrow> cn), slot_confirmed = g,
                         slot_filters = filters, slot_created_at = now, slot_last_ack_at = now, slot_stale = False\<rparr>
               in bind_res (internal (put_repl_slot sl db)) (\<lambda>db'. Inr (db', sl)))))))"

definition handle_slot_drop :: "bytes \<Rightarrow> db \<Rightarrow> repl_fault + db" where
  "handle_slot_drop name db =
     (if \<not> valid_slot_name name then Inl ErrBadRequest
      else bind_res (internal (repl_slot name db)) (\<lambda>so.
        if so = None then Inl ErrSlotUnknown else internal (delete_repl_slot name db)))"

text \<open>The code tells a stale slot from a step back by the text of the error; both are invalid arguments of the store.\<close>

definition handle_slot_ack :: "bytes \<Rightarrow> gtid \<Rightarrow> int \<Rightarrow> db \<Rightarrow> repl_fault + (db \<times> slot)" where
  "handle_slot_ack name confirmed now db =
     (if \<not> valid_slot_name name then Inl ErrBadRequest
      else case ack_repl_slot name confirmed now db of
          Inr r \<Rightarrow> Inr r
        | Inl NotFound \<Rightarrow> Inl ErrSlotUnknown
        | Inl InvalidArgument \<Rightarrow> Inl (if (case slot_at name db of Some sl \<Rightarrow> slot_stale sl | None \<Rightarrow> False) then ErrBinlogGone else ErrBadRequest)
        | Inl e \<Rightarrow> Inl (ErrInternal e))"

section \<open>No gap in what is served\<close>

text \<open>The position after a cursor is not above any later position.\<close>

lemma next_wanted_le:
  assumes "gtid_ok g" "gtid_less after g" "\<not> (g_epoch after = 0 \<and> g_seq after = 0)"
  shows "\<not> gtid_less g (next_wanted after fl)"
proof (cases "g_epoch after < g_epoch g")
  case True
  with assms(3) show ?thesis by (auto simp: next_wanted_def gtid_less_def)
next
  case False
  then have "g_epoch g = g_epoch after" "g_seq after + 1 \<le> g_seq g" using assms(2) by (auto simp: gtid_less_def)
  moreover have "g_seq g < 2 ^ 64" using assms(1) by (simp add: gtid_ok_def)
  ultimately show ?thesis using assms(3) by (auto simp: next_wanted_def gtid_less_def)
qed

lemma no_gap:
  assumes "kv_wf p" "binlog_is p L" "gap_check after p = Inr ()" "list_all record_ok (D @ L)" "sorted_wrt gtid_less (map fst (D @ L))"
    "\<not> (g_epoch after = 0 \<and> g_seq after = 0)" "L \<noteq> []"
  shows "later after D = []"
proof (rule ccontr)
  assume "later after D \<noteq> []"
  then obtain x where x: "x \<in> set D" "gtid_less after (fst x)" by (auto simp: filter_empty_conv)
  obtain y L' where L: "L = y # L'" using assms(7) by (cases L) auto
  have "gtid_less (fst x) (fst y)" using assms(5) x(1) by (simp add: L sorted_wrt_append)
  moreover have "gtid_ok (fst x)" using assms(4) x(1) by (auto simp: list_all_iff record_ok_def)
  ultimately have "gtid_less (next_wanted after (fst y)) (fst y)" using next_wanted_le [OF _ x(2) assms(6)] gtid_less_trans(2) by blast
  then show False using assms(3) floor_first [OF assms(1,2)] by (simp add: gap_check_def L)
qed

text \<open>What a downstream can count on: everything, or, before its first record, everything from the epoch on in which the log begins.\<close>

definition due_history :: "gtid \<Rightarrow> (gtid \<times> repl_record) list \<Rightarrow> (gtid \<times> repl_record) list \<Rightarrow> (gtid \<times> repl_record) list" where
  "due_history after L H =
     (if g_epoch after = 0 \<and> g_seq after = 0 \<and> L \<noteq> [] then filter (\<lambda>x. g_epoch (fst (hd L)) \<le> g_epoch (fst x)) H else H)"

lemma no_gap_fresh:
  assumes "kv_wf p" "binlog_is p L" "gap_check after p = Inr ()" "list_all record_ok (D @ L)" "sorted_wrt gtid_less (map fst (D @ L))"
    "g_epoch after = 0" "g_seq after = 0" "L \<noteq> []"
  shows "due_history after L (D @ L) = L"
proof -
  obtain y L' where L: "L = y # L'" using assms(8) by (cases L) auto
  have nl: "\<not> gtid_less \<lparr>g_epoch = g_epoch (fst y), g_seq = 1\<rparr> (fst y)"
    using assms(3,6,7) floor_first [OF assms(1,2)] by (simp add: gap_check_def next_wanted_def L split: if_splits)
  have up: "\<not> gtid_less (fst x) (fst y)" if "x \<in> set L" for x
    using assms(5) that by (auto simp: L sorted_wrt_append dest: gtid_less_asym)
  have "\<not> g_epoch (fst y) \<le> g_epoch (fst x)" if "x \<in> set D" for x
  proof -
    have "gtid_less (fst x) (fst y)" "1 \<le> g_seq (fst x)"
      using assms(4,5) that by (auto simp: L sorted_wrt_append list_all_iff record_ok_def)
    with nl show ?thesis by (auto simp: gtid_less_def)
  qed
  then have "filter (\<lambda>x. g_epoch (fst y) \<le> g_epoch (fst x)) D = []" by (simp add: filter_empty_conv)
  moreover have "filter (\<lambda>x. g_epoch (fst y) \<le> g_epoch (fst x)) L = L"
    using up by (intro filter_True) (auto simp: gtid_less_def not_less)
  ultimately show ?thesis using assms(6,7) by (simp add: due_history_def L)
qed

lemma served_due:
  assumes "primary_at p L e b n" "list_all record_ok (D @ L)" "sorted_wrt gtid_less (map fst (D @ L))" "gap_check after p = Inr ()" "L \<noteq> []"
  shows "later after (due_history after L (D @ L)) = later after L"
proof (cases "g_epoch after = 0 \<and> g_seq after = 0")
  case True
  then show ?thesis using no_gap_fresh [OF _ _ assms(4,2,3) _ _ assms(5)] assms(1) by (simp add: primary_at_def)
next
  case False
  then show ?thesis using no_gap [OF _ _ assms(4,2,3) False assms(5)] assms(1) by (auto simp: primary_at_def due_history_def)
qed

text \<open>
  C12. What the log endpoint serves to a downstream is always the next stretch of the whole history after its cursor, however
  much of the beginning of the log has been truncated, each record narrowed to the buckets of the slot and none held back in
  between; and no record is passed on whose data the node itself still lacks. The exception is a cursor before every
  record (0-0): it is served the history from the first record of the epoch in which the log now begins, so that records of
  earlier epochs that have been truncated are passed over without a refusal. (The pull worker does not ask from there, it
  takes a snapshot.)
\<close>

theorem served_without_gap:
  assumes "primary_at p L e b n" "list_all record_ok (D @ L)" "sorted_wrt gtid_less (map fst (D @ L))"
    "gtid_ok after" "handle_binlog name after limit p = Inr recs"
  shows "\<exists>sl k. slot_at name p = Some sl \<and>
    recs = take k (map (\<lambda>(g, r). (g, scoped_for (slot_filters sl) r)) (later after (due_history after L (D @ L)))) \<and>
    list_all (\<lambda>(g, r). data_refs_of (rr_ops r) = [] \<or> \<not> repl_pending_exists p g) recs"
proof -
  have bl: "kv_wf p" "binlog_is p L" using assms(1) by (simp_all add: primary_at_def)
  from assms(5) obtain sl u and w :: gtid and es where sl: "slot_for_pull name p = Inr sl" and gap: "gap_check after p = Inr u"
    and es: "(if g_epoch w < g_epoch after then Inr [] else internal (repl_binlog_scan p after (max 1 (min limit MAX_BINLOG_LIMIT)))) = Inr es"
    and "Inr (ship p (map (\<lambda>(g, r). (g, scoped_for (slot_filters sl) r)) (filter (\<lambda>x. gtid_less after (fst x)) es))) = (Inr recs :: repl_fault + _)"
    unfolding handle_binlog_def bind_res_eq_Inr by blast
  then have recs: "recs = ship p (map (\<lambda>(g, r). (g, scoped_for (slot_filters sl) r)) (filter (\<lambda>x. gtid_less after (fst x)) es))" by simp
  let ?f = "\<lambda>(g, r). (g, scoped_for (slot_filters sl) r)"
  obtain j where j: "es = take j (later after L)"
    using es binlog_scan [OF bl assms(4), of "max 1 (min limit MAX_BINLOG_LIMIT)"] by (auto split: if_splits intro: that [of 0])
  have "filter (\<lambda>x. gtid_less after (fst x)) es = es"
    unfolding j by (rule filter_True) (auto dest: in_set_takeD)
  with recs ship_take [of p "map ?f es"] obtain i where i: "recs = take i (map ?f (take j (later after L)))" by (auto simp: j)
  have "later after (due_history after L (D @ L)) = later after L" if "L \<noteq> []" using served_due [OF assms(1-3) _ that] gap by simp
  then have "take i (map ?f (take j (later after L))) = take (if L = [] then 0 else min i j) (map ?f (later after (due_history after L (D @ L))))"
    by (simp add: take_map)
  moreover have "list_all (\<lambda>(g, r). data_refs_of (rr_ops r) = [] \<or> \<not> repl_pending_exists p g) recs"
    unfolding recs by (auto simp: list_all_iff dest: ship_present)
  ultimately show ?thesis using slot_for_pull_at [OF sl] i by metis
qed

text \<open>
  The exception occurs: once the log begins with the first record of a later epoch, a cursor before every record passes the check
  for a gap, and the truncated records of the earlier epochs are not part of what it is served.
\<close>

theorem fresh_cursor_passes_over_epochs:
  assumes "primary_at p (x # L) e b n" "g_seq (fst x) = 1" "D \<noteq> []" "list_all (\<lambda>y. g_epoch (fst y) < g_epoch (fst x)) D"
    "list_all record_ok D"
  shows "gap_check \<lparr>g_epoch = 0, g_seq = 0\<rparr> p = Inr () \<and> later \<lparr>g_epoch = 0, g_seq = 0\<rparr> D = D \<and>
    set D \<inter> set (later \<lparr>g_epoch = 0, g_seq = 0\<rparr> (due_history \<lparr>g_epoch = 0, g_seq = 0\<rparr> (x # L) (D @ x # L))) = {}"
proof -
  have bl: "kv_wf p" "binlog_is p (x # L)" using assms(1) by (simp_all add: primary_at_def)
  have "gap_check \<lparr>g_epoch = 0, g_seq = 0\<rparr> p = Inr ()"
    using floor_first [OF bl] assms(2) by (simp add: gap_check_def next_wanted_def gtid_less_def)
  moreover have "later \<lparr>g_epoch = 0, g_seq = 0\<rparr> D = D"
    using assms(5) by (intro filter_True) (auto simp: list_all_iff record_ok_def gtid_less_def)
  ultimately show ?thesis using assms(4) by (auto simp: due_history_def list_all_iff)
qed

definition sample_relay :: db where
  "sample_relay = fst (commit True 5 10 [SseKekSeedPut (replicate 64 1)] sample_primary)"

lemma sample_committed: "kv_wf sample_primary" "commit True 5 10 [SseKekSeedPut (replicate 64 1)] sample_primary = (sample_relay, Inr 1)"
  using sample_primary_at sample_commit by (auto simp: sample_relay_def primary_at_def)

lemma sample_relay_facts:
  "primary_at sample_relay [(position_of 1 0 1, record_of 1 1 5 [SseKekSeedPut (replicate 64 1)])] 1 0 1" "slot_for_pull [97] sample_relay = Inr sample_slot"
proof -
  note P = sample_primary_at and w = sample_committed(1) and c = sample_committed(2)
  show "primary_at sample_relay [(position_of 1 0 1, record_of 1 1 5 [SseKekSeedPut (replicate 64 1)])] 1 0 1"
    using commit_primary [OF P _ _ c] by auto
  have "slot_at [97] sample_relay = slot_at [97] sample_primary" using commit_slots(2) [OF w _ c] by (intro slot_at_cong) simp
  then show "slot_for_pull [97] sample_relay = Inr sample_slot"
    by (intro slot_pull_ok [OF sample_name]) (simp_all add: slot_at_def sample_primary_def repl_slot_key_def kv_get_def sample_slot_def)
qed

theorem served_without_gap_witness:
  "\<exists>recs. handle_binlog [97] (position_of 1 0 0) 10 sample_relay = Inr recs \<and> recs \<noteq> [] \<and>
     (\<exists>k. recs = take k (map (\<lambda>(g, r). (g, scoped_for AllBuckets r)) [(position_of 1 0 1, record_of 1 1 5 [SseKekSeedPut (replicate 64 1)])]))"
proof -
  let ?x = "(position_of 1 0 1, record_of 1 1 5 [SseKekSeedPut (replicate 64 1)])"
  have lt: "gtid_less (position_of 1 0 0) (position_of 1 0 1)" by (simp add: position_of_def gtid_less_def)
  have bl: "list_all record_ok [?x]" using sample_relay_facts(1) by (simp add: primary_at_def binlog_is_def)
  have nz: "\<not> (g_epoch (position_of 1 0 0) = 0 \<and> g_seq (position_of 1 0 0) = 0)" by (simp add: position_of_def)
  have h: "handle_binlog [97] (position_of 1 0 0) 10 sample_relay = Inr [?x]"
    using handle_binlog_next [OF sample_relay_facts position_ok [of 1 0 0], of 10] next_wanted_position [of 0 0 1] lt
    by (simp add: position_of_def MAX_BINLOG_LIMIT_def data_refs_of_def record_of_def scoped_for_def sample_slot_def)
  from served_without_gap [OF sample_relay_facts(1), of "[]" "position_of 1 0 0" "[97]" 10 "[?x]"] bl nz h position_ok [of 1 0 0] lt
    slot_for_pull_at [OF sample_relay_facts(2)]
  show ?thesis by (auto simp: sample_slot_def due_history_def)
qed

text \<open>
  C17. A downstream that has every record of an epoch is turned away, and has to be rebuilt, once the log begins with the
  first record of the next epoch: the position it asks for, the next of its own epoch, is below the start of the log
  although no record is missing.
\<close>

theorem caught_up_refused_across_epochs:
  assumes "primary_at p (x # L) e b n" "sorted_wrt gtid_less (map fst (D @ x # L))" "D \<noteq> []" "c = fst (last D)"
    "1 \<le> g_epoch c" "g_epoch c < g_epoch (fst x)"
  shows "later c (D @ x # L) = x # L \<and> gap_check c p = Inl ErrBinlogGone \<and> resume_check (Some c) p = Inl ErrBinlogGone"
proof -
  have bl: "kv_wf p" "binlog_is p (x # L)" using assms(1) by (simp_all add: primary_at_def)
  note fl = floor_first [OF bl]
  have "sorted_wrt gtid_less (map fst D)" using assms(2) by (simp add: sorted_wrt_append)
  then have "later c D = []" using sorted_last [of D] assms(4) by (auto simp: filter_empty_conv)
  moreover have "later c (x # L) = x # L"
    using assms(2,3,4) last_in_set [OF assms(3)] by (intro filter_True) (auto simp: sorted_wrt_append)
  ultimately have "later c (D @ x # L) = x # L" by (simp del: filter.simps)
  moreover have "gtid_less (next_wanted c (fst x)) (fst x)" "gtid_less \<lparr>g_epoch = g_epoch c, g_seq = sat_add1 (g_seq c)\<rparr> (fst x)"
    using assms(5,6) by (auto simp: next_wanted_def gtid_less_def)
  ultimately show ?thesis using fl by (simp add: gap_check_def resume_check_def)
qed

definition sample_next_epoch :: db where
  "sample_next_epoch = [(binlog_key 2 1, VRepl (record_of 2 1 0 [])), (SYS_REPL_EPOCH, VRaw (to_be_bytes (2 :: u64))), (SYS_SEQ, VRaw (to_be_bytes (1 :: u64)))]"

lemma sample_next_epoch_primary: "primary_at sample_next_epoch [(position_of 2 0 1, record_of 2 1 0 [])] 2 0 1"
proof -
  have k: "binlog_key 2 1 < SYS_REPL_EPOCH" "binlog_key 2 1 < SYS_SEQ" "SYS_REPL_EPOCH < SYS_SEQ" "binlog_key 2 1 \<noteq> SYS_REPL_EPOCH" "binlog_key 2 1 \<noteq> SYS_SEQ"
    "binlog_key 2 1 \<noteq> SYS_REPL_EBASE" "\<not> prefix PREFIX_BINLOG SYS_REPL_EPOCH" "\<not> prefix PREFIX_BINLOG SYS_SEQ"
    by (simp_all add: binlog_key_def prefix_defs lit_def)
  have w: "kv_wf sample_next_epoch" using k by (auto simp: kv_wf_def sample_next_epoch_def)
  have "binlog_is sample_next_epoch [(position_of 2 0 1, record_of 2 1 0 [])]"
    using w k by (simp add: binlog_is_def scan_prefix_filter)
      (simp add: sample_next_epoch_def k position_of_def record_ok_def gtid_ok_def record_of_def)
  then show ?thesis using w k k(4,5) [symmetric]
    by (simp add: primary_at_def last_seq_def repl_epoch_def repl_ebase_def read_u64_def) (simp add: sample_next_epoch_def kv_get_def)
qed

theorem caught_up_refused_across_epochs_witness:
  "gap_check \<lparr>g_epoch = 1, g_seq = 7\<rparr> sample_next_epoch = Inl ErrBinlogGone \<and>
   resume_check (Some \<lparr>g_epoch = 1, g_seq = 7\<rparr>) sample_next_epoch = Inl ErrBinlogGone"
  using caught_up_refused_across_epochs [OF sample_next_epoch_primary, of "[(\<lparr>g_epoch = 1, g_seq = 7\<rparr>, record_of 1 7 0 [])]" "\<lparr>g_epoch = 1, g_seq = 7\<rparr>"]
  by (simp add: position_of_def gtid_less_def)

section \<open>The handshake\<close>

lemma resume_gap:
  assumes "kv_wf p" "binlog_is p L" "resume_check (Some c) p = Inr u" "g_seq c < u64_max"
  shows "gap_check c p = Inr ()"
proof (cases L)
  case Nil
  then show ?thesis using floor_first [OF assms(1,2)] by (simp add: gap_check_def)
next
  case (Cons x L')
  have "1 \<le> g_epoch (fst x)" using assms(2) by (auto simp: Cons binlog_is_def record_ok_def)
  moreover have nx: "\<not> gtid_less \<lparr>g_epoch = g_epoch c, g_seq = g_seq c + 1\<rparr> (fst x)"
    using assms(3,4) floor_first [OF assms(1,2)] by (simp add: resume_check_def Cons sat_add1_def split: if_splits)
  ultimately have "next_wanted c (fst x) = \<lparr>g_epoch = g_epoch c, g_seq = g_seq c + 1\<rparr>"
    using assms(4) by (auto simp: next_wanted_def gtid_less_def u64_max_def)
  then show ?thesis using floor_first [OF assms(1,2)] nx by (simp add: gap_check_def Cons)
qed

lemma entered:
  assumes "enter_slot max_slots now h cursor so p = Inr (p', sl)" "repl_slot (hr_slot_name h) p = Inr so" "kv_wf p" "slots_wf p"
    "\<not> (case so of Some sl \<Rightarrow> slot_stale sl | None \<Rightarrow> False)"
  shows "slot_at (hr_slot_name h) p' = Some sl \<and> slot_consumer sl = hr_node_id h \<and> slot_filters sl = hr_filters h \<and> \<not> slot_stale sl \<and>
    kv_wf p' \<and> slots_wf p' \<and> (\<forall>k. \<not> prefix PREFIX_REPL_SLOT k \<longrightarrow> kv_get p' k = kv_get p k) \<and>
    (\<forall>name. name \<noteq> hr_slot_name h \<longrightarrow> slot_at name p' = slot_at name p)"
proof (cases so)
  case None
  let ?g = "case cursor of Some c \<Rightarrow> c | None \<Rightarrow> \<lparr>g_epoch = 0, g_seq = 0\<rparr>"
  let ?sl = "\<lparr>slot_name = hr_slot_name h, slot_consumer = hr_node_id h, slot_confirmed = ?g,
     slot_filters = hr_filters h, slot_created_at = now, slot_last_ack_at = now, slot_stale = False\<rparr>"
  from assms(1) obtain k where k: "repl_slot_key (hr_slot_name h) = Inr k" "p' = kv_put k (VSlot ?sl) p" "sl = ?sl"
    by (auto simp: enter_slot_def None bind_res_eq_Inr put_repl_slot_def Let_def split: if_splits)
  have other: "slot_at name p' = slot_at name p" if "name \<noteq> hr_slot_name h" for name
  proof (cases "repl_slot_key name")
    case (Inr k')
    then have "k' \<noteq> k" using slot_key_inj [OF k(1), of name] that by auto
    then show ?thesis using Inr assms(3) by (simp add: slot_at_def k(2) store.get_put)
  qed (simp add: slot_at_def)
  have "slots_wf p'" using slots_wf_put [OF assms(4,3), of ?sl k] k by simp
  with other k assms(3) slot_key_prefix [OF k(1)] show ?thesis by (auto simp: slot_at_def store.get_put store.wf_put)
next
  case (Some s)
  then have "p' = p" "sl = s" "slot_consumer s = hr_node_id h" "slot_filters s = hr_filters h" "\<not> slot_stale s"
    using assms(1,5) by (auto simp: enter_slot_def split: if_splits)
  then show ?thesis using repl_slot_at assms(2-4) Some by auto
qed

lemma helloE:
  assumes "handle_hello from_bytes node_id max_slots now cn h p = Inr (p', sl, w)"
  obtains executed upstream so u where "hr_node_id h = cn" "valid_slot_name (hr_slot_name h)" "topology_check from_bytes node_id h p = Inr u"
    "\<not> hr_ever_primary h" "add_ranges (hr_executed h) gs_new = Inr executed" "high_watermark p = Inr w" "repl_slot (hr_slot_name h) p = Inr so"
    "\<not> (case so of Some sl \<Rightarrow> slot_stale sl | None \<Rightarrow> False)" "repl_local_gtid_set p = Inr upstream" "gs_is_subset executed upstream"
    "resume_check (set_cursor executed) p = Inr ()" "enter_slot max_slots now h (set_cursor executed) so p = Inr (p', sl)"
proof -
  have a: "hr_node_id h = cn" "valid_slot_name (hr_slot_name h)" using assms by (auto simp: handle_hello_def split: if_splits)
  then obtain u where u: "topology_check from_bytes node_id h p = Inr u" and b: "\<not> hr_ever_primary h" "\<not> list_ex range_bad (hr_executed h)"
    using assms by (cases "topology_check from_bytes node_id h p") (auto simp: handle_hello_def split: if_splits)
  note c = assms [unfolded handle_hello_def, simplified a u b bind_res_simps simp_thms if_True if_False Let_def]
  from c obtain executed and x :: gtid and so where
    d: "add_ranges (hr_executed h) gs_new = Inr executed" "high_watermark p = Inr x" "repl_slot (hr_slot_name h) p = Inr so"
    and f: "(if case so of Some sl \<Rightarrow> slot_stale sl | None \<Rightarrow> False then Inl ErrBinlogGone
      else bind_res (internal (repl_local_gtid_set p)) (\<lambda>upstream. if \<not> gs_is_subset executed upstream then Inl ErrDiverged
        else bind_res (resume_check (set_cursor executed) p)
          (\<lambda>_. bind_res (enter_slot max_slots now h (set_cursor executed) so p) (\<lambda>(db', sl). Inr (db', sl, x))))) = Inr (p', sl, w)"
    unfolding bind_res_eq_Inr internal_Inr by blast
  then have ns: "\<not> (case so of Some sl \<Rightarrow> slot_stale sl | None \<Rightarrow> False)" by (meson Inl_Inr_False)
  with f obtain upstream where up: "repl_local_gtid_set p = Inr upstream"
    and g: "(if \<not> gs_is_subset executed upstream then Inl ErrDiverged else bind_res (resume_check (set_cursor executed) p)
       (\<lambda>_. bind_res (enter_slot max_slots now h (set_cursor executed) so p) (\<lambda>(db', sl). Inr (db', sl, x)))) = Inr (p', sl, w)"
    by (simp only: if_False bind_res_eq_Inr internal_Inr) blast
  then have sub: "gs_is_subset executed upstream" by (meson Inl_Inr_False)
  with g have "resume_check (set_cursor executed) p = Inr ()" "enter_slot max_slots now h (set_cursor executed) so p = Inr (p', sl)" "x = w"
    by (auto simp: bind_res_eq_Inr)
  then show thesis using that [OF a u b(1) d(1) _ d(3) ns up sub] d(2) by blast
qed

lemma fresh_gap:
  assumes "kv_wf p" "binlog_is p L"
  shows "gap_check \<lparr>g_epoch = 0, g_seq = 0\<rparr> p = (if L \<noteq> [] \<and> 1 < g_seq (fst (hd L)) then Inl ErrBinlogGone else Inr ())"
  using floor_first [OF assms] by (cases L) (simp_all add: gap_check_def next_wanted_def gtid_less_def)

text \<open>
  C13. A downstream that passes the handshake owns a slot with the filters it asked for, everything it has executed is in the
  history of this node, the log is untouched and slots of other downstreams stay as they were. If it has executed
  anything, the pull at its position is answered rather than refused. If it has executed nothing, its pull from 0-0 is
  refused, with the error that sends it to a snapshot, exactly when the log no longer begins with the first record of an epoch.
  (Positions are those a log can hold, below the last sequence number.)
\<close>

theorem hello_admits:
  assumes "primary_at p L e b n" "slots_wf p" "handle_hello from_bytes node_id max_slots now cn h p = Inr (p', sl, w)"
    "add_ranges (hr_executed h) gs_new = Inr executed" "c = (case set_cursor executed of Some g \<Rightarrow> g | None \<Rightarrow> \<lparr>g_epoch = 0, g_seq = 0\<rparr>)"
    "gtid_ok c" "g_seq c < u64_max"
  shows "primary_at p' L e b n \<and> slots_wf p' \<and> slot_at (hr_slot_name h) p' = Some sl \<and> slot_consumer sl = cn \<and> slot_filters sl = hr_filters h \<and>
    \<not> slot_stale sl \<and> (\<forall>name. name \<noteq> hr_slot_name h \<longrightarrow> slot_at name p' = slot_at name p) \<and>
    (\<exists>upstream. repl_local_gtid_set p = Inr upstream \<and> gs_is_subset executed upstream) \<and>
    (if set_cursor executed = None \<and> L \<noteq> [] \<and> 1 < g_seq (fst (hd L))
     then handle_binlog (hr_slot_name h) c limit p' = Inl ErrBinlogGone
     else \<exists>recs. handle_binlog (hr_slot_name h) c limit p' = Inr recs)"
proof -
  from helloE [OF assms(3)] assms(4) obtain upstream so where H: "hr_node_id h = cn" "valid_slot_name (hr_slot_name h)"
    "repl_slot (hr_slot_name h) p = Inr so" "\<not> (case so of Some sl \<Rightarrow> slot_stale sl | None \<Rightarrow> False)"
    "repl_local_gtid_set p = Inr upstream" "gs_is_subset executed upstream" "resume_check (set_cursor executed) p = Inr ()"
    "enter_slot max_slots now h (set_cursor executed) so p = Inr (p', sl)"
    by (metis Inr_inject)
  have w: "kv_wf p" using assms(1) by (simp add: primary_at_def)
  note E = entered [OF H(8,3) w assms(2) H(4)]
  have "log_trimmed {} p p'" using E by (simp add: log_trimmed_def)
  from log_trimmed_primary [OF assms(1) this] have P: "primary_at p' L e b n" by simp
  then have bl: "kv_wf p'" "binlog_is p' L" by (simp_all add: primary_at_def)
  have fl: "binlog_floor p' = binlog_floor p" using floor_first [OF bl] floor_first [OF w, of L] assms(1) by (simp add: primary_at_def)
  have gap: "gap_check c p' = (if set_cursor executed = None \<and> L \<noteq> [] \<and> 1 < g_seq (fst (hd L)) then Inl ErrBinlogGone else Inr ())"
  proof (cases "set_cursor executed")
    case None
    then show ?thesis using fresh_gap [OF bl] assms(5) by simp
  next
    case (Some g)
    then have "resume_check (Some c) p' = Inr ()" using H(7) fl assms(5) by (simp add: resume_check_def)
    then show ?thesis using resume_gap [OF bl _ assms(7)] Some by simp
  qed
  have sp: "slot_for_pull (hr_slot_name h) p' = Inr sl" using slot_pull_ok [OF H(2)] E by blast
  have pulled: "if set_cursor executed = None \<and> L \<noteq> [] \<and> 1 < g_seq (fst (hd L))
     then handle_binlog (hr_slot_name h) c limit p' = Inl ErrBinlogGone
     else \<exists>recs. handle_binlog (hr_slot_name h) c limit p' = Inr recs"
    using sp gap watermark_position [OF P] binlog_scan [OF bl assms(6), of "max 1 (min limit MAX_BINLOG_LIMIT)"] by (simp add: handle_binlog_def)
  show ?thesis using P E H(1,5,6) pulled by blast
qed

definition sample_hello :: hello_request where
  "sample_hello = \<lparr>hr_node_id = [98], hr_slot_name = [97], hr_executed = [(1, 1, 1)], hr_filters = AllBuckets, hr_chain = [[99]], hr_ever_primary = False\<rparr>"

lemma sample_relay_keys: "k \<in> {SYS_REPL_UPCHAIN, SYS_REPL_EXECUTED, SYS_REPL_ROLE} \<Longrightarrow> kv_get sample_relay k = None"
proof -
  assume k: "k \<in> {SYS_REPL_UPCHAIN, SYS_REPL_EXECUTED, SYS_REPL_ROLE}"
  note w = sample_committed(1) and c = sample_committed(2)
  have "\<not> is_metadata k" using node_key [of k k] k by (auto simp: node_families_def)
  with k have "kv_get sample_relay k = kv_get sample_primary k"
    by (intro commit_frame(2) [OF w _ c]) (auto simp: prefix_defs lit_def)
  with k show ?thesis by (auto simp: sample_primary_def kv_get_def prefix_defs lit_def)
qed

lemma sample_relay_history: "repl_local_gtid_set sample_relay = Inr \<lparr>ranges = [(1, [(1, 1)])]\<rparr>"
proof -
  let ?x = "(position_of 1 0 1, record_of 1 1 5 [SseKekSeedPut (replicate 64 1)])"
  note P = sample_relay_facts(1)
  have bl: "kv_wf sample_relay" "binlog_is sample_relay [?x]" using P by (simp_all add: primary_at_def)
  have z: "gtid_ok \<lparr>g_epoch = 0, g_seq = 0\<rparr>" by (simp add: gtid_ok_def)
  have "max_pages 1024 (Suc (length sample_relay)) sample_relay \<lparr>g_epoch = 0, g_seq = 0\<rparr> [] = Inr [(1, 1)]"
    using binlog_scan [OF bl z, of 1024] by (simp add: gtid_less_def position_of_def note_max_def)
  moreover have "read_role sample_relay = Inr Primary" using sample_relay_keys [of SYS_REPL_ROLE] by (simp add: read_role_def)
  moreover have "repl_executed sample_relay = Inr gs_new" using sample_relay_keys [of SYS_REPL_EXECUTED] by (simp add: repl_executed_def)
  ultimately show ?thesis
    using P by (simp add: repl_local_gtid_set_def own_watermark_def primary_at_def insert_range_def gs_new_def splice_range_def)
qed

theorem hello_admits_witness:
  "handle_hello (\<lambda>_. None) (Some [100]) 8 5 [98] sample_hello sample_relay = Inr (sample_relay, sample_slot, \<lparr>g_epoch = 1, g_seq = 1\<rparr>) \<and>
   (\<exists>recs. handle_binlog [97] \<lparr>g_epoch = 1, g_seq = 1\<rparr> 10 sample_relay = Inr recs)"
proof -
  note P = sample_relay_facts(1)
  have bl: "kv_wf sample_relay" "binlog_is sample_relay [(position_of 1 0 1, record_of 1 1 5 [SseKekSeedPut (replicate 64 1)])]"
    using P by (simp_all add: primary_at_def)
  have ex: "add_ranges (hr_executed sample_hello) gs_new = Inr \<lparr>ranges = [(1, [(1, 1)])]\<rparr>" "set_cursor \<lparr>ranges = [(1, [(1, 1)])]\<rparr> = Some \<lparr>g_epoch = 1, g_seq = 1\<rparr>"
    by (simp_all add: sample_hello_def insert_range_def gs_new_def splice_range_def set_cursor_def gs_ranges_def gtid_max_def)
  have rs: "repl_slot [97] sample_relay = Inr (Some sample_slot)"
    using slot_for_pull_at [OF sample_relay_facts(2)] by (auto simp: repl_slot_def elim!: slot_atE)
  have tc: "topology_check (\<lambda>_. None) (Some [100]) sample_hello sample_relay = Inr ()"
    using sample_relay_keys [of SYS_REPL_UPCHAIN] by (simp add: topology_check_def repl_upchain_def sample_hello_def MAX_CHAIN_HOPS_def)
  have rc: "resume_check (Some \<lparr>g_epoch = 1, g_seq = 1\<rparr>) sample_relay = Inr ()"
    using floor_first [OF bl] by (simp add: resume_check_def position_of_def gtid_less_def sat_add1_def u64_max_def)
  have hw: "high_watermark sample_relay = Inr \<lparr>g_epoch = 1, g_seq = 1\<rparr>" using P by (simp add: high_watermark_def primary_at_def)
  have en: "enter_slot 8 5 sample_hello (Some \<lparr>g_epoch = 1, g_seq = 1\<rparr>) (Some sample_slot) sample_relay = Inr (sample_relay, sample_slot)"
    by (simp add: enter_slot_def sample_hello_def sample_slot_def)
  have fs: "hr_node_id sample_hello = [98]" "hr_slot_name sample_hello = [97]" "\<not> hr_ever_primary sample_hello" "\<not> list_ex range_bad (hr_executed sample_hello)"
    "\<not> slot_stale sample_slot" by (simp_all add: sample_hello_def range_bad_def sample_slot_def)
  have h: "handle_hello (\<lambda>_. None) (Some [100]) 8 5 [98] sample_hello sample_relay = Inr (sample_relay, sample_slot, \<lparr>g_epoch = 1, g_seq = 1\<rparr>)"
    using fs sample_name tc ex hw rs rc en sample_relay_history
    by (simp add: handle_hello_def gs_is_subset_def covered_def partition_point_def)
  have "slots_wf sample_primary" by (auto simp: slots_wf_def sample_primary_def kv_get_def repl_slot_key_def sample_slot_def split: if_splits)
  moreover have "kv_get sample_relay k = kv_get sample_primary k" if "prefix PREFIX_REPL_SLOT k" for k
    using commit_slots(2) [OF sample_committed(1) _ sample_committed(2) that] by simp
  ultimately have "slots_wf sample_relay" using slots_wf_cong [of sample_relay sample_primary] by simp
  with hello_admits [OF P _ h ex(1), of "\<lparr>g_epoch = 1, g_seq = 1\<rparr>"] show ?thesis using h fs(2) ex(2) by (auto simp: gtid_ok_def u64_max_def)
qed

section \<open>Standbys of some buckets\<close>

lemma heartbeat_applied:
  assumes "standby_at s c X" "record_ok (g, r)" "gtid_less c g" "rr_ops r = []"
  shows "\<exists>s1 X1. apply_repl_record mx g r s = Inr (s1, Applied) \<and> standby_at s1 g X1 \<and> sim s s1"
proof -
  have "sim s s" using assms(1) by (simp add: sim_def standby_at_def)
  from apply_record_sim [OF assms(1-3) this, of True 0 s mx] assms(4) obtain s1 where
    s1: "apply_repl_record mx g r s = Inr (s1, Applied)" "sim s s1" by (auto simp: trimmed_def)
  then show ?thesis using apply_record_standby [OF assms(1-3) s1(1)] by blast
qed

lemma part_refused:
  assumes "standby_at s c X" "record_ok (g, r)" "gtid_less c g" "rr_ops r = MultipartOp (PartPut uid no pm) # ops" "kv_get s (session_key uid) = None"
  shows "apply_repl_record mx g r s = Inl NotFound"
proof -
  obtain le m where lm: "repl_epoch s = Inr le" "last_seq s = Inr m" and w: "kv_wf s" and X: "gs_wf X"
    using assms(1) by (auto simp: standby_at_def)
  obtain X' where X': "gs_insert X g = Some X'" using insert_position [OF X assms(2)] by blast
  have "session_key uid \<noteq> SYS_REPL_EPOCH" by (simp add: session_key_def prefix_defs lit_def)
  then have "kv_get (raised r le s) (session_key uid) = None" using raised_facts(2) [OF w] assms(5) by simp
  then show ?thesis unfolding apply_record_shape [OF assms(1-3) lm X'] by (simp add: assms(4) op_part_put_def)
qed

text \<open>
  C18. A standby whose slot is limited to some buckets stalls on the first part uploaded to a bucket outside: the start of
  the upload is filtered out for the bucket, but the part, which names no bucket, is passed on and refused with
  \<^verbatim>\<open>NotFound\<close>, at this and every further attempt.
\<close>

theorem scoped_standby_stalls:
  assumes "primary_at p L e b n" "n \<noteq> - 1" "n + 1 \<noteq> - 1"
    "valid_slot_name name" "slot_at name p = Some sl" "\<not> slot_stale sl" "slot_filters sl \<noteq> AllBuckets"
    "\<not> allows_bucket (slot_filters sl) (ms_bucket u)"
    "standby_at s (position_of e b n) X" "kv_get s (session_key uid) = None"
    "commit True now mx [MultipartOp (MultipartCreate uid u)] p = (p1, Inr m1)"
    "commit True now' mx [MultipartOp (PartPut uid no pm), Alloc d] p1 = (p2, Inr m2)"
    "\<not> repl_pending_exists p2 (position_of e b (n + 1 + 1))" "2 \<le> limit"
  shows "\<exists>s1. pull mx name limit p2 s = (s1, Stopped (ErrInternal NotFound)) \<and>
    pull mx name limit p2 s1 = (s1, Stopped (ErrInternal NotFound))"
proof -
  let ?f = "\<lambda>(g, r). (g, scoped_for (slot_filters sl) r)"
  let ?lim = "max 1 (min limit MAX_BINLOG_LIMIT)"
  define c where "c = position_of e b n"
  define g1 where "g1 = position_of e b (n + 1)"
  define g2 where "g2 = position_of e b (n + 1 + 1)"
  define r1 where "r1 = record_of e (n + 1) now [MultipartOp (MultipartCreate uid u)]"
  define r2 where "r2 = record_of e (n + 1 + 1) now' [MultipartOp (PartPut uid no pm), Alloc d]"
  have P1: "primary_at p1 (L @ [(g1, r1)]) e b (n + 1)"
    using commit_primary [OF assms(1,2) _ assms(11)] by (auto simp: g1_def r1_def)
  have P2: "primary_at p2 (L @ [(g1, r1), (g2, r2)]) e b (n + 1 + 1)"
    using commit_primary [OF P1 assms(3) _ assms(12)] by (auto simp: g2_def r2_def)
  have "slot_at name p2 = slot_at name p"
    using commit_slots [OF _ _ assms(11)] commit_slots [OF _ _ assms(12)] assms(1) P1
    by (intro slot_at_cong) (simp add: primary_at_def)
  then have sp: "slot_for_pull name p2 = Inr sl" using slot_pull_ok assms(4-6) by simp
  have bn: "b \<le> n" "b \<le> n + 1" "1 \<le> e" and up: "list_all (\<lambda>x. \<not> gtid_less c (fst x)) L"
    using assms(1) P1 by (simp_all add: primary_at_def c_def)
  have lt: "gtid_less c g1" "gtid_less g1 g2" unfolding c_def g1_def g2_def
    using position_next(2) [OF bn(1) assms(2)] position_next(2) [OF bn(2) assms(3)] .
  have nw: "next_wanted c f = g1" "next_wanted g1 f = g2" for f
    unfolding c_def g1_def g2_def using next_wanted_position [OF bn(1) assms(2) bn(3)] next_wanted_position [OF bn(2) assms(3) bn(3)] .
  have low: "\<not> gtid_less g1 (fst (hd (L @ [(g1, r1), (g2, r2)])))"
    using up gtid_less_trans(1) [OF lt(1)] by (cases L) auto
  have low2: "\<not> gtid_less g2 (fst (hd (L @ [(g1, r1), (g2, r2)])))" using low gtid_less_trans(1) [OF lt(2)] by blast
  have L0: "later c L = []" "later g1 L = []" using up gtid_less_trans(1) [OF lt(1)] by (auto simp: list_all_iff filter_empty_conv)
  have l1: "later c (L @ [(g1, r1), (g2, r2)]) = [(g1, r1), (g2, r2)]" using L0 lt gtid_less_trans(1) [OF lt] by simp
  have l2: "later g1 (L @ [(g1, r1), (g2, r2)]) = [(g2, r2)]" using L0 lt by simp
  have lim: "take ?lim [x, y] = [x, y]" "take ?lim [x] = [x]" for x y :: "gtid \<times> repl_record"
    using assms(14) by (simp_all add: MAX_BINLOG_LIMIT_def)
  have s1r: "scoped_for (slot_filters sl) r1 = r1\<lparr>rr_ops := []\<rparr>"
    using assms(7,8) by (simp add: scoped_for_def r1_def record_of_def op_kept_def)
  have s2r: "scoped_for (slot_filters sl) r2 = r2" by (simp add: scoped_for_def r2_def record_of_def op_kept_def)
  have ok: "record_ok (g1, r1\<lparr>rr_ops := []\<rparr>)" "record_ok (g2, r2)"
    using P2 by (simp_all add: primary_at_def binlog_is_def record_ok_def)
  have ep: "gtid_ok c" "gtid_ok g1" "g_epoch c \<le> unat e" "g_epoch g1 \<le> unat e"
    by (simp_all add: c_def g1_def position_ok) (simp_all add: position_of_def)
  have ship2: "ship p2 [(g2, r2)] = [(g2, r2)]" using assms(13) by (simp add: g2_def)
  have h1: "handle_binlog name c limit p2 = Inr [(g1, r1\<lparr>rr_ops := []\<rparr>), (g2, r2)]"
    using handle_binlog_next [OF P2 sp ep(1,3), of limit] low ship2 unfolding l1 lim nw by (simp add: s1r s2r data_refs_of_def)
  have h2: "handle_binlog name g1 limit p2 = Inr [(g2, r2)]"
    using handle_binlog_next [OF P2 sp ep(2,4), of limit] low2 ship2 unfolding l2 lim nw by (simp add: s2r)
  obtain s1 X1 where S1: "apply_repl_record mx g1 (r1\<lparr>rr_ops := []\<rparr>) s = Inr (s1, Applied)" "standby_at s1 g1 X1" "sim s s1"
    using heartbeat_applied [OF assms(9) [folded c_def] ok(1) lt(1), of mx] by auto
  have "is_metadata (session_key uid)" by simp
  then have "kv_get s1 (session_key uid) = None" using sim_none [OF S1(3)] assms(10) by blast
  then have no: "apply_repl_record mx g2 r2 s1 = Inl NotFound"
    using part_refused [OF S1(2) ok(2) lt(2)] by (simp add: r2_def record_of_def)
  have "repl_cursor s = Inr c" "repl_cursor s1 = Inr g1" using assms(9) S1(2) by (simp_all add: standby_at_def c_def)
  moreover have "g_epoch c \<noteq> 0" "g_epoch g1 \<noteq> 0" using bn(3) by (auto simp: c_def g1_def position_of_def word_le_nat_alt)
  ultimately show ?thesis using h1 h2 S1(1) no by (simp add: pull_def)
qed

definition sample_session :: multipart_session where
  "sample_session = session_of_legacy \<lparr>sl_bucket = [98], sl_key = [107], sl_content_type = [], sl_user_meta = [], sl_created = 0,
     sl_completed = False, sl_final_etag = [], sl_final_size = 0, sl_final_mtime = 0\<rparr>"

definition sample_part :: part_meta where
  "sample_part = part_of_format (PLegacy \<lparr>pm_size = 3, pm_etag = [], pm_mtime = 0, pm_extents = [], pm_inline = Some [1, 2, 3]\<rparr>)"

definition sample_scoped :: db where
  "sample_scoped = [(bucket_key [98], VBucket demo_bucket), (PREFIX_REPL_SLOT @ [97], VSlot (sample_slot\<lparr>slot_filters := Include [[99]]\<rparr>))]"

lemma sample_session_bucket: "ms_bucket sample_session = [98]"
  by (simp add: sample_session_def session_of_legacy_def session_of_v11_def session_of_v12_def session_of_v12b_def session_of_v12c_def
      session_of_v12d_def session_of_v19_def session_v19.defs session_v12d.defs session_v12c.defs session_v12b.defs session_v12.defs session_v11.defs)

lemma sample_scoped_primary: "primary_at sample_scoped [] 1 0 0"
proof -
  have k: "bucket_key [98] < PREFIX_REPL_SLOT @ [97]" "\<not> prefix PREFIX_BINLOG (bucket_key [98])" "\<not> prefix PREFIX_BINLOG (PREFIX_REPL_SLOT @ [97])"
    "bucket_key [98] \<notin> {SYS_SEQ, SYS_REPL_EPOCH, SYS_REPL_EBASE}" "PREFIX_REPL_SLOT @ [97] \<notin> {SYS_SEQ, SYS_REPL_EPOCH, SYS_REPL_EBASE}"
    by (simp_all add: bucket_key_def prefix_defs lit_def)
  have "kv_wf sample_scoped" using k by (simp add: kv_wf_def sample_scoped_def)
  then show ?thesis using k
    by (simp add: primary_at_def last_seq_def repl_epoch_def repl_ebase_def read_u64_def binlog_is_def REPL_INITIAL_EPOCH_def scan_prefix_filter)
      (auto simp: sample_scoped_def kv_get_def)
qed

theorem scoped_standby_stalls_witness:
  "\<exists>p1 p2 s1. commit True 5 10 [MultipartOp (MultipartCreate [117] sample_session)] sample_scoped = (p1, Inr 1) \<and>
     commit True 6 10 [MultipartOp (PartPut [117] 1 sample_part), Alloc demo_draft] p1 = (p2, Inr 2) \<and>
     pull 10 [97] 10 p2 sample_follower = (s1, Stopped (ErrInternal NotFound)) \<and> pull 10 [97] 10 p2 s1 = (s1, Stopped (ErrInternal NotFound))"
proof -
  let ?o1 = "[MultipartOp (MultipartCreate [117] sample_session)]"
  let ?o2 = "[MultipartOp (PartPut [117] 1 sample_part), Alloc demo_draft]"
  note P = sample_scoped_primary
  have w: "kv_wf sample_scoped" using P by (simp add: primary_at_def)
  let ?q = "kv_put (session_index_key [98] [117]) (VRaw []) (kv_put (session_key [117]) (VSession (SCurrent sample_session)) sample_scoped)"
  have "kv_get sample_scoped (bucket_key [98]) = Some (VBucket demo_bucket)" by (simp add: sample_scoped_def kv_get_def)
  then have a1: "apply_each (Commit True 5) (0 + 1) ?o1 sample_scoped = Inr ?q" by (simp add: op_multipart_create_def require_bucket_def sample_session_bucket)
  obtain p1 where p1: "commit True 5 10 ?o1 sample_scoped = (p1, Inr 1)" using commit_succeeds [OF P _ _ a1, of 10] by auto
  from commit_primary [OF P _ _ p1] a1 have P1: "primary_at p1 [(position_of 1 0 1, record_of 1 1 5 ?o1)] 1 0 1" and Q: "sim ?q s \<Longrightarrow> sim p1 s" for s
    by (auto simp: trimmed_def)
  have wq: "kv_wf ?q" using w by (simp add: store.wf_put)
  have "kv_get ?q (session_key [117]) \<noteq> None" using w by (simp add: store.wf_put store.get_put)
  moreover have "sim p1 ?q" using Q [of ?q] wq by (simp add: sim_def)
  ultimately have "kv_get p1 (session_key [117]) \<noteq> None" using sim_none [of p1 ?q "session_key [117]"] by simp
  then obtain p1' where "apply_each (Commit True 6) (1 + 1) ?o2 p1 = Inr p1'" by (auto simp: op_part_put_def ok_or_def op_alloc_def demo_draft_def draft_is_empty_def)
  from commit_succeeds [OF P1 _ _ this, of 10] obtain p2 where p2: "commit True 6 10 ?o2 p1 = (p2, Inr 2)" by auto
  have wp1: "kv_wf p1" using P1 by (simp add: primary_at_def)
  have pk: "prefix PREFIX_REPL_PENDING (repl_pending_key g)" for g by (simp add: repl_pending_key_def)
  have pe: "\<not> repl_pending_exists p2 g" for g
    using node_family_frame [OF w _ p1 _ pk [of g]] node_family_frame [OF wp1 _ p2 _ pk [of g]]
    by (simp add: repl_pending_exists_def) (simp add: sample_scoped_def kv_get_def repl_pending_key_def bucket_key_def prefix_defs lit_def)
  have sl: "slot_at [97] sample_scoped = Some (sample_slot\<lparr>slot_filters := Include [[99]]\<rparr>)"
    by (auto simp: slot_at_def sample_scoped_def repl_slot_key_def kv_get_def bucket_key_def prefix_defs lit_def)
  have pe2: "\<not> repl_pending_exists p2 (position_of 1 0 (0 + 1 + 1))" by (rule pe)
  from scoped_standby_stalls [OF P _ _ sample_name sl _ _ _ sample_follower_standby _ p1 p2 pe2, of 10] show ?thesis
    using p1 p2 sample_session_bucket by (auto simp: sample_slot_def sample_follower_def kv_get_def session_key_def prefix_defs lit_def)
qed

end
