(* ===== verification/Spec2Isabelle.thy ===== *)
theory Spec2Isabelle
  imports Bitmap_Race Alloc_Recovery Multipart Lifecycle Authz Listing_Pages Replica_Promote Replica_Gaps Repl_Server
begin

text \<open>
  \<^bold>\<open>FastS3: an S3 object store on raw block devices, verified in its core.\<close>

  \<^bold>\<open>The program.\<close> A node keeps object data in extents of its devices and all metadata in one ordered key-value
  store. A request is authenticated and authorised by the protocol layer (\<^verbatim>\<open>crates/fs3-s3\<close>), turned into a
  transaction by the engine (\<^verbatim>\<open>crates/fs3-engine\<close>), which takes space from the allocator
  (\<^verbatim>\<open>crates/fs3-alloc\<close>) in a draft, and committed by the metadata store (\<^verbatim>\<open>crates/fs3-meta\<close>) as a list of
  operations together with the allocation record of the draft; a failed commit rolls the draft back, and after a crash
  the allocator is rebuilt from a checkpoint and the allocation records. Every committed transaction is also a record of the
  replication log, which standbys pull and replay (\<^verbatim>\<open>crates/fs3d/src/repl.rs\<close>, \<^verbatim>\<open>repl_worker.rs\<close>). Shared types,
  clocks and position sets are in \<^verbatim>\<open>crates/fs3-core\<close>.

  \<^bold>\<open>Foundations.\<close>
  \<^item> \<open>Prelude\<close>, \<open>Rust_Std\<close>, \<open>Rust_Str\<close>: machine integers as words, the error type and its results as sums, byte order
    encodings, and the parts of Rust's library the code uses (saturating arithmetic, UTF-8, string and address parsing).
  \<^item> \<open>Keys\<close> (\<^verbatim>\<open>fs3-meta/src/keys.rs\<close>): every builder and parser of a store key. \<open>Key_Codec\<close> states what clients rely on as the
    locales \<open>key_codec\<close> (parsing inverts building) and \<open>seq_codec\<close> (byte order is the order of the arguments) and interprets
    them for each family of keys.
  \<^item> \<open>Kv\<close>: the ordered store as an association list with increasing keys, its laws in the locale \<open>ordered_store\<close>; the
    metadata theories use nothing else of it.

  \<^bold>\<open>Space.\<close>
  \<^item> \<open>Bitmap\<close>, \<open>Bitmap_Codec\<close> (\<^verbatim>\<open>fs3-alloc/src/bitmap.rs\<close>): the bitmap with its scans and its checkpoint form. \<open>Extent_Map\<close> is its
    contract as a set of marked extents; the allocator is proved against it. \<open>Bitmap_Race\<close> takes the compare-and-swap loop of
    \<^verbatim>\<open>alloc_one\<close> apart into loads, exchanges and releases of any number of threads: no extent goes to two of them.
  \<^item> \<open>Alloc\<close> (\<^verbatim>\<open>fs3-alloc/src/lib.rs\<close>): the record of the allocator and all of its methods. \<open>Alloc_Inv\<close>: well-formedness and
    what allocation hands out. \<open>Alloc_Rollback\<close>: sequences of draft operations as an inductive relation; rollback restores the
    allocator, commit keeps every extent with live bytes marked. \<open>Alloc_Recovery\<close>: replay of the log and healing of the bitmap.

  \<^bold>\<open>Metadata.\<close>
  \<^item> \<open>Clock\<close>, \<open>Gtid\<close>, \<open>Object_Meta\<close>, \<open>Meta_Records\<close> (\<^verbatim>\<open>fs3-core\<close>): the trusted clock, sets of log positions, and the stored records
    with all their older formats.
  \<^item> \<open>Meta_Entities\<close>, \<open>Meta_Store\<close>, \<open>Meta_Log\<close> (\<^verbatim>\<open>fs3-meta/src/lib.rs\<close>): every arm of \<^verbatim>\<open>apply_ops\<close>, the commit of a transaction with
    its sequence number, binlog record and event truncation, and the allocation log.
  \<^item> \<open>Versions\<close>, \<open>Version_Reads\<close>, \<open>Version_Writes\<close>, \<open>Bucket_Stats\<close>: the engine's PUT, DELETE, retention and legal hold in each
    versioning state. A successful PUT is what the next read returns, a delete marker hides a key, a locked version survives
    every request, and the statistics of a bucket are exactly the weight of its entries.
  \<^item> \<open>Multipart\<close>: starting, filling, completing and giving up a multipart upload; a completed upload is what the next read returns,
    made of exactly the parts the client named, and keeps no part behind.
  \<^item> \<open>Listing\<close>, \<open>Listing_Pages\<close>: listings against what reads return; the locale \<open>paged_listing\<close> proves once that following the
    cursors of pages ends and shows everything, for S3 listings of keys without NUL and for the scan of the background jobs.
  \<^item> \<open>Object_Lock\<close> and \<open>Lifecycle\<close>: retention changes, and the rule engine, which never panics, takes as current the version that
    reads take, and never acts before a version has been current, or replaced, for the days of a rule; the unversioned entry alone
    is dated by the first version with an id, and can go too early.

  \<^bold>\<open>Access.\<close> \<open>Policy\<close>, \<open>Policy_Parse\<close> (\<^verbatim>\<open>fs3-s3/src/policy.rs\<close>): policies, their parser over a JSON value, and the backtracking
  wildcard matcher, which ends and decides the wildcard relation over bytes. \<open>Authz\<close> (\<^verbatim>\<open>service.rs\<close>, \<^verbatim>\<open>iam.rs\<close>): all layers of a decision;
  denials win, tenants stay apart, temporary credentials only narrow.

  \<^bold>\<open>Replication.\<close>
  \<^item> \<open>Replication\<close>: applying a record on a standby, slots, truncation, promotion, snapshots. \<open>Replica_Sim\<close>: the relation between
    the stores of primary and standby (equal up to where data lies and to what a node keeps for itself) and that each
    operation of the store preserves it. \<open>Replica_Stream\<close>: this as an instance of the locale \<open>forward_simulation\<close>, lifted to
    transactions and records. \<open>Replica_Sync\<close>: the stretch of log that leads one store to another. \<open>Replica_Backfill\<close> and
    \<open>Replica_Slots\<close>: fetching of data, acknowledgement and truncation.
  \<^item> \<open>Repl_Endpoint\<close>: the log endpoint (slot, gap check, filters, delivery watermark) and the round of the pull worker that asks it,
    with its way out to a snapshot. \<open>Replica_Protocol\<close>: commits, deliveries, backfill, acknowledgements and truncations as a step
    relation; from a standby that holds what the primary holds, in every state reachable within the epoch, a standby with a live slot
    for all buckets is never refused and catches up by finitely many rounds. \<open>Replica_Promote\<close>: the epoch a promotion opens.
  \<^item> \<open>Repl_Server\<close>: the handshake and the slots; what is served has no gap, except before the first record. \<open>Replica_Gaps\<close>: a
    snapshot of a primary with empty queues puts a standby at the start of that protocol, and two places where a standby does not get
    what the primary has.

  \<^bold>\<open>Conventions.\<close> A struct is a record, an enum a datatype, errors are \<open>Inl\<close>, and a panic is an error or \<open>None\<close> of its own.
  Stateful methods take and return the state. Sequence numbers, sizes and counters that wrap or saturate are words or say
  so. Loops are structural recursions or functions with a measure. A client that follows the cursors of a listing runs on
  fuel of one more than the number of entries, and the pages of \<open>max_pages\<close> in \<open>Repl_Server\<close> on one more than the number of
  keys in the store: every page moves past at least one, so the fuel is never used up. The compare-and-swap
  loop and the replication protocol may run forever and are step relations. Properties with hypotheses are followed by a
  witness that applies them to a small store.

  \<^bold>\<open>Parameters.\<close> Code outside the repository is an argument: the serialisers of stored values, the JSON text parser, the date
  parser, the random source, clock readings, the routines
  that hash, read, encrypt and write the data of a multipart upload, the floating-point comparison of compaction candidates, and the encoded length
  of a log record. Optimistic transactions of the store are taken as atomic, and where a commit fails its writes are not
  there.

  \<^bold>\<open>Not modelled.\<close> Device and network I/O, asynchronous runtimes and worker threads: their effects on the state are the
  modelled operations. Compression, encryption, checksums and signatures: they rest on libraries that are not part of the
  repository. Routing and the XML and HTTP forms of requests and answers, the administration front end, the fleet
  agent, configuration and command line tools: front ends of the modelled operations. Rate limits and admission: floating
  point time. Of the replication service, the delegated credentials, the segment and snapshot endpoints and the
  throttling.
\<close>

end
